(* ===== verification/Firmware_Prelude.thy ===== *)
theory Firmware_Prelude
  imports Main "HOL-Library.Word" "HOL-Library.Monad_Syntax"
begin

text \<open>
  Shared vocabulary of the A1707 firmware models: the C integer types as words, objects in
  memory as lists with bounds-checked access, and the generic facts on lists, options and words
  that the component theories use.

  A C object (a buffer, a struct array) is a list. \<open>rd\<close> and \<open>wr\<close> return \<open>None\<close> when the index is
  outside the object, so an operation whose model returns \<open>None\<close> performs an access the C
  program has no right to perform (or dereferences NULL, or divides by zero). Error returns of
  the code are values of the result, never \<open>None\<close>.
\<close>

unbundle bit_operations_syntax

named_theorems mem_simps \<open>bounds-checked reads and writes\<close>
named_theorems word_nat \<open>words read as natural numbers\<close>

type_synonym u8 = "8 word"
type_synonym u16 = "16 word"
type_synonym u32 = "32 word"
type_synonym u64 = "64 word"

section \<open>Bounds-checked memory\<close>

definition rd :: "'a list \<Rightarrow> nat \<Rightarrow> 'a option" where
  "rd b i = (if i < length b then Some (b ! i) else None)"

definition wr :: "'a list \<Rightarrow> nat \<Rightarrow> 'a \<Rightarrow> 'a list option" where
  "wr b i v = (if i < length b then Some (b[i := v]) else None)"

text \<open>\<open>buf[i++] = v\<close> repeated for the values of a list.\<close>

fun wrs :: "'a list \<Rightarrow> nat \<Rightarrow> 'a list \<Rightarrow> 'a list option" where
  "wrs b i [] = Some b"
| "wrs b i (v # vs) = do { b' \<leftarrow> wr b i v; wrs b' (Suc i) vs }"

text \<open>The bytes a \<open>memcpy\<close> of \<open>n\<close> bytes from offset \<open>i\<close> reads.\<close>

definition rds :: "'a list \<Rightarrow> nat \<Rightarrow> nat \<Rightarrow> 'a list option" where
  "rds b i n = (if i + n \<le> length b then Some (take n (drop i b)) else None)"

lemma rd_Some [mem_simps]: "i < length b \<Longrightarrow> rd b i = Some (b ! i)"
  by (simp add: rd_def)

lemma rd_None [mem_simps]: "length b \<le> i \<Longrightarrow> rd b i = None"
  by (simp add: rd_def)

lemma rd_eq_Some_iff: "rd b i = Some x \<longleftrightarrow> i < length b \<and> x = b ! i"
  by (auto simp: rd_def)

lemma wr_Some [mem_simps]: "i < length b \<Longrightarrow> wr b i v = Some (b[i := v])"
  by (simp add: wr_def)

lemma wr_eq_Some_iff: "wr b i v = Some b' \<longleftrightarrow> i < length b \<and> b' = b[i := v]"
  by (auto simp: wr_def)

lemma rds_Some [mem_simps]: "i + n \<le> length b \<Longrightarrow> rds b i n = Some (take n (drop i b))"
  by (simp add: rds_def)

text \<open>A block write that fits replaces exactly the bytes it covers.\<close>

lemma wrs_Some [mem_simps]:
  "i + length vs \<le> length b \<Longrightarrow>
     wrs b i vs = Some (take i b @ vs @ drop (i + length vs) b)"
proof (induction vs arbitrary: b i)
  case Nil
  then show ?case by simp
next
  case (Cons v vs)
  from Cons.prems have i: "i < length b" by simp
  have step: "wrs b i (v # vs) = wrs (b[i := v]) (Suc i) vs"
    using i by (simp add: wr_Some)
  have "wrs (b[i := v]) (Suc i) vs =
      Some (take (Suc i) (b[i := v]) @ vs @ drop (Suc i + length vs) (b[i := v]))"
    using Cons.prems by (intro Cons.IH) simp
  moreover have "take (Suc i) (b[i := v]) = take i b @ [v]"
    using i by (simp add: take_Suc_conv_app_nth)
  moreover have "drop (Suc i + length vs) (b[i := v]) = drop (i + length (v # vs)) b"
    by simp
  ultimately show ?case
    unfolding step by simp
qed

lemma wrs_None: "length b < i + length vs \<Longrightarrow> vs \<noteq> [] \<Longrightarrow> wrs b i vs = None"
proof (induction vs arbitrary: b i)
  case Nil
  then show ?case by simp
next
  case (Cons v vs)
  show ?case
  proof (cases "i < length b")
    case False
    then show ?thesis by (simp add: wr_def)
  next
    case True
    with Cons.prems have "vs \<noteq> []" by auto
    with Cons True show ?thesis by (simp add: wr_Some)
  qed
qed

text \<open>C's \<open>%\<close> on unsigned values: a zero divisor is undefined behaviour.\<close>

definition umod :: "'a::len word \<Rightarrow> 'a word \<Rightarrow> 'a word option" where
  "umod a b = (if b = 0 then None else Some (a mod b))"

lemma umod_Some [mem_simps]: "b \<noteq> 0 \<Longrightarrow> umod a b = Some (a mod b)"
  by (simp add: umod_def)

section \<open>Lists\<close>

text \<open>The last \<open>n\<close> elements: what a bounded buffer that overwrites its oldest entry keeps.\<close>

definition lastn :: "nat \<Rightarrow> 'a list \<Rightarrow> 'a list" where
  "lastn n xs = drop (length xs - n) xs"

lemma length_lastn [simp]: "length (lastn n xs) = min n (length xs)"
  by (simp add: lastn_def)

lemma lastn_all [simp]: "length xs \<le> n \<Longrightarrow> lastn n xs = xs"
  by (simp add: lastn_def)

lemma lastn_append_lastn: "lastn n (lastn n xs @ ys) = lastn n (xs @ ys)"
proof (cases "length xs \<le> n")
  case True
  then show ?thesis by simp
next
  case False
  then show ?thesis
    by (simp add: lastn_def add.commute)
qed

lemma nth_eqI_map_upt:
  "length xs = n \<Longrightarrow> (\<And>k. k < n \<Longrightarrow> xs ! k = f k) \<Longrightarrow> xs = map f [0..<n]"
  by (rule nth_equalityI) auto

section \<open>Words read as naturals\<close>

lemma unat_add_noover [word_nat]:
  "unat (a :: 'a::len word) + unat b < 2 ^ LENGTH('a) \<Longrightarrow> unat (a + b) = unat a + unat b"
  by (simp add: unat_word_ariths)

lemma unat_Suc_word [word_nat]:
  "unat (w :: 'a::len word) + 1 < 2 ^ LENGTH('a) \<Longrightarrow> unat (w + 1) = unat w + 1"
  using unat_add_noover [of w 1] by simp

lemma unat_sub_noover [word_nat]:
  "b \<le> (a :: 'a::len word) \<Longrightarrow> unat (a - b) = unat a - unat b"
  by (rule unat_sub)

lemma word_le_nat [word_nat]: "a \<le> (b :: 'a::len word) \<longleftrightarrow> unat a \<le> unat b"
  by (rule word_le_nat_alt)

lemma word_less_nat [word_nat]: "a < (b :: 'a::len word) \<longleftrightarrow> unat a < unat b"
  by (rule word_less_nat_alt)

lemma unat_mod_word [word_nat]: "unat (a mod b :: 'a::len word) = unat a mod unat b"
  by (rule unat_mod)

lemma word_unat_eqI: "unat (a :: 'a::len word) = unat b \<Longrightarrow> a = b"
  by (rule unsigned_word_eqI)

lemma word_xor_cancel:
  "(a :: 'a::len word) XOR b = a XOR c \<longleftrightarrow> b = c"
  "b XOR a = c XOR (a :: 'a::len word) \<longleftrightarrow> b = c"
proof -
  show left: "a XOR b = a XOR c \<longleftrightarrow> b = c"
    by (metis xor.assoc xor.left_neutral xor_self_eq)
  show "b XOR a = c XOR a \<longleftrightarrow> b = c"
    using left by (simp only: xor.commute [of _ a])
qed

lemma unat_less_u32: "unat (w :: u32) < 4294967296"
proof -
  have "unat w < 2 ^ LENGTH(32)" by (rule unsigned_less)
  then show ?thesis by simp
qed

lemma unat_less_u16: "unat (w :: u16) < 65536"
proof -
  have "unat w < 2 ^ LENGTH(16)" by (rule unsigned_less)
  then show ?thesis by simp
qed

lemma unat_less_u8: "unat (w :: u8) < 256"
proof -
  have "unat w < 2 ^ LENGTH(8)" by (rule unsigned_less)
  then show ?thesis by simp
qed

end
