(* ===== verification/Byte_Port.thy ===== *)
theory Byte_Port
  imports Firmware_Prelude
begin

text \<open>
  The interface between the protocol framework and the byte sources it polls. In
  \<open>general_app/protocol_anylise_frame.h\<close> a \<open>comm_dev_type\<close> holds three function pointers,
  \<open>recv\<close>, \<open>del\<close> and \<open>clear\<close>; \<open>byte_port\<close> states what the framework relies on from them:
  \<open>recv\<close> with \<open>state = FALSE\<close> copies the oldest pending bytes and keeps them pending, \<open>del\<close>
  drops the oldest bytes, \<open>clear\<close> drops all. \<open>byte_queue\<close> adds the producer side used by the CAN
  and UART receive paths, a bounded queue that overwrites its oldest bytes when it is full.
\<close>

locale byte_port =
  fixes recv :: "'p \<Rightarrow> u8 list \<Rightarrow> u32 \<Rightarrow> (u32 \<times> u8 list \<times> 'p) option"
    and del :: "'p \<Rightarrow> u32 \<Rightarrow> (u32 \<times> 'p) option"
    and clear :: "'p \<Rightarrow> (bool \<times> 'p) option"
    and pending :: "'p \<Rightarrow> u8 list"
    and ok :: "'p \<Rightarrow> bool"
  assumes recv_peeks: "ok p \<Longrightarrow> unat len \<le> length dst \<Longrightarrow>
      n = min (unat len) (length (pending p)) \<Longrightarrow>
      recv p dst len = Some (of_nat n, take n (pending p) @ drop n dst, p)"
    and pending_bound: "ok p \<Longrightarrow> length (pending p) < 2 ^ 32"
    and del_drops: "ok p \<Longrightarrow>
      \<exists>p'. del p k = Some (of_nat (min (unat k) (length (pending p))), p') \<and>
           ok p' \<and> pending p' = drop (unat k) (pending p)"
    and clear_empties: "ok p \<Longrightarrow> \<exists>p'. clear p = Some (True, p') \<and> ok p' \<and> pending p' = []"

locale byte_queue = byte_port +
  fixes add :: "'a \<Rightarrow> u8 \<Rightarrow> (bool \<times> 'a) option"
    and capacity :: "'a \<Rightarrow> nat"
  assumes add_keeps_last: "ok p \<Longrightarrow>
      \<exists>p'. add p x = Some (True, p') \<and> ok p' \<and> capacity p' = capacity p \<and>
           pending p' = lastn (capacity p) (pending p @ [x])"
    and pending_capacity: "ok p \<Longrightarrow> length (pending p) \<le> capacity p"

text \<open>Adding the bytes of a block one by one, as \<open>AddDataToBuf\<close> does.\<close>

fun add_all :: "('a \<Rightarrow> u8 \<Rightarrow> (bool \<times> 'a) option) \<Rightarrow> 'a \<Rightarrow> u8 list \<Rightarrow> 'a option" where
  "add_all add p [] = Some p"
| "add_all add p (x # xs) = do { r \<leftarrow> add p x; add_all add (snd r) xs }"

context byte_queue
begin

lemma add_all_keeps_last:
  "ok p \<Longrightarrow> \<exists>p'. add_all add p xs = Some p' \<and> ok p' \<and> capacity p' = capacity p \<and>
     pending p' = lastn (capacity p) (pending p @ xs)"
proof (induction xs arbitrary: p)
  case Nil
  then show ?case using pending_capacity [of p] by simp
next
  case (Cons x xs)
  obtain p1 where p1: "add p x = Some (True, p1)" "ok p1" "capacity p1 = capacity p"
      "pending p1 = lastn (capacity p) (pending p @ [x])"
    using add_keeps_last [OF Cons.prems, of x] by blast
  from Cons.IH [OF p1(2)] p1 show ?case
    by (auto simp: lastn_append_lastn)
qed

text \<open>As long as the block fits, nothing is lost.\<close>

lemma add_all_fits:
  assumes "ok p" and "length (pending p) + length xs \<le> capacity p"
  shows "\<exists>p'. add_all add p xs = Some p' \<and> ok p' \<and> pending p' = pending p @ xs"
  using add_all_keeps_last [OF assms(1), of xs] assms(2) by auto

end

end
