(* ===== verification/Ring_Buffer.thy ===== *)
theory Ring_Buffer
  imports Byte_Port
begin

text \<open>
  \<open>common_lib/usdl_buf.c\<close>: the ring buffer between the receive paths (interrupt or CAN thread)
  and the protocol thread. \<open>Head\<close>, \<open>Tail\<close> and \<open>RxBufSize\<close> keep their 32-bit width; \<open>RxBuf\<close> is
  the pointer to the storage, \<open>None\<close> for NULL. A result \<open>None\<close> is an access outside the storage,
  a NULL dereference or a division by zero.
\<close>

record RingBufType =
  Head :: u32
  Tail :: u32
  RxBuf :: "u8 list option"
  RxBufSize :: u32

section \<open>The operations\<close>

text \<open>\<open>p\<close> is what \<open>rt_malloc(size)\<close> returned: NULL or storage of \<open>size\<close> bytes.\<close>

definition RxBufInit :: "u8 list option \<Rightarrow> u32 \<Rightarrow> RingBufType" where
  "RxBufInit p sz = \<lparr>Head = 0, Tail = 0, RxBuf = p, RxBufSize = sz\<rparr>"

definition AddByteToBuf :: "RingBufType \<Rightarrow> u8 \<Rightarrow> (bool \<times> RingBufType) option" where
  "AddByteToBuf buf byte = do {
     m \<leftarrow> RxBuf buf;
     m' \<leftarrow> wr m (unat (Tail buf)) byte;
     tail \<leftarrow> umod (Tail buf + 1) (RxBufSize buf);
     let buf1 = buf\<lparr>RxBuf := Some m', Tail := tail\<rparr>;
     if Tail buf1 = Head buf1
     then do {
       head \<leftarrow> umod (Head buf1 + 1) (RxBufSize buf1);
       Some (True, buf1\<lparr>Head := head\<rparr>)
     }
     else Some (True, buf1)
   }"

fun AddDataToBuf_loop :: "RingBufType \<Rightarrow> u8 list \<Rightarrow> nat \<Rightarrow> nat \<Rightarrow> (bool \<times> RingBufType) option" where
  "AddDataToBuf_loop buf data i 0 = Some (True, buf)"
| "AddDataToBuf_loop buf data i (Suc n) = do {
     x \<leftarrow> rd data i;
     r \<leftarrow> AddByteToBuf buf x;
     AddDataToBuf_loop (snd r) data (Suc i) n
   }"

definition AddDataToBuf :: "RingBufType \<Rightarrow> u8 list \<Rightarrow> u32 \<Rightarrow> (bool \<times> RingBufType) option" where
  "AddDataToBuf buf data len = AddDataToBuf_loop buf data 0 (unat len)"

definition GetLenFromBuf :: "RingBufType \<Rightarrow> u32 option" where
  "GetLenFromBuf buf = umod (RxBufSize buf + Tail buf - Head buf) (RxBufSize buf)"

text \<open>\<open>Some (None, buf)\<close> is the return value FALSE with \<open>*byte\<close> untouched,
  \<open>Some (Some x, buf)\<close> the return value TRUE with \<open>*byte = x\<close>.\<close>

definition GetByteFromBuf :: "RingBufType \<Rightarrow> (u8 option \<times> RingBufType) option" where
  "GetByteFromBuf buf =
     (if Head buf = Tail buf then Some (None, buf)
      else do {
        m \<leftarrow> RxBuf buf;
        x \<leftarrow> rd m (unat (Head buf));
        head \<leftarrow> umod (Head buf + 1) (RxBufSize buf);
        Some (Some x, buf\<lparr>Head := head\<rparr>)
      })"

definition DelDataFromBuf :: "RingBufType \<Rightarrow> u32 \<Rightarrow> (u32 \<times> RingBufType) option" where
  "DelDataFromBuf buf len = do {
     len_tmp \<leftarrow> GetLenFromBuf buf;
     let len = min len len_tmp;
     head \<leftarrow> umod (Head buf + len) (RxBufSize buf);
     Some (len, buf\<lparr>Head := head\<rparr>)
   }"

text \<open>\<open>GetByteFromBuf(buf, byte++)\<close> repeated: the destination pointer moves even when the
  buffer is empty and nothing is stored.\<close>

fun ReadDataFromBuf_loop :: "RingBufType \<Rightarrow> u8 list \<Rightarrow> nat \<Rightarrow> nat \<Rightarrow> (u8 list \<times> RingBufType) option" where
  "ReadDataFromBuf_loop buf dst off 0 = Some (dst, buf)"
| "ReadDataFromBuf_loop buf dst off (Suc n) = do {
     r \<leftarrow> GetByteFromBuf buf;
     dst' \<leftarrow> (case fst r of None \<Rightarrow> Some dst | Some x \<Rightarrow> wr dst off x);
     ReadDataFromBuf_loop (snd r) dst' (Suc off) n
   }"

definition ReadDataFromBuf :: "RingBufType \<Rightarrow> u8 list \<Rightarrow> u32 \<Rightarrow> bool \<Rightarrow> (u32 \<times> u8 list \<times> RingBufType) option" where
  "ReadDataFromBuf buf byte len clear = do {
     len_tmp \<leftarrow> GetLenFromBuf buf;
     let len = min len len_tmp;
     if clear
     then do {
       (byte', buf') \<leftarrow> ReadDataFromBuf_loop buf byte 0 (unat len);
       Some (len, byte', buf')
     }
     else do {
       let head = Head buf;
       (byte', buf') \<leftarrow> ReadDataFromBuf_loop buf byte 0 (unat len);
       Some (len, byte', buf'\<lparr>Head := head\<rparr>)
     }
   }"

definition ClearDateFromBuf :: "RingBufType \<Rightarrow> (bool \<times> RingBufType) option" where
  "ClearDateFromBuf buf = Some (True, buf\<lparr>Tail := Head buf\<rparr>)"

section \<open>Invariant and abstraction\<close>

text \<open>The sizes for which \<open>RxBufSize + Tail - Head\<close> cannot wrap.\<close>

definition ring_ok :: "RingBufType \<Rightarrow> bool" where
  "ring_ok buf \<longleftrightarrow>
     (case RxBuf buf of None \<Rightarrow> False
      | Some m \<Rightarrow> length m = unat (RxBufSize buf)) \<and>
     0 < unat (RxBufSize buf) \<and> unat (RxBufSize buf) \<le> 2 ^ 31 \<and>
     unat (Head buf) < unat (RxBufSize buf) \<and> unat (Tail buf) < unat (RxBufSize buf)"

definition ring_count :: "RingBufType \<Rightarrow> nat" where
  "ring_count buf =
     (unat (RxBufSize buf) + unat (Tail buf) - unat (Head buf)) mod unat (RxBufSize buf)"

text \<open>The bytes pending in the ring, oldest first.\<close>

definition ring_list :: "RingBufType \<Rightarrow> u8 list" where
  "ring_list buf =
     map (\<lambda>k. the (RxBuf buf) ! ((unat (Head buf) + k) mod unat (RxBufSize buf)))
       [0..<ring_count buf]"

definition ring_capacity :: "RingBufType \<Rightarrow> nat" where
  "ring_capacity buf = unat (RxBufSize buf) - 1"

lemma length_ring_list [simp]: "length (ring_list buf) = ring_count buf"
  by (simp add: ring_list_def)

lemma ring_okE:
  assumes "ring_ok buf"
  obtains m n where "RxBuf buf = Some m" and "length m = n" and "unat (RxBufSize buf) = n"
    and "0 < n" and "n \<le> 2 ^ 31" and "unat (Head buf) < n" and "unat (Tail buf) < n"
  using assms by (auto simp: ring_ok_def split: option.splits)

text \<open>Index arithmetic on a ring of \<open>n\<close> slots.\<close>

lemma mod_plus_neq:
  assumes "x < y" and "y < (n :: nat)"
  shows "(h + x) mod n \<noteq> (h + y) mod n"
proof
  assume "(h + x) mod n = (h + y) mod n"
  with assms(1) have "n dvd y - x"
    using mod_eq_dvd_iff_nat [of "h + x" "h + y" n] by simp
  with assms have "n \<le> y - x" by (intro dvd_imp_le) auto
  with assms show False by simp
qed

lemma ring_diff_mod:
  assumes "h < n" and "t < (n :: nat)"
  shows "(n + t - h) mod n = (if h \<le> t then t - h else n + t - h)"
proof (cases "h \<le> t")
  case True
  then have "(n + t - h) mod n = (n + (t - h)) mod n" by simp
  also have "\<dots> = (t - h) mod n" by (subst mod_add_self1) simp
  finally show ?thesis using True assms by simp
next
  case False
  with assms show ?thesis by simp
qed

text \<open>\<open>Tail\<close> is \<open>Head\<close> plus the count, around the ring.\<close>

lemma ring_count_less: "ring_ok buf \<Longrightarrow> ring_count buf < unat (RxBufSize buf)"
  by (auto elim!: ring_okE simp: ring_count_def)

lemma ring_tail:
  assumes "ring_ok buf"
  shows "unat (Tail buf) = (unat (Head buf) + ring_count buf) mod unat (RxBufSize buf)"
proof -
  from assms obtain n where n: "unat (RxBufSize buf) = n" "unat (Head buf) < n"
      "unat (Tail buf) < n"
    by (rule ring_okE)
  then show ?thesis
    by (auto simp: ring_count_def ring_diff_mod)
qed

lemma ring_count_of_tail:
  assumes "h < n" and "c < (n :: nat)"
  shows "(n + (h + c) mod n - h) mod n = c"
proof (cases "h + c < n")
  case True
  with assms show ?thesis by (simp add: ring_diff_mod)
next
  case False
  with assms have "(h + c) mod n = h + c - n" by (simp add: mod_if)
  with False assms show ?thesis by simp
qed

lemma ring_succ [word_nat]:
  assumes "unat (w :: u32) < unat s" and "unat s \<le> 2 ^ 31"
  shows "unat ((w + 1) mod s) = (unat w + 1) mod unat s"
  using assms by (simp add: unat_mod unat_Suc_word)

text \<open>A ring is determined by its content: the way every operation is characterised.\<close>

lemma ring_list_eqI:
  assumes "RxBuf buf = Some m" and "unat (RxBufSize buf) = n" and "unat (Head buf) = h"
    and "unat (Tail buf) = (h + c) mod n" and "h < n" and "c < n" and "length xs = c"
    and "\<And>k. k < c \<Longrightarrow> xs ! k = m ! ((h + k) mod n)"
  shows "ring_list buf = xs"
proof -
  have "ring_count buf = c"
    using assms by (simp add: ring_count_def ring_count_of_tail)
  then show ?thesis
    using assms by (intro nth_equalityI) (auto simp: ring_list_def)
qed

lemma ring_list_nth:
  "k < ring_count buf \<Longrightarrow> RxBuf buf = Some m \<Longrightarrow>
     ring_list buf ! k = m ! ((unat (Head buf) + k) mod unat (RxBufSize buf))"
  by (simp add: ring_list_def)

section \<open>Each operation on the content\<close>

lemma RxBufInit_ok:
  assumes "0 < unat sz" and "unat sz \<le> 2 ^ 31" and "length m = unat sz"
  shows "ring_ok (RxBufInit (Some m) sz)" and "ring_list (RxBufInit (Some m) sz) = []"
  using assms by (auto simp: ring_ok_def RxBufInit_def ring_list_def ring_count_def)

text \<open>Room left: the byte is appended.\<close>

lemma AddByteToBuf_room:
  assumes ok: "ring_ok buf" and room: "Suc (ring_count buf) < unat (RxBufSize buf)"
  shows "\<exists>buf'. AddByteToBuf buf x = Some (True, buf') \<and> ring_ok buf' \<and>
           RxBufSize buf' = RxBufSize buf \<and> ring_list buf' = ring_list buf @ [x]"
proof -
  from ok obtain m n where m: "RxBuf buf = Some m" "length m = n" "unat (RxBufSize buf) = n"
      "0 < n" "n \<le> 2 ^ 31" "unat (Head buf) < n" "unat (Tail buf) < n"
    by (rule ring_okE)
  define h t c where htc: "h = unat (Head buf)" "t = unat (Tail buf)" "c = ring_count buf"
  have c: "Suc c < n" and t: "t = (h + c) mod n"
    using room ring_tail [OF ok] m by (simp_all add: htc)
  define tl' where "tl' = (Tail buf + 1) mod RxBufSize buf"
  have tl': "unat tl' = (h + Suc c) mod n"
    using ring_succ [of "Tail buf" "RxBufSize buf"] m t
    by (simp add: tl'_def htc mod_Suc_eq)
  have ne: "tl' \<noteq> Head buf"
  proof
    assume "tl' = Head buf"
    then have "(h + 0) mod n = (h + Suc c) mod n" using tl' m by (simp add: htc)
    with mod_plus_neq [of 0 "Suc c" n h] c show False by simp
  qed
  define buf' where "buf' = buf\<lparr>RxBuf := Some (m[t := x]), Tail := tl'\<rparr>"
  have "AddByteToBuf buf x = Some (True, buf')"
    using m ne by (simp add: AddByteToBuf_def buf'_def htc wr_Some umod_def tl'_def
        unat_eq_zero flip: unat_gt_0)
  moreover have "ring_ok buf'"
    using m c tl' by (simp add: ring_ok_def buf'_def)
  moreover have "ring_list buf' = ring_list buf @ [x]"
  proof (rule ring_list_eqI)
    show "unat (Tail buf') = (h + Suc c) mod n" by (simp add: buf'_def tl')
    show "(ring_list buf @ [x]) ! k = m[t := x] ! ((h + k) mod n)" if "k < Suc c" for k
    proof (cases "k = c")
      case True
      then show ?thesis using m t by (simp add: nth_append htc)
    next
      case False
      with that have k: "k < c" by simp
      with mod_plus_neq [of k c n h] c t have "(h + k) mod n \<noteq> t" by simp
      with k m show ?thesis by (simp add: nth_append htc ring_list_nth)
    qed
  qed (use m c in \<open>simp_all add: buf'_def htc\<close>)
  ultimately show ?thesis by (auto simp: buf'_def)
qed

text \<open>Full: the byte overwrites the oldest one.\<close>

lemma AddByteToBuf_full:
  assumes ok: "ring_ok buf" and full: "Suc (ring_count buf) = unat (RxBufSize buf)"
  shows "\<exists>buf'. AddByteToBuf buf x = Some (True, buf') \<and> ring_ok buf' \<and>
           RxBufSize buf' = RxBufSize buf \<and> ring_list buf' = tl (ring_list buf @ [x])"
proof -
  from ok obtain m n where m: "RxBuf buf = Some m" "length m = n" "unat (RxBufSize buf) = n"
      "0 < n" "n \<le> 2 ^ 31" "unat (Head buf) < n" "unat (Tail buf) < n"
    by (rule ring_okE)
  define h t c where htc: "h = unat (Head buf)" "t = unat (Tail buf)" "c = ring_count buf"
  have c: "Suc c = n" and t: "t = (h + c) mod n"
    using full ring_tail [OF ok] m by (simp_all add: htc)
  define tl' hd' where "tl' = (Tail buf + 1) mod RxBufSize buf"
    and "hd' = (Head buf + 1) mod RxBufSize buf"
  have "unat tl' = (t + 1) mod n"
    using ring_succ [of "Tail buf" "RxBufSize buf"] m by (simp add: tl'_def htc)
  also have "\<dots> = (h + Suc c) mod n" by (simp add: t mod_Suc_eq)
  also have "\<dots> = h" unfolding c using m by (simp add: htc)
  finally have "unat tl' = unat (Head buf)" by (simp add: htc)
  then have tl': "tl' = Head buf" by (rule word_unat_eqI)
  have hd': "unat hd' = (h + 1) mod n"
    using ring_succ [of "Head buf" "RxBufSize buf"] m by (simp add: hd'_def htc)
  define buf' where "buf' = buf\<lparr>RxBuf := Some (m[t := x]), Tail := tl', Head := hd'\<rparr>"
  have "AddByteToBuf buf x = Some (True, buf')"
    using m tl' by (simp add: AddByteToBuf_def Let_def buf'_def htc wr_Some umod_def tl'_def hd'_def
        unat_eq_zero flip: unat_gt_0)
  moreover have "ring_ok buf'"
    using m tl' hd' by (simp add: ring_ok_def buf'_def)
  moreover have "ring_list buf' = tl (ring_list buf @ [x])"
  proof (rule ring_list_eqI)
    have "((h + 1) mod n + c) mod n = (h + Suc c) mod n" by (simp add: mod_simps)
    also have "\<dots> = h" unfolding c using m by (simp add: htc)
    finally show "unat (Tail buf') = ((h + 1) mod n + c) mod n"
      by (simp add: buf'_def tl' htc)
    show "tl (ring_list buf @ [x]) ! k = m[t := x] ! (((h + 1) mod n + k) mod n)" if "k < c" for k
    proof -
      have idx: "((h + 1) mod n + k) mod n = (h + Suc k) mod n" by (simp add: mod_simps)
      show ?thesis
      proof (cases "Suc k = c")
        case True
        then show ?thesis using m t idx by (simp add: nth_tl nth_append htc)
      next
        case False
        with that have k: "Suc k < c" by simp
        with mod_plus_neq [of "Suc k" c n h] c t have "(h + Suc k) mod n \<noteq> t" by simp
        with k m idx show ?thesis by (simp add: nth_tl nth_append htc ring_list_nth)
      qed
    qed
  qed (use m c hd' in \<open>simp_all add: buf'_def htc\<close>)
  ultimately show ?thesis by (auto simp: buf'_def)
qed

lemma AddByteToBuf_keeps_last:
  assumes ok: "ring_ok buf"
  shows "\<exists>buf'. AddByteToBuf buf x = Some (True, buf') \<and> ring_ok buf' \<and>
           RxBufSize buf' = RxBufSize buf \<and>
           ring_list buf' = lastn (ring_capacity buf) (ring_list buf @ [x])"
proof (cases "Suc (ring_count buf) < unat (RxBufSize buf)")
  case True
  then show ?thesis using AddByteToBuf_room [OF ok True, of x] by (simp add: ring_capacity_def)
next
  case False
  with ring_count_less [OF ok] have full: "Suc (ring_count buf) = unat (RxBufSize buf)" by simp
  then have "lastn (ring_capacity buf) (ring_list buf @ [x]) = tl (ring_list buf @ [x])"
    by (simp add: ring_capacity_def lastn_def drop_Suc del: drop_append tl_append2)
  then show ?thesis using AddByteToBuf_full [OF ok full, of x] by simp
qed

lemma AddDataToBuf_loop_add_all:
  "i + n \<le> length data \<Longrightarrow>
     AddDataToBuf_loop buf data i n =
       map_option (Pair True) (add_all AddByteToBuf buf (take n (drop i data)))"
proof (induction n arbitrary: buf i)
  case 0
  then show ?case by simp
next
  case (Suc n)
  then have i: "i < length data" and rest: "Suc i + n \<le> length data" by simp_all
  have "take (Suc n) (drop i data) = data ! i # take n (drop (Suc i) data)"
    using i by (simp add: Cons_nth_drop_Suc [symmetric])
  with i Suc.IH [OF rest] show ?case
    by (simp add: rd_Some split: option.splits bind_split)
qed

lemma AddDataToBuf_add_all:
  "unat len \<le> length data \<Longrightarrow>
     AddDataToBuf buf data len =
       map_option (Pair True) (add_all AddByteToBuf buf (take (unat len) data))"
  by (simp add: AddDataToBuf_def AddDataToBuf_loop_add_all)

section \<open>Length, reading and deleting\<close>

lemma GetLenFromBuf_count:
  assumes "ring_ok buf"
  shows "GetLenFromBuf buf = Some (of_nat (ring_count buf))"
    and "unat (of_nat (ring_count buf) :: u32) = ring_count buf"
proof -
  from assms obtain n where n: "0 < n" "n \<le> 2 ^ 31" "unat (RxBufSize buf) = n"
      "unat (Head buf) < n" "unat (Tail buf) < n"
    by (rule ring_okE)
  have sum: "unat (RxBufSize buf + Tail buf) = n + unat (Tail buf)"
    using n by (subst unat_add_noover) simp_all
  have "unat (RxBufSize buf + Tail buf - Head buf) = n + unat (Tail buf) - unat (Head buf)"
    using n sum by (subst unat_sub_noover) (simp_all add: word_le_nat_alt)
  then have "unat ((RxBufSize buf + Tail buf - Head buf) mod RxBufSize buf) = ring_count buf"
    using n by (simp add: ring_count_def unat_mod)
  then have "(RxBufSize buf + Tail buf - Head buf) mod RxBufSize buf = of_nat (ring_count buf)"
    by (metis of_nat_unat ucast_id)
  then show "GetLenFromBuf buf = Some (of_nat (ring_count buf))"
    using n by (auto simp: GetLenFromBuf_def umod_def)
  show "unat (of_nat (ring_count buf) :: u32) = ring_count buf"
    using n ring_count_less [OF assms] by (simp add: unat_of_nat take_bit_nat_eq_self)
qed

text \<open>Reading one byte takes the oldest; on an empty ring nothing changes.\<close>

lemma GetByteFromBuf_empty:
  assumes "ring_ok buf" and "ring_list buf = []"
  shows "GetByteFromBuf buf = Some (None, buf)"
proof -
  have "ring_count buf = 0" using assms(2) length_ring_list [of buf] by simp
  with ring_tail [OF assms(1)] assms(1) have "unat (Head buf) = unat (Tail buf)"
    by (auto elim!: ring_okE)
  then have "Head buf = Tail buf" by (rule word_unat_eqI)
  then show ?thesis by (simp add: GetByteFromBuf_def)
qed

lemma GetByteFromBuf_Cons:
  assumes ok: "ring_ok buf" and ne: "ring_list buf \<noteq> []"
  shows "\<exists>buf'. GetByteFromBuf buf = Some (Some (hd (ring_list buf)), buf') \<and> ring_ok buf' \<and>
           ring_list buf' = tl (ring_list buf) \<and> buf'\<lparr>Head := Head buf\<rparr> = buf"
proof -
  from ok obtain m n where m: "RxBuf buf = Some m" "length m = n" "unat (RxBufSize buf) = n"
      "0 < n" "n \<le> 2 ^ 31" "unat (Head buf) < n" "unat (Tail buf) < n"
    by (rule ring_okE)
  define h c where hc: "h = unat (Head buf)" "c = ring_count buf"
  from ne have c0: "0 < c" by (metis hc(2) length_greater_0_conv length_ring_list)
  have cn: "c < n" using ring_count_less [OF ok] m hc by simp
  have t: "unat (Tail buf) = (h + c) mod n" using ring_tail [OF ok] m hc by simp
  have "Head buf \<noteq> Tail buf"
  proof
    assume "Head buf = Tail buf"
    then have "(h + 0) mod n = (h + c) mod n" using t m by (simp add: hc)
    with mod_plus_neq [of 0 c n h] c0 cn show False by simp
  qed
  moreover define hd' where "hd' = (Head buf + 1) mod RxBufSize buf"
  moreover have hd': "unat hd' = (h + 1) mod n"
    using ring_succ [of "Head buf" "RxBufSize buf"] m by (simp add: hd'_def hc)
  moreover have "m ! h = hd (ring_list buf)"
    using ring_list_nth [of 0 buf m] c0 m ne by (simp add: hd_conv_nth hc)
  ultimately have "GetByteFromBuf buf = Some (Some (hd (ring_list buf)), buf\<lparr>Head := hd'\<rparr>)"
    using m by (auto simp: GetByteFromBuf_def rd_Some umod_def hc)
  moreover have "ring_ok (buf\<lparr>Head := hd'\<rparr>)"
    using m hd' by (simp add: ring_ok_def)
  moreover have "ring_list (buf\<lparr>Head := hd'\<rparr>) = tl (ring_list buf)"
  proof (rule ring_list_eqI)
    show "unat (Tail (buf\<lparr>Head := hd'\<rparr>)) = ((h + 1) mod n + (c - 1)) mod n"
    proof -
      have "((h + 1) mod n + (c - 1)) mod n = (h + 1 + (c - 1)) mod n"
        by (rule mod_add_left_eq)
      then show ?thesis using t c0 by simp
    qed
    show "tl (ring_list buf) ! k = m ! (((h + 1) mod n + k) mod n)" if "k < c - 1" for k
      using that m ring_list_nth [of "Suc k" buf m] by (simp add: nth_tl hc mod_simps)
  qed (use m cn hd' in \<open>simp_all add: hc\<close>)
  ultimately show ?thesis by auto
qed

lemma ReadDataFromBuf_loop_takes:
  assumes "ring_ok buf" and "n \<le> ring_count buf" and "off + n \<le> length dst"
  shows "\<exists>buf'. ReadDataFromBuf_loop buf dst off n =
             Some (take off dst @ take n (ring_list buf) @ drop (off + n) dst, buf') \<and>
           ring_ok buf' \<and> ring_list buf' = drop n (ring_list buf) \<and>
           buf'\<lparr>Head := Head buf\<rparr> = buf"
  using assms
proof (induction n arbitrary: buf dst off)
  case 0
  then show ?case by simp
next
  case (Suc n)
  then have ne: "ring_list buf \<noteq> []" and off: "off < length dst"
    by (auto simp flip: length_greater_0_conv)
  from GetByteFromBuf_Cons [OF Suc.prems(1) ne] obtain b1
    where b1: "GetByteFromBuf buf = Some (Some (hd (ring_list buf)), b1)" "ring_ok b1"
      "ring_list b1 = tl (ring_list buf)" "b1\<lparr>Head := Head buf\<rparr> = buf"
    by blast
  from b1(3) have cnt: "ring_count b1 = ring_count buf - 1"
    by (metis length_ring_list length_tl)
  define d where "d = dst[off := hd (ring_list buf)]"
  have "\<exists>b2. ReadDataFromBuf_loop b1 d (Suc off) n =
          Some (take (Suc off) d @ take n (ring_list b1) @ drop (Suc off + n) d, b2) \<and>
        ring_ok b2 \<and> ring_list b2 = drop n (ring_list b1) \<and> b2\<lparr>Head := Head b1\<rparr> = b1"
    using Suc.prems b1(2) cnt by (intro Suc.IH) (simp_all add: d_def)
  then obtain b2 where b2: "ReadDataFromBuf_loop b1 d (Suc off) n =
          Some (take (Suc off) d @ take n (ring_list b1) @ drop (Suc off + n) d, b2)"
        "ring_ok b2" "ring_list b2 = drop n (ring_list b1)" "b2\<lparr>Head := Head b1\<rparr> = b1"
    by blast
  have "ReadDataFromBuf_loop buf dst off (Suc n) =
      Some (take (Suc off) d @ take n (ring_list b1) @ drop (Suc off + n) d, b2)"
    using b1(1) b2(1) off by (simp add: d_def wr_Some)
  moreover have "take (Suc off) d = take off dst @ [hd (ring_list buf)]"
    using off by (simp add: d_def take_Suc_conv_app_nth)
  moreover have "take (Suc n) (ring_list buf) = hd (ring_list buf) # take n (ring_list b1)"
    using ne by (simp add: take_Suc b1(3))
  moreover have "b2\<lparr>Head := Head buf\<rparr> = buf"
    using b1(4) b2(4) by (metis RingBufType.surjective RingBufType.update_convs(1))
  ultimately show ?case
    using b1(3) b2(2,3)
    by (intro exI [of _ b2]) (simp add: d_def drop_Suc [symmetric] drop_update_cancel)
qed

text \<open>Reading with \<open>clear\<close> set consumes; without it the ring is left as it was.\<close>

lemma ReadDataFromBuf_reads:
  assumes ok: "ring_ok buf" and dst: "unat len \<le> length dst"
    and n: "n = min (unat len) (ring_count buf)"
  shows "\<exists>buf'. ReadDataFromBuf buf dst len True =
             Some (of_nat n, take n (ring_list buf) @ drop n dst, buf') \<and>
           ring_ok buf' \<and> ring_list buf' = drop n (ring_list buf)"
    and "ReadDataFromBuf buf dst len False =
             Some (of_nat n, take n (ring_list buf) @ drop n dst, buf)"
proof -
  note len = GetLenFromBuf_count [OF ok]
  have "unat (min len (of_nat (ring_count buf))) = n"
    using len(2) by (simp add: n min_def word_le_nat_alt)
  then have k: "min len (of_nat (ring_count buf)) = of_nat n"
    by (metis of_nat_unat ucast_id)
  then have un: "unat (of_nat n :: u32) = n"
    using \<open>unat (min len (of_nat (ring_count buf))) = n\<close> by simp
  from n dst have "n \<le> ring_count buf" "0 + n \<le> length dst" by simp_all
  from ReadDataFromBuf_loop_takes [OF ok this]
  obtain b where b: "ReadDataFromBuf_loop buf dst 0 n =
        Some (take n (ring_list buf) @ drop n dst, b)" "ring_ok b"
      "ring_list b = drop n (ring_list buf)" "b\<lparr>Head := Head buf\<rparr> = buf"
    by (simp only: take_0 append_Nil add_0) blast
  show "\<exists>buf'. ReadDataFromBuf buf dst len True =
             Some (of_nat n, take n (ring_list buf) @ drop n dst, buf') \<and>
           ring_ok buf' \<and> ring_list buf' = drop n (ring_list buf)"
    using b by (simp add: ReadDataFromBuf_def len(1) k un)
  show "ReadDataFromBuf buf dst len False =
             Some (of_nat n, take n (ring_list buf) @ drop n dst, buf)"
    using b by (simp add: ReadDataFromBuf_def len(1) k un)
qed

text \<open>Deleting drops the oldest bytes, at most those there are.\<close>

lemma DelDataFromBuf_drops:
  assumes ok: "ring_ok buf"
  shows "\<exists>buf'. DelDataFromBuf buf k =
             Some (of_nat (min (unat k) (ring_count buf)), buf') \<and> ring_ok buf' \<and>
           ring_list buf' = drop (unat k) (ring_list buf)"
proof -
  from ok obtain m n where m: "RxBuf buf = Some m" "length m = n" "unat (RxBufSize buf) = n"
      "0 < n" "n \<le> 2 ^ 31" "unat (Head buf) < n" "unat (Tail buf) < n"
    by (rule ring_okE)
  note len = GetLenFromBuf_count [OF ok]
  define h c d where hcd: "h = unat (Head buf)" "c = ring_count buf" "d = min (unat k) c"
  have c: "c < n" and t: "unat (Tail buf) = (h + c) mod n"
    using ring_count_less [OF ok] ring_tail [OF ok] m by (simp_all add: hcd)
  have "unat (min k (of_nat c)) = d"
    using len(2) by (simp add: hcd min_def word_le_nat_alt)
  then have k: "min k (of_nat c) = of_nat d" by (metis of_nat_unat ucast_id)
  then have d: "unat (of_nat d :: u32) = d"
    using \<open>unat (min k (of_nat c)) = d\<close> by simp
  define hd' where "hd' = (Head buf + of_nat d) mod RxBufSize buf"
  have hd': "unat hd' = (h + d) mod n"
  proof -
    have "unat (Head buf + of_nat d) = h + d"
      using m c d by (subst unat_add_noover) (simp_all add: hcd)
    then show ?thesis using m by (simp add: hd'_def unat_mod)
  qed
  have "DelDataFromBuf buf k = Some (of_nat d, buf\<lparr>Head := hd'\<rparr>)"
    using m len(1) k by (auto simp: DelDataFromBuf_def Let_def umod_def hd'_def hcd(2))
  moreover have "ring_ok (buf\<lparr>Head := hd'\<rparr>)"
    using m hd' by (simp add: ring_ok_def)
  moreover have "ring_list (buf\<lparr>Head := hd'\<rparr>) = drop (unat k) (ring_list buf)"
  proof (rule ring_list_eqI)
    show "unat (Tail (buf\<lparr>Head := hd'\<rparr>)) = ((h + d) mod n + (c - d)) mod n"
    proof -
      have "((h + d) mod n + (c - d)) mod n = (h + d + (c - d)) mod n"
        by (rule mod_add_left_eq)
      then show ?thesis using t by (simp add: hcd(3))
    qed
    show "drop (unat k) (ring_list buf) ! j = m ! (((h + d) mod n + j) mod n)"
      if "j < c - d" for j
      using that m ring_list_nth [of "d + j" buf m]
      by (auto simp: mod_simps hcd min_def add.assoc split: if_splits)
  qed (use m c hd' in \<open>auto simp: hcd min_def\<close>)
  ultimately show ?thesis by (auto simp: hcd)
qed

lemma ClearDateFromBuf_empties:
  "ring_ok buf \<Longrightarrow> \<exists>buf'. ClearDateFromBuf buf = Some (True, buf') \<and> ring_ok buf' \<and>
     ring_list buf' = []"
  by (auto simp: ClearDateFromBuf_def ring_ok_def ring_list_def ring_count_def
      split: option.splits)

section \<open>The ring implements the byte queue\<close>

definition ring_recv :: "RingBufType \<Rightarrow> u8 list \<Rightarrow> u32 \<Rightarrow> (u32 \<times> u8 list \<times> RingBufType) option" where
  "ring_recv buf dst len = ReadDataFromBuf buf dst len False"

interpretation ring: byte_queue ring_recv DelDataFromBuf ClearDateFromBuf ring_list ring_ok
  AddByteToBuf ring_capacity
proof unfold_locales
  fix p :: RingBufType and dst :: "u8 list" and len :: u32 and n :: nat
  assume "ring_ok p" "unat len \<le> length dst" "n = min (unat len) (length (ring_list p))"
  then show "ring_recv p dst len = Some (of_nat n, take n (ring_list p) @ drop n dst, p)"
    using ReadDataFromBuf_reads(2) [of p len dst n] by (simp add: ring_recv_def)
next
  fix p :: RingBufType
  assume ok: "ring_ok p"
  then show "length (ring_list p) < 2 ^ 32"
    using ring_count_less [OF ok] by (auto elim!: ring_okE)
  show "length (ring_list p) \<le> ring_capacity p"
    using ring_count_less [OF ok] by (simp add: ring_capacity_def)
  fix x :: u8 and k :: u32
  show "\<exists>p'. DelDataFromBuf p k = Some (word_of_nat (min (unat k) (length (ring_list p))), p') \<and>
      ring_ok p' \<and> ring_list p' = drop (unat k) (ring_list p)"
    using DelDataFromBuf_drops [OF ok, of k] by simp
  show "\<exists>p'. ClearDateFromBuf p = Some (True, p') \<and> ring_ok p' \<and> ring_list p' = []"
    using ClearDateFromBuf_empties [OF ok] .
  show "\<exists>p'. AddByteToBuf p x = Some (True, p') \<and> ring_ok p' \<and>
      ring_capacity p' = ring_capacity p \<and>
      ring_list p' = lastn (ring_capacity p) (ring_list p @ [x])"
    using AddByteToBuf_keeps_last [OF ok, of x] by (auto simp: ring_capacity_def)
qed

lemma AddDataToBuf_ring:
  assumes "ring_ok buf" and "unat len \<le> length data"
  shows "\<exists>buf'. AddDataToBuf buf data len = Some (True, buf') \<and> ring_ok buf' \<and>
           ring_capacity buf' = ring_capacity buf \<and>
           ring_list buf' = lastn (ring_capacity buf) (ring_list buf @ take (unat len) data)"
  using ring.add_all_keeps_last [OF assms(1)] AddDataToBuf_add_all [OF assms(2)] by fastforce

section \<open>Properties\<close>

definition ring_sample :: RingBufType where
  "ring_sample = \<lparr>Head = 2, Tail = 1, RxBuf = Some [30, 0, 10, 20], RxBufSize = 4\<rparr>"

lemma ring_sample_ok: "ring_ok ring_sample"
  by (simp add: ring_sample_def ring_ok_def)

lemma ring_sample_list: "ring_list ring_sample = [10, 20, 30]"
  by (simp add: ring_sample_def ring_list_def ring_count_def upt_rec)

text \<open>C10: \<open>AddDataToBuf\<close> on a well-formed ring never leaves the storage and is a bounded queue that
  overwrites its oldest bytes: afterwards the ring holds the last \<open>RxBufSize - 1\<close> bytes of the
  old content followed by the block, in order, however long the block is.\<close>

theorem AddDataToBuf_keeps_last:
  assumes "ring_ok buf" and "unat len \<le> length data"
  shows "\<exists>buf'. AddDataToBuf buf data len = Some (True, buf') \<and> ring_ok buf' \<and>
           ring_list buf' = lastn (ring_capacity buf) (ring_list buf @ take (unat len) data)"
  using AddDataToBuf_ring [OF assms] by blast

theorem AddDataToBuf_keeps_last_witness:
  "\<exists>buf'. AddDataToBuf ring_sample [40, 50] 2 = Some (True, buf') \<and> ring_list buf' = [30, 40, 50]"
proof -
  have "lastn (ring_capacity ring_sample) (ring_list ring_sample @ take (unat (2 :: u32)) [40, 50])
      = [30, 40, 50 :: u8]"
    unfolding ring_sample_list by (simp add: lastn_def ring_capacity_def ring_sample_def)
  then show ?thesis
    using AddDataToBuf_keeps_last [of ring_sample 2 "[40, 50]"] ring_sample_ok by auto
qed

text \<open>A consuming read of a well-formed ring returns what the non-consuming read returns, the
  oldest bytes in order and at most as many as there are, and leaves the ring that deleting the
  same number of bytes leaves. This is the contract under which the protocol thread first looks
  at the pending bytes and then deletes the ones a protocol accepted.\<close>

theorem ReadDataFromBuf_is_peek_then_del:
  assumes "ring_ok buf" and "unat len \<le> length dst"
  shows "\<exists>n dst' b1 b2. ReadDataFromBuf buf dst len False = Some (n, dst', buf) \<and>
           ReadDataFromBuf buf dst len True = Some (n, dst', b1) \<and>
           DelDataFromBuf buf n = Some (n, b2) \<and>
           unat n = min (unat len) (ring_count buf) \<and>
           dst' = take (unat n) (ring_list buf) @ drop (unat n) dst \<and>
           ring_ok b1 \<and> ring_ok b2 \<and>
           ring_list b1 = drop (unat n) (ring_list buf) \<and> ring_list b2 = ring_list b1"
proof -
  define n where "n = min (unat len) (ring_count buf)"
  have u: "unat (of_nat n :: u32) = n"
  proof -
    have "n \<le> unat len" by (simp add: n_def)
    then have "n < 2 ^ 32" using unat_less_u32 [of len] by simp
    then show ?thesis by (simp add: unat_of_nat take_bit_nat_eq_self)
  qed
  obtain b1 where "ReadDataFromBuf buf dst len True =
        Some (of_nat n, take n (ring_list buf) @ drop n dst, b1)" "ring_ok b1"
      "ring_list b1 = drop n (ring_list buf)"
    using ReadDataFromBuf_reads(1) [OF assms n_def] by blast
  moreover obtain b2 where "DelDataFromBuf buf (of_nat n) = Some (of_nat n, b2)" "ring_ok b2"
      "ring_list b2 = drop n (ring_list buf)"
    using DelDataFromBuf_drops [OF assms(1), of "of_nat n"] u
    by (auto simp: n_def min.commute min.left_commute)
  ultimately show ?thesis
    using ReadDataFromBuf_reads(2) [OF assms n_def] u
    by (intro exI [of _ "of_nat n"] exI [of _ b1] exI [of _ b2] exI) (auto simp: n_def)
qed

theorem ReadDataFromBuf_is_peek_then_del_witness:
  "\<exists>b1. ReadDataFromBuf ring_sample [0, 0] 2 True = Some (2, [10, 20], b1) \<and> ring_list b1 = [30]"
proof -
  have c: "ring_count ring_sample = 3" by (simp add: ring_sample_def ring_count_def)
  from ReadDataFromBuf_is_peek_then_del [of ring_sample 2 "[0, 0]"] ring_sample_ok
  obtain n b1 where "ReadDataFromBuf ring_sample [0, 0] 2 True =
        Some (n, take (unat n) [10, 20, 30] @ drop (unat n) [0, 0], b1)"
      "unat n = 2" "ring_list b1 = drop (unat n) [10, 20, 30]"
    by (auto simp: c ring_sample_list)
  moreover from this(2) have "n = 2" by (intro word_unat_eqI) simp
  ultimately show ?thesis by simp
qed

end
