(* ===== verification/Little_Endian.thy ===== *)
theory Little_Endian
  imports Firmware_Prelude
begin

text \<open>
  Little-endian fields of byte buffers. The firmware lays 16-, 32- and 64-bit fields out byte by
  byte, low byte first, in frames, in the parameter page and in flash; all those layouts are
  instances of \<open>le_enc\<close> and \<open>le_dec\<close>, so that one round-trip lemma serves them all.
\<close>

primrec le_enc :: "nat \<Rightarrow> nat \<Rightarrow> u8 list" where
  "le_enc 0 x = []"
| "le_enc (Suc n) x = of_nat x # le_enc n (x div 256)"

primrec le_dec :: "u8 list \<Rightarrow> nat" where
  "le_dec [] = 0"
| "le_dec (b # bs) = unat b + 256 * le_dec bs"

lemma length_le_enc [simp]: "length (le_enc n x) = n"
  by (induction n arbitrary: x) simp_all

lemma unat_of_nat_u8: "unat (of_nat x :: u8) = x mod 256"
  by (simp add: unat_of_nat take_bit_eq_mod)

lemma unat_of_nat_u16: "unat (of_nat x :: u16) = x mod 65536"
  by (simp add: unat_of_nat take_bit_eq_mod)

lemma unat_of_nat_u32: "unat (of_nat x :: u32) = x mod 4294967296"
  by (simp add: unat_of_nat take_bit_eq_mod)

lemma unat_of_nat_u64: "unat (of_nat x :: u64) = x mod 18446744073709551616"
  by (simp add: unat_of_nat take_bit_eq_mod)

lemma le_dec_enc: "le_dec (le_enc n x) = x mod 256 ^ n"
proof (induction n arbitrary: x)
  case 0
  then show ?case by simp
next
  case (Suc n)
  have "x mod (256 * 256 ^ n) = 256 * (x div 256 mod 256 ^ n) + x mod 256"
    by (rule mod_mult2_eq)
  then show ?case
    by (simp add: Suc unat_of_nat_u8)
qed

lemma le_dec_less: "le_dec bs < 256 ^ length bs"
proof (induction bs)
  case Nil
  then show ?case by simp
next
  case (Cons b bs)
  have "unat b + 256 * le_dec bs < 256 * Suc (le_dec bs)"
    using unat_less_u8 [of b] by simp
  also have "\<dots> \<le> 256 * 256 ^ length bs"
    using Cons by (intro mult_le_mono2) simp
  finally show ?case by simp
qed

lemma le_enc_dec [simp]: "le_enc (length bs) (le_dec bs) = bs"
proof (induction bs)
  case Nil
  then show ?case by simp
next
  case (Cons b bs)
  have "(unat b + 256 * le_dec bs) div 256 = le_dec bs"
    using unat_less_u8 [of b] by simp
  moreover have "of_nat (unat b + 256 * le_dec bs) = b"
    using unat_less_u8 [of b]
    by (intro word_unat_eqI) (simp only: unat_of_nat_u8 mod_mult_self2 mod_less)
  ultimately show ?case
    using Cons by simp
qed

lemma le_dec_inj: "length bs = length cs \<Longrightarrow> le_dec bs = le_dec cs \<Longrightarrow> bs = cs"
  by (metis le_enc_dec)

lemma le_dec_append: "le_dec (bs @ cs) = le_dec bs + 256 ^ length bs * le_dec cs"
  by (induction bs) (simp_all add: algebra_simps)

text \<open>The casts and shifts by which the code takes a word apart.\<close>

lemma ucast_shift_byte:
  "(ucast (drop_bit k (w :: 'a::len word)) :: u8) = of_nat (unat w div 2 ^ k)"
proof -
  have "(ucast (drop_bit k w) :: u8) = of_nat (unat (drop_bit k w))" by simp
  also have "unat (drop_bit k w) = unat w div 2 ^ k"
    unfolding unat_drop_bit_eq by (rule drop_bit_eq_div)
  finally show ?thesis .
qed

lemma ucast_byte: "(ucast (w :: 'a::len word) :: u8) = of_nat (unat w)"
  by simp

lemma le_enc_2: "le_enc 2 x = [of_nat x, of_nat (x div 256)]"
proof -
  have "(2 :: nat) = Suc (Suc 0)" by simp
  then show ?thesis by (simp only: le_enc.simps)
qed

lemma le_enc_4: "le_enc 4 x = [of_nat x, of_nat (x div 256), of_nat (x div 65536),
    of_nat (x div 16777216)]"
proof -
  have "(4 :: nat) = Suc (Suc (Suc (Suc 0)))" by simp
  moreover have "x div 256 div 256 = x div 65536" "x div 65536 div 256 = x div 16777216"
    by (simp_all flip: div_mult2_eq)
  ultimately show ?thesis by (simp only: le_enc.simps)
qed

lemma le_enc_8: "le_enc 8 x = [of_nat x, of_nat (x div 256), of_nat (x div 65536),
    of_nat (x div 16777216), of_nat (x div 4294967296), of_nat (x div 1099511627776),
    of_nat (x div 281474976710656), of_nat (x div 72057594037927936)]"
proof -
  have "(8 :: nat) = Suc (Suc (Suc (Suc (Suc (Suc (Suc (Suc 0)))))))" by simp
  moreover have "x div 256 div 256 = x div 65536" "x div 65536 div 256 = x div 16777216"
    "x div 16777216 div 256 = x div 4294967296" "x div 4294967296 div 256 = x div 1099511627776"
    "x div 1099511627776 div 256 = x div 281474976710656"
    "x div 281474976710656 div 256 = x div 72057594037927936"
    by (simp_all flip: div_mult2_eq)
  ultimately show ?thesis by (simp only: le_enc.simps)
qed

end
