(* ===== verification/Byte_Data.thy ===== *)
theory Byte_Data
  imports Little_Endian
begin

text \<open>
  \<open>common_lib/usdl_data.c\<close> and \<open>common_lib/usdl_bit.c\<close>: half bytes, unaligned little-endian
  fields, block splitting and bit manipulation. A \<open>void*\<close> or \<open>u8*\<close> parameter is the list of the
  bytes from the pointer on; \<open>None\<close> is an access behind the object, a division by zero or a shift
  by the operand's width or more (undefined in C). \<open>unsigned long\<close> has 32 bits on the target.
\<close>

text \<open>A typed access \<open>*(T*)(m + p)\<close> on the little-endian target.\<close>

definition ld :: "nat \<Rightarrow> u8 list \<Rightarrow> nat \<Rightarrow> 'a::len word option" where
  "ld n m p = map_option (\<lambda>bs. of_nat (le_dec bs)) (rds m p n)"

definition st :: "nat \<Rightarrow> u8 list \<Rightarrow> nat \<Rightarrow> 'a::len word \<Rightarrow> u8 list option" where
  "st n m p v = wrs m p (le_enc n (unat v))"

section \<open>Half bytes (usdl_data.c)\<close>

definition GetU8LowU4 :: "u8 \<Rightarrow> u8" where
  "GetU8LowU4 value = value AND 0x0F"

definition GetU8HighU4 :: "u8 \<Rightarrow> u8" where
  "GetU8HighU4 value = drop_bit 4 value AND 0x0F"

definition SetU8LowU4 :: "u8 \<Rightarrow> u8 \<Rightarrow> u8" where
  "SetU8LowU4 value half_word = (value AND 0xF0) OR (half_word AND 0x0F)"

definition SetU8HighU4 :: "u8 \<Rightarrow> u8 \<Rightarrow> u8" where
  "SetU8HighU4 value half_word = (value AND 0x0F) OR (push_bit 4 half_word AND 0xF0)"

section \<open>Little-endian fields (usdl_data.c)\<close>

definition ArrayU8ToU16 :: "u8 list \<Rightarrow> u16 option" where
  "ArrayU8ToU16 src = do {
     b0 \<leftarrow> rd src 0; b1 \<leftarrow> rd src 1;
     Some (ucast (ucast b0 + push_bit 8 (ucast b1) :: u32))
   }"

definition ArrayU8ToU32 :: "u8 list \<Rightarrow> u32 option" where
  "ArrayU8ToU32 src = do {
     b0 \<leftarrow> rd src 0; b1 \<leftarrow> rd src 1; b2 \<leftarrow> rd src 2; b3 \<leftarrow> rd src 3;
     Some (ucast b0 + push_bit 8 (ucast b1) + push_bit 16 (ucast b2) + push_bit 24 (ucast b3))
   }"

definition ArrayU16ToU32 :: "u16 list \<Rightarrow> u32 option" where
  "ArrayU16ToU32 src = do {
     h0 \<leftarrow> rd src 0; h1 \<leftarrow> rd src 1;
     Some (ucast h0 + push_bit 16 (ucast h1))
   }"

definition ArrayU8ToU64 :: "u8 list \<Rightarrow> u64 option" where
  "ArrayU8ToU64 src = do {
     b0 \<leftarrow> rd src 0; b1 \<leftarrow> rd src 1; b2 \<leftarrow> rd src 2; b3 \<leftarrow> rd src 3;
     b4 \<leftarrow> rd src 4; b5 \<leftarrow> rd src 5; b6 \<leftarrow> rd src 6; b7 \<leftarrow> rd src 7;
     Some (ucast b0 + push_bit 8 (ucast b1) + push_bit 16 (ucast b2) + push_bit 24 (ucast b3) +
       push_bit 32 (ucast b4) + push_bit 40 (ucast b5) + push_bit 48 (ucast b6) +
       push_bit 56 (ucast b7))
   }"

text \<open>The result is the object and the offset of the returned pointer.\<close>

definition DataU16ToArrayU8 :: "u8 list \<Rightarrow> u16 \<Rightarrow> (u8 list \<times> nat) option" where
  "DataU16ToArrayU8 dst value = do {
     d \<leftarrow> wr dst 0 (ucast value);
     d \<leftarrow> wr d 1 (ucast (drop_bit 8 value));
     Some (d, 2)
   }"

definition DataU32ToArrayU8 :: "u8 list \<Rightarrow> u32 \<Rightarrow> (u8 list \<times> nat) option" where
  "DataU32ToArrayU8 dst value = do {
     d \<leftarrow> wr dst 0 (ucast value);
     d \<leftarrow> wr d 1 (ucast (drop_bit 8 value));
     d \<leftarrow> wr d 2 (ucast (drop_bit 16 value));
     d \<leftarrow> wr d 3 (ucast (drop_bit 24 value));
     Some (d, 4)
   }"

definition DataU64ToArrayU8 :: "u8 list \<Rightarrow> u64 \<Rightarrow> (u8 list \<times> nat) option" where
  "DataU64ToArrayU8 dst value = do {
     d \<leftarrow> wr dst 0 (ucast value);
     d \<leftarrow> wr d 1 (ucast (drop_bit 8 value));
     d \<leftarrow> wr d 2 (ucast (drop_bit 16 value));
     d \<leftarrow> wr d 3 (ucast (drop_bit 24 value));
     d \<leftarrow> wr d 4 (ucast (drop_bit 32 value));
     d \<leftarrow> wr d 5 (ucast (drop_bit 40 value));
     d \<leftarrow> wr d 6 (ucast (drop_bit 48 value));
     d \<leftarrow> wr d 7 (ucast (drop_bit 56 value));
     Some (d, 8)
   }"

definition GetVoidVar :: "u8 list \<Rightarrow> u8 \<Rightarrow> u32 option" where
  "GetVoidVar src width =
     (if width = 1 then map_option ucast (rd src 0)
      else if width = 2 then map_option ucast (ArrayU8ToU16 src)
      else if width = 4 then ArrayU8ToU32 src
      else map_option ucast (rd src 0))"

definition SetVoidVar :: "u8 list \<Rightarrow> u8 \<Rightarrow> u32 \<Rightarrow> u8 list option" where
  "SetVoidVar dst width value =
     (if width = 1 then wr dst 0 (ucast value)
      else if width = 2 then map_option fst (DataU16ToArrayU8 dst (ucast value))
      else if width = 4 then map_option fst (DataU32ToArrayU8 dst value)
      else wr dst 0 (ucast value))"

section \<open>Splitting a range into blocks (usdl_data.c)\<close>

record BlockType =
  HeadAddress :: u32
  TailAddress :: u32
  BodyAddress :: u32
  HeadLength :: u32
  TailLength :: u32
  BodyLength :: u32
  BodyBlockCount :: u32

definition InitBlock :: BlockType where
  "InitBlock = \<lparr>HeadAddress = 0, TailAddress = 0, BodyAddress = 0, HeadLength = 0,
     TailLength = 0, BodyLength = 0, BodyBlockCount = 0\<rparr>"

definition BlockCalculate :: "u32 \<Rightarrow> u32 \<Rightarrow> u32 \<Rightarrow> u32 \<Rightarrow> BlockType option" where
  "BlockCalculate addr len interval base_addr =
     (if base_addr > addr then Some InitBlock
      else if interval = 0 then None
      else let
        head = (interval - (addr - base_addr) mod interval) mod interval;
        head = min head len;
        body_addr = addr + head;
        count = (len - head) div interval;
        body = interval * count
      in Some \<lparr>HeadAddress = addr, TailAddress = body_addr + body, BodyAddress = body_addr,
           HeadLength = head, TailLength = len - head - body, BodyLength = body,
           BodyBlockCount = count\<rparr>)"

section \<open>Single bits (usdl_bit.c)\<close>

text \<open>\<open>1UL << pos\<close> and \<open>1ULL << pos\<close>, at the width of the constant.\<close>

definition shl1 :: "u8 \<Rightarrow> 'a::len word option" where
  "shl1 pos = (if unat pos < LENGTH('a) then Some (push_bit (unat pos) 1) else None)"

definition BitMask :: "u8 \<Rightarrow> u64 option" where
  "BitMask pos = shl1 pos"

definition BitPointSet :: "u8 list \<Rightarrow> u8 \<Rightarrow> u8 \<Rightarrow> u8 list option" where
  "BitPointSet src pos width =
     (if width = 1 then do {
        x :: u8 \<leftarrow> ld 1 src 0; m :: u32 \<leftarrow> shl1 pos; st 1 src 0 (ucast (ucast x OR m) :: u8) }
      else if width = 2 then do {
        x :: u16 \<leftarrow> ld 2 src 0; m :: u32 \<leftarrow> shl1 pos; st 2 src 0 (ucast (ucast x OR m) :: u16) }
      else if width = 4 then do {
        x :: u32 \<leftarrow> ld 4 src 0; m :: u32 \<leftarrow> shl1 pos; st 4 src 0 (x OR m) }
      else if width = 8 then do {
        x :: u64 \<leftarrow> ld 8 src 0; m :: u64 \<leftarrow> shl1 pos; st 8 src 0 (x OR m) }
      else Some src)"

definition BitPointClr :: "u8 list \<Rightarrow> u8 \<Rightarrow> u8 \<Rightarrow> u8 list option" where
  "BitPointClr src pos width =
     (if width = 1 then do {
        x :: u8 \<leftarrow> ld 1 src 0; m :: u32 \<leftarrow> shl1 pos; st 1 src 0 (ucast (ucast x AND NOT m) :: u8) }
      else if width = 2 then do {
        x :: u16 \<leftarrow> ld 2 src 0; m :: u32 \<leftarrow> shl1 pos; st 2 src 0 (ucast (ucast x AND NOT m) :: u16) }
      else if width = 4 then do {
        x :: u32 \<leftarrow> ld 4 src 0; m :: u32 \<leftarrow> shl1 pos; st 4 src 0 (x AND NOT m) }
      else if width = 8 then do {
        x :: u64 \<leftarrow> ld 8 src 0; m :: u64 \<leftarrow> shl1 pos; st 8 src 0 (x AND NOT m) }
      else Some src)"

definition BitPointNot :: "u8 list \<Rightarrow> u8 \<Rightarrow> u8 \<Rightarrow> u8 list option" where
  "BitPointNot src pos width =
     (if width = 1 then do {
        x :: u8 \<leftarrow> ld 1 src 0; m :: u32 \<leftarrow> shl1 pos; st 1 src 0 (ucast (ucast x XOR m) :: u8) }
      else if width = 2 then do {
        x :: u16 \<leftarrow> ld 2 src 0; m :: u32 \<leftarrow> shl1 pos; st 2 src 0 (ucast (ucast x XOR m) :: u16) }
      else if width = 4 then do {
        x :: u32 \<leftarrow> ld 4 src 0; m :: u32 \<leftarrow> shl1 pos; st 4 src 0 (x XOR m) }
      else if width = 8 then do {
        x :: u64 \<leftarrow> ld 8 src 0; m :: u64 \<leftarrow> shl1 pos; st 8 src 0 (x XOR m) }
      else Some src)"

definition BitGet :: "u64 \<Rightarrow> u8 \<Rightarrow> u8 option" where
  "BitGet value pos =
     (if unat pos < 64 then Some (ucast (drop_bit (unat pos) value AND 1)) else None)"

definition BitValueSet :: "u64 \<Rightarrow> u8 \<Rightarrow> u64 option" where
  "BitValueSet value pos = do { m :: u64 \<leftarrow> shl1 pos; Some (value OR m) }"

text \<open>The mask of \<open>BitValueClr\<close> is \<open>~(1UL << pos)\<close>: complemented at 32 bits, then widened.\<close>

definition BitValueClr :: "u64 \<Rightarrow> u8 \<Rightarrow> u64 option" where
  "BitValueClr value pos = do { m :: u32 \<leftarrow> shl1 pos; Some (value AND ucast (NOT m)) }"

definition BitValueNot :: "u64 \<Rightarrow> u8 \<Rightarrow> u64 option" where
  "BitValueNot value pos = do { m :: u64 \<leftarrow> shl1 pos; Some (value XOR m) }"

definition BitValueGetSetNum :: "u32 \<Rightarrow> u32" where
  "BitValueGetSetNum value =
    (let value = (value AND 0x55555555) + (drop_bit 1 value AND 0x55555555);
         value = (value AND 0x33333333) + (drop_bit 2 value AND 0x33333333);
         value = (value AND 0x0F0F0F0F) + (drop_bit 4 value AND 0x0F0F0F0F);
         value = (value AND 0x00FF00FF) + (drop_bit 8 value AND 0x00FF00FF);
         value = (value AND 0x0000FFFF) + (drop_bit 16 value AND 0x0000FFFF)
     in value)"

section \<open>Bit reversal (usdl_bit.c)\<close>

definition BitValueU8Reverse :: "u8 \<Rightarrow> u8" where
  "BitValueU8Reverse value =
    (let value = push_bit 1 (value AND 0x55) OR drop_bit 1 (value AND 0xAA);
         value = push_bit 2 (value AND 0x33) OR drop_bit 2 (value AND 0xCC);
         value = push_bit 4 (value AND 0x0F) OR drop_bit 4 (value AND 0xF0)
     in value)"

definition BitValueU16Reverse :: "u16 \<Rightarrow> u16" where
  "BitValueU16Reverse value =
    (let value = push_bit 1 (value AND 0x5555) OR drop_bit 1 (value AND 0xAAAA);
         value = push_bit 2 (value AND 0x3333) OR drop_bit 2 (value AND 0xCCCC);
         value = push_bit 4 (value AND 0x0F0F) OR drop_bit 4 (value AND 0xF0F0);
         value = push_bit 8 (value AND 0x00FF) OR drop_bit 8 (value AND 0xFF00)
     in value)"

definition BitValueU32Reverse :: "u32 \<Rightarrow> u32" where
  "BitValueU32Reverse value =
    (let value = push_bit 1 (value AND 0x55555555) OR drop_bit 1 (value AND 0xAAAAAAAA);
         value = push_bit 2 (value AND 0x33333333) OR drop_bit 2 (value AND 0xCCCCCCCC);
         value = push_bit 4 (value AND 0x0F0F0F0F) OR drop_bit 4 (value AND 0xF0F0F0F0);
         value = push_bit 8 (value AND 0x00FF00FF) OR drop_bit 8 (value AND 0xFF00FF00);
         value = push_bit 16 (value AND 0x0000FFFF) OR drop_bit 16 (value AND 0xFFFF0000)
     in value)"

text \<open>\<open>n\<close> rounds left, \<open>i\<close> done: bit \<open>i\<close> of the original is moved to bit \<open>len - 1 - i\<close>.\<close>

fun BitValueReverse_loop :: "nat \<Rightarrow> nat \<Rightarrow> nat \<Rightarrow> u64 \<Rightarrow> u64 \<Rightarrow> u64 option" where
  "BitValueReverse_loop 0 len i t value = Some value"
| "BitValueReverse_loop (Suc n) len i t value = do {
     m \<leftarrow> BitMask (of_nat (len - 1 - i));
     BitValueReverse_loop n len (Suc i) (drop_bit 1 t)
       (if t AND 1 \<noteq> 0 then value OR m else value AND NOT m)
   }"

definition BitValueReverse :: "u64 \<Rightarrow> u8 \<Rightarrow> u64 option" where
  "BitValueReverse value len = BitValueReverse_loop (unat len) (unat len) 0 value value"

section \<open>Bits of a byte array (usdl_bit.c)\<close>

definition ByteArrayBitSet :: "u8 list \<Rightarrow> u16 \<Rightarrow> u8 list option" where
  "ByteArrayBitSet data index = do {
     x \<leftarrow> rd data (unat (index div 8));
     wr data (unat (index div 8)) (x OR push_bit (unat (index mod 8)) 1)
   }"

definition ByteArrayBitClr :: "u8 list \<Rightarrow> u16 \<Rightarrow> u8 list option" where
  "ByteArrayBitClr data index = do {
     x \<leftarrow> rd data (unat (index div 8));
     wr data (unat (index div 8)) (x AND NOT (push_bit (unat (index mod 8)) 1))
   }"

definition ByteArrayBitGet :: "u8 list \<Rightarrow> u16 \<Rightarrow> bool option" where
  "ByteArrayBitGet data index = do {
     x \<leftarrow> rd data (unat (index div 8));
     Some (x AND push_bit (unat (index mod 8)) 1 \<noteq> 0)
   }"

section \<open>Typed accesses\<close>

lemma le_dec_take_bit: "le_dec (le_enc n x) = take_bit (8 * n) x"
  by (simp add: le_dec_enc take_bit_eq_mod power_mult)

lemma st_Some:
  "p + n \<le> length m \<Longrightarrow> st n m p v = Some (take p m @ le_enc n (unat v) @ drop (p + n) m)"
  by (simp add: st_def wrs_Some)

lemma ld_Some:
  "p + n \<le> length m \<Longrightarrow> ld n m p = Some (of_nat (le_dec (take n (drop p m))))"
  by (simp add: ld_def rds_Some)

text \<open>What was stored is what is loaded, and the bits of an object are those of its value.\<close>

lemma ld_st:
  assumes "LENGTH('a::len) = 8 * n"
  shows "(of_nat (le_dec (le_enc n (unat (v :: 'a word)))) :: 'a word) = v"
proof -
  have "unat v < 2 ^ (8 * n)" using unsigned_less [of v] assms by simp
  then have "take_bit (8 * n) (unat v) = unat v" by (rule take_bit_nat_eq_self)
  then show ?thesis by (simp add: le_dec_take_bit)
qed

lemma bit_le_dec_of_nat:
  assumes "LENGTH('a::len) = 8 * length bs"
  shows "bit (of_nat (le_dec bs) :: 'a word) k \<longleftrightarrow> bit (le_dec bs) k"
proof -
  have "le_dec bs < 2 ^ (8 * length bs)"
    using le_dec_less [of bs] by (simp add: power_mult)
  then have "unat (of_nat (le_dec bs) :: 'a word) = le_dec bs"
    using assms by (simp add: unat_of_nat take_bit_nat_eq_self)
  moreover have "bit (unat (of_nat (le_dec bs) :: 'a word)) k = bit (of_nat (le_dec bs) :: 'a word) k"
    by (simp only: bit_unsigned_iff possible_bit_nat simp_thms)
  ultimately show ?thesis by simp
qed

text \<open>The object at the start of \<open>src\<close>, \<open>w\<close> bytes wide, has bit \<open>pos\<close> changed by \<open>g\<close> and every other
  bit, and every byte behind the object, as before.\<close>

definition point_spec :: "(bool \<Rightarrow> bool) \<Rightarrow> nat \<Rightarrow> nat \<Rightarrow> u8 list \<Rightarrow> u8 list \<Rightarrow> bool" where
  "point_spec g pos w src src' \<longleftrightarrow>
     length src' = length src \<and> drop w src' = drop w src \<and>
     (\<forall>k < 8 * w. bit (le_dec (take w src')) k =
        (if k = pos then g (bit (le_dec (take w src)) k) else bit (le_dec (take w src)) k))"

lemma point_update:
  fixes f :: "'a::len word \<Rightarrow> 'a word"
  assumes w: "LENGTH('a) = 8 * w" and len: "w \<le> length src"
    and f: "\<And>x k. k < 8 * w \<Longrightarrow> bit (f x) k = (if k = pos then g (bit x k) else bit x k)"
  shows "\<exists>src'. (ld w src 0 \<bind> (\<lambda>x. st w src 0 (f x))) = Some src' \<and> point_spec g pos w src src'"
proof -
  define x :: "'a word" where "x = of_nat (le_dec (take w src))"
  define bs where "bs = le_enc w (unat (f x))"
  have length_bs: "length bs = w" by (simp add: bs_def)
  have bit_x: "bit x k = bit (le_dec (take w src)) k" for k
    unfolding x_def using w len by (intro bit_le_dec_of_nat) simp
  have "of_nat (le_dec bs) = f x" using ld_st [OF w, of "f x"] by (simp add: bs_def)
  then have bit_bs: "bit (le_dec bs) k = bit (f x) k" for k
    using bit_le_dec_of_nat [of bs k, where 'a = 'a] w by (simp add: bs_def)
  have "(ld w src 0 \<bind> (\<lambda>x. st w src 0 (f x))) = Some (bs @ drop w src)"
    using len by (simp add: ld_Some st_Some x_def bs_def)
  moreover have "point_spec g pos w src (bs @ drop w src)"
    using len f length_bs by (simp add: point_spec_def bit_bs bit_x)
  ultimately show ?thesis by blast
qed

lemma shl1_Some: "unat pos < LENGTH('a::len) \<Longrightarrow> shl1 pos = Some (push_bit (unat pos) (1 :: 'a word))"
  by (simp add: shl1_def)

lemma bit_mask:
  fixes x :: "'a::len word"
  assumes "k < LENGTH('a)" and "LENGTH('a) \<le> LENGTH('b::len)"
  shows "bit (ucast (ucast x OR push_bit p (1 :: 'b word)) :: 'a word) k =
      (if k = p then True else bit x k)"
    and "bit (ucast (ucast x AND NOT (push_bit p (1 :: 'b word))) :: 'a word) k =
      (if k = p then False else bit x k)"
    and "bit (ucast (ucast x XOR push_bit p (1 :: 'b word)) :: 'a word) k =
      (if k = p then \<not> bit x k else bit x k)"
  using assms by (auto simp: bit_simps)

lemmas bit_mask_8 = bit_mask [where 'a = 8 and 'b = 32, simplified]
  and bit_mask_16 = bit_mask [where 'a = 16 and 'b = 32, simplified]
  and bit_mask_32 = bit_mask [where 'a = 32 and 'b = 32, simplified]
  and bit_mask_64 = bit_mask [where 'a = 64 and 'b = 64, simplified]

lemmas bit_mask_widths = bit_mask_8 bit_mask_16 bit_mask_32 bit_mask_64

lemma BitPointSet_spec:
  assumes "w \<in> {1, 2, 4, 8}" and "unat pos < 8 * unat w" and "unat w \<le> length src"
  shows "\<exists>src'. BitPointSet src pos w = Some src' \<and>
    point_spec (\<lambda>_. True) (unat pos) (unat w) src src'"
  using assms
  by (elim insertE emptyE)
     (simp_all add: BitPointSet_def shl1_Some, (rule point_update; simp add: bit_mask_widths)+)

lemma BitPointClr_spec:
  assumes "w \<in> {1, 2, 4, 8}" and "unat pos < 8 * unat w" and "unat w \<le> length src"
  shows "\<exists>src'. BitPointClr src pos w = Some src' \<and>
    point_spec (\<lambda>_. False) (unat pos) (unat w) src src'"
  using assms
  by (elim insertE emptyE)
     (simp_all add: BitPointClr_def shl1_Some, (rule point_update; simp add: bit_mask_widths)+)

lemma BitPointNot_spec:
  assumes "w \<in> {1, 2, 4, 8}" and "unat pos < 8 * unat w" and "unat w \<le> length src"
  shows "\<exists>src'. BitPointNot src pos w = Some src' \<and>
    point_spec Not (unat pos) (unat w) src src'"
  using assms
  by (elim insertE emptyE)
     (simp_all add: BitPointNot_def shl1_Some, (rule point_update; simp add: bit_mask_widths)+)

section \<open>Fields, blocks and reversal\<close>

lemma le_dec_bytes:
  "le_dec [b0, b1] = unat b0 + 256 * unat b1"
  "le_dec [b0, b1, b2, b3] = unat b0 + 256 * unat b1 + 65536 * unat b2 + 16777216 * unat b3"
  by simp_all

lemma ArrayU8ToU16_le: "2 \<le> length src \<Longrightarrow> ArrayU8ToU16 src = Some (of_nat (le_dec (take 2 src)))"
proof -
  assume "2 \<le> length src"
  then obtain b0 b1 r where [simp]: "src = b0 # b1 # r"
    by (metis Suc_le_length_iff numeral_2_eq_2)
  have "(ucast b0 + push_bit 8 (ucast b1) :: u32) = of_nat (unat b0 + 256 * unat b1)"
    by (simp add: push_bit_eq_mult algebra_simps)
  moreover have "unat b0 + 256 * unat b1 < 65536"
    using unat_less_u8 [of b0] unat_less_u8 [of b1] by simp
  then have "ucast (of_nat (unat b0 + 256 * unat b1) :: u32) =
      (of_nat (unat b0 + 256 * unat b1) :: u16)"
    by (intro word_unat_eqI) (simp only: unsigned_ucast_eq unat_of_nat_u16 unat_of_nat_u32, simp add: take_bit_eq_mod)
  ultimately show ?thesis by (simp add: ArrayU8ToU16_def rd_def)
qed

lemma ArrayU8ToU32_le: "4 \<le> length src \<Longrightarrow> ArrayU8ToU32 src = Some (of_nat (le_dec (take 4 src)))"
proof -
  assume "4 \<le> length src"
  then obtain b0 b1 b2 b3 r where [simp]: "src = b0 # b1 # b2 # b3 # r"
    by (auto simp: numeral_eq_Suc Suc_le_length_iff)
  show ?thesis by (simp add: ArrayU8ToU32_def rd_def push_bit_eq_mult algebra_simps)
qed

lemma ArrayU8ToU64_le: "8 \<le> length src \<Longrightarrow> ArrayU8ToU64 src = Some (of_nat (le_dec (take 8 src)))"
proof -
  assume "8 \<le> length src"
  then obtain b0 b1 b2 b3 b4 b5 b6 b7 r where
    [simp]: "src = b0 # b1 # b2 # b3 # b4 # b5 # b6 # b7 # r"
    by (auto simp: numeral_eq_Suc Suc_le_length_iff)
  show ?thesis by (simp add: ArrayU8ToU64_def rd_def push_bit_eq_mult algebra_simps)
qed

lemma DataToArray_le:
  "2 \<le> length dst \<Longrightarrow> DataU16ToArrayU8 dst v2 = Some (le_enc 2 (unat v2) @ drop 2 dst, 2)"
  "4 \<le> length dst \<Longrightarrow> DataU32ToArrayU8 dst v4 = Some (le_enc 4 (unat v4) @ drop 4 dst, 4)"
  "8 \<le> length dst \<Longrightarrow> DataU64ToArrayU8 dst v8 = Some (le_enc 8 (unat v8) @ drop 8 dst, 8)"
proof -
  assume "2 \<le> length dst"
  then obtain b0 b1 r where "dst = b0 # b1 # r"
    by (auto simp: numeral_eq_Suc Suc_le_length_iff)
  then show "DataU16ToArrayU8 dst v2 = Some (le_enc 2 (unat v2) @ drop 2 dst, 2)"
    unfolding le_enc_2 DataU16ToArrayU8_def ucast_shift_byte by (simp add: wr_def)
next
  assume "4 \<le> length dst"
  then obtain b0 b1 b2 b3 r where "dst = b0 # b1 # b2 # b3 # r"
    by (auto simp: numeral_eq_Suc Suc_le_length_iff)
  then show "DataU32ToArrayU8 dst v4 = Some (le_enc 4 (unat v4) @ drop 4 dst, 4)"
    unfolding le_enc_4 DataU32ToArrayU8_def ucast_shift_byte by (simp add: wr_def)
next
  assume "8 \<le> length dst"
  then obtain b0 b1 b2 b3 b4 b5 b6 b7 r where
    "dst = b0 # b1 # b2 # b3 # b4 # b5 # b6 # b7 # r"
    by (auto simp: numeral_eq_Suc Suc_le_length_iff)
  then show "DataU64ToArrayU8 dst v8 = Some (le_enc 8 (unat v8) @ drop 8 dst, 8)"
    unfolding le_enc_8 DataU64ToArrayU8_def ucast_shift_byte by (simp add: wr_def)
qed

text \<open>One round of the reversal swaps neighbouring groups of \<open>s\<close> bits.\<close>

definition swap_index :: "nat \<Rightarrow> nat \<Rightarrow> nat" where
  "swap_index s n = (if n mod (2 * s) < s then n + s else n - s)"

lemma swap_index_props:
  assumes "0 < s" and "n < 2 * s * (m :: nat)"
  shows "n mod (2 * s) < s \<Longrightarrow> n + s < 2 * s * m \<and> s \<le> (n + s) mod (2 * s)"
    and "n mod (2 * s) < s \<Longrightarrow> s \<le> n \<Longrightarrow> s \<le> (n - s) mod (2 * s)"
    and "s \<le> n mod (2 * s) \<Longrightarrow> s \<le> n \<and> (n - s) mod (2 * s) < s"
    and "s \<le> n mod (2 * s) \<Longrightarrow> (n + s) mod (2 * s) < s"
proof -
  define q r where "q = n div (2 * s)" and "r = n mod (2 * s)"
  have n: "n = 2 * s * q + r" and r: "r < 2 * s" using assms(1) by (simp_all add: q_def r_def)
  have q: "q < m" using assms by (simp add: q_def less_mult_imp_div_less mult.commute)
  then have qm: "2 * s * q + 2 * s \<le> 2 * s * m"
    by (metis Suc_leI mult_Suc_right mult_le_mono2 add.commute)
  show "n mod (2 * s) < s \<Longrightarrow> n + s < 2 * s * m \<and> s \<le> (n + s) mod (2 * s)"
  proof -
    assume "n mod (2 * s) < s"
    then have "r < s" by (simp add: r_def)
    then have "r + s < 2 * s" by simp
    then show ?thesis using qm by (simp add: n add.assoc)
  qed
  show "s \<le> n mod (2 * s) \<Longrightarrow> s \<le> n \<and> (n - s) mod (2 * s) < s"
  proof -
    assume "s \<le> n mod (2 * s)"
    then have "s \<le> r" by (simp add: r_def)
    then have e: "n - s = 2 * s * q + (r - s)" and "r - s < s" using n r by simp_all
    then have "(n - s) mod (2 * s) < s" unfolding e by simp
    then show ?thesis using n \<open>s \<le> r\<close> by simp
  qed
  show "s \<le> n mod (2 * s) \<Longrightarrow> (n + s) mod (2 * s) < s"
  proof -
    assume "s \<le> n mod (2 * s)"
    then have "s \<le> r" by (simp add: r_def)
    then have "n + s = 2 * s * (q + 1) + (r - s)" and "r - s < s" using n r by (simp_all add: algebra_simps)
    then show ?thesis by simp
  qed
  show "n mod (2 * s) < s \<Longrightarrow> s \<le> n \<Longrightarrow> s \<le> (n - s) mod (2 * s)"
  proof -
    assume "n mod (2 * s) < s" "s \<le> n"
    then have rs: "r < s" by (simp add: r_def)
    with \<open>s \<le> n\<close> n have "0 < q" by (cases q) auto
    then obtain q' where "q = Suc q'" by (cases q) auto
    then have "n - s = 2 * s * q' + (r + s)" using n by (simp add: algebra_simps)
    then show ?thesis using rs by simp
  qed
qed

lemma bit_swap_round:
  fixes v :: "'a::len word"
  assumes s: "0 < s" and L: "LENGTH('a) = 2 * s * m" and n: "n < LENGTH('a)"
    and lo: "\<And>k. k < LENGTH('a) \<Longrightarrow> bit lo k = (k mod (2 * s) < s)"
    and hi: "\<And>k. k < LENGTH('a) \<Longrightarrow> bit hi k = (s \<le> k mod (2 * s))"
  shows "bit (push_bit s (v AND lo) OR drop_bit s (v AND hi)) n = bit v (swap_index s n)"
  using n swap_index_props [OF s, of n m] lo [of "n - s"] hi [of "n + s"]
  by (cases "n mod (2 * s) < s"; cases "s \<le> n"; cases "n + s < LENGTH('a)")
     (auto simp: bit_simps swap_index_def L add.commute [of s n] not_less dest: bit_imp_le_length)

lemma mask_bits_32:
  "\<forall>k\<in>set [0..<32]. bit (0x55555555 :: u32) k = (k mod 2 < 1) \<and> bit (0xAAAAAAAA :: u32) k = (1 \<le> k mod 2)"
  "\<forall>k\<in>set [0..<32]. bit (0x33333333 :: u32) k = (k mod 4 < 2) \<and> bit (0xCCCCCCCC :: u32) k = (2 \<le> k mod 4)"
  "\<forall>k\<in>set [0..<32]. bit (0x0F0F0F0F :: u32) k = (k mod 8 < 4) \<and> bit (0xF0F0F0F0 :: u32) k = (4 \<le> k mod 8)"
  "\<forall>k\<in>set [0..<32]. bit (0x00FF00FF :: u32) k = (k mod 16 < 8) \<and> bit (0xFF00FF00 :: u32) k = (8 \<le> k mod 16)"
  "\<forall>k\<in>set [0..<32]. bit (0x0000FFFF :: u32) k = (k mod 32 < 16) \<and> bit (0xFFFF0000 :: u32) k = (16 \<le> k mod 32)"
  by code_simp+

lemma mask_bits_16:
  "\<forall>k\<in>set [0..<16]. bit (0x5555 :: u16) k = (k mod 2 < 1) \<and> bit (0xAAAA :: u16) k = (1 \<le> k mod 2)"
  "\<forall>k\<in>set [0..<16]. bit (0x3333 :: u16) k = (k mod 4 < 2) \<and> bit (0xCCCC :: u16) k = (2 \<le> k mod 4)"
  "\<forall>k\<in>set [0..<16]. bit (0x0F0F :: u16) k = (k mod 8 < 4) \<and> bit (0xF0F0 :: u16) k = (4 \<le> k mod 8)"
  "\<forall>k\<in>set [0..<16]. bit (0x00FF :: u16) k = (k mod 16 < 8) \<and> bit (0xFF00 :: u16) k = (8 \<le> k mod 16)"
  by code_simp+

lemma mask_bits_8:
  "\<forall>k\<in>set [0..<8]. bit (0x55 :: u8) k = (k mod 2 < 1) \<and> bit (0xAA :: u8) k = (1 \<le> k mod 2)"
  "\<forall>k\<in>set [0..<8]. bit (0x33 :: u8) k = (k mod 4 < 2) \<and> bit (0xCC :: u8) k = (2 \<le> k mod 4)"
  "\<forall>k\<in>set [0..<8]. bit (0x0F :: u8) k = (k mod 8 < 4) \<and> bit (0xF0 :: u8) k = (4 \<le> k mod 8)"
  by code_simp+

lemmas mask_bits = mask_bits_32 mask_bits_16 mask_bits_8

lemma swap_index_compose:
  "\<forall>n\<in>set [0..<32]. swap_index 1 (swap_index 2 (swap_index 4 (swap_index 8 (swap_index 16 n)))) = 31 - n
     \<and> swap_index 16 n < 32 \<and> swap_index 8 (swap_index 16 n) < 32 \<and>
     swap_index 4 (swap_index 8 (swap_index 16 n)) < 32 \<and>
     swap_index 2 (swap_index 4 (swap_index 8 (swap_index 16 n))) < 32"
  "\<forall>n\<in>set [0..<16]. swap_index 1 (swap_index 2 (swap_index 4 (swap_index 8 n))) = 15 - n
     \<and> swap_index 8 n < 16 \<and> swap_index 4 (swap_index 8 n) < 16 \<and>
     swap_index 2 (swap_index 4 (swap_index 8 n)) < 16"
  "\<forall>n\<in>set [0..<8]. swap_index 1 (swap_index 2 (swap_index 4 n)) = 7 - n
     \<and> swap_index 4 n < 8 \<and> swap_index 2 (swap_index 4 n) < 8"
  by code_simp+

lemma swap_rounds_32:
  fixes v :: u32
  shows "n < 32 \<Longrightarrow> bit (push_bit 1 (v AND 0x55555555) OR drop_bit 1 (v AND 0xAAAAAAAA)) n = bit v (swap_index 1 n)"
    and "n < 32 \<Longrightarrow> bit (push_bit 2 (v AND 0x33333333) OR drop_bit 2 (v AND 0xCCCCCCCC)) n = bit v (swap_index 2 n)"
    and "n < 32 \<Longrightarrow> bit (push_bit 4 (v AND 0x0F0F0F0F) OR drop_bit 4 (v AND 0xF0F0F0F0)) n = bit v (swap_index 4 n)"
    and "n < 32 \<Longrightarrow> bit (push_bit 8 (v AND 0x00FF00FF) OR drop_bit 8 (v AND 0xFF00FF00)) n = bit v (swap_index 8 n)"
    and "n < 32 \<Longrightarrow> bit (push_bit 16 (v AND 0x0000FFFF) OR drop_bit 16 (v AND 0xFFFF0000)) n = bit v (swap_index 16 n)"
  subgoal using mask_bits_32(1) by (intro bit_swap_round [where m = 16]) simp_all
  subgoal using mask_bits_32(2) by (intro bit_swap_round [where m = 8]) simp_all
  subgoal using mask_bits_32(3) by (intro bit_swap_round [where m = 4]) simp_all
  subgoal using mask_bits_32(4) by (intro bit_swap_round [where m = 2]) simp_all
  subgoal using mask_bits_32(5) by (intro bit_swap_round [where m = 1]) simp_all
  done

lemma swap_rounds_16:
  fixes v :: u16
  shows "n < 16 \<Longrightarrow> bit (push_bit 1 (v AND 0x5555) OR drop_bit 1 (v AND 0xAAAA)) n = bit v (swap_index 1 n)"
    and "n < 16 \<Longrightarrow> bit (push_bit 2 (v AND 0x3333) OR drop_bit 2 (v AND 0xCCCC)) n = bit v (swap_index 2 n)"
    and "n < 16 \<Longrightarrow> bit (push_bit 4 (v AND 0x0F0F) OR drop_bit 4 (v AND 0xF0F0)) n = bit v (swap_index 4 n)"
    and "n < 16 \<Longrightarrow> bit (push_bit 8 (v AND 0x00FF) OR drop_bit 8 (v AND 0xFF00)) n = bit v (swap_index 8 n)"
  subgoal using mask_bits_16(1) by (intro bit_swap_round [where m = 8]) simp_all
  subgoal using mask_bits_16(2) by (intro bit_swap_round [where m = 4]) simp_all
  subgoal using mask_bits_16(3) by (intro bit_swap_round [where m = 2]) simp_all
  subgoal using mask_bits_16(4) by (intro bit_swap_round [where m = 1]) simp_all
  done

lemma swap_rounds_8:
  fixes v :: u8
  shows "n < 8 \<Longrightarrow> bit (push_bit 1 (v AND 0x55) OR drop_bit 1 (v AND 0xAA)) n = bit v (swap_index 1 n)"
    and "n < 8 \<Longrightarrow> bit (push_bit 2 (v AND 0x33) OR drop_bit 2 (v AND 0xCC)) n = bit v (swap_index 2 n)"
    and "n < 8 \<Longrightarrow> bit (push_bit 4 (v AND 0x0F) OR drop_bit 4 (v AND 0xF0)) n = bit v (swap_index 4 n)"
  subgoal using mask_bits_8(1) by (intro bit_swap_round [where m = 4]) simp_all
  subgoal using mask_bits_8(2) by (intro bit_swap_round [where m = 2]) simp_all
  subgoal using mask_bits_8(3) by (intro bit_swap_round [where m = 1]) simp_all
  done

lemma BitValueU32Reverse_bit:
  assumes "n < 32"
  shows "bit (BitValueU32Reverse v) n = bit v (31 - n)"
proof -
  have "n \<in> set [0..<32]" using assms by simp
  note idx = bspec [OF swap_index_compose(1) this]
  show ?thesis
    unfolding BitValueU32Reverse_def Let_def by (simp only: swap_rounds_32 assms idx)
qed

lemma BitValueU16Reverse_bit:
  assumes "n < 16"
  shows "bit (BitValueU16Reverse v) n = bit v (15 - n)"
proof -
  have "n \<in> set [0..<16]" using assms by simp
  note idx = bspec [OF swap_index_compose(2) this]
  show ?thesis
    unfolding BitValueU16Reverse_def Let_def by (simp only: swap_rounds_16 assms idx)
qed

lemma BitValueU8Reverse_bit:
  assumes "n < 8"
  shows "bit (BitValueU8Reverse v) n = bit v (7 - n)"
proof -
  have "n \<in> set [0..<8]" using assms by simp
  note idx = bspec [OF swap_index_compose(3) this]
  show ?thesis
    unfolding BitValueU8Reverse_def Let_def by (simp only: swap_rounds_8 assms idx)
qed

text \<open>The general reversal of the low \<open>len\<close> bits: after \<open>i\<close> rounds the top \<open>i\<close> of them are done.\<close>

lemma BitValueReverse_loop_bits:
  assumes "i + n = len" and "len \<le> 64"
    and "\<And>k. bit v k = (if len - i \<le> k \<and> k < len then bit v0 (len - 1 - k) else bit v0 k)"
  shows "\<exists>r. BitValueReverse_loop n len i (drop_bit i v0) v = Some r \<and>
    (\<forall>k. bit r k = (if k < len then bit v0 (len - 1 - k) else bit v0 k))"
  using assms
proof (induction n arbitrary: i v)
  case 0
  then show ?case by auto
next
  case (Suc n)
  have u: "unat (of_nat (len - 1 - i) :: u8) = len - 1 - i"
    using Suc.prems(1,2) by (subst unat_of_nat_u8) simp
  then have m: "BitMask (of_nat (len - 1 - i)) = Some (push_bit (len - 1 - i) 1)"
    using Suc.prems by (simp add: BitMask_def shl1_def)
  have t: "(drop_bit i v0 AND 1 \<noteq> 0) = bit v0 i"
    by (simp add: and_one_eq bit_iff_odd drop_bit_eq_div odd_iff_mod_2_eq_one)
  define v' where "v' = (if bit v0 i then v OR push_bit (len - 1 - i) 1
    else v AND NOT (push_bit (len - 1 - i) 1))"
  have bit': "bit v' k = (if k = len - 1 - i then bit v0 i else bit v k)" for k
    using Suc.prems(1,2) by (auto simp: v'_def bit_simps dest: bit_imp_le_length)
  have "\<exists>r. BitValueReverse_loop n len (Suc i) (drop_bit (Suc i) v0) v' = Some r \<and>
    (\<forall>k. bit r k = (if k < len then bit v0 (len - 1 - k) else bit v0 k))"
  proof (rule Suc.IH)
    show "bit v' k = (if len - Suc i \<le> k \<and> k < len then bit v0 (len - 1 - k) else bit v0 k)"
      for k
    proof -
      have "k = len - 1 - i \<Longrightarrow> len - 1 - k = i" using Suc.prems(1) by simp
      then show ?thesis
        using Suc.prems(1) by (auto simp: bit' Suc.prems(3))
    qed
  qed (use Suc.prems in auto)
  moreover have "drop_bit 1 (drop_bit i v0) = drop_bit (Suc i) v0" by simp
  ultimately show ?case
    by (simp only: BitValueReverse_loop.simps m t v'_def Option.bind.bind_lunit)
qed

section \<open>Properties\<close>

text \<open>For the widths 1, 2, 4 and 8 and a position inside the object, \<open>BitPointSet\<close>,
  \<open>BitPointClr\<close> and \<open>BitPointNot\<close> succeed and set, clear and flip exactly that bit of the
  little-endian object, leaving every other bit and the bytes behind the object alone.\<close>

theorem BitPoint_changes_one_bit:
  assumes "w \<in> {1, 2, 4, 8}" and "unat pos < 8 * unat w" and "unat w \<le> length src"
  shows "(\<exists>s. BitPointSet src pos w = Some s \<and> point_spec (\<lambda>_. True) (unat pos) (unat w) src s) \<and>
    (\<exists>s. BitPointClr src pos w = Some s \<and> point_spec (\<lambda>_. False) (unat pos) (unat w) src s) \<and>
    (\<exists>s. BitPointNot src pos w = Some s \<and> point_spec Not (unat pos) (unat w) src s)"
  using BitPointSet_spec [OF assms] BitPointClr_spec [OF assms] BitPointNot_spec [OF assms]
  by blast

theorem BitPoint_changes_one_bit_witness:
  "\<exists>s. BitPointClr [0xFF, 0xFF, 7] 9 2 = Some s \<and> point_spec (\<lambda>_. False) 9 2 [0xFF, 0xFF, 7] s"
  using BitPoint_changes_one_bit [of 2 9 "[0xFF, 0xFF, 7]"] by simp

text \<open>A field stored by \<open>SetVoidVar\<close> or \<open>DataU64ToArrayU8\<close> is what \<open>GetVoidVar\<close> or
  \<open>ArrayU8ToU64\<close> reads back, cut to the width of the field; every width other than 2 and 4 is a
  byte. The bytes behind the field keep their values.\<close>

theorem SetVoidVar_GetVoidVar:
  assumes "8 \<le> length dst"
  shows "\<exists>d n. SetVoidVar dst width v = Some d \<and> n = (if width \<in> {2, 4} then unat width else 1) \<and>
      GetVoidVar d width = Some (of_nat (unat v mod 256 ^ n)) \<and> drop n d = drop n dst \<and>
      (\<exists>d. DataU64ToArrayU8 dst v8 = Some (d, 8) \<and> ArrayU8ToU64 d = Some v8 \<and>
         drop 8 d = drop 8 dst)"
proof -
  have d8: "\<exists>d. DataU64ToArrayU8 dst v8 = Some (d, 8) \<and> ArrayU8ToU64 d = Some v8 \<and>
      drop 8 d = drop 8 dst"
    using assms DataToArray_le(3) [of dst v8] ld_st [of 8 v8]
    by (simp add: ArrayU8ToU64_le)
  consider "width = 2" | "width = 4" | "width \<noteq> 2" "width \<noteq> 4" by blast
  then show ?thesis
  proof cases
    case 1
    then have "SetVoidVar dst width v = Some (le_enc 2 (unat (ucast v :: u16)) @ drop 2 dst)"
      using assms by (simp add: SetVoidVar_def DataToArray_le(1))
    moreover have "GetVoidVar (le_enc 2 (unat (ucast v :: u16)) @ drop 2 dst) width =
        Some (ucast (ucast v :: u16))"
      using 1 ld_st [of 2 "ucast v :: u16"] by (simp add: GetVoidVar_def ArrayU8ToU16_le)
    moreover have "(ucast (ucast v :: u16) :: u32) = of_nat (unat v mod 256 ^ 2)"
      by (intro word_unat_eqI)
         (simp add: unsigned_ucast_eq unat_of_nat_u32 take_bit_eq_mod unat_mod)
    ultimately show ?thesis using 1 d8 by simp
  next
    case 2
    then have "SetVoidVar dst width v = Some (le_enc 4 (unat v) @ drop 4 dst)"
      using assms by (simp add: SetVoidVar_def DataToArray_le(2))
    moreover have "GetVoidVar (le_enc 4 (unat v) @ drop 4 dst) width = Some v"
      using 2 ld_st [of 4 v] by (simp add: GetVoidVar_def ArrayU8ToU32_le)
    ultimately show ?thesis using 2 d8 unat_less_u32 [of v] by simp
  next
    case 3
    from assms obtain b r where "dst = b # r" by (cases dst) auto
    with 3 have "SetVoidVar dst width v = Some (ucast v # r)"
      "GetVoidVar (ucast v # r) width = Some (ucast (ucast v :: u8))" "drop 1 dst = r"
      by (simp_all add: SetVoidVar_def GetVoidVar_def wr_def rd_def)
    moreover have "(ucast (ucast v :: u8) :: u32) = of_nat (unat v mod 256)"
      by (intro word_unat_eqI)
         (simp add: unsigned_ucast_eq unat_of_nat_u32 take_bit_eq_mod unat_mod)
    ultimately show ?thesis using 3 d8 by simp
  qed
qed

theorem SetVoidVar_GetVoidVar_witness:
  "\<exists>d. SetVoidVar [1, 2, 3, 4, 5, 6, 7, 8] 2 0x12345 = Some d \<and>
     GetVoidVar d 2 = Some (of_nat (unat (0x12345 :: u32) mod 65536))"
  using SetVoidVar_GetVoidVar [of "[1, 2, 3, 4, 5, 6, 7, 8]" 2 "0x12345" 0] by auto

text \<open>With a non-zero block size, \<open>BlockCalculate\<close> cuts the range from \<open>addr\<close>, \<open>len\<close> bytes
  long, into a head shorter than a block, whole blocks and a tail shorter than a block: the three
  lengths add up to \<open>len\<close> without wrapping, the parts follow each other, and the body, when there
  is one or there is a tail, starts on a block boundary counted from the base address. A block
  size of zero divides by zero unless the range starts below the base.\<close>

theorem BlockCalculate_partition:
  assumes "base_addr \<le> addr" and "interval \<noteq> 0"
  shows "\<exists>r. BlockCalculate addr len interval base_addr = Some r \<and>
    unat (HeadLength r) + unat (BodyLength r) + unat (TailLength r) = unat len \<and>
    unat (BodyLength r) = unat interval * unat (BodyBlockCount r) \<and>
    HeadLength r < interval \<and> TailLength r < interval \<and>
    HeadAddress r = addr \<and> BodyAddress r = addr + HeadLength r \<and>
    TailAddress r = BodyAddress r + BodyLength r \<and>
    (HeadLength r < len \<longrightarrow>
       (unat addr - unat base_addr + unat (HeadLength r)) mod unat interval = 0)"
proof -
  define n d where "n = unat interval" and "d = unat addr - unat base_addr"
  have n: "0 < n" using assms(2) by (simp add: n_def unat_gt_0)
  have n32: "n < 2 ^ 32" using unat_less_u32 [of interval] by (simp add: n_def)
  have d: "unat (addr - base_addr) = d"
    using assms(1) by (simp add: d_def unat_sub)
  define h0 where "h0 = (interval - (addr - base_addr) mod interval) mod interval"
  have "(addr - base_addr) mod interval \<le> interval"
    using n d by (simp add: word_le_nat_alt unat_mod n_def less_imp_le)
  then have h0: "unat h0 = (n - d mod n) mod n"
    by (simp add: h0_def unat_mod unat_sub d n_def)
  define h where "h = min h0 len"
  have h: "unat h = min (unat h0) (unat len)" by (simp add: h_def min_def word_le_nat_alt)
  have hlen: "h \<le> len" by (simp add: h_def)
  define q where "q = (len - h) div interval"
  have q: "unat q = (unat len - unat h) div n"
    using hlen by (simp add: q_def unat_div unat_sub n_def)
  have qn: "n * unat q \<le> unat len - unat h" by (simp add: q)
  then have nq: "unat (interval * q) = n * unat q"
    using unat_less_u32 [of len] by (simp add: unat_word_ariths n_def)
  have rest: "unat (len - h - interval * q) = (unat len - unat h) mod n"
    using hlen qn nq by (simp add: unat_sub word_le_nat_alt q minus_mult_div_eq_mod)
  have align: "(d + unat h) mod n = 0" if "h < len"
  proof -
    from that have "unat h = unat h0" by (simp add: h word_less_nat_alt)
    then have "(d + unat h) mod n = (d + (n - d mod n)) mod n"
      by (simp add: h0 mod_add_right_eq)
    also have "d + (n - d mod n) = n * (d div n) + n"
      using n by (metis add.assoc add_diff_inverse_nat mod_less_divisor mult_div_mod_eq not_less_iff_gr_or_eq)
    finally show ?thesis by simp
  qed
  define r where "r = \<lparr>HeadAddress = addr, TailAddress = addr + h + interval * q,
    BodyAddress = addr + h, HeadLength = h, TailLength = len - h - interval * q,
    BodyLength = interval * q, BodyBlockCount = q\<rparr>"
  have "BlockCalculate addr len interval base_addr = Some r"
    using assms by (simp add: BlockCalculate_def Let_def r_def h_def h0_def q_def not_less [symmetric])
  moreover have "unat h + n * unat q + (unat len - unat h) mod n = unat len"
    using hlen by (simp add: q word_le_nat_alt)
  moreover have "unat h < n"
    using n h0 h by (simp add: min_less_iff_disj)
  ultimately show ?thesis
    using n nq rest align by (intro exI [of _ r]) (simp add: r_def n_def d_def word_less_nat_alt)
qed

text \<open>The example of the source comment (blocks of 5 from address 0, start 6) has length 11.\<close>

theorem BlockCalculate_partition_witness:
  "\<exists>r. BlockCalculate 6 11 5 0 = Some r \<and> HeadLength r < 5 \<and>
     unat (HeadLength r) + unat (BodyLength r) + unat (TailLength r) = 11"
  using BlockCalculate_partition [of 0 6 5 11] by auto

text \<open>the bit reversals reverse: bit \<open>n\<close> of the result is the mirrored bit of the argument
  for the masked 8-, 16- and 32-bit versions, and for the loop version with \<open>len \<le> 64\<close> the low
  \<open>len\<close> bits are mirrored and the others kept.\<close>

theorem BitValue_reversals_mirror:
  assumes "unat len \<le> 64"
  shows "(n < 8 \<longrightarrow> bit (BitValueU8Reverse a) n = bit a (7 - n)) \<and>
    (n < 16 \<longrightarrow> bit (BitValueU16Reverse b) n = bit b (15 - n)) \<and>
    (n < 32 \<longrightarrow> bit (BitValueU32Reverse c) n = bit c (31 - n)) \<and>
    (\<exists>r. BitValueReverse d len = Some r \<and>
       (\<forall>k. bit r k = (if k < unat len then bit d (unat len - 1 - k) else bit d k)))"
proof -
  have "\<exists>r. BitValueReverse_loop (unat len) (unat len) 0 (drop_bit 0 d) d = Some r \<and>
    (\<forall>k. bit r k = (if k < unat len then bit d (unat len - 1 - k) else bit d k))"
    using assms by (intro BitValueReverse_loop_bits) auto
  then show ?thesis
    unfolding BitValueReverse_def
    by (intro conjI impI) (simp_all only: BitValueU8Reverse_bit BitValueU16Reverse_bit
        BitValueU32Reverse_bit drop_bit_0 id_apply)
qed

theorem BitValue_reversals_mirror_witness:
  "\<exists>r. BitValueReverse 0x3e23 3 = Some r \<and> \<not> bit r 0 \<and> bit r 1 \<and> bit r 2"
  using BitValue_reversals_mirror [of 3 0 0 0 0 "0x3e23"] by auto

text \<open>\<open>BitValueClr\<close> takes a 64-bit value but complements its mask at 32 bits: it clears the
  requested bit and, with it, every bit from 32 up.\<close>

theorem BitValueClr_drops_high_word:
  assumes "unat pos < 32"
  shows "BitValueClr value pos = Some (take_bit 32 value AND NOT (push_bit (unat pos) 1))"
  using assms by (auto simp: BitValueClr_def shl1_def intro!: bit_word_eqI simp: bit_simps)

theorem BitValueClr_drops_high_word_witness:
  "BitValueClr 0x100000003 0 = Some 2"
  using BitValueClr_drops_high_word [of 0 "0x100000003"] by simp

end
