(* ===== verification/Checksum.thy ===== *)
theory Checksum
  imports Little_Endian "HOL-Library.Multiset"
begin

text \<open>
  \<open>common_lib/usdl_calc.c\<close>: the checks that guard frames and firmware images (CRC-32, CRC-16,
  CRC-8, byte sums, exclusive or) and the bubble sort. The tables are the ones of the source; the
  reference is the bit-serial shift register of each polynomial.
\<close>

section \<open>Tables\<close>

definition CRC32_Table :: "u32 list" where
  "CRC32_Table = [
    0x00000000, 0x77073096, 0xEE0E612C, 0x990951BA, 0x076DC419, 0x706AF48F,
    0xE963A535, 0x9E6495A3, 0x0EDB8832, 0x79DCB8A4, 0xE0D5E91E, 0x97D2D988,
    0x09B64C2B, 0x7EB17CBD, 0xE7B82D07, 0x90BF1D91, 0x1DB71064, 0x6AB020F2,
    0xF3B97148, 0x84BE41DE, 0x1ADAD47D, 0x6DDDE4EB, 0xF4D4B551, 0x83D385C7,
    0x136C9856, 0x646BA8C0, 0xFD62F97A, 0x8A65C9EC, 0x14015C4F, 0x63066CD9,
    0xFA0F3D63, 0x8D080DF5, 0x3B6E20C8, 0x4C69105E, 0xD56041E4, 0xA2677172,
    0x3C03E4D1, 0x4B04D447, 0xD20D85FD, 0xA50AB56B, 0x35B5A8FA, 0x42B2986C,
    0xDBBBC9D6, 0xACBCF940, 0x32D86CE3, 0x45DF5C75, 0xDCD60DCF, 0xABD13D59,
    0x26D930AC, 0x51DE003A, 0xC8D75180, 0xBFD06116, 0x21B4F4B5, 0x56B3C423,
    0xCFBA9599, 0xB8BDA50F, 0x2802B89E, 0x5F058808, 0xC60CD9B2, 0xB10BE924,
    0x2F6F7C87, 0x58684C11, 0xC1611DAB, 0xB6662D3D, 0x76DC4190, 0x01DB7106,
    0x98D220BC, 0xEFD5102A, 0x71B18589, 0x06B6B51F, 0x9FBFE4A5, 0xE8B8D433,
    0x7807C9A2, 0x0F00F934, 0x9609A88E, 0xE10E9818, 0x7F6A0DBB, 0x086D3D2D,
    0x91646C97, 0xE6635C01, 0x6B6B51F4, 0x1C6C6162, 0x856530D8, 0xF262004E,
    0x6C0695ED, 0x1B01A57B, 0x8208F4C1, 0xF50FC457, 0x65B0D9C6, 0x12B7E950,
    0x8BBEB8EA, 0xFCB9887C, 0x62DD1DDF, 0x15DA2D49, 0x8CD37CF3, 0xFBD44C65,
    0x4DB26158, 0x3AB551CE, 0xA3BC0074, 0xD4BB30E2, 0x4ADFA541, 0x3DD895D7,
    0xA4D1C46D, 0xD3D6F4FB, 0x4369E96A, 0x346ED9FC, 0xAD678846, 0xDA60B8D0,
    0x44042D73, 0x33031DE5, 0xAA0A4C5F, 0xDD0D7CC9, 0x5005713C, 0x270241AA,
    0xBE0B1010, 0xC90C2086, 0x5768B525, 0x206F85B3, 0xB966D409, 0xCE61E49F,
    0x5EDEF90E, 0x29D9C998, 0xB0D09822, 0xC7D7A8B4, 0x59B33D17, 0x2EB40D81,
    0xB7BD5C3B, 0xC0BA6CAD, 0xEDB88320, 0x9ABFB3B6, 0x03B6E20C, 0x74B1D29A,
    0xEAD54739, 0x9DD277AF, 0x04DB2615, 0x73DC1683, 0xE3630B12, 0x94643B84,
    0x0D6D6A3E, 0x7A6A5AA8, 0xE40ECF0B, 0x9309FF9D, 0x0A00AE27, 0x7D079EB1,
    0xF00F9344, 0x8708A3D2, 0x1E01F268, 0x6906C2FE, 0xF762575D, 0x806567CB,
    0x196C3671, 0x6E6B06E7, 0xFED41B76, 0x89D32BE0, 0x10DA7A5A, 0x67DD4ACC,
    0xF9B9DF6F, 0x8EBEEFF9, 0x17B7BE43, 0x60B08ED5, 0xD6D6A3E8, 0xA1D1937E,
    0x38D8C2C4, 0x4FDFF252, 0xD1BB67F1, 0xA6BC5767, 0x3FB506DD, 0x48B2364B,
    0xD80D2BDA, 0xAF0A1B4C, 0x36034AF6, 0x41047A60, 0xDF60EFC3, 0xA867DF55,
    0x316E8EEF, 0x4669BE79, 0xCB61B38C, 0xBC66831A, 0x256FD2A0, 0x5268E236,
    0xCC0C7795, 0xBB0B4703, 0x220216B9, 0x5505262F, 0xC5BA3BBE, 0xB2BD0B28,
    0x2BB45A92, 0x5CB36A04, 0xC2D7FFA7, 0xB5D0CF31, 0x2CD99E8B, 0x5BDEAE1D,
    0x9B64C2B0, 0xEC63F226, 0x756AA39C, 0x026D930A, 0x9C0906A9, 0xEB0E363F,
    0x72076785, 0x05005713, 0x95BF4A82, 0xE2B87A14, 0x7BB12BAE, 0x0CB61B38,
    0x92D28E9B, 0xE5D5BE0D, 0x7CDCEFB7, 0x0BDBDF21, 0x86D3D2D4, 0xF1D4E242,
    0x68DDB3F8, 0x1FDA836E, 0x81BE16CD, 0xF6B9265B, 0x6FB077E1, 0x18B74777,
    0x88085AE6, 0xFF0F6A70, 0x66063BCA, 0x11010B5C, 0x8F659EFF, 0xF862AE69,
    0x616BFFD3, 0x166CCF45, 0xA00AE278, 0xD70DD2EE, 0x4E048354, 0x3903B3C2,
    0xA7672661, 0xD06016F7, 0x4969474D, 0x3E6E77DB, 0xAED16A4A, 0xD9D65ADC,
    0x40DF0B66, 0x37D83BF0, 0xA9BCAE53, 0xDEBB9EC5, 0x47B2CF7F, 0x30B5FFE9,
    0xBDBDF21C, 0xCABAC28A, 0x53B39330, 0x24B4A3A6, 0xBAD03605, 0xCDD70693,
    0x54DE5729, 0x23D967BF, 0xB3667A2E, 0xC4614AB8, 0x5D681B02, 0x2A6F2B94,
    0xB40BBE37, 0xC30C8EA1, 0x5A05DF1B, 0x2D02EF8D]"

definition auchCRCHi :: "u8 list" where
  "auchCRCHi = [
    0x00, 0xC1, 0x81, 0x40, 0x01, 0xC0, 0x80, 0x41, 0x01, 0xC0, 0x80, 0x41,
    0x00, 0xC1, 0x81, 0x40, 0x01, 0xC0, 0x80, 0x41, 0x00, 0xC1, 0x81, 0x40,
    0x00, 0xC1, 0x81, 0x40, 0x01, 0xC0, 0x80, 0x41, 0x01, 0xC0, 0x80, 0x41,
    0x00, 0xC1, 0x81, 0x40, 0x00, 0xC1, 0x81, 0x40, 0x01, 0xC0, 0x80, 0x41,
    0x00, 0xC1, 0x81, 0x40, 0x01, 0xC0, 0x80, 0x41, 0x01, 0xC0, 0x80, 0x41,
    0x00, 0xC1, 0x81, 0x40, 0x01, 0xC0, 0x80, 0x41, 0x00, 0xC1, 0x81, 0x40,
    0x00, 0xC1, 0x81, 0x40, 0x01, 0xC0, 0x80, 0x41, 0x00, 0xC1, 0x81, 0x40,
    0x01, 0xC0, 0x80, 0x41, 0x01, 0xC0, 0x80, 0x41, 0x00, 0xC1, 0x81, 0x40,
    0x00, 0xC1, 0x81, 0x40, 0x01, 0xC0, 0x80, 0x41, 0x01, 0xC0, 0x80, 0x41,
    0x00, 0xC1, 0x81, 0x40, 0x01, 0xC0, 0x80, 0x41, 0x00, 0xC1, 0x81, 0x40,
    0x00, 0xC1, 0x81, 0x40, 0x01, 0xC0, 0x80, 0x41, 0x01, 0xC0, 0x80, 0x41,
    0x00, 0xC1, 0x81, 0x40, 0x00, 0xC1, 0x81, 0x40, 0x01, 0xC0, 0x80, 0x41,
    0x00, 0xC1, 0x81, 0x40, 0x01, 0xC0, 0x80, 0x41, 0x01, 0xC0, 0x80, 0x41,
    0x00, 0xC1, 0x81, 0x40, 0x00, 0xC1, 0x81, 0x40, 0x01, 0xC0, 0x80, 0x41,
    0x01, 0xC0, 0x80, 0x41, 0x00, 0xC1, 0x81, 0x40, 0x01, 0xC0, 0x80, 0x41,
    0x00, 0xC1, 0x81, 0x40, 0x00, 0xC1, 0x81, 0x40, 0x01, 0xC0, 0x80, 0x41,
    0x00, 0xC1, 0x81, 0x40, 0x01, 0xC0, 0x80, 0x41, 0x01, 0xC0, 0x80, 0x41,
    0x00, 0xC1, 0x81, 0x40, 0x01, 0xC0, 0x80, 0x41, 0x00, 0xC1, 0x81, 0x40,
    0x00, 0xC1, 0x81, 0x40, 0x01, 0xC0, 0x80, 0x41, 0x01, 0xC0, 0x80, 0x41,
    0x00, 0xC1, 0x81, 0x40, 0x00, 0xC1, 0x81, 0x40, 0x01, 0xC0, 0x80, 0x41,
    0x00, 0xC1, 0x81, 0x40, 0x01, 0xC0, 0x80, 0x41, 0x01, 0xC0, 0x80, 0x41,
    0x00, 0xC1, 0x81, 0x40]"

definition auchCRCLo :: "u8 list" where
  "auchCRCLo = [
    0x00, 0xC0, 0xC1, 0x01, 0xC3, 0x03, 0x02, 0xC2, 0xC6, 0x06, 0x07, 0xC7,
    0x05, 0xC5, 0xC4, 0x04, 0xCC, 0x0C, 0x0D, 0xCD, 0x0F, 0xCF, 0xCE, 0x0E,
    0x0A, 0xCA, 0xCB, 0x0B, 0xC9, 0x09, 0x08, 0xC8, 0xD8, 0x18, 0x19, 0xD9,
    0x1B, 0xDB, 0xDA, 0x1A, 0x1E, 0xDE, 0xDF, 0x1F, 0xDD, 0x1D, 0x1C, 0xDC,
    0x14, 0xD4, 0xD5, 0x15, 0xD7, 0x17, 0x16, 0xD6, 0xD2, 0x12, 0x13, 0xD3,
    0x11, 0xD1, 0xD0, 0x10, 0xF0, 0x30, 0x31, 0xF1, 0x33, 0xF3, 0xF2, 0x32,
    0x36, 0xF6, 0xF7, 0x37, 0xF5, 0x35, 0x34, 0xF4, 0x3C, 0xFC, 0xFD, 0x3D,
    0xFF, 0x3F, 0x3E, 0xFE, 0xFA, 0x3A, 0x3B, 0xFB, 0x39, 0xF9, 0xF8, 0x38,
    0x28, 0xE8, 0xE9, 0x29, 0xEB, 0x2B, 0x2A, 0xEA, 0xEE, 0x2E, 0x2F, 0xEF,
    0x2D, 0xED, 0xEC, 0x2C, 0xE4, 0x24, 0x25, 0xE5, 0x27, 0xE7, 0xE6, 0x26,
    0x22, 0xE2, 0xE3, 0x23, 0xE1, 0x21, 0x20, 0xE0, 0xA0, 0x60, 0x61, 0xA1,
    0x63, 0xA3, 0xA2, 0x62, 0x66, 0xA6, 0xA7, 0x67, 0xA5, 0x65, 0x64, 0xA4,
    0x6C, 0xAC, 0xAD, 0x6D, 0xAF, 0x6F, 0x6E, 0xAE, 0xAA, 0x6A, 0x6B, 0xAB,
    0x69, 0xA9, 0xA8, 0x68, 0x78, 0xB8, 0xB9, 0x79, 0xBB, 0x7B, 0x7A, 0xBA,
    0xBE, 0x7E, 0x7F, 0xBF, 0x7D, 0xBD, 0xBC, 0x7C, 0xB4, 0x74, 0x75, 0xB5,
    0x77, 0xB7, 0xB6, 0x76, 0x72, 0xB2, 0xB3, 0x73, 0xB1, 0x71, 0x70, 0xB0,
    0x50, 0x90, 0x91, 0x51, 0x93, 0x53, 0x52, 0x92, 0x96, 0x56, 0x57, 0x97,
    0x55, 0x95, 0x94, 0x54, 0x9C, 0x5C, 0x5D, 0x9D, 0x5F, 0x9F, 0x9E, 0x5E,
    0x5A, 0x9A, 0x9B, 0x5B, 0x99, 0x59, 0x58, 0x98, 0x88, 0x48, 0x49, 0x89,
    0x4B, 0x8B, 0x8A, 0x4A, 0x4E, 0x8E, 0x8F, 0x4F, 0x8D, 0x4D, 0x4C, 0x8C,
    0x44, 0x84, 0x85, 0x45, 0x87, 0x47, 0x46, 0x86, 0x82, 0x42, 0x43, 0x83,
    0x41, 0x81, 0x80, 0x40]"

definition CRC8Table :: "u8 list" where
  "CRC8Table = [
    0x00, 0x1C, 0x38, 0x24, 0x70, 0x6C, 0x48, 0x54, 0xE0, 0xFC, 0xD8, 0xC4,
    0x90, 0x8C, 0xA8, 0xB4, 0xDC, 0xC0, 0xE4, 0xF8, 0xAC, 0xB0, 0x94, 0x88,
    0x3C, 0x20, 0x04, 0x18, 0x4C, 0x50, 0x74, 0x68, 0xA4, 0xB8, 0x9C, 0x80,
    0xD4, 0xC8, 0xEC, 0xF0, 0x44, 0x58, 0x7C, 0x60, 0x34, 0x28, 0x0C, 0x10,
    0x78, 0x64, 0x40, 0x5C, 0x08, 0x14, 0x30, 0x2C, 0x98, 0x84, 0xA0, 0xBC,
    0xE8, 0xF4, 0xD0, 0xCC, 0x54, 0x48, 0x6C, 0x70, 0x24, 0x38, 0x1C, 0x00,
    0xB4, 0xA8, 0x8C, 0x90, 0xC4, 0xD8, 0xFC, 0xE0, 0x88, 0x94, 0xB0, 0xAC,
    0xF8, 0xE4, 0xC0, 0xDC, 0x68, 0x74, 0x50, 0x4C, 0x18, 0x04, 0x20, 0x3C,
    0xF0, 0xEC, 0xC8, 0xD4, 0x80, 0x9C, 0xB8, 0xA4, 0x10, 0x0C, 0x28, 0x34,
    0x60, 0x7C, 0x58, 0x44, 0x2C, 0x30, 0x14, 0x08, 0x5C, 0x40, 0x64, 0x78,
    0xCC, 0xD0, 0xF4, 0xE8, 0xBC, 0xA0, 0x84, 0x98, 0xA8, 0xB4, 0x90, 0x8C,
    0xD8, 0xC4, 0xE0, 0xFC, 0x48, 0x54, 0x70, 0x6C, 0x38, 0x24, 0x00, 0x1C,
    0x74, 0x68, 0x4C, 0x50, 0x04, 0x18, 0x3C, 0x20, 0x94, 0x88, 0xAC, 0xB0,
    0xE4, 0xF8, 0xDC, 0xC0, 0x0C, 0x10, 0x34, 0x28, 0x7C, 0x60, 0x44, 0x58,
    0xEC, 0xF0, 0xD4, 0xC8, 0x9C, 0x80, 0xA4, 0xB8, 0xD0, 0xCC, 0xE8, 0xF4,
    0xA0, 0xBC, 0x98, 0x84, 0x30, 0x2C, 0x08, 0x14, 0x40, 0x5C, 0x78, 0x64,
    0xFC, 0xE0, 0xC4, 0xD8, 0x8C, 0x90, 0xB4, 0xA8, 0x1C, 0x00, 0x24, 0x38,
    0x6C, 0x70, 0x54, 0x48, 0x20, 0x3C, 0x18, 0x04, 0x50, 0x4C, 0x68, 0x74,
    0xC0, 0xDC, 0xF8, 0xE4, 0xB0, 0xAC, 0x88, 0x94, 0x58, 0x44, 0x60, 0x7C,
    0x28, 0x34, 0x10, 0x0C, 0xB8, 0xA4, 0x80, 0x9C, 0xC8, 0xD4, 0xF0, 0xEC,
    0x84, 0x98, 0xBC, 0xA0, 0xF4, 0xE8, 0xCC, 0xD0, 0x64, 0x78, 0x5C, 0x40,
    0x14, 0x08, 0x2C, 0x30]"

section \<open>The loops over a buffer\<close>

text \<open>\<open>for (i = 0; i < len; i++) s = f(s, data[i])\<close>, from index \<open>i\<close> with \<open>n\<close> rounds left.\<close>

fun for_bytes :: "('s \<Rightarrow> u8 \<Rightarrow> 's option) \<Rightarrow> 's \<Rightarrow> u8 list \<Rightarrow> nat \<Rightarrow> nat \<Rightarrow> 's option" where
  "for_bytes f s data i 0 = Some s"
| "for_bytes f s data i (Suc n) = do {
     x \<leftarrow> rd data i;
     s' \<leftarrow> f s x;
     for_bytes f s' data (Suc i) n
   }"

record CRC32_CTX =
  crc :: u32

definition CRC32_Init :: "CRC32_CTX \<Rightarrow> CRC32_CTX" where
  "CRC32_Init ctx = ctx\<lparr>crc := 0xFFFFFFFF\<rparr>"

definition CRC32_step :: "CRC32_CTX \<Rightarrow> u8 \<Rightarrow> CRC32_CTX option" where
  "CRC32_step ctx x = do {
     t \<leftarrow> rd CRC32_Table (unat ((crc ctx AND 0xFF) XOR ucast x));
     Some (ctx\<lparr>crc := drop_bit 8 (crc ctx) XOR t\<rparr>)
   }"

definition CRC32_Update :: "CRC32_CTX \<Rightarrow> u8 list \<Rightarrow> u32 \<Rightarrow> CRC32_CTX option" where
  "CRC32_Update ctx data len = for_bytes CRC32_step ctx data 0 (unat len)"

definition CRC32_Final :: "CRC32_CTX \<Rightarrow> u32 \<times> CRC32_CTX" where
  "CRC32_Final ctx = (let ctx = ctx\<lparr>crc := crc ctx XOR 0xFFFFFFFF\<rparr> in (crc ctx, ctx))"

definition CRC16_step :: "u8 \<times> u8 \<Rightarrow> u8 \<Rightarrow> (u8 \<times> u8) option" where
  "CRC16_step = (\<lambda>(uchCRCHi, uchCRCLo) x. do {
     let uIndex = unat (uchCRCHi XOR x);
     h \<leftarrow> rd auchCRCHi uIndex;
     l \<leftarrow> rd auchCRCLo uIndex;
     Some (uchCRCLo XOR h, l)
   })"

definition Get_CRC16 :: "u8 list \<Rightarrow> u32 \<Rightarrow> u16 option" where
  "Get_CRC16 pData nLength = do {
     (uchCRCHi, uchCRCLo) \<leftarrow> for_bytes CRC16_step (0xFF, 0xFF) pData 0 (unat nLength);
     Some (push_bit 8 (ucast uchCRCHi) OR ucast uchCRCLo)
   }"

definition CRC8_step :: "u8 \<Rightarrow> u8 \<Rightarrow> u8 option" where
  "CRC8_step crcValue x = rd CRC8Table (unat (crcValue XOR (x AND 0xFF)))"

definition Get_CRC8 :: "u8 list \<Rightarrow> u32 \<Rightarrow> u8 option" where
  "Get_CRC8 bufferPtr bufferLength = for_bytes CRC8_step 0 bufferPtr 0 (unat bufferLength)"

definition Get_Sum8 :: "u8 list \<Rightarrow> u32 \<Rightarrow> u8 option" where
  "Get_Sum8 buf len = for_bytes (\<lambda>sum x. Some (sum + x)) 0 buf 0 (unat len)"

definition Get_Sum16 :: "u8 list \<Rightarrow> u32 \<Rightarrow> u16 option" where
  "Get_Sum16 buf len = for_bytes (\<lambda>sum x. Some (sum + ucast x)) 0 buf 0 (unat len)"

definition Get_ExclusiveOR :: "u8 list \<Rightarrow> u32 \<Rightarrow> u8 option" where
  "Get_ExclusiveOR buf len = for_bytes (\<lambda>excul_or x. Some (excul_or XOR x)) 0 buf 0 (unat len)"

section \<open>Bubble sort\<close>

text \<open>\<open>Swap(a[j], a[k])\<close>: three exclusive ors.\<close>

definition Swap :: "u16 list \<Rightarrow> nat \<Rightarrow> nat \<Rightarrow> u16 list option" where
  "Swap a j k = do {
     x \<leftarrow> rd a j; y \<leftarrow> rd a k; a \<leftarrow> wr a j (x XOR y);
     x \<leftarrow> rd a j; y \<leftarrow> rd a k; a \<leftarrow> wr a k (y XOR x);
     x \<leftarrow> rd a j; y \<leftarrow> rd a k; wr a j (x XOR y)
   }"

text \<open>\<open>i\<close> and \<open>j\<close> are signed; \<open>j = len - 2\<close> is -1 for a single element.\<close>

function BubbleSort_inner :: "u16 list \<Rightarrow> int \<Rightarrow> int \<Rightarrow> bool \<Rightarrow> (u16 list \<times> bool) option" where
  "BubbleSort_inner a i j flag =
     (if j \<ge> i then do {
        x \<leftarrow> rd a (nat j);
        y \<leftarrow> rd a (nat (j + 1));
        if x > y then do {
          a' \<leftarrow> Swap a (nat j) (nat (j + 1));
          BubbleSort_inner a' i (j - 1) True
        }
        else BubbleSort_inner a i (j - 1) flag
      }
      else Some (a, flag))"
  by pat_completeness auto
termination by (relation "measure (\<lambda>(a, i, j, flag). nat (j - i + 1))") auto

function BubbleSort_outer :: "u16 list \<Rightarrow> u32 \<Rightarrow> int \<Rightarrow> bool \<Rightarrow> u16 list option" where
  "BubbleSort_outer a len i flag =
     (if i < uint len \<and> flag then do {
        r \<leftarrow> BubbleSort_inner a i (sint (len - 2)) False;
        BubbleSort_outer (fst r) len (i + 1) (snd r)
      }
      else Some a)"
  by pat_completeness auto
termination by (relation "measure (\<lambda>(a, len, i, flag). nat (uint len - i))") auto

definition BubbleSort :: "u16 list \<Rightarrow> u32 \<Rightarrow> u16 list option" where
  "BubbleSort a len = BubbleSort_outer a len 0 True"

declare BubbleSort_inner.simps [simp del] BubbleSort_outer.simps [simp del]

section \<open>The bit-serial reference\<close>

definition crc_bit :: "'a::len word \<Rightarrow> 'a word \<Rightarrow> 'a word" where
  "crc_bit p c = (if bit c 0 then drop_bit 1 c XOR p else drop_bit 1 c)"

definition crc_bits :: "'a::len word \<Rightarrow> nat \<Rightarrow> 'a word \<Rightarrow> 'a word" where
  "crc_bits p n = crc_bit p ^^ n"

text \<open>The register update is linear over exclusive or, which is how a 256-entry table is checked
  from its eight entries at the powers of two.\<close>

lemma crc_bit_xor: "crc_bit p (a XOR b) = crc_bit p a XOR crc_bit p b"
proof -
  have "p XOR p = 0" by simp
  then show ?thesis
    by (auto simp: crc_bit_def bit_xor_iff drop_bit_xor xor.assoc xor.left_commute xor.commute)
qed

lemma crc_bits_Suc: "crc_bits p (Suc n) c = crc_bits p n (crc_bit p c)"
  by (simp add: crc_bits_def funpow_swap1)

lemma crc_bits_0 [simp]: "crc_bits p 0 c = c"
  by (simp add: crc_bits_def)

lemma crc_bits_add: "crc_bits p (m + n) c = crc_bits p n (crc_bits p m c)"
  by (simp add: crc_bits_def funpow_add add.commute [of m n])

lemma crc_bits_xor: "crc_bits p n (a XOR b) = crc_bits p n a XOR crc_bits p n b"
  by (induction n arbitrary: a b) (simp_all add: crc_bits_Suc crc_bit_xor)

lemma crc_bits_zero: "crc_bits p n 0 = 0"
  using crc_bits_xor [of p n 0 0] by simp

fun xor_double :: "'a::len word list \<Rightarrow> 'a word list \<Rightarrow> 'a word list" where
  "xor_double [] L = L"
| "xor_double (t # ts) L = xor_double ts (L @ map (\<lambda>x. x XOR t) L)"

lemma of_nat_xor_pow:
  assumes "i < 2 ^ k"
  shows "(of_nat (i + 2 ^ k) :: 'a::len word) = of_nat i XOR 2 ^ k"
proof -
  have "i + 2 ^ k = i XOR 2 ^ k"
  proof -
    have "i = take_bit k i" using assms by (simp add: take_bit_nat_eq_self)
    then have "i AND 2 ^ k = 0"
      by (metis bit_take_bit_iff and_exp_eq_0_iff_not_bit less_irrefl)
    then show ?thesis using disjunctive_add_eq_xor [of i "2 ^ k"] by simp
  qed
  then show ?thesis by (metis of_nat_xor_eq of_nat_power of_nat_numeral)
qed

lemma xor_double_table:
  fixes f :: "'a::len word \<Rightarrow> 'b::len word"
  assumes lin: "\<And>a b. f (a XOR b) = f a XOR f b"
  shows "xor_double (map (\<lambda>j. f (2 ^ j)) [k..<k + n]) (map (\<lambda>i. f (of_nat i)) [0..<2 ^ k]) =
    map (\<lambda>i. f (of_nat i)) [0..<2 ^ (k + n)]"
proof (induction n arbitrary: k)
  case 0
  then show ?case by simp
next
  case (Suc n)
  have "map (\<lambda>i. f (of_nat i)) [0..<2 ^ k] @ map (\<lambda>x. x XOR f (2 ^ k)) (map (\<lambda>i. f (of_nat i)) [0..<2 ^ k])
      = map (\<lambda>i. f (of_nat i)) [0..<2 ^ Suc k]"
  proof (rule nth_equalityI)
    fix i assume "i < length (map (\<lambda>i. f (of_nat i)) [0..<2 ^ k] @
      map (\<lambda>x. x XOR f (2 ^ k)) (map (\<lambda>i. f (of_nat i)) [0..<2 ^ k]))"
    then have i: "i < 2 ^ Suc k" by simp
    have "f (of_nat (i - 2 ^ k)) XOR f (2 ^ k) = f (of_nat i)" if "2 ^ k \<le> i"
      using that i of_nat_xor_pow [of "i - 2 ^ k" k, where 'a = 'a]
      by (simp add: lin [symmetric] del: of_nat_diff)
    with i show "(map (\<lambda>i. f (of_nat i)) [0..<2 ^ k] @
        map (\<lambda>x. x XOR f (2 ^ k)) (map (\<lambda>i. f (of_nat i)) [0..<2 ^ k])) ! i =
      map (\<lambda>i. f (of_nat i)) [0..<2 ^ Suc k] ! i"
      by (auto simp: nth_append not_less simp del: of_nat_diff)
  qed simp
  moreover have "[k..<k + Suc n] = k # [Suc k..<Suc k + n]"
    by (simp add: upt_conv_Cons)
  ultimately show ?case
    using Suc [of "Suc k"] by simp
qed

lemma crc_table_256:
  fixes f :: "'a::len word \<Rightarrow> 'b::len word"
  assumes "\<And>a b. f (a XOR b) = f a XOR f b"
  shows "map (\<lambda>i. f (of_nat i)) [0..<256] =
    xor_double [f 1, f 2, f 4, f 8, f 16, f 32, f 64, f 128] [f 0]"
proof -
  have "map (\<lambda>j. f (2 ^ j)) [0..<0 + 8] = [f 1, f 2, f 4, f 8, f 16, f 32, f 64, f 128]"
    by (simp add: upt_rec)
  moreover have "map (\<lambda>i. f (of_nat i)) [0..<2 ^ 0] = [f 0]" by simp
  moreover have "(2 :: nat) ^ (0 + 8) = 256" by simp
  ultimately show ?thesis
    using xor_double_table [of f 0 8, OF assms] by (simp only:)
qed

lemma crc_bits_8: "crc_bits p 8 c = crc_bit p (crc_bit p (crc_bit p (crc_bit p
    (crc_bit p (crc_bit p (crc_bit p (crc_bit p c)))))))"
proof -
  have "(8 :: nat) = Suc (Suc (Suc (Suc (Suc (Suc (Suc (Suc 0)))))))" by simp
  then show ?thesis by (simp only: crc_bits_Suc crc_bits_0)
qed

lemma crc_bit_numeral:
  "crc_bit p c = (if odd c then drop_bit 1 c XOR p else drop_bit 1 c)"
  by (simp add: crc_bit_def bit_0)

lemma CRC32_Table_bits: "CRC32_Table = map (\<lambda>i. crc_bits 0xEDB88320 8 (of_nat i)) [0..<256]"
proof -
  have e: "crc_bits (0xEDB88320 :: u32) 8 1 = 0x77073096"
    "crc_bits (0xEDB88320 :: u32) 8 2 = 0xEE0E612C"
    "crc_bits (0xEDB88320 :: u32) 8 4 = 0x076DC419"
    "crc_bits (0xEDB88320 :: u32) 8 8 = 0x0EDB8832"
    "crc_bits (0xEDB88320 :: u32) 8 16 = 0x1DB71064"
    "crc_bits (0xEDB88320 :: u32) 8 32 = 0x3B6E20C8"
    "crc_bits (0xEDB88320 :: u32) 8 64 = 0x76DC4190"
    "crc_bits (0xEDB88320 :: u32) 8 128 = 0xEDB88320"
    by (simp_all add: crc_bits_8 crc_bit_numeral)
  show ?thesis
    unfolding crc_table_256 [of "crc_bits 0xEDB88320 8", OF crc_bits_xor] crc_bits_zero e CRC32_Table_def
    by simp
qed

lemma CRC16_Table_bits:
  "auchCRCHi = map (\<lambda>i. ucast (crc_bits (0xA001 :: u16) 8 (of_nat i))) [0..<256]"
  "auchCRCLo = map (\<lambda>i. ucast (drop_bit 8 (crc_bits (0xA001 :: u16) 8 (of_nat i)))) [0..<256]"
proof -
  have e: "crc_bits (0xA001 :: u16) 8 1 = 0xC0C1" "crc_bits (0xA001 :: u16) 8 2 = 0xC181"
    "crc_bits (0xA001 :: u16) 8 4 = 0xC301" "crc_bits (0xA001 :: u16) 8 8 = 0xC601"
    "crc_bits (0xA001 :: u16) 8 16 = 0xCC01" "crc_bits (0xA001 :: u16) 8 32 = 0xD801"
    "crc_bits (0xA001 :: u16) 8 64 = 0xF001" "crc_bits (0xA001 :: u16) 8 128 = 0xA001"
    by (simp_all add: crc_bits_8 crc_bit_numeral)
  have lin: "(ucast (crc_bits (0xA001 :: u16) 8 (a XOR b)) :: u8) =
      ucast (crc_bits 0xA001 8 a) XOR ucast (crc_bits 0xA001 8 b)"
    "(ucast (drop_bit 8 (crc_bits (0xA001 :: u16) 8 (a XOR b))) :: u8) =
      ucast (drop_bit 8 (crc_bits 0xA001 8 a)) XOR ucast (drop_bit 8 (crc_bits 0xA001 8 b))"
    for a b
    by (simp_all add: crc_bits_xor drop_bit_xor unsigned_xor_eq)
  show "auchCRCHi = map (\<lambda>i. ucast (crc_bits (0xA001 :: u16) 8 (of_nat i))) [0..<256]"
    unfolding crc_table_256 [of "\<lambda>c. ucast (crc_bits (0xA001 :: u16) 8 c)", OF lin(1)]
      crc_bits_zero e auchCRCHi_def by simp
  show "auchCRCLo = map (\<lambda>i. ucast (drop_bit 8 (crc_bits (0xA001 :: u16) 8 (of_nat i)))) [0..<256]"
    unfolding crc_table_256 [of "\<lambda>c. ucast (drop_bit 8 (crc_bits (0xA001 :: u16) 8 c))", OF lin(2)]
      crc_bits_zero e auchCRCLo_def by simp
qed

text \<open>CRC-8 shifts the other way, polynomial 0x1C.\<close>

definition crc8_bit :: "u8 \<Rightarrow> u8" where
  "crc8_bit c = (if bit c 7 then push_bit 1 c XOR 0x1C else push_bit 1 c)"

definition crc8_bits :: "u8 \<Rightarrow> u8" where
  "crc8_bits c = crc8_bit (crc8_bit (crc8_bit (crc8_bit
     (crc8_bit (crc8_bit (crc8_bit (crc8_bit c)))))))"

lemma crc8_bit_xor: "crc8_bit (a XOR b) = crc8_bit a XOR crc8_bit b"
proof -
  have "(0x1C :: u8) XOR 0x1C = 0" by simp
  then show ?thesis
    by (auto simp: crc8_bit_def bit_xor_iff push_bit_xor xor.assoc xor.left_commute xor.commute)
qed

lemma crc8_bits_xor: "crc8_bits (a XOR b) = crc8_bits a XOR crc8_bits b"
  by (simp add: crc8_bits_def crc8_bit_xor)

lemma CRC8Table_bits: "CRC8Table = map (\<lambda>i. crc8_bits (of_nat i)) [0..<256]"
proof -
  have e: "crc8_bits 0 = 0" "crc8_bits 1 = 0x1C" "crc8_bits 2 = 0x38" "crc8_bits 4 = 0x70"
    "crc8_bits 8 = 0xE0" "crc8_bits 16 = 0xDC" "crc8_bits 32 = 0xA4" "crc8_bits 64 = 0x54"
    "crc8_bits 128 = 0xA8"
    by (simp_all add: crc8_bits_def crc8_bit_def)
  show ?thesis
    unfolding crc_table_256 [of crc8_bits, OF crc8_bits_xor] e CRC8Table_def by simp
qed

section \<open>The table-driven routines compute the reference\<close>

lemma for_bytes_foldl:
  assumes "\<And>s x. f s x = Some (g s x)" and "i + n \<le> length data"
  shows "for_bytes f s data i n = Some (foldl g s (take n (drop i data)))"
  using assms(2)
proof (induction n arbitrary: s i)
  case 0
  then show ?case by simp
next
  case (Suc n)
  then have i: "i < length data" by simp
  then have "take (Suc n) (drop i data) = data ! i # take n (drop (Suc i) data)"
    by (simp flip: Cons_nth_drop_Suc)
  with i Suc show ?case by (simp add: rd_Some assms(1))
qed

lemma for_bytes_None:
  assumes "\<And>s x. f s x \<noteq> None" and "length data < i + n" and "i \<le> length data"
  shows "for_bytes f s data i n = None"
  using assms(2,3)
proof (induction n arbitrary: s i)
  case 0
  then show ?case by simp
next
  case (Suc n)
  show ?case
  proof (cases "i < length data")
    case True
    then show ?thesis using Suc.IH [of "Suc i"] Suc.prems assms(1)
      by (auto simp: rd_Some split: bind_split)
  next
    case False
    then show ?thesis by (simp add: rd_None)
  qed
qed

definition crc_byte :: "'a::len word \<Rightarrow> 'a word \<Rightarrow> u8 \<Rightarrow> 'a word" where
  "crc_byte p c x = crc_bits p 8 (c XOR ucast x)"

definition crc32_ref :: "u8 list \<Rightarrow> u32" where
  "crc32_ref bs = foldl (crc_byte 0xEDB88320) 0xFFFFFFFF bs XOR 0xFFFFFFFF"

definition crc16_ref :: "u8 list \<Rightarrow> u16" where
  "crc16_ref bs = foldl (crc_byte 0xA001) 0xFFFF bs"

text \<open>Shifting \<open>n\<close> bits out moves zero bits for free.\<close>

lemma crc_bits_low_zero: "take_bit n c = 0 \<Longrightarrow> crc_bits p n c = drop_bit n c"
proof (induction n arbitrary: c)
  case 0
  then show ?case by simp
next
  case (Suc n)
  have z: "\<not> bit c k" if "k < Suc n" for k
    using that Suc.prems by (metis bit_0_eq bit_take_bit_iff bot_apply bot_bool_def)
  have "take_bit n (drop_bit 1 c) = 0"
    by (rule bit_eqI) (use z in \<open>auto simp: bit_take_bit_iff bit_drop_bit_eq\<close>)
  moreover have "crc_bit p c = drop_bit 1 c" using z [of 0] by (simp add: crc_bit_def)
  ultimately show ?case using Suc.IH [of "drop_bit 1 c"]
    by (simp add: crc_bits_Suc)
qed

lemma crc_bits_split: "crc_bits p n c = drop_bit n c XOR crc_bits p n (take_bit n c)"
proof -
  have "c = (c AND NOT (mask n)) XOR take_bit n c"
    by (rule bit_eqI) (auto simp: bit_simps)
  moreover have "take_bit n (c AND NOT (mask n)) = 0"
    by (rule bit_eqI) (auto simp: bit_simps)
  moreover have "drop_bit n (c AND NOT (mask n)) = drop_bit n c"
    by (rule bit_word_eqI) (auto simp: bit_simps dest: bit_imp_le_length)
  ultimately show ?thesis by (metis crc_bits_low_zero crc_bits_xor)
qed

lemma CRC32_step_ref:
  "CRC32_step ctx x = Some (ctx\<lparr>crc := crc_byte 0xEDB88320 (crc ctx) x\<rparr>)"
proof -
  define c where "c = crc ctx"
  define ix where "ix = (c AND 0xFF) XOR ucast x"
  have ix: "ix = take_bit 8 (c XOR ucast x)"
  proof -
    have "(0xFF :: u32) = mask 8" by (simp add: mask_eq_exp_minus_1)
    then have "ix = (c AND mask 8) XOR ucast x" by (simp add: ix_def)
    also have "\<dots> = take_bit 8 (c XOR ucast x)"
      by (rule bit_word_eqI) (auto simp: bit_simps dest: bit_imp_le_length)
    finally show ?thesis .
  qed
  have lt: "unat ix < 256"
    unfolding ix unsigned_take_bit_eq by (simp add: take_bit_eq_mod)
  have "drop_bit 8 (c XOR ucast x :: u32) = drop_bit 8 c"
    by (rule bit_word_eqI) (auto simp: bit_simps dest: bit_imp_le_length)
  moreover have "rd CRC32_Table (unat ix) = Some (crc_bits 0xEDB88320 8 ix)"
    using lt by (simp add: rd_def CRC32_Table_bits)
  moreover have "crc_bits 0xEDB88320 8 (c XOR ucast x) =
      drop_bit 8 (c XOR ucast x) XOR crc_bits 0xEDB88320 8 ix"
    unfolding ix by (rule crc_bits_split)
  ultimately show ?thesis
    by (simp add: CRC32_step_def c_def [symmetric] ix_def [symmetric] crc_byte_def)
qed

lemma CRC32_Update_ref:
  "unat len \<le> length data \<Longrightarrow> CRC32_Update ctx data len =
     Some (ctx\<lparr>crc := foldl (crc_byte 0xEDB88320) (crc ctx) (take (unat len) data)\<rparr>)"
proof -
  assume "unat len \<le> length data"
  then have "CRC32_Update ctx data len =
      Some (foldl (\<lambda>ctx x. ctx\<lparr>crc := crc_byte 0xEDB88320 (crc ctx) x\<rparr>) ctx (take (unat len) data))"
    unfolding CRC32_Update_def by (subst for_bytes_foldl [OF CRC32_step_ref]) simp_all
  moreover have "foldl (\<lambda>ctx x. ctx\<lparr>crc := crc_byte 0xEDB88320 (crc ctx) x\<rparr>) ctx bs =
      ctx\<lparr>crc := foldl (crc_byte 0xEDB88320) (crc ctx) bs\<rparr>" for bs
    by (induction bs arbitrary: ctx) simp_all
  ultimately show ?thesis by simp
qed

text \<open>The two halves of the CRC-16 register: \<open>uchCRCHi\<close> is its low byte.\<close>

lemma CRC16_step_ref:
  "CRC16_step (ucast c, ucast (drop_bit 8 c)) x =
     Some (ucast (crc_byte (0xA001 :: u16) c x), ucast (drop_bit 8 (crc_byte 0xA001 c x)))"
proof -
  define ix where "ix = (ucast c :: u8) XOR x"
  define cx where "cx = c XOR ucast x"
  have ix: "(ucast ix :: u16) = take_bit 8 cx"
    unfolding ix_def cx_def
    by (rule bit_word_eqI) (auto simp: bit_simps dest: bit_imp_le_length)
  have split: "crc_byte 0xA001 c x = drop_bit 8 cx XOR crc_bits 0xA001 8 (take_bit 8 cx)"
    using crc_bits_split [of "0xA001" 8 cx] by (simp add: crc_byte_def cx_def)
  have hi: "(ucast (drop_bit 8 cx) :: u8) = ucast (drop_bit 8 c)"
    unfolding cx_def by (rule bit_word_eqI) (auto simp: bit_simps dest: bit_imp_le_length)
  have lo: "(ucast (drop_bit 8 (drop_bit 8 cx)) :: u8) = 0"
    by (rule bit_word_eqI) (auto simp: bit_simps dest: bit_imp_le_length)
  have "rd auchCRCHi (unat ix) = Some (ucast (crc_bits (0xA001 :: u16) 8 (take_bit 8 cx)))"
    using unat_less_u8 [of ix] by (simp add: rd_def CRC16_Table_bits ix)
  moreover have "rd auchCRCLo (unat ix) =
      Some (ucast (drop_bit 8 (crc_bits (0xA001 :: u16) 8 (take_bit 8 cx))))"
    using unat_less_u8 [of ix] by (simp add: rd_def CRC16_Table_bits ix)
  ultimately show ?thesis
    unfolding CRC16_step_def prod.case ix_def [symmetric] Let_def
    using hi lo by (simp add: split unsigned_xor_eq drop_bit_xor)
qed

lemma CRC16_loop_ref:
  "i + n \<le> length data \<Longrightarrow>
     for_bytes CRC16_step (ucast c, ucast (drop_bit 8 c)) data i n =
       (let r = foldl (crc_byte (0xA001 :: u16)) c (take n (drop i data))
        in Some (ucast r, ucast (drop_bit 8 r)))"
proof (induction n arbitrary: c i)
  case 0
  then show ?case by simp
next
  case (Suc n)
  then have i: "i < length data" by simp
  then have "take (Suc n) (drop i data) = data ! i # take n (drop (Suc i) data)"
    by (simp flip: Cons_nth_drop_Suc)
  with i Suc show ?case by (simp add: rd_Some CRC16_step_ref)
qed

section \<open>Error detection\<close>

lemma crc_bit_inj:
  assumes top: "bit (p :: 'a::len word) (LENGTH('a) - 1)" and eq: "crc_bit p a = crc_bit p b"
  shows "a = b"
proof -
  have msb: "bit (crc_bit p c) (LENGTH('a) - 1) = bit c 0" for c
    using top by (auto simp: crc_bit_def bit_simps)
  from msb [of a] msb [of b] eq have 0: "bit a 0 = bit b 0" by simp
  with eq have d: "drop_bit 1 a = drop_bit 1 b"
    by (auto simp: crc_bit_def word_xor_cancel split: if_splits)
  show ?thesis
  proof (rule bit_word_eqI)
    fix n
    show "bit a n = bit b n"
    proof (cases n)
      case 0
      then show ?thesis using \<open>bit a 0 = bit b 0\<close> by simp
    next
      case (Suc k)
      then show ?thesis using d by (metis bit_drop_bit_eq comp_apply plus_1_eq_Suc)
    qed
  qed
qed

lemma crc_bits_inj:
  assumes "bit (p :: 'a::len word) (LENGTH('a) - 1)" and "crc_bits p n a = crc_bits p n b"
  shows "a = b"
  using assms(2)
  by (induction n arbitrary: a b) (auto simp: crc_bits_Suc dest: crc_bit_inj [OF assms(1)])

lemma crc_foldl_inj:
  assumes "bit (p :: 'a::len word) (LENGTH('a) - 1)"
    and "foldl (crc_byte p) a bs = foldl (crc_byte p) b bs"
  shows "a = b"
  using assms(2)
proof (induction bs arbitrary: a b)
  case Nil
  then show ?case by simp
next
  case (Cons x bs)
  then have "crc_byte p a x = crc_byte p b x" by simp
  then have "a XOR ucast x = b XOR ucast x"
    unfolding crc_byte_def by (rule crc_bits_inj [OF assms(1)])
  then show ?case by (simp add: word_xor_cancel)
qed

text \<open>A burst of up to \<open>LENGTH('a) div 8\<close> bytes enters the register as one word.\<close>

lemma crc_foldl_word:
  fixes p :: "'a::len word"
  shows "8 * length bs \<le> LENGTH('a) \<Longrightarrow> foldl (crc_byte p) c bs =
    crc_bits p (8 * length bs) (c XOR of_nat (le_dec bs))"
proof (induction bs arbitrary: c)
  case Nil
  then show ?case by simp
next
  case (Cons x bs)
  define w :: "'a word" where "w = of_nat (le_dec bs)"
  have "le_dec bs < 256 ^ length bs" by (rule le_dec_less)
  also have "(256 :: nat) ^ length bs = 2 ^ (8 * length bs)" by (simp add: power_mult)
  also have "\<dots> \<le> 2 ^ (LENGTH('a) - 8)" using Cons.prems by (intro power_increasing) auto
  finally have small: "le_dec bs < 2 ^ (LENGTH('a) - 8)" .
  have L: "8 \<le> LENGTH('a)" using Cons.prems by simp
  have uw: "unat w = le_dec bs"
  proof -
    have "le_dec bs < 2 ^ LENGTH('a)"
      using small by (rule less_le_trans) (simp add: power_increasing)
    then show ?thesis by (simp add: w_def unat_of_nat take_bit_nat_eq_self)
  qed
  have bitw: "\<not> bit w k" if "LENGTH('a) - 8 \<le> k" for k
  proof -
    have "\<not> bit (le_dec bs) k"
      using small that by (metis bit_take_bit_iff not_less take_bit_nat_eq_self)
    then show ?thesis by (metis uw bit_unsigned_iff possible_bit_nat)
  qed
  have "crc_bits p 8 (push_bit 8 w) = drop_bit 8 (push_bit 8 w)"
    by (rule crc_bits_low_zero) (rule bit_eqI, auto simp: bit_simps)
  also have "\<dots> = w"
    by (rule bit_word_eqI) (use bitw L in \<open>auto simp: bit_simps add.commute intro: ccontr\<close>)
  finally have shift: "w = crc_bits p 8 (push_bit 8 w)" ..
  have "of_nat (le_dec (x # bs)) = ucast x XOR push_bit 8 w"
  proof -
    have "ucast x AND push_bit 8 w = 0"
      by (rule bit_word_eqI) (auto simp: bit_simps dest: bit_imp_le_length)
    then have "ucast x XOR push_bit 8 w = ucast x + push_bit 8 w"
      by (rule disjunctive_add_eq_xor [symmetric])
    also have "\<dots> = of_nat (le_dec (x # bs))"
      by (simp add: push_bit_eq_mult w_def mult.commute)
    finally show ?thesis ..
  qed
  moreover have "foldl (crc_byte p) c (x # bs) =
      crc_bits p (8 * length bs) (crc_bits p 8 (c XOR ucast x) XOR w)"
    using Cons crc_byte_def [of p c x] by (simp add: w_def)
  then have "foldl (crc_byte p) c (x # bs) =
      crc_bits p (8 * length (x # bs)) (c XOR ucast x XOR push_bit 8 w)"
    by (subst (asm) shift) (simp add: crc_bits_xor [symmetric] crc_bits_add [symmetric] xor.assoc)
  ultimately show ?case by (simp add: xor.assoc)
qed

lemma crc_burst:
  fixes p :: "'a::len word"
  assumes top: "bit p (LENGTH('a) - 1)" and len: "length b = length b'" "8 * length b \<le> LENGTH('a)"
    and ne: "b \<noteq> b'"
  shows "foldl (crc_byte p) c (pre @ b @ post) \<noteq> foldl (crc_byte p) c (pre @ b' @ post)"
proof
  define s where "s = foldl (crc_byte p) c pre"
  assume "foldl (crc_byte p) c (pre @ b @ post) = foldl (crc_byte p) c (pre @ b' @ post)"
  then have "foldl (crc_byte p) (foldl (crc_byte p) s b) post =
      foldl (crc_byte p) (foldl (crc_byte p) s b') post"
    by (simp add: s_def)
  from crc_foldl_inj [OF top this] have "crc_bits p (8 * length b) (s XOR of_nat (le_dec b)) =
      crc_bits p (8 * length b) (s XOR of_nat (le_dec b'))"
    using len by (simp add: crc_foldl_word)
  from crc_bits_inj [OF top this] have eq: "(of_nat (le_dec b) :: 'a word) = of_nat (le_dec b')"
    by (simp only: word_xor_cancel)
  have small: "le_dec d < 2 ^ LENGTH('a)" if "length d = length b" for d
  proof -
    have "le_dec d < 2 ^ (8 * length d)" using le_dec_less [of d] by (simp add: power_mult)
    also have "\<dots> \<le> 2 ^ LENGTH('a)" using that len by (intro power_increasing) auto
    finally show ?thesis .
  qed
  have "unat (of_nat (le_dec d) :: 'a word) = le_dec d" if "length d = length b" for d
    using small [OF that] by (simp add: unat_of_nat take_bit_nat_eq_self)
  from this [of b] this [of b'] have "le_dec b = le_dec b'"
    unfolding eq using len(1) by simp
  with le_dec_inj [OF len(1)] ne show False by blast
qed

section \<open>Sorting\<close>

lemma Swap_Some:
  assumes "j < length a" and "k < length a" and "j \<noteq> k"
  shows "Swap a j k = Some (a[j := a ! k, k := a ! j])"
proof -
  have "(a ! k XOR (a ! j XOR a ! k)) = a ! j" "((a ! j XOR a ! k) XOR a ! j) = a ! k"
    by (metis xor.assoc xor.commute xor.left_neutral xor_self_eq)+
  with assms show ?thesis
    by (simp add: Swap_def rd_Some wr_Some nth_list_update list_update_swap)
qed

text \<open>A pass from \<open>j\<close> down to \<open>i\<close> moves the least element of \<open>[i, n)\<close> to \<open>i\<close>; without a swap
  the segment was sorted.\<close>

definition least_at :: "u16 list \<Rightarrow> nat \<Rightarrow> nat \<Rightarrow> bool" where
  "least_at a i n \<longleftrightarrow> (\<forall>k. i \<le> k \<and> k < n \<longrightarrow> a ! i \<le> a ! k)"

definition ascending :: "u16 list \<Rightarrow> nat \<Rightarrow> nat \<Rightarrow> bool" where
  "ascending a i n \<longleftrightarrow> (\<forall>k. i \<le> k \<and> Suc k < n \<longrightarrow> a ! k \<le> a ! Suc k)"

definition same_outside :: "u16 list \<Rightarrow> u16 list \<Rightarrow> nat \<Rightarrow> nat \<Rightarrow> bool" where
  "same_outside a a' i n \<longleftrightarrow> length a' = length a \<and> mset a' = mset a \<and>
     (\<forall>k. k < i \<or> n \<le> k \<longrightarrow> a' ! k = a ! k) \<and>
     (\<forall>k. i \<le> k \<and> k < n \<longrightarrow> (\<exists>k'. i \<le> k' \<and> k' < n \<and> a' ! k = a ! k'))"

lemma same_outside_refl [simp]: "same_outside a a i n"
  by (auto simp: same_outside_def)

lemma same_outside_trans: "same_outside a b i n \<Longrightarrow> same_outside b c i n \<Longrightarrow> same_outside a c i n"
  by (simp add: same_outside_def) metis

lemma same_outside_widen: "same_outside a b i n \<Longrightarrow> same_outside a b 0 n"
  unfolding same_outside_def by (metis not_less zero_le)

lemma same_outside_source:
  assumes "same_outside a b i n" and "p \<le> k" and "k < n" and "p \<le> i"
  obtains k' where "p \<le> k'" "k' < n" "b ! k = a ! k'"
  using assms unfolding same_outside_def by (metis le_trans not_less)

lemma BubbleSort_inner_step:
  assumes "i \<le> j" and "Suc j < length a"
  shows "BubbleSort_inner a (int i) (int j) flag =
    (if a ! j > a ! Suc j
     then BubbleSort_inner (a[j := a ! Suc j, Suc j := a ! j]) (int i) (int j - 1) True
     else BubbleSort_inner a (int i) (int j - 1) flag)"
proof -
  have "nat (int j + 1) = Suc j" by simp
  then show ?thesis
    using assms by (subst BubbleSort_inner.simps) (simp add: rd_Some Swap_Some)
qed

lemma BubbleSort_inner_sorts:
  assumes "i \<le> m" and "m < n" and "n \<le> length a"
    and "least_at a m n" and "flag \<or> ascending a m n"
  shows "\<exists>a' f. BubbleSort_inner a (int i) (int m - 1) flag = Some (a', f) \<and>
    same_outside a a' i n \<and> least_at a' i n \<and> (f \<or> ascending a' i n)"
  using assms
proof (induction m arbitrary: a flag)
  case 0
  then show ?case by (subst BubbleSort_inner.simps) auto
next
  case (Suc j)
  show ?case
  proof (cases "i \<le> j")
    case False
    with Suc.prems have "i = Suc j" by simp
    then show ?thesis using Suc.prems by (subst BubbleSort_inner.simps) auto
  next
    case True
    note step = BubbleSort_inner_step [OF True, of a flag]
    show ?thesis
    proof (cases "a ! j > a ! Suc j")
      case swap: True
      define b where "b = a[j := a ! Suc j, Suc j := a ! j]"
      have "mset b = mset a"
        using Suc.prems by (simp add: b_def mset_swap)
      moreover have "\<exists>k'. i \<le> k' \<and> k' < n \<and> b ! k = a ! k'" if k: "i \<le> k" "k < n" for k
      proof -
        have "b ! j = a ! Suc j" "b ! Suc j = a ! j" "k \<noteq> j \<Longrightarrow> k \<noteq> Suc j \<Longrightarrow> b ! k = a ! k"
          using Suc.prems by (simp_all add: b_def)
        moreover have "i \<le> Suc j" "Suc j < n" "i \<le> j" "j < n" using True Suc.prems by simp_all
        ultimately show ?thesis using k by metis
      qed
      moreover have "length b = length a" by (simp add: b_def)
      moreover have "b ! k = a ! k" if "k < i \<or> n \<le> k" for k
      proof -
        have "k \<noteq> j" "k \<noteq> Suc j" using that True Suc.prems by auto
        then show ?thesis by (simp add: b_def)
      qed
      ultimately have so: "same_outside a b i n" by (simp add: same_outside_def)
      have "b ! j \<le> b ! k" if "j \<le> k" "k < n" for k
      proof (cases "k = j \<or> k = Suc j")
        case True
        then show ?thesis using Suc.prems swap by (auto simp: b_def)
      next
        case False
        with that have "Suc j \<le> k" by simp
        with that False Suc.prems show ?thesis by (simp add: b_def least_at_def)
      qed
      then have "least_at b j n" by (simp add: least_at_def)
      then obtain a' f where "BubbleSort_inner b (int i) (int j - 1) True = Some (a', f)"
          "same_outside b a' i n" "least_at a' i n" "f \<or> ascending a' i n"
        using Suc.IH [of b True] True Suc.prems by (auto simp: b_def)
      moreover from so this(2) have "same_outside a a' i n" by (rule same_outside_trans)
      ultimately show ?thesis
        using step swap Suc.prems by (intro exI [of _ a'] exI [of _ f]) (simp add: b_def)
    next
      case False
      then have le: "a ! j \<le> a ! Suc j" by simp
      have "a ! j \<le> a ! k" if "j \<le> k" "k < n" for k
      proof (cases "k = j")
        case False
        with that have "a ! Suc j \<le> a ! k" using Suc.prems by (simp add: least_at_def)
        with le show ?thesis by (rule order_trans)
      qed simp
      then have "least_at a j n" by (simp add: least_at_def)
      moreover have "a ! k \<le> a ! Suc k" if "ascending a (Suc j) n" "j \<le> k" "Suc k < n" for k
        using that le by (cases "k = j") (simp_all add: ascending_def)
      then have "flag \<or> ascending a j n"
        using Suc.prems(5) by (auto simp: ascending_def)
      ultimately obtain a' f where "BubbleSort_inner a (int i) (int j - 1) flag = Some (a', f)"
          "same_outside a a' i n" "least_at a' i n" "f \<or> ascending a' i n"
        using Suc.IH [of a flag] True Suc.prems by auto
      with step False Suc.prems show ?thesis by auto
    qed
  qed
qed

lemma sint_len_minus_2:
  assumes "n = unat (len :: u32)" and "0 < n" and "n \<le> 2 ^ 31"
  shows "sint (len - 2) = int n - 2"
proof (cases "n = 1")
  case True
  then have "len = 1" using assms(1) by (intro word_unat_eqI) simp
  then show ?thesis using True by simp
next
  case False
  with assms(2) have two: "2 \<le> n" by simp
  then have "unat (len - 2) = n - 2"
    using assms(1) by (subst unat_sub) (simp_all add: word_le_nat_alt)
  moreover have "uint (len - 2) = int (unat (len - 2))" by (rule uint_nat)
  ultimately have u: "uint (len - 2) = int n - 2"
    using two by linarith
  have "signed_take_bit 31 (uint (len - 2)) = uint (len - 2)"
    unfolding u using assms(3) two by (intro signed_take_bit_int_eq_self) simp_all
  then show ?thesis unfolding sint_uint u by simp
qed

lemma ascending_from_least:
  assumes "ascending a i n" and "\<And>p. p < i \<Longrightarrow> least_at a p n"
  shows "ascending a 0 n"
  unfolding ascending_def
proof (intro allI impI)
  fix k assume k: "0 \<le> k \<and> Suc k < n"
  show "a ! k \<le> a ! Suc k"
  proof (cases "k < i")
    case True
    then show ?thesis using assms(2) [OF True] k by (simp add: least_at_def)
  next
    case False
    then show ?thesis using assms(1) k by (simp add: ascending_def)
  qed
qed

text \<open>One pass of the outer loop, for a position \<open>i\<close> inside the array.\<close>

lemma BubbleSort_pass:
  assumes "i < n" and "n = unat (len :: u32)" and "n \<le> length a" and "n \<le> 2 ^ 31"
    and prefix: "\<And>p. p < i \<Longrightarrow> least_at a p n"
  shows "\<exists>a' f. BubbleSort_inner a (int i) (sint (len - 2)) False = Some (a', f) \<and>
    same_outside a a' 0 n \<and> (\<forall>p \<le> i. least_at a' p n) \<and> (f \<or> ascending a' 0 n)"
proof -
  have "sint (len - 2) = int n - 2"
    by (rule sint_len_minus_2) (use assms(1,2,4) in simp_all)
  moreover have "int (n - 1) = int n - 1" using assms(1) by simp
  ultimately have j: "sint (len - 2) = int (n - 1) - 1" by simp
  have "least_at a (n - 1) n" and "False \<or> ascending a (n - 1) n"
    unfolding least_at_def ascending_def using assms(1) by (auto dest: le_antisym)
  with BubbleSort_inner_sorts [of i "n - 1" n a False] assms(1,3)
  obtain a' f where a': "BubbleSort_inner a (int i) (int (n - 1) - 1) False = Some (a', f)"
      "same_outside a a' i n" "least_at a' i n" "f \<or> ascending a' i n"
    by fastforce
  have least: "least_at a' p n" if "p \<le> i" for p
    unfolding least_at_def
  proof (intro allI impI)
    fix k assume k: "p \<le> k \<and> k < n"
    show "a' ! p \<le> a' ! k"
    proof (cases "p = i")
      case True
      then show ?thesis using a'(3) k by (simp add: least_at_def)
    next
      case False
      with that have pi: "p < i" by simp
      from a'(2) conjunct1 [OF k] conjunct2 [OF k] that
      obtain k' where "p \<le> k'" "k' < n" "a' ! k = a ! k'"
        by (rule same_outside_source)
      moreover have "a' ! p = a ! p" using a'(2) pi by (simp add: same_outside_def)
      ultimately show ?thesis using prefix [OF pi] by (simp add: least_at_def)
    qed
  qed
  have "f \<or> ascending a' 0 n"
    using a'(4) ascending_from_least [of a' i n] least by (meson less_imp_le)
  with a' j least same_outside_widen [OF a'(2)] show ?thesis by auto
qed

lemma BubbleSort_outer_sorts:
  assumes "i \<le> n" and "n = unat len" and "n \<le> length a" and "n \<le> 2 ^ 31"
    and "\<forall>p < i. least_at a p n" and "flag \<or> ascending a 0 n"
  shows "\<exists>a'. BubbleSort_outer a len (int i) flag = Some a' \<and>
    same_outside a a' 0 n \<and> ascending a' 0 n"
  using assms
proof (induction "n - i" arbitrary: i a flag)
  case 0
  then have i: "i = n" by simp
  have "ascending a n n" by (auto simp: ascending_def)
  with 0 i have asc: "ascending a 0 n" by (blast intro: ascending_from_least)
  have "uint len = int n" using 0(3) by (simp only: uint_nat)
  then have "\<not> int i < uint len" using i by simp
  then have "BubbleSort_outer a len (int i) flag = Some a"
    by (subst BubbleSort_outer.simps) simp
  then show ?case using asc by simp
next
  case (Suc d)
  have i: "i < n" using Suc.hyps(2) by simp
  show ?case
  proof (cases flag)
    case False
    then have "BubbleSort_outer a len (int i) flag = Some a"
      by (subst BubbleSort_outer.simps) simp
    then show ?thesis using False Suc.prems(6) by simp
  next
    case True
    have "uint len = int n" using Suc.prems(2) by (simp only: uint_nat)
    with i have lt: "int i < uint len" by simp
    from BubbleSort_pass [OF i Suc.prems(2,3,4)] Suc.prems(5)
    obtain a' f where a': "BubbleSort_inner a (int i) (sint (len - 2)) False = Some (a', f)"
        "same_outside a a' 0 n" "\<forall>p \<le> i. least_at a' p n" "f \<or> ascending a' 0 n"
      by blast
    have "n \<le> length a'" using a'(2) Suc.prems(3) by (simp add: same_outside_def)
    moreover have "d = n - Suc i" "Suc i \<le> n" using Suc.hyps(2) i by simp_all
    moreover have "\<forall>p < Suc i. least_at a' p n" using a'(3) by (simp add: less_Suc_eq_le)
    ultimately obtain a'' where a'': "BubbleSort_outer a' len (int (Suc i)) f = Some a''"
        "same_outside a' a'' 0 n" "ascending a'' 0 n"
      using Suc.hyps(1) Suc.prems(2,4) a'(4) by blast
    have "int i + 1 = int (Suc i)" by simp
    then have "BubbleSort_outer a len (int i) flag = Some a''"
      using True lt a'(1) a''(1) by (subst BubbleSort_outer.simps) (simp only: fst_conv snd_conv if_True simp_thms Option.bind.bind_lunit)
    with same_outside_trans [OF a'(2) a''(2)] a''(3) show ?thesis by blast
  qed
qed

lemma ascending_sorted: "n \<le> length a \<Longrightarrow> ascending a 0 n \<Longrightarrow> sorted (take n a)"
  by (simp add: sorted_iff_nth_Suc ascending_def)

section \<open>Properties\<close>

text \<open>C12: the table-driven \<open>CRC32_Update\<close> is the bit-serial CRC-32 (reflected polynomial
  0xEDB88320) and may be fed the image in pieces: initialising, updating with any sequence of
  buffers and finishing gives the reference value of the concatenated bytes, without an access
  outside a buffer or the table.\<close>

fun CRC32_pieces :: "CRC32_CTX \<Rightarrow> (u8 list \<times> u32) list \<Rightarrow> CRC32_CTX option" where
  "CRC32_pieces ctx [] = Some ctx"
| "CRC32_pieces ctx ((data, len) # ps) = do { ctx \<leftarrow> CRC32_Update ctx data len; CRC32_pieces ctx ps }"

theorem CRC32_streaming_ref:
  assumes "\<And>data len. (data, len) \<in> set ps \<Longrightarrow> unat len \<le> length data"
  shows "\<exists>ctx. CRC32_pieces (CRC32_Init ctx0) ps = Some ctx \<and>
    fst (CRC32_Final ctx) = crc32_ref (concat (map (\<lambda>(data, len). take (unat len) data) ps))"
proof -
  have "CRC32_pieces c ps = Some (c\<lparr>crc := foldl (crc_byte 0xEDB88320) (crc c)
      (concat (map (\<lambda>(data, len). take (unat len) data) ps))\<rparr>)" for c
    using assms
  proof (induction ps arbitrary: c)
    case Nil
    then show ?case by simp
  next
    case (Cons q qs)
    moreover obtain data len where "q = (data, len)" by (cases q)
    ultimately show ?case by (simp add: CRC32_Update_ref)
  qed
  then show ?thesis by (simp add: CRC32_Final_def crc32_ref_def CRC32_Init_def)
qed

text \<open>The check value of CRC-32: the digits 1 to 9, here in two pieces.\<close>

theorem CRC32_streaming_ref_witness:
  "\<exists>ctx. CRC32_pieces (CRC32_Init \<lparr>crc = 0\<rparr>) [([0x31, 0x32, 0x33, 0x34, 0], 4), ([0x35, 0x36, 0x37, 0x38, 0x39], 5)]
     = Some ctx \<and> fst (CRC32_Final ctx) = 0xCBF43926"
proof -
  define ps :: "(u8 list \<times> u32) list" where
    "ps = [([0x31, 0x32, 0x33, 0x34, 0], 4), ([0x35, 0x36, 0x37, 0x38, 0x39], 5)]"
  have "unat len \<le> length data" if "(data, len) \<in> set ps" for data len
    using that by (auto simp: ps_def)
  moreover have "crc32_ref (concat (map (\<lambda>(data, len). take (unat len) data) ps)) = 0xCBF43926"
    by (simp add: ps_def crc32_ref_def crc_byte_def crc_bits_8 crc_bit_numeral)
  ultimately show ?thesis
    using CRC32_streaming_ref [of ps "\<lparr>crc = 0\<rparr>"] by (simp add: ps_def [symmetric])
qed

text \<open>\<open>CRC32_Update\<close> separates any two buffers of the same length that differ only inside a
  window of four consecutive bytes, whatever precedes and follows the window: a corrupted byte,
  or a burst of up to 32 bits within such a window, never passes the firmware image check.\<close>

theorem CRC32_detects_bursts:
  assumes "length b = length b'" and "length b \<le> 4" and "b \<noteq> b'"
    and "unat len = length (pre @ b @ post)"
  shows "\<exists>c c'. CRC32_Update ctx (pre @ b @ post) len = Some c \<and>
    CRC32_Update ctx (pre @ b' @ post) len = Some c' \<and>
    fst (CRC32_Final c) \<noteq> fst (CRC32_Final c')"
proof -
  have "bit (0xEDB88320 :: u32) (LENGTH(32) - 1)" by simp
  from crc_burst [OF this assms(1) _ assms(3), of "crc ctx" pre post] assms(2)
  show ?thesis
    using assms(1,4) by (simp add: CRC32_Update_ref CRC32_Final_def word_xor_cancel)
qed

theorem CRC32_detects_bursts_witness:
  "\<exists>c c'. CRC32_Update \<lparr>crc = 0\<rparr> [1, 2, 3, 4] 4 = Some c \<and>
    CRC32_Update \<lparr>crc = 0\<rparr> [1, 7, 9, 4] 4 = Some c' \<and> fst (CRC32_Final c) \<noteq> fst (CRC32_Final c')"
  using CRC32_detects_bursts [of "[2, 3]" "[7, 9]" 4 "[1]" "[4]" "\<lparr>crc = 0\<rparr>"] by simp

text \<open>\<open>Get_CRC16\<close> is the bit-serial CRC-16 (reflected polynomial 0xA001, initial value 0xFFFF)
  with the two bytes of the result exchanged.\<close>

theorem Get_CRC16_ref:
  assumes "unat len \<le> length data"
  shows "Get_CRC16 data len = Some (push_bit 8 (ucast (ucast (crc16_ref (take (unat len) data)) :: u8))
    OR ucast (ucast (drop_bit 8 (crc16_ref (take (unat len) data))) :: u8))"
proof -
  have "for_bytes CRC16_step (0xFF, 0xFF) data 0 (unat len) =
      for_bytes CRC16_step (ucast (0xFFFF :: u16), ucast (drop_bit 8 (0xFFFF :: u16))) data 0 (unat len)"
  proof -
    have "(ucast (0xFFFF :: u16) :: u8) = 0xFF" "(ucast (drop_bit 8 (0xFFFF :: u16)) :: u8) = 0xFF"
      by code_simp+
    then show ?thesis by (simp only:)
  qed
  also have "\<dots> = (let r = crc16_ref (take (unat len) data) in Some (ucast r, ucast (drop_bit 8 r)))"
    using assms by (subst CRC16_loop_ref) (simp_all add: crc16_ref_def)
  finally show ?thesis by (simp add: Get_CRC16_def Let_def)
qed

theorem Get_CRC16_ref_witness:
  "Get_CRC16 [0x01, 0x03] 2 = Some 0x4021"
  using Get_CRC16_ref [of 2 "[0x01, 0x03]"]
  by (simp add: crc16_ref_def crc_byte_def crc_bits_8 crc_bit_numeral)

text \<open>\<open>Get_CRC8\<close> is the bit-serial CRC-8 of polynomial 0x1C, and it does not see an exclusive
  or with 0x47 in any byte: the polynomial has no constant term, so four bytes share each value of
  the table and the check misses that error everywhere.\<close>

theorem Get_CRC8_misses_0x47:
  assumes "unat len \<le> length data" and "i < unat len"
  shows "Get_CRC8 data len = Some (foldl (\<lambda>c x. crc8_bits (c XOR x)) 0 (take (unat len) data)) \<and>
    Get_CRC8 (data[i := data ! i XOR 0x47]) len = Get_CRC8 data len"
proof -
  have step: "CRC8_step c x = Some (crc8_bits (c XOR x))" for c x
  proof -
    have "x AND 0xFF = x"
    proof -
      have "(0xFF :: u8) = - 1" by simp
      then show ?thesis by (simp only: and.right_neutral)
    qed
    then show ?thesis
      using unat_less_u8 [of "c XOR x"] by (simp add: CRC8_step_def rd_def CRC8Table_bits)
  qed
  have ref: "Get_CRC8 d len = Some (foldl (\<lambda>c x. crc8_bits (c XOR x)) 0 (take (unat len) d))"
    if "unat len \<le> length d" for d
    unfolding Get_CRC8_def using that by (subst for_bytes_foldl [OF step]) simp_all
  have blind: "crc8_bits (c XOR (x XOR 0x47)) = crc8_bits (c XOR x)" for c x
  proof -
    have "crc8_bits 0x47 = 0" by (simp add: crc8_bits_def crc8_bit_def)
    then show ?thesis by (simp add: crc8_bits_xor)
  qed
  define m where "m = take (unat len) data"
  have i: "i < length m" using assms by (simp add: m_def)
  have "foldl (\<lambda>c x. crc8_bits (c XOR x)) s (m[i := m ! i XOR 0x47]) =
      foldl (\<lambda>c x. crc8_bits (c XOR x)) s m" for s
    using i
    by (subst (2) id_take_nth_drop [OF i]) (simp add: upd_conv_take_nth_drop blind)
  moreover have "take (unat len) (data[i := data ! i XOR 0x47]) = m[i := m ! i XOR 0x47]"
    using assms(2) by (simp add: m_def take_update_swap)
  ultimately show ?thesis
    using ref [of data] ref [of "data[i := data ! i XOR 0x47]"] assms(1) by (simp add: m_def)
qed

theorem Get_CRC8_misses_0x47_witness:
  "Get_CRC8 [0x47, 9] 2 = Get_CRC8 [0, 9] 2"
  using Get_CRC8_misses_0x47 [of 2 "[0, 9]" 0] by simp

text \<open>\<open>BubbleSort\<close> of the first \<open>len\<close> elements of an array (of at most \<open>2 ^ 31\<close>) terminates
  without leaving the array and sorts them in place: the prefix ends up ascending, the array is a
  permutation of the old one and the elements behind the prefix are untouched.\<close>

theorem BubbleSort_sorts:
  assumes "unat len \<le> length a" and "unat len \<le> 2 ^ 31"
  shows "\<exists>a'. BubbleSort a len = Some a' \<and> sorted (take (unat len) a') \<and> mset a' = mset a \<and>
    drop (unat len) a' = drop (unat len) a"
proof -
  obtain a' where a': "BubbleSort_outer a len (int 0) True = Some a'"
      "same_outside a a' 0 (unat len)" "ascending a' 0 (unat len)"
    using BubbleSort_outer_sorts [of 0 "unat len" len a True] assms by auto
  have "drop (unat len) a' = drop (unat len) a"
    using a'(2) by (intro nth_equalityI) (simp_all add: same_outside_def)
  moreover have "sorted (take (unat len) a')"
    using a' assms by (intro ascending_sorted) (simp_all add: same_outside_def)
  ultimately show ?thesis
    using a' by (auto simp: BubbleSort_def same_outside_def)
qed

theorem BubbleSort_sorts_witness:
  "\<exists>a'. BubbleSort [3, 1, 2, 0] 3 = Some a' \<and> sorted (take 3 a') \<and> drop 3 a' = [0]"
  using BubbleSort_sorts [of 3 "[3, 1, 2, 0]"] by auto

end
