(* ===== verification/Protocol_Frame.thy ===== *)
theory Protocol_Frame
  imports Ring_Buffer
begin

text \<open>
  \<open>general_app/protocol_anylise_frame.c\<close>: a communication device polls a byte source and offers
  the pending bytes to up to three protocol handlers; the first that accepts has its frame
  deleted, bytes all of them reject are dropped, and bytes that stay undecided for too long are
  cleared.

  A handler is named by a value of type \<open>'h\<close> (the function pointer) and \<open>call\<close> runs it: it gets the
  application state \<open>'s\<close>, the analysis buffer and the number of bytes received and returns its
  verdict and the new application state, or \<open>None\<close> when it faults. The three device functions act
  on the port \<open>'p\<close>. Suspending and resuming the polling thread has no effect on this state. The
  values of successive \<open>rt_tick_get()\<close> calls of one round are \<open>t1\<close> and \<open>t2\<close>.
\<close>

datatype anylise_state = anylise_waiting | anylise_accept | anylise_reject

record del_info_type =
  info_state :: anylise_state
  del_len :: u32

definition PROTOCOL_FUN_MAX :: nat where
  "PROTOCOL_FUN_MAX = 3"

record ('h, 'p) comm_dev_type =
  comm_name :: string
  comm_buf :: "u8 list"
  comm_buf_len :: u32
  dev_recv :: "'p \<Rightarrow> u8 list \<Rightarrow> u32 \<Rightarrow> bool \<Rightarrow> (u32 \<times> u8 list \<times> 'p) option"
  dev_del :: "'p \<Rightarrow> u32 \<Rightarrow> (u32 \<times> 'p) option"
  dev_clear :: "'p \<Rightarrow> (bool \<times> 'p) option"
  dev_send :: "('p \<Rightarrow> u8 list \<Rightarrow> u32 \<Rightarrow> u32 \<times> 'p) option"
  ticks_out :: u32
  protocol_anylise_fun :: "'h option list"
  protocol_num :: u32
  comm_tid :: "nat option"
  wait_ticks :: u32

type_synonym ('h, 's) handler_call = "'h \<Rightarrow> 's \<Rightarrow> u8 list \<Rightarrow> u32 \<Rightarrow> (del_info_type \<times> 's) option"

section \<open>Creating and destroying a device\<close>

text \<open>What the two functions ask of the RTOS, in order.\<close>

datatype rtos_event = Malloc_dev | Malloc_buf u32 | Free_dev | Free_buf | Thread_delete nat

text \<open>\<open>dev_ok\<close> and \<open>mem\<close> are the outcomes of the two \<open>rt_malloc\<close> calls.\<close>

definition comm_dev_create ::
  "bool \<Rightarrow> u8 list option \<Rightarrow> string \<Rightarrow> u32 \<Rightarrow>
   ('p \<Rightarrow> u8 list \<Rightarrow> u32 \<Rightarrow> bool \<Rightarrow> (u32 \<times> u8 list \<times> 'p) option) \<Rightarrow>
   ('p \<Rightarrow> u32 \<Rightarrow> (u32 \<times> 'p) option) \<Rightarrow> ('p \<Rightarrow> (bool \<times> 'p) option) \<Rightarrow>
   ('p \<Rightarrow> u8 list \<Rightarrow> u32 \<Rightarrow> u32 \<times> 'p) option \<Rightarrow> u32 \<Rightarrow>
   ('h, 'p) comm_dev_type option \<times> rtos_event list" where
  "comm_dev_create dev_ok mem nm len recv del clear send out_time =
     (if \<not> dev_ok then (None, [Malloc_dev])
      else case mem of
        None \<Rightarrow> (None, [Malloc_dev, Malloc_buf len, Free_dev])
      | Some b \<Rightarrow>
          (Some \<lparr>comm_name = nm, comm_buf = b, comm_buf_len = len, dev_recv = recv, dev_del = del,
             dev_clear = clear, dev_send = send, ticks_out = out_time,
             protocol_anylise_fun = replicate PROTOCOL_FUN_MAX None, protocol_num = 0,
             comm_tid = None, wait_ticks = 0\<rparr>,
           [Malloc_dev, Malloc_buf len]))"

definition protocol_anylise_destroy :: "('h, 'p) comm_dev_type option \<Rightarrow> bool \<times> rtos_event list" where
  "protocol_anylise_destroy comm_dev =
     (case comm_dev of
        None \<Rightarrow> (False, [])
      | Some dev \<Rightarrow>
          (True, (case comm_tid dev of None \<Rightarrow> [] | Some t \<Rightarrow> [Thread_delete t]) @ [Free_buf, Free_dev]))"

section \<open>Adding and removing handlers\<close>

text \<open>The index of the first slot that holds \<open>h\<close> (\<open>None\<close> is RT_NULL).\<close>

fun find_slot :: "'h option \<Rightarrow> 'h option list \<Rightarrow> nat \<Rightarrow> nat option" where
  "find_slot h [] i = None"
| "find_slot h (s # ss) i = (if s = h then Some i else find_slot h ss (Suc i))"

definition protocol_anylise_add ::
  "('h, 'p) comm_dev_type option \<Rightarrow> 'h option \<Rightarrow> bool \<times> ('h, 'p) comm_dev_type option" where
  "protocol_anylise_add comm_dev protocol_anylise =
     (case comm_dev of
        None \<Rightarrow> (False, None)
      | Some dev \<Rightarrow>
          if unat (protocol_num dev) \<ge> PROTOCOL_FUN_MAX then (False, Some dev)
          else case find_slot None (protocol_anylise_fun dev) 0 of
            None \<Rightarrow> (False, Some dev)
          | Some i \<Rightarrow>
              (True, Some (dev\<lparr>protocol_anylise_fun := (protocol_anylise_fun dev)[i := protocol_anylise],
                 protocol_num := protocol_num dev + 1\<rparr>)))"

definition protocol_anylise_del ::
  "('h, 'p) comm_dev_type option \<Rightarrow> 'h option \<Rightarrow> bool \<times> ('h, 'p) comm_dev_type option" where
  "protocol_anylise_del comm_dev protocol_anylise =
     (case comm_dev of
        None \<Rightarrow> (False, None)
      | Some dev \<Rightarrow>
          if protocol_num dev = 0 then (True, Some dev)
          else case find_slot protocol_anylise (protocol_anylise_fun dev) 0 of
            None \<Rightarrow> (False, Some dev)
          | Some i \<Rightarrow>
              (True, Some (dev\<lparr>protocol_anylise_fun := (protocol_anylise_fun dev)[i := None],
                 protocol_num := protocol_num dev - 1\<rparr>)))"

text \<open>\<open>created\<close> is what \<open>rt_thread_create\<close> returned.\<close>

definition protocol_anylise_startup ::
  "nat option \<Rightarrow> ('h, 'p) comm_dev_type option \<Rightarrow> bool \<times> ('h, 'p) comm_dev_type option" where
  "protocol_anylise_startup created comm_dev =
     (case comm_dev of
        None \<Rightarrow> (False, None)
      | Some dev \<Rightarrow>
          if protocol_num dev = 0 then (False, Some dev)
          else if comm_tid dev \<noteq> None then (True, Some dev)
          else (created \<noteq> None, Some (dev\<lparr>comm_tid := created\<rparr>)))"

section \<open>One round of the polling thread\<close>

text \<open>The handlers in slot order up to the first that accepts: \<open>Inl\<close> the accepted length, or
  \<open>Inr\<close> the verdicts. An empty slot rejects everything.\<close>

fun anylise_loop ::
  "('h, 's) handler_call \<Rightarrow> 'h option list \<Rightarrow> 's \<Rightarrow> u8 list \<Rightarrow> u32 \<Rightarrow> del_info_type list \<Rightarrow>
   ((u32 + del_info_type list) \<times> 's) option" where
  "anylise_loop call [] app b len infos = Some (Inr infos, app)"
| "anylise_loop call (None # hs) app b len infos =
     anylise_loop call hs app b len (infos @ [\<lparr>info_state = anylise_reject, del_len = len\<rparr>])"
| "anylise_loop call (Some h # hs) app b len infos = do {
     (info, app') \<leftarrow> call h app b len;
     if info_state info = anylise_accept then Some (Inl (del_len info), app')
     else anylise_loop call hs app' b len (infos @ [info])
   }"

text \<open>The least rejected length, \<open>None\<close> when some handler waits. Zero stands for unset.\<close>

fun del_min_loop :: "del_info_type list \<Rightarrow> u32 \<Rightarrow> u32 option" where
  "del_min_loop [] del_min = Some del_min"
| "del_min_loop (info # infos) del_min =
     (if info_state info = anylise_reject
      then del_min_loop infos (if del_min = 0 then del_len info else min del_min (del_len info))
      else None)"

definition Abs_int :: "u32 \<Rightarrow> u32" where
  "Abs_int d = (if sint d < 0 then - d else d)"

definition protocol_anylise_process ::
  "('h, 's) handler_call \<Rightarrow> u32 \<Rightarrow> u32 \<Rightarrow> ('h, 'p) comm_dev_type \<Rightarrow> 'p \<Rightarrow> 's \<Rightarrow>
   (('h, 'p) comm_dev_type \<times> 'p \<times> 's) option" where
  "protocol_anylise_process call t1 t2 comm port app = do {
     (len, b, port) \<leftarrow> dev_recv comm port (comm_buf comm) (comm_buf_len comm) False;
     let comm = comm\<lparr>comm_buf := b\<rparr>;
     if len = 0 then Some (comm\<lparr>wait_ticks := t1\<rparr>, port, app)
     else do {
       (verdict, app) \<leftarrow> anylise_loop call (protocol_anylise_fun comm) app b len [];
       (case verdict of
          Inl n \<Rightarrow> do {
            (_, port) \<leftarrow> dev_del comm port n;
            Some (comm\<lparr>wait_ticks := t1\<rparr>, port, app)
          }
        | Inr infos \<Rightarrow>
            (case del_min_loop infos 0 of
               Some del_min \<Rightarrow> do {
                 (_, port) \<leftarrow> dev_del comm port del_min;
                 Some (comm\<lparr>wait_ticks := t1\<rparr>, port, app)
               }
             | None \<Rightarrow>
                 if Abs_int (t1 - wait_ticks comm) > ticks_out comm
                 then do {
                   (_, port) \<leftarrow> dev_clear comm port;
                   Some (comm\<lparr>wait_ticks := t2\<rparr>, port, app)
                 }
                 else Some (comm, port, app)))
     }
   }"

text \<open>The polling loop, one list element per round: what the producers do to the port before it
  and the clock readings.\<close>

fun protocol_anylise_thread_entry ::
  "('h, 's) handler_call \<Rightarrow> (('p \<Rightarrow> 'p) \<times> u32 \<times> u32) list \<Rightarrow> ('h, 'p) comm_dev_type \<Rightarrow> 'p \<Rightarrow> 's \<Rightarrow>
   (('h, 'p) comm_dev_type \<times> 'p \<times> 's) option" where
  "protocol_anylise_thread_entry call [] comm port app = Some (comm, port, app)"
| "protocol_anylise_thread_entry call ((env, t1, t2) # rounds) comm port app = do {
     (comm, port, app) \<leftarrow> protocol_anylise_process call t1 t2 comm (env port) app;
     protocol_anylise_thread_entry call rounds comm port app
   }"

section \<open>A round over any byte port\<close>

text \<open>The bytes that remain pending after a verdict; \<open>expired\<close> tells whether the undecided bytes
  waited longer than the device allows.\<close>

definition remaining :: "u32 + del_info_type list \<Rightarrow> bool \<Rightarrow> u8 list \<Rightarrow> u8 list" where
  "remaining verdict expired xs =
     (case verdict of
        Inl n \<Rightarrow> drop (unat n) xs
      | Inr infos \<Rightarrow>
          (case del_min_loop infos 0 of
             Some n \<Rightarrow> drop (unat n) xs
           | None \<Rightarrow> if expired then [] else xs))"

text \<open>The clock value kept for the next round; \<open>w\<close> is the one from before.\<close>

definition noted :: "u32 + del_info_type list \<Rightarrow> bool \<Rightarrow> u32 \<Rightarrow> u32 \<Rightarrow> u32 \<Rightarrow> u32" where
  "noted verdict expired t1 t2 w =
     (case verdict of
        Inl n \<Rightarrow> t1
      | Inr infos \<Rightarrow>
          (case del_min_loop infos 0 of Some n \<Rightarrow> t1 | None \<Rightarrow> if expired then t2 else w))"

definition comm_port :: "('p \<Rightarrow> u8 list \<Rightarrow> u32 \<Rightarrow> (u32 \<times> u8 list \<times> 'p) option) \<Rightarrow>
    ('p \<Rightarrow> u32 \<Rightarrow> (u32 \<times> 'p) option) \<Rightarrow> ('p \<Rightarrow> (bool \<times> 'p) option) \<Rightarrow>
    ('h, 'p) comm_dev_type \<Rightarrow> bool" where
  "comm_port recv del clear comm \<longleftrightarrow>
     (\<forall>p d n. dev_recv comm p d n False = recv p d n) \<and> dev_del comm = del \<and>
     dev_clear comm = clear \<and> length (comm_buf comm) = unat (comm_buf_len comm)"

definition comm_expired :: "('h, 'p) comm_dev_type \<Rightarrow> u32 \<Rightarrow> bool" where
  "comm_expired comm t \<longleftrightarrow> Abs_int (t - wait_ticks comm) > ticks_out comm"

context byte_port
begin

lemma of_nat_received:
  assumes "n \<le> unat (len :: u32)"
  shows "unat (of_nat n :: u32) = n"
proof -
  have "n < 2 ^ 32" using assms unat_less_u32 [of len] by simp
  then show ?thesis by (simp add: unat_of_nat take_bit_nat_eq_self)
qed

lemma process_idle:
  assumes "ok p" and "comm_port recv del clear comm" and "pending p = []"
  shows "protocol_anylise_process call t1 t2 comm p app = Some (comm\<lparr>wait_ticks := t1\<rparr>, p, app)"
  using assms recv_peeks [of p "comm_buf_len comm" "comm_buf comm" 0]
  by (simp add: protocol_anylise_process_def comm_port_def)

lemma process_round_exact:
  assumes ok: "ok p" and port: "comm_port recv del clear comm"
    and n: "n = min (unat (comm_buf_len comm)) (length (pending p))" and pos: "0 < n"
    and b: "b = take n (pending p) @ drop n (comm_buf comm)"
    and verdict: "anylise_loop call (protocol_anylise_fun comm) app b (of_nat n) [] = Some (v, app')"
  shows "\<exists>p'. protocol_anylise_process call t1 t2 comm p app =
      Some (comm\<lparr>comm_buf := b, wait_ticks := noted v (comm_expired comm t1) t1 t2 (wait_ticks comm)\<rparr>, p', app') \<and>
    ok p' \<and> pending p' = remaining v (comm_expired comm t1) (pending p) \<and>
    (v \<in> range Inr \<and> del_min_loop (projr v) 0 = None \<and> \<not> comm_expired comm t1 \<longrightarrow> p' = p)"
proof -
  have recv: "dev_recv comm p (comm_buf comm) (comm_buf_len comm) False = Some (of_nat n, b, p)"
    using recv_peeks [OF ok, of "comm_buf_len comm" "comm_buf comm" n] port n b
    by (simp add: comm_port_def)
  have ne: "(of_nat n :: u32) \<noteq> 0"
    using of_nat_received [of n "comm_buf_len comm"] n pos by (metis min.cobounded1 not_less0 unat_0)
  have del: "dev_del comm = del" "dev_clear comm = clear" using port by (simp_all add: comm_port_def)
  note start = protocol_anylise_process_def recv ne verdict
  show ?thesis
  proof (cases v)
    case (Inl k)
    obtain p' where "del p k = Some (of_nat (min (unat k) (length (pending p))), p')" "ok p'"
        "pending p' = drop (unat k) (pending p)"
      using del_drops [OF ok, of k] by blast
    then show ?thesis
      using Inl del by (intro exI [of _ p']) (auto simp: start remaining_def noted_def)
  next
    case (Inr infos)
    show ?thesis
    proof (cases "del_min_loop infos 0")
      case (Some k)
      obtain p' where "del p k = Some (of_nat (min (unat k) (length (pending p))), p')" "ok p'"
          "pending p' = drop (unat k) (pending p)"
        using del_drops [OF ok, of k] by blast
      then show ?thesis
        using Inr Some del by (intro exI [of _ p']) (auto simp: start remaining_def noted_def)
    next
      case None
      show ?thesis
      proof (cases "comm_expired comm t1")
        case True
        obtain p' where "clear p = Some (True, p')" "ok p'" "pending p' = []"
          using clear_empties [OF ok] by blast
        then show ?thesis
          using Inr None del True
          by (intro exI [of _ p']) (simp add: start remaining_def noted_def comm_expired_def)
      next
        case False
        then show ?thesis
          using Inr None ok
          by (intro exI [of _ p]) (simp add: start remaining_def noted_def comm_expired_def)
      qed
    qed
  qed
qed

lemma process_round:
  assumes "ok p" and "comm_port recv del clear comm"
    and "n = min (unat (comm_buf_len comm)) (length (pending p))" and "0 < n"
    and "b = take n (pending p) @ drop n (comm_buf comm)"
    and "anylise_loop call (protocol_anylise_fun comm) app b (of_nat n) [] = Some (v, app')"
  shows "\<exists>w p'. protocol_anylise_process call t1 t2 comm p app =
      Some (comm\<lparr>comm_buf := b, wait_ticks := w\<rparr>, p', app') \<and> ok p' \<and>
    pending p' = remaining v (comm_expired comm t1) (pending p)"
  using process_round_exact [OF assms] by blast

end

section \<open>Verdicts\<close>

text \<open>With positive lengths the computed minimum is the least rejected length; a handler that
  rejects zero bytes is taken for unset and skipped.\<close>

lemma del_min_loop_reject:
  assumes "\<forall>i\<in>set infos. info_state i = anylise_reject \<and> del_len i \<noteq> 0"
  shows "del_min_loop infos m = Some (if m = 0 then (if infos = [] then 0 else Min (del_len ` set infos))
    else Min (insert m (del_len ` set infos)))"
  using assms
proof (induction infos arbitrary: m)
  case Nil
  then show ?case by simp
next
  case (Cons i infos)
  have "min m (del_len i) \<noteq> 0" if "m \<noteq> 0" using that Cons.prems by (simp add: min_def)
  then show ?case
    using Cons by (cases "infos = []") (auto simp: min.commute min.left_commute min.assoc)
qed

lemma del_min_loop_None:
  "del_min_loop infos m = None \<longleftrightarrow> (\<exists>i\<in>set infos. info_state i \<noteq> anylise_reject)"
  by (induction infos arbitrary: m) auto

section \<open>What the handlers answer\<close>

text \<open>The answers of handlers asked one after the other, each in the state its predecessor left. An
  empty slot rejects everything.\<close>

inductive asked ::
  "('h, 's) handler_call \<Rightarrow> u8 list \<Rightarrow> u32 \<Rightarrow> 'h option list \<Rightarrow> 's \<Rightarrow> del_info_type list \<Rightarrow> 's \<Rightarrow> bool"
  for call b n where
  asked_nobody: "asked call b n [] app [] app"
| asked_empty: "asked call b n hs app infos app' \<Longrightarrow>
    asked call b n (None # hs) app (\<lparr>info_state = anylise_reject, del_len = n\<rparr> # infos) app'"
| asked_handler: "call h app b n = Some (info, app1) \<Longrightarrow> asked call b n hs app1 infos app' \<Longrightarrow>
    asked call b n (Some h # hs) app (info # infos) app'"

lemma anylise_loop_asked:
  "asked call b n hs app infos app' \<Longrightarrow> \<forall>i\<in>set infos. info_state i \<noteq> anylise_accept \<Longrightarrow>
     anylise_loop call (hs @ rest) app b n acc = anylise_loop call rest app' b n (acc @ infos)"
proof (induction arbitrary: acc rule: asked.induct)
  case (asked_handler h app info app1 hs infos app')
  then show ?case by (simp add: asked_handler.IH)
qed simp_all

text \<open>The time since the last progress is read as a signed difference; \<open>Abs\<close> gives its magnitude.\<close>

lemma Abs_int_magnitude: "uint (Abs_int d) = \<bar>sint d\<bar>"
proof -
  have r: "- (2 ^ 31) \<le> sint d" "sint d < 2 ^ 31"
    using sint_less [of d] sint_greater_eq [of d] by simp_all
  have "Abs_int d = word_of_int \<bar>sint d\<bar>" by (simp add: Abs_int_def abs_if)
  then show ?thesis using r by (simp add: uint_word_of_int)
qed

lemma expired_magnitude: "comm_expired comm t \<longleftrightarrow> uint (ticks_out comm) < \<bar>sint (t - wait_ticks comm)\<bar>"
  by (simp add: comm_expired_def word_less_alt Abs_int_magnitude)

section \<open>The handler table\<close>

definition comm_ok :: "('h, 'p) comm_dev_type \<Rightarrow> bool" where
  "comm_ok dev \<longleftrightarrow> length (protocol_anylise_fun dev) = PROTOCOL_FUN_MAX \<and>
     protocol_num dev = of_nat (length (filter (\<lambda>s. s \<noteq> None) (protocol_anylise_fun dev)))"

lemma find_slot_Some:
  "find_slot h ss k = Some i \<Longrightarrow> k \<le> i \<and> i - k < length ss \<and> ss ! (i - k) = h \<and>
     (\<forall>j < i - k. ss ! j \<noteq> h)"
proof (induction ss arbitrary: k)
  case Nil
  then show ?case by simp
next
  case (Cons s ss)
  show ?case
  proof (cases "s = h")
    case True
    then show ?thesis using Cons.prems by simp
  next
    case False
    with Cons have "Suc k \<le> i" "i - Suc k < length ss" "ss ! (i - Suc k) = h"
      "\<forall>j < i - Suc k. ss ! j \<noteq> h" by auto
    moreover from this(1) have "i - k = Suc (i - Suc k)" by simp
    ultimately show ?thesis using False by (auto simp: less_Suc_eq_0_disj)
  qed
qed

lemma find_slot_None: "find_slot h ss k = None \<longleftrightarrow> h \<notin> set ss"
  by (induction ss arbitrary: k) auto

lemma length_filter_update:
  "i < length xs \<Longrightarrow> length (filter P (xs[i := y])) + (if P (xs ! i) then 1 else 0) =
     length (filter P xs) + (if P y then 1 else 0)"
proof (induction xs arbitrary: i)
  case Nil
  then show ?case by simp
next
  case (Cons x xs)
  then show ?case by (cases i) auto
qed

lemma comm_ok_count:
  assumes "comm_ok dev"
  shows "unat (protocol_num dev) = length (filter (\<lambda>s. s \<noteq> None) (protocol_anylise_fun dev))"
    and "length (filter (\<lambda>s. s \<noteq> None) (protocol_anylise_fun dev)) \<le> 3"
proof -
  show le: "length (filter (\<lambda>s. s \<noteq> None) (protocol_anylise_fun dev)) \<le> 3"
    using assms length_filter_le [of "\<lambda>s. s \<noteq> None" "protocol_anylise_fun dev"]
    by (simp add: comm_ok_def PROTOCOL_FUN_MAX_def)
  then show "unat (protocol_num dev) = length (filter (\<lambda>s. s \<noteq> None) (protocol_anylise_fun dev))"
    using assms by (simp add: comm_ok_def unat_of_nat take_bit_nat_eq_self)
qed

definition first_slot :: "'h option \<Rightarrow> 'h option list \<Rightarrow> nat \<Rightarrow> bool" where
  "first_slot h fs i \<longleftrightarrow> i < length fs \<and> fs ! i = h \<and> (\<forall>j < i. fs ! j \<noteq> h)"

lemma find_slot_first: "find_slot h fs 0 = Some i \<Longrightarrow> first_slot h fs i \<and> h \<in> set fs"
  using find_slot_Some [of h fs 0 i] by (auto simp: first_slot_def)

lemma slots_full:
  assumes "length fs = 3"
  shows "3 \<le> length (filter (\<lambda>s. s \<noteq> None) fs) \<longleftrightarrow> None \<notin> set fs"
proof -
  obtain x y z where "fs = [x, y, z]"
    using assms by (auto simp: numeral_eq_Suc length_Suc_conv)
  then show ?thesis by (cases x; cases y; cases z) simp_all
qed

lemma protocol_anylise_add_slot:
  assumes ok: "comm_ok dev" and h: "h \<noteq> None"
  shows "\<exists>d. protocol_anylise_add (Some dev) h = (None \<in> set (protocol_anylise_fun dev), Some d) \<and>
    comm_ok d \<and>
    (if None \<in> set (protocol_anylise_fun dev)
     then \<exists>i. first_slot None (protocol_anylise_fun dev) i \<and>
       protocol_anylise_fun d = (protocol_anylise_fun dev)[i := h]
     else d = dev)"
proof -
  define fs where "fs = protocol_anylise_fun dev"
  have len: "length fs = 3" using ok by (simp add: comm_ok_def fs_def PROTOCOL_FUN_MAX_def)
  have num: "unat (protocol_num dev) = length (filter (\<lambda>s. s \<noteq> None) fs)"
    using comm_ok_count(1) [OF ok] by (simp add: fs_def)
  have full: "unat (protocol_num dev) \<ge> PROTOCOL_FUN_MAX \<longleftrightarrow> None \<notin> set fs"
    using slots_full [OF len] by (simp add: num PROTOCOL_FUN_MAX_def)
  show ?thesis
  proof (cases "find_slot None fs 0")
    case None
    then have "None \<notin> set fs" by (simp add: find_slot_None)
    with full have "protocol_anylise_add (Some dev) h = (False, Some dev)"
      by (simp add: protocol_anylise_add_def)
    with \<open>None \<notin> set fs\<close> ok show ?thesis by (simp add: fs_def)
  next
    case (Some i)
    then have i: "first_slot None fs i" "None \<in> set fs" by (simp_all add: find_slot_first)
    define d where "d = dev\<lparr>protocol_anylise_fun := fs[i := h], protocol_num := protocol_num dev + 1\<rparr>"
    have "length (filter (\<lambda>s. s \<noteq> None) (fs[i := h])) = Suc (length (filter (\<lambda>s. s \<noteq> None) fs))"
      using length_filter_update [of i fs "\<lambda>s. s \<noteq> None" h] i(1) h by (simp add: first_slot_def)
    moreover have "protocol_num dev = of_nat (length (filter (\<lambda>s. s \<noteq> None) fs))"
      using ok by (simp add: comm_ok_def fs_def)
    ultimately have "comm_ok d"
      using len by (simp add: comm_ok_def d_def PROTOCOL_FUN_MAX_def add.commute)
    moreover have "protocol_anylise_add (Some dev) h = (True, Some d)"
      using full i(2) Some by (simp add: protocol_anylise_add_def d_def fs_def)
    moreover have "protocol_anylise_fun d = fs[i := h]" by (simp add: d_def)
    ultimately show ?thesis using i by (auto simp flip: fs_def)
  qed
qed

lemma protocol_anylise_del_slot:
  assumes ok: "comm_ok dev" and h: "h \<noteq> None"
  shows "\<exists>d. protocol_anylise_del (Some dev) h =
      (h \<in> set (protocol_anylise_fun dev) \<or> protocol_num dev = 0, Some d) \<and> comm_ok d \<and>
    (if h \<in> set (protocol_anylise_fun dev)
     then \<exists>i. first_slot h (protocol_anylise_fun dev) i \<and>
       protocol_anylise_fun d = (protocol_anylise_fun dev)[i := None]
     else d = dev)"
proof -
  define fs where "fs = protocol_anylise_fun dev"
  have len: "length fs = 3" using ok by (simp add: comm_ok_def fs_def PROTOCOL_FUN_MAX_def)
  have num: "protocol_num dev = of_nat (length (filter (\<lambda>s. s \<noteq> None) fs))"
    using ok by (simp add: comm_ok_def fs_def)
  have unum: "unat (protocol_num dev) = length (filter (\<lambda>s. s \<noteq> None) fs)"
    using comm_ok_count(1) [OF ok] by (simp add: fs_def)
  show ?thesis
  proof (cases "find_slot h fs 0")
    case None
    then have "h \<notin> set fs" by (simp add: find_slot_None)
    moreover have "protocol_anylise_del (Some dev) h = (protocol_num dev = 0, Some dev)"
      using None by (simp add: protocol_anylise_del_def fs_def)
    ultimately show ?thesis using ok by (simp add: fs_def)
  next
    case (Some i)
    then have i: "first_slot h fs i" "h \<in> set fs" by (simp_all add: find_slot_first)
    define d where "d = dev\<lparr>protocol_anylise_fun := fs[i := None], protocol_num := protocol_num dev - 1\<rparr>"
    have upd: "length (filter (\<lambda>s. s \<noteq> None) fs) = Suc (length (filter (\<lambda>s. s \<noteq> None) (fs[i := None])))"
      using length_filter_update [of i fs "\<lambda>s. s \<noteq> None" None] i(1) h by (simp add: first_slot_def)
    then have nz: "protocol_num dev \<noteq> 0" using unum by (metis nat.distinct(1) unat_0)
    have "protocol_num d = of_nat (length (filter (\<lambda>s. s \<noteq> None) (fs[i := None])))"
      using num upd by (simp add: d_def)
    then have "comm_ok d" using len by (simp add: comm_ok_def d_def PROTOCOL_FUN_MAX_def)
    moreover have "protocol_anylise_del (Some dev) h = (True, Some d)"
      using nz Some by (simp add: protocol_anylise_del_def d_def fs_def)
    moreover have "protocol_anylise_fun d = fs[i := None]" by (simp add: d_def)
    ultimately show ?thesis using i by (auto simp flip: fs_def)
  qed
qed

section \<open>Any number of rounds\<close>

text \<open>Handlers may fault: the scanners of the firmware read behind the buffer when it ends in head
  bytes. A round, and any number of rounds, that does not fault keeps the ring well formed and the
  device attached to it, whatever well-formed ring the producers leave between the rounds and whatever
  the clock reads.\<close>

lemma ring_round_keeps:
  assumes ok: "ring_ok ring" and port: "comm_port ring_recv DelDataFromBuf ClearDateFromBuf comm"
    and run: "protocol_anylise_process call t1 t2 comm ring app = Some (comm', ring', app')"
  shows "ring_ok ring' \<and> comm_port ring_recv DelDataFromBuf ClearDateFromBuf comm'"
proof -
  define n where "n = min (unat (comm_buf_len comm)) (length (ring_list ring))"
  define b where "b = take n (ring_list ring) @ drop n (comm_buf comm)"
  have un: "unat (of_nat n :: u32) = n"
    using ring.of_nat_received [of n "comm_buf_len comm"] by (simp add: n_def)
  have len: "length b = length (comm_buf comm)" using port by (simp add: b_def n_def comm_port_def)
  have recv: "dev_recv comm ring (comm_buf comm) (comm_buf_len comm) False = Some (of_nat n, b, ring)"
    using ring.recv_peeks [OF ok, of "comm_buf_len comm" "comm_buf comm" n] port
    by (simp add: comm_port_def n_def b_def)
  have keeps: "comm_port ring_recv DelDataFromBuf ClearDateFromBuf (comm\<lparr>comm_buf := b, wait_ticks := w\<rparr>)" for w
    using port len by (simp add: comm_port_def)
  show ?thesis
  proof (cases "n = 0")
    case True
    then show ?thesis using run recv ok keeps by (auto simp: protocol_anylise_process_def)
  next
    case False
    then have "(of_nat n :: u32) \<noteq> 0" using un by (metis unat_0)
    with run recv obtain v app1 where
        v: "anylise_loop call (protocol_anylise_fun comm) app b (of_nat n) [] = Some (v, app1)"
      by (cases "anylise_loop call (protocol_anylise_fun comm) app b (of_nat n) []")
         (auto simp: protocol_anylise_process_def Let_def)
    have "0 < n" using False by simp
    from ring.process_round [OF ok port n_def this b_def v, of t1 t2] run keeps show ?thesis by auto
  qed
qed

lemma protocol_thread_keeps_ring:
  assumes "ring_ok ring" and "comm_port ring_recv DelDataFromBuf ClearDateFromBuf comm"
    and "\<forall>(env, t1, t2)\<in>set rounds. \<forall>r. ring_ok r \<longrightarrow> ring_ok (env r)"
    and "protocol_anylise_thread_entry call rounds comm ring app = Some (comm', ring', app')"
  shows "ring_ok ring' \<and> comm_port ring_recv DelDataFromBuf ClearDateFromBuf comm'"
  using assms
proof (induction rounds arbitrary: comm ring app)
  case (Cons r rounds)
  obtain env t1 t2 where r: "r = (env, t1, t2)" by (cases r)
  then have env: "ring_ok (env ring)" using Cons.prems by simp
  from Cons.prems(4) r obtain comm1 ring1 app1
    where 1: "protocol_anylise_process call t1 t2 comm (env ring) app = Some (comm1, ring1, app1)"
      "protocol_anylise_thread_entry call rounds comm1 ring1 app1 = Some (comm', ring', app')"
    by (auto split: bind_splits)
  with Cons.IH [OF _ _ _ 1(2)] ring_round_keeps [OF env Cons.prems(2) 1(1)] Cons.prems(3) show ?case by simp
qed simp

section \<open>Properties\<close>

text \<open>C30: the handler table keeps its count. On a well-formed device, adding a handler succeeds
  exactly when a slot is free, and then fills the first free slot; removing a registered handler
  frees the first slot that holds it; removing one that is not registered changes nothing (and
  reports success only when the table is empty). Each result is again well formed.\<close>

theorem protocol_handler_table:
  assumes "comm_ok dev" and "h \<noteq> None"
  shows "(\<exists>d. protocol_anylise_add (Some dev) h = (None \<in> set (protocol_anylise_fun dev), Some d) \<and>
      comm_ok d \<and>
      (if None \<in> set (protocol_anylise_fun dev)
       then \<exists>i. first_slot None (protocol_anylise_fun dev) i \<and>
         protocol_anylise_fun d = (protocol_anylise_fun dev)[i := h]
       else d = dev)) \<and>
    (\<exists>d. protocol_anylise_del (Some dev) h =
        (h \<in> set (protocol_anylise_fun dev) \<or> protocol_num dev = 0, Some d) \<and> comm_ok d \<and>
      (if h \<in> set (protocol_anylise_fun dev)
       then \<exists>i. first_slot h (protocol_anylise_fun dev) i \<and>
         protocol_anylise_fun d = (protocol_anylise_fun dev)[i := None]
       else d = dev))"
  using protocol_anylise_add_slot [OF assms] protocol_anylise_del_slot [OF assms] by blast

definition sample_comm :: "(nat, RingBufType) comm_dev_type" where
  "sample_comm = \<lparr>comm_name = ''CAN500T'', comm_buf = [0, 0, 0, 0], comm_buf_len = 4,
     dev_recv = ReadDataFromBuf, dev_del = DelDataFromBuf, dev_clear = ClearDateFromBuf,
     dev_send = None, ticks_out = 1000, protocol_anylise_fun = [Some 7, None, None],
     protocol_num = 1, comm_tid = None, wait_ticks = 0\<rparr>"

theorem protocol_handler_table_witness:
  "fst (protocol_anylise_add (Some sample_comm) (Some 8)) \<and>
   \<not> fst (protocol_anylise_del (Some sample_comm) (Some 8))"
proof -
  have "comm_ok sample_comm" by (simp add: comm_ok_def sample_comm_def PROTOCOL_FUN_MAX_def)
  from protocol_handler_table [OF this, of "Some 8"] show ?thesis
    by (auto simp: sample_comm_def)
qed

text \<open>C8: one round of the polling thread on a well-formed ring with pending bytes. The registered
  handlers are asked in the order of their slots with the oldest pending bytes.
  (1) When some of them have been asked without accepting and the next one accepts \<open>k\<close> bytes, no later
  handler is asked, the \<open>k\<close> oldest bytes are deleted and the clock is noted.
  (2) When all have been asked and all reject, each a positive number of bytes, the least of
  these numbers is deleted and the clock is noted.
  (3) When all have been asked, none accepts and one of them waits, nothing changes, unless the clock
  has moved away from the noted one by more than the time of the device: then all pending bytes are
  deleted and the clock is noted.
  In each case the ring stays well formed.\<close>

theorem protocol_round_on_ring:
  assumes "ring_ok ring" and "comm_port ring_recv DelDataFromBuf ClearDateFromBuf comm"
    and "n = min (unat (comm_buf_len comm)) (ring_count ring)" and "0 < n"
    and "b = take n (ring_list ring) @ drop n (comm_buf comm)"
  shows "(\<forall>before h after infos app1 k app2. protocol_anylise_fun comm = before @ Some h # after \<longrightarrow>
      asked call b (of_nat n) before app infos app1 \<longrightarrow> (\<forall>i\<in>set infos. info_state i \<noteq> anylise_accept) \<longrightarrow>
      call h app1 b (of_nat n) = Some (\<lparr>info_state = anylise_accept, del_len = k\<rparr>, app2) \<longrightarrow>
      (\<exists>ring'. protocol_anylise_process call t1 t2 comm ring app =
          Some (comm\<lparr>comm_buf := b, wait_ticks := t1\<rparr>, ring', app2) \<and>
        ring_ok ring' \<and> ring_list ring' = drop (unat k) (ring_list ring))) \<and>
    (\<forall>infos app'. asked call b (of_nat n) (protocol_anylise_fun comm) app infos app' \<longrightarrow> infos \<noteq> [] \<longrightarrow>
      (\<forall>i\<in>set infos. info_state i = anylise_reject \<and> 0 < del_len i) \<longrightarrow>
      (\<exists>ring'. protocol_anylise_process call t1 t2 comm ring app =
          Some (comm\<lparr>comm_buf := b, wait_ticks := t1\<rparr>, ring', app') \<and>
        ring_ok ring' \<and> ring_list ring' = drop (unat (Min (del_len ` set infos))) (ring_list ring))) \<and>
    (\<forall>infos app'. asked call b (of_nat n) (protocol_anylise_fun comm) app infos app' \<longrightarrow>
      (\<forall>i\<in>set infos. info_state i \<noteq> anylise_accept) \<longrightarrow> (\<exists>i\<in>set infos. info_state i = anylise_waiting) \<longrightarrow>
      (if uint (ticks_out comm) < \<bar>sint (t1 - wait_ticks comm)\<bar>
       then \<exists>ring'. protocol_anylise_process call t1 t2 comm ring app =
           Some (comm\<lparr>comm_buf := b, wait_ticks := t2\<rparr>, ring', app') \<and> ring_ok ring' \<and> ring_list ring' = []
       else protocol_anylise_process call t1 t2 comm ring app = Some (comm\<lparr>comm_buf := b\<rparr>, ring, app')))"
proof (intro conjI allI impI)
  have n: "n = min (unat (comm_buf_len comm)) (length (ring_list ring))" using assms(3) by simp
  note exact = ring.process_round_exact [OF assms(1,2) n assms(4,5), where call = call and app = app and ?t1.0 = t1 and ?t2.0 = t2]
  { fix before h after infos app1 k app2
    assume a: "protocol_anylise_fun comm = before @ Some h # after" "asked call b (of_nat n) before app infos app1"
      "\<forall>i\<in>set infos. info_state i \<noteq> anylise_accept"
      "call h app1 b (of_nat n) = Some (\<lparr>info_state = anylise_accept, del_len = k\<rparr>, app2)"
    have "anylise_loop call (protocol_anylise_fun comm) app b (of_nat n) [] = Some (Inl k, app2)"
      unfolding a(1) anylise_loop_asked [OF a(2,3)] using a(4) by simp
    from exact [OF this] show "\<exists>ring'. protocol_anylise_process call t1 t2 comm ring app =
          Some (comm\<lparr>comm_buf := b, wait_ticks := t1\<rparr>, ring', app2) \<and>
        ring_ok ring' \<and> ring_list ring' = drop (unat k) (ring_list ring)"
      by (auto simp: noted_def remaining_def) }
  { fix infos app'
    assume a: "asked call b (of_nat n) (protocol_anylise_fun comm) app infos app'" "infos \<noteq> []"
      "\<forall>i\<in>set infos. info_state i = anylise_reject \<and> 0 < del_len i"
    have "anylise_loop call (protocol_anylise_fun comm) app b (of_nat n) [] = Some (Inr infos, app')"
      using anylise_loop_asked [OF a(1), of "[]" "[]"] a(3) by auto
    moreover have "del_min_loop infos 0 = Some (Min (del_len ` set infos))"
      using del_min_loop_reject [of infos 0] a(2,3) by (simp add: word_gt_0)
    ultimately show "\<exists>ring'. protocol_anylise_process call t1 t2 comm ring app =
          Some (comm\<lparr>comm_buf := b, wait_ticks := t1\<rparr>, ring', app') \<and>
        ring_ok ring' \<and> ring_list ring' = drop (unat (Min (del_len ` set infos))) (ring_list ring)"
      using exact [of "Inr infos" app'] by (auto simp: noted_def remaining_def) }
  { fix infos app'
    assume a: "asked call b (of_nat n) (protocol_anylise_fun comm) app infos app'"
      "\<forall>i\<in>set infos. info_state i \<noteq> anylise_accept" "\<exists>i\<in>set infos. info_state i = anylise_waiting"
    have l: "anylise_loop call (protocol_anylise_fun comm) app b (of_nat n) [] = Some (Inr infos, app')"
      using anylise_loop_asked [OF a(1,2), of "[]" "[]"] by simp
    have m: "del_min_loop infos 0 = None" using a(3) unfolding del_min_loop_None by force
    show "if uint (ticks_out comm) < \<bar>sint (t1 - wait_ticks comm)\<bar>
       then \<exists>ring'. protocol_anylise_process call t1 t2 comm ring app =
           Some (comm\<lparr>comm_buf := b, wait_ticks := t2\<rparr>, ring', app') \<and> ring_ok ring' \<and> ring_list ring' = []
       else protocol_anylise_process call t1 t2 comm ring app = Some (comm\<lparr>comm_buf := b\<rparr>, ring, app')"
      using exact [OF l] m unfolding expired_magnitude [symmetric] by (auto simp: noted_def remaining_def) }
qed

theorem protocol_round_on_ring_witness:
  "\<exists>ring'. protocol_anylise_process
       (\<lambda>h app b len. Some (\<lparr>info_state = anylise_accept, del_len = 2\<rparr>, app + h)) 5 6
       sample_comm ring_sample 100 =
     Some (sample_comm\<lparr>comm_buf := [10, 20, 30, 0], wait_ticks := 5\<rparr>, ring', 107) \<and>
     ring_list ring' = [30]"
proof -
  let ?call = "\<lambda>h app b len. Some (\<lparr>info_state = anylise_accept, del_len = 2\<rparr>, app + h)"
  have c: "ring_count ring_sample = 3" by (simp add: ring_sample_def ring_count_def)
  have port: "comm_port ring_recv DelDataFromBuf ClearDateFromBuf sample_comm"
    by (simp add: comm_port_def sample_comm_def ring_recv_def)
  have n: "3 = min (unat (comm_buf_len sample_comm)) (ring_count ring_sample)" by (simp add: c sample_comm_def)
  have b: "[10, 20, 30, 0] = take 3 (ring_list ring_sample) @ drop 3 (comm_buf sample_comm)"
    by (simp add: ring_sample_list sample_comm_def)
  have f: "protocol_anylise_fun sample_comm = [] @ Some 7 # [None, None]" by (simp add: sample_comm_def)
  from protocol_round_on_ring [OF ring_sample_ok port n _ b, of ?call 100 5 6, THEN conjunct1,
      rule_format, OF _ f asked_nobody]
  show ?thesis by (auto simp: ring_sample_list)
qed

end
