(* ===== verification/Frame_Scan.thy ===== *)
theory Frame_Scan
  imports Protocol_Frame Checksum
begin

text \<open>
  The frame scanner shared, line for line, by \<open>can500_protocol_anylise\<close>
  (general_app/can_ota_protocol.c), \<open>UART_OTA_Protocol_Anylise\<close> (general_app/uart_ota_protocol.c)
  and the bootloader. A frame is: head, 16-bit little-endian total length, payload, byte sum of
  everything between head and sum, tail. The buffer \<open>b\<close> is the whole analysis buffer of the
  device; only its first \<open>len\<close> bytes were received this round, the rest is left over from earlier
  rounds. \<open>None\<close> is an access behind the buffer. Positions are naturals below the size of an
  object in memory; the differences \<open>len - i\<close> are taken at 32 bits, as in the code.
\<close>

datatype scan_result = Scan_info del_info_type | Scan_frame nat u32

function next_head :: "u8 \<Rightarrow> u8 list \<Rightarrow> nat \<Rightarrow> nat \<Rightarrow> nat option" where
  "next_head hed b len i =
     (if i < len then do {
        x \<leftarrow> rd b i;
        if x = hed then Some i else next_head hed b len (i + 1)
      }
      else Some i)"
  by pat_completeness auto
termination by (relation "measure (\<lambda>(hed, b, len, i). len - i)") auto

declare next_head.simps [simp del]

lemma next_head_ge: "next_head hed b len i = Some k \<Longrightarrow> i \<le> k"
proof (induction hed b len i rule: next_head.induct)
  case (1 hed b len i)
  from 1(2) show ?case
    by (subst (asm) next_head.simps)
       (auto simp: rd_eq_Some_iff split: if_splits bind_splits dest: 1(1))
qed

function frame_scan :: "u8 \<Rightarrow> u8 \<Rightarrow> u32 \<Rightarrow> u32 \<Rightarrow> u8 list \<Rightarrow> u32 \<Rightarrow> nat \<Rightarrow> scan_result option" where
  "frame_scan hed tal mn mx b len i = do {
     x \<leftarrow> rd b i;
     if x \<noteq> hed then do {
       k \<leftarrow> next_head hed b (unat len) (i + 1);
       if len - of_nat k \<ge> mn then frame_scan hed tal mn mx b len k
       else Some (Scan_info \<lparr>info_state = anylise_reject, del_len = of_nat k\<rparr>)
     }
     else do {
       h \<leftarrow> rd b (i + 2);
       l \<leftarrow> rd b (i + 1);
       let data_len = push_bit 8 (ucast h) + ucast l;
       if data_len > mx \<or> data_len < mn then frame_scan hed tal mn mx b len (i + 1)
       else if len - of_nat i < data_len
       then Some (Scan_info
         (if i = 0 then \<lparr>info_state = anylise_waiting, del_len = 0\<rparr>
          else \<lparr>info_state = anylise_reject, del_len = of_nat i\<rparr>))
       else do {
         t \<leftarrow> rd b (i + unat data_len - 1);
         valid \<leftarrow> (if t = tal then do {
             s \<leftarrow> rd b (i + unat data_len - 2);
             c \<leftarrow> Get_Sum8 (drop (i + 1) b) (data_len - 3);
             Some (s = c)
           }
           else Some False);
         if valid then Some (Scan_frame i data_len)
         else frame_scan hed tal mn mx b len (i + 1)
       }
     }
   }"
  by pat_completeness auto
termination
  by (relation "measure (\<lambda>(hed, tal, mn, mx, b, len, i). length b - i)")
     (auto simp: rd_eq_Some_iff dest!: next_head_ge)

declare frame_scan.simps [simp del]

section \<open>What counts as a frame\<close>

text \<open>The length field of a header at \<open>j\<close>, the check of a complete frame, and the positions the
  scanner must not skip: a header with a legal length whose frame is either incomplete or
  correct.\<close>

definition claimed :: "u8 list \<Rightarrow> nat \<Rightarrow> nat" where
  "claimed b j = unat (b ! (j + 1)) + 256 * unat (b ! (j + 2))"

definition checked :: "u8 \<Rightarrow> u8 list \<Rightarrow> nat \<Rightarrow> nat \<Rightarrow> bool" where
  "checked tal b j n \<longleftrightarrow> b ! (j + n - 1) = tal \<and>
     b ! (j + n - 2) = sum_list (take (n - 3) (drop (j + 1) b))"

definition header_at :: "u8 \<Rightarrow> u32 \<Rightarrow> u32 \<Rightarrow> u8 list \<Rightarrow> nat \<Rightarrow> bool" where
  "header_at hed mn mx b j \<longleftrightarrow> b ! j = hed \<and> unat mn \<le> claimed b j \<and> claimed b j \<le> unat mx"

definition frame_at :: "u8 \<Rightarrow> u8 \<Rightarrow> u32 \<Rightarrow> u32 \<Rightarrow> u8 list \<Rightarrow> nat \<Rightarrow> nat \<Rightarrow> bool" where
  "frame_at hed tal mn mx b len j \<longleftrightarrow> header_at hed mn mx b j \<and> j + claimed b j \<le> len \<and>
     checked tal b j (claimed b j)"

definition partial_at :: "u8 \<Rightarrow> u32 \<Rightarrow> u32 \<Rightarrow> u8 list \<Rightarrow> nat \<Rightarrow> nat \<Rightarrow> bool" where
  "partial_at hed mn mx b len j \<longleftrightarrow> j + 3 \<le> len \<and> header_at hed mn mx b j \<and> len < j + claimed b j"

lemma claimed_less: "claimed b j < 65536"
proof -
  have "unat (b ! (j + 1)) < 256" "unat (b ! (j + 2)) < 256" by (rule unat_less_u8)+
  then show ?thesis by (simp add: claimed_def)
qed

lemma claimed_word:
  "unat (push_bit 8 (ucast (b ! (j + 2))) + ucast (b ! (j + 1)) :: u32) = claimed b j"
proof -
  have "(push_bit 8 (ucast (b ! (j + 2))) + ucast (b ! (j + 1)) :: u32) = of_nat (claimed b j)"
    by (simp add: claimed_def push_bit_eq_mult mult.commute add.commute)
  also have "unat \<dots> = claimed b j"
    using claimed_less [of b j] by (simp only: unat_of_nat_u32) simp
  finally show ?thesis .
qed

lemma Get_Sum8_sum: "unat n \<le> length d \<Longrightarrow> Get_Sum8 d n = Some (sum_list (take (unat n) d))"
proof -
  assume "unat n \<le> length d"
  then have "Get_Sum8 d n = Some (foldl (+) 0 (take (unat n) d))"
    unfolding Get_Sum8_def by (subst for_bytes_foldl) simp_all
  moreover have "foldl (+) s xs = s + sum_list xs" for s :: u8 and xs
    by (induction xs arbitrary: s) (simp_all add: add.assoc)
  ultimately show ?thesis by simp
qed

lemma next_head_finds:
  "i \<le> len \<Longrightarrow> len \<le> length b \<Longrightarrow> \<exists>k. next_head hed b len i = Some k \<and> i \<le> k \<and> k \<le> len \<and>
     (\<forall>j. i \<le> j \<and> j < k \<longrightarrow> b ! j \<noteq> hed) \<and> (k < len \<longrightarrow> b ! k = hed)"
proof (induction "len - i" arbitrary: i)
  case 0
  then show ?case by (subst next_head.simps) auto
next
  case (Suc d)
  then have i: "i < len" by simp
  show ?case
  proof (cases "b ! i = hed")
    case True
    then show ?thesis using i Suc.prems by (subst next_head.simps) (auto simp: rd_Some)
  next
    case False
    have "d = len - (i + 1)" "i + 1 \<le> len" using Suc.hyps(2) i by simp_all
    with Suc.hyps(1) Suc.prems(2) obtain k where k: "next_head hed b len (i + 1) = Some k"
        "i + 1 \<le> k" "k \<le> len" "\<forall>j. i + 1 \<le> j \<and> j < k \<longrightarrow> b ! j \<noteq> hed" "k < len \<longrightarrow> b ! k = hed"
      by blast
    have "next_head hed b len i = Some k"
      using i False Suc.prems(2) k(1) by (subst next_head.simps) (simp add: rd_Some)
    moreover have "\<forall>j. i \<le> j \<and> j < k \<longrightarrow> b ! j \<noteq> hed"
      using k(4) False by (metis Suc_eq_plus1 Suc_leI le_neq_implies_less)
    ultimately show ?thesis using k(2,3,5) by auto
  qed
qed

section \<open>The scanner on received bytes\<close>

text \<open>The verdict of a scan from \<open>i\<close>: nothing between \<open>i\<close> and the reported position is a correct
  frame or the start of an incomplete one.\<close>

definition skipped :: "u8 \<Rightarrow> u8 \<Rightarrow> u32 \<Rightarrow> u32 \<Rightarrow> u8 list \<Rightarrow> nat \<Rightarrow> nat \<Rightarrow> nat \<Rightarrow> bool" where
  "skipped hed tal mn mx b len i k \<longleftrightarrow> (\<forall>j. i \<le> j \<and> j < k \<longrightarrow>
     \<not> frame_at hed tal mn mx b len j \<and> \<not> partial_at hed mn mx b len j)"

definition scan_verdict ::
  "u8 \<Rightarrow> u8 \<Rightarrow> u32 \<Rightarrow> u32 \<Rightarrow> u8 list \<Rightarrow> nat \<Rightarrow> nat \<Rightarrow> scan_result \<Rightarrow> bool" where
  "scan_verdict hed tal mn mx b len i r \<longleftrightarrow>
     (case r of
        Scan_frame k n \<Rightarrow> i \<le> k \<and> frame_at hed tal mn mx b len k \<and> unat n = claimed b k \<and>
          skipped hed tal mn mx b len i k
      | Scan_info info \<Rightarrow>
          (case info_state info of
             anylise_waiting \<Rightarrow> i = 0 \<and> del_len info = 0 \<and> header_at hed mn mx b 0 \<and> len < claimed b 0
           | anylise_reject \<Rightarrow> 0 < unat (del_len info) \<and> i \<le> unat (del_len info) \<and>
               unat (del_len info) \<le> len \<and> skipped hed tal mn mx b len i (unat (del_len info))
           | anylise_accept \<Rightarrow> False))"

lemma skipped_trans:
  "skipped hed tal mn mx b len i k \<Longrightarrow> skipped hed tal mn mx b len k m \<Longrightarrow> skipped hed tal mn mx b len i m"
  by (meson linorder_not_less skipped_def)

lemma skipped_no_head:
  "(\<And>j. i \<le> j \<Longrightarrow> j < k \<Longrightarrow> b ! j \<noteq> hed) \<Longrightarrow> skipped hed tal mn mx b len i k"
  by (auto simp: skipped_def frame_at_def partial_at_def header_at_def)

lemma scan_verdict_later:
  "scan_verdict hed tal mn mx b len k r \<Longrightarrow> i < k \<Longrightarrow> skipped hed tal mn mx b len i k \<Longrightarrow>
     scan_verdict hed tal mn mx b len i r"
  by (auto simp: scan_verdict_def split: scan_result.splits anylise_state.splits
      intro: skipped_trans)

lemma unat_len_minus:
  assumes "k \<le> unat (len :: u32)"
  shows "unat (len - of_nat k) = unat len - k"
proof -
  have "k < 2 ^ 32" using assms unat_less_u32 [of len] by simp
  then have "unat (of_nat k :: u32) = k" by (simp add: unat_of_nat take_bit_nat_eq_self)
  then show ?thesis using assms by (simp add: unat_sub word_le_nat_alt)
qed

lemma frame_scan_head:
  assumes "b ! i = hed" and "i + 2 < length b" and "i < unat len" and "3 \<le> unat mn"
    and "unat len \<le> length b"
  shows "frame_scan hed tal mn mx b len i =
    (if header_at hed mn mx b i then
       if unat len < i + claimed b i then Some (Scan_info
         (if i = 0 then \<lparr>info_state = anylise_waiting, del_len = 0\<rparr>
          else \<lparr>info_state = anylise_reject, del_len = of_nat i\<rparr>))
       else if checked tal b i (claimed b i) then Some (Scan_frame i (of_nat (claimed b i)))
       else frame_scan hed tal mn mx b len (i + 1)
     else frame_scan hed tal mn mx b len (i + 1))"
proof -
  define c where "c = claimed b i"
  define w :: u32 where "w = push_bit 8 (ucast (b ! (i + 2))) + ucast (b ! (i + 1))"
  have w: "unat w = c" unfolding w_def c_def by (rule claimed_word)
  then have w_c: "w = of_nat c" by (metis of_nat_unat ucast_id)
  have legal: "(w > mx \<or> w < mn) = (\<not> header_at hed mn mx b i)"
    using assms(1) w by (auto simp: header_at_def word_less_nat_alt c_def)
  have wait: "(len - of_nat i < w) = (unat len < i + c)"
    using assms(3) w by (simp add: word_less_nat_alt unat_len_minus less_diff_conv2) linarith
  have start: "frame_scan hed tal mn mx b len i =
    (if w > mx \<or> w < mn then frame_scan hed tal mn mx b len (i + 1)
       else if len - of_nat i < w
       then Some (Scan_info
         (if i = 0 then \<lparr>info_state = anylise_waiting, del_len = 0\<rparr>
          else \<lparr>info_state = anylise_reject, del_len = of_nat i\<rparr>))
       else do {
         t \<leftarrow> rd b (i + unat w - 1);
         valid \<leftarrow> (if t = tal then do {
             s \<leftarrow> rd b (i + unat w - 2);
             c \<leftarrow> Get_Sum8 (drop (i + 1) b) (w - 3);
             Some (s = c)
           }
           else Some False);
         if valid then Some (Scan_frame i w)
         else frame_scan hed tal mn mx b len (i + 1)
       })"
  proof -
    have "rd b i = Some hed" "rd b (i + 2) = Some (b ! (i + 2))" "rd b (i + 1) = Some (b ! (i + 1))"
      using assms(1,2) by (simp_all add: rd_Some)
    then show ?thesis
      by (subst frame_scan.simps)
         (simp only: Option.bind.bind_lunit Let_def simp_thms if_False w_def [symmetric])
  qed
  show ?thesis
  proof (cases "header_at hed mn mx b i \<and> \<not> unat len < i + c")
    case False
    then show ?thesis unfolding start legal wait c_def by auto
  next
    case True
    then have c: "3 \<le> c" "i + c \<le> length b"
      using assms(4,5) by (auto simp: header_at_def c_def)
    have "unat (w - 3) = c - 3"
      using c(1) w by (subst unat_sub) (simp_all add: word_le_nat_alt)
    then have "Get_Sum8 (drop (i + 1) b) (w - 3) = Some (sum_list (take (c - 3) (drop (i + 1) b)))"
      using c by (subst Get_Sum8_sum) simp_all
    then have "(do {
         t \<leftarrow> rd b (i + unat w - 1);
         valid \<leftarrow> (if t = tal then do {
             s \<leftarrow> rd b (i + unat w - 2);
             c \<leftarrow> Get_Sum8 (drop (i + 1) b) (w - 3);
             Some (s = c)
           }
           else Some False);
         if valid then Some (Scan_frame i w)
         else frame_scan hed tal mn mx b len (i + 1)
       }) = (if checked tal b i c then Some (Scan_frame i w) else frame_scan hed tal mn mx b len (i + 1))"
      using c by (auto simp: w rd_Some checked_def)
    then show ?thesis
      unfolding start legal wait using True by (simp add: w_c flip: c_def)
  qed
qed

lemma frame_scan_verdict:
  assumes mn: "3 \<le> unat mn" and len: "unat len < length b"
    and last: "b ! (unat len - 1) \<noteq> hed" and i: "i < unat len"
  shows "\<exists>r. frame_scan hed tal mn mx b len i = Some r \<and>
    scan_verdict hed tal mn mx b (unat len) i r"
  using i
proof (induction "unat len - i" arbitrary: i rule: less_induct)
  case less
  define L where "L = unat len"
  have L32: "L < 2 ^ 32" using unat_less_u32 [of len] by (simp add: L_def)
  have of_nat: "unat (of_nat k :: u32) = k" if "k \<le> L" for k
    using that L32 by (simp add: unat_of_nat take_bit_nat_eq_self)
  have next_i: "\<exists>r. frame_scan hed tal mn mx b len i = Some r \<and> scan_verdict hed tal mn mx b L i r"
    if "frame_scan hed tal mn mx b len i = frame_scan hed tal mn mx b len k" "i < k" "k < L"
      "skipped hed tal mn mx b L i k" for k
  proof -
    have "unat len - k < unat len - i" "k < unat len" using that(2,3) by (simp_all add: L_def)
    then obtain r where "frame_scan hed tal mn mx b len k = Some r" "scan_verdict hed tal mn mx b L k r"
      using less.hyps [of k] by (auto simp: L_def)
    with that scan_verdict_later [of hed tal mn mx b L k r i] show ?thesis by auto
  qed
  show ?case
  proof (cases "b ! i = hed")
    case False
    obtain k where k: "next_head hed b L (i + 1) = Some k" "i + 1 \<le> k" "k \<le> L"
        "\<forall>j. i + 1 \<le> j \<and> j < k \<longrightarrow> b ! j \<noteq> hed"
      using next_head_finds [of "i + 1" L b hed] less.prems len by (auto simp: L_def)
    have sk: "skipped hed tal mn mx b L i k"
      using k(4) False by (intro skipped_no_head) (metis Suc_eq_plus1 Suc_leI le_neq_implies_less)
    have start: "frame_scan hed tal mn mx b len i =
      (if len - of_nat k \<ge> mn then frame_scan hed tal mn mx b len k
       else Some (Scan_info \<lparr>info_state = anylise_reject, del_len = of_nat k\<rparr>))"
      using False less.prems len k(1) by (subst frame_scan.simps) (simp add: rd_Some L_def)
    show ?thesis
    proof (cases "len - of_nat k \<ge> mn")
      case True
      then have "unat mn \<le> L - k" using k(3) by (simp add: word_le_nat_alt unat_len_minus L_def)
      with mn have "k < L" by simp
      with next_i [of k] start True k(2) sk show ?thesis by (simp add: L_def)
    next
      case False
      with start k(2,3) sk of_nat [of k] show ?thesis
        by (simp add: scan_verdict_def L_def)
    qed
  next
    case True
    have "i \<noteq> L - 1" using True last by (auto simp: L_def)
    then have i1: "i + 1 < L" "i + 2 < length b" using less.prems len by (auto simp: L_def)
    note step = frame_scan_head [OF True i1(2) less.prems mn less_imp_le [OF len], of tal mx]
    have sk: "skipped hed tal mn mx b L i (i + 1)"
      if "\<not> (frame_at hed tal mn mx b L i \<or> partial_at hed mn mx b L i)"
      using that by (auto simp: skipped_def le_less_Suc_eq)
    show ?thesis
    proof (cases "header_at hed mn mx b i")
      case nh: False
      then have "skipped hed tal mn mx b L i (i + 1)"
        by (intro sk) (simp add: frame_at_def partial_at_def)
      with next_i [of "i + 1"] step nh i1 show ?thesis by (simp add: L_def)
    next
      case head: True
      show ?thesis
      proof (cases "unat len < i + claimed b i")
        case True
        then have "scan_verdict hed tal mn mx b L i (Scan_info
           (if i = 0 then \<lparr>info_state = anylise_waiting, del_len = 0\<rparr>
            else \<lparr>info_state = anylise_reject, del_len = of_nat i\<rparr>))"
          using head less.prems of_nat [of i] by (auto simp: scan_verdict_def skipped_def L_def)
        then show ?thesis unfolding step using head True by (simp add: L_def)
      next
        case complete: False
        show ?thesis
        proof (cases "checked tal b i (claimed b i)")
          case True
          have "unat (of_nat (claimed b i) :: u32) = claimed b i"
            using claimed_less [of b i] by (subst unat_of_nat_u32) simp
          with True head complete step show ?thesis
            by (auto simp: scan_verdict_def frame_at_def skipped_def L_def)
        next
          case nc: False
          then have "skipped hed tal mn mx b L i (i + 1)"
            using complete by (intro sk) (auto simp: frame_at_def partial_at_def L_def)
          with next_i [of "i + 1"] step head complete nc i1 show ?thesis by (simp add: L_def)
        qed
      qed
    qed
  qed
qed

section \<open>Building frames\<close>

text \<open>A complete frame around the bytes between length field and sum.\<close>

definition mk_frame :: "u8 list \<Rightarrow> u8 list" where
  "mk_frame body = [0xFE] @ le_enc 2 (length body + 5) @ body @
     [sum_list (le_enc 2 (length body + 5) @ body), 0xBE]"

lemma length_mk_frame [simp]: "length (mk_frame body) = length body + 5"
  by (simp add: mk_frame_def)

lemma mk_frame_frame_at:
  assumes b: "b = pre @ mk_frame body @ post" and len: "length body + 5 < 65536"
    and mn: "unat mn \<le> length body + 5" "length body + 5 \<le> unat mx"
  shows "claimed b (length pre) = length body + 5"
    and "header_at 0xFE mn mx b (length pre)"
    and "checked 0xBE b (length pre) (length body + 5)"
proof -
  define n where "n = length body + 5"
  have e: "le_enc 2 n = [of_nat n, of_nat (n div 256)]" by (rule le_enc_2)
  have f: "mk_frame body = 0xFE # of_nat n # of_nat (n div 256) # body @
      [sum_list (le_enc 2 n @ body), 0xBE]"
    unfolding mk_frame_def n_def [symmetric] e by simp
  have at: "b ! (length pre + k) = mk_frame body ! k" if "k < n" for k
    using that by (simp add: b nth_append n_def)
  have b012: "b ! length pre = 0xFE" "b ! (length pre + 1) = of_nat n"
      "b ! (length pre + 2) = of_nat (n div 256)"
    using at [of 0] at [of 1] at [of 2] by (simp_all add: f n_def)
  have "n div 256 < 256" using len by (simp add: n_def less_mult_imp_div_less)
  then show c: "claimed b (length pre) = length body + 5"
    unfolding claimed_def b012 unat_of_nat_u8 n_def [symmetric] by simp
  show "header_at 0xFE mn mx b (length pre)"
    using mn b012(1) c by (simp add: header_at_def)
  have "b ! (length pre + n - 1) = 0xBE"
  proof -
    have "b ! (length pre + (n - 1)) = mk_frame body ! (n - 1)" by (rule at) (simp add: n_def)
    also have "mk_frame body ! (n - 1) = 0xBE" by (simp add: f n_def nth_append)
    finally show ?thesis by (simp add: n_def add.commute add.left_commute)
  qed
  moreover have "b ! (length pre + n - 2) = sum_list (le_enc 2 n @ body)"
  proof -
    have "b ! (length pre + (n - 2)) = mk_frame body ! (n - 2)" by (rule at) (simp add: n_def)
    also have "mk_frame body ! (n - 2) = sum_list (le_enc 2 n @ body)"
      by (simp add: f n_def nth_append nth_Cons' del: sum_list_append)
    finally show ?thesis by (simp add: n_def add.commute add.left_commute)
  qed
  moreover have "take (n - 3) (drop (length pre + 1) b) = le_enc 2 n @ body"
  proof -
    have "n - 3 = Suc (Suc (length body))" by (simp add: n_def)
    then show ?thesis by (simp add: b f e)
  qed
  ultimately show "checked 0xBE b (length pre) (length body + 5)"
    by (simp only: checked_def n_def [symmetric] simp_thms)
qed

text \<open>A frame after noise without head bytes is found at its place.\<close>

lemma frame_scan_after_noise:
  assumes b: "b = pre @ mk_frame body @ post" and pre: "0xFE \<notin> set pre"
    and mn: "3 \<le> unat mn" "unat mn \<le> length body + 5" "length body + 5 \<le> unat mx" "unat mx < 65536"
    and len: "unat len = length pre + length body + 5"
  shows "frame_scan 0xFE 0xBE mn mx b len 0 = Some (Scan_frame (length pre) (of_nat (length body + 5)))"
proof -
  have small: "length body + 5 < 65536" using mn by simp
  note fr = mk_frame_frame_at [OF b small mn(2,3)]
  have hed: "b ! length pre = 0xFE" using fr(2) by (simp add: header_at_def)
  have at: "frame_scan 0xFE 0xBE mn mx b len (length pre) =
      Some (Scan_frame (length pre) (of_nat (length body + 5)))"
    using fr len mn(1)
    by (subst frame_scan_head [OF hed]) (simp_all add: b)
  show ?thesis
  proof (cases "pre = []")
    case True
    then show ?thesis using at by simp
  next
    case False
    have noise: "b ! j \<noteq> 0xFE" if "j < length pre" for j
    proof -
      have "b ! j = pre ! j" using that by (simp add: b nth_append)
      then show ?thesis using that pre by (metis nth_mem)
    qed
    have L: "unat len \<le> length b" "1 \<le> length pre" "length pre < unat len"
      using len False by (simp_all add: b Suc_le_eq)
    then obtain k where k: "next_head 0xFE b (unat len) (0 + 1) = Some k" "1 \<le> k" "k \<le> unat len"
        "\<forall>j. 1 \<le> j \<and> j < k \<longrightarrow> b ! j \<noteq> 0xFE" "k < unat len \<longrightarrow> b ! k = 0xFE"
      using next_head_finds [of "0 + 1" "unat len" b "0xFE"] by auto
    have "k = length pre"
      using k(2,4,5) noise [of k] hed L by (metis less_le_trans linorder_neqE_nat not_less)
    moreover have "len - of_nat (length pre) \<ge> mn"
      using len mn(2) by (simp add: word_le_nat_alt unat_len_minus)
    moreover have "rd b 0 = Some (b ! 0)" "b ! 0 \<noteq> 0xFE"
      using noise [of 0] False by (simp_all add: rd_def b)
    ultimately show ?thesis
      using k(1) at by (subst frame_scan.simps) simp
  qed
qed

section \<open>The two instances and their properties\<close>

definition can500_scan :: "u8 list \<Rightarrow> u32 \<Rightarrow> scan_result option" where
  "can500_scan b len = frame_scan 0xFE 0xBE 8 1460 b len 0"

definition uart_scan :: "u8 list \<Rightarrow> u32 \<Rightarrow> scan_result option" where
  "uart_scan b len = frame_scan 0xFE 0xBE 8 1280 b len 0"

text \<open>C9: when fewer bytes than the buffer holds were received and the last of them is not a head
  byte, both scanners terminate inside the received bytes with a verdict that loses nothing: a
  reported frame is the first correct one, complete and with matching sum and tail; a rejected
  prefix is not empty, lies within the received bytes and contains neither a correct frame nor
  the beginning of an incomplete one; waiting means that the buffer starts with the header of a
  frame still incomplete.\<close>

theorem scan_verdicts:
  assumes "0 < unat len" and "unat len < length b" and "b ! (unat len - 1) \<noteq> 0xFE"
  shows "(\<exists>r. can500_scan b len = Some r \<and> scan_verdict 0xFE 0xBE 8 1460 b (unat len) 0 r) \<and>
    (\<exists>r. uart_scan b len = Some r \<and> scan_verdict 0xFE 0xBE 8 1280 b (unat len) 0 r)"
  unfolding can500_scan_def uart_scan_def
  using assms by (intro conjI frame_scan_verdict) simp_all

theorem scan_verdicts_witness:
  "\<exists>r. can500_scan [1, 2, 0xFE, 8, 0, 9, 9, 9, 9] 8 = Some r \<and>
     scan_verdict 0xFE 0xBE 8 1460 [1, 2, 0xFE, 8, 0, 9, 9, 9, 9] 8 0 r"
  using scan_verdicts [of 8 "[1, 2, 0xFE, 8, 0, 9, 9, 9, 9]"] by simp

text \<open>The scanner finds what the constructors build: a frame of legal length that follows any
  noise without head bytes, with any leftover bytes behind the received ones, is reported at its
  position with its length.\<close>

theorem scan_mk_frame_roundtrip:
  assumes "b = pre @ mk_frame body @ post" and "0xFE \<notin> set pre"
    and "3 \<le> length body" and "length body + 5 \<le> 1280"
    and "unat len = length pre + length body + 5"
  shows "can500_scan b len = Some (Scan_frame (length pre) (of_nat (length body + 5))) \<and>
    uart_scan b len = Some (Scan_frame (length pre) (of_nat (length body + 5)))"
  unfolding can500_scan_def uart_scan_def
  by (intro conjI frame_scan_after_noise [OF assms(1,2) _ _ _ _ assms(5)]; use assms(3,4) in simp)

theorem scan_mk_frame_roundtrip_witness:
  "can500_scan ([1, 2] @ mk_frame [0xA4, 1, 0] @ [0xFE]) 10 = Some (Scan_frame 2 8)"
  using scan_mk_frame_roundtrip [of _ "[1, 2]" "[0xA4, 1, 0]" "[0xFE]" 10] by simp

text \<open>The excluded case is real. A buffer of head bytes alone makes the scanner read behind the
  analysis buffer, whatever length it is given: after an illegal length field it advances without
  comparing the position with \<open>len\<close>.\<close>

theorem scan_runs_off_buffer:
  "can500_scan (replicate n 0xFE) len = None \<and> uart_scan (replicate n 0xFE) len = None"
proof -
  have "frame_scan 0xFE 0xBE 8 mx (replicate n 0xFE) len i = None" if "mx < 0xFEFE" for mx i
  proof (induction "n - i" arbitrary: i rule: less_induct)
    case less
    show ?case
    proof (cases "i + 2 < n")
      case True
      define w :: u32 where "w = push_bit 8 (ucast (0xFE :: u8)) + ucast (0xFE :: u8)"
      have "w = 0xFEFE" by (simp add: w_def)
      then have "mx < w" using that by simp
      moreover have "frame_scan 0xFE 0xBE 8 mx (replicate n 0xFE) len (i + 1) = None"
        using True by (intro less.hyps) simp
      moreover have "rd (replicate n (0xFE :: u8)) i = Some 0xFE"
        "rd (replicate n (0xFE :: u8)) (i + 2) = Some 0xFE" "rd (replicate n (0xFE :: u8)) (i + 1) = Some 0xFE"
        using True by (simp_all add: rd_def)
      ultimately show ?thesis
        by (subst frame_scan.simps)
           (simp only: Option.bind.bind_lunit Let_def simp_thms if_False if_True w_def [symmetric])
    next
      case False
      then have "rd (replicate n (0xFE :: u8)) (i + 2) = None" by (simp add: rd_def)
      moreover have "rd (replicate n (0xFE :: u8)) i \<in> {None, Some 0xFE}" by (simp add: rd_def)
      ultimately show ?thesis
        by (subst frame_scan.simps)
           (elim insertE emptyE; simp only: Option.bind.bind_lunit Option.bind.bind_lzero simp_thms if_False)
    qed
  qed
  then show ?thesis by (simp add: can500_scan_def uart_scan_def)
qed

text \<open>Nor is the end of the received bytes a boundary. Eight head bytes of noise, received on
  top of the leftovers of an earlier round, make the CAN scanner report an old frame that lies
  wholly behind the received bytes, here a restart command.\<close>

theorem scan_replays_stale_frame:
  "can500_scan ([0xFE, 0xFE, 0xFE, 0xFE, 0xFE, 0xFE, 0xFE, 0xFE] @ [0x80, 0xFF] @ mk_frame [0xA4, 1, 0]) 8 =
     Some (Scan_frame 10 8)"
proof -
  define m :: "u8 list" where "m = [0xFE, 0xFE, 0xFE, 0xFE, 0xFE, 0xFE, 0xFE, 0xFE, 0x80, 0xFF,
    0xFE, 8, 0, 0xA4, 1, 0, 0xAD, 0xBE]"
  have m: "[0xFE, 0xFE, 0xFE, 0xFE, 0xFE, 0xFE, 0xFE, 0xFE] @ [0x80, 0xFF] @ mk_frame [0xA4, 1, 0] = m"
    by (simp add: mk_frame_def le_enc_2 m_def)
  have head: "frame_scan 0xFE 0xBE 8 1460 m 8 i = frame_scan 0xFE 0xBE 8 1460 m 8 (i + 1)"
    if "rd m i = Some 0xFE" "rd m (i + 2) = Some h" "rd m (i + 1) = Some l"
      "(1460 :: u32) < push_bit 8 (ucast h) + ucast l" for i h l
    using that by (subst frame_scan.simps) (simp add: Let_def)
  have noise: "frame_scan 0xFE 0xBE 8 1460 m 8 i = frame_scan 0xFE 0xBE 8 1460 m 8 (i + 1)"
    if "rd m i = Some x" "x \<noteq> 0xFE" "8 \<le> i + 1" "(8 :: u32) \<le> 8 - of_nat (i + 1)" for i x
    using that by (subst frame_scan.simps) (simp add: next_head.simps)
  have rd_m: "rd m i = Some (m ! i)" if "i < 18" for i
    using that by (simp add: rd_def m_def)
  have heads: "\<forall>i\<in>set [0..<8]. m ! i = 0xFE \<and>
      (1460 :: u32) < push_bit 8 (ucast (m ! (i + 2))) + ucast (m ! (i + 1))"
    by (simp add: upt_rec m_def)
  have "frame_scan 0xFE 0xBE 8 1460 m 8 0 = frame_scan 0xFE 0xBE 8 1460 m 8 i" if "i \<le> 8" for i
    using that
  proof (induction i)
    case 0
    then show ?case by simp
  next
    case (Suc i)
    then have "frame_scan 0xFE 0xBE 8 1460 m 8 i = frame_scan 0xFE 0xBE 8 1460 m 8 (i + 1)"
      using heads by (intro head [OF _ rd_m rd_m]) (simp_all add: rd_m)
    with Suc show ?case by simp
  qed
  from this [of 8] have "frame_scan 0xFE 0xBE 8 1460 m 8 0 = frame_scan 0xFE 0xBE 8 1460 m 8 8"
    by simp
  also have "\<dots> = frame_scan 0xFE 0xBE 8 1460 m 8 (8 + 1)"
    by (rule noise [OF rd_m]) (simp_all add: m_def)
  also have "\<dots> = frame_scan 0xFE 0xBE 8 1460 m 8 (8 + 1 + 1)"
    by (rule noise [OF rd_m]) (simp_all add: m_def)
  also have "\<dots> = Some (Scan_frame 10 8)"
    by (subst frame_scan.simps) (simp add: rd_def m_def Get_Sum8_sum)
  finally show ?thesis unfolding m can500_scan_def .
qed

end
