(* ===== verification/Flash_Store.thy ===== *)
theory Flash_Store
  imports Byte_Data
begin

text \<open>
  \<open>drivers/flash_if.c\<close>: erasing and writing the internal flash. The flash controller and the
  vendor driver that programs it are a parameter, the record \<open>flash_hw\<close> over a device state
  \<open>'f\<close>; the locale \<open>flash_device\<close> states what the STM32F1 programming manual promises of it. The
  last section drives the vendor routines of stm32f10x_flash.c over the cell behaviour of the
  manual and shows that this device meets the locale. The diagnostic printing is left out.
\<close>

datatype FLASH_Status = FLASH_BUSY | FLASH_ERROR_PG | FLASH_ERROR_WRP | FLASH_COMPLETE | FLASH_TIMEOUT

record 'f flash_hw =
  hw_unlock :: "'f \<Rightarrow> 'f"
  hw_lock :: "'f \<Rightarrow> 'f"
  hw_clear_flag :: "'f \<Rightarrow> 'f"
  hw_wait :: "'f \<Rightarrow> FLASH_Status \<times> 'f"
  hw_erase :: "'f \<Rightarrow> u32 \<Rightarrow> FLASH_Status \<times> 'f"
  hw_word :: "'f \<Rightarrow> u32 \<Rightarrow> u32 \<Rightarrow> FLASH_Status \<times> 'f"
  hw_half :: "'f \<Rightarrow> u32 \<Rightarrow> u16 \<Rightarrow> FLASH_Status \<times> 'f"
  hw_byte :: "'f \<Rightarrow> u32 \<Rightarrow> u8"

definition FLASH_PAGE_SIZE :: u32 where "FLASH_PAGE_SIZE = 0x800"
definition FLASH_START_ADDR :: u32 where "FLASH_START_ADDR = 0x08000000"
definition FLASH_SIZE_ADDR :: u32 where "FLASH_SIZE_ADDR = 0x1FFFF7E0"
definition OTA_BIN_MAX_SIZE :: u32 where "OTA_BIN_MAX_SIZE = 52 * FLASH_PAGE_SIZE"

text \<open>Memory-mapped reads.\<close>

definition flash_bytes :: "'f flash_hw \<Rightarrow> 'f \<Rightarrow> u32 \<Rightarrow> nat \<Rightarrow> u8 list" where
  "flash_bytes hw f a n = map (\<lambda>k. hw_byte hw f (a + of_nat k)) [0..<n]"

definition Get_FlashSize :: "'f flash_hw \<Rightarrow> 'f \<Rightarrow> u16" where
  "Get_FlashSize hw f = of_nat (le_dec (flash_bytes hw f FLASH_SIZE_ADDR 2))"

text \<open>\<open>FLASH_START_ADDR + Get_FlashSize() * 1024 - pages * FLASH_PAGE_SIZE\<close>\<close>

definition flash_page_from_end :: "'f flash_hw \<Rightarrow> 'f \<Rightarrow> u32 \<Rightarrow> u32" where
  "flash_page_from_end hw f pages =
     FLASH_START_ADDR + ucast (Get_FlashSize hw f) * 1024 - pages * FLASH_PAGE_SIZE"

section \<open>The operations\<close>

definition Flash_Unlock :: "'f flash_hw \<Rightarrow> 'f \<Rightarrow> 'f" where
  "Flash_Unlock hw f = snd (hw_wait hw (hw_clear_flag hw (hw_unlock hw f)))"

definition Flash_Lock :: "'f flash_hw \<Rightarrow> 'f \<Rightarrow> 'f" where
  "Flash_Lock hw f = hw_lock hw f"

fun Flash_Erase_loop :: "'f flash_hw \<Rightarrow> 'f \<Rightarrow> u32 \<Rightarrow> nat \<Rightarrow> nat \<Rightarrow> 'f" where
  "Flash_Erase_loop hw f addr i 0 = f"
| "Flash_Erase_loop hw f addr i (Suc n) =
     Flash_Erase_loop hw (snd (hw_erase hw f (addr + of_nat i * FLASH_PAGE_SIZE))) addr (Suc i) n"

definition Flash_Erase_Page :: "'f flash_hw \<Rightarrow> 'f \<Rightarrow> u32 \<Rightarrow> u32 \<Rightarrow> u8 \<times> 'f" where
  "Flash_Erase_Page hw f addr bin_size =
     (if bin_size > OTA_BIN_MAX_SIZE \<or> bin_size = 0 then (1, f)
      else let
        f = Flash_Unlock hw f;
        page_num = (bin_size + FLASH_PAGE_SIZE - 1) div FLASH_PAGE_SIZE;
        f = Flash_Erase_loop hw f addr 0 (unat page_num)
      in (0, Flash_Lock hw f))"

text \<open>The word loop: \<open>Inl i\<close> when programming the word at offset \<open>i\<close> failed.\<close>

fun Flash_Write_loop ::
  "'f flash_hw \<Rightarrow> 'f \<Rightarrow> u32 \<Rightarrow> u8 list \<Rightarrow> nat \<Rightarrow> nat \<Rightarrow> ((u32 + unit) \<times> 'f) option" where
  "Flash_Write_loop hw f addr b i 0 = Some (Inr (), f)"
| "Flash_Write_loop hw f addr b i (Suc n) = do {
     word \<leftarrow> ArrayU8ToU32 (drop i b);
     let f = snd (hw_wait hw f);
     let r = hw_word hw f (addr + of_nat i) word;
     if fst r \<noteq> FLASH_COMPLETE then Some (Inl (of_nat i), snd r)
     else Flash_Write_loop hw (snd r) addr b (i + 4) n
   }"

text \<open>\<open>word |= buf[i + n] << (8 * n)\<close> for the bytes left over, \<open>0xFF\<close> for the others.\<close>

fun Flash_Write_tail :: "u8 list \<Rightarrow> nat \<Rightarrow> nat \<Rightarrow> nat \<Rightarrow> u32 \<Rightarrow> u32 option" where
  "Flash_Write_tail b i left 0 word = Some word"
| "Flash_Write_tail b i left (Suc m) word = do {
     let n = 4 - Suc m;
     x \<leftarrow> (if n < left then rd b (i + n) else Some 0xFF);
     Flash_Write_tail b i left m (word OR push_bit (8 * n) (ucast x))
   }"

definition Flash_Write :: "'f flash_hw \<Rightarrow> 'f \<Rightarrow> u32 \<Rightarrow> u8 list \<Rightarrow> u32 \<Rightarrow> (u32 \<times> 'f) option" where
  "Flash_Write hw f addr b len = do {
     let left_num = len mod 4;
     let len = len - left_num;
     if addr mod 4 \<noteq> 0 then Some (0, f)
     else do {
       let f = Flash_Unlock hw f;
       (r, f) \<leftarrow> Flash_Write_loop hw f addr b 0 (unat len div 4);
       (case r of
          Inl i \<Rightarrow> Some (i, Flash_Lock hw f)
        | Inr _ \<Rightarrow>
            if left_num \<noteq> 0 then do {
              word \<leftarrow> Flash_Write_tail b (unat len) (unat left_num) 4 0;
              let f = snd (hw_wait hw f);
              let s = hw_word hw f (addr + len) word;
              Some (if fst s = FLASH_COMPLETE then len + left_num else len, Flash_Lock hw (snd s))
            }
            else Some (len, Flash_Lock hw f))
     }
   }"

definition Flash_Read :: "'f flash_hw \<Rightarrow> 'f \<Rightarrow> u32 \<Rightarrow> u8 list \<Rightarrow> u32 \<Rightarrow> (u32 \<times> u8 list) option" where
  "Flash_Read hw f addr b len =
     (if unat len \<le> length b
      then Some (len, flash_bytes hw f addr (unat len) @ drop (unat len) b) else None)"

text \<open>Seven words from \<open>pData\<close> to the information page. A failure returns with the flash left
  unlocked.\<close>

fun Flash_Storage_Header_loop ::
  "'f flash_hw \<Rightarrow> 'f \<Rightarrow> u32 \<Rightarrow> u8 list \<Rightarrow> nat \<Rightarrow> nat \<Rightarrow> (bool \<times> 'f) option" where
  "Flash_Storage_Header_loop hw f addr d i 0 = Some (True, f)"
| "Flash_Storage_Header_loop hw f addr d i (Suc n) = do {
     Tem :: u32 \<leftarrow> ld 4 d (4 * i);
     let f = snd (hw_wait hw f);
     let r = hw_word hw f (addr + of_nat i * 4) Tem;
     if fst r \<noteq> FLASH_COMPLETE then Some (False, snd r)
     else Flash_Storage_Header_loop hw (snd r) addr d (Suc i) n
   }"

definition Flash_Storage_Header :: "'f flash_hw \<Rightarrow> 'f \<Rightarrow> u8 list \<Rightarrow> (u32 \<times> 'f) option" where
  "Flash_Storage_Header hw f pData = do {
     let addr_appinfo = flash_page_from_end hw f 4;
     let f = Flash_Unlock hw f;
     r \<leftarrow> Flash_Storage_Header_loop hw f addr_appinfo pData 0 7;
     Some (if fst r then (1, Flash_Lock hw (snd r)) else (0, snd r))
   }"

section \<open>The contract of the flash\<close>

text \<open>\<open>ready\<close> is the unlocked controller without pending error flags, \<open>main\<close> the addresses of
  the main array. An erased byte reads 0xFF; only erased half words may be programmed.\<close>

definition erased :: "'f flash_hw \<Rightarrow> 'f \<Rightarrow> u32 \<Rightarrow> nat \<Rightarrow> bool" where
  "erased hw f a n \<longleftrightarrow> (\<forall>k < n. hw_byte hw f (a + of_nat k) = 0xFF)"

definition put_bytes :: "(u32 \<Rightarrow> u8) \<Rightarrow> u32 \<Rightarrow> u8 list \<Rightarrow> u32 \<Rightarrow> u8" where
  "put_bytes g a bs = (\<lambda>x. if unat (x - a) < length bs then bs ! unat (x - a) else g x)"

locale flash_device =
  fixes hw :: "'f flash_hw" and ready :: "'f \<Rightarrow> bool" and main :: "u32 \<Rightarrow> bool"
  assumes unlock_ready: "ready (snd (hw_wait hw (hw_clear_flag hw (hw_unlock hw f))))"
    and unlock_byte: "hw_byte hw (hw_unlock hw f) = hw_byte hw f"
    and clear_byte: "hw_byte hw (hw_clear_flag hw f) = hw_byte hw f"
    and wait_byte: "hw_byte hw (snd (hw_wait hw f)) = hw_byte hw f"
    and lock_byte: "hw_byte hw (hw_lock hw f) = hw_byte hw f"
    and wait_ready: "ready f \<Longrightarrow> ready (snd (hw_wait hw f))"
    and erase_page: "ready f \<Longrightarrow> main a \<Longrightarrow> \<exists>f'. hw_erase hw f a = (FLASH_COMPLETE, f') \<and> ready f' \<and>
      hw_byte hw f' = (\<lambda>x. if x div FLASH_PAGE_SIZE = a div FLASH_PAGE_SIZE then 0xFF else hw_byte hw f x)"
    and program_half: "ready f \<Longrightarrow> a mod 2 = 0 \<Longrightarrow> main a \<Longrightarrow> erased hw f a 2 \<Longrightarrow>
      \<exists>f'. hw_half hw f a h = (FLASH_COMPLETE, f') \<and> ready f' \<and>
        hw_byte hw f' = put_bytes (hw_byte hw f) a (le_enc 2 (unat h))"
    and program_word: "ready f \<Longrightarrow> a mod 2 = 0 \<Longrightarrow> main a \<Longrightarrow> main (a + 2) \<Longrightarrow> erased hw f a 4 \<Longrightarrow>
      \<exists>f'. hw_word hw f a w = (FLASH_COMPLETE, f') \<and> ready f' \<and>
        hw_byte hw f' = put_bytes (hw_byte hw f) a (le_enc 4 (unat w))"
    and word_frame: "4 \<le> unat (x - a) \<Longrightarrow> hw_byte hw (snd (hw_word hw f a w)) x = hw_byte hw f x"

text \<open>Consecutive blocks.\<close>

lemma put_bytes_Nil [simp]: "put_bytes g a [] = g"
  by (simp add: put_bytes_def)

lemma unat_diff_add:
  assumes "k < 2 ^ 32"
  shows "unat (x - (a + of_nat k) :: u32) =
    (if k \<le> unat (x - a) then unat (x - a) - k else 2 ^ 32 + unat (x - a) - k)"
proof -
  have e: "x - (a + of_nat k) = (x - a) - of_nat k" by simp
  have k: "unat (of_nat k :: u32) = k" using assms by (simp add: unat_of_nat take_bit_nat_eq_self)
  show ?thesis
  proof (cases "k \<le> unat (x - a)")
    case True
    then show ?thesis using k unfolding e by (simp add: unat_sub word_le_nat_alt)
  next
    case False
    have "(2 ^ 32 + unat (x - a) - k) mod 2 ^ 32 = 2 ^ 32 + unat (x - a) - k"
      using False by (intro mod_less) simp
    moreover have "unat ((x - a) - of_nat k) = (2 ^ 32 + unat (x - a) - k) mod 2 ^ 32"
      using False k by (simp add: unat_sub_if')
    ultimately show ?thesis using False unfolding e by simp
  qed
qed

lemma put_bytes_append:
  assumes "length bs + length cs \<le> 2 ^ 32" and "cs \<noteq> []"
  shows "put_bytes (put_bytes g a bs) (a + of_nat (length bs)) cs = put_bytes g a (bs @ cs)"
proof
  fix x
  have "0 < length cs" using assms(2) by simp
  then have k: "length bs < 2 ^ 32" using assms(1) by linarith
  have d: "unat (x - a) < 2 ^ 32" using unat_less_u32 [of "x - a"] by simp
  show "put_bytes (put_bytes g a bs) (a + of_nat (length bs)) cs x = put_bytes g a (bs @ cs) x"
    using unat_diff_add [OF k, of x a] d assms(1) by (auto simp: put_bytes_def nth_append)
qed

lemma put_bytes_at:
  assumes "k < 2 ^ 32"
  shows "put_bytes g a bs (a + of_nat k) = (if k < length bs then bs ! k else g (a + of_nat k))"
proof -
  have "unat (of_nat k :: u32) = k" using assms by (simp add: unat_of_nat take_bit_nat_eq_self)
  then show ?thesis by (simp add: put_bytes_def)
qed

lemma put_bytes_pad:
  assumes "\<And>k. length bs \<le> k \<Longrightarrow> k < length bs + length cs \<Longrightarrow> g (a + of_nat k) = cs ! (k - length bs)"
    and "length bs + length cs \<le> 2 ^ 32"
  shows "put_bytes g a (bs @ cs) = put_bytes g a bs"
proof
  fix x
  have "x = a + of_nat (unat (x - a))" by simp
  then show "put_bytes g a (bs @ cs) x = put_bytes g a bs x"
    using assms(1) [of "unat (x - a)"] by (auto simp: put_bytes_def nth_append)
qed

section \<open>Words of left-over bytes\<close>

lemma or_push_bit_add:
  assumes "unat (w :: 'a::len word) < 2 ^ k"
  shows "w OR push_bit k v = w + push_bit k v"
proof -
  have "\<not> bit w n" if "k \<le> n" for n
  proof -
    have "\<not> bit (unat w) n"
      using assms that by (metis bit_take_bit_iff not_less take_bit_nat_eq_self)
    then show ?thesis by (simp add: bit_unsigned_iff)
  qed
  then have "w AND push_bit k v = 0"
    by (intro bit_word_eqI) (auto simp: bit_simps not_less)
  then show ?thesis by (rule disjunctive_add_eq_or [symmetric])
qed

lemma tail_word_step:
  assumes "w = of_nat (le_dec bs)" and "length bs = n" and "n < 4"
  shows "w OR push_bit (8 * n) (ucast (x :: u8)) = (of_nat (le_dec (bs @ [x])) :: u32)"
proof -
  have "le_dec bs < 2 ^ (8 * n)" using le_dec_less [of bs] assms(2) by (simp add: power_mult)
  moreover have "(2 :: nat) ^ (8 * n) \<le> 2 ^ 32" using assms(3) by (intro power_increasing) auto
  ultimately have "unat w < 2 ^ (8 * n)"
    unfolding assms(1) by (simp add: unat_of_nat take_bit_nat_eq_self)
  note or = or_push_bit_add [OF this, of "ucast x"]
  have p: "(2 :: u32) ^ (8 * n) = 256 ^ n" by (simp add: power_mult)
  show ?thesis
    unfolding or by (simp add: assms(1,2) le_dec_append push_bit_eq_mult p mult.commute [of "ucast x"])
qed

lemma Flash_Write_tail_word:
  assumes "0 < left" and "left < 4" and "i + left \<le> length b"
  shows "Flash_Write_tail b i left 4 0 =
    Some (of_nat (le_dec (take left (drop i b) @ replicate (4 - left) 0xFF)))"
proof -
  define y where "y n = (if n < left then b ! (i + n) else (0xFF :: u8))" for n
  have rd: "(if n < left then rd b (i + n) else Some 0xFF) = Some (y n)" for n
    using assms by (simp add: y_def rd_def)
  have "take left (drop i b) @ replicate (4 - left) 0xFF = [y 0, y 1, y 2, y 3]"
  proof (rule nth_equalityI)
    fix k assume "k < length (take left (drop i b) @ replicate (4 - left) 0xFF)"
    then have "k \<in> {0, 1, 2, 3}" using assms by auto
    then show "(take left (drop i b) @ replicate (4 - left) 0xFF) ! k = [y 0, y 1, y 2, y 3] ! k"
      using assms by (auto simp: nth_append y_def)
  qed (use assms in simp)
  moreover have "Flash_Write_tail b i left 4 0 = Some (of_nat (le_dec [y 0, y 1, y 2, y 3]))"
  proof -
    have 4: "(4 :: nat) = Suc (Suc (Suc (Suc 0)))" by simp
    have w: "0 OR push_bit (8 * 0) (ucast (y 0)) = (of_nat (le_dec ([] @ [y 0])) :: u32)"
      "of_nat (le_dec [y 0]) OR push_bit (8 * 1) (ucast (y 1)) = (of_nat (le_dec ([y 0] @ [y 1])) :: u32)"
      "of_nat (le_dec [y 0, y 1]) OR push_bit (8 * 2) (ucast (y 2)) =
         (of_nat (le_dec ([y 0, y 1] @ [y 2])) :: u32)"
      "of_nat (le_dec [y 0, y 1, y 2]) OR push_bit (8 * 3) (ucast (y 3)) =
         (of_nat (le_dec ([y 0, y 1, y 2] @ [y 3])) :: u32)"
      by (rule tail_word_step; simp)+
    have n: "4 - Suc (Suc (Suc (Suc 0))) = (0 :: nat)" "4 - Suc (Suc (Suc 0)) = (1 :: nat)"
      "4 - Suc (Suc 0) = (2 :: nat)" "4 - Suc 0 = (3 :: nat)"
      by simp_all
    show ?thesis
      unfolding 4 by (simp only: Flash_Write_tail.simps Let_def n rd Option.bind.bind_lunit w append.simps)
  qed
  ultimately show ?thesis by simp
qed

section \<open>Writing over the contract\<close>

context flash_device
begin

lemma Flash_Unlock_ready: "ready (Flash_Unlock hw f)" and Flash_Unlock_byte: "hw_byte hw (Flash_Unlock hw f) = hw_byte hw f"
  by (simp_all add: Flash_Unlock_def unlock_ready unlock_byte clear_byte wait_byte)

lemma Flash_Lock_byte: "hw_byte hw (Flash_Lock hw f) = hw_byte hw f"
  by (simp add: Flash_Lock_def lock_byte)

lemma word_even:
  assumes "(addr :: u32) mod 4 = 0" and "i mod 4 = 0"
  shows "(addr + of_nat i) mod 2 = 0"
proof (rule word_unat_eqI)
  have "unat (addr mod 4) = 0" using assms(1) by simp
  then have a: "unat addr mod 4 = 0" by (simp add: unat_mod)
  have c: "x mod 4294967296 mod 2 = x mod 2" for x :: nat by (rule mod_mod_cancel) simp
  have "unat (addr + of_nat i) = (unat addr + i mod 4294967296) mod 4294967296"
    unfolding unat_word_ariths unat_of_nat_u32 by simp
  then have "unat ((addr + of_nat i) mod 2) = (unat addr + i mod 4294967296) mod 4294967296 mod 2"
    by (simp only: unat_mod) simp
  also have "\<dots> = (unat addr + i mod 4294967296) mod 2" by (rule c)
  also have "\<dots> = (unat addr + i mod 4294967296 mod 2) mod 2" by (rule mod_add_right_eq [symmetric])
  also have "\<dots> = (unat addr + i mod 2) mod 2" by (simp only: c)
  also have "\<dots> = (unat addr + i) mod 2" by (rule mod_add_right_eq)
  also have "\<dots> = 0" using a assms(2) by presburger
  finally show "unat ((addr + of_nat i) mod 2) = unat (0 :: u32)" by simp
qed

text \<open>The word loop programs exactly the words it was given.\<close>

lemma Flash_Write_loop_programs:
  assumes "ready f" and "addr mod 4 = 0" and "i mod 4 = 0" and "i + 4 * n \<le> length b"
    and "i + 4 * n < 2 ^ 32"
    and "\<And>k. k < i + 4 * n \<Longrightarrow> main (addr + of_nat k)"
    and "\<And>k. i \<le> k \<Longrightarrow> k < i + 4 * n \<Longrightarrow> hw_byte hw f (addr + of_nat k) = 0xFF"
  shows "\<exists>f'. Flash_Write_loop hw f addr b i n = Some (Inr (), f') \<and> ready f' \<and>
    hw_byte hw f' = put_bytes (hw_byte hw f) (addr + of_nat i) (take (4 * n) (drop i b))"
  using assms
proof (induction n arbitrary: f i)
  case 0
  then show ?case by simp
next
  case (Suc n)
  define w :: u32 where "w = of_nat (le_dec (take 4 (drop i b)))"
  define bs where "bs = take 4 (drop i b)"
  have len: "length bs = 4" using Suc.prems(4) by (simp add: bs_def)
  have word: "ArrayU8ToU32 (drop i b) = Some w"
    using Suc.prems(4) by (simp add: ArrayU8ToU32_le w_def)
  have enc: "le_enc 4 (unat w) = bs"
  proof -
    have "le_dec bs < 4294967296" using le_dec_less [of bs] len by simp
    then have "unat w = le_dec bs" by (simp add: w_def bs_def [symmetric] unat_of_nat_u32)
    then show ?thesis using le_enc_dec [of bs] len by simp
  qed
  define f1 where "f1 = snd (hw_wait hw f)"
  have f1: "ready f1" "hw_byte hw f1 = hw_byte hw f"
    using Suc.prems(1) by (simp_all add: f1_def wait_ready wait_byte)
  have "erased hw f1 (addr + of_nat i) 4"
    unfolding erased_def
  proof (intro allI impI)
    fix k :: nat assume "k < 4"
    then have "hw_byte hw f (addr + of_nat (i + k)) = 0xFF" using Suc.prems(7) [of "i + k"] by simp
    then show "hw_byte hw f1 (addr + of_nat i + of_nat k) = 0xFF" by (simp add: f1 add.assoc)
  qed
  moreover have "main (addr + of_nat i)" "main (addr + of_nat i + 2)"
    using Suc.prems(6) [of i] Suc.prems(6) [of "i + 2"] by (simp_all add: ac_simps)
  ultimately obtain f2 where f2: "hw_word hw f1 (addr + of_nat i) w = (FLASH_COMPLETE, f2)" "ready f2"
      "hw_byte hw f2 = put_bytes (hw_byte hw f) (addr + of_nat i) bs"
    using program_word [OF f1(1) word_even [OF Suc.prems(2,3)], of w] by (auto simp: enc f1)
  have next_addr: "addr + of_nat (i + 4) = addr + of_nat i + of_nat (length bs)"
    by (simp add: len)
  have "\<exists>f'. Flash_Write_loop hw f2 addr b (i + 4) n = Some (Inr (), f') \<and> ready f' \<and>
    hw_byte hw f' = put_bytes (hw_byte hw f2) (addr + of_nat (i + 4)) (take (4 * n) (drop (i + 4) b))"
  proof (rule Suc.IH)
    fix k assume k: "i + 4 \<le> k" "k < i + 4 + 4 * n"
    have "hw_byte hw f2 (addr + of_nat i + of_nat (k - i)) = hw_byte hw f (addr + of_nat i + of_nat (k - i))"
      using k Suc.prems(5) len unfolding f2(3) by (subst put_bytes_at) auto
    moreover have "addr + of_nat i + of_nat (k - i) = addr + of_nat k"
      using k by simp
    ultimately show "hw_byte hw f2 (addr + of_nat k) = 0xFF" using Suc.prems(7) [of k] k by simp
  next
    show "(i + 4) mod 4 = 0" using Suc.prems(3) by simp
  qed (use f2(2) Suc.prems in auto)
  then obtain f' where f': "Flash_Write_loop hw f2 addr b (i + 4) n = Some (Inr (), f')" "ready f'"
    "hw_byte hw f' = put_bytes (hw_byte hw f2) (addr + of_nat (i + 4)) (take (4 * n) (drop (i + 4) b))"
    by blast
  have "hw_byte hw f' = put_bytes (hw_byte hw f) (addr + of_nat i) (take (4 * Suc n) (drop i b))"
  proof (cases "n = 0")
    case True
    then show ?thesis using f'(3) f2(3) by (simp add: bs_def)
  next
    case False
    define cs where "cs = take (4 * n) (drop (i + 4) b)"
    have "length bs + length cs \<le> 2 ^ 32" "cs \<noteq> []"
      using Suc.prems(4,5) False len by (auto simp: cs_def)
    then have "hw_byte hw f' = put_bytes (hw_byte hw f) (addr + of_nat i) (bs @ cs)"
      unfolding f'(3) f2(3) next_addr cs_def [symmetric] by (rule put_bytes_append)
    moreover have "take (4 * Suc n) (drop i b) = bs @ cs"
      by (simp add: bs_def cs_def take_add add.commute)
    ultimately show ?thesis by simp
  qed
  moreover have "Flash_Write_loop hw f addr b i (Suc n) = Some (Inr (), f')"
    using word f2(1) f'(1) by (simp add: f1_def [symmetric])
  ultimately show ?case using f'(2) by blast
qed

text \<open>A write to an erased, aligned area stores the block, and nothing else changes.\<close>

lemma Flash_Write_stores:
  assumes addr: "addr mod 4 = 0" and len: "unat len \<le> length b" and small: "unat len < 2 ^ 31"
    and main: "\<And>k. k < unat len + 4 \<Longrightarrow> main (addr + of_nat k)"
    and blank: "erased hw f addr (unat len + 4)"
  shows "\<exists>f'. Flash_Write hw f addr b len = Some (len, f') \<and>
    hw_byte hw f' = put_bytes (hw_byte hw f) addr (take (unat len) b)"
proof -
  define r where "r = len mod 4"
  define l where "l = len - r"
  have r4: "unat r < 4" unfolding r_def unat_mod by simp
  have rl: "unat r \<le> unat len" unfolding r_def unat_mod by simp
  then have ul: "unat l = unat len - unat r"
    unfolding l_def by (intro unat_sub) (simp add: word_le_nat_alt)
  have sum: "l + r = len" by (simp add: l_def)
  define q where "q = unat l div 4"
  have l4: "unat l = 4 * q"
  proof -
    have "unat r = unat len mod 4" by (simp add: r_def unat_mod)
    then have "unat l mod 4 = 0" using ul rl by (simp add: minus_mod_eq_mult_div)
    then show ?thesis by (simp add: q_def) presburger
  qed
  define f0 where "f0 = Flash_Unlock hw f"
  have f0: "ready f0" "hw_byte hw f0 = hw_byte hw f"
    by (simp_all add: f0_def Flash_Unlock_ready Flash_Unlock_byte)
  have FF: "hw_byte hw f (addr + of_nat k) = 0xFF" if "k < unat len + 4" for k
    using blank that by (simp add: erased_def)
  have "\<exists>f1. Flash_Write_loop hw f0 addr b 0 q = Some (Inr (), f1) \<and> ready f1 \<and>
      hw_byte hw f1 = put_bytes (hw_byte hw f0) (addr + of_nat 0) (take (4 * q) (drop 0 b))"
    by (rule Flash_Write_loop_programs) (use f0 addr len small main FF ul l4 in auto)
  then obtain f1 where f1: "Flash_Write_loop hw f0 addr b 0 q = Some (Inr (), f1)" "ready f1"
      "hw_byte hw f1 = put_bytes (hw_byte hw f) addr (take (unat l) b)"
    by (auto simp: f0 l4)
  have start: "Flash_Write hw f addr b len =
    (if r \<noteq> 0 then do {
        word \<leftarrow> Flash_Write_tail b (unat l) (unat r) 4 0;
        let g = snd (hw_wait hw f1);
        let s = hw_word hw g (addr + l) word;
        Some (if fst s = FLASH_COMPLETE then l + r else l, Flash_Lock hw (snd s))
      }
     else Some (l, Flash_Lock hw f1))"
    unfolding Flash_Write_def Let_def r_def [symmetric] l_def [symmetric] f0_def [symmetric]
      q_def [symmetric]
    using addr f1(1) by simp
  show ?thesis
  proof (cases "r = 0")
    case True
    then show ?thesis using start f1(3) sum by (auto simp: Flash_Lock_byte)
  next
    case False
    then have rpos: "0 < unat r" by (simp add: unat_gt_0)
    define bs where "bs = take (unat r) (drop (unat l) b)"
    define pad where "pad = replicate (4 - unat r) (0xFF :: u8)"
    have lb: "length bs = unat r" using ul rl len by (simp add: bs_def)
    define w :: u32 where "w = of_nat (le_dec (bs @ pad))"
    have "Flash_Write_tail b (unat l) (unat r) 4 0 = Some w"
      unfolding w_def bs_def pad_def using rpos r4 ul rl len by (intro Flash_Write_tail_word) auto
    have enc: "le_enc 4 (unat w) = bs @ pad"
    proof -
      have l4': "length (bs @ pad) = 4" using lb r4 by (simp add: pad_def)
      then have "le_dec (bs @ pad) < 4294967296" using le_dec_less [of "bs @ pad"] by simp
      then have "unat w = le_dec (bs @ pad)" unfolding w_def by (subst unat_of_nat_u32) simp
      then show ?thesis using le_enc_dec [of "bs @ pad"] unfolding l4' by simp
    qed
    define g where "g = snd (hw_wait hw f1)"
    have g: "ready g" "hw_byte hw g = hw_byte hw f1"
      by (simp_all add: g_def f1(2) wait_ready wait_byte)
    have al: "addr + l = addr + of_nat (unat l)" by simp
    have g_at: "hw_byte hw g (addr + of_nat k) = 0xFF" if "unat l \<le> k" "k < unat len + 4" for k
    proof -
      have "k < 2 ^ 32" using that small by simp
      then show ?thesis
        unfolding g(2) f1(3) using that FF [of k] ul len by (subst put_bytes_at) auto
    qed
    have er: "erased hw g (addr + l) 4"
      unfolding erased_def
    proof (intro allI impI)
      fix k :: nat assume "k < 4"
      then have "hw_byte hw g (addr + of_nat (unat l + k)) = 0xFF"
        using ul rl rpos by (intro g_at) auto
      then show "hw_byte hw g (addr + l + of_nat k) = 0xFF" by (simp add: add.assoc)
    qed
    have "unat l + 2 < unat len + 4" using ul by simp
    then have m: "main (addr + l)" "main (addr + l + 2)"
      using main [of "unat l"] main [of "unat l + 2"] by (simp_all add: add.assoc add.commute [of 2 l])
    have "unat l mod 4 = 0" by (simp add: l4)
    from word_even [OF addr this] have ev: "(addr + l) mod 2 = 0" by simp
    obtain f2 where f2: "hw_word hw g (addr + l) w = (FLASH_COMPLETE, f2)"
        "hw_byte hw f2 = put_bytes (hw_byte hw g) (addr + of_nat (unat l)) (bs @ pad)"
      using program_word [OF g(1) ev m er, of w] unfolding enc al [symmetric] by blast
    have "hw_byte hw f2 = put_bytes (hw_byte hw f) addr (take (unat l) b @ bs @ pad)"
    proof -
      have tl: "length (take (unat l) b) = unat l" using ul len by simp
      have "bs @ pad \<noteq> []" using lb rpos by auto
      moreover have "length (take (unat l) b) + length (bs @ pad) \<le> 2 ^ 32"
        using tl lb r4 ul small by (simp add: pad_def)
      ultimately show ?thesis
        using put_bytes_append [of "take (unat l) b" "bs @ pad" "hw_byte hw f" addr]
        unfolding f2(2) g(2) f1(3) tl by simp
    qed
    also have "take (unat l) b @ bs @ pad = take (unat len) b @ pad"
      using ul rl by (simp add: bs_def take_add [symmetric])
    also have "put_bytes (hw_byte hw f) addr (take (unat len) b @ pad) =
        put_bytes (hw_byte hw f) addr (take (unat len) b)"
      using FF len small r4 by (intro put_bytes_pad) (auto simp: pad_def)
    finally have "hw_byte hw (Flash_Lock hw f2) = put_bytes (hw_byte hw f) addr (take (unat len) b)"
      by (simp add: Flash_Lock_byte)
    moreover have "Flash_Write hw f addr b len = Some (len, Flash_Lock hw f2)"
      using start False \<open>Flash_Write_tail b (unat l) (unat r) 4 0 = Some w\<close> f2(1) sum
      by (simp add: g_def [symmetric])
    ultimately show ?thesis by blast
  qed
qed

text \<open>Erasing the pages of a range.\<close>

lemma Flash_Erase_loop_erases:
  assumes "ready f" and "\<And>k. k < i + n \<Longrightarrow> main (addr + of_nat k * FLASH_PAGE_SIZE)"
  shows "ready (Flash_Erase_loop hw f addr i n) \<and>
    hw_byte hw (Flash_Erase_loop hw f addr i n) =
      (\<lambda>x. if \<exists>k. i \<le> k \<and> k < i + n \<and> x div FLASH_PAGE_SIZE = (addr + of_nat k * FLASH_PAGE_SIZE) div FLASH_PAGE_SIZE
        then 0xFF else hw_byte hw f x)"
  using assms
proof (induction n arbitrary: f i)
  case 0
  then show ?case by (auto simp: fun_eq_iff)
next
  case (Suc n)
  obtain f1 where f1: "hw_erase hw f (addr + of_nat i * FLASH_PAGE_SIZE) = (FLASH_COMPLETE, f1)" "ready f1"
      "hw_byte hw f1 = (\<lambda>x. if x div FLASH_PAGE_SIZE = (addr + of_nat i * FLASH_PAGE_SIZE) div FLASH_PAGE_SIZE
         then 0xFF else hw_byte hw f x)"
    using erase_page [OF Suc.prems(1), of "addr + of_nat i * FLASH_PAGE_SIZE"] Suc.prems(2) [of i]
    by auto
  note IH = Suc.IH [OF f1(2), of "Suc i"]
  have "(\<exists>k. i \<le> k \<and> k < i + Suc n \<and> P k) \<longleftrightarrow> P i \<or> (\<exists>k. Suc i \<le> k \<and> k < Suc i + n \<and> P k)" for P
    by (metis Suc_leD Suc_leI add_Suc_right add_Suc less_add_Suc1 le_eq_less_or_eq)
  then show ?case using IH Suc.prems(2) f1(1,3) by (auto simp: fun_eq_iff simp del: of_nat_Suc)
qed

end

section \<open>The STM32F1 flash\<close>

text \<open>The controller state the manual describes: the cells, the lock of the control register and
  the sticky error flag of the status register. \<open>stm32_store\<close> is a 16-bit bus write while \<open>PG\<close> is
  set: a half word that is not erased takes only the value 0, anything else raises \<open>PGERR\<close>; with
  the register locked \<open>PG\<close> is not set and the cells do not change. The two program routines and
  the erase routine are those of the vendor driver (the branches for parts with one bank); waiting
  never meets a controller that stays busy.\<close>

record stm32f1 =
  cells :: "u32 \<Rightarrow> u8"
  cr_lock :: bool
  sr_pgerr :: bool

definition stm32_status :: "stm32f1 \<Rightarrow> FLASH_Status" where
  "stm32_status f = (if sr_pgerr f then FLASH_ERROR_PG else FLASH_COMPLETE)"

definition stm32_store :: "stm32f1 \<Rightarrow> u32 \<Rightarrow> u16 \<Rightarrow> stm32f1" where
  "stm32_store f a h =
     (if cr_lock f then f
      else if h = 0 \<or> (cells f a = 0xFF \<and> cells f (a + 1) = 0xFF)
      then f\<lparr>cells := put_bytes (cells f) a (le_enc 2 (unat h))\<rparr>
      else f\<lparr>sr_pgerr := True\<rparr>)"

definition stm32_erase :: "stm32f1 \<Rightarrow> u32 \<Rightarrow> FLASH_Status \<times> stm32f1" where
  "stm32_erase f a =
     (if stm32_status f \<noteq> FLASH_COMPLETE then (stm32_status f, f)
      else if cr_lock f then (FLASH_COMPLETE, f)
      else (FLASH_COMPLETE,
        f\<lparr>cells := (\<lambda>x. if x div FLASH_PAGE_SIZE = a div FLASH_PAGE_SIZE then 0xFF else cells f x)\<rparr>))"

definition stm32_half :: "stm32f1 \<Rightarrow> u32 \<Rightarrow> u16 \<Rightarrow> FLASH_Status \<times> stm32f1" where
  "stm32_half f a h =
     (if stm32_status f \<noteq> FLASH_COMPLETE then (stm32_status f, f)
      else let f = stm32_store f a h in (stm32_status f, f))"

definition stm32_word :: "stm32f1 \<Rightarrow> u32 \<Rightarrow> u32 \<Rightarrow> FLASH_Status \<times> stm32f1" where
  "stm32_word f a w =
     (if stm32_status f \<noteq> FLASH_COMPLETE then (stm32_status f, f)
      else let f = stm32_store f a (ucast w) in
        if stm32_status f \<noteq> FLASH_COMPLETE then (stm32_status f, f)
        else let f = stm32_store f (a + 2) (ucast (drop_bit 16 w)) in (stm32_status f, f))"

definition stm32_hw :: "stm32f1 flash_hw" where
  "stm32_hw = \<lparr>hw_unlock = (\<lambda>f. f\<lparr>cr_lock := False\<rparr>), hw_lock = (\<lambda>f. f\<lparr>cr_lock := True\<rparr>),
     hw_clear_flag = (\<lambda>f. f\<lparr>sr_pgerr := False\<rparr>), hw_wait = (\<lambda>f. (stm32_status f, f)),
     hw_erase = stm32_erase, hw_word = stm32_word, hw_half = stm32_half, hw_byte = cells\<rparr>"

definition stm32_ready :: "stm32f1 \<Rightarrow> bool" where
  "stm32_ready f \<longleftrightarrow> \<not> cr_lock f \<and> \<not> sr_pgerr f"

text \<open>The main array of a part with 256 KB.\<close>

definition stm32_main :: "u32 \<Rightarrow> bool" where
  "stm32_main a \<longleftrightarrow> 0x08000000 \<le> a \<and> a < 0x08040000"

lemma le_enc_4_halves:
  "le_enc 4 (unat (w :: u32)) = le_enc 2 (unat (ucast w :: u16)) @ le_enc 2 (unat (ucast (drop_bit 16 w) :: u16))"
proof -
  have "unat (ucast w :: u16) = unat w mod 65536"
    by (simp add: unsigned_ucast_eq take_bit_eq_mod)
  moreover have "unat (ucast (drop_bit 16 w) :: u16) = unat w div 65536 mod 65536"
    unfolding unsigned_ucast_eq unat_drop_bit_eq by (simp add: take_bit_eq_mod drop_bit_eq_div)
  moreover have "unat w div 65536 mod 65536 = unat w div 65536"
    using unat_less_u32 [of w] by (simp add: less_mult_imp_div_less)
  moreover have "(of_nat (x mod 65536) :: u8) = of_nat x" for x
    by (rule word_unat_eqI) (simp only: unat_of_nat_u8, simp add: mod_mod_cancel)
  moreover have "(of_nat (x mod 65536 div 256) :: u8) = of_nat (x div 256)" for x
  proof (rule word_unat_eqI)
    have "x mod 65536 div 256 = x div 256 mod 256" using mod_mult2_eq [of x 256 256] by simp
    then show "unat (of_nat (x mod 65536 div 256) :: u8) = unat (of_nat (x div 256) :: u8)"
      by (simp only: unat_of_nat_u8) simp
  qed
  ultimately show ?thesis
    unfolding le_enc_4 le_enc_2 by (simp flip: div_mult2_eq)
qed

interpretation stm32: flash_device stm32_hw stm32_ready stm32_main
proof unfold_locales
  fix f :: stm32f1 and a :: u32 and h :: u16 and w :: u32 and x :: u32
  show "stm32_ready (snd (hw_wait stm32_hw (hw_clear_flag stm32_hw (hw_unlock stm32_hw f))))"
    "hw_byte stm32_hw (hw_unlock stm32_hw f) = hw_byte stm32_hw f"
    "hw_byte stm32_hw (hw_clear_flag stm32_hw f) = hw_byte stm32_hw f"
    "hw_byte stm32_hw (snd (hw_wait stm32_hw f)) = hw_byte stm32_hw f"
    "hw_byte stm32_hw (hw_lock stm32_hw f) = hw_byte stm32_hw f"
    by (simp_all add: stm32_hw_def stm32_ready_def)
  show "4 \<le> unat (x - a) \<Longrightarrow> hw_byte stm32_hw (snd (hw_word stm32_hw f a w)) x = hw_byte stm32_hw f x"
  proof -
    assume d: "4 \<le> unat (x - a)"
    then have "\<not> unat (x - (a + 2)) < 2"
      using unat_diff_add [of 2 x a] by (simp split: if_splits)
    with d have "cells (stm32_store g (a + 2) v) x = cells g x" "cells (stm32_store g a v) x = cells g x"
      for g v by (simp_all add: stm32_store_def put_bytes_def)
    then show ?thesis by (simp add: stm32_hw_def stm32_word_def Let_def)
  qed
  assume ready: "stm32_ready f"
  then show "stm32_ready (snd (hw_wait stm32_hw f))" by (simp add: stm32_hw_def)
  have st: "stm32_status f = FLASH_COMPLETE" "\<not> cr_lock f"
    using ready by (simp_all add: stm32_ready_def stm32_status_def)
  show "\<exists>f'. hw_erase stm32_hw f a = (FLASH_COMPLETE, f') \<and> stm32_ready f' \<and>
      hw_byte stm32_hw f' = (\<lambda>x. if x div FLASH_PAGE_SIZE = a div FLASH_PAGE_SIZE then 0xFF
        else hw_byte stm32_hw f x)"
    using st ready by (simp add: stm32_hw_def stm32_erase_def stm32_ready_def fun_eq_iff)
  show "\<exists>f'. hw_half stm32_hw f a h = (FLASH_COMPLETE, f') \<and> stm32_ready f' \<and>
      hw_byte stm32_hw f' = put_bytes (hw_byte stm32_hw f) a (le_enc 2 (unat h))"
    if er: "erased stm32_hw f a 2"
  proof -
    have "cells f a = 0xFF" "cells f (a + 1) = 0xFF"
      using er by (auto simp: erased_def stm32_hw_def less_2_cases_iff)
    then show ?thesis
      using st ready by (simp add: stm32_hw_def stm32_half_def stm32_store_def Let_def
          stm32_ready_def stm32_status_def)
  qed
  show "\<exists>f'. hw_word stm32_hw f a w = (FLASH_COMPLETE, f') \<and> stm32_ready f' \<and>
      hw_byte stm32_hw f' = put_bytes (hw_byte stm32_hw f) a (le_enc 4 (unat w))"
    if er: "erased stm32_hw f a 4"
  proof -
    have ff: "cells f (a + of_nat k) = 0xFF" if "k < 4" for k
      using er that by (simp add: erased_def stm32_hw_def)
    have ff4: "cells f a = 0xFF" "cells f (a + 1) = 0xFF" "cells f (a + 2) = 0xFF" "cells f (a + 2 + 1) = 0xFF"
      using ff [of 0] ff [of 1] ff [of 2] ff [of 3] by (simp_all add: add.assoc)
    define g where "g = f\<lparr>cells := put_bytes (cells f) a (le_enc 2 (unat (ucast w :: u16)))\<rparr>"
    have 1: "stm32_store f a (ucast w) = g" using st ff4 by (simp add: stm32_store_def g_def)
    have g2: "cells g (a + 2) = 0xFF" "cells g (a + 2 + 1) = 0xFF"
      using put_bytes_at [of 2 "cells f" a "le_enc 2 (unat (ucast w :: u16))"]
        put_bytes_at [of 3 "cells f" a "le_enc 2 (unat (ucast w :: u16))"] ff4
      by (simp_all add: g_def add.assoc)
    have cg: "cells g = put_bytes (cells f) a (le_enc 2 (unat (ucast w :: u16)))" by (simp add: g_def)
    have "put_bytes (cells g) (a + of_nat (length (le_enc 2 (unat (ucast w :: u16)))))
        (le_enc 2 (unat (ucast (drop_bit 16 w) :: u16))) =
      put_bytes (cells f) a (le_enc 4 (unat w))"
      unfolding le_enc_4_halves cg by (rule put_bytes_append) (simp_all add: le_enc_2)
    then have 2: "stm32_store g (a + 2) (ucast (drop_bit 16 w)) = f\<lparr>cells := put_bytes (cells f) a (le_enc 4 (unat w))\<rparr>"
      using st g2 by (simp add: stm32_store_def) (simp add: g_def)
    have "stm32_status g = FLASH_COMPLETE" using st by (simp add: g_def stm32_status_def)
    then show ?thesis
      using st ready by (simp add: stm32_hw_def stm32_word_def 1 2 stm32_ready_def stm32_status_def)
  qed
qed

section \<open>Properties\<close>

text \<open>C17: on a flash that behaves as the manual says, writing to an erased, word-aligned area
  reports the full length and stores exactly the given bytes, whatever their number: whole words,
  then one word padded with erased bytes. No other cell changes, and the buffer is read only
  inside its bounds.\<close>

theorem Flash_Write_exact:
  assumes "flash_device hw ready main" and "addr mod 4 = 0" and "unat len \<le> length b"
    and "unat len < 2 ^ 31" and "\<And>k. k < unat len + 4 \<Longrightarrow> main (addr + of_nat k)"
    and "erased hw f addr (unat len + 4)"
  shows "\<exists>f'. Flash_Write hw f addr b len = Some (len, f') \<and>
    hw_byte hw f' = put_bytes (hw_byte hw f) addr (take (unat len) b)"
  by (rule flash_device.Flash_Write_stores [OF assms])

definition blank_flash :: stm32f1 where
  "blank_flash = \<lparr>cells = (\<lambda>x. if x = FLASH_SIZE_ADDR then 0 else if x = FLASH_SIZE_ADDR + 1 then 1
     else 0xFF), cr_lock = True, sr_pgerr = False\<rparr>"

theorem Flash_Write_exact_witness:
  "\<exists>f'. Flash_Write stm32_hw blank_flash 0x08023800 [1, 2, 3, 4, 5, 6] 6 = Some (6, f') \<and>
     hw_byte stm32_hw f' 0x08023805 = 6"
proof -
  have small: "unat (0x08023800 + of_nat k :: u32) = 0x08023800 + k" if "k < 10" for k
    using that by (simp add: unat_word_ariths unat_of_nat_u32)
  have "\<exists>f'. Flash_Write stm32_hw blank_flash 0x08023800 [1, 2, 3, 4, 5, 6] 6 = Some (6, f') \<and>
     hw_byte stm32_hw f' = put_bytes (hw_byte stm32_hw blank_flash) 0x08023800 (take (unat (6 :: u32)) [1, 2, 3, 4, 5, 6])"
  proof (rule Flash_Write_exact [OF stm32.flash_device_axioms])
    fix k :: nat assume "k < unat (6 :: u32) + 4"
    then show "stm32_main (0x08023800 + of_nat k)"
      using small [of k] by (simp add: stm32_main_def word_le_nat_alt word_less_nat_alt)
  next
    have "(0x08023800 + of_nat k :: u32) \<noteq> FLASH_SIZE_ADDR" "(0x08023800 + of_nat k :: u32) \<noteq> FLASH_SIZE_ADDR + 1"
      if "k < 10" for k
      using small [OF that] that by (auto simp: FLASH_SIZE_ADDR_def dest: arg_cong [where f = unat])
    then show "erased stm32_hw blank_flash 0x08023800 (unat (6 :: u32) + 4)"
      by (simp add: erased_def stm32_hw_def blank_flash_def)
  qed simp_all
  then show ?thesis by (auto simp: put_bytes_def)
qed

end
