(* ===== verification/Flash_Layout.thy ===== *)
theory Flash_Layout
  imports Flash_Store
begin

text \<open>
  The pages counted from the end of the flash (drivers/iap_if.h): the update flag, the two
  parameter pages, the image information and the download area. A page erased and then written
  reads back what was written, and the factory area with the size of the flash is not touched.
\<close>

definition FLASH_IAP_FLAG_ADDR :: u32 where "FLASH_IAP_FLAG_ADDR = 1"
definition FLASH_IAP_PARAM_ADDR :: u32 where "FLASH_IAP_PARAM_ADDR = 2"
definition FLASH_APP_PARAM_ADDR :: u32 where "FLASH_APP_PARAM_ADDR = 3"
definition FLASH_APP_INFO_ADDR :: u32 where "FLASH_APP_INFO_ADDR = 4"
definition FLASH_APP_COPY_ADDR :: u32 where "FLASH_APP_COPY_ADDR = 57"

text \<open>Memory-mapped half words and double words.\<close>

definition flash_half :: "'f flash_hw \<Rightarrow> 'f \<Rightarrow> u32 \<Rightarrow> u16" where
  "flash_half hw f a = of_nat (le_dec (flash_bytes hw f a 2))"

definition flash_dword :: "'f flash_hw \<Rightarrow> 'f \<Rightarrow> u32 \<Rightarrow> u64" where
  "flash_dword hw f a = of_nat (le_dec (flash_bytes hw f a 8))"

text \<open>The part has an even number of KB, room for the pages counted from the end, and its main
  array starts at the flash base.\<close>

definition flash_layout :: "'f flash_hw \<Rightarrow> (u32 \<Rightarrow> bool) \<Rightarrow> 'f \<Rightarrow> bool" where
  "flash_layout hw main f \<longleftrightarrow> even (unat (Get_FlashSize hw f)) \<and> 114 \<le> unat (Get_FlashSize hw f) \<and>
     (\<forall>x. 0x08000000 \<le> unat x \<and> unat x < 0x08000000 + 1024 * unat (Get_FlashSize hw f) \<longrightarrow> main x)"

lemma flash_bytes_cong:
  "(\<And>k. k < n \<Longrightarrow> hw_byte hw f (a + of_nat k) = hw_byte hw f' (a + of_nat k)) \<Longrightarrow>
     flash_bytes hw f a n = flash_bytes hw f' a n"
  by (simp add: flash_bytes_def)

lemma flash_bytes_put:
  assumes "hw_byte hw f = put_bytes g (a + of_nat i) bs" and "j + n \<le> length bs" and "length bs \<le> 2 ^ 32"
  shows "flash_bytes hw f (a + of_nat i + of_nat j) n = take n (drop j bs)"
proof (rule nth_equalityI)
  fix k assume "k < length (flash_bytes hw f (a + of_nat i + of_nat j) n)"
  then have k: "k < n" by (simp add: flash_bytes_def)
  then have "j + k < 2 ^ 32" "j + k < length bs" using assms(2,3) by linarith+
  then have "put_bytes g (a + of_nat i) bs (a + of_nat i + of_nat (j + k)) = bs ! (j + k)"
    using put_bytes_at [of "j + k" g "a + of_nat i" bs] by simp
  then show "flash_bytes hw f (a + of_nat i + of_nat j) n ! k = take n (drop j bs) ! k"
    using k assms by (simp add: flash_bytes_def add.assoc)
qed (use assms in \<open>simp add: flash_bytes_def\<close>)

lemma flash_bytes_append:
  "flash_bytes hw f a (m + n) = flash_bytes hw f a m @ flash_bytes hw f (a + of_nat m) n"
  by (rule nth_equalityI) (auto simp: flash_bytes_def nth_append of_nat_diff)

lemma erased_bytes: "erased hw f a n \<longleftrightarrow> flash_bytes hw f a n = replicate n 0xFF"
  by (auto simp: erased_def flash_bytes_def list_eq_iff_nth_eq)

section \<open>Page addresses\<close>

lemma flash_page_address:
  assumes "flash_layout hw main f" and "p \<le> 57"
  shows "unat (flash_page_from_end hw f p) = 0x08000000 + 1024 * unat (Get_FlashSize hw f) - 2048 * unat p"
proof -
  have s: "unat (Get_FlashSize hw f) < 65536" "114 \<le> unat (Get_FlashSize hw f)"
    using assms(1) unat_less_u16 by (auto simp: flash_layout_def)
  have p: "unat p \<le> 57" using assms(2) by (simp add: word_le_nat_alt)
  have "flash_page_from_end hw f p =
      of_nat (0x08000000 + 1024 * unat (Get_FlashSize hw f) - 2048 * unat p)"
    using s p by (simp add: flash_page_from_end_def FLASH_START_ADDR_def FLASH_PAGE_SIZE_def of_nat_diff
        mult.commute)
  moreover have "0x08000000 + 1024 * unat (Get_FlashSize hw f) - 2048 * unat p < 4294967296"
    using s by linarith
  ultimately show ?thesis by (simp only: unat_of_nat_u32 mod_less)
qed

definition flash_page :: "(u32 \<Rightarrow> bool) \<Rightarrow> u32 \<Rightarrow> bool" where
  "flash_page main a \<longleftrightarrow> unat a mod 2048 = 0 \<and> 0x08000000 \<le> unat a \<and>
     unat a + 2048 \<le> 0x08000000 + 1024 * 65536 \<and> (\<forall>k < 2048. main (a + of_nat k))"

lemma flash_page_from_end_page:
  assumes "flash_layout hw main f" and "1 \<le> p" and "p \<le> 57"
  shows "flash_page main (flash_page_from_end hw f p)"
proof -
  let ?s = "unat (Get_FlashSize hw f)" and ?a = "flash_page_from_end hw f p"
  have s: "?s < 65536" "114 \<le> ?s" "even ?s"
    and main: "\<And>x. 0x08000000 \<le> unat x \<Longrightarrow> unat x < 0x08000000 + 1024 * ?s \<Longrightarrow> main x"
    using assms(1) unat_less_u16 by (auto simp: flash_layout_def)
  have p: "unat p \<le> 57" "1 \<le> unat p" using assms(2,3) by (simp_all add: word_le_nat_alt)
  note a = flash_page_address [OF assms(1,3)]
  obtain h where h: "?s = 2 * h" using s(3) by blast
  have eq: "unat ?a = 2048 * (65536 + h - unat p)"
    unfolding a h using p s h by (simp add: diff_mult_distrib2)
  have "main (?a + of_nat k)" if "k < 2048" for k
  proof -
    have "unat (?a + of_nat k) = unat ?a + k"
      using that a s p by (simp add: unat_word_ariths unat_of_nat_u32)
    then show ?thesis using main [of "?a + of_nat k"] that a s p by simp
  qed
  then show ?thesis using eq a s p unfolding flash_page_def by auto
qed

lemma flash_pageD:
  assumes "flash_page main a"
  shows "2048 dvd unat a" "134217728 \<le> unat a" "unat a \<le> 201324544"
    and "k < 2048 \<Longrightarrow> main (a + of_nat k)"
  using assms by (auto simp: flash_page_def)

lemma flash_page_unat:
  assumes "flash_page main a" and "i \<le> 2048"
  shows "unat (a + of_nat i) = unat a + i"
proof -
  have "unat (of_nat i :: u32) = i" using assms(2) by (simp add: unat_of_nat_u32)
  then show ?thesis using assms(2) flash_pageD(3) [OF assms(1)] by (subst unat_add_noover) simp_all
qed

lemma flash_page_mod4:
  assumes "flash_page main a" and "i mod 4 = 0" and "i \<le> 2048"
  shows "(a + of_nat i) mod 4 = 0"
proof (rule word_unat_eqI)
  obtain u where u: "unat a = 2048 * u" using flash_pageD(1) [OF assms(1)] by blast
  obtain v where v: "i = 4 * v" using assms(2) by blast
  have "(unat a + i) mod 4 = (512 * u + v) * 4 mod 4" unfolding u v by (simp add: algebra_simps)
  also have "\<dots> = 0" by (rule mod_mult_self2_is_0)
  finally show "unat ((a + of_nat i) mod 4) = unat (0 :: u32)"
    using flash_page_unat [OF assms(1,3)] by (simp add: unat_mod)
qed

lemma flash_page_div:
  assumes "flash_page main a"
  shows "x div FLASH_PAGE_SIZE = a div FLASH_PAGE_SIZE \<longleftrightarrow> unat (x - a) < 2048"
proof -
  obtain u where u: "unat a = 2048 * u" using flash_pageD(1) [OF assms(1)] by blast
  have d: "(n div 2048 = u) = (2048 * u \<le> n \<and> n < 2048 * u + 2048)" for n :: nat by linarith
  have "x div FLASH_PAGE_SIZE = a div FLASH_PAGE_SIZE \<longleftrightarrow> unat x div 2048 = u"
    by (simp add: FLASH_PAGE_SIZE_def word_unat_eq_iff unat_div u)
  also have "\<dots> \<longleftrightarrow> unat a \<le> unat x \<and> unat x < unat a + 2048" unfolding d u ..
  also have "\<dots> \<longleftrightarrow> unat (x - a) < 2048"
  proof (cases "unat a \<le> unat x")
    case True
    then show ?thesis by (simp add: unat_sub word_le_nat_alt less_diff_conv2 add.commute)
  next
    case False
    have "\<not> 4294967296 + unat x - unat a < 2048" using flash_pageD(3) [OF assms] by linarith
    then show ?thesis using False by (simp add: unat_sub_if')
  qed
  finally show ?thesis .
qed

text \<open>An address outside the page is not in a block of it.\<close>

lemma page_outside:
  assumes "flash_page main a" and "i + n \<le> 2048" and "unat x < unat a \<or> unat a + 2048 \<le> unat x"
    and "0 < n"
  shows "\<not> unat (x - (a + of_nat i)) < n"
proof -
  note u = flash_page_unat [OF assms(1), of i] and b = flash_pageD(3) [OF assms(1)]
  have i: "i \<le> 2048" using assms(2) by simp
  show ?thesis
  proof (cases "unat x < unat a")
    case True
    then have "unat (x - (a + of_nat i)) = 4294967296 + unat x - (unat a + i)"
      using u i by (simp add: unat_sub_if')
    then show ?thesis using assms(2) b by linarith
  next
    case False
    then have x: "unat a + 2048 \<le> unat x" using assms(3) by blast
    then have "unat (x - (a + of_nat i)) = unat x - (unat a + i)"
      using u i by (simp add: unat_sub_if')
    then show ?thesis using assms(2,4) x by linarith
  qed
qed

lemma put_bytes_outside:
  assumes "flash_page main a" and "i + length bs \<le> 2048"
    and "unat x < unat a \<or> unat a + 2048 \<le> unat x"
  shows "put_bytes g (a + of_nat i) bs x = g x"
proof (cases "bs = []")
  case False
  then show ?thesis using page_outside [OF assms] by (simp add: put_bytes_def)
qed simp

text \<open>Nothing written to a page reaches the size of the flash, nor another page.\<close>

lemma page_keeps_factory:
  assumes "flash_page main a" and "i + length bs \<le> 2048"
    and "hw_byte hw f' = put_bytes (hw_byte hw f) (a + of_nat i) bs" and "j + n \<le> 32"
  shows "flash_bytes hw f' (FLASH_SIZE_ADDR + of_nat j) n = flash_bytes hw f (FLASH_SIZE_ADDR + of_nat j) n"
proof (rule flash_bytes_cong)
  fix k assume k: "k < n"
  have "unat (FLASH_SIZE_ADDR + of_nat j + of_nat k) = 536868832 + (j + k)"
    using k assms(4) by (simp add: FLASH_SIZE_ADDR_def unat_word_ariths unat_of_nat_u32)
  then have "unat a + 2048 \<le> unat (FLASH_SIZE_ADDR + of_nat j + of_nat k)"
    using flash_pageD(3) [OF assms(1)] by linarith
  then show "hw_byte hw f' (FLASH_SIZE_ADDR + of_nat j + of_nat k) = hw_byte hw f (FLASH_SIZE_ADDR + of_nat j + of_nat k)"
    unfolding assms(3) by (intro put_bytes_outside [OF assms(1,2)]) simp
qed

lemma page_keeps_size:
  assumes "flash_page main a" and "i + length bs \<le> 2048"
    and "hw_byte hw f' = put_bytes (hw_byte hw f) (a + of_nat i) bs"
  shows "Get_FlashSize hw f' = Get_FlashSize hw f"
  using page_keeps_factory [OF assms, of 0 2] by (simp add: Get_FlashSize_def)

lemma flash_page_from_end_cong:
  "Get_FlashSize hw f' = Get_FlashSize hw f \<Longrightarrow> flash_page_from_end hw f' p = flash_page_from_end hw f p"
  by (simp add: flash_page_from_end_def)

lemma flash_layout_cong:
  "Get_FlashSize hw f' = Get_FlashSize hw f \<Longrightarrow> flash_layout hw main f' = flash_layout hw main f"
  by (simp add: flash_layout_def)

lemma flash_page_other:
  assumes "flash_page main a" and "flash_page main b" and "a \<noteq> b" and "j < 2048" and "i + length bs \<le> 2048"
  shows "put_bytes g (a + of_nat i) bs (b + of_nat j) = g (b + of_nat j)"
proof (rule put_bytes_outside [OF assms(1,5)])
  obtain u v where uv: "unat a = 2048 * u" "unat b = 2048 * v"
    using flash_pageD(1) [OF assms(1)] flash_pageD(1) [OF assms(2)] by blast
  moreover have "u \<noteq> v" using assms(3) uv by (auto simp: word_unat_eq_iff)
  moreover have "unat (b + of_nat j) = unat b + j" using assms(4) by (intro flash_page_unat [OF assms(2)]) simp
  ultimately show "unat (b + of_nat j) < unat a \<or> unat a + 2048 \<le> unat (b + of_nat j)"
    using assms(4) by linarith
qed

section \<open>Erase, then write\<close>

context flash_device
begin

lemma page_erase:
  assumes "ready f" and "flash_page main a"
  shows "\<exists>f'. hw_erase hw f a = (FLASH_COMPLETE, f') \<and> ready f' \<and>
    hw_byte hw f' = put_bytes (hw_byte hw f) a (replicate 2048 0xFF) \<and>
    Get_FlashSize hw f' = Get_FlashSize hw f"
proof -
  have "main (a + of_nat 0)" using flash_pageD(4) [OF assms(2), of 0] by simp
  then have "main a" by simp
  then obtain f' where f': "hw_erase hw f a = (FLASH_COMPLETE, f')" "ready f'"
      "hw_byte hw f' = (\<lambda>x. if x div FLASH_PAGE_SIZE = a div FLASH_PAGE_SIZE then 0xFF else hw_byte hw f x)"
    using erase_page [OF assms(1)] by blast
  then have "hw_byte hw f' = put_bytes (hw_byte hw f) (a + of_nat 0) (replicate 2048 0xFF)"
    by (simp add: flash_page_div [OF assms(2)] put_bytes_def fun_eq_iff)
  with f' page_keeps_size [OF assms(2) _ this] show ?thesis by simp
qed

lemma page_write:
  assumes "flash_page main a" and "i mod 4 = 0" and "i + length bs + 4 \<le> 2048"
    and "erased hw f (a + of_nat i) (length bs + 4)"
  shows "\<exists>f'. Flash_Write hw f (a + of_nat i) bs (of_nat (length bs)) = Some (of_nat (length bs), f') \<and>
    hw_byte hw f' = put_bytes (hw_byte hw f) (a + of_nat i) bs \<and>
    Get_FlashSize hw f' = Get_FlashSize hw f"
proof -
  have l: "unat (of_nat (length bs) :: u32) = length bs"
    using assms(3) by (simp add: unat_of_nat_u32)
  have m: "main (a + of_nat i + of_nat k)" if "k < length bs + 4" for k
  proof -
    have "main (a + of_nat (i + k))" using assms(3) that by (intro flash_pageD(4) [OF assms(1)]) simp
    then show ?thesis by (simp add: ac_simps)
  qed
  have "\<exists>f'. Flash_Write hw f (a + of_nat i) bs (of_nat (length bs)) = Some (of_nat (length bs), f') \<and>
      hw_byte hw f' = put_bytes (hw_byte hw f) (a + of_nat i) (take (unat (of_nat (length bs) :: u32)) bs)"
    using assms m by (intro Flash_Write_stores) (simp_all add: l flash_page_mod4 [OF assms(1)])
  then show ?thesis using page_keeps_size [OF assms(1), of i bs] assms(3) by (auto simp: l)
qed

end

end
