(* ===== verification/Device_Params.thy ===== *)
theory Device_Params
  imports Flash_Layout
begin

text \<open>
  The persistent state of a device: the update flag and the IAP parameters (drivers/iap_if.c), the
  application parameters (bsp/DCG/app/param.c) and the device ID (general_app/manage_id.c). The
  globals of the three files are the record \<open>dev_vars\<close>; the flash they live in is its first field.
  A packed C structure is the list of its bytes when it is copied to or from flash.
\<close>

definition OTA_RUN_APP :: u64 where "OTA_RUN_APP = 0xFFFFFFFFFFFFFFFF"
definition OTA_Update_APP :: u64 where "OTA_Update_APP = 0xFFFF5678FFFF5678"
definition OTA_Force_Update_APP :: u64 where "OTA_Force_Update_APP = 0x1234567812345678"
definition DEV_FIRST_POWER_FLAG :: u16 where "DEV_FIRST_POWER_FLAG = 0x1234"
definition DEV_APP_FIRST_POWER_FLAG :: u16 where "DEV_APP_FIRST_POWER_FLAG = 0x4321"

record iap_param_type =
  iap_Power_First_Flag :: u16
  ChipUniqueID :: "u16 list"
  swversion :: u16
  hwversion :: u16
  IAP_flag :: u16
  remoteID :: u16
  ID :: u16

record dev_param_type =
  dev_Power_First_Flag :: u16
  mswork_mode :: u16
  version :: u16
  analog_dial_switch :: u8

record realtime_param_type =
  voltage :: u16
  current :: u16
  heartbeat_count :: u8
  can_debug_flag :: u8

record 'f dev_vars =
  dev_flash :: 'f
  IAP_FLAG :: u64
  iap_param :: iap_param_type
  RT_LWIP_IPADDR :: "u8 list"
  RT_LWIP_GWADDR :: "u8 list"
  RT_LWIP_MSKADDR :: "u8 list"
  RT_LWIP_DNSADDR :: "u8 list"
  dev_param :: dev_param_type
  realtime_param :: realtime_param_type

section \<open>Structures as bytes\<close>

definition halves_enc :: "u16 list \<Rightarrow> u8 list" where
  "halves_enc ws = concat (map (\<lambda>w. le_enc 2 (unat w)) ws)"

fun halves_dec :: "u8 list \<Rightarrow> u16 list" where
  "halves_dec (l # h # bs) = of_nat (le_dec [l, h]) # halves_dec bs"
| "halves_dec bs = []"

definition iap_param_obj :: "iap_param_type \<Rightarrow> u8 list" where
  "iap_param_obj p = halves_enc ([iap_Power_First_Flag p] @ ChipUniqueID p @
     [swversion p, hwversion p, IAP_flag p, remoteID p, ID p])"

definition iap_param_of :: "u8 list \<Rightarrow> iap_param_type" where
  "iap_param_of bs = (let ws = halves_dec bs in
     \<lparr>iap_Power_First_Flag = ws ! 0, ChipUniqueID = take 6 (drop 1 ws), swversion = ws ! 7,
      hwversion = ws ! 8, IAP_flag = ws ! 9, remoteID = ws ! 10, ID = ws ! 11\<rparr>)"

definition dev_param_obj :: "dev_param_type \<Rightarrow> u8 list" where
  "dev_param_obj p = halves_enc [dev_Power_First_Flag p, mswork_mode p, version p] @ [analog_dial_switch p]"

definition dev_param_of :: "u8 list \<Rightarrow> dev_param_type" where
  "dev_param_of bs = (let ws = halves_dec bs in
     \<lparr>dev_Power_First_Flag = ws ! 0, mswork_mode = ws ! 1, version = ws ! 2, analog_dial_switch = bs ! 6\<rparr>)"

section \<open>The update flag\<close>

definition ReadIAPMode :: "'f flash_hw \<Rightarrow> 'f \<Rightarrow> u64" where
  "ReadIAPMode hw f = flash_dword hw f (flash_page_from_end hw f FLASH_IAP_FLAG_ADDR)"

definition RunAppMode :: "'f flash_hw \<Rightarrow> 'f dev_vars \<Rightarrow> 'f dev_vars" where
  "RunAppMode hw v = (let
     addr_iapflag = flash_page_from_end hw (dev_flash v) FLASH_IAP_FLAG_ADDR;
     v = v\<lparr>IAP_FLAG := OTA_RUN_APP\<rparr>;
     f = Flash_Unlock hw (dev_flash v);
     f = snd (hw_erase hw f addr_iapflag)
   in v\<lparr>dev_flash := hw_lock hw f\<rparr>)"

definition UpdateAppMode :: "'f flash_hw \<Rightarrow> 'f dev_vars \<Rightarrow> 'f dev_vars" where
  "UpdateAppMode hw v = (let
     addr_iapflag = flash_page_from_end hw (dev_flash v) FLASH_IAP_FLAG_ADDR;
     v = (if ReadIAPMode hw (dev_flash v) \<noteq> OTA_RUN_APP then RunAppMode hw v else v);
     f = Flash_Unlock hw (dev_flash v);
     v = v\<lparr>IAP_FLAG := OTA_Update_APP\<rparr>;
     f = snd (hw_wait hw f);
     f = snd (hw_word hw f addr_iapflag (ucast (IAP_FLAG v)));
     f = snd (hw_word hw f (addr_iapflag + 2) (ucast (drop_bit 16 (IAP_FLAG v))))
   in v\<lparr>dev_flash := hw_lock hw f\<rparr>)"

definition ForceUpdateAppMode :: "'f flash_hw \<Rightarrow> 'f dev_vars \<Rightarrow> 'f dev_vars" where
  "ForceUpdateAppMode hw v = (let
     addr_iapflag = flash_page_from_end hw (dev_flash v) FLASH_IAP_FLAG_ADDR;
     v = (if ReadIAPMode hw (dev_flash v) \<noteq> OTA_RUN_APP \<or> ReadIAPMode hw (dev_flash v) \<noteq> OTA_Update_APP
          then RunAppMode hw v else v);
     f = Flash_Unlock hw (dev_flash v);
     v = v\<lparr>IAP_FLAG := OTA_Force_Update_APP\<rparr>;
     f = snd (hw_word hw f addr_iapflag (ucast (IAP_FLAG v)));
     f = snd (hw_word hw f (addr_iapflag + 2) (ucast (drop_bit 16 (IAP_FLAG v))))
   in v\<lparr>dev_flash := hw_lock hw f\<rparr>)"

section \<open>The IAP parameters\<close>

definition Get_ChipID :: "'f flash_hw \<Rightarrow> 'f \<Rightarrow> u16 list" where
  "Get_ChipID hw f = [flash_half hw f 0x1FFFF7E8, flash_half hw f 0x1FFFF7EA, flash_half hw f 0x1FFFF7EC,
     flash_half hw f 0x1FFFF7EE, flash_half hw f 0x1FFFF7F0, flash_half hw f 0x1FFFF7F2]"

definition iap_param_save :: "'f flash_hw \<Rightarrow> 'f dev_vars \<Rightarrow> 'f dev_vars option" where
  "iap_param_save hw v = do {
     let addr_iapparam = flash_page_from_end hw (dev_flash v) FLASH_IAP_PARAM_ADDR;
     let f = Flash_Unlock hw (dev_flash v);
     let f = snd (hw_erase hw f addr_iapparam);
     (_, f) \<leftarrow> Flash_Write hw f addr_iapparam (iap_param_obj (iap_param v)) 24;
     Some (v\<lparr>dev_flash := hw_lock hw f\<rparr>)
   }"

definition iap_param_default :: "'f flash_hw \<Rightarrow> 'f dev_vars \<Rightarrow> 'f dev_vars option" where
  "iap_param_default hw v = iap_param_save hw (v\<lparr>iap_param :=
     \<lparr>iap_Power_First_Flag = DEV_FIRST_POWER_FLAG, ChipUniqueID = Get_ChipID hw (dev_flash v),
      swversion = 1, hwversion = 1, IAP_flag = 1, remoteID = 0, ID = 0xFFFF\<rparr>\<rparr>)"

definition iap_param_load :: "'f flash_hw \<Rightarrow> 'f dev_vars \<Rightarrow> 'f dev_vars option" where
  "iap_param_load hw v = do {
     let addr_iapparam = flash_page_from_end hw (dev_flash v) FLASH_IAP_PARAM_ADDR;
     let v = v\<lparr>iap_param := (iap_param v)\<lparr>iap_Power_First_Flag := flash_half hw (dev_flash v) addr_iapparam\<rparr>\<rparr>;
     v \<leftarrow> (if iap_Power_First_Flag (iap_param v) \<noteq> DEV_FIRST_POWER_FLAG
           then iap_param_default hw v else Some v);
     let addr_iapparam = flash_page_from_end hw (dev_flash v) FLASH_IAP_PARAM_ADDR;
     (_, obj) \<leftarrow> Flash_Read hw (dev_flash v) addr_iapparam (iap_param_obj (iap_param v)) 24;
     Some (v\<lparr>iap_param := (iap_param_of obj)\<lparr>IAP_flag := 2\<rparr>\<rparr>)
   }"

section \<open>The device ID\<close>

text \<open>The board a build declares with one of the \<open>VARI3101_..._ID\<close> macros.\<close>

datatype board = SCU | DCG | RCG | PMU | PXU | GNSS | ACCG | BMLG | MLDG | WSG | OAG | DWSM | OWSM

fun board_base :: "board \<Rightarrow> u16" where
  "board_base SCU = 0x0101"
| "board_base DCG = 0x0201"
| "board_base RCG = 0x0301"
| "board_base PMU = 0x0401"
| "board_base PXU = 0x0501"
| "board_base GNSS = 0x0601"
| "board_base ACCG = 0x0701"
| "board_base BMLG = 0x0801"
| "board_base MLDG = 0x0901"
| "board_base WSG = 0x0A01"
| "board_base OAG = 0x0B01"
| "board_base DWSM = 0x0C01"
| "board_base OWSM = 0x0D01"

definition device_id_set :: "board \<Rightarrow> 'f dev_vars \<Rightarrow> 'f dev_vars" where
  "device_id_set b v = (let
     dial_switch_flag = ucast (analog_dial_switch (dev_param v)) :: u16;
     id_increase = (if mswork_mode (dev_param v) = 0 then 0 else 1);
     id_increase = (if b \<in> {PXU, ACCG, BMLG, MLDG, OAG, DWSM, OWSM}
       then (if mswork_mode (dev_param v) = 0 then 0 else 2) else id_increase)
   in v\<lparr>iap_param := (iap_param v)\<lparr>ID := board_base b + dial_switch_flag + id_increase\<rparr>\<rparr>)"

section \<open>The application parameters of the DCG board\<close>

fun program_halves :: "'f flash_hw \<Rightarrow> 'f \<Rightarrow> u32 \<Rightarrow> u16 list \<Rightarrow> 'f" where
  "program_halves hw f addr [] = f"
| "program_halves hw f addr (wdata # ws) = program_halves hw (snd (hw_half hw f addr wdata)) (addr + 2) ws"

definition net_params :: "'f dev_vars \<Rightarrow> u8 list" where
  "net_params v = RT_LWIP_IPADDR v @ RT_LWIP_MSKADDR v @ RT_LWIP_GWADDR v @ RT_LWIP_DNSADDR v"

definition stm32_param_save :: "'f flash_hw \<Rightarrow> 'f dev_vars \<Rightarrow> 'f dev_vars option" where
  "stm32_param_save hw v = do {
     let addr = flash_page_from_end hw (dev_flash v) FLASH_APP_PARAM_ADDR;
     let f = Flash_Unlock hw (dev_flash v);
     let f = snd (hw_erase hw f addr);
     let f = program_halves hw f addr (map ucast (net_params v));
     (_, f) \<leftarrow> Flash_Write hw f (addr + 32) (dev_param_obj (dev_param v)) 7;
     Some (v\<lparr>dev_flash := hw_lock hw f\<rparr>)
   }"

definition stm32_param_default :: "'f flash_hw \<Rightarrow> 'f dev_vars \<Rightarrow> 'f dev_vars option" where
  "stm32_param_default hw v = stm32_param_save hw (v\<lparr>
     RT_LWIP_IPADDR := [192, 168, 1, 100],
     RT_LWIP_MSKADDR := [255, 255, 255, 0],
     RT_LWIP_GWADDR := [192, 168, 1, 1],
     RT_LWIP_DNSADDR := [192, 168, 1, 1],
     dev_param := \<lparr>dev_Power_First_Flag = DEV_APP_FIRST_POWER_FLAG, mswork_mode = 0, version = 1,
       analog_dial_switch = 0\<rparr>\<rparr>)"

definition realtime_param_init :: "'f dev_vars \<Rightarrow> 'f dev_vars" where
  "realtime_param_init v =
     v\<lparr>realtime_param := \<lparr>voltage = 0, current = 0, heartbeat_count = 0, can_debug_flag = 0\<rparr>\<rparr>"

text \<open>Four bytes, each stored as a half word.\<close>

definition load_bytes4 :: "'f flash_hw \<Rightarrow> 'f \<Rightarrow> u32 \<Rightarrow> u8 list" where
  "load_bytes4 hw f addr = map (\<lambda>k. ucast (flash_half hw f (addr + k))) [0, 2, 4, 6]"

definition stm32_param_load :: "'f flash_hw \<Rightarrow> 'f dev_vars \<Rightarrow> 'f dev_vars option" where
  "stm32_param_load hw v = do {
     let addr = flash_page_from_end hw (dev_flash v) FLASH_APP_PARAM_ADDR;
     let v = v\<lparr>dev_param := (dev_param v)\<lparr>dev_Power_First_Flag := flash_half hw (dev_flash v) addr\<rparr>\<rparr>;
     v \<leftarrow> (if dev_Power_First_Flag (dev_param v) \<noteq> DEV_APP_FIRST_POWER_FLAG
           then stm32_param_default hw v else Some v);
     let f = dev_flash v;
     let v = v\<lparr>RT_LWIP_IPADDR := load_bytes4 hw f addr\<rparr>;
     let v = v\<lparr>RT_LWIP_MSKADDR := load_bytes4 hw f (addr + 8)\<rparr>;
     let v = v\<lparr>RT_LWIP_GWADDR := load_bytes4 hw f (addr + 16)\<rparr>;
     let v = v\<lparr>RT_LWIP_DNSADDR := load_bytes4 hw f (addr + 24)\<rparr>;
     (_, obj) \<leftarrow> Flash_Read hw f (addr + 32) (dev_param_obj (dev_param v)) 7;
     let v = v\<lparr>dev_param := (dev_param_of obj)\<lparr>version := 1\<rparr>\<rparr>;
     v \<leftarrow> iap_param_load hw v;
     Some (device_id_set DCG (realtime_param_init v))
   }"

section \<open>Round trips of the structures\<close>

lemma unat_ucast_u8_u16: "unat (ucast (x :: u8) :: u16) = unat x"
  using unat_less_u8 [of x] by (simp add: unsigned_ucast_eq take_bit_eq_mod)

lemma halves_enc_simps [simp]:
  "halves_enc [] = []" "halves_enc (w # ws) = le_enc 2 (unat w) @ halves_enc ws"
  by (simp_all add: halves_enc_def)

lemma length_halves_enc [simp]: "length (halves_enc ws) = 2 * length ws"
  by (induction ws) simp_all

lemma le_dec_enc_half: "of_nat (le_dec (le_enc 2 (unat (w :: u16)))) = w"
  using unat_less_u16 [of w] by (simp add: le_dec_enc)

lemma halves_dec_step [simp]: "halves_dec (le_enc 2 (unat (w :: u16)) @ bs) = w # halves_dec bs"
  using le_dec_enc_half [of w] by (simp add: le_enc_2)

lemma halves_dec_enc: "length bs < 2 \<Longrightarrow> halves_dec (halves_enc ws @ bs) = ws"
  by (induction ws) (auto simp: less_2_cases_iff length_Suc_conv)

lemma iap_param_of_obj:
  assumes "length (ChipUniqueID p) = 6"
  shows "iap_param_of (iap_param_obj p) = p" and "length (iap_param_obj p) = 24"
proof -
  obtain a b c d e f where c: "ChipUniqueID p = [a, b, c, d, e, f]"
    using assms by (auto simp: length_Suc_conv eval_nat_numeral)
  define ws where "ws = [iap_Power_First_Flag p, a, b, c, d, e, f, swversion p, hwversion p, IAP_flag p,
    remoteID p, ID p]"
  have o: "iap_param_obj p = halves_enc ws" by (simp add: iap_param_obj_def c ws_def)
  have "halves_dec (iap_param_obj p) = ws" using halves_dec_enc [of "[]" ws] by (simp add: o)
  then have "iap_param_of (iap_param_obj p) = \<lparr>iap_Power_First_Flag = iap_Power_First_Flag p,
      ChipUniqueID = [a, b, c, d, e, f], swversion = swversion p, hwversion = hwversion p,
      IAP_flag = IAP_flag p, remoteID = remoteID p, ID = ID p\<rparr>"
    by (simp add: iap_param_of_def Let_def ws_def)
  then show "iap_param_of (iap_param_obj p) = p" using c by simp
  show "length (iap_param_obj p) = 24" by (simp add: o ws_def)
qed

lemma dev_param_of_obj: "dev_param_of (dev_param_obj p) = p" "length (dev_param_obj p) = 7"
proof -
  have "halves_dec (dev_param_obj p) = [dev_Power_First_Flag p, mswork_mode p, version p]"
    using halves_dec_enc [of "[analog_dial_switch p]" "[dev_Power_First_Flag p, mswork_mode p, version p]"]
    by (simp add: dev_param_obj_def)
  then show "dev_param_of (dev_param_obj p) = p"
    by (simp add: dev_param_of_def dev_param_obj_def nth_append)
  show "length (dev_param_obj p) = 7" by (simp add: dev_param_obj_def)
qed

lemma flash_half_bytes:
  assumes "flash_bytes hw f a n = bs" and "i + 2 \<le> n"
  shows "flash_half hw f (a + of_nat i) = of_nat (le_dec (take 2 (drop i bs)))"
proof -
  have "flash_bytes hw f (a + of_nat i) 2 = take 2 (drop i bs)"
    using assms(2) unfolding assms(1) [symmetric] flash_bytes_def
    by (intro nth_equalityI) (simp_all add: add.assoc)
  then show ?thesis by (simp add: flash_half_def)
qed

text \<open>A block written again from its middle on.\<close>

lemma put_bytes_overlap:
  assumes "length xs + length (ys @ zs) \<le> 2 ^ 32" and "ys \<noteq> []"
  shows "put_bytes (put_bytes g a (xs @ ys)) (a + of_nat (length xs)) (ys @ zs) = put_bytes g a (xs @ ys @ zs)"
proof -
  have again: "put_bytes (put_bytes h b ys) b (ys @ zs) = put_bytes h b (ys @ zs)" for h b
    by (simp add: put_bytes_def fun_eq_iff)
  show ?thesis
    using assms by (simp add: put_bytes_append [symmetric] again)
qed

text \<open>The parameters of a device that starts for the first time.\<close>

definition iap_defaults :: "u16 list \<Rightarrow> iap_param_type" where
  "iap_defaults chip = \<lparr>iap_Power_First_Flag = DEV_FIRST_POWER_FLAG, ChipUniqueID = chip,
     swversion = 1, hwversion = 1, IAP_flag = 1, remoteID = 0, ID = 0xFFFF\<rparr>"

lemma halves_enc_take: "k < length ws \<Longrightarrow> take 2 (drop (2 * k) (halves_enc ws @ r)) = le_enc 2 (unat (ws ! k))"
proof (induction ws arbitrary: k)
  case (Cons w ws)
  then show ?case by (cases k) (simp_all add: le_enc_2)
qed simp

lemma flash_half_halves:
  assumes "flash_bytes hw f a n = halves_enc ws @ r" and "k < length ws"
  shows "flash_half hw f (a + of_nat (2 * k)) = ws ! k"
proof -
  have "length (flash_bytes hw f a n) = n" by (simp add: flash_bytes_def)
  then have "2 * k + 2 \<le> n" using assms by simp
  from flash_half_bytes [OF assms(1) this] show ?thesis
    unfolding halves_enc_take [OF assms(2)] by (simp add: le_dec_enc_half)
qed

section \<open>The factory area\<close>

text \<open>The flash size and the chip ID, 32 bytes no operation on a page reaches.\<close>

definition factory :: "'f flash_hw \<Rightarrow> 'f \<Rightarrow> u8 list" where
  "factory hw f = flash_bytes hw f FLASH_SIZE_ADDR 32"

lemma factory_half:
  "i + 2 \<le> 32 \<Longrightarrow> flash_half hw f (FLASH_SIZE_ADDR + of_nat i) = of_nat (le_dec (take 2 (drop i (factory hw f))))"
  by (rule flash_half_bytes [where n = 32]) (simp_all add: factory_def)

lemma factory_same:
  assumes "factory hw f' = factory hw f"
  shows "Get_FlashSize hw f' = Get_FlashSize hw f" and "Get_ChipID hw f' = Get_ChipID hw f"
    and "flash_page_from_end hw f' p = flash_page_from_end hw f p"
    and "flash_layout hw main f' = flash_layout hw main f"
proof -
  have h: "flash_half hw f' (FLASH_SIZE_ADDR + of_nat i) = flash_half hw f (FLASH_SIZE_ADDR + of_nat i)"
    if "i + 2 \<le> 32" for i
    using that by (simp add: factory_half assms)
  show s: "Get_FlashSize hw f' = Get_FlashSize hw f"
    using h [of 0] by (simp add: Get_FlashSize_def flash_half_def)
  show "Get_ChipID hw f' = Get_ChipID hw f"
    using h [of 8] h [of 10] h [of 12] h [of 14] h [of 16] h [of 18]
    by (simp add: Get_ChipID_def FLASH_SIZE_ADDR_def)
  show "flash_page_from_end hw f' p = flash_page_from_end hw f p" by (rule flash_page_from_end_cong [OF s])
  show "flash_layout hw main f' = flash_layout hw main f" by (rule flash_layout_cong [OF s])
qed

lemma page_factory:
  assumes "flash_page main a" and "i + length bs \<le> 2048"
    and "hw_byte hw f' = put_bytes (hw_byte hw f) (a + of_nat i) bs"
  shows "factory hw f' = factory hw f"
  using page_keeps_factory [OF assms, of 0 32] by (simp add: factory_def)

section \<open>Erase and rewrite of a parameter page\<close>

context flash_device
begin

lemma page_erased:
  assumes "flash_page main a"
  shows "\<exists>f'. hw_erase hw (Flash_Unlock hw f) a = (FLASH_COMPLETE, f') \<and> ready f' \<and>
    factory hw f' = factory hw f \<and> (\<forall>k < 2048. hw_byte hw f' (a + of_nat k) = 0xFF)"
proof -
  obtain f1 where f1: "hw_erase hw (Flash_Unlock hw f) a = (FLASH_COMPLETE, f1)" "ready f1"
      "hw_byte hw f1 = put_bytes (hw_byte hw f) a (replicate 2048 0xFF)"
    using page_erase [OF Flash_Unlock_ready [of f] assms] by (auto simp: Flash_Unlock_byte)
  then have "factory hw f1 = factory hw f"
    by (intro page_factory [OF assms, of 0 "replicate 2048 0xFF"]) simp_all
  moreover have "hw_byte hw f1 (a + of_nat k) = 0xFF" if "k < 2048" for k
    using that put_bytes_at [of k "hw_byte hw f" a "replicate 2048 0xFF"] by (simp add: f1(3))
  ultimately show ?thesis using f1 by blast
qed

lemma page_store:
  assumes "flash_page main a" and "i mod 4 = 0" and "i + length bs + 4 \<le> 2048"
    and "\<And>k. i \<le> k \<Longrightarrow> k < 2048 \<Longrightarrow> hw_byte hw f (a + of_nat k) = 0xFF"
  shows "\<exists>f'. Flash_Write hw f (a + of_nat i) bs (of_nat (length bs)) = Some (of_nat (length bs), f') \<and>
    hw_byte hw f' = put_bytes (hw_byte hw f) (a + of_nat i) bs \<and> factory hw f' = factory hw f"
proof -
  have "hw_byte hw f (a + of_nat i + of_nat k) = 0xFF" if "k < length bs + 4" for k
    using assms(3) assms(4) [of "i + k"] that by (simp add: add.assoc)
  then have "erased hw f (a + of_nat i) (length bs + 4)" by (simp add: erased_def)
  from page_write [OF assms(1-3) this] show ?thesis
    using page_factory [OF assms(1), where i = i and bs = bs and hw = hw and f = f] assms(3) by auto
qed

lemma page_rewrite:
  assumes "flash_page main a" and "length bs \<le> 2000"
  shows "\<exists>f'. Flash_Write hw (snd (hw_erase hw (Flash_Unlock hw f) a)) a bs (of_nat (length bs)) =
      Some (of_nat (length bs), f') \<and>
    flash_bytes hw f' a (length bs) = bs \<and> factory hw f' = factory hw f"
proof -
  obtain f1 where f1: "hw_erase hw (Flash_Unlock hw f) a = (FLASH_COMPLETE, f1)"
      "factory hw f1 = factory hw f" "\<forall>k < 2048. hw_byte hw f1 (a + of_nat k) = 0xFF"
    using page_erased [OF assms(1)] by blast
  obtain f2 where f2: "Flash_Write hw f1 (a + of_nat 0) bs (of_nat (length bs)) = Some (of_nat (length bs), f2)"
      "hw_byte hw f2 = put_bytes (hw_byte hw f1) (a + of_nat 0) bs" "factory hw f2 = factory hw f1"
    using page_store [OF assms(1), of 0 bs] assms(2) f1(3) by auto
  have "flash_bytes hw f2 (a + of_nat 0 + of_nat 0) (length bs) = take (length bs) (drop 0 bs)"
    using assms(2) by (intro flash_bytes_put [OF f2(2)]) simp_all
  then show ?thesis using f1 f2 by auto
qed

lemma flash_bytes_lock: "flash_bytes hw (hw_lock hw f) a n = flash_bytes hw f a n"
  by (simp add: flash_bytes_def lock_byte)

lemma factory_lock: "factory hw (hw_lock hw f) = factory hw f"
  by (simp add: factory_def flash_bytes_lock)

lemma factory_unlock: "factory hw (Flash_Unlock hw f) = factory hw f"
  by (simp add: factory_def flash_bytes_def Flash_Unlock_byte)

section \<open>The update flag over the contract\<close>

lemma RunAppMode_erases:
  assumes "flash_layout hw main (dev_flash v)"
  defines "a \<equiv> flash_page_from_end hw (dev_flash v) FLASH_IAP_FLAG_ADDR"
  shows "factory hw (dev_flash (RunAppMode hw v)) = factory hw (dev_flash v)"
    and "\<And>k. k < 2048 \<Longrightarrow> hw_byte hw (dev_flash (RunAppMode hw v)) (a + of_nat k) = 0xFF"
proof -
  have "flash_page main a"
    unfolding a_def using assms(1) by (rule flash_page_from_end_page) (simp_all add: FLASH_IAP_FLAG_ADDR_def)
  then obtain f1 where f1: "hw_erase hw (Flash_Unlock hw (dev_flash v)) a = (FLASH_COMPLETE, f1)"
      "factory hw f1 = factory hw (dev_flash v)" "\<forall>k < 2048. hw_byte hw f1 (a + of_nat k) = 0xFF"
    using page_erased by blast
  then have r: "dev_flash (RunAppMode hw v) = hw_lock hw f1"
    by (simp add: RunAppMode_def Let_def a_def)
  show "factory hw (dev_flash (RunAppMode hw v)) = factory hw (dev_flash v)"
    by (simp add: r factory_lock f1)
  show "hw_byte hw (dev_flash (RunAppMode hw v)) (a + of_nat k) = 0xFF" if "k < 2048" for k
    using f1(3) that by (simp add: r lock_byte)
qed

lemma flag_page:
  "flash_layout hw main f \<Longrightarrow> flash_page main (flash_page_from_end hw f FLASH_IAP_FLAG_ADDR)"
  by (rule flash_page_from_end_page) (simp_all add: FLASH_IAP_FLAG_ADDR_def)

lemma RunApp_flag_bytes:
  assumes "ReadIAPMode hw f = OTA_RUN_APP" and "k < 8"
  shows "hw_byte hw f (flash_page_from_end hw f FLASH_IAP_FLAG_ADDR + of_nat k) = 0xFF"
proof -
  let ?bs = "flash_bytes hw f (flash_page_from_end hw f FLASH_IAP_FLAG_ADDR) 8"
  have len: "length ?bs = 8" by (simp add: flash_bytes_def)
  have lt: "le_dec ?bs < 18446744073709551616" using le_dec_less [of ?bs] len by simp
  have "unat (of_nat (le_dec ?bs) :: u64) = 0xFFFFFFFFFFFFFFFF"
    using assms(1) by (simp add: ReadIAPMode_def flash_dword_def OTA_RUN_APP_def)
  then have "le_dec ?bs = 0xFFFFFFFFFFFFFFFF" using lt by (simp add: unat_of_nat_u64)
  moreover have ff: "replicate 8 0xFF = [0xFF, 0xFF, 0xFF, 0xFF, 0xFF, 0xFF, 0xFF, 0xFF :: u8]"
    by code_simp
  moreover have "le_dec [0xFF, 0xFF, 0xFF, 0xFF, 0xFF, 0xFF, 0xFF, 0xFF] = 0xFFFFFFFFFFFFFFFF" by simp
  ultimately have "le_dec ?bs = le_dec (replicate 8 0xFF)" by simp
  then have "?bs = replicate 8 0xFF" using len by (intro le_dec_inj) simp_all
  then have "?bs ! k = replicate 8 0xFF ! k" by simp
  then show ?thesis using assms(2) by (simp add: flash_bytes_def)
qed

lemma RunAppMode_flag:
  assumes "flash_layout hw main (dev_flash v)"
  shows "ReadIAPMode hw (dev_flash (RunAppMode hw v)) = OTA_RUN_APP"
proof -
  let ?f = "dev_flash (RunAppMode hw v)" and ?a = "flash_page_from_end hw (dev_flash v) FLASH_IAP_FLAG_ADDR"
  have a: "flash_page_from_end hw ?f FLASH_IAP_FLAG_ADDR = ?a"
    by (rule factory_same(3)) (rule RunAppMode_erases(1) [OF assms])
  have "flash_bytes hw ?f ?a 8 = replicate 8 0xFF"
    unfolding erased_bytes [symmetric] using RunAppMode_erases(2) [OF assms] by (simp add: erased_def)
  moreover have "replicate 8 0xFF = [0xFF, 0xFF, 0xFF, 0xFF, 0xFF, 0xFF, 0xFF, 0xFF :: u8]"
    by code_simp
  ultimately show ?thesis by (simp add: ReadIAPMode_def flash_dword_def a OTA_RUN_APP_def)
qed

text \<open>Programming the two words of the update flag over an erased double word.\<close>

lemma flag_words:
  assumes "ready f" and "flash_page main a" and "\<And>k. k < 8 \<Longrightarrow> hw_byte hw f (a + of_nat k) = 0xFF"
  shows "flash_bytes hw (snd (hw_word hw (snd (hw_word hw f a 0xFFFF5678)) (a + 2) 0x5678FFFF)) a 8 =
    [0x78, 0x56, 0xFF, 0xFF, 0x78, 0x56, 0xFF, 0xFF]"
proof -
  have "a mod 4 = 0" using flash_page_mod4 [OF assms(2), of 0] by simp
  then have even: "a mod 2 = 0" using word_even [of a 0] by simp
  have even2: "(a + 2) mod 2 = 0"
  proof (rule word_unat_eqI)
    have "unat (a + 2) = unat a + 2" using flash_page_unat [OF assms(2), of 2] by simp
    moreover have "unat (a mod 2) = 0" using even by simp
    ultimately show "unat ((a + 2) mod 2) = unat (0 :: u32)" by (simp add: unat_mod)
  qed
  have main: "main a" "main (a + 2)" "main (a + 2 + 2)"
    using flash_pageD(4) [OF assms(2), of 0] flash_pageD(4) [OF assms(2), of 2] flash_pageD(4) [OF assms(2), of 4]
    by (simp_all add: add.assoc)
  have w: "le_enc 4 (unat (0xFFFF5678 :: u32)) = [0x78, 0x56, 0xFF, 0xFF]"
    "le_enc 4 (unat (0x5678FFFF :: u32)) = [0xFF, 0xFF, 0x78, 0x56]"
    by (simp_all add: le_enc_4)
  have "erased hw f a 4" using assms(3) by (simp add: erased_def)
  from program_word [OF assms(1) even main(1,2) this, where w = "0xFFFF5678"]
  obtain f1 where f1: "hw_word hw f a 0xFFFF5678 = (FLASH_COMPLETE, f1)" "ready f1"
      "hw_byte hw f1 = put_bytes (hw_byte hw f) a [0x78, 0x56, 0xFF, 0xFF]"
    unfolding w by blast
  have "hw_byte hw f1 (a + 2 + of_nat k) = 0xFF" if "k < 4" for k
  proof -
    have "hw_byte hw f1 (a + of_nat (2 + k)) = 0xFF"
    proof (cases "k < 2")
      case True
      then have "k = 0 \<or> k = 1" by linarith
      then have "[0x78, 0x56, 0xFF, 0xFF :: u8] ! (2 + k) = 0xFF" by auto
      then show ?thesis
        unfolding f1(3) using True by (subst put_bytes_at) simp_all
    next
      case False
      then show ?thesis
        unfolding f1(3) using that assms(3) [of "2 + k"] by (subst put_bytes_at) simp_all
    qed
    then show ?thesis by (simp add: ac_simps)
  qed
  then have "erased hw f1 (a + 2) 4" by (simp add: erased_def)
  from program_word [OF f1(2) even2 main(2,3) this, where w = "0x5678FFFF"]
  obtain f2 where f2: "hw_word hw f1 (a + 2) 0x5678FFFF = (FLASH_COMPLETE, f2)"
      "hw_byte hw f2 = put_bytes (hw_byte hw f1) (a + 2) [0xFF, 0xFF, 0x78, 0x56]"
    unfolding w by blast
  let ?six = "[0x78, 0x56, 0xFF, 0xFF, 0x78, 0x56]"
  have "put_bytes (hw_byte hw f1) (a + 2) [0xFF, 0xFF, 0x78, 0x56] = put_bytes (hw_byte hw f) a ?six"
    using put_bytes_overlap [where g = "hw_byte hw f" and a = a and xs = "[0x78, 0x56]" and ys = "[0xFF, 0xFF]" and zs = "[0x78, 0x56]"]
    by (simp add: f1(3))
  moreover have "put_bytes (hw_byte hw f) a (?six @ [0xFF, 0xFF]) = put_bytes (hw_byte hw f) a ?six"
  proof (rule put_bytes_pad)
    fix k :: nat assume "length ?six \<le> k" and "k < length ?six + length [0xFF, 0xFF :: u8]"
    then have k: "k = 6 \<or> k = 7" by (simp, linarith)
    then have "[0xFF, 0xFF :: u8] ! (k - 6) = 0xFF" by auto
    then show "hw_byte hw f (a + of_nat k) = [0xFF, 0xFF] ! (k - length ?six)"
      using k assms(3) [of k] by auto
  qed simp
  ultimately have "hw_byte hw f2 = put_bytes (hw_byte hw f) (a + of_nat 0) (?six @ [0xFF, 0xFF])"
    using f2(2) by simp
  from flash_bytes_put [OF this, of 0 8] show ?thesis by (simp add: f1 f2)
qed

lemma flag_words_factory:
  assumes "flash_page main a" and "i + 4 \<le> 2048"
  shows "factory hw (snd (hw_word hw f (a + of_nat i) w)) = factory hw f"
  unfolding factory_def
proof (rule flash_bytes_cong)
  fix k :: nat assume k: "k < 32"
  then have "unat (FLASH_SIZE_ADDR + of_nat k) = 536868832 + k"
    by (simp add: FLASH_SIZE_ADDR_def unat_word_ariths unat_of_nat_u32)
  then have "\<not> unat (FLASH_SIZE_ADDR + of_nat k - (a + of_nat i)) < 4"
    using flash_pageD(3) [OF assms(1)] by (intro page_outside [OF assms]) auto
  then show "hw_byte hw (snd (hw_word hw f (a + of_nat i) w)) (FLASH_SIZE_ADDR + of_nat k) =
      hw_byte hw f (FLASH_SIZE_ADDR + of_nat k)"
    by (intro word_frame) simp
qed

lemma UpdateAppMode_flag:
  assumes "flash_layout hw main (dev_flash v)"
  shows "ReadIAPMode hw (dev_flash (UpdateAppMode hw v)) = OTA_Update_APP"
    and "IAP_FLAG (UpdateAppMode hw v) = OTA_Update_APP"
proof -
  define a where "a = flash_page_from_end hw (dev_flash v) FLASH_IAP_FLAG_ADDR"
  define v1 where "v1 = (if ReadIAPMode hw (dev_flash v) \<noteq> OTA_RUN_APP then RunAppMode hw v else v)"
  have page: "flash_page main a" unfolding a_def by (rule flag_page [OF assms])
  have fac: "factory hw (dev_flash v1) = factory hw (dev_flash v)"
    using RunAppMode_erases(1) [OF assms] by (simp add: v1_def)
  have ff: "hw_byte hw (dev_flash v1) (a + of_nat k) = 0xFF" if "k < 8" for k
    using RunAppMode_erases(2) [OF assms, of k] RunApp_flag_bytes [OF _ that] that
    by (auto simp: v1_def a_def)
  define f where "f = snd (hw_wait hw (Flash_Unlock hw (dev_flash v1)))"
  have f: "ready f" "hw_byte hw f = hw_byte hw (dev_flash v1)"
    by (simp_all add: f_def wait_ready Flash_Unlock_ready wait_byte Flash_Unlock_byte)
  have w: "ucast OTA_Update_APP = (0xFFFF5678 :: u32)" "ucast (drop_bit 16 OTA_Update_APP) = (0x5678FFFF :: u32)"
    by (simp_all add: OTA_Update_APP_def)
  define f2 where "f2 = snd (hw_word hw (snd (hw_word hw f a 0xFFFF5678)) (a + 2) 0x5678FFFF)"
  have u: "UpdateAppMode hw v = v1\<lparr>IAP_FLAG := OTA_Update_APP, dev_flash := hw_lock hw f2\<rparr>"
    by (simp add: UpdateAppMode_def Let_def a_def [symmetric] v1_def [symmetric] f_def [symmetric] w f2_def)
  have bytes: "flash_bytes hw (hw_lock hw f2) a 8 = [0x78, 0x56, 0xFF, 0xFF, 0x78, 0x56, 0xFF, 0xFF]"
    unfolding flash_bytes_lock f2_def using ff by (intro flag_words [OF f(1) page]) (simp add: f(2))
  show "IAP_FLAG (UpdateAppMode hw v) = OTA_Update_APP" by (simp add: u)
  have "factory hw (hw_lock hw f2) = factory hw (dev_flash v)"
    using flag_words_factory [OF page, where f = "snd (hw_word hw f a 0xFFFF5678)" and i = 2]
      flag_words_factory [OF page, where f = f and i = 0] fac f(2)
    by (simp add: f2_def factory_lock) (simp add: factory_def flash_bytes_def)
  then have "flash_page_from_end hw (hw_lock hw f2) FLASH_IAP_FLAG_ADDR = a"
    unfolding a_def by (rule factory_same(3))
  then show "ReadIAPMode hw (dev_flash (UpdateAppMode hw v)) = OTA_Update_APP"
    by (simp add: u ReadIAPMode_def flash_dword_def bytes OTA_Update_APP_def)
qed

lemma ForceUpdateAppMode_flag:
  assumes "flash_layout hw main (dev_flash v)"
  shows "ReadIAPMode hw (dev_flash (ForceUpdateAppMode hw v)) \<noteq> OTA_Force_Update_APP"
proof -
  define a where "a = flash_page_from_end hw (dev_flash v) FLASH_IAP_FLAG_ADDR"
  define v1 where "v1 = RunAppMode hw v"
  define f where "f = Flash_Unlock hw (dev_flash v1)"
  define w1 where "w1 = (ucast OTA_Force_Update_APP :: u32)"
  define w2 where "w2 = (ucast (drop_bit 16 OTA_Force_Update_APP) :: u32)"
  define g where "g = snd (hw_word hw f a w1)"
  define f2 where "f2 = snd (hw_word hw g (a + 2) w2)"
  have page: "flash_page main a" unfolding a_def by (rule flag_page [OF assms])
  have both: "ReadIAPMode hw (dev_flash v) \<noteq> OTA_RUN_APP \<or> ReadIAPMode hw (dev_flash v) \<noteq> OTA_Update_APP"
    by (simp add: OTA_RUN_APP_def OTA_Update_APP_def)
  have u: "dev_flash (ForceUpdateAppMode hw v) = hw_lock hw f2"
    unfolding ForceUpdateAppMode_def if_P [OF both]
    by (simp add: Let_def a_def [symmetric] v1_def [symmetric] f_def [symmetric] w1_def w2_def g_def f2_def)
  have fac: "factory hw (hw_lock hw f2) = factory hw (dev_flash v)"
    using flag_words_factory [OF page, where f = g and i = 2] flag_words_factory [OF page, where f = f and i = 0]
      RunAppMode_erases(1) [OF assms]
    by (simp add: f2_def g_def f_def v1_def factory_lock factory_unlock)
  then have page_same: "flash_page_from_end hw (hw_lock hw f2) FLASH_IAP_FLAG_ADDR = a"
    unfolding a_def by (rule factory_same(3))
  have 6: "hw_byte hw (hw_lock hw f2) (a + 6) = 0xFF"
  proof -
    have "hw_byte hw f2 (a + 6) = hw_byte hw f (a + 6)"
      unfolding f2_def g_def by (simp add: word_frame)
    also have "\<dots> = 0xFF"
      using RunAppMode_erases(2) [OF assms, of 6] by (simp add: f_def v1_def Flash_Unlock_byte a_def)
    finally show ?thesis by (simp add: lock_byte)
  qed
  show ?thesis
  proof
    let ?bs = "flash_bytes hw (hw_lock hw f2) a 8"
    assume "ReadIAPMode hw (dev_flash (ForceUpdateAppMode hw v)) = OTA_Force_Update_APP"
    then have eq: "of_nat (le_dec ?bs) = OTA_Force_Update_APP"
      by (simp add: u ReadIAPMode_def flash_dword_def page_same)
    have len: "length ?bs = 8" by (simp add: flash_bytes_def)
    have "unat (of_nat (le_dec ?bs) :: u64) = 0x1234567812345678"
      unfolding eq by (simp add: OTA_Force_Update_APP_def)
    moreover have "le_dec ?bs < 18446744073709551616" using le_dec_less [of ?bs] len by simp
    ultimately have "le_dec ?bs = 0x1234567812345678" by (simp add: unat_of_nat_u64)
    moreover have "le_dec [0x78, 0x56, 0x34, 0x12, 0x78, 0x56, 0x34, 0x12] = 0x1234567812345678" by simp
    ultimately have "le_dec ?bs = le_dec [0x78, 0x56, 0x34, 0x12, 0x78, 0x56, 0x34, 0x12]" by simp
    then have "?bs = [0x78, 0x56, 0x34, 0x12, 0x78, 0x56, 0x34, 0x12]"
      using len by (intro le_dec_inj) simp_all
    then have "?bs ! 6 = 0x34" by simp
    then show False using 6 by (simp add: flash_bytes_def)
  qed
qed

section \<open>The parameter pages over the contract\<close>

lemma param_page:
  "flash_layout hw main f \<Longrightarrow> p \<in> {FLASH_IAP_PARAM_ADDR, FLASH_APP_PARAM_ADDR} \<Longrightarrow>
     flash_page main (flash_page_from_end hw f p)"
  by (rule flash_page_from_end_page) (auto simp: FLASH_IAP_PARAM_ADDR_def FLASH_APP_PARAM_ADDR_def)

lemma iap_param_save_stores:
  assumes "flash_layout hw main (dev_flash v)" and "length (ChipUniqueID (iap_param v)) = 6"
  shows "\<exists>f'. iap_param_save hw v = Some (v\<lparr>dev_flash := f'\<rparr>) \<and>
    factory hw f' = factory hw (dev_flash v) \<and>
    flash_bytes hw f' (flash_page_from_end hw f' FLASH_IAP_PARAM_ADDR) 24 = iap_param_obj (iap_param v)"
proof -
  let ?a = "flash_page_from_end hw (dev_flash v) FLASH_IAP_PARAM_ADDR"
  note len = iap_param_of_obj(2) [OF assms(2)]
  have "flash_page main ?a" by (rule param_page [OF assms(1)]) simp
  then obtain f' where f': "Flash_Write hw (snd (hw_erase hw (Flash_Unlock hw (dev_flash v)) ?a)) ?a
        (iap_param_obj (iap_param v)) 24 = Some (24, f')"
      "flash_bytes hw f' ?a 24 = iap_param_obj (iap_param v)" "factory hw f' = factory hw (dev_flash v)"
    using page_rewrite [of ?a "iap_param_obj (iap_param v)" "dev_flash v"] len by auto
  have s: "iap_param_save hw v = Some (v\<lparr>dev_flash := hw_lock hw f'\<rparr>)"
    by (simp add: iap_param_save_def Let_def f'(1))
  have fac: "factory hw (hw_lock hw f') = factory hw (dev_flash v)" by (simp add: factory_lock f'(3))
  then have "flash_page_from_end hw (hw_lock hw f') FLASH_IAP_PARAM_ADDR = ?a" by (rule factory_same(3))
  with s fac f'(2) show ?thesis by (auto simp: flash_bytes_lock)
qed

lemma obj_head_flag:
  "iap_Power_First_Flag p = of_nat (le_dec (take 2 (drop 0 (iap_param_obj p))))"
  using le_dec_enc_half [of "iap_Power_First_Flag p"] by (simp add: iap_param_obj_def)

text \<open>Loading what \<open>iap_param_save\<close> stored; \<open>p\<close> are the parameters in flash.\<close>

lemma iap_param_load_stored:
  assumes "flash_bytes hw (dev_flash v) (flash_page_from_end hw (dev_flash v) FLASH_IAP_PARAM_ADDR) 24 = iap_param_obj p"
    and "length (ChipUniqueID p) = 6" and "length (ChipUniqueID (iap_param v)) = 6"
    and "iap_Power_First_Flag p = DEV_FIRST_POWER_FLAG"
  shows "iap_param_load hw v = Some (v\<lparr>iap_param := p\<lparr>IAP_flag := 2\<rparr>\<rparr>)"
proof -
  let ?a = "flash_page_from_end hw (dev_flash v) FLASH_IAP_PARAM_ADDR"
  have h: "flash_half hw (dev_flash v) ?a = DEV_FIRST_POWER_FLAG"
    using flash_half_bytes [OF assms(1), of 0] obj_head_flag [of p] assms(4) by simp
  have "length (iap_param_obj ((iap_param v)\<lparr>iap_Power_First_Flag := DEV_FIRST_POWER_FLAG\<rparr>)) = 24"
    using assms(3) by (intro iap_param_of_obj(2)) simp
  then show ?thesis
    using assms(1) iap_param_of_obj(1) [OF assms(2)] by (simp add: iap_param_load_def Let_def h Flash_Read_def)
qed

text \<open>Loading from a page without the first-power flag stores and loads the defaults.\<close>

lemma iap_param_load_default:
  assumes "flash_layout hw main (dev_flash v)"
    and "flash_half hw (dev_flash v) (flash_page_from_end hw (dev_flash v) FLASH_IAP_PARAM_ADDR) \<noteq> DEV_FIRST_POWER_FLAG"
  shows "\<exists>f'. iap_param_load hw v =
    Some (v\<lparr>iap_param := (iap_defaults (Get_ChipID hw (dev_flash v)))\<lparr>IAP_flag := 2\<rparr>, dev_flash := f'\<rparr>) \<and>
    factory hw f' = factory hw (dev_flash v)"
proof -
  let ?d = "iap_defaults (Get_ChipID hw (dev_flash v))"
  have len: "length (ChipUniqueID ?d) = 6" by (simp add: iap_defaults_def Get_ChipID_def)
  obtain f' where f': "iap_param_save hw (v\<lparr>iap_param := ?d\<rparr>) = Some (v\<lparr>iap_param := ?d, dev_flash := f'\<rparr>)"
      "factory hw f' = factory hw (dev_flash v)"
      "flash_bytes hw f' (flash_page_from_end hw f' FLASH_IAP_PARAM_ADDR) 24 = iap_param_obj ?d"
    using iap_param_save_stores [of "v\<lparr>iap_param := ?d\<rparr>"] assms(1) len by auto
  have "iap_param_load hw v = Some (v\<lparr>iap_param := ?d\<lparr>IAP_flag := 2\<rparr>, dev_flash := f'\<rparr>)"
    using assms(2) f'(1,3) iap_param_of_obj [OF len]
    by (simp add: iap_param_load_def iap_param_default_def Let_def Flash_Read_def iap_defaults_def)
  then show ?thesis using f'(2) by blast
qed

text \<open>Sixteen half words.\<close>

lemma program_halves_stores:
  assumes "flash_page main a" and "even i" and "i + 2 * length ws \<le> 2048" and "ready f"
    and "\<And>k. i \<le> k \<Longrightarrow> k < 2048 \<Longrightarrow> hw_byte hw f (a + of_nat k) = 0xFF"
  shows "ready (program_halves hw f (a + of_nat i) ws) \<and>
    hw_byte hw (program_halves hw f (a + of_nat i) ws) = put_bytes (hw_byte hw f) (a + of_nat i) (halves_enc ws)"
  using assms(2-)
proof (induction ws arbitrary: f i)
  case Nil
  then show ?case by simp
next
  case (Cons w ws)
  have i: "i + 2 \<le> 2048" using Cons.prems(2) by simp
  have even: "(a + of_nat i) mod 2 = 0"
  proof (rule word_unat_eqI)
    have "unat (a + of_nat i) = unat a + i" using i by (intro flash_page_unat [OF assms(1)]) simp
    moreover obtain u where "unat a = 2048 * u" using flash_pageD(1) [OF assms(1)] by blast
    moreover note Cons.prems(1)
    ultimately have "even (unat (a + of_nat i))" by simp
    then show "unat ((a + of_nat i) mod 2) = unat (0 :: u32)" by (simp add: unat_mod)
  qed
  have main: "main (a + of_nat i)" using i by (intro flash_pageD(4) [OF assms(1)]) simp
  have "hw_byte hw f (a + of_nat i + of_nat k) = 0xFF" if "k < 2" for k
    using Cons.prems(4) [of "i + k"] i that by (simp add: add.assoc)
  then have "erased hw f (a + of_nat i) 2" by (simp add: erased_def)
  from program_half [OF Cons.prems(3) even main this, where h = w]
  obtain f1 where f1: "hw_half hw f (a + of_nat i) w = (FLASH_COMPLETE, f1)" "ready f1"
      "hw_byte hw f1 = put_bytes (hw_byte hw f) (a + of_nat i) (le_enc 2 (unat w))"
    by blast
  have ff: "hw_byte hw f1 (a + of_nat k) = 0xFF" if "i + 2 \<le> k" "k < 2048" for k
  proof -
    have "\<not> k - i < 2" using that by linarith
    then have "hw_byte hw f1 (a + of_nat i + of_nat (k - i)) = 0xFF"
      unfolding f1(3) using that Cons.prems(4) [of k] put_bytes_at [of "k - i" "hw_byte hw f" "a + of_nat i"]
      by (simp add: of_nat_diff)
    then show ?thesis using that by (simp add: of_nat_diff)
  qed
  have IH: "ready (program_halves hw f1 (a + of_nat (i + 2)) ws) \<and>
    hw_byte hw (program_halves hw f1 (a + of_nat (i + 2)) ws) =
      put_bytes (hw_byte hw f1) (a + of_nat (i + 2)) (halves_enc ws)"
    using Cons.prems(1,2) ff by (intro Cons.IH [OF _ _ f1(2)]) simp_all
  have "put_bytes (put_bytes (hw_byte hw f) (a + of_nat i) (le_enc 2 (unat w))) (a + of_nat (i + 2)) (halves_enc ws) =
      put_bytes (hw_byte hw f) (a + of_nat i) (halves_enc (w # ws))"
  proof (cases "ws = []")
    case True
    then show ?thesis by simp
  next
    case False
    then have "halves_enc ws \<noteq> []" by (cases ws) (simp_all add: le_enc_2)
    then show ?thesis
      using put_bytes_append [of "le_enc 2 (unat w)" "halves_enc ws" "hw_byte hw f" "a + of_nat i"] Cons.prems(2)
      by (simp add: ac_simps)
  qed
  with IH show ?case by (simp add: f1(1,3) ac_simps)
qed

lemma stm32_param_save_stores:
  assumes "flash_layout hw main (dev_flash v)" and "length (net_params v) = 16"
  shows "\<exists>f'. stm32_param_save hw v = Some (v\<lparr>dev_flash := f'\<rparr>) \<and>
    factory hw f' = factory hw (dev_flash v) \<and>
    flash_bytes hw f' (flash_page_from_end hw f' FLASH_APP_PARAM_ADDR) 39 =
      halves_enc (map ucast (net_params v)) @ dev_param_obj (dev_param v)"
proof -
  let ?a = "flash_page_from_end hw (dev_flash v) FLASH_APP_PARAM_ADDR"
  let ?ws = "map ucast (net_params v) :: u16 list"
  have page: "flash_page main ?a" by (rule param_page [OF assms(1)]) simp
  obtain f1 where f1: "hw_erase hw (Flash_Unlock hw (dev_flash v)) ?a = (FLASH_COMPLETE, f1)" "ready f1"
      "factory hw f1 = factory hw (dev_flash v)" "\<forall>k < 2048. hw_byte hw f1 (?a + of_nat k) = 0xFF"
    using page_erased [OF page] by blast
  define f2 where "f2 = program_halves hw f1 ?a ?ws"
  have f2: "hw_byte hw f2 = put_bytes (hw_byte hw f1) (?a + of_nat 0) (halves_enc ?ws)"
    using program_halves_stores [OF page, of 0 ?ws f1] f1(2,4) assms(2) by (simp add: f2_def)
  have fac2: "factory hw f2 = factory hw (dev_flash v)"
    using page_factory [OF page _ f2] assms(2) f1(3) by simp
  have ff: "hw_byte hw f2 (?a + of_nat k) = 0xFF" if "32 \<le> k" "k < 2048" for k
    using that f1(4) assms(2) put_bytes_at [of k "hw_byte hw f1" ?a "halves_enc ?ws"] by (simp add: f2)
  obtain f3 where f3: "Flash_Write hw f2 (?a + of_nat 32) (dev_param_obj (dev_param v)) 7 = Some (7, f3)"
      "hw_byte hw f3 = put_bytes (hw_byte hw f2) (?a + of_nat 32) (dev_param_obj (dev_param v))"
      "factory hw f3 = factory hw f2"
    using page_store [OF page, of 32 "dev_param_obj (dev_param v)" f2] ff dev_param_of_obj(2) [of "dev_param v"]
    by auto
  have s: "stm32_param_save hw v = Some (v\<lparr>dev_flash := hw_lock hw f3\<rparr>)"
    using f3(1) by (simp add: stm32_param_save_def Let_def f1(1) f2_def)
  have fac: "factory hw (hw_lock hw f3) = factory hw (dev_flash v)" by (simp add: factory_lock f3(3) fac2)
  have a: "flash_page_from_end hw (hw_lock hw f3) FLASH_APP_PARAM_ADDR = ?a"
    using fac by (rule factory_same(3))
  have "hw_byte hw f3 = put_bytes (hw_byte hw f1) (?a + of_nat 0) (halves_enc ?ws @ dev_param_obj (dev_param v))"
    using put_bytes_append [of "halves_enc ?ws" "dev_param_obj (dev_param v)" "hw_byte hw f1" ?a] f2 f3(2) assms(2)
      dev_param_of_obj(2) [of "dev_param v"] by fastforce
  from flash_bytes_put [OF this, of 0 39] assms(2) dev_param_of_obj(2) [of "dev_param v"]
  have "flash_bytes hw f3 ?a 39 = halves_enc ?ws @ dev_param_obj (dev_param v)" by simp
  with s fac a show ?thesis by (auto simp: flash_bytes_lock)
qed

text \<open>Saving, then loading in a device with the same flash.\<close>

lemma iap_param_save_load:
  assumes "flash_layout hw main (dev_flash v)"
    and "length (ChipUniqueID (iap_param v)) = 6" and "length (ChipUniqueID (iap_param w)) = 6"
  shows "\<exists>v'. iap_param_save hw v = Some v' \<and>
    (dev_flash w = dev_flash v' \<longrightarrow> (\<exists>w'. iap_param_load hw w = Some w' \<and>
      iap_param w' = (if iap_Power_First_Flag (iap_param v) = DEV_FIRST_POWER_FLAG then iap_param v
        else iap_defaults (Get_ChipID hw (dev_flash v)))\<lparr>IAP_flag := 2\<rparr>))"
proof -
  obtain f' where f': "iap_param_save hw v = Some (v\<lparr>dev_flash := f'\<rparr>)" "factory hw f' = factory hw (dev_flash v)"
      "flash_bytes hw f' (flash_page_from_end hw f' FLASH_IAP_PARAM_ADDR) 24 = iap_param_obj (iap_param v)"
    using iap_param_save_stores [OF assms(1,2)] by blast
  have "\<exists>w'. iap_param_load hw w = Some w' \<and>
      iap_param w' = (if iap_Power_First_Flag (iap_param v) = DEV_FIRST_POWER_FLAG then iap_param v
        else iap_defaults (Get_ChipID hw (dev_flash v)))\<lparr>IAP_flag := 2\<rparr>" if w: "dev_flash w = f'"
  proof (cases "iap_Power_First_Flag (iap_param v) = DEV_FIRST_POWER_FLAG")
    case True
    then show ?thesis using iap_param_load_stored [OF _ assms(2,3)] f'(3) w by simp
  next
    case False
    have "flash_half hw f' (flash_page_from_end hw f' FLASH_IAP_PARAM_ADDR) \<noteq> DEV_FIRST_POWER_FLAG"
      using flash_half_bytes [OF f'(3), of 0] obj_head_flag [of "iap_param v"] False by simp
    with w iap_param_load_default [of w] factory_same(4) [OF f'(2)] assms(1)
    obtain f2 where "iap_param_load hw w =
        Some (w\<lparr>iap_param := (iap_defaults (Get_ChipID hw (dev_flash w)))\<lparr>IAP_flag := 2\<rparr>, dev_flash := f2\<rparr>)"
      by auto
    then show ?thesis using False w factory_same(2) [OF f'(2)] by simp
  qed
  with f'(1) show ?thesis by auto
qed

lemma iap_param_load_total:
  assumes "flash_layout hw main (dev_flash v)" and "length (ChipUniqueID (iap_param v)) = 6"
  shows "\<exists>f' p. iap_param_load hw v = Some (v\<lparr>iap_param := p, dev_flash := f'\<rparr>)"
proof (cases "flash_half hw (dev_flash v) (flash_page_from_end hw (dev_flash v) FLASH_IAP_PARAM_ADDR) = DEV_FIRST_POWER_FLAG")
  case False
  then show ?thesis using iap_param_load_default [OF assms(1)] by blast
next
  case True
  have "length (iap_param_obj ((iap_param v)\<lparr>iap_Power_First_Flag := DEV_FIRST_POWER_FLAG\<rparr>)) = 24"
    using assms(2) by (intro iap_param_of_obj(2)) simp
  then have "\<exists>p. iap_param_load hw v = Some (v\<lparr>iap_param := p\<rparr>)"
    by (simp add: iap_param_load_def Let_def True Flash_Read_def) blast
  moreover have "v\<lparr>iap_param := p\<rparr> = v\<lparr>iap_param := p, dev_flash := dev_flash v\<rparr>" for p by simp
  ultimately show ?thesis by metis
qed

lemma stm32_param_load_default:
  assumes lay: "flash_layout hw main (dev_flash v)" and chip: "length (ChipUniqueID (iap_param v)) = 6"
    and other: "flash_half hw (dev_flash v) (flash_page_from_end hw (dev_flash v) FLASH_APP_PARAM_ADDR) \<noteq> DEV_APP_FIRST_POWER_FLAG"
  shows "\<exists>v'. stm32_param_load hw v = Some v' \<and>
    net_params v' = [192, 168, 1, 100, 255, 255, 255, 0, 192, 168, 1, 1, 192, 168, 1, 1] \<and>
    dev_param v' = \<lparr>dev_Power_First_Flag = DEV_APP_FIRST_POWER_FLAG, mswork_mode = 0, version = 1,
       analog_dial_switch = 0\<rparr> \<and> ID (iap_param v') = 0x0201"
proof -
  let ?net = "[192, 168, 1, 100, 255, 255, 255, 0, 192, 168, 1, 1, 192, 168, 1, 1] :: u8 list"
  let ?dev = "\<lparr>dev_Power_First_Flag = DEV_APP_FIRST_POWER_FLAG, mswork_mode = 0, version = 1, analog_dial_switch = 0\<rparr>"
  define d where "d = v\<lparr>RT_LWIP_IPADDR := [192, 168, 1, 100], RT_LWIP_MSKADDR := [255, 255, 255, 0],
     RT_LWIP_GWADDR := [192, 168, 1, 1], RT_LWIP_DNSADDR := [192, 168, 1, 1], dev_param := ?dev\<rparr>"
  have net: "net_params d = ?net" "dev_flash d = dev_flash v" "dev_param d = ?dev"
    by (simp_all add: d_def net_params_def)
  have ld: "flash_layout hw main (dev_flash d)" "length (net_params d) = 16" using lay net by simp_all
  from stm32_param_save_stores [OF ld]
  obtain f' where f': "stm32_param_save hw d = Some (d\<lparr>dev_flash := f'\<rparr>)" "factory hw f' = factory hw (dev_flash v)"
      "flash_bytes hw f' (flash_page_from_end hw f' FLASH_APP_PARAM_ADDR) 39 =
        halves_enc (map ucast ?net) @ dev_param_obj ?dev"
    unfolding net by blast
  define a where "a = flash_page_from_end hw (dev_flash v) FLASH_APP_PARAM_ADDR"
  have a: "flash_page_from_end hw f' FLASH_APP_PARAM_ADDR = a"
    unfolding a_def using f'(2) by (rule factory_same(3))
  have lay': "flash_layout hw main f'" using factory_same(4) [OF f'(2)] lay by simp
  have half: "flash_half hw f' (a + of_nat (2 * k)) = (map ucast ?net) ! k" if "k < 16" for k
    using that by (intro flash_half_halves [OF f'(3) [unfolded a]]) simp
  have net': "load_bytes4 hw f' a = [192, 168, 1, 100]" "load_bytes4 hw f' (a + 8) = [255, 255, 255, 0]"
      "load_bytes4 hw f' (a + 16) = [192, 168, 1, 1]" "load_bytes4 hw f' (a + 24) = [192, 168, 1, 1]"
    using half [of 0] half [of 1] half [of 2] half [of 3] half [of 4] half [of 5] half [of 6] half [of 7]
      half [of 8] half [of 9] half [of 10] half [of 11] half [of 12] half [of 13] half [of 14] half [of 15]
    by (simp_all add: load_bytes4_def add.assoc)
  have "flash_bytes hw f' a 32 @ flash_bytes hw f' (a + of_nat 32) 7 = halves_enc (map ucast ?net) @ dev_param_obj ?dev"
    using f'(3) flash_bytes_append [of hw f' a 32 7] by (simp add: a)
  moreover have "length (flash_bytes hw f' a 32) = length (halves_enc (map ucast ?net))"
    by (simp add: flash_bytes_def)
  ultimately have "flash_bytes hw f' (a + of_nat 32) 7 = dev_param_obj ?dev"
    using append_eq_append_conv by blast
  then have obj: "flash_bytes hw f' (a + 32) 7 = dev_param_obj ?dev" by simp
  define w where "w = d\<lparr>dev_flash := f', dev_param := ?dev\<rparr>"
  obtain f2 p where p: "iap_param_load hw w = Some (w\<lparr>iap_param := p, dev_flash := f2\<rparr>)"
    using iap_param_load_total [of w] lay' chip by (auto simp: w_def d_def)
  have "stm32_param_load hw v = Some (device_id_set DCG (realtime_param_init (w\<lparr>iap_param := p, dev_flash := f2\<rparr>)))"
  proof -
    have dflt: "stm32_param_default hw (v\<lparr>dev_param := (dev_param v)\<lparr>dev_Power_First_Flag := x\<rparr>\<rparr>) =
        Some (d\<lparr>dev_flash := f'\<rparr>)" for x
      using f'(1) by (simp add: stm32_param_default_def d_def)
    have r: "Flash_Read hw f' (a + 32) (dev_param_obj ?dev) 7 = Some (7, dev_param_obj ?dev)"
      by (simp add: Flash_Read_def obj dev_param_of_obj(2))
    have same: "d\<lparr>dev_flash := f', RT_LWIP_IPADDR := [192, 168, 1, 100], RT_LWIP_MSKADDR := [255, 255, 255, 0],
        RT_LWIP_GWADDR := [192, 168, 1, 1], RT_LWIP_DNSADDR := [192, 168, 1, 1], dev_param := ?dev\<rparr> = w"
      by (simp add: w_def d_def)
    show ?thesis
      using other p same
      by (simp add: stm32_param_load_def Let_def a_def [symmetric] dflt net' net(3) r dev_param_of_obj(1))
  qed
  then show ?thesis
    by (simp add: device_id_set_def realtime_param_init_def w_def d_def net_params_def)
qed

lemma stm32_param_save_load:
  assumes "flash_layout hw main (dev_flash v)"
    and "length (net_params v) = 16" and "length (ChipUniqueID (iap_param w)) = 6"
  shows "\<exists>v'. stm32_param_save hw v = Some v' \<and>
    (dev_flash w = dev_flash v' \<longrightarrow> (\<exists>w'. stm32_param_load hw w = Some w' \<and>
      net_params w' = [192, 168, 1, 100, 255, 255, 255, 0, 192, 168, 1, 1, 192, 168, 1, 1] \<and>
      dev_param w' = \<lparr>dev_Power_First_Flag = DEV_APP_FIRST_POWER_FLAG, mswork_mode = 0, version = 1,
        analog_dial_switch = 0\<rparr> \<and> ID (iap_param w') = 0x0201))"
proof -
  obtain f' where f': "stm32_param_save hw v = Some (v\<lparr>dev_flash := f'\<rparr>)" "factory hw f' = factory hw (dev_flash v)"
      "flash_bytes hw f' (flash_page_from_end hw f' FLASH_APP_PARAM_ADDR) 39 =
        halves_enc (map ucast (net_params v)) @ dev_param_obj (dev_param v)"
    using stm32_param_save_stores [OF assms(1,2)] by blast
  have "flash_half hw f' (flash_page_from_end hw f' FLASH_APP_PARAM_ADDR + of_nat (2 * 0)) =
      map ucast (net_params v) ! 0"
    using assms(2) by (intro flash_half_halves [OF f'(3)]) simp
  also have "\<dots> = ucast (net_params v ! 0)" using assms(2) by (simp add: nth_map)
  finally have h: "unat (flash_half hw f' (flash_page_from_end hw f' FLASH_APP_PARAM_ADDR)) < 256"
    using unat_less_u8 [of "net_params v ! 0"] by (simp add: unat_ucast_u8_u16)
  have "flash_half hw f' (flash_page_from_end hw f' FLASH_APP_PARAM_ADDR) \<noteq> DEV_APP_FIRST_POWER_FLAG"
  proof
    assume "flash_half hw f' (flash_page_from_end hw f' FLASH_APP_PARAM_ADDR) = DEV_APP_FIRST_POWER_FLAG"
    with h show False by (simp add: DEV_APP_FIRST_POWER_FLAG_def)
  qed
  with stm32_param_load_default [of w, OF _ assms(3)] factory_same(4) [OF f'(2)] assms(1)
  show ?thesis unfolding f'(1) by (intro exI [of _ "v\<lparr>dev_flash := f'\<rparr>"]) simp
qed

end

section \<open>Properties\<close>

definition sample_vars :: "stm32f1 dev_vars" where
  "sample_vars = \<lparr>dev_flash = blank_flash, IAP_FLAG = 0,
     iap_param = \<lparr>iap_Power_First_Flag = DEV_FIRST_POWER_FLAG, ChipUniqueID = [1, 2, 3, 4, 5, 6],
       swversion = 7, hwversion = 8, IAP_flag = 1, remoteID = 0x55, ID = 0x0201\<rparr>,
     RT_LWIP_IPADDR = [10, 0, 0, 2], RT_LWIP_GWADDR = [10, 0, 0, 1], RT_LWIP_MSKADDR = [255, 0, 0, 0],
     RT_LWIP_DNSADDR = [10, 0, 0, 1],
     dev_param = \<lparr>dev_Power_First_Flag = DEV_APP_FIRST_POWER_FLAG, mswork_mode = 1, version = 3,
       analog_dial_switch = 1\<rparr>,
     realtime_param = \<lparr>voltage = 0, current = 0, heartbeat_count = 0, can_debug_flag = 0\<rparr>\<rparr>"

lemma sample_size: "Get_FlashSize stm32_hw blank_flash = 256"
proof -
  have "flash_bytes stm32_hw blank_flash FLASH_SIZE_ADDR 2 = [0, 1]"
    by (simp add: flash_bytes_def stm32_hw_def blank_flash_def FLASH_SIZE_ADDR_def upt_rec)
  then show ?thesis by (simp add: Get_FlashSize_def)
qed

lemma sample_blank:
  assumes "unat a + n \<le> 0x08040000" and "k < n"
  shows "hw_byte stm32_hw blank_flash (a + of_nat k) = 0xFF"
proof -
  have "unat (a + of_nat k) < 0x08040000"
    using assms by (simp add: unat_word_ariths unat_of_nat_u32)
  then have "a + of_nat k \<noteq> FLASH_SIZE_ADDR" "a + of_nat k \<noteq> FLASH_SIZE_ADDR + 1"
    by (auto simp: FLASH_SIZE_ADDR_def)
  then show ?thesis by (simp add: stm32_hw_def blank_flash_def)
qed

lemma sample_layout: "flash_layout stm32_hw stm32_main (dev_flash sample_vars)"
proof -
  have "Get_FlashSize stm32_hw blank_flash = 256" by (rule sample_size)
  then show ?thesis
    by (simp add: flash_layout_def sample_vars_def stm32_main_def word_le_nat_alt word_less_nat_alt)
qed

text \<open>On a flash that behaves as the manual says, \<open>RunAppMode\<close> leaves the update flag in the
  state "run" and \<open>UpdateAppMode\<close> leaves it in the state "update", whatever the flag was before:
  the two overlapping words it programs never hit a cell that is already written.\<close>

theorem update_flag_set:
  assumes "flash_device hw ready main" and "flash_layout hw main (dev_flash v)"
  shows "ReadIAPMode hw (dev_flash (RunAppMode hw v)) = OTA_RUN_APP \<and>
    ReadIAPMode hw (dev_flash (UpdateAppMode hw v)) = OTA_Update_APP \<and>
    IAP_FLAG (UpdateAppMode hw v) = OTA_Update_APP"
  using flash_device.RunAppMode_flag [OF assms] flash_device.UpdateAppMode_flag [OF assms] by simp

theorem update_flag_set_witness:
  "ReadIAPMode stm32_hw (dev_flash (UpdateAppMode stm32_hw sample_vars)) = OTA_Update_APP"
  using update_flag_set [OF stm32.flash_device_axioms sample_layout] by simp

text \<open>\<open>ForceUpdateAppMode\<close> never sets the forced-update flag. It programs two overlapping words
  of a 64-bit flag whose upper half word it never writes, so the bootloader cannot read
  \<open>OTA_Force_Update_APP\<close>.\<close>

theorem forced_update_never_set:
  assumes "flash_device hw ready main" and "flash_layout hw main (dev_flash v)"
  shows "ReadIAPMode hw (dev_flash (ForceUpdateAppMode hw v)) \<noteq> OTA_Force_Update_APP"
  by (rule flash_device.ForceUpdateAppMode_flag [OF assms])

theorem forced_update_never_set_witness:
  "ReadIAPMode stm32_hw (dev_flash (ForceUpdateAppMode stm32_hw sample_vars)) \<noteq> OTA_Force_Update_APP"
  by (rule forced_update_never_set [OF stm32.flash_device_axioms sample_layout])

text \<open>C24: the IAP parameters survive a reset. After \<open>iap_param_save\<close>, \<open>iap_param_load\<close> in a device
  whose memory holds anything else returns the saved parameters with the flag "application",
  provided the first-power flag is set; otherwise it stores and returns the defaults with the
  identifier of the chip.\<close>

theorem iap_param_survives_reset:
  assumes dev: "flash_device hw ready main" and lay: "flash_layout hw main (dev_flash v)"
    and chip: "length (ChipUniqueID (iap_param v)) = 6" "length (ChipUniqueID (iap_param w)) = 6"
  shows "\<exists>v'. iap_param_save hw v = Some v' \<and>
    (dev_flash w = dev_flash v' \<longrightarrow> (\<exists>w'. iap_param_load hw w = Some w' \<and>
      iap_param w' = (if iap_Power_First_Flag (iap_param v) = DEV_FIRST_POWER_FLAG then iap_param v
        else iap_defaults (Get_ChipID hw (dev_flash v)))\<lparr>IAP_flag := 2\<rparr>))"
  by (rule flash_device.iap_param_save_load [OF assms])

theorem iap_param_survives_reset_witness:
  "\<exists>v' w'. iap_param_save stm32_hw sample_vars = Some v' \<and>
     iap_param_load stm32_hw (sample_vars\<lparr>dev_flash := dev_flash v', iap_param := iap_defaults [0, 0, 0, 0, 0, 0]\<rparr>) =
       Some w' \<and> remoteID (iap_param w') = 0x55"
  using iap_param_survives_reset [OF stm32.flash_device_axioms sample_layout,
      of "sample_vars\<lparr>dev_flash := dev_flash (the (iap_param_save stm32_hw sample_vars)),
        iap_param := iap_defaults [0, 0, 0, 0, 0, 0]\<rparr>"]
  by (auto simp: sample_vars_def iap_defaults_def)

text \<open>The application parameters do not survive a reset. Whatever \<open>stm32_param_save\<close> stored,
  the next \<open>stm32_param_load\<close> compares the first octet of the IP address with the first-power
  flag, finds them different and replaces every parameter by its default; the device ID is then
  that of the master board.\<close>

theorem stm32_param_always_default:
  assumes "flash_device hw ready main" and "flash_layout hw main (dev_flash v)"
    and "length (net_params v) = 16" and "length (ChipUniqueID (iap_param w)) = 6"
  shows "\<exists>v'. stm32_param_save hw v = Some v' \<and>
    (dev_flash w = dev_flash v' \<longrightarrow> (\<exists>w'. stm32_param_load hw w = Some w' \<and>
      net_params w' = [192, 168, 1, 100, 255, 255, 255, 0, 192, 168, 1, 1, 192, 168, 1, 1] \<and>
      dev_param w' = \<lparr>dev_Power_First_Flag = DEV_APP_FIRST_POWER_FLAG, mswork_mode = 0, version = 1,
        analog_dial_switch = 0\<rparr> \<and> ID (iap_param w') = 0x0201))"
  by (rule flash_device.stm32_param_save_load [OF assms])

theorem stm32_param_always_default_witness:
  "\<exists>v' w'. stm32_param_save stm32_hw sample_vars = Some v' \<and>
     stm32_param_load stm32_hw (sample_vars\<lparr>dev_flash := dev_flash v'\<rparr>) = Some w' \<and>
     mswork_mode (dev_param sample_vars) = 1 \<and> mswork_mode (dev_param w') = 0"
  using stm32_param_always_default [OF stm32.flash_device_axioms sample_layout,
      of "sample_vars\<lparr>dev_flash := dev_flash (the (stm32_param_save stm32_hw sample_vars))\<rparr>"]
  by (auto simp: sample_vars_def net_params_def)

end
