(* ===== verification/Can_Bus.thy ===== *)
theory Can_Bus
  imports Ring_Buffer
begin

text \<open>
  The CAN path below the protocols: the receive ring filled by the interrupt and emptied by the
  CAN thread, the polled transmission of one message (drivers/drv_can.c) and the fragmentation of a
  byte block into messages (\<open>canbus_middle_send\<close>, bsp/DCG/app/canbus_middle.c). The peripheral is
  the parameter \<open>can_hw\<close>: \<open>CAN_Transmit\<close> loads a mailbox, \<open>CAN_TransmitStatus\<close> polls it. The
  pointers these functions get are addresses of objects; their NULL checks are left out.
\<close>

record can_msg =
  StdId :: u32
  IDE :: u8
  RTR :: u8
  DLC :: u8
  Data :: "u8 list"

definition CAN_RX_BUFFER_SIZE :: u32 where "CAN_RX_BUFFER_SIZE = 20"
definition CAN_TX_TRY_TIMES :: nat where "CAN_TX_TRY_TIMES = 2"
definition CAN_Id_Standard :: u8 where "CAN_Id_Standard = 0"
definition CAN_RTR_Data :: u8 where "CAN_RTR_Data = 0"

section \<open>The receive ring\<close>

record CANBus_type =
  CANRxBuf :: "can_msg list"
  CanRx_Read :: u32
  CanRx_Write :: u32

text \<open>\<open>Some (None, can)\<close> is the return value FALSE.\<close>

definition stm32_CAN_recv :: "CANBus_type \<Rightarrow> (can_msg option \<times> CANBus_type) option" where
  "stm32_CAN_recv can =
     (if CanRx_Read can = CanRx_Write can then Some (None, can)
      else do {
        rx \<leftarrow> rd (CANRxBuf can) (unat (CanRx_Read can));
        let can = can\<lparr>CanRx_Read := CanRx_Read can + 1\<rparr>;
        r \<leftarrow> umod (CanRx_Read can) CAN_RX_BUFFER_SIZE;
        Some (Some rx, can\<lparr>CanRx_Read := r\<rparr>)
      })"

definition stm32_CAN_clear :: "CANBus_type \<Rightarrow> bool \<times> CANBus_type" where
  "stm32_CAN_clear can = (True, can\<lparr>CanRx_Read := CanRx_Write can\<rparr>)"

text \<open>One pending message in the interrupt handler: \<open>CAN_Receive\<close> stores it in the next slot, then
  the indices move.\<close>

definition can_rx_store :: "CANBus_type \<Rightarrow> can_msg \<Rightarrow> CANBus_type option" where
  "can_rx_store can msg = do {
     b \<leftarrow> wr (CANRxBuf can) (unat (CanRx_Write can)) msg;
     Some (can\<lparr>CANRxBuf := b, CanRx_Write := CanRx_Write can + 1\<rparr>)
   }"

definition can_rx_advance :: "CANBus_type \<Rightarrow> CANBus_type option" where
  "can_rx_advance can = do {
     w \<leftarrow> umod (CanRx_Write can) CAN_RX_BUFFER_SIZE;
     let can = can\<lparr>CanRx_Write := w\<rparr>;
     if CanRx_Write can = CanRx_Read can
     then do {
       r \<leftarrow> umod (CanRx_Read can + 1) CAN_RX_BUFFER_SIZE;
       Some (can\<lparr>CanRx_Read := r\<rparr>)
     }
     else Some can
   }"

text \<open>The handler of a build without the motor commands of the DCG board.\<close>

fun stm32_CAN_recv_isr :: "CANBus_type \<Rightarrow> can_msg list \<Rightarrow> CANBus_type option" where
  "stm32_CAN_recv_isr can [] = Some can"
| "stm32_CAN_recv_isr can (msg # pending) = do {
     can \<leftarrow> can_rx_store can msg;
     can \<leftarrow> can_rx_advance can;
     stm32_CAN_recv_isr can pending
   }"

section \<open>Transmission\<close>

record 'c can_hw =
  CAN_Transmit :: "'c \<Rightarrow> can_msg \<Rightarrow> u8 \<times> 'c"
  CAN_TransmitStatus :: "'c \<Rightarrow> u8 \<Rightarrow> bool \<times> 'c"

text \<open>\<open>while (uwCounter++ <= 0xFFFF)\<close>: \<open>n\<close> polls are left.\<close>

fun CAN_poll :: "'c can_hw \<Rightarrow> 'c \<Rightarrow> u8 \<Rightarrow> nat \<Rightarrow> bool \<times> 'c" where
  "CAN_poll hw c mb 0 = (False, c)"
| "CAN_poll hw c mb (Suc n) =
     (let r = CAN_TransmitStatus hw c mb in if fst r then (True, snd r) else CAN_poll hw (snd r) mb n)"

text \<open>\<open>tries\<close> attempts are left.\<close>

fun stm32_CAN_send_loop :: "'c can_hw \<Rightarrow> 'c \<Rightarrow> can_msg \<Rightarrow> nat \<Rightarrow> bool \<times> 'c" where
  "stm32_CAN_send_loop hw c tx 0 = (False, c)"
| "stm32_CAN_send_loop hw c tx (Suc tries) = (let
     (transmit_mailbox, c) = CAN_Transmit hw c tx;
     (done, c) = CAN_poll hw c transmit_mailbox (0xFFFF + 1)
   in if done then (True, c) else stm32_CAN_send_loop hw c tx tries)"

definition stm32_CAN_send :: "'c can_hw \<Rightarrow> 'c \<Rightarrow> can_msg \<Rightarrow> bool \<times> 'c" where
  "stm32_CAN_send hw c tx = stm32_CAN_send_loop hw c tx CAN_TX_TRY_TIMES"

text \<open>\<open>memcpy(tx.Data, buf + off, n)\<close>\<close>

definition tx_load :: "can_msg \<Rightarrow> u8 list \<Rightarrow> nat \<Rightarrow> nat \<Rightarrow> can_msg option" where
  "tx_load tx buf off n = do {
     bs \<leftarrow> rds buf off n;
     d \<leftarrow> wrs (Data tx) 0 bs;
     Some (tx\<lparr>DLC := of_nat n, Data := d\<rparr>)
   }"

text \<open>\<open>i\<close> whole messages are sent, \<open>n\<close> are left; \<open>Inl i\<close> when message \<open>i\<close> was not taken.\<close>

fun canbus_send_loop ::
  "'c can_hw \<Rightarrow> 'c \<Rightarrow> can_msg \<Rightarrow> u8 list \<Rightarrow> nat \<Rightarrow> nat \<Rightarrow> ((nat + can_msg) \<times> 'c) option" where
  "canbus_send_loop hw c tx buf i 0 = Some (Inr tx, c)"
| "canbus_send_loop hw c tx buf i (Suc n) = do {
     tx \<leftarrow> tx_load tx buf (i * 8) 8;
     let r = stm32_CAN_send hw c tx;
     if \<not> fst r then Some (Inl i, snd r) else canbus_send_loop hw (snd r) tx buf (Suc i) n
   }"

text \<open>\<open>tx0\<close> is the uninitialised message on the stack.\<close>

definition canbus_middle_send ::
  "'c can_hw \<Rightarrow> 'c \<Rightarrow> can_msg \<Rightarrow> u32 \<Rightarrow> u8 list \<Rightarrow> u32 \<Rightarrow> (u32 \<times> 'c) option" where
  "canbus_middle_send hw c tx0 stdID buf len =
     (if len = 0 then Some (0, c)
      else do {
        let num = len div 8;
        let len_left = len mod 8;
        let tx = tx0\<lparr>StdId := stdID, IDE := CAN_Id_Standard, RTR := CAN_RTR_Data\<rparr>;
        (r, c) \<leftarrow> canbus_send_loop hw c tx buf 0 (unat num);
        (case r of
           Inl i \<Rightarrow> Some (of_nat (i * 8), c)
         | Inr tx \<Rightarrow>
             if len_left \<noteq> 0 then do {
               tx \<leftarrow> tx_load tx buf (unat num * 8) (unat len_left);
               let s = stm32_CAN_send hw c tx;
               Some (if \<not> fst s then num * 8 else len, snd s)
             }
             else Some (len, c))
      })"

section \<open>The ring as a bounded queue\<close>

text \<open>\<open>c\<close> slots of a ring of \<open>n\<close>, from slot \<open>h\<close> on.\<close>

definition ring_view :: "'a list \<Rightarrow> nat \<Rightarrow> nat \<Rightarrow> nat \<Rightarrow> 'a list" where
  "ring_view m n h c = map (\<lambda>k. m ! ((h + k) mod n)) [0..<c]"

lemma length_ring_view [simp]: "length (ring_view m n h c) = c"
  by (simp add: ring_view_def)

lemma ring_view_push:
  assumes "h < n" and "c < n" and "length m = n"
  shows "ring_view (m[(h + c) mod n := x]) n h (Suc c) = ring_view m n h c @ [x]"
proof (rule nth_equalityI)
  fix k assume "k < length (ring_view (m[(h + c) mod n := x]) n h (Suc c))"
  then consider "k < c" | "k = c" by fastforce
  then show "ring_view (m[(h + c) mod n := x]) n h (Suc c) ! k = (ring_view m n h c @ [x]) ! k"
  proof cases
    case 1
    then show ?thesis using mod_plus_neq [of k c n h] assms by (simp add: ring_view_def nth_append)
  next
    case 2
    then show ?thesis using assms by (simp add: ring_view_def nth_append)
  qed
qed simp

lemma ring_view_pop: "ring_view m n ((h + 1) mod n) c = tl (ring_view m n h (Suc c))"
  by (rule nth_equalityI) (simp_all add: ring_view_def nth_tl mod_simps del: upt_Suc)

definition can_ok :: "CANBus_type \<Rightarrow> bool" where
  "can_ok can \<longleftrightarrow> length (CANRxBuf can) = 20 \<and> unat (CanRx_Read can) < 20 \<and> unat (CanRx_Write can) < 20"

definition can_count :: "CANBus_type \<Rightarrow> nat" where
  "can_count can = (20 + unat (CanRx_Write can) - unat (CanRx_Read can)) mod 20"

definition can_pending :: "CANBus_type \<Rightarrow> can_msg list" where
  "can_pending can = ring_view (CANRxBuf can) 20 (unat (CanRx_Read can)) (can_count can)"

lemma can_write_index:
  assumes "can_ok can"
  shows "unat (CanRx_Write can) = (unat (CanRx_Read can) + can_count can) mod 20" and "can_count can < 20"
  using assms by (auto simp: can_ok_def can_count_def ring_diff_mod)

lemma can_succ: "unat w < 20 \<Longrightarrow> unat ((w + 1) mod CAN_RX_BUFFER_SIZE) = (unat w + 1) mod 20"
  using ring_succ [of w CAN_RX_BUFFER_SIZE] by (simp add: CAN_RX_BUFFER_SIZE_def)

lemma umod_rx: "umod a CAN_RX_BUFFER_SIZE = Some (a mod CAN_RX_BUFFER_SIZE)"
  by (rule umod_Some) (simp add: CAN_RX_BUFFER_SIZE_def)

lemma can_count_of:
  "unat (CanRx_Read can) = h \<Longrightarrow> unat (CanRx_Write can) = (h + c) mod 20 \<Longrightarrow> h < 20 \<Longrightarrow> c < 20 \<Longrightarrow>
     can_count can = c"
  by (simp add: can_count_def ring_count_of_tail)

lemma can_rx_message:
  assumes "can_ok can"
  shows "\<exists>can1 can'. can_rx_store can msg = Some can1 \<and> can_rx_advance can1 = Some can' \<and> can_ok can' \<and>
    can_pending can' = lastn 19 (can_pending can @ [msg])"
proof -
  define h c m where hcm: "h = unat (CanRx_Read can)" "c = can_count can" "m = CANRxBuf can"
  note w = can_write_index [OF assms]
  have b: "length m = 20" "h < 20" "unat (CanRx_Write can) < 20" "c < 20"
    using assms w(2) by (simp_all add: can_ok_def hcm)
  define can1 where "can1 = can\<lparr>CANRxBuf := m[(h + c) mod 20 := msg], CanRx_Write := CanRx_Write can + 1\<rparr>"
  have 1: "can_rx_store can msg = Some can1"
    using b w(1) by (simp add: can_rx_store_def can1_def wr_Some hcm)
  have w1: "unat ((CanRx_Write can + 1) mod CAN_RX_BUFFER_SIZE) = (h + Suc c) mod 20"
    using can_succ [OF b(3)] w(1) by (simp add: hcm mod_simps)
  have view: "ring_view (m[(h + c) mod 20 := msg]) 20 h (Suc c) = can_pending can @ [msg]"
    using ring_view_push [OF b(2,4,1), of msg] by (simp add: can_pending_def hcm)
  show ?thesis
  proof (cases "Suc c = 20")
    case False
    then have c: "Suc c < 20" using b(4) by simp
    have ne: "(CanRx_Write can + 1) mod CAN_RX_BUFFER_SIZE \<noteq> CanRx_Read can"
    proof
      assume "(CanRx_Write can + 1) mod CAN_RX_BUFFER_SIZE = CanRx_Read can"
      then have "(h + 0) mod 20 = (h + Suc c) mod 20" using w1 b(2) by (simp add: hcm)
      with mod_plus_neq [of 0 "Suc c" 20 h] c show False by simp
    qed
    define can' where "can' = can1\<lparr>CanRx_Write := (CanRx_Write can + 1) mod CAN_RX_BUFFER_SIZE\<rparr>"
    have 2: "can_rx_advance can1 = Some can'"
      using ne by (simp add: can_rx_advance_def umod_rx can1_def can'_def)
    have "can_count can' = Suc c"
      using w1 b(2) c by (intro can_count_of [of _ h]) (simp_all add: can'_def can1_def hcm)
    then have "can_pending can' = can_pending can @ [msg]"
      using view by (simp add: can_pending_def can'_def can1_def hcm)
    moreover have "can_ok can'" using b w1 by (simp add: can_ok_def can'_def can1_def hcm)
    moreover have "length (can_pending can @ [msg]) \<le> 19" using c by (simp add: can_pending_def hcm)
    ultimately show ?thesis using 1 2 by simp
  next
    case True
    have full: "(CanRx_Write can + 1) mod CAN_RX_BUFFER_SIZE = CanRx_Read can"
      by (rule word_unat_eqI) (use w1 b(2) True in \<open>simp add: hcm\<close>)
    define can' where "can' = can1\<lparr>CanRx_Write := CanRx_Read can,
      CanRx_Read := (CanRx_Read can + 1) mod CAN_RX_BUFFER_SIZE\<rparr>"
    have 2: "can_rx_advance can1 = Some can'"
      using full by (simp add: can_rx_advance_def umod_rx can1_def can'_def)
    have r1: "unat ((CanRx_Read can + 1) mod CAN_RX_BUFFER_SIZE) = (h + 1) mod 20"
      using can_succ [of "CanRx_Read can"] b(2) by (simp add: hcm)
    have "((h + 1) mod 20 + c) mod 20 = (h + Suc c) mod 20" by (simp add: mod_simps)
    also have "\<dots> = h" unfolding True using b(2) by simp
    finally have "can_count can' = c"
      using r1 b by (intro can_count_of [of _ "(h + 1) mod 20"]) (simp_all add: can'_def can1_def hcm)
    then have "can_pending can' = tl (can_pending can @ [msg])"
      using view ring_view_pop [of "m[(h + c) mod 20 := msg]" 20 h c] r1
      by (simp add: can_pending_def can'_def can1_def hcm)
    moreover have "can_ok can'" using b r1 by (simp add: can_ok_def can'_def can1_def hcm)
    moreover have "lastn 19 (can_pending can @ [msg]) = tl (can_pending can @ [msg])"
    proof -
      have "length (can_pending can @ [msg]) = Suc 19" using True by (simp add: can_pending_def hcm)
      then show ?thesis by (cases "can_pending can") (simp_all add: lastn_def)
    qed
    ultimately show ?thesis using 1 2 by simp
  qed
qed

lemma stm32_CAN_recv_isr_keeps_last:
  "can_ok can \<Longrightarrow> \<exists>can'. stm32_CAN_recv_isr can msgs = Some can' \<and> can_ok can' \<and>
     can_pending can' = lastn 19 (can_pending can @ msgs)"
proof (induction msgs arbitrary: can)
  case Nil
  then show ?case using can_write_index(2) [OF Nil] by (simp add: can_pending_def)
next
  case (Cons msg msgs)
  obtain can1 can2 where c: "can_rx_store can msg = Some can1" "can_rx_advance can1 = Some can2" "can_ok can2"
      "can_pending can2 = lastn 19 (can_pending can @ [msg])"
    using can_rx_message [OF Cons.prems] by blast
  from Cons.IH [OF c(3)] c show ?case by (auto simp: lastn_append_lastn)
qed

lemma stm32_CAN_recv_pops:
  assumes "can_ok can"
  shows "(case can_pending can of
      [] \<Rightarrow> stm32_CAN_recv can = Some (None, can)
    | msg # rest \<Rightarrow> \<exists>can'. stm32_CAN_recv can = Some (Some msg, can') \<and> can_ok can' \<and> can_pending can' = rest)"
proof -
  define h c m where hcm: "h = unat (CanRx_Read can)" "c = can_count can" "m = CANRxBuf can"
  note w = can_write_index [OF assms]
  have b: "length m = 20" "h < 20" "unat (CanRx_Write can) < 20" "c < 20"
    using assms w(2) by (simp_all add: can_ok_def hcm)
  show ?thesis
  proof (cases c)
    case 0
    then have "CanRx_Read can = CanRx_Write can"
      using w(1) b by (intro word_unat_eqI) (simp add: hcm)
    then show ?thesis using 0 by (simp add: can_pending_def ring_view_def stm32_CAN_recv_def hcm)
  next
    case (Suc d)
    have ne: "CanRx_Read can \<noteq> CanRx_Write can"
    proof
      assume "CanRx_Read can = CanRx_Write can"
      then have "(h + 0) mod 20 = (h + c) mod 20" using w(1) b by (simp add: hcm)
      with mod_plus_neq [of 0 c 20 h] b Suc show False by simp
    qed
    define can' where "can' = can\<lparr>CanRx_Read := (CanRx_Read can + 1) mod CAN_RX_BUFFER_SIZE\<rparr>"
    have r: "stm32_CAN_recv can = Some (Some (m ! h), can')"
      using ne b by (simp add: stm32_CAN_recv_def umod_rx rd_Some can'_def hcm)
    have r1: "unat ((CanRx_Read can + 1) mod CAN_RX_BUFFER_SIZE) = (h + 1) mod 20"
      using can_succ [of "CanRx_Read can"] b(2) by (simp add: hcm)
    have "can_count can' = d"
      using r1 w(1) b Suc by (intro can_count_of [of _ "(h + 1) mod 20"]) (simp_all add: can'_def hcm mod_simps)
    then have "can_pending can' = tl (can_pending can)"
      using r1 ring_view_pop [of m 20 h d] Suc by (simp add: can_pending_def can'_def hcm)
    moreover have "can_pending can = m ! h # tl (can_pending can)"
      using Suc b by (simp add: can_pending_def ring_view_def hcm upt_conv_Cons del: upt_Suc)
    moreover have "can_ok can'" using b r1 by (simp add: can_ok_def can'_def hcm)
    ultimately have "\<exists>rest. can_pending can = m ! h # rest \<and> can_pending can' = rest \<and> can_ok can'" by simp
    then show ?thesis using r by auto
  qed
qed

section \<open>The peripheral\<close>

text \<open>What the driver relies on: a message handed to a free mailbox goes on the bus, and the
  mailbox reports it as sent after fewer polls than the driver is willing to make. \<open>bus\<close> are the
  messages sent so far, \<open>left\<close> the polls the current one still needs.\<close>

locale can_port =
  fixes hw :: "'c can_hw" and bus :: "'c \<Rightarrow> can_msg list" and free :: "'c \<Rightarrow> bool" and left :: "'c \<Rightarrow> nat"
  assumes transmit: "free c \<Longrightarrow> bus (snd (CAN_Transmit hw c tx)) = bus c @ [tx] \<and>
      left (snd (CAN_Transmit hw c tx)) \<le> 0xFFFF"
    and status_sent: "left c = 0 \<Longrightarrow> \<exists>c'. CAN_TransmitStatus hw c mb = (True, c') \<and> free c' \<and> bus c' = bus c"
    and status_busy: "0 < left c \<Longrightarrow>
      \<exists>c'. CAN_TransmitStatus hw c mb = (False, c') \<and> left c' < left c \<and> bus c' = bus c"

definition payload :: "can_msg \<Rightarrow> u8 list" where
  "payload m = take (unat (DLC m)) (Data m)"

definition data_msg :: "u32 \<Rightarrow> can_msg \<Rightarrow> bool" where
  "data_msg stdID m \<longleftrightarrow> StdId m = stdID \<and> IDE m = CAN_Id_Standard \<and> RTR m = CAN_RTR_Data \<and>
     0 < unat (DLC m) \<and> unat (DLC m) \<le> 8 \<and> length (Data m) = 8"

lemma tx_load_payload:
  assumes "off + n \<le> length buf" and "n \<le> 8" and "length (Data tx) = 8"
  shows "\<exists>tx'. tx_load tx buf off n = Some tx' \<and> payload tx' = take n (drop off buf) \<and>
    length (Data tx') = 8 \<and> StdId tx' = StdId tx \<and> IDE tx' = IDE tx \<and> RTR tx' = RTR tx \<and> unat (DLC tx') = n"
proof -
  let ?bs = "take n (drop off buf)"
  have bs: "rds buf off n = Some ?bs" using assms(1) by (rule rds_Some)
  have l: "length ?bs = n" using assms(1) by simp
  have d: "wrs (Data tx) 0 ?bs = Some (take 0 (Data tx) @ ?bs @ drop (0 + length ?bs) (Data tx))"
    using assms l by (intro wrs_Some) simp
  have u: "unat (of_nat n :: u8) = n" using assms(2) by (simp add: unat_of_nat take_bit_nat_eq_self)
  show ?thesis using assms l u by (simp add: tx_load_def bs d payload_def)
qed

context can_port
begin

lemma CAN_poll_sent:
  "left c < n \<Longrightarrow> \<exists>c'. CAN_poll hw c mb n = (True, c') \<and> free c' \<and> bus c' = bus c"
proof (induction n arbitrary: c)
  case (Suc n)
  show ?case
  proof (cases "left c = 0")
    case True
    then show ?thesis using status_sent [of c mb] by auto
  next
    case False
    then obtain c1 where c1: "CAN_TransmitStatus hw c mb = (False, c1)" "left c1 < left c" "bus c1 = bus c"
      using status_busy [of c mb] by auto
    with Suc.IH [of c1] Suc.prems show ?thesis by auto
  qed
qed simp

lemma stm32_CAN_send_sent:
  assumes "free c"
  shows "\<exists>c'. stm32_CAN_send hw c tx = (True, c') \<and> free c' \<and> bus c' = bus c @ [tx]"
proof -
  obtain mb c1 where c1: "CAN_Transmit hw c tx = (mb, c1)" by fastforce
  then have "bus c1 = bus c @ [tx]" "left c1 < 0xFFFF + 1" using transmit [OF assms, of tx] by simp_all
  then obtain c2 where c2: "CAN_poll hw c1 mb (0xFFFF + 1) = (True, c2)" "free c2" "bus c2 = bus c @ [tx]"
    using CAN_poll_sent by metis
  have "stm32_CAN_send_loop hw c tx (Suc 1) = (True, c2)"
    unfolding stm32_CAN_send_loop.simps(2) c1 Let_def prod.case c2(1) by (simp only: if_True)
  then have "stm32_CAN_send hw c tx = (True, c2)"
    unfolding stm32_CAN_send_def CAN_TX_TRY_TIMES_def Suc_1 .
  then show ?thesis using c2 by blast
qed

lemma canbus_send_loop_sends:
  assumes "free c" and "length (Data tx) = 8" and "IDE tx = CAN_Id_Standard" and "RTR tx = CAN_RTR_Data"
    and "(i + n) * 8 \<le> length buf"
  shows "\<exists>tx' c' msgs. canbus_send_loop hw c tx buf i n = Some (Inr tx', c') \<and> free c' \<and>
    bus c' = bus c @ msgs \<and> length msgs = n \<and> (\<forall>m \<in> set msgs. data_msg (StdId tx) m) \<and>
    concat (map payload msgs) = take (n * 8) (drop (i * 8) buf) \<and>
    length (Data tx') = 8 \<and> StdId tx' = StdId tx \<and> IDE tx' = CAN_Id_Standard \<and> RTR tx' = CAN_RTR_Data"
  using assms
proof (induction n arbitrary: c tx i)
  case 0
  then show ?case by simp
next
  case (Suc n)
  obtain tx1 where tx1: "tx_load tx buf (i * 8) 8 = Some tx1" "payload tx1 = take 8 (drop (i * 8) buf)"
      "length (Data tx1) = 8" "StdId tx1 = StdId tx" "IDE tx1 = IDE tx" "RTR tx1 = RTR tx" "unat (DLC tx1) = 8"
    using tx_load_payload [of "i * 8" 8 buf tx] Suc.prems by auto
  obtain c1 where c1: "stm32_CAN_send hw c tx1 = (True, c1)" "free c1" "bus c1 = bus c @ [tx1]"
    using stm32_CAN_send_sent [OF Suc.prems(1)] by blast
  have "(Suc i + n) * 8 \<le> length buf" using Suc.prems(5) by simp
  with Suc.IH [of c1 tx1 "Suc i"] c1 tx1 Suc.prems
  obtain tx' c' msgs where r: "canbus_send_loop hw c1 tx1 buf (Suc i) n = Some (Inr tx', c')" "free c'"
      "bus c' = bus c1 @ msgs" "length msgs = n" "\<forall>m \<in> set msgs. data_msg (StdId tx) m"
      "concat (map payload msgs) = take (n * 8) (drop (Suc i * 8) buf)"
      "length (Data tx') = 8" "StdId tx' = StdId tx" "IDE tx' = CAN_Id_Standard" "RTR tx' = CAN_RTR_Data"
    by auto
  have "take 8 (drop (i * 8) buf) @ take (n * 8) (drop (Suc i * 8) buf) = take (Suc n * 8) (drop (i * 8) buf)"
    by (simp add: take_add add.commute)
  moreover have "data_msg (StdId tx) tx1" using tx1 Suc.prems by (simp add: data_msg_def)
  ultimately show ?case using r tx1 c1 by (intro exI [of _ tx'] exI [of _ c'] exI [of _ "tx1 # msgs"]) simp
qed

lemma canbus_middle_send_sends:
  assumes "free c" and "length (Data tx0) = 8" and "unat len \<le> length buf"
  shows "\<exists>c' msgs. canbus_middle_send hw c tx0 stdID buf len = Some (len, c') \<and> free c' \<and>
    bus c' = bus c @ msgs \<and> (\<forall>m \<in> set msgs. data_msg stdID m) \<and>
    concat (map payload msgs) = take (unat len) buf"
proof (cases "len = 0")
  case True
  then show ?thesis using assms by (intro exI [of _ c] exI [of _ "[]"]) (simp add: canbus_middle_send_def)
next
  case False
  define tx where "tx = tx0\<lparr>StdId := stdID, IDE := CAN_Id_Standard, RTR := CAN_RTR_Data\<rparr>"
  define q r where "q = unat len div 8" and "r = unat len mod 8"
  have qr: "unat (len div 8) = q" "unat (len mod 8) = r" "unat len = q * 8 + r" "r < 8"
    by (simp_all add: q_def r_def unat_div unat_mod)
  have r0: "len mod 8 = 0 \<longleftrightarrow> r = 0" using qr(2) by (metis unat_eq_zero)
  obtain tx' c' msgs where l: "canbus_send_loop hw c tx buf 0 q = Some (Inr tx', c')" "free c'"
      "bus c' = bus c @ msgs" "\<forall>m \<in> set msgs. data_msg stdID m" "concat (map payload msgs) = take (q * 8) buf"
      "length (Data tx') = 8" "StdId tx' = stdID" "IDE tx' = CAN_Id_Standard" "RTR tx' = CAN_RTR_Data"
    using canbus_send_loop_sends [of c tx 0 q buf] assms qr(3) by (auto simp: tx_def)
  show ?thesis
  proof (cases "r = 0")
    case True
    then have "canbus_middle_send hw c tx0 stdID buf len = Some (len, c')"
      using False l(1) r0 by (simp add: canbus_middle_send_def Let_def tx_def qr)
    then show ?thesis using l True qr(3) by auto
  next
    case nz: False
    obtain tx2 where tx2: "tx_load tx' buf (q * 8) r = Some tx2" "payload tx2 = take r (drop (q * 8) buf)"
        "length (Data tx2) = 8" "StdId tx2 = stdID" "IDE tx2 = CAN_Id_Standard" "RTR tx2 = CAN_RTR_Data"
        "unat (DLC tx2) = r"
      using tx_load_payload [of "q * 8" r buf tx'] l qr assms(3) by auto
    obtain c2 where c2: "stm32_CAN_send hw c' tx2 = (True, c2)" "free c2" "bus c2 = bus c' @ [tx2]"
      using stm32_CAN_send_sent [OF l(2)] by blast
    have "canbus_middle_send hw c tx0 stdID buf len = Some (len, c2)"
      using False l(1) r0 nz tx2(1) c2(1) by (simp add: canbus_middle_send_def Let_def tx_def qr)
    moreover have "data_msg stdID tx2" using tx2 nz qr(4) by (simp add: data_msg_def)
    moreover have "take (q * 8) buf @ take r (drop (q * 8) buf) = take (unat len) buf"
      unfolding qr(3) by (simp add: take_add)
    ultimately show ?thesis
      using l c2 tx2(2) by (intro exI [of _ c2] exI [of _ "msgs @ [tx2]"]) auto
  qed
qed

end

text \<open>A peripheral with one mailbox on a bus where every message is acknowledged after
  \<open>line_wait\<close> polls.\<close>

record can_line =
  line_sent :: "can_msg list"
  line_wait :: nat
  line_left :: nat

definition line_hw :: "can_line can_hw" where
  "line_hw = \<lparr>
     CAN_Transmit = (\<lambda>c tx. (0, c\<lparr>line_sent := line_sent c @ [tx], line_left := min (line_wait c) 0xFFFF\<rparr>)),
     CAN_TransmitStatus = (\<lambda>c mb. if line_left c = 0 then (True, c) else (False, c\<lparr>line_left := line_left c - 1\<rparr>))\<rparr>"

interpretation line: can_port line_hw line_sent "\<lambda>c. line_left c = 0" line_left
  by unfold_locales (simp_all add: line_hw_def)

section \<open>The CAN thread feeds the ring of the protocol\<close>

text \<open>Case \<open>0x500\<close> of the CAN thread, for the messages in the order they arrive.\<close>

fun can500_feed :: "RingBufType \<Rightarrow> can_msg list \<Rightarrow> RingBufType option" where
  "can500_feed ring [] = Some ring"
| "can500_feed ring (rx # rxs) = do {
     (_, ring) \<leftarrow> AddDataToBuf ring (Data rx) (ucast (DLC rx));
     can500_feed ring rxs
   }"

lemma can500_feed_keeps_last:
  assumes "ring_ok ring" and "\<forall>m \<in> set msgs. data_msg stdID m"
  shows "\<exists>ring'. can500_feed ring msgs = Some ring' \<and> ring_ok ring' \<and> ring_capacity ring' = ring_capacity ring \<and>
    ring_list ring' = lastn (ring_capacity ring) (ring_list ring @ concat (map payload msgs))"
  using assms
proof (induction msgs arbitrary: ring)
  case Nil
  then show ?case using ring_count_less [OF Nil.prems(1)] by (simp add: ring_capacity_def)
next
  case (Cons m msgs)
  have u: "unat (ucast (DLC m) :: u32) = unat (DLC m)"
    using unat_less_u8 [of "DLC m"] by (simp add: unsigned_ucast_eq take_bit_eq_mod)
  have l: "unat (ucast (DLC m) :: u32) \<le> length (Data m)" using Cons.prems(2) u by (simp add: data_msg_def)
  obtain r1 where r1: "AddDataToBuf ring (Data m) (ucast (DLC m)) = Some (True, r1)" "ring_ok r1"
      "ring_capacity r1 = ring_capacity ring"
      "ring_list r1 = lastn (ring_capacity ring) (ring_list ring @ payload m)"
    using AddDataToBuf_ring [OF Cons.prems(1) l] by (auto simp: u payload_def)
  from Cons.IH [OF r1(2)] Cons.prems(2) r1 show ?case by (auto simp: lastn_append_lastn)
qed

section \<open>Properties\<close>

text \<open>C18: the CAN receive ring is a bounded queue. Whatever messages the interrupt stores, the ring
  holds the last 19 of the pending and the new ones in the order of arrival, and \<open>stm32_CAN_recv\<close>
  takes the oldest or reports that there is none; no access leaves the array of 20.\<close>

theorem can_ring_is_bounded_queue:
  assumes "can_ok can"
  shows "\<exists>can'. stm32_CAN_recv_isr can msgs = Some can' \<and> can_ok can' \<and>
    can_pending can' = lastn 19 (can_pending can @ msgs) \<and>
    (case can_pending can' of
       [] \<Rightarrow> stm32_CAN_recv can' = Some (None, can')
     | msg # rest \<Rightarrow> \<exists>can2. stm32_CAN_recv can' = Some (Some msg, can2) \<and> can_ok can2 \<and> can_pending can2 = rest)"
  using stm32_CAN_recv_isr_keeps_last [OF assms, of msgs] stm32_CAN_recv_pops by blast

definition sample_msg :: "u8 \<Rightarrow> can_msg" where
  "sample_msg x = \<lparr>StdId = 0x500, IDE = 0, RTR = 0, DLC = 1, Data = [x, 0, 0, 0, 0, 0, 0, 0]\<rparr>"

definition sample_can :: CANBus_type where
  "sample_can = \<lparr>CANRxBuf = replicate 20 (sample_msg 0), CanRx_Read = 19, CanRx_Write = 19\<rparr>"

theorem can_ring_is_bounded_queue_witness:
  "\<exists>can' can2. stm32_CAN_recv_isr sample_can [sample_msg 7, sample_msg 8] = Some can' \<and>
     stm32_CAN_recv can' = Some (Some (sample_msg 7), can2) \<and> can_pending can2 = [sample_msg 8]"
proof -
  have "can_ok sample_can" by (simp add: can_ok_def sample_can_def)
  from can_ring_is_bounded_queue [OF this, of "[sample_msg 7, sample_msg 8]"] show ?thesis
    by (auto simp: can_pending_def can_count_def sample_can_def ring_view_def)
qed

text \<open>C11: a block sent over the CAN bus arrives as it was sent. On a peripheral that transmits what it
  is given, \<open>canbus_middle_send\<close> reports the whole length, and the CAN thread of the receiver
  appends exactly the bytes of the block to its ring, whatever their number; every message carries
  at most eight bytes and the given identifier.\<close>

theorem canbus_block_reassembled:
  assumes "can_port hw bus free left" and "free c" and "length (Data tx0) = 8" and "unat len \<le> length buf"
    and "ring_ok ring"
  shows "\<exists>c' msgs ring'. canbus_middle_send hw c tx0 stdID buf len = Some (len, c') \<and>
    bus c' = bus c @ msgs \<and> (\<forall>m \<in> set msgs. data_msg stdID m) \<and>
    can500_feed ring msgs = Some ring' \<and> ring_ok ring' \<and>
    ring_list ring' = lastn (ring_capacity ring) (ring_list ring @ take (unat len) buf)"
proof -
  obtain c' msgs where s: "canbus_middle_send hw c tx0 stdID buf len = Some (len, c')"
      "bus c' = bus c @ msgs" "\<forall>m \<in> set msgs. data_msg stdID m" "concat (map payload msgs) = take (unat len) buf"
    using can_port.canbus_middle_send_sends [OF assms(1-4), of stdID] by blast
  then show ?thesis using can500_feed_keeps_last [OF assms(5) s(3)] by auto
qed

theorem canbus_block_reassembled_witness:
  "\<exists>c' ring'. canbus_middle_send line_hw \<lparr>line_sent = [], line_wait = 3, line_left = 0\<rparr> (sample_msg 0) 0x500
     [1, 2, 3, 4, 5, 6, 7, 8, 9, 10] 10 = Some (10, c') \<and>
     can500_feed (RxBufInit (Some (replicate 16 0)) 16) (line_sent c') = Some ring' \<and>
     ring_list ring' = [1, 2, 3, 4, 5, 6, 7, 8, 9, 10]"
proof -
  have ok: "ring_ok (RxBufInit (Some (replicate 16 0)) 16)"
    and empty: "ring_list (RxBufInit (Some (replicate 16 0)) 16) = []"
    by (rule RxBufInit_ok; simp)+
  have cap: "ring_capacity (RxBufInit (Some (replicate 16 0)) 16) = 15"
    by (simp add: ring_capacity_def RxBufInit_def)
  show ?thesis
    using canbus_block_reassembled [OF line.can_port_axioms _ _ _ ok, where c = "\<lparr>line_sent = [], line_wait = 3, line_left = 0\<rparr>"
        and ?tx0.0 = "sample_msg 0" and len = 10 and buf = "[1, 2, 3, 4, 5, 6, 7, 8, 9, 10]" and stdID = "0x500"]
    by (auto simp: sample_msg_def empty cap)
qed

end
