(* ===== verification/Dcg_Motor.thy ===== *)
theory Dcg_Motor
  imports Can_Bus
begin

text \<open>
  The motor control of the DCG board: drive and stop commands that arrive in CAN messages with
  identifier 0x100 and act in the interrupt handler (drivers/drv_can.c with \<open>DCG_board\<close>), the motor
  thread that executes the stops (bsp/DCG/UserThread/motor_x.c), and the CAN thread
  (bsp/DCG/app/canbus_middle.c). The globals of these files are the record \<open>motor_vars\<close>, with the
  outputs they drive: the brake and direction pins and the pulse width of the timer. The mailbox is
  the FIFO of 20 entries the RTOS provides; sending to a full one has no effect.
\<close>

record motor_vars =
  Motor_cotorl :: u8
  Motor_state :: u8
  CCR_Va0 :: u16
  Motor_direction :: u8
  Motor_time_err :: u32
  pin_run :: bool
  pin_forward :: bool
  pwm :: u16
  do_motor_sem :: "u32 list"

definition Stop_low :: u32 where "Stop_low = 2"
definition Stop_fast :: u32 where "Stop_fast = 3"

definition rt_mb_send :: "u32 \<Rightarrow> motor_vars \<Rightarrow> motor_vars" where
  "rt_mb_send x s = (if length (do_motor_sem s) < 20 then s\<lparr>do_motor_sem := do_motor_sem s @ [x]\<rparr> else s)"

definition run_motor :: "motor_vars \<Rightarrow> motor_vars" where "run_motor s = s\<lparr>pin_run := True\<rparr>"
definition Stop_motor :: "motor_vars \<Rightarrow> motor_vars" where "Stop_motor s = s\<lparr>pin_run := False\<rparr>"
definition run_zheng :: "motor_vars \<Rightarrow> motor_vars" where "run_zheng s = s\<lparr>pin_forward := True\<rparr>"
definition run_fan :: "motor_vars \<Rightarrow> motor_vars" where "run_fan s = s\<lparr>pin_forward := False\<rparr>"
definition PWM_out :: "u16 \<Rightarrow> motor_vars \<Rightarrow> motor_vars" where "PWM_out v s = s\<lparr>pwm := v\<rparr>"

text \<open>\<open>(u16)(x/35.0*999.0)\<close>: the exact quotient is an integer or at least 1/35 away from one, so
  the rounding of the two double operations does not reach the truncation.\<close>

definition duty :: "u8 \<Rightarrow> u16" where
  "duty x = of_nat (unat x * 999 div 35)"

definition Stop_fast0 :: "motor_vars \<Rightarrow> motor_vars" where
  "Stop_fast0 s = (Stop_motor (PWM_out 0 s))\<lparr>Motor_state := 0\<rparr>"

text \<open>One pass of the loop of \<open>Stop_low0\<close>, up to its delay, and what follows the loop.\<close>

definition Stop_low0_cond :: "motor_vars \<Rightarrow> bool" where
  "Stop_low0_cond s \<longleftrightarrow> CCR_Va0 s > 0 \<and> Motor_cotorl s = 0"

definition Stop_low0_pass :: "motor_vars \<Rightarrow> motor_vars" where
  "Stop_low0_pass s = (let s = PWM_out (CCR_Va0 s) s in s\<lparr>CCR_Va0 := CCR_Va0 s - 1\<rparr>)"

definition Stop_low0_end :: "motor_vars \<Rightarrow> motor_vars" where
  "Stop_low0_end s = (if CCR_Va0 s = 0 then Stop_motor s else s)\<lparr>Motor_state := 0\<rparr>"

text \<open>The whole of \<open>Stop_low0\<close> when nothing interrupts it.\<close>

function Stop_low0 :: "motor_vars \<Rightarrow> motor_vars" where
  "Stop_low0 s = (if Stop_low0_cond s then Stop_low0 (Stop_low0_pass s) else Stop_low0_end s)"
  by pat_completeness auto
termination
proof (relation "measure (\<lambda>s. unat (CCR_Va0 s))")
  show "(Stop_low0_pass s, s) \<in> measure (\<lambda>s. unat (CCR_Va0 s))" if "Stop_low0_cond s" for s
    using that by (simp add: Stop_low0_pass_def Stop_low0_cond_def Let_def PWM_out_def unat_minus_one word_gt_0 unat_gt_0)
qed simp

declare Stop_low0.simps [simp del]

section \<open>A drive or stop command\<close>

definition motor_drive :: "u8 \<Rightarrow> u8 \<Rightarrow> (motor_vars \<Rightarrow> motor_vars) \<Rightarrow> u8 \<Rightarrow> u8 \<Rightarrow> motor_vars \<Rightarrow> motor_vars" where
  "motor_drive ctl st dir dirflag speed s =
     (if Motor_state s = st \<or> Motor_state s = 0
      then let
        s = s\<lparr>Motor_cotorl := ctl\<rparr>;
        s = dir (run_motor s);
        s = s\<lparr>CCR_Va0 := duty speed\<rparr>;
        s = PWM_out (CCR_Va0 s) s
      in s\<lparr>Motor_state := st, Motor_direction := dirflag\<rparr>
      else s)"

text \<open>\<open>fast\<close> is what the emergency stop does: at once in the interrupt handler, through the mailbox
  in the CAN thread. The four tests are on the same byte.\<close>

definition motor_command :: "(motor_vars \<Rightarrow> motor_vars) \<Rightarrow> u8 list \<Rightarrow> motor_vars \<Rightarrow> motor_vars option" where
  "motor_command fast d s = do {
     c \<leftarrow> rd d 2;
     s \<leftarrow> (if c = 1 then do { v \<leftarrow> rd d 3; Some (motor_drive 1 1 run_zheng 0 v s) } else Some s);
     s \<leftarrow> (if c = 2 then do { v \<leftarrow> rd d 3; Some (motor_drive 2 2 run_fan 1 v s) } else Some s);
     let s = (if c = 0 then rt_mb_send Stop_low (s\<lparr>Motor_cotorl := 0\<rparr>) else s);
     Some (if c = 3 then fast (s\<lparr>Motor_cotorl := 3\<rparr>) else s)
   }"

text \<open>\<open>ID\<close> is \<open>iap_param.ID\<close>.\<close>

definition for_me :: "u16 \<Rightarrow> u8 list \<Rightarrow> bool option" where
  "for_me ID d = do {
     x \<leftarrow> rd d 0;
     if x = ucast ID then do { y \<leftarrow> rd d 1; Some (ucast y = drop_bit 8 ID) } else Some False
   }"

definition motor_isr :: "u16 \<Rightarrow> u8 list \<Rightarrow> motor_vars \<Rightarrow> motor_vars option" where
  "motor_isr ID d s = do {
     me \<leftarrow> for_me ID d;
     if me then motor_command Stop_fast0 d (s\<lparr>Motor_time_err := 0\<rparr>) else Some s
   }"

text \<open>The interrupt handler of the DCG build, over the pending messages.\<close>

fun stm32_CAN_recv_isr_dcg ::
  "u16 \<Rightarrow> CANBus_type \<Rightarrow> motor_vars \<Rightarrow> can_msg list \<Rightarrow> (CANBus_type \<times> motor_vars) option" where
  "stm32_CAN_recv_isr_dcg ID can s [] = Some (can, s)"
| "stm32_CAN_recv_isr_dcg ID can s (msg # pending) = do {
     can \<leftarrow> can_rx_store can msg;
     slot \<leftarrow> rd (CANRxBuf can) (unat (CanRx_Write can - 1));
     if StdId slot = 0x100
     then do {
       let can = can\<lparr>CanRx_Write := CanRx_Write can - 1\<rparr>;
       slot \<leftarrow> rd (CANRxBuf can) (unat (CanRx_Write can));
       s \<leftarrow> motor_isr ID (Data slot) s;
       stm32_CAN_recv_isr_dcg ID can s pending
     }
     else do {
       can \<leftarrow> can_rx_advance can;
       stm32_CAN_recv_isr_dcg ID can s pending
     }
   }"

section \<open>The CAN thread\<close>

record can_node =
  nd_can :: CANBus_type
  nd_ring :: RingBufType
  nd_motor :: motor_vars
  nd_delay :: u32
  nd_time_err :: u16

definition canbus_dispatch :: "u16 \<Rightarrow> can_msg \<Rightarrow> can_node \<Rightarrow> can_node option" where
  "canbus_dispatch ID rx nd =
     (if IDE rx \<noteq> CAN_Id_Standard \<or> RTR rx \<noteq> CAN_RTR_Data then Some nd
      else if StdId rx = 0x100 then do {
        me \<leftarrow> for_me ID (Data rx);
        if me then do {
          s \<leftarrow> motor_command (rt_mb_send Stop_fast) (Data rx) (nd_motor nd);
          Some (nd\<lparr>nd_motor := s, nd_time_err := 0\<rparr>)
        }
        else Some nd
      }
      else if StdId rx = 0x500 then do {
        (_, ring) \<leftarrow> AddDataToBuf (nd_ring nd) (Data rx) (ucast (DLC rx));
        Some (nd\<lparr>nd_ring := ring\<rparr>)
      }
      else Some nd)"

text \<open>One pass of the loop. Delays have no effect on this state.\<close>

definition canbus_middle_round :: "u16 \<Rightarrow> can_node \<Rightarrow> can_node option" where
  "canbus_middle_round ID nd = do {
     (m, can) \<leftarrow> stm32_CAN_recv (nd_can nd);
     let nd = nd\<lparr>nd_can := can\<rparr>;
     (case m of
        Some rx \<Rightarrow> do {
          let nd = nd\<lparr>nd_delay := nd_delay nd + 1\<rparr>;
          let nd = (if nd_delay nd mod 10 = 0 then nd\<lparr>nd_delay := 0\<rparr> else nd);
          canbus_dispatch ID rx nd
        }
      | None \<Rightarrow>
          (let nd = nd\<lparr>nd_delay := 0, nd_time_err := nd_time_err nd + 1\<rparr>
           in if nd_time_err nd > 400
              then let nd = nd\<lparr>nd_time_err := 0\<rparr> in
                Some (if Motor_state (nd_motor nd) > 0
                  then nd\<lparr>nd_motor := (nd_motor nd)\<lparr>Motor_cotorl := 0\<rparr>\<rparr> else nd)
              else Some nd))
   }"

text \<open>The thread after \<open>can_ota_init\<close>; each list element are the messages the interrupt handler
  receives before the pass.\<close>

fun canbus_rounds :: "u16 \<Rightarrow> can_msg list list \<Rightarrow> can_node \<Rightarrow> can_node option" where
  "canbus_rounds ID [] nd = Some nd"
| "canbus_rounds ID (msgs # rest) nd = do {
     (can, s) \<leftarrow> stm32_CAN_recv_isr_dcg ID (nd_can nd) (nd_motor nd) msgs;
     nd \<leftarrow> canbus_middle_round ID (nd\<lparr>nd_can := can, nd_motor := s\<rparr>);
     canbus_rounds ID rest nd
   }"

definition canbus_middle_thread_entry :: "u16 \<Rightarrow> can_msg list list \<Rightarrow> can_node \<Rightarrow> can_node option" where
  "canbus_middle_thread_entry ID env nd =
     canbus_rounds ID env (nd\<lparr>nd_can := snd (stm32_CAN_clear (nd_can nd)), nd_delay := 0\<rparr>)"

section \<open>Interrupts and the motor thread\<close>

datatype motor_pc = Mb_wait | Slowing

record motor_sys =
  ms_vars :: motor_vars
  ms_pc :: motor_pc

definition motor_boot :: motor_sys where
  "motor_boot = \<lparr>ms_vars = \<lparr>Motor_cotorl = 0, Motor_state = 0, CCR_Va0 = 0, Motor_direction = 0,
     Motor_time_err = 0, pin_run = False, pin_forward = True, pwm = 0, do_motor_sem = []\<rparr>, ms_pc = Mb_wait\<rparr>"

text \<open>The events: a command message in the interrupt handler, and the steps of the motor thread.
  The handler runs between two passes of the slow stop, which is where the thread sleeps.\<close>

datatype motor_event = Command "u8 list" | Mb_recv | Slow_pass | Slow_end

inductive motor_step :: "u16 \<Rightarrow> motor_sys \<Rightarrow> motor_event \<Rightarrow> motor_sys \<Rightarrow> bool" for ID where
  command: "motor_isr ID d (ms_vars s) = Some v \<Longrightarrow> motor_step ID s (Command d) (s\<lparr>ms_vars := v\<rparr>)"
| recv_low: "ms_pc s = Mb_wait \<Longrightarrow> do_motor_sem (ms_vars s) = Stop_low # ms \<Longrightarrow>
    motor_step ID s Mb_recv \<lparr>ms_vars = (ms_vars s)\<lparr>do_motor_sem := ms\<rparr>, ms_pc = Slowing\<rparr>"
| recv_fast: "ms_pc s = Mb_wait \<Longrightarrow> do_motor_sem (ms_vars s) = Stop_fast # ms \<Longrightarrow>
    motor_step ID s Mb_recv \<lparr>ms_vars = Stop_fast0 ((ms_vars s)\<lparr>do_motor_sem := ms\<rparr>), ms_pc = Mb_wait\<rparr>"
| recv_other: "ms_pc s = Mb_wait \<Longrightarrow> do_motor_sem (ms_vars s) = m # ms \<Longrightarrow> m \<noteq> Stop_low \<Longrightarrow> m \<noteq> Stop_fast \<Longrightarrow>
    motor_step ID s Mb_recv \<lparr>ms_vars = (ms_vars s)\<lparr>do_motor_sem := ms\<rparr>, ms_pc = Mb_wait\<rparr>"
| pass: "ms_pc s = Slowing \<Longrightarrow> Stop_low0_cond (ms_vars s) \<Longrightarrow>
    motor_step ID s Slow_pass (s\<lparr>ms_vars := Stop_low0_pass (ms_vars s)\<rparr>)"
| finish: "ms_pc s = Slowing \<Longrightarrow> \<not> Stop_low0_cond (ms_vars s) \<Longrightarrow>
    motor_step ID s Slow_end \<lparr>ms_vars = Stop_low0_end (ms_vars s), ms_pc = Mb_wait\<rparr>"

inductive_cases motor_stepE: "motor_step ID s e s'"

text \<open>States reachable when the environment sends only the messages \<open>P\<close> allows in the state.\<close>

inductive motor_reach :: "u16 \<Rightarrow> (motor_sys \<Rightarrow> u8 list \<Rightarrow> bool) \<Rightarrow> motor_sys \<Rightarrow> bool" for ID P where
  boot: "motor_reach ID P motor_boot"
| step: "motor_reach ID P s \<Longrightarrow> motor_step ID s e s' \<Longrightarrow> (\<And>d. e = Command d \<Longrightarrow> P s d) \<Longrightarrow>
    motor_reach ID P s'"

section \<open>The direction interlock\<close>

lemmas motor_defs = motor_isr_def motor_command_def motor_drive_def run_motor_def Stop_motor_def run_zheng_def
  run_fan_def PWM_out_def Stop_fast0_def rt_mb_send_def Let_def

text \<open>The environment sends drive commands only while no stop is pending or under way.\<close>

definition calm :: "motor_sys \<Rightarrow> u8 list \<Rightarrow> bool" where
  "calm s d \<longleftrightarrow> (rd d 2 = Some 1 \<or> rd d 2 = Some 2 \<longrightarrow> ms_pc s = Mb_wait \<and> do_motor_sem (ms_vars s) = [])"

definition interlock :: "motor_sys \<Rightarrow> bool" where
  "interlock s \<longleftrightarrow> (let v = ms_vars s in
     Motor_state v \<in> {0, 1, 2} \<and>
     (Motor_state v = 0 \<longrightarrow> \<not> pin_run v) \<and>
     (Motor_state v = 1 \<longrightarrow> pin_forward v) \<and> (Motor_state v = 2 \<longrightarrow> \<not> pin_forward v) \<and>
     (do_motor_sem v \<noteq> [] \<or> ms_pc s = Slowing \<longrightarrow> Motor_cotorl v = 0 \<or> \<not> pin_run v))"

text \<open>What a command can do to the outputs: nothing but reset the watchdog, drive one way, ask for a
  slow stop, or stop at once.\<close>

lemma motor_isr_cases:
  assumes "motor_isr ID d s = Some s'"
  obtains (other) "s' = s"
  | (noop) "s' = s\<lparr>Motor_time_err := 0\<rparr>"
  | (forward) x where "rd d 2 = Some 1" "s' = motor_drive 1 1 run_zheng 0 x (s\<lparr>Motor_time_err := 0\<rparr>)"
  | (backward) x where "rd d 2 = Some 2" "s' = motor_drive 2 2 run_fan 1 x (s\<lparr>Motor_time_err := 0\<rparr>)"
  | (slow) "rd d 2 = Some 0" "s' = rt_mb_send Stop_low (s\<lparr>Motor_time_err := 0, Motor_cotorl := 0\<rparr>)"
  | (fast) "rd d 2 = Some 3" "s' = Stop_fast0 (s\<lparr>Motor_time_err := 0, Motor_cotorl := 3\<rparr>)"
  using assms
  by (fastforce simp: motor_isr_def motor_command_def Let_def split: bind_splits if_splits)

lemma interlock_command:
  assumes "interlock s" and "calm s d" and "motor_isr ID d (ms_vars s) = Some v"
  shows "interlock (s\<lparr>ms_vars := v\<rparr>) \<and> (pin_forward v \<noteq> pin_forward (ms_vars s) \<longrightarrow> \<not> pin_run (ms_vars s))"
  using assms(3)
proof (cases rule: motor_isr_cases)
  case other
  then show ?thesis using assms(1) by (simp add: interlock_def)
next
  case noop
  then show ?thesis using assms(1) by (simp add: interlock_def Let_def)
next
  case (forward x)
  then show ?thesis using assms(1,2) by (auto simp: interlock_def calm_def motor_defs)
next
  case (backward x)
  then show ?thesis using assms(1,2) by (auto simp: interlock_def calm_def motor_defs)
next
  case slow
  then show ?thesis using assms(1) by (auto simp: interlock_def motor_defs)
next
  case fast
  then show ?thesis using assms(1) by (auto simp: interlock_def motor_defs)
qed

lemma interlock_step:
  assumes "motor_step ID s e s'" and "interlock s" and "\<And>d. e = Command d \<Longrightarrow> calm s d"
  shows "interlock s'"
  using assms(1)
proof cases
  case (command d v)
  then show ?thesis using interlock_command [OF assms(2) assms(3) command(3)] by simp
next
  case (recv_low ms)
  then show ?thesis using assms(2) by (auto simp: interlock_def Let_def)
next
  case (recv_fast ms)
  then show ?thesis using assms(2) by (auto simp: interlock_def motor_defs)
next
  case (recv_other m ms)
  then show ?thesis using assms(2) by (auto simp: interlock_def Let_def)
next
  case pass
  then show ?thesis using assms(2)
    by (auto simp: interlock_def Stop_low0_pass_def Stop_low0_cond_def motor_defs)
next
  case finish
  then show ?thesis using assms(2)
    by (auto simp: interlock_def Stop_low0_end_def Stop_low0_cond_def motor_defs word_neq_0_conv)
qed

lemma interlock_reach: "motor_reach ID calm s \<Longrightarrow> interlock s"
proof (induction rule: motor_reach.induct)
  case boot
  then show ?case by (simp add: interlock_def motor_boot_def)
next
  case (step s e s')
  then show ?case using interlock_step by blast
qed

section \<open>The slow stop\<close>

lemma unat_pred: "0 < (w :: 'a::len word) \<Longrightarrow> unat w = Suc (unat (w - 1))"
  using unat_minus_one [of w] unat_gt_0 [of w] by (auto simp: word_neq_0_conv)

inductive motor_run :: "u16 \<Rightarrow> motor_sys \<Rightarrow> motor_event list \<Rightarrow> motor_sys \<Rightarrow> bool" for ID where
  run_nil: "motor_run ID s [] s"
| run_cons: "motor_step ID s e s1 \<Longrightarrow> motor_run ID s1 es s2 \<Longrightarrow> motor_run ID s (e # es) s2"

lemma Stop_low0_runs:
  assumes "Motor_cotorl v = 0"
  shows "motor_run ID \<lparr>ms_vars = v, ms_pc = Slowing\<rparr> (replicate (unat (CCR_Va0 v)) Slow_pass @ [Slow_end])
    \<lparr>ms_vars = Stop_low0 v, ms_pc = Mb_wait\<rparr>"
  using assms
proof (induction v rule: Stop_low0.induct)
  case (1 v)
  let ?s = "\<lparr>ms_vars = v, ms_pc = Slowing\<rparr>"
  show ?case
  proof (cases "Stop_low0_cond v")
    case True
    then have n: "unat (CCR_Va0 v) = Suc (unat (CCR_Va0 (Stop_low0_pass v)))"
      by (simp add: Stop_low0_cond_def Stop_low0_pass_def motor_defs unat_pred)
    have "Motor_cotorl (Stop_low0_pass v) = 0"
      using "1.prems" by (simp add: Stop_low0_pass_def motor_defs)
    with "1.IH" True have "motor_run ID \<lparr>ms_vars = Stop_low0_pass v, ms_pc = Slowing\<rparr>
        (replicate (unat (CCR_Va0 (Stop_low0_pass v))) Slow_pass @ [Slow_end])
        \<lparr>ms_vars = Stop_low0 (Stop_low0_pass v), ms_pc = Mb_wait\<rparr>" by blast
    moreover have "motor_step ID ?s Slow_pass \<lparr>ms_vars = Stop_low0_pass v, ms_pc = Slowing\<rparr>"
      using motor_step.pass [of ?s] True by simp
    moreover have "Stop_low0 v = Stop_low0 (Stop_low0_pass v)"
      using True by (subst Stop_low0.simps) simp
    ultimately show ?thesis unfolding n by (auto intro: run_cons)
  next
    case False
    then have "CCR_Va0 v = 0" using "1.prems" word_neq_0_conv [of "CCR_Va0 v"] by (auto simp: Stop_low0_cond_def)
    moreover have "motor_step ID ?s Slow_end \<lparr>ms_vars = Stop_low0 v, ms_pc = Mb_wait\<rparr>"
      using motor_step.finish [of ?s] False by (subst Stop_low0.simps) simp
    ultimately show ?thesis by (auto intro: run_cons run_nil)
  qed
qed

lemma Stop_low0_result:
  "Motor_cotorl v = 0 \<Longrightarrow> Stop_low0 v = v\<lparr>CCR_Va0 := 0, pin_run := False, Motor_state := 0,
     pwm := (if CCR_Va0 v = 0 then pwm v else 1)\<rparr>"
proof (induction v rule: Stop_low0.induct)
  case (1 v)
  show ?case
  proof (cases "Stop_low0_cond v")
    case True
    let ?p = "Stop_low0_pass v"
    have "Stop_low0 v = Stop_low0 ?p" using True by (subst Stop_low0.simps) simp
    also have "\<dots> = ?p\<lparr>CCR_Va0 := 0, pin_run := False, Motor_state := 0,
        pwm := (if CCR_Va0 ?p = 0 then pwm ?p else 1)\<rparr>"
      using True "1.prems" by (intro "1.IH") (simp_all add: Stop_low0_pass_def motor_defs)
    also have "\<dots> = v\<lparr>CCR_Va0 := 0, pin_run := False, Motor_state := 0, pwm := 1\<rparr>"
      by (auto simp: Stop_low0_pass_def motor_defs)
    finally show ?thesis using True by (auto simp: Stop_low0_cond_def)
  next
    case False
    then have "CCR_Va0 v = 0" using "1.prems" word_neq_0_conv [of "CCR_Va0 v"] by (auto simp: Stop_low0_cond_def)
    then show ?thesis using False
      by (subst Stop_low0.simps) (simp add: Stop_low0_end_def motor_defs)
  qed
qed

section \<open>Properties\<close>

text \<open>C6: the interlock. As long as drive commands are sent only while no stop is pending or under
  way, a command reverses the direction pin only while the brake is on: from every state reachable
  with commands, interrupts and passes of the motor thread in any order, a change of the direction
  finds the run pin low.\<close>

theorem motor_interlock:
  assumes "motor_reach ID calm s" and "motor_step ID s (Command d) s'" and "calm s d"
    and "pin_forward (ms_vars s') \<noteq> pin_forward (ms_vars s)"
  shows "\<not> pin_run (ms_vars s)"
  using assms(2)
proof cases
  case (command v)
  then show ?thesis using interlock_command [OF interlock_reach [OF assms(1)] assms(3)] assms(4) by simp
qed

theorem motor_interlock_witness:
  "\<exists>s'. motor_step 0x0201 motor_boot (Command [1, 2, 2, 35]) s' \<and>
     pin_forward (ms_vars s') \<noteq> pin_forward (ms_vars motor_boot) \<and> \<not> pin_run (ms_vars motor_boot)"
proof -
  have "motor_isr 0x0201 [1, 2, 2, 35] (ms_vars motor_boot) = Some (motor_drive 2 2 run_fan 1 35 (ms_vars motor_boot))"
    by (simp add: motor_isr_def motor_command_def for_me_def rd_def motor_boot_def)
  then have step: "motor_step 0x0201 motor_boot (Command [1, 2, 2, 35])
      (motor_boot\<lparr>ms_vars := motor_drive 2 2 run_fan 1 35 (ms_vars motor_boot)\<rparr>)"
    by (rule motor_step.command)
  moreover have "calm motor_boot [1, 2, 2, 35]" by (simp add: calm_def motor_boot_def)
  moreover have flip: "pin_forward (ms_vars (motor_boot\<lparr>ms_vars := motor_drive 2 2 run_fan 1 35 (ms_vars motor_boot)\<rparr>)) \<noteq>
      pin_forward (ms_vars motor_boot)"
    by (simp add: motor_boot_def motor_defs)
  ultimately have "\<not> pin_run (ms_vars motor_boot)"
    by (rule motor_interlock [OF motor_reach.boot])
  with step flip show ?thesis by blast
qed

text \<open>Without that restriction the interlock fails. A forward command during a slow stop makes the
  stop end without braking while it still clears \<open>Motor_state\<close>, so the next command reverses a
  motor that runs forward at full speed.\<close>

theorem motor_reverses_at_speed:
  "\<exists>s d s'. motor_reach 0x0201 (\<lambda>s d. True) s \<and> motor_step 0x0201 s (Command d) s' \<and>
     pin_run (ms_vars s) \<and> pin_forward (ms_vars s) \<and> pwm (ms_vars s) = 999 \<and>
     \<not> pin_forward (ms_vars s') \<and> pwm (ms_vars s') = 999"
proof -
  define v0 where "v0 = ms_vars motor_boot"
  define v1 where "v1 = motor_drive 1 1 run_zheng 0 35 v0"
  define v2 where "v2 = rt_mb_send Stop_low (v1\<lparr>Motor_cotorl := 0\<rparr>)"
  define v3 where "v3 = v2\<lparr>do_motor_sem := []\<rparr>"
  define v4 where "v4 = motor_drive 1 1 run_zheng 0 35 v3"
  define v5 where "v5 = Stop_low0_end v4"
  define v6 where "v6 = motor_drive 2 2 run_fan 1 35 v5"
  note vs = v0_def v1_def v2_def v3_def v4_def v5_def v6_def motor_boot_def motor_defs Stop_low0_end_def
  have isr: "motor_isr 0x0201 [1, 2, 1, 35] v0 = Some v1" "motor_isr 0x0201 [1, 2, 0, 0] v1 = Some v2"
    "motor_isr 0x0201 [1, 2, 1, 35] v3 = Some v4" "motor_isr 0x0201 [1, 2, 2, 35] v5 = Some v6"
    by (simp_all add: for_me_def rd_def vs duty_def)
  have "motor_reach 0x0201 (\<lambda>s d. True) \<lparr>ms_vars = v0, ms_pc = Mb_wait\<rparr>"
    using motor_reach.boot by (simp add: v0_def motor_boot_def)
  then have "motor_reach 0x0201 (\<lambda>s d. True) \<lparr>ms_vars = v1, ms_pc = Mb_wait\<rparr>"
    using motor_step.command [of _ _ "\<lparr>ms_vars = v0, ms_pc = Mb_wait\<rparr>"] isr(1) by (auto intro: motor_reach.step)
  then have "motor_reach 0x0201 (\<lambda>s d. True) \<lparr>ms_vars = v2, ms_pc = Mb_wait\<rparr>"
    using motor_step.command [of _ _ "\<lparr>ms_vars = v1, ms_pc = Mb_wait\<rparr>"] isr(2) by (auto intro: motor_reach.step)
  moreover have "motor_step 0x0201 \<lparr>ms_vars = v2, ms_pc = Mb_wait\<rparr> Mb_recv \<lparr>ms_vars = v3, ms_pc = Slowing\<rparr>"
  proof -
    have "do_motor_sem v2 = [Stop_low]" by (simp add: vs)
    then show ?thesis
      using motor_step.recv_low [of "\<lparr>ms_vars = v2, ms_pc = Mb_wait\<rparr>" "[]"] by (simp add: v3_def)
  qed
  ultimately have "motor_reach 0x0201 (\<lambda>s d. True) \<lparr>ms_vars = v3, ms_pc = Slowing\<rparr>"
    by (auto intro: motor_reach.step)
  then have "motor_reach 0x0201 (\<lambda>s d. True) \<lparr>ms_vars = v4, ms_pc = Slowing\<rparr>"
    using motor_step.command [of _ _ "\<lparr>ms_vars = v3, ms_pc = Slowing\<rparr>"] isr(3) by (auto intro: motor_reach.step)
  moreover have "\<not> Stop_low0_cond v4" by (simp add: Stop_low0_cond_def vs)
  ultimately have "motor_reach 0x0201 (\<lambda>s d. True) \<lparr>ms_vars = v5, ms_pc = Mb_wait\<rparr>"
    using motor_step.finish [of "\<lparr>ms_vars = v4, ms_pc = Slowing\<rparr>"] by (auto intro: motor_reach.step simp: v5_def)
  moreover have "motor_step 0x0201 \<lparr>ms_vars = v5, ms_pc = Mb_wait\<rparr> (Command [1, 2, 2, 35]) \<lparr>ms_vars = v6, ms_pc = Mb_wait\<rparr>"
    using motor_step.command [of _ _ "\<lparr>ms_vars = v5, ms_pc = Mb_wait\<rparr>"] isr(4) by simp
  moreover have "pin_run v5" "pin_forward v5" "pwm v5 = 999" "\<not> pin_forward v6" "pwm v6 = 999"
    by (simp_all add: vs duty_def)
  ultimately show ?thesis by (intro exI conjI) auto
qed

text \<open>C27: a slow stop that no command interrupts ends. After as many passes as the pulse width
  counted down, the thread is back at its mailbox with the brake on, the state idle and the count
  zero; the output itself is left at one, not at zero.\<close>

theorem slow_stop_completes:
  assumes "Motor_cotorl v = 0"
  shows "\<exists>v'. motor_run ID \<lparr>ms_vars = v, ms_pc = Slowing\<rparr> (replicate (unat (CCR_Va0 v)) Slow_pass @ [Slow_end])
      \<lparr>ms_vars = v', ms_pc = Mb_wait\<rparr> \<and>
    \<not> pin_run v' \<and> Motor_state v' = 0 \<and> CCR_Va0 v' = 0 \<and> (CCR_Va0 v \<noteq> 0 \<longrightarrow> pwm v' = 1)"
  using Stop_low0_runs [OF assms, of ID] by (intro exI [of _ "Stop_low0 v"]) (simp add: Stop_low0_result [OF assms])

theorem slow_stop_completes_witness:
  "\<exists>v'. motor_run 0x0201 \<lparr>ms_vars = (ms_vars motor_boot)\<lparr>CCR_Va0 := 2, pwm := 2, pin_run := True, Motor_state := 1\<rparr>,
      ms_pc = Slowing\<rparr> [Slow_pass, Slow_pass, Slow_end] \<lparr>ms_vars = v', ms_pc = Mb_wait\<rparr> \<and> \<not> pin_run v' \<and> pwm v' = 1"
proof -
  have two: "replicate 2 Slow_pass = [Slow_pass, Slow_pass]" by (simp add: numeral_2_eq_2)
  show ?thesis
    using slow_stop_completes [where v = "(ms_vars motor_boot)\<lparr>CCR_Va0 := 2, pwm := 2, pin_run := True, Motor_state := 1\<rparr>" and ID = "0x0201"]
    by (auto simp: motor_boot_def two)
qed

text \<open>Losing the throttle messages does not stop the motor. However many passes the CAN thread
  makes without receiving anything, the pins, the pulse width and the mailbox of the motor thread
  stay as they are: the watchdog only clears \<open>Motor_cotorl\<close>.\<close>

theorem throttle_watchdog_never_stops:
  assumes "can_ok (nd_can nd)" and "can_pending (nd_can nd) = []"
  shows "\<exists>nd'. canbus_rounds ID (replicate n []) nd = Some nd' \<and>
    pin_run (nd_motor nd') = pin_run (nd_motor nd) \<and> pin_forward (nd_motor nd') = pin_forward (nd_motor nd) \<and>
    pwm (nd_motor nd') = pwm (nd_motor nd) \<and> do_motor_sem (nd_motor nd') = do_motor_sem (nd_motor nd)"
  using assms
proof (induction n arbitrary: nd)
  case 0
  then show ?case by simp
next
  case (Suc n)
  have r: "stm32_CAN_recv (nd_can nd) = Some (None, nd_can nd)"
    using stm32_CAN_recv_pops [OF Suc.prems(1)] Suc.prems(2) by simp
  obtain nd1 where nd1: "canbus_middle_round ID nd = Some nd1" "nd_can nd1 = nd_can nd"
      "pin_run (nd_motor nd1) = pin_run (nd_motor nd)" "pin_forward (nd_motor nd1) = pin_forward (nd_motor nd)"
      "pwm (nd_motor nd1) = pwm (nd_motor nd)" "do_motor_sem (nd_motor nd1) = do_motor_sem (nd_motor nd)"
    by (cases "nd_time_err nd + 1 > 400"; cases "Motor_state (nd_motor nd) > 0")
       (simp_all add: canbus_middle_round_def r Let_def)
  have same: "nd\<lparr>nd_can := nd_can nd, nd_motor := nd_motor nd\<rparr> = nd" by simp
  from Suc.IH [of nd1] nd1 Suc.prems show ?case by (simp add: same)
qed

theorem throttle_watchdog_never_stops_witness:
  "\<exists>nd'. canbus_rounds 0x0201 (replicate 1000 [])
      \<lparr>nd_can = sample_can, nd_ring = ring_sample, nd_motor = (ms_vars motor_boot)\<lparr>pin_run := True, pwm := 999\<rparr>,
       nd_delay = 0, nd_time_err = 0\<rparr> = Some nd' \<and> pin_run (nd_motor nd') \<and> pwm (nd_motor nd') = 999"
proof -
  let ?nd = "\<lparr>nd_can = sample_can, nd_ring = ring_sample, nd_motor = (ms_vars motor_boot)\<lparr>pin_run := True, pwm := 999\<rparr>,
       nd_delay = 0, nd_time_err = 0\<rparr>"
  have "can_ok (nd_can ?nd)" "can_pending (nd_can ?nd) = []"
    by (simp_all add: can_ok_def sample_can_def can_pending_def can_count_def ring_view_def)
  from throttle_watchdog_never_stops [OF this, where ID = "0x0201" and n = 1000] show ?thesis by auto
qed

end
