(* ===== verification/Can_Protocol.thy ===== *)
theory Can_Protocol
  imports Frame_Scan Device_Params Can_Bus
begin

text \<open>
  The CAN protocol of the application: firmware download, parameters, device search and self check
  (general_app/can_ota_protocol.c, general_app/can_search_protocol.c; the self-check answer of the
  DCG board is the one of bsp/DCG/app/canbus_middle.c, which replaces the weak one). \<open>can_app\<close> holds
  the globals of these files; what the handler asks of the bus and the kernel is the event list
  \<open>can_trace\<close>, oldest first. \<open>System_reset\<close> does not return on the device. The answer is built in a
  buffer of the stack whose initial content is the parameter \<open>stk\<close>; \<open>pad\<close> are the stack bytes that
  follow the image header structure. Diagnostic printing is left out.
\<close>

definition CAN_COMM_PROTOCOL_HEAD :: u8 where "CAN_COMM_PROTOCOL_HEAD = 0xFE"
definition CAN_COMM_PROTOCOL_TAIL :: u8 where "CAN_COMM_PROTOCOL_TAIL = 0xBE"
definition CAN_COMM_PROTOCOL_MIN_LEN :: u32 where "CAN_COMM_PROTOCOL_MIN_LEN = 8"
definition CAN_OTA_Recv_Start :: u8 where "CAN_OTA_Recv_Start = 0x01"
definition CAN_OTA_Recv_Update :: u8 where "CAN_OTA_Recv_Update = 0x02"
definition CAN_OTA_Recv_End :: u8 where "CAN_OTA_Recv_End = 0x03"
definition CAN_OTA_Send_Start :: u8 where "CAN_OTA_Send_Start = 0x81"
definition CAN_OTA_Send_Update :: u8 where "CAN_OTA_Send_Update = 0x82"
definition CAN_OTA_Send_End :: u8 where "CAN_OTA_Send_End = 0x83"
definition FUC_PARAMSET_READ :: u8 where "FUC_PARAMSET_READ = 0xA1"
definition FUC_PARAMSET_WRITE :: u8 where "FUC_PARAMSET_WRITE = 0xA2"
definition FUC_PARAMSET_SAVE :: u8 where "FUC_PARAMSET_SAVE = 0xA3"
definition FUC_DEVICE_RESTART :: u8 where "FUC_DEVICE_RESTART = 0xA4"
definition FUC_PARAMSET_DEFAULT :: u8 where "FUC_PARAMSET_DEFAULT = 0xA5"
definition FUC_DEVICE_SEARCH :: u8 where "FUC_DEVICE_SEARCH = 0xB1"
definition FUC_DEVICE_PARAMSET_SEARCH :: u8 where "FUC_DEVICE_PARAMSET_SEARCH = 0xB2"
definition FUC_AUTOMATIC_CHECK :: u8 where "FUC_AUTOMATIC_CHECK = 0xC1"

datatype can_event = Can_send u32 "u8 list" | Thread_delay u32 | System_reset

record 'f can_app =
  can_vars :: "'f dev_vars"
  OTA_Version :: u16
  OTA_TotalSize :: u32
  OTA_SubSize :: u32
  OTA_CRC32 :: u32
  OTA_Frame_Num :: u16
  OTA_UpdateFlag :: u8
  Sys_Run_Time :: u32
  Motor_error :: u8
  can_trace :: "can_event list"

section \<open>Answers\<close>

text \<open>The bytes of a half word, \<open>(u8)x\<close> and \<open>(u8)(x >> 8)\<close>.\<close>

definition half :: "u16 \<Rightarrow> u8 list" where
  "half x = [ucast x, ucast (drop_bit 8 x)]"

text \<open>What all answers share: the length test, the head, \<open>Get_Sum8(buf + 1, data_len - 3)\<close> over what
  the buffer holds at that moment, and the tail. The result is the number of bytes written.\<close>

definition put_frame :: "u32 \<Rightarrow> u8 list \<Rightarrow> u8 list \<Rightarrow> u32 \<Rightarrow> (u32 \<times> u8 list) option" where
  "put_frame data_len body buf len =
     (if len < data_len then Some (0, buf)
      else do {
        let bytes = [CAN_COMM_PROTOCOL_HEAD, ucast data_len, ucast (drop_bit 8 data_len)] @ body;
        buf \<leftarrow> wrs buf 0 bytes;
        s \<leftarrow> Get_Sum8 (drop 1 buf) (data_len - 3);
        buf \<leftarrow> wrs buf (length bytes) [s, CAN_COMM_PROTOCOL_TAIL];
        Some (of_nat (length bytes + 2), buf)
      })"

definition ids :: "'f dev_vars \<Rightarrow> u8 list" where
  "ids v = half (remoteID (iap_param v)) @ half (ID (iap_param v))"

definition CAN_OTA_Start_ACK_Construct :: "'f can_app \<Rightarrow> u8 list \<Rightarrow> u32 \<Rightarrow> (u32 \<times> u8 list) option" where
  "CAN_OTA_Start_ACK_Construct a buf len = put_frame 10 (CAN_OTA_Send_Start # ids (can_vars a)) buf len"

definition CAN_OTA_Update_ACK_Construct :: "'f can_app \<Rightarrow> u8 list \<Rightarrow> u32 \<Rightarrow> u8 \<Rightarrow> (u32 \<times> u8 list) option" where
  "CAN_OTA_Update_ACK_Construct a buf len state_code =
     put_frame 13 (CAN_OTA_Send_Update # ids (can_vars a) @ half (OTA_Frame_Num a) @ [state_code]) buf len"

definition CAN_OTA_End_ACK_Construct :: "'f can_app \<Rightarrow> u8 list \<Rightarrow> u32 \<Rightarrow> (u32 \<times> u8 list) option" where
  "CAN_OTA_End_ACK_Construct a buf len = put_frame 10 (CAN_OTA_Send_End # ids (can_vars a)) buf len"

definition CAN_Paramset_Read_Construct :: "'f can_app \<Rightarrow> u8 list \<Rightarrow> u32 \<Rightarrow> (u32 \<times> u8 list) option" where
  "CAN_Paramset_Read_Construct a buf len = (let
     v = can_vars a; p = iap_param v; d = dev_param v; r = realtime_param v; t = Sys_Run_Time a
   in put_frame 32 (FUC_PARAMSET_READ # ids v @ half (ID p) @
     [ucast (mswork_mode d), can_debug_flag r, analog_dial_switch d] @ half (voltage r) @ half (current r) @
     [ucast t, ucast (drop_bit 8 t), ucast (drop_bit 16 t), ucast (drop_bit 24 t)] @
     half (version d) @ half (swversion p) @ [ucast (hwversion p), 0, 0, 0, 0]) buf len)"

definition CAN_Paramset_Write_Construct :: "'f can_app \<Rightarrow> u8 list \<Rightarrow> u32 \<Rightarrow> (u32 \<times> u8 list) option" where
  "CAN_Paramset_Write_Construct a buf len = put_frame 10 (FUC_PARAMSET_WRITE # ids (can_vars a)) buf len"

definition CAN_Paramset_Save_Construct :: "'f can_app \<Rightarrow> u8 list \<Rightarrow> u32 \<Rightarrow> (u32 \<times> u8 list) option" where
  "CAN_Paramset_Save_Construct a buf len = put_frame 10 (FUC_PARAMSET_SAVE # ids (can_vars a)) buf len"

definition CAN_Device_Restart_Construct :: "'f can_app \<Rightarrow> u8 list \<Rightarrow> u32 \<Rightarrow> (u32 \<times> u8 list) option" where
  "CAN_Device_Restart_Construct a buf len = put_frame 10 (FUC_DEVICE_RESTART # ids (can_vars a)) buf len"

definition CAN_Paramset_Default_Construct :: "'f can_app \<Rightarrow> u8 list \<Rightarrow> u32 \<Rightarrow> (u32 \<times> u8 list) option" where
  "CAN_Paramset_Default_Construct a buf len = put_frame 10 (FUC_PARAMSET_DEFAULT # ids (can_vars a)) buf len"

definition CAN_Device_Search_Construct :: "'f can_app \<Rightarrow> u8 list \<Rightarrow> u32 \<Rightarrow> (u32 \<times> u8 list) option" where
  "CAN_Device_Search_Construct a buf len = (let v = can_vars a; p = iap_param v in
     put_frame 32 (FUC_DEVICE_SEARCH # ids v @ concat (map (\<lambda>k. half (ChipUniqueID p ! k)) [0, 1, 2, 3, 4, 5]) @
       half (swversion p) @ [ucast (hwversion p), ucast (IAP_flag p)] @ half (version (dev_param v)) @
       half (ID p) @ [0, 0]) buf len)"

definition CAN_Device_Paramset_Search_Construct :: "'f can_app \<Rightarrow> u8 list \<Rightarrow> u32 \<Rightarrow> (u32 \<times> u8 list) option" where
  "CAN_Device_Paramset_Search_Construct a buf len =
     put_frame 10 (FUC_DEVICE_PARAMSET_SEARCH # ids (can_vars a)) buf len"

text \<open>The self-check answers: the weak default, and the one of the DCG board that replaces it.\<close>

definition CAN_Automatic_Check_Construct_weak :: "'f can_app \<Rightarrow> u8 list \<Rightarrow> u32 \<Rightarrow> (u32 \<times> u8 list) option" where
  "CAN_Automatic_Check_Construct_weak a buf len =
     put_frame 24 (FUC_DEVICE_SEARCH # ids (can_vars a) @ replicate 14 0) buf len"

definition CAN_Automatic_Check_Construct :: "'f can_app \<Rightarrow> u8 list \<Rightarrow> u32 \<Rightarrow> (u32 \<times> u8 list) option" where
  "CAN_Automatic_Check_Construct a buf len =
     put_frame 24 (FUC_DEVICE_SEARCH # ids (can_vars a) @ [Motor_error a] @
       half (current (realtime_param (can_vars a))) @ [1]) buf len"

section \<open>Requests that change parameters\<close>

definition rd16 :: "u8 list \<Rightarrow> nat \<Rightarrow> u16 option" where
  "rd16 b k = do { h \<leftarrow> rd b (k + 1); l \<leftarrow> rd b k; Some (push_bit 8 (ucast h) OR ucast l) }"

definition CAN_Paramset_Receive_Analyse :: "u8 list \<Rightarrow> 'f dev_vars \<Rightarrow> 'f dev_vars option" where
  "CAN_Paramset_Receive_Analyse buf v = do {
     newID \<leftarrow> rd16 buf 8;
     mode \<leftarrow> rd buf 10;
     debug \<leftarrow> rd buf 11;
     dial \<leftarrow> rd buf 12;
     Some (v\<lparr>iap_param := (iap_param v)\<lparr>ID := newID\<rparr>,
       dev_param := (dev_param v)\<lparr>mswork_mode := ucast mode, analog_dial_switch := dial\<rparr>,
       realtime_param := (realtime_param v)\<lparr>can_debug_flag := debug\<rparr>\<rparr>)
   }"

definition CAN_Device_Paramset_Search_SetID :: "u8 list \<Rightarrow> 'f dev_vars \<Rightarrow> 'f dev_vars option" where
  "CAN_Device_Paramset_Search_SetID buf v = do {
     RecvID \<leftarrow> rd16 buf 26;
     u0 \<leftarrow> rd16 buf 8;
     u1 \<leftarrow> rd16 buf 10;
     u2 \<leftarrow> rd16 buf 12;
     u3 \<leftarrow> rd16 buf 14;
     u4 \<leftarrow> rd16 buf 16;
     u5 \<leftarrow> rd16 buf 18;
     let check_sum = length (filter (\<lambda>i. [u0, u1, u2, u3, u4, u5] ! i = ChipUniqueID (iap_param v) ! i)
       [0, 1, 2, 3, 4, 5]);
     Some (if check_sum = 6 then v\<lparr>iap_param := (iap_param v)\<lparr>ID := RecvID\<rparr>\<rparr> else v)
   }"

section \<open>The handler\<close>

definition emit :: "can_event \<Rightarrow> 'f can_app \<Rightarrow> 'f can_app" where
  "emit e a = a\<lparr>can_trace := can_trace a @ [e]\<rparr>"

definition on_vars :: "('f dev_vars \<Rightarrow> 'f dev_vars option) \<Rightarrow> 'f can_app \<Rightarrow> 'f can_app option" where
  "on_vars g a = map_option (\<lambda>v. a\<lparr>can_vars := v\<rparr>) (g (can_vars a))"

text \<open>\<open>if (send_len) canbus_middle_send(&CAN, 0x500, send_buf, send_len)\<close>\<close>

definition answer :: "(u32 \<times> u8 list) option \<Rightarrow> 'f can_app \<Rightarrow> 'f can_app option" where
  "answer built a = do {
     (send_len, send_buf) \<leftarrow> built;
     if send_len \<noteq> 0 then do {
       bs \<leftarrow> rds send_buf 0 (unat send_len);
       Some (emit (Can_send 0x500 bs) a)
     }
     else Some a
   }"

definition can_ota_start :: "'f flash_hw \<Rightarrow> u32 \<Rightarrow> u8 list \<Rightarrow> u8 list \<Rightarrow> u8 list \<Rightarrow> nat \<Rightarrow> 'f can_app \<Rightarrow> 'f can_app option" where
  "can_ota_start hw addr_appcopy stk pad buf i a = do {
     let a = a\<lparr>OTA_UpdateFlag := 1\<rparr>;
     ver \<leftarrow> rd16 buf (i + 8);
     let a = a\<lparr>OTA_Version := ver\<rparr>;
     total \<leftarrow> ArrayU8ToU32 (drop (i + 12) buf);
     sub16 \<leftarrow> ArrayU8ToU16 (drop (i + 16) buf);
     crc \<leftarrow> ArrayU8ToU32 (drop (i + 18) buf);
     let a = a\<lparr>OTA_TotalSize := total, OTA_SubSize := ucast sub16, OTA_CRC32 := crc\<rparr>;
     param \<leftarrow> rds buf (i + 8) 26;
     param \<leftarrow> wrs param 0 (half (OTA_Version a));
     (_, f) \<leftarrow> Flash_Storage_Header hw (dev_flash (can_vars a)) (param @ pad);
     let (_, f) = Flash_Erase_Page hw f addr_appcopy (OTA_TotalSize a);
     let a = a\<lparr>can_vars := (can_vars a)\<lparr>dev_flash := f\<rparr>\<rparr>;
     answer (CAN_OTA_Start_ACK_Construct a stk 100) a
   }"

definition can_ota_update :: "'f flash_hw \<Rightarrow> u32 \<Rightarrow> u8 list \<Rightarrow> u8 list \<Rightarrow> nat \<Rightarrow> u32 \<Rightarrow> 'f can_app \<Rightarrow> 'f can_app option" where
  "can_ota_update hw addr_appcopy stk buf i data_len a = do {
     let a = a\<lparr>OTA_UpdateFlag := 2\<rparr>;
     num \<leftarrow> ArrayU8ToU16 (drop (i + 8) buf);
     let a = a\<lparr>OTA_Frame_Num := num\<rparr>;
     let off = ucast (OTA_Frame_Num a) * OTA_SubSize a;
     if data_len > 10 \<and> off < OTA_BIN_MAX_SIZE
     then do {
       let updata_len = data_len - 12;
       (_, f) \<leftarrow> Flash_Write hw (dev_flash (can_vars a)) (addr_appcopy + off) (drop (i + 10) buf) updata_len;
       let a = a\<lparr>can_vars := (can_vars a)\<lparr>dev_flash := f\<rparr>\<rparr>;
       answer (CAN_OTA_Update_ACK_Construct a stk 100 0) a
     }
     else answer (CAN_OTA_Update_ACK_Construct a stk 100 1) a
   }"

definition can_ota_end :: "'f flash_hw \<Rightarrow> u8 list \<Rightarrow> 'f can_app \<Rightarrow> 'f can_app option" where
  "can_ota_end hw stk a = do {
     let a = emit (Thread_delay 1) a;
     let a = a\<lparr>OTA_UpdateFlag := 3\<rparr>;
     a \<leftarrow> answer (CAN_OTA_End_ACK_Construct a stk 100) a;
     let a = a\<lparr>can_vars := UpdateAppMode hw (can_vars a)\<rparr>;
     Some (emit System_reset (emit (Thread_delay 20) a))
   }"

definition can_search_delay :: "u16 \<Rightarrow> u32" where
  "can_search_delay n = (drop_bit 8 (ucast n) AND 0xFF) * 10 + (ucast n AND 0xFF) * 2"

definition can_command ::
  "'f flash_hw \<Rightarrow> u32 \<Rightarrow> u8 list \<Rightarrow> u8 list \<Rightarrow> u8 list \<Rightarrow> nat \<Rightarrow> u32 \<Rightarrow> u8 \<Rightarrow> 'f can_app \<Rightarrow> 'f can_app option" where
  "can_command hw addr_appcopy stk pad buf i data_len cmd a =
     (if cmd = CAN_OTA_Recv_Start then can_ota_start hw addr_appcopy stk pad buf i a
      else if cmd = CAN_OTA_Recv_Update then can_ota_update hw addr_appcopy stk buf i data_len a
      else if cmd = CAN_OTA_Recv_End then can_ota_end hw stk a
      else if cmd = FUC_PARAMSET_READ then answer (CAN_Paramset_Read_Construct a stk 100) a
      else if cmd = FUC_PARAMSET_WRITE then do {
        a \<leftarrow> on_vars (CAN_Paramset_Receive_Analyse (drop i buf)) a;
        answer (CAN_Paramset_Write_Construct a stk 100) a
      }
      else if cmd = FUC_PARAMSET_SAVE then do {
        a \<leftarrow> on_vars (stm32_param_save hw) a;
        a \<leftarrow> on_vars (iap_param_save hw) a;
        answer (CAN_Paramset_Save_Construct a stk 100) a
      }
      else if cmd = FUC_DEVICE_RESTART then do {
        a \<leftarrow> answer (CAN_Device_Restart_Construct a stk 100) a;
        Some (emit System_reset (emit (Thread_delay 10) a))
      }
      else if cmd = FUC_PARAMSET_DEFAULT then do {
        a \<leftarrow> answer (CAN_Paramset_Default_Construct a stk 100) a;
        on_vars (stm32_param_default hw) a
      }
      else if cmd = FUC_DEVICE_SEARCH then do {
        let my = ID (iap_param (can_vars a));
        (send_len, send_buf) \<leftarrow> CAN_Device_Search_Construct a stk 100;
        if send_len \<noteq> 0
        then answer (Some (send_len, send_buf))
          (if my = 0xFFFF then a else emit (Thread_delay (can_search_delay my)) a)
        else Some a
      }
      else if cmd = FUC_DEVICE_PARAMSET_SEARCH then do {
        a \<leftarrow> on_vars (CAN_Device_Paramset_Search_SetID (drop i buf)) a;
        answer (CAN_Device_Paramset_Search_Construct a stk 100) a
      }
      else if cmd = FUC_AUTOMATIC_CHECK then answer (CAN_Automatic_Check_Construct a stk 100) a
      else Some a)"

definition can500_protocol_anylise ::
  "'f flash_hw \<Rightarrow> u8 list \<Rightarrow> u8 list \<Rightarrow> 'f can_app \<Rightarrow> u8 list \<Rightarrow> u32 \<Rightarrow> (del_info_type \<times> 'f can_app) option" where
  "can500_protocol_anylise hw stk pad a buf len = do {
     let addr_appcopy = flash_page_from_end hw (dev_flash (can_vars a)) FLASH_APP_COPY_ADDR;
     if len < CAN_COMM_PROTOCOL_MIN_LEN then Some (\<lparr>info_state = anylise_waiting, del_len = 0\<rparr>, a)
     else do {
       r \<leftarrow> can500_scan buf len;
       (case r of
          Scan_info info \<Rightarrow> Some (info, a)
        | Scan_frame i data_len \<Rightarrow> do {
            dev_ID \<leftarrow> rd16 buf (i + 4);
            remote \<leftarrow> rd16 buf (i + 6);
            let v = can_vars a;
            let a = a\<lparr>can_vars := v\<lparr>iap_param := (iap_param v)\<lparr>remoteID := remote\<rparr>\<rparr>\<rparr>;
            let my = ID (iap_param (can_vars a));
            a \<leftarrow> (if my = dev_ID \<or> my = 0xFFFF
              then do {
                cmd \<leftarrow> rd buf (i + 3);
                can_command hw addr_appcopy stk pad buf i data_len cmd a
              }
              else Some a);
            Some (\<lparr>info_state = anylise_accept, del_len = data_len + of_nat i\<rparr>, a)
          })
     }
   }"

section \<open>The answers are frames\<close>

lemma low_high_bytes:
  "le_enc 2 (unat (x :: 'a::len word)) = [ucast x, ucast (drop_bit 8 x)]"
proof -
  have d: "unat (drop_bit 8 x) = unat x div 256"
    by (simp only: unat_drop_bit_eq) (simp add: drop_bit_eq_div)
  show ?thesis unfolding le_enc_2 ucast_byte d by (rule refl)
qed

lemma half_le_enc: "half x = le_enc 2 (unat x)"
  unfolding half_def low_high_bytes ..

lemma length_half [simp]: "length (half x) = 2"
  by (simp add: half_def)

lemma rd16_half: "drop k b = half x @ r \<Longrightarrow> rd16 b k = Some x"
proof -
  assume d: "drop k b = half x @ r"
  then have "length (drop k b) = 2 + length r" by simp
  then have l: "k + 1 < length b" by simp
  have "b ! k = ucast x" "b ! (k + 1) = ucast (drop_bit 8 x)"
  proof -
    have "drop k b ! 0 = ucast x" "drop k b ! 1 = ucast (drop_bit 8 x)" by (simp_all add: d half_def)
    then show "b ! k = ucast x" "b ! (k + 1) = ucast (drop_bit 8 x)" using l by simp_all
  qed
  moreover have "push_bit 8 (ucast (ucast (drop_bit 8 x) :: u8)) OR ucast (ucast x :: u8) = x"
    by (rule bit_word_eqI) (auto simp: bit_simps dest: bit_imp_le_length)
  ultimately show ?thesis using l by (simp add: rd16_def rd_Some)
qed

lemma put_frame_mk_frame:
  assumes "unat n = length body + 5" and "unat n < 65536" and "unat n \<le> unat len" and "unat len \<le> length buf"
  shows "put_frame n body buf len = Some (n, mk_frame body @ drop (unat n) buf)"
proof -
  define bytes where "bytes = [CAN_COMM_PROTOCOL_HEAD, ucast n, ucast (drop_bit 8 n)] @ body"
  define buf1 where "buf1 = bytes @ drop (length bytes) buf"
  have l: "length bytes + 2 = unat n" by (simp add: bytes_def assms(1))
  have w1: "wrs buf 0 bytes = Some buf1"
    using assms l wrs_Some [of 0 bytes buf] by (simp add: buf1_def)
  have e: "le_enc 2 (length body + 5) = [ucast n, ucast (drop_bit 8 n)]"
    unfolding assms(1) [symmetric] low_high_bytes ..
  have n3: "unat (n - 3) = unat n - 3"
    using assms(1) by (subst unat_sub) (simp_all add: word_le_nat_alt)
  have sum: "Get_Sum8 (drop 1 buf1) (n - 3) = Some (sum_list (le_enc 2 (length body + 5) @ body))"
  proof -
    have "unat (n - 3) \<le> length (drop 1 buf1)" using assms l n3 by (simp add: buf1_def)
    moreover have "take (unat (n - 3)) (drop 1 buf1) = le_enc 2 (length body + 5) @ body"
      unfolding e n3 assms(1) by (simp add: buf1_def bytes_def)
    ultimately show ?thesis using Get_Sum8_sum by metis
  qed
  let ?s = "sum_list (le_enc 2 (length body + 5) @ body)"
  have "wrs buf1 (length bytes) [?s, CAN_COMM_PROTOCOL_TAIL] =
      Some (take (length bytes) buf1 @ [?s, CAN_COMM_PROTOCOL_TAIL] @
        drop (length bytes + length [?s, CAN_COMM_PROTOCOL_TAIL]) buf1)"
    using assms l by (intro wrs_Some) (simp add: buf1_def)
  moreover have "drop (length bytes + length [?s, CAN_COMM_PROTOCOL_TAIL]) buf1 = drop (unat n) buf"
    using l by (simp add: buf1_def)
  moreover have "mk_frame body = bytes @ [?s, CAN_COMM_PROTOCOL_TAIL]"
    unfolding mk_frame_def e by (simp add: bytes_def CAN_COMM_PROTOCOL_HEAD_def CAN_COMM_PROTOCOL_TAIL_def)
  ultimately have w2: "wrs buf1 (length bytes) [?s, CAN_COMM_PROTOCOL_TAIL] = Some (mk_frame body @ drop (unat n) buf)"
    by (simp add: buf1_def)
  have nn: "of_nat (length bytes + 2) = n" unfolding l by simp
  have "\<not> len < n" using assms(3) by (simp add: word_less_nat_alt)
  then show ?thesis
    by (simp only: put_frame_def if_False Let_def bytes_def [symmetric] w1 Option.bind.bind_lunit sum w2 nn)
qed

lemma mk_frame_scanned:
  assumes "unat n = length body + 5" and "8 \<le> unat n" and "unat n \<le> 1460"
  shows "can500_scan (mk_frame body @ r) n = Some (Scan_frame 0 n)"
proof -
  have "frame_scan 0xFE 0xBE 8 1460 ([] @ mk_frame body @ r) n 0 = Some (Scan_frame (length ([] :: u8 list)) (of_nat (length body + 5)))"
    using assms by (intro frame_scan_after_noise [OF refl]) simp_all
  then show ?thesis unfolding assms(1) [symmetric] by (simp add: can500_scan_def)
qed

text \<open>An answer whose length field tells its length is found by the receiver behind any noise without
  head bytes, with the command and the identifiers in their places.\<close>

lemma put_frame_found:
  assumes "unat n = length rest + 10" and "unat n \<le> 100" and "100 \<le> length buf"
    and "0xFE \<notin> set pre" and "length pre \<le> 1024"
  shows "\<exists>buf'. put_frame n (cmd # ids v @ rest) buf 100 = Some (n, buf') \<and>
    can500_scan (pre @ take (unat n) buf' @ post) (of_nat (length pre) + n) = Some (Scan_frame (length pre) n) \<and>
    uart_scan (pre @ take (unat n) buf' @ post) (of_nat (length pre) + n) = Some (Scan_frame (length pre) n) \<and>
    rd (pre @ take (unat n) buf' @ post) (length pre + 3) = Some cmd \<and>
    rd16 (pre @ take (unat n) buf' @ post) (length pre + 4) = Some (remoteID (iap_param v)) \<and>
    rd16 (pre @ take (unat n) buf' @ post) (length pre + 6) = Some (ID (iap_param v))"
proof -
  let ?body = "cmd # ids v @ rest"
  define b where "b = pre @ mk_frame ?body @ post"
  have l: "unat n = length ?body + 5" using assms(1) by (simp add: ids_def)
  have p: "put_frame n ?body buf 100 = Some (n, mk_frame ?body @ drop (unat n) buf)"
    using assms l by (intro put_frame_mk_frame) simp_all
  have t: "take (unat n) (mk_frame ?body @ drop (unat n) buf) = mk_frame ?body" by (simp add: l)
  have n: "of_nat (length ?body + 5) = n" unfolding l [symmetric] by simp
  have len: "unat (of_nat (length pre) + n) = length pre + length ?body + 5"
    using assms(2,5) l by (simp add: unat_word_ariths unat_of_nat_u32)
  have s: "frame_scan 0xFE 0xBE 8 mx b (of_nat (length pre) + n) 0 = Some (Scan_frame (length pre) n)"
    if "1280 \<le> unat mx" "unat mx < 65536" for mx
    using frame_scan_after_noise [OF b_def assms(4) _ _ _ that(2) len, of 8] that(1) assms(1,2) l unfolding n by simp
  have scans: "can500_scan b (of_nat (length pre) + n) = Some (Scan_frame (length pre) n)"
    "uart_scan b (of_nat (length pre) + n) = Some (Scan_frame (length pre) n)"
    unfolding can500_scan_def uart_scan_def by (rule s, simp, simp)+
  obtain x y where f: "mk_frame ?body = [0xFE, x, y] @ [cmd] @ half (remoteID (iap_param v)) @
      half (ID (iap_param v)) @ rest @ [sum_list (le_enc 2 (length ?body + 5) @ ?body), 0xBE]"
    by (simp add: mk_frame_def le_enc_2 ids_def)
  have "rd16 b (length pre + 4) = Some (remoteID (iap_param v))" "rd16 b (length pre + 6) = Some (ID (iap_param v))"
    unfolding b_def f by (rule rd16_half, simp add: half_def)+
  moreover have "rd b (length pre + 3) = Some cmd" by (simp add: b_def f rd_def nth_append)
  ultimately show ?thesis
    using p scans unfolding b_def by (intro exI [of _ "mk_frame ?body @ drop (unat n) buf"]) (simp only: t simp_thms)
qed

text \<open>What \<open>put_frame\<close> writes, whatever length the answer announces.\<close>

lemma put_frame_writes:
  assumes "\<not> len < n" and "length body + 5 \<le> length buf" and "unat (n - 3) < length buf"
  shows "\<exists>s. put_frame n body buf len = Some (of_nat (length body + 5),
    [CAN_COMM_PROTOCOL_HEAD, ucast n, ucast (drop_bit 8 n)] @ body @ [s, CAN_COMM_PROTOCOL_TAIL] @
      drop (length body + 5) buf)"
proof -
  define bytes where "bytes = [CAN_COMM_PROTOCOL_HEAD, ucast n, ucast (drop_bit 8 n)] @ body"
  define buf1 where "buf1 = bytes @ drop (length bytes) buf"
  have l: "length bytes + 2 = length body + 5" by (simp add: bytes_def)
  have w1: "wrs buf 0 bytes = Some buf1"
    using assms(2) l wrs_Some [of 0 bytes buf] by (simp add: buf1_def)
  have lb: "length buf1 = length buf" using assms(2) l by (simp add: buf1_def)
  obtain s where s: "Get_Sum8 (drop 1 buf1) (n - 3) = Some s"
    using assms(3) lb Get_Sum8_sum [of "n - 3" "drop 1 buf1"] by auto
  have "wrs buf1 (length bytes) [s, CAN_COMM_PROTOCOL_TAIL] =
      Some (take (length bytes) buf1 @ [s, CAN_COMM_PROTOCOL_TAIL] @
        drop (length bytes + length [s, CAN_COMM_PROTOCOL_TAIL]) buf1)"
    using assms(2) l lb by (intro wrs_Some) simp
  moreover have "drop (length bytes + length [s, CAN_COMM_PROTOCOL_TAIL]) buf1 = drop (length body + 5) buf"
    unfolding l [symmetric] by (simp add: buf1_def)
  ultimately have w2: "wrs buf1 (length bytes) [s, CAN_COMM_PROTOCOL_TAIL] =
      Some (bytes @ [s, CAN_COMM_PROTOCOL_TAIL] @ drop (length body + 5) buf)"
    by (simp add: buf1_def)
  have "put_frame n body buf len = Some (of_nat (length bytes + 2),
      bytes @ [s, CAN_COMM_PROTOCOL_TAIL] @ drop (length body + 5) buf)"
    using assms(1) by (simp only: put_frame_def if_False Let_def bytes_def [symmetric] w1 Option.bind.bind_lunit s w2)
  then show ?thesis unfolding l by (auto simp: bytes_def)
qed

text \<open>The self-check answer of the DCG board announces ten bytes more than it has.\<close>

lemma can500_scan_short:
  assumes "b ! 0 = 0xFE" and "b ! 1 = 24" and "b ! 2 = 0" and "3 \<le> length b"
  shows "can500_scan b 14 = Some (Scan_info \<lparr>info_state = anylise_waiting, del_len = 0\<rparr>)"
proof -
  have r: "rd b 0 = Some 0xFE" "rd b (Suc 0) = Some 24" "rd b (Suc (Suc 0)) = Some 0"
    using assms by (auto simp: rd_def numeral_2_eq_2)
  show ?thesis unfolding can500_scan_def by (subst frame_scan.simps) (simp add: r)
qed

section \<open>Storing the image\<close>

lemma half_word: "(ucast (ucast x :: u8) + push_bit 8 (ucast (ucast (drop_bit 8 x) :: u8)) :: u32) = ucast (x :: u16)"
proof -
  have "(ucast (ucast x :: u8) :: u32) AND push_bit 8 (ucast (ucast (drop_bit 8 x) :: u8)) = 0"
    by (rule bit_word_eqI) (auto simp: bit_simps dest: bit_imp_le_length)
  then have "(ucast (ucast x :: u8) + push_bit 8 (ucast (ucast (drop_bit 8 x) :: u8)) :: u32) =
      ucast (ucast x :: u8) OR push_bit 8 (ucast (ucast (drop_bit 8 x) :: u8))"
    by (simp add: disjunctive_add_eq_or)
  also have "\<dots> = ucast x" by (rule bit_word_eqI) (auto simp: bit_simps dest: bit_imp_le_length)
  finally show ?thesis .
qed

lemma ArrayU8ToU16_half: "ArrayU8ToU16 (half x @ r) = Some x"
proof -
  have "ucast (ucast x :: u32) = x" by (rule bit_word_eqI) (auto simp: bit_simps)
  then show ?thesis by (simp add: ArrayU8ToU16_def half_def rd_def half_word)
qed

text \<open>An update request: the block \<open>bs\<close> with its number.\<close>

definition update_frame :: "u16 \<Rightarrow> u16 \<Rightarrow> u16 \<Rightarrow> u8 list \<Rightarrow> u8 list" where
  "update_frame target sender num bs =
     mk_frame (CAN_OTA_Recv_Update # half target @ half sender @ half num @ bs)"

lemma update_frame_fields:
  assumes b_def: "b = update_frame target sender num bs @ r"
  shows "length (update_frame target sender num bs) = length bs + 12"
    and "rd16 b 4 = Some target" and "rd16 b 6 = Some sender" and "rd b 3 = Some CAN_OTA_Recv_Update"
    and "ArrayU8ToU16 (drop 8 b) = Some num" and "take (length bs) (drop 10 b) = bs"
proof -
  obtain x y s where f: "update_frame target sender num bs =
      [0xFE, x, y] @ [CAN_OTA_Recv_Update] @ half target @ half sender @ half num @ bs @ [s, 0xBE]"
    by (simp add: update_frame_def mk_frame_def le_enc_2)
  show "length (update_frame target sender num bs) = length bs + 12" by (simp add: f)
  show "rd16 b 4 = Some target" "rd16 b 6 = Some sender"
    unfolding b_def f by (rule rd16_half, simp add: half_def)+
  show "rd b 3 = Some CAN_OTA_Recv_Update" by (simp add: b_def f rd_def)
  have "drop 8 b = half num @ bs @ [s, 0xBE] @ r" by (simp add: b_def f half_def)
  then show "ArrayU8ToU16 (drop 8 b) = Some num" by (simp add: ArrayU8ToU16_half)
  show "take (length bs) (drop 10 b) = bs" by (simp add: b_def f half_def)
qed

lemma can500_scan_update:
  assumes "length bs \<le> 1448"
  shows "can500_scan (update_frame target sender num bs @ r) (of_nat (length bs + 12)) =
    Some (Scan_frame 0 (of_nat (length bs + 12)))"
proof -
  have "unat (of_nat (length bs + 12) :: u32) = length bs + 12"
    unfolding unat_of_nat_u32 using assms by simp
  then show ?thesis
    unfolding update_frame_def using assms by (intro mk_frame_scanned) simp_all
qed

text \<open>The confirmation of block \<open>num\<close>: to the sender of the block, with state 0.\<close>

definition confirmation :: "u16 \<Rightarrow> u16 \<Rightarrow> u16 \<Rightarrow> u8 list" where
  "confirmation target sender num = mk_frame (CAN_OTA_Send_Update # half sender @ half target @ half num @ [0])"

lemma confirmation_state: "confirmation target sender num ! 10 = 0"
  by (simp add: confirmation_def mk_frame_def le_enc_2 half_def)

lemma update_ack:
  assumes "100 \<le> length stk"
  shows "answer (CAN_OTA_Update_ACK_Construct a stk 100 code) a' =
    Some (emit (Can_send 0x500 (mk_frame (CAN_OTA_Send_Update # ids (can_vars a) @ half (OTA_Frame_Num a) @ [code]))) a')"
proof -
  let ?body = "CAN_OTA_Send_Update # ids (can_vars a) @ half (OTA_Frame_Num a) @ [code]"
  have p: "put_frame 13 ?body stk 100 = Some (13, mk_frame ?body @ drop (unat (13 :: u32)) stk)"
    using assms by (intro put_frame_mk_frame) (simp_all add: ids_def)
  have l: "length (mk_frame ?body) = 13" by (simp add: ids_def)
  have "rds (mk_frame ?body @ drop 13 stk) 0 13 = Some (mk_frame ?body)"
    using l by (simp add: rds_def)
  then show ?thesis using p by (simp add: CAN_OTA_Update_ACK_Construct_def answer_def)
qed

text \<open>What the handler does with a block for this device: store it, then confirm.\<close>

lemma can500_update_step:
  assumes "length bs \<le> 1448" and "length bs + 12 \<le> length b" and "b = update_frame target sender num bs @ r"
    and "ID (iap_param (can_vars a)) = target" and "100 \<le> length stk"
    and "ucast num * OTA_SubSize a < OTA_BIN_MAX_SIZE"
    and "Flash_Write hw (dev_flash (can_vars a))
       (flash_page_from_end hw (dev_flash (can_vars a)) FLASH_APP_COPY_ADDR + ucast num * OTA_SubSize a)
       (drop 10 b) (of_nat (length bs)) = Some (l, f')"
  shows "\<exists>a'. can500_protocol_anylise hw stk pad a b (of_nat (length bs + 12)) =
      Some (\<lparr>info_state = anylise_accept, del_len = of_nat (length bs + 12)\<rparr>, a') \<and>
    dev_flash (can_vars a') = f' \<and> OTA_SubSize a' = OTA_SubSize a \<and> OTA_UpdateFlag a' = 2 \<and>
    ID (iap_param (can_vars a')) = ID (iap_param (can_vars a)) \<and>
    can_trace a' = can_trace a @ [Can_send 0x500 (confirmation target sender num)]"
proof -
  let ?n = "of_nat (length bs + 12) :: u32"
  have n: "unat ?n = length bs + 12" unfolding unat_of_nat_u32 using assms(1) by simp
  note flds = update_frame_fields [OF assms(3)]
  have scan: "can500_scan b ?n = Some (Scan_frame 0 ?n)"
    unfolding assms(3) by (rule can500_scan_update [OF assms(1)])
  have n8: "\<not> ?n < CAN_COMM_PROTOCOL_MIN_LEN" and n10: "?n > 10"
    using n by (simp_all add: CAN_COMM_PROTOCOL_MIN_LEN_def word_less_nat_alt)
  have n12: "?n - 12 = of_nat (length bs)" by simp
  define a1 where "a1 = a\<lparr>can_vars := (can_vars a)\<lparr>iap_param := (iap_param (can_vars a))\<lparr>remoteID := sender\<rparr>\<rparr>,
    OTA_UpdateFlag := 2, OTA_Frame_Num := num, can_vars := (can_vars a)\<lparr>iap_param := (iap_param (can_vars a))\<lparr>remoteID := sender\<rparr>, dev_flash := f'\<rparr>\<rparr>"
  define ack where "ack = confirmation target sender num"
  have ack: "answer (CAN_OTA_Update_ACK_Construct a1 stk 100 0) a1 = Some (emit (Can_send 0x500 ack) a1)"
    unfolding update_ack [OF assms(5), of a1 0 a1] using assms(4) by (simp add: ack_def confirmation_def ids_def a1_def)
  have "can_ota_update hw (flash_page_from_end hw (dev_flash (can_vars a)) FLASH_APP_COPY_ADDR) stk b 0 ?n
      (a\<lparr>can_vars := (can_vars a)\<lparr>iap_param := (iap_param (can_vars a))\<lparr>remoteID := sender\<rparr>\<rparr>\<rparr>) =
      Some (emit (Can_send 0x500 ack) a1)"
    using n10 n12 assms(6,7) ack by (simp add: can_ota_update_def flds(5) a1_def)
  then have "can500_protocol_anylise hw stk pad a b ?n =
      Some (\<lparr>info_state = anylise_accept, del_len = ?n\<rparr>, emit (Can_send 0x500 ack) a1)"
    using n8 scan flds(2-4) assms(4)
    by (simp add: can500_protocol_anylise_def Let_def can_command_def CAN_OTA_Recv_Update_def CAN_OTA_Recv_Start_def)
  then show ?thesis using assms(4) by (simp add: emit_def a1_def ack_def)
qed

text \<open>The blocks of an image, one request each, with the verdicts of the handler; \<open>left k\<close> is what an
  earlier round left in the analysis buffer behind request \<open>k\<close>.\<close>

fun can_download ::
  "'f flash_hw \<Rightarrow> u8 list \<Rightarrow> u8 list \<Rightarrow> u16 \<Rightarrow> u16 \<Rightarrow> (nat \<Rightarrow> u8 list) \<Rightarrow> nat \<Rightarrow> u8 list list \<Rightarrow> 'f can_app \<Rightarrow>
   (del_info_type list \<times> 'f can_app) option" where
  "can_download hw stk pad target sender left k [] a = Some ([], a)"
| "can_download hw stk pad target sender left k (bs # rest) a = do {
     (info, a) \<leftarrow> can500_protocol_anylise hw stk pad a
       (update_frame target sender (of_nat k) bs @ left k) (of_nat (length bs + 12));
     (infos, a) \<leftarrow> can_download hw stk pad target sender left (Suc k) rest a;
     Some (info # infos, a)
   }"

lemma region_factory:
  assumes "unat a + length bs \<le> 0x1FFFF7E0" and "hw_byte hw f' = put_bytes (hw_byte hw f) a bs"
  shows "factory hw f' = factory hw f"
  unfolding factory_def
proof (rule flash_bytes_cong)
  fix k :: nat assume "k < 32"
  then have x: "unat (FLASH_SIZE_ADDR + of_nat k) = 536868832 + k"
    by (simp add: FLASH_SIZE_ADDR_def unat_word_ariths unat_of_nat_u32)
  then have "a \<le> FLASH_SIZE_ADDR + of_nat k" using assms(1) by (simp add: word_le_nat_alt)
  then have "unat (FLASH_SIZE_ADDR + of_nat k - a) = 536868832 + k - unat a" using x by (simp add: unat_sub)
  then have "\<not> unat (FLASH_SIZE_ADDR + of_nat k - a) < length bs" using assms(1) by simp
  then show "hw_byte hw f' (FLASH_SIZE_ADDR + of_nat k) = hw_byte hw f (FLASH_SIZE_ADDR + of_nat k)"
    by (simp add: assms(2) put_bytes_def)
qed

definition download_area :: "'f flash_hw \<Rightarrow> 'f \<Rightarrow> u32" where
  "download_area hw f = flash_page_from_end hw f FLASH_APP_COPY_ADDR"

lemma download_area_bounds:
  assumes "flash_layout hw main f"
  shows "unat (download_area hw f) + 116736 \<le> 201326592" and "4 dvd unat (download_area hw f)"
    and "j < 116736 \<Longrightarrow> main (download_area hw f + of_nat j)"
proof -
  let ?s = "unat (Get_FlashSize hw f)"
  have s: "?s < 65536" "114 \<le> ?s" "even ?s"
    and main: "\<And>x. 0x08000000 \<le> unat x \<Longrightarrow> unat x < 0x08000000 + 1024 * ?s \<Longrightarrow> main x"
    using assms unat_less_u16 by (auto simp: flash_layout_def)
  have a: "unat (download_area hw f) = 0x08000000 + 1024 * ?s - 2048 * 57"
    using flash_page_address [OF assms, of FLASH_APP_COPY_ADDR]
    by (simp add: download_area_def FLASH_APP_COPY_ADDR_def)
  show "unat (download_area hw f) + 116736 \<le> 201326592" using a s by simp
  have "unat (download_area hw f) = 4 * (33554432 + 256 * ?s - 29184)" using a s by simp
  then show "4 dvd unat (download_area hw f)" by (rule dvdI)
  show "main (download_area hw f + of_nat j)" if "j < 116736"
  proof (rule main)
    have "unat (download_area hw f + of_nat j) = unat (download_area hw f) + j"
      using that a s by (simp add: unat_word_ariths unat_of_nat_u32)
    then show "0x08000000 \<le> unat (download_area hw f + of_nat j)"
      "unat (download_area hw f + of_nat j) < 0x08000000 + 1024 * ?s" using that a s by simp_all
  qed
qed

text \<open>All blocks but the last have the announced size.\<close>

fun blocks_ok :: "nat \<Rightarrow> u8 list list \<Rightarrow> bool" where
  "blocks_ok s [] = True"
| "blocks_ok s [bs] = (length bs \<le> s)"
| "blocks_ok s (bs # rest) = (length bs = s \<and> blocks_ok s rest)"

context flash_device
begin

lemma can_download_stores:
  assumes "s mod 4 = 0" and "s \<le> 1448" and "unat (OTA_SubSize a) = s" and "blocks_ok s blocks"
    and "(k + length blocks) * s \<le> 106496" and "k + length blocks \<le> 65536"
    and "flash_layout hw main f0" and "area = download_area hw f0"
    and "\<And>j. j < (k + length blocks) * s + 4 \<Longrightarrow> hw_byte hw f0 (area + of_nat j) = 0xFF"
    and "length done = k * s" and "hw_byte hw (dev_flash (can_vars a)) = put_bytes (hw_byte hw f0) area done"
    and "ID (iap_param (can_vars a)) = target" and "100 \<le> length stk"
  shows "\<exists>a'. can_download hw stk pad target sender left k blocks a =
      Some (map (\<lambda>bs. \<lparr>info_state = anylise_accept, del_len = of_nat (length bs + 12)\<rparr>) blocks, a') \<and>
    hw_byte hw (dev_flash (can_vars a')) = put_bytes (hw_byte hw f0) area (done @ concat blocks) \<and>
    can_trace a' = can_trace a @ map (\<lambda>j. Can_send 0x500 (confirmation target sender (of_nat j))) [k..<k + length blocks]"
  using assms
proof (induction blocks arbitrary: a k "done")
  case Nil
  then show ?case by simp
next
  case (Cons bs rest)
  let ?f = "dev_flash (can_vars a)"
  have bs: "length bs \<le> s" using Cons.prems(4) by (cases rest) simp_all
  have ks: "k * s + s \<le> 106496" "k < 65536" using Cons.prems(5,6) by (simp_all add: algebra_simps)
  note area = download_area_bounds [OF Cons.prems(7), folded Cons.prems(8)]
  have "factory hw ?f = factory hw f0"
    using area(1) ks Cons.prems(10) by (intro region_factory [OF _ Cons.prems(11)]) simp
  then have here: "flash_page_from_end hw ?f FLASH_APP_COPY_ADDR = area"
    using factory_same(3) Cons.prems(8) by (simp add: download_area_def)
  define off where "off = ucast (of_nat k :: u16) * OTA_SubSize a"
  have uoff: "unat off = k * s"
  proof -
    have "unat (ucast (of_nat k :: u16) :: u32) = k"
      using ks(2) by (simp add: unsigned_ucast_eq unat_of_nat_u16 take_bit_eq_mod)
    then show ?thesis using ks Cons.prems(3) by (simp add: off_def unat_word_ariths)
  qed
  then have offk: "off = of_nat (k * s)" unfolding uoff [symmetric] by simp
  have uaddr: "unat (area + off) = unat area + k * s"
    using area(1) ks uoff by (subst unat_add_noover) simp_all
  have addr4: "(area + off) mod 4 = 0"
  proof (rule word_unat_eqI)
    have "4 dvd unat area + k * s" using area(2) Cons.prems(1) by (intro dvd_add dvd_mult) auto
    then show "unat ((area + off) mod 4) = unat (0 :: u32)" by (simp add: unat_mod uaddr)
  qed
  define b where "b = update_frame target sender (of_nat k) bs @ left k"
  note flds = update_frame_fields [OF b_def]
  have lenb: "length bs + 12 \<le> length b" using flds(1) by (simp add: b_def)
  have ul: "unat (of_nat (length bs) :: u32) = length bs"
    using bs Cons.prems(2) by (simp add: unat_of_nat_u32)
  have at: "area + off + of_nat j = area + of_nat (k * s + j)" for j by (simp add: offk)
  have main: "main (area + off + of_nat j)" if "j < length bs + 4" for j
    unfolding at using that bs ks by (intro area(3)) simp
  have "hw_byte hw ?f (area + off + of_nat j) = 0xFF" if j: "j < length bs + 4" for j
  proof -
    have "(k + length (bs # rest)) * s = k * s + s + length rest * s" by (simp add: algebra_simps)
    then have "k * s + j < (k + length (bs # rest)) * s + 4" using j bs by simp
    from Cons.prems(9) [OF this] show ?thesis
      unfolding at Cons.prems(11) using j bs ks Cons.prems(10)
      by (subst put_bytes_at) simp_all
  qed
  then have blank: "erased hw ?f (area + off) (length bs + 4)" by (simp add: erased_def)
  have "\<exists>f'. Flash_Write hw ?f (area + off) (drop 10 b) (of_nat (length bs)) = Some (of_nat (length bs), f') \<and>
      hw_byte hw f' = put_bytes (hw_byte hw ?f) (area + off) (take (unat (of_nat (length bs) :: u32)) (drop 10 b))"
    using addr4 lenb main blank bs Cons.prems(2) by (intro Flash_Write_stores) (simp_all add: ul)
  then obtain f' where f': "Flash_Write hw ?f (area + off) (drop 10 b) (of_nat (length bs)) = Some (of_nat (length bs), f')"
      "hw_byte hw f' = put_bytes (hw_byte hw ?f) (area + off) bs"
    unfolding ul flds(6) by blast
  have byte: "hw_byte hw f' = put_bytes (hw_byte hw f0) area (done @ bs)"
  proof (cases "bs = []")
    case True
    then show ?thesis using f'(2) Cons.prems(11) by simp
  next
    case False
    then show ?thesis
      using f'(2) put_bytes_append [of "done" bs "hw_byte hw f0" area] bs ks Cons.prems(10,11) by (simp add: offk)
  qed
  have small: "off < OTA_BIN_MAX_SIZE"
    using uoff ks by (cases "s = 0") (simp_all add: word_less_nat_alt OTA_BIN_MAX_SIZE_def FLASH_PAGE_SIZE_def)
  have "length bs \<le> 1448" using bs Cons.prems(2) by simp
  from can500_update_step [OF this lenb b_def Cons.prems(12,13) small [unfolded off_def]
      f'(1) [unfolded off_def here [symmetric]], where pad = pad]
  obtain a1 where a1: "can500_protocol_anylise hw stk pad a b (of_nat (length bs + 12)) =
        Some (\<lparr>info_state = anylise_accept, del_len = of_nat (length bs + 12)\<rparr>, a1)"
      "dev_flash (can_vars a1) = f'" "OTA_SubSize a1 = OTA_SubSize a"
      "ID (iap_param (can_vars a1)) = ID (iap_param (can_vars a))" "can_trace a1 = can_trace a @ [Can_send 0x500 (confirmation target sender (of_nat k))]"
    by blast
  have upt: "[k..<k + length (bs # rest)] = k # [Suc k..<Suc k + length rest]" by (subst upt_conv_Cons) simp_all
  show ?case
  proof (cases "rest = []")
    case True
    then show ?thesis using a1 byte by (simp add: b_def)
  next
    case False
    have "blocks_ok s rest" and "length bs = s"
      using Cons.prems(4) False by (cases rest; simp)+
    moreover have "(Suc k + length rest) * s \<le> 106496" "Suc k + length rest \<le> 65536"
      using Cons.prems(5,6) by simp_all
    ultimately have "\<exists>a'. can_download hw stk pad target sender left (Suc k) rest a1 =
          Some (map (\<lambda>bs. \<lparr>info_state = anylise_accept, del_len = of_nat (length bs + 12)\<rparr>) rest, a') \<and>
        hw_byte hw (dev_flash (can_vars a')) = put_bytes (hw_byte hw f0) area ((done @ bs) @ concat rest) \<and>
        can_trace a' = can_trace a1 @ map (\<lambda>j. Can_send 0x500 (confirmation target sender (of_nat j))) [Suc k..<Suc k + length rest]"
      using Cons.prems byte a1 by (intro Cons.IH) simp_all
    then show ?thesis unfolding upt using a1(1,5) by (auto simp: b_def)
  qed
qed

text \<open>A write that is longer than its source.\<close>

lemma Flash_Write_loop_split:
  "Flash_Write_loop hw f addr b i (m + n) =
     (case Flash_Write_loop hw f addr b i m of
        None \<Rightarrow> None
      | Some (Inl e, f') \<Rightarrow> Some (Inl e, f')
      | Some (Inr _, f') \<Rightarrow> Flash_Write_loop hw f' addr b (i + 4 * m) n)"
proof (induction m arbitrary: f i)
  case 0
  then show ?case by simp
next
  case (Suc m)
  have e: "i + 4 + 4 * m = i + 4 * Suc m" by simp
  show ?case
    by (cases "ArrayU8ToU32 (drop i b)") (simp_all add: Let_def Suc.IH [where i = "i + 4", unfolded e])
qed

lemma Flash_Write_overrun:
  assumes "addr mod 4 = 0" and "length b div 4 < unat len div 4" and "length b < 2 ^ 31"
    and "\<And>k. k < length b \<Longrightarrow> main (addr + of_nat k)" and "erased hw f addr (length b)"
  shows "Flash_Write hw f addr b len = None"
proof -
  define m where "m = length b div 4"
  define f0 where "f0 = Flash_Unlock hw f"
  have m: "4 * m \<le> length b" "length b < 4 * m + 4" unfolding m_def by simp_all
  have l: "unat (len - len mod 4) div 4 = unat len div 4"
  proof -
    have "unat (len - len mod 4) = unat len - unat len mod 4"
      by (subst unat_sub) (simp_all add: word_le_nat_alt unat_mod)
    then show ?thesis by (simp add: minus_mod_eq_mult_div)
  qed
  obtain d where d: "unat len div 4 = m + Suc d"
    using assms(2) less_imp_Suc_add unfolding m_def by (metis add_Suc_right)
  have "hw_byte hw f0 (addr + of_nat k) = 0xFF" if "k < length b" for k
    using assms(5) that by (simp add: f0_def Flash_Unlock_byte erased_def)
  then obtain f1 where "Flash_Write_loop hw f0 addr b 0 m = Some (Inr (), f1)"
    using Flash_Write_loop_programs [of f0 addr 0 m b] assms(1,3,4) m
    by (auto simp: f0_def Flash_Unlock_ready)
  moreover have "ArrayU8ToU32 (drop (4 * m) b) = None"
    using m by (auto simp: ArrayU8ToU32_def rd_def Let_def split: bind_splits)
  ultimately have "Flash_Write_loop hw f0 addr b 0 (m + Suc d) = None"
    by (subst Flash_Write_loop_split) simp
  then show ?thesis using assms(1) by (simp add: Flash_Write_def Let_def l d f0_def)
qed

end

section \<open>Properties\<close>

text \<open>C4: a firmware download over the CAN bus stores the image. On a flash that behaves as the manual
  says, when the requests carry blocks of the announced size, a multiple of four, all but the last
  one full, the handler accepts every request with its full length, answers the request number \<open>j\<close>, and
  nothing else, with the confirmation of block \<open>j\<close> to the sender (state 0), and leaves the download area
  holding the concatenation of the blocks and every other cell of the flash as it was.\<close>

theorem can_download_stores_image:
  assumes "flash_device hw ready main" and "flash_layout hw main (dev_flash (can_vars a))"
    and "s mod 4 = 0" and "s \<le> 1448" and "unat (OTA_SubSize a) = s" and "blocks_ok s blocks"
    and "length blocks * s \<le> 106496" and "length blocks \<le> 65536"
    and "erased hw (dev_flash (can_vars a)) (download_area hw (dev_flash (can_vars a))) (length blocks * s + 4)"
    and "ID (iap_param (can_vars a)) = target" and "100 \<le> length stk"
  shows "\<exists>a'. can_download hw stk pad target sender left 0 blocks a =
      Some (map (\<lambda>bs. \<lparr>info_state = anylise_accept, del_len = of_nat (length bs + 12)\<rparr>) blocks, a') \<and>
    hw_byte hw (dev_flash (can_vars a')) =
      put_bytes (hw_byte hw (dev_flash (can_vars a))) (download_area hw (dev_flash (can_vars a))) (concat blocks) \<and>
    can_trace a' = can_trace a @ map (\<lambda>j. Can_send 0x500 (confirmation target sender (of_nat j))) [0..<length blocks]"
  using flash_device.can_download_stores [OF assms(1,3,4,5,6), of 0 "dev_flash (can_vars a)" _ "[]"] assms
  by (simp add: erased_def)

definition sample_app :: "stm32f1 can_app" where
  "sample_app = \<lparr>can_vars = sample_vars, OTA_Version = 0, OTA_TotalSize = 0, OTA_SubSize = 8, OTA_CRC32 = 0,
     OTA_Frame_Num = 0, OTA_UpdateFlag = 1, Sys_Run_Time = 0, Motor_error = 0, can_trace = []\<rparr>"

lemma sample_area: "download_area stm32_hw (dev_flash (can_vars sample_app)) = 0x08023800"
  by (simp add: download_area_def flash_page_from_end_def sample_size sample_app_def sample_vars_def
      FLASH_START_ADDR_def FLASH_APP_COPY_ADDR_def FLASH_PAGE_SIZE_def)

lemma sample_erased:
  "n \<le> 116736 \<Longrightarrow> erased stm32_hw (dev_flash (can_vars sample_app)) 0x08023800 n"
  unfolding erased_def using sample_blank [of "0x08023800" n] by (simp add: sample_app_def sample_vars_def)

theorem can_download_stores_image_witness:
  "\<exists>a'. can_download stm32_hw (replicate 100 0) [] 0x0201 0x0001 (\<lambda>k. []) 0
      [[1, 2, 3, 4, 5, 6, 7, 8], [9, 10]] sample_app =
      Some ([\<lparr>info_state = anylise_accept, del_len = 20\<rparr>, \<lparr>info_state = anylise_accept, del_len = 14\<rparr>], a') \<and>
    cells (dev_flash (can_vars a')) 0x08023809 = 10 \<and>
    can_trace a' = [Can_send 0x500 (confirmation 0x0201 1 0), Can_send 0x500 (confirmation 0x0201 1 1)]"
proof -
  let ?bs = "[[1, 2, 3, 4, 5, 6, 7, 8], [9, 10]] :: u8 list list"
  have "\<exists>a'. can_download stm32_hw (replicate 100 0) [] 0x0201 0x0001 (\<lambda>k. []) 0 ?bs sample_app =
      Some (map (\<lambda>bs. \<lparr>info_state = anylise_accept, del_len = of_nat (length bs + 12)\<rparr>) ?bs, a') \<and>
    hw_byte stm32_hw (dev_flash (can_vars a')) = put_bytes (hw_byte stm32_hw (dev_flash (can_vars sample_app)))
      (download_area stm32_hw (dev_flash (can_vars sample_app))) (concat ?bs) \<and>
    can_trace a' = can_trace sample_app @ map (\<lambda>j. Can_send 0x500 (confirmation 0x0201 0x0001 (of_nat j))) [0..<length ?bs]"
    using sample_layout sample_erased
    by (intro can_download_stores_image [OF stm32.flash_device_axioms, where s = 8])
       (simp_all only: sample_area, simp_all add: sample_app_def sample_vars_def)
  then obtain a' where a': "can_download stm32_hw (replicate 100 0) [] 0x0201 0x0001 (\<lambda>k. []) 0 ?bs sample_app =
      Some (map (\<lambda>bs. \<lparr>info_state = anylise_accept, del_len = of_nat (length bs + 12)\<rparr>) ?bs, a')"
      "hw_byte stm32_hw (dev_flash (can_vars a')) = put_bytes (hw_byte stm32_hw (dev_flash (can_vars sample_app)))
        0x08023800 (concat ?bs)"
      "can_trace a' = can_trace sample_app @ map (\<lambda>j. Can_send 0x500 (confirmation 0x0201 0x0001 (of_nat j))) [0..<length ?bs]"
    unfolding sample_area by blast
  have "hw_byte stm32_hw (dev_flash (can_vars a')) 0x08023809 = 10"
    unfolding a'(2) by (simp add: put_bytes_def)
  moreover have "hw_byte stm32_hw f = cells f" for f by (simp add: stm32_hw_def)
  moreover have "can_trace a' = [Can_send 0x500 (confirmation 0x0201 1 0), Can_send 0x500 (confirmation 0x0201 1 1)]"
    using a'(3) by (simp add: sample_app_def upt_rec)
  ultimately show ?thesis using a'(1) by (intro exI [of _ a']) simp
qed

text \<open>An update request of eleven bytes, one less than the fixed part of an update frame, is taken
  for a block of 4294967295 bytes: the write to flash runs behind the analysis buffer.\<close>

theorem update_length_underflow:
  assumes "flash_device hw ready main" and "flash_layout hw main (dev_flash (can_vars a))"
    and "b = mk_frame (CAN_OTA_Recv_Update # half target @ half sender @ [x]) @ r" and "length b = 1024"
    and "ID (iap_param (can_vars a)) = target" and "OTA_SubSize a = 0"
    and "erased hw (dev_flash (can_vars a)) (download_area hw (dev_flash (can_vars a))) 1024"
  shows "can500_protocol_anylise hw stk pad a b 11 = None"
proof -
  let ?body = "CAN_OTA_Recv_Update # half target @ half sender @ [x]"
  let ?f = "dev_flash (can_vars a)"
  have scan: "can500_scan b 11 = Some (Scan_frame 0 11)"
    unfolding assms(3) by (rule mk_frame_scanned) simp_all
  obtain y z s where f: "mk_frame ?body = [0xFE, y, z] @ [CAN_OTA_Recv_Update] @ half target @ half sender @ [x] @ [s, 0xBE]"
    by (simp add: mk_frame_def le_enc_2)
  have flds: "rd16 b 4 = Some target" "rd16 b 6 = Some sender" "rd b 3 = Some CAN_OTA_Recv_Update"
    unfolding assms(3) f by (rule rd16_half, simp add: half_def)+ (simp add: rd_def half_def)
  have "drop 8 b = [x, s, 0xBE] @ r" unfolding assms(3) f by (simp add: half_def)
  then obtain num where num: "ArrayU8ToU16 (drop 8 b) = Some num" by (simp add: ArrayU8ToU16_def rd_def)
  note area = download_area_bounds [OF assms(2)]
  have "download_area hw ?f mod 4 = 0"
    using area(2) by (intro word_unat_eqI) (simp add: unat_mod)
  moreover have m1: "unat (- 1 :: u32) = 4294967295"
    by (simp add: unsigned_minus_1_eq_mask mask_eq_exp_minus_1)
  ultimately have fault: "Flash_Write hw ?f (download_area hw ?f) (drop 10 b) (- 1) = None"
    using assms(4,7) area(3) m1
    by (intro flash_device.Flash_Write_overrun [OF assms(1)]) (simp_all add: erased_def)
  show ?thesis
    using scan flds num fault assms(5,6)
    by (simp add: can500_protocol_anylise_def CAN_COMM_PROTOCOL_MIN_LEN_def can_command_def can_ota_update_def
        CAN_OTA_Recv_Update_def CAN_OTA_Recv_Start_def OTA_BIN_MAX_SIZE_def FLASH_PAGE_SIZE_def download_area_def Let_def)
qed

theorem update_length_underflow_witness:
  "can500_protocol_anylise stm32_hw (replicate 100 0) [] (sample_app\<lparr>OTA_SubSize := 0\<rparr>)
     (mk_frame (CAN_OTA_Recv_Update # half 0x0201 @ half 1 @ [7]) @ replicate 1013 0) 11 = None"
  using sample_layout sample_erased [of 1024] sample_area
  by (intro update_length_underflow [OF stm32.flash_device_axioms _ refl])
     (simp_all add: sample_app_def sample_vars_def)

text \<open>C22: Every answer the device builds is a frame its peer reads back. For the ten constructors, with a
  stack buffer of a hundred bytes of any content: the constructor reports the length of its answer, and
  both scanners, given the bytes it built behind any noise without head bytes and with anything
  behind them, report a frame at their place and of that length, which carries the command and the
  identifiers of the sender and of the device.\<close>

theorem answers_are_accepted:
  assumes "100 \<le> length stk" and "0xFE \<notin> set pre" and "length pre \<le> 1024"
    and "(cmd, n, built) \<in> {(CAN_OTA_Send_Start, 10, CAN_OTA_Start_ACK_Construct a stk 100),
      (CAN_OTA_Send_Update, 13, CAN_OTA_Update_ACK_Construct a stk 100 code),
      (CAN_OTA_Send_End, 10, CAN_OTA_End_ACK_Construct a stk 100),
      (FUC_PARAMSET_READ, 32, CAN_Paramset_Read_Construct a stk 100),
      (FUC_PARAMSET_WRITE, 10, CAN_Paramset_Write_Construct a stk 100),
      (FUC_PARAMSET_SAVE, 10, CAN_Paramset_Save_Construct a stk 100),
      (FUC_DEVICE_RESTART, 10, CAN_Device_Restart_Construct a stk 100),
      (FUC_PARAMSET_DEFAULT, 10, CAN_Paramset_Default_Construct a stk 100),
      (FUC_DEVICE_SEARCH, 32, CAN_Device_Search_Construct a stk 100),
      (FUC_DEVICE_PARAMSET_SEARCH, 10, CAN_Device_Paramset_Search_Construct a stk 100)}"
  shows "\<exists>buf'. built = Some (n, buf') \<and>
    can500_scan (pre @ take (unat n) buf' @ post) (of_nat (length pre) + n) = Some (Scan_frame (length pre) n) \<and>
    uart_scan (pre @ take (unat n) buf' @ post) (of_nat (length pre) + n) = Some (Scan_frame (length pre) n) \<and>
    rd (pre @ take (unat n) buf' @ post) (length pre + 3) = Some cmd \<and>
    rd16 (pre @ take (unat n) buf' @ post) (length pre + 4) = Some (remoteID (iap_param (can_vars a))) \<and>
    rd16 (pre @ take (unat n) buf' @ post) (length pre + 6) = Some (ID (iap_param (can_vars a)))"
proof -
  define Q where "Q built n c \<longleftrightarrow> (\<exists>buf'. built = Some (n, buf') \<and>
    can500_scan (pre @ take (unat n) buf' @ post) (of_nat (length pre) + n) = Some (Scan_frame (length pre) n) \<and>
    uart_scan (pre @ take (unat n) buf' @ post) (of_nat (length pre) + n) = Some (Scan_frame (length pre) n) \<and>
    rd (pre @ take (unat n) buf' @ post) (length pre + 3) = Some c \<and>
    rd16 (pre @ take (unat n) buf' @ post) (length pre + 4) = Some (remoteID (iap_param (can_vars a))) \<and>
    rd16 (pre @ take (unat n) buf' @ post) (length pre + 6) = Some (ID (iap_param (can_vars a))))"
    for built n c
  have Q: "Q (put_frame n (c # ids (can_vars a) @ rest) stk 100) n c"
    if "unat n = length rest + 10" "unat n \<le> 100" for n c rest
    using put_frame_found [OF that assms(1,2,3), of c "can_vars a" post] unfolding Q_def .
  have ten: "Q (put_frame 10 (c # ids (can_vars a)) stk 100) 10 c" for c
    using Q [of 10 "[]" c] by simp
  have "Q (CAN_OTA_Start_ACK_Construct a stk 100) 10 CAN_OTA_Send_Start"
    "Q (CAN_OTA_End_ACK_Construct a stk 100) 10 CAN_OTA_Send_End"
    "Q (CAN_Paramset_Write_Construct a stk 100) 10 FUC_PARAMSET_WRITE"
    "Q (CAN_Paramset_Save_Construct a stk 100) 10 FUC_PARAMSET_SAVE"
    "Q (CAN_Device_Restart_Construct a stk 100) 10 FUC_DEVICE_RESTART"
    "Q (CAN_Paramset_Default_Construct a stk 100) 10 FUC_PARAMSET_DEFAULT"
    "Q (CAN_Device_Paramset_Search_Construct a stk 100) 10 FUC_DEVICE_PARAMSET_SEARCH"
    unfolding CAN_OTA_Start_ACK_Construct_def CAN_OTA_End_ACK_Construct_def CAN_Paramset_Write_Construct_def
      CAN_Paramset_Save_Construct_def CAN_Device_Restart_Construct_def CAN_Paramset_Default_Construct_def
      CAN_Device_Paramset_Search_Construct_def by (rule ten)+
  moreover have "Q (CAN_OTA_Update_ACK_Construct a stk 100 code) 13 CAN_OTA_Send_Update"
    unfolding CAN_OTA_Update_ACK_Construct_def by (rule Q) simp_all
  moreover have "Q (CAN_Paramset_Read_Construct a stk 100) 32 FUC_PARAMSET_READ"
    unfolding CAN_Paramset_Read_Construct_def Let_def by (rule Q) simp_all
  moreover have "Q (CAN_Device_Search_Construct a stk 100) 32 FUC_DEVICE_SEARCH"
    unfolding CAN_Device_Search_Construct_def Let_def by (rule Q) simp_all
  ultimately have "Q built n cmd" using assms(4) by auto
  then show ?thesis unfolding Q_def .
qed

theorem answers_are_accepted_witness:
  "\<exists>buf'. CAN_Device_Search_Construct sample_app (replicate 100 0) 100 = Some (32, buf') \<and>
     can500_scan ([1, 2] @ take 32 buf' @ [0xFE]) 34 = Some (Scan_frame 2 32) \<and>
     rd16 ([1, 2] @ take 32 buf' @ [0xFE]) 8 = Some 0x0201"
  using answers_are_accepted [of "replicate 100 0" "[1, 2]" FUC_DEVICE_SEARCH 32
      "CAN_Device_Search_Construct sample_app (replicate 100 0) 100" sample_app 0 "[0xFE]"]
  by (auto simp: sample_app_def sample_vars_def)

text \<open>The self-check answer of the DCG board never completes. It announces 24 bytes and has 14, so
  the peer that receives it keeps waiting for the rest.\<close>

theorem self_check_answer_incomplete:
  assumes "100 \<le> length stk"
  shows "\<exists>buf'. CAN_Automatic_Check_Construct a stk 100 = Some (14, buf') \<and>
    can500_scan (take 14 buf' @ rest) 14 = Some (Scan_info \<lparr>info_state = anylise_waiting, del_len = 0\<rparr>)"
proof -
  let ?body = "FUC_DEVICE_SEARCH # ids (can_vars a) @ [Motor_error a] @ half (current (realtime_param (can_vars a))) @ [1]"
  have l: "length ?body + 5 = 14" by (simp add: ids_def)
  have "\<exists>s. put_frame 24 ?body stk 100 = Some (of_nat (length ?body + 5),
      [CAN_COMM_PROTOCOL_HEAD, ucast (24 :: u32), ucast (drop_bit 8 (24 :: u32))] @ ?body @
      [s, CAN_COMM_PROTOCOL_TAIL] @ drop (length ?body + 5) stk)"
    using assms by (intro put_frame_writes) (simp_all only: l, simp_all)
  then obtain s where "CAN_Automatic_Check_Construct a stk 100 = Some (14,
      [CAN_COMM_PROTOCOL_HEAD, 24, 0] @ ?body @ [s, CAN_COMM_PROTOCOL_TAIL] @ drop 14 stk)"
    unfolding CAN_Automatic_Check_Construct_def l by auto
  then show ?thesis
    using assms by (auto intro!: can500_scan_short simp: CAN_COMM_PROTOCOL_HEAD_def ids_def)
qed

theorem self_check_answer_incomplete_witness:
  "\<exists>buf'. CAN_Automatic_Check_Construct sample_app (replicate 100 0) 100 = Some (14, buf') \<and>
     can500_scan (take 14 buf' @ replicate 50 0) 14 = Some (Scan_info \<lparr>info_state = anylise_waiting, del_len = 0\<rparr>)"
  by (rule self_check_answer_incomplete) simp

end
