(* ===== verification/Can_Node.thy ===== *)
theory Can_Node
  imports Can_Protocol Protocol_Frame
begin

text \<open>
  The CAN node of the application: the 0x500 channel that joins the receive ring, the polling
  thread and the command protocol (can_ota_init of general_app/can_ota_protocol.c), the heartbeat
  (general_app/can_heartbeat_protocol.c, with the sender of the DCG board) and the debug channel
  (general_app/can_debug_protocol.c).
\<close>

section \<open>The 0x500 channel\<close>

definition can500_buf_recv :: "RingBufType \<Rightarrow> u8 list \<Rightarrow> u32 \<Rightarrow> bool \<Rightarrow> (u32 \<times> u8 list \<times> RingBufType) option" where
  "can500_buf_recv ring buf len state = ReadDataFromBuf ring buf len state"

definition can500_buf_del :: "RingBufType \<Rightarrow> u32 \<Rightarrow> (u32 \<times> RingBufType) option" where
  "can500_buf_del ring len = DelDataFromBuf ring len"

definition can500_buf_clear :: "RingBufType \<Rightarrow> (bool \<times> RingBufType) option" where
  "can500_buf_clear ring = ClearDateFromBuf ring"

definition RT_TICK_PER_SECOND :: u32 where "RT_TICK_PER_SECOND = 100"

text \<open>The only handler of this channel has the name \<open>()\<close>. \<open>ring_mem\<close>, \<open>dev_ok\<close>, \<open>buf_mem\<close> and \<open>tid\<close>
  are what the RTOS answers to the allocations and to the creation of the thread.\<close>

definition can500_call :: "'f flash_hw \<Rightarrow> u8 list \<Rightarrow> u8 list \<Rightarrow> (unit, 'f can_app) handler_call" where
  "can500_call hw stk pad h app b len = can500_protocol_anylise hw stk pad app b len"

definition can_ota_init ::
  "u8 list option \<Rightarrow> bool \<Rightarrow> u8 list option \<Rightarrow> nat option \<Rightarrow> RingBufType \<times> (unit, RingBufType) comm_dev_type option" where
  "can_ota_init ring_mem dev_ok buf_mem tid = (let
     ring = RxBufInit ring_mem 1024;
     CAN500_Anylise = fst (comm_dev_create dev_ok buf_mem ''CAN500T'' 1024 can500_buf_recv can500_buf_del
       can500_buf_clear None (1 * RT_TICK_PER_SECOND))
   in case CAN500_Anylise of
        None \<Rightarrow> (ring, None)
      | Some _ \<Rightarrow> (let
          dev = snd (protocol_anylise_add CAN500_Anylise (Some ()));
          dev = snd (protocol_anylise_startup tid dev)
        in (ring, dev)))"

section \<open>Heartbeat and debug messages\<close>

definition CAN_Heartbeat_Package_Send_weak :: "'f can_app \<Rightarrow> 'f can_app" where
  "CAN_Heartbeat_Package_Send_weak a = (let v = can_vars a; r = realtime_param v in
     emit (Can_send 0x600 (half (ID (iap_param v)) @ [heartbeat_count r, ucast (version (dev_param v) AND 0xFF)] @
       half (voltage r) @ half (current r))) a)"

definition CAN_Heartbeat_Package_Send :: "'f can_app \<Rightarrow> 'f can_app" where
  "CAN_Heartbeat_Package_Send a = (let v = can_vars a; r = realtime_param v in
     emit (Can_send 0x600 (half (ID (iap_param v)) @ [heartbeat_count r, ucast (version (dev_param v) AND 0xFF)] @
       [0, 0] @ half (current r))) a)"

text \<open>One pass of the heartbeat thread, up to its delay.\<close>

definition heartbeat_pass :: "'f can_app \<Rightarrow> 'f can_app" where
  "heartbeat_pass a = (let
     r = realtime_param (can_vars a);
     r = r\<lparr>heartbeat_count := heartbeat_count r + 1\<rparr>;
     r = (if heartbeat_count r \<ge> 255 then r\<lparr>heartbeat_count := 0\<rparr> else r);
     a = a\<lparr>can_vars := (can_vars a)\<lparr>realtime_param := r\<rparr>\<rparr>
   in emit (Thread_delay 1000) (CAN_Heartbeat_Package_Send a))"

fun heartbeat_passes :: "nat \<Rightarrow> 'f can_app \<Rightarrow> 'f can_app" where
  "heartbeat_passes 0 a = a"
| "heartbeat_passes (Suc n) a = heartbeat_passes n (heartbeat_pass a)"

definition rt_thread_heartbeat_entry :: "nat \<Rightarrow> 'f can_app \<Rightarrow> 'f can_app" where
  "rt_thread_heartbeat_entry n a = heartbeat_passes n (emit (Thread_delay 1000) a)"

definition can_debug_send :: "u8 list \<Rightarrow> u32 \<Rightarrow> 'f can_app \<Rightarrow> 'f can_app option" where
  "can_debug_send buf len a =
     (if can_debug_flag (realtime_param (can_vars a)) = 1
      then map_option (\<lambda>bs. emit (Can_send 0x700 bs) a) (rds buf 0 (unat len))
      else Some a)"

text \<open>The sequence number runs through 0 to 254.\<close>

lemma heartbeat_pass_count:
  assumes "unat (heartbeat_count (realtime_param (can_vars a))) < 255"
  shows "unat (heartbeat_count (realtime_param (can_vars (heartbeat_pass a)))) =
    (unat (heartbeat_count (realtime_param (can_vars a))) + 1) mod 255"
proof -
  define c where "c = heartbeat_count (realtime_param (can_vars a))"
  have u: "unat (c + 1) = unat c + 1" using assms by (subst unat_add_noover) (simp_all add: c_def)
  have "heartbeat_count (realtime_param (can_vars (heartbeat_pass a))) = (if c + 1 \<ge> 255 then 0 else c + 1)"
    by (simp add: heartbeat_pass_def Let_def CAN_Heartbeat_Package_Send_def emit_def c_def)
  moreover have "c + 1 \<ge> 255 \<longleftrightarrow> unat c + 1 = 255"
    using assms by (auto simp: word_le_nat_alt u c_def [symmetric])
  ultimately show ?thesis
    using assms by (auto simp: u c_def [symmetric])
qed

lemma heartbeat_passes_count:
  assumes "unat (heartbeat_count (realtime_param (can_vars a))) < 255"
  shows "unat (heartbeat_count (realtime_param (can_vars (heartbeat_passes n a)))) =
    (unat (heartbeat_count (realtime_param (can_vars a))) + n) mod 255"
  using assms
proof (induction n arbitrary: a)
  case (Suc n)
  have "unat (heartbeat_count (realtime_param (can_vars (heartbeat_pass a)))) < 255"
    using heartbeat_pass_count [OF Suc.prems] by simp
  from Suc.IH [OF this] show ?case
    unfolding heartbeat_pass_count [OF Suc.prems] by (simp add: mod_add_left_eq)
qed simp

section \<open>The channel after its initialisation\<close>

lemma can_ota_init_ok:
  assumes "length mem = 1024" and "length mem2 = 1024" and "can_ota_init (Some mem) True (Some mem2) tid = (ring, Some comm)"
  shows "ring_ok ring" and "ring_list ring = []" and "ring_capacity ring = 1023"
    and "comm_port ring_recv DelDataFromBuf ClearDateFromBuf comm" and "length (comm_buf comm) = 1024"
    and "comm_buf_len comm = 1024" and "protocol_anylise_fun comm = [Some (), None, None]"
proof -
  have r: "ring = RxBufInit (Some mem) 1024"
    using assms(3) by (auto simp: can_ota_init_def Let_def comm_dev_create_def)
  show "ring_ok ring" "ring_list ring = []" unfolding r by (rule RxBufInit_ok; simp add: assms(1))+
  show "ring_capacity ring = 1023" by (simp add: r ring_capacity_def RxBufInit_def)
  have c: "comm_buf comm = mem2 \<and> comm_buf_len comm = 1024 \<and> protocol_anylise_fun comm = [Some (), None, None] \<and>
      dev_recv comm = can500_buf_recv \<and> dev_del comm = can500_buf_del \<and> dev_clear comm = can500_buf_clear"
    using assms(3) by (auto simp: can_ota_init_def Let_def comm_dev_create_def protocol_anylise_add_def
        protocol_anylise_startup_def PROTOCOL_FUN_MAX_def numeral_3_eq_3 split: if_splits)
  show "length (comm_buf comm) = 1024" "comm_buf_len comm = 1024" "protocol_anylise_fun comm = [Some (), None, None]"
    using c assms(2) by simp_all
  show "comm_port ring_recv DelDataFromBuf ClearDateFromBuf comm"
    using c assms(2) by (auto simp: comm_port_def can500_buf_recv_def ring_recv_def can500_buf_del_def
        can500_buf_clear_def fun_eq_iff)
qed

text \<open>One round of the polling thread on a ring that holds exactly the frame its handler accepts.\<close>

lemma can500_round:
  assumes "ring_ok ring" and "comm_port ring_recv DelDataFromBuf ClearDateFromBuf comm"
    and "comm_buf_len comm = 1024" and "length (comm_buf comm) = 1024"
    and "protocol_anylise_fun comm = [Some (), None, None]"
    and "ring_list ring = frame" and "0 < length frame" and "length frame \<le> 1023"
    and "can500_protocol_anylise hw stk pad a (frame @ drop (length frame) (comm_buf comm)) (of_nat (length frame)) =
      Some (\<lparr>info_state = anylise_accept, del_len = of_nat (length frame)\<rparr>, a')"
  shows "\<exists>comm' ring'. protocol_anylise_process (can500_call hw stk pad) t1 t2 comm ring a = Some (comm', ring', a') \<and>
    ring_ok ring' \<and> ring_list ring' = []"
proof -
  have n: "length frame = min (unat (comm_buf_len comm)) (length (ring_list ring))"
    using assms(3,6,8) by simp
  have b: "frame @ drop (length frame) (comm_buf comm) = take (length frame) (ring_list ring) @ drop (length frame) (comm_buf comm)"
    using assms(6) by simp
  have v: "anylise_loop (can500_call hw stk pad) (protocol_anylise_fun comm) a (frame @ drop (length frame) (comm_buf comm))
      (of_nat (length frame)) [] = Some (Inl (of_nat (length frame)), a')"
    using assms(5,9) by (simp add: can500_call_def)
  have u: "unat (of_nat (length frame) :: u32) = length frame" using assms(8) by (simp add: unat_of_nat_u32)
  from ring.process_round [OF assms(1,2) n assms(7) b v, of t1 t2]
  obtain w ring' where "protocol_anylise_process (can500_call hw stk pad) t1 t2 comm ring a =
      Some (comm\<lparr>comm_buf := frame @ drop (length frame) (comm_buf comm), wait_ticks := w\<rparr>, ring', a')"
      "ring_ok ring'" "ring_list ring' = remaining (Inl (of_nat (length frame))) (comm_expired comm t1) (ring_list ring)"
    by blast
  then show ?thesis using assms(6) u by (auto simp: remaining_def)
qed

text \<open>The handler on a buffer that begins with an update request: the block is stored.\<close>

context flash_device
begin

text \<open>A block at its place in an erased download area is written.\<close>

lemma download_block_stored:
  assumes layout: "flash_layout hw main f" and area: "area = download_area hw f"
    and off: "off mod 4 = 0" "off < OTA_BIN_MAX_SIZE" and bs: "length bs \<le> 1448"
    and blank: "erased hw f (area + off) (length bs + 4)"
  shows "\<exists>f'. Flash_Write hw f (area + off) (bs @ r) (of_nat (length bs)) = Some (of_nat (length bs), f') \<and>
    hw_byte hw f' = put_bytes (hw_byte hw f) (area + off) bs"
proof -
  note ar = download_area_bounds [OF layout, folded area]
  have o: "unat off < 106496" using off(2) by (simp add: word_less_nat_alt OTA_BIN_MAX_SIZE_def FLASH_PAGE_SIZE_def)
  have ul: "unat (of_nat (length bs) :: u32) = length bs" using bs by (simp add: unat_of_nat_u32)
  have addr4: "(area + off) mod 4 = 0"
  proof (rule word_unat_eqI)
    have "unat (area + off) = unat area + unat off" using ar(1) o by (subst unat_add_noover) simp_all
    moreover have "unat (off mod 4) = 0" using off(1) by simp
    then have "4 dvd unat off" by (simp add: unat_mod dvd_eq_mod_eq_0)
    ultimately show "unat ((area + off) mod 4) = unat (0 :: u32)" using ar(2) by (simp add: unat_mod)
  qed
  have mn: "main (area + off + of_nat j)" if "j < length bs + 4" for j
    using ar(3) [of "unat off + j"] that bs o by (simp add: add.assoc)
  have "\<exists>f'. Flash_Write hw f (area + off) (bs @ r) (of_nat (length bs)) = Some (of_nat (length bs), f') \<and>
      hw_byte hw f' = put_bytes (hw_byte hw f) (area + off) (take (unat (of_nat (length bs) :: u32)) (bs @ r))"
    using addr4 mn blank bs by (intro Flash_Write_stores) (simp_all add: ul)
  then show ?thesis by (simp add: ul)
qed

lemma can500_block_stored:
  assumes layout: "flash_layout hw main (dev_flash (can_vars a))" and area: "area = download_area hw (dev_flash (can_vars a))"
    and off: "off = ucast num * OTA_SubSize a" "off mod 4 = 0" "off < OTA_BIN_MAX_SIZE" and bs: "length bs \<le> 1448"
    and blank: "erased hw (dev_flash (can_vars a)) (area + off) (length bs + 4)"
    and target: "ID (iap_param (can_vars a)) = target" and stk: "100 \<le> length stk"
  shows "\<exists>a' ack. can500_protocol_anylise hw stk pad a (update_frame target sender num bs @ r) (of_nat (length bs + 12)) =
      Some (\<lparr>info_state = anylise_accept, del_len = of_nat (length bs + 12)\<rparr>, a') \<and>
    hw_byte hw (dev_flash (can_vars a')) = put_bytes (hw_byte hw (dev_flash (can_vars a))) (area + off) bs \<and>
    can_trace a' = can_trace a @ [Can_send 0x500 ack] \<and> ack ! 10 = 0"
proof -
  let ?f = "dev_flash (can_vars a)"
  define b where "b = update_frame target sender num bs @ r"
  note flds = update_frame_fields [OF b_def]
  have d: "drop 10 b = bs @ drop (length bs) (drop 10 b)"
    using flds(6) by (metis append_take_drop_id)
  obtain f' where f': "Flash_Write hw ?f (area + off) (drop 10 b) (of_nat (length bs)) = Some (of_nat (length bs), f')"
      "hw_byte hw f' = put_bytes (hw_byte hw ?f) (area + off) bs"
    using download_block_stored [OF layout area off(2,3) bs blank, of "drop (length bs) (drop 10 b)"] d by auto
  show ?thesis
    using can500_update_step [OF bs _ b_def target stk off(3) [unfolded off(1)], of hw "of_nat (length bs)" f' pad]
      f' flds(1) confirmation_state unfolding b_def [symmetric] by (auto simp: area download_area_def off(1) b_def)
qed

end

end
