(* ===== verification/Boot_Flash.thy ===== *)
theory Boot_Flash
  imports Device_Params
begin

text \<open>
  The flash interface of the bootloader (IAP project: Projects/Src/flash_if.c and iap_if.c, over
  HAL_FLASH_Program and HAL_FLASHEx_Erase of the vendor library). It programs double words where
  the application programs words. The controller is the record \<open>flash_hw\<close> again: \<open>hw_half\<close> is
  FLASH_Program_HalfWord with the wait that follows it, \<open>hw_erase\<close> the same for FLASH_PageErase. A
  HAL status is a bool, \<open>HAL_OK\<close> being True. The build is for a part with one bank
  (STM32F103xE); diagnostic printing is left out.
\<close>

section \<open>The vendor routines\<close>

fun HAL_program_halves :: "'f flash_hw \<Rightarrow> 'f \<Rightarrow> u32 \<Rightarrow> u64 \<Rightarrow> nat \<Rightarrow> nat \<Rightarrow> bool \<times> 'f" where
  "HAL_program_halves hw f a data index 0 = (True, f)"
| "HAL_program_halves hw f a data index (Suc n) = (let
     r = hw_half hw f (a + 2 * of_nat index) (ucast (drop_bit (16 * index) data))
   in if fst r \<noteq> FLASH_COMPLETE then (False, snd r)
      else HAL_program_halves hw (snd r) a data (Suc index) n)"

text \<open>With \<open>FLASH_TYPEPROGRAM_DOUBLEWORD\<close>, four half words.\<close>

definition HAL_FLASH_Program :: "'f flash_hw \<Rightarrow> 'f \<Rightarrow> u32 \<Rightarrow> u64 \<Rightarrow> bool \<times> 'f" where
  "HAL_FLASH_Program hw f a data = (let r = hw_wait hw f in
     if fst r = FLASH_COMPLETE then HAL_program_halves hw (snd r) a data 0 4 else (False, snd r))"

fun HAL_erase_pages :: "'f flash_hw \<Rightarrow> 'f \<Rightarrow> u32 \<Rightarrow> nat \<Rightarrow> bool \<Rightarrow> bool \<times> 'f" where
  "HAL_erase_pages hw f address 0 status = (status, f)"
| "HAL_erase_pages hw f address (Suc n) status = (let r = hw_erase hw f address in
     if fst r \<noteq> FLASH_COMPLETE then (False, snd r)
     else HAL_erase_pages hw (snd r) (address + FLASH_PAGE_SIZE) n True)"

definition HAL_FLASHEx_Erase :: "'f flash_hw \<Rightarrow> 'f \<Rightarrow> u32 \<Rightarrow> nat \<Rightarrow> bool \<times> 'f" where
  "HAL_FLASHEx_Erase hw f address n = (let r = hw_wait hw f in
     if fst r = FLASH_COMPLETE then HAL_erase_pages hw (snd r) address n False else (False, snd r))"

section \<open>The flash interface of the bootloader\<close>

definition Flash_Unlock_iap :: "'f flash_hw \<Rightarrow> 'f \<Rightarrow> 'f" where
  "Flash_Unlock_iap hw f = hw_clear_flag hw (hw_unlock hw f)"

definition Flash_Erase_Page_iap :: "'f flash_hw \<Rightarrow> 'f \<Rightarrow> u32 \<Rightarrow> u32 \<Rightarrow> bool \<times> 'f" where
  "Flash_Erase_Page_iap hw f addr bin_size =
     (if bin_size > OTA_BIN_MAX_SIZE \<or> bin_size = 0 then (False, f)
      else let
        f = Flash_Unlock_iap hw f;
        NbOfPages = (bin_size + FLASH_PAGE_SIZE - 1) div FLASH_PAGE_SIZE;
        f = snd (hw_wait hw f);
        r = HAL_FLASHEx_Erase hw f addr (unat NbOfPages)
      in (fst r, Flash_Lock hw (snd r)))"

definition ArrayU8ToU64_iap :: "u8 list \<Rightarrow> u64 option" where
  "ArrayU8ToU64_iap src = do {
     b0 \<leftarrow> rd src 0; b1 \<leftarrow> rd src 1; b2 \<leftarrow> rd src 2; b3 \<leftarrow> rd src 3;
     b4 \<leftarrow> rd src 4; b5 \<leftarrow> rd src 5; b6 \<leftarrow> rd src 6; b7 \<leftarrow> rd src 7;
     Some (ucast b0 + push_bit 8 (ucast b1) + push_bit 16 (ucast b2) + push_bit 24 (ucast b3) +
       push_bit 32 (ucast b4) + push_bit 40 (ucast b5) + push_bit 48 (ucast b6) + push_bit 56 (ucast b7))
   }"

text \<open>The double-word loop: \<open>Inl i\<close> when the double word at offset \<open>i\<close> failed.\<close>

fun Flash_Write_loop_iap ::
  "'f flash_hw \<Rightarrow> 'f \<Rightarrow> u32 \<Rightarrow> u8 list \<Rightarrow> nat \<Rightarrow> nat \<Rightarrow> ((u32 + unit) \<times> 'f) option" where
  "Flash_Write_loop_iap hw f addr b i 0 = Some (Inr (), f)"
| "Flash_Write_loop_iap hw f addr b i (Suc n) = do {
     double_word \<leftarrow> ArrayU8ToU64_iap (drop i b);
     let f = snd (hw_wait hw f);
     let r = HAL_FLASH_Program hw f (addr + of_nat i) double_word;
     if \<not> fst r then Some (Inl (of_nat i), Flash_Lock hw (snd r))
     else Flash_Write_loop_iap hw (snd r) addr b (i + 8) n
   }"

text \<open>\<open>double_word |= buf[i + n] << (8 * n)\<close> for the bytes left over, \<open>0xFF\<close> for the others.\<close>

fun Flash_Write_tail_iap :: "u8 list \<Rightarrow> nat \<Rightarrow> nat \<Rightarrow> nat \<Rightarrow> u64 \<Rightarrow> u64 option" where
  "Flash_Write_tail_iap b i left 0 double_word = Some double_word"
| "Flash_Write_tail_iap b i left (Suc m) double_word = do {
     let n = 8 - Suc m;
     x \<leftarrow> (if n < left then rd b (i + n) else Some 0xFF);
     Flash_Write_tail_iap b i left m (double_word OR push_bit (8 * n) (ucast x))
   }"

definition Flash_Write_iap :: "'f flash_hw \<Rightarrow> 'f \<Rightarrow> u32 \<Rightarrow> u8 list \<Rightarrow> u32 \<Rightarrow> (u32 \<times> 'f) option" where
  "Flash_Write_iap hw f addr b len = do {
     let left_num = len mod 8;
     let len = len - left_num;
     if addr mod 8 \<noteq> 0 then Some (0, f)
     else do {
       let f = Flash_Unlock_iap hw f;
       (r, f) \<leftarrow> Flash_Write_loop_iap hw f addr b 0 (unat len div 8);
       (case r of
          Inl i \<Rightarrow> Some (i, f)
        | Inr _ \<Rightarrow>
            if left_num \<noteq> 0 then do {
              double_word \<leftarrow> Flash_Write_tail_iap b (unat len) (unat left_num) 8 0;
              let f = snd (hw_wait hw f);
              let s = HAL_FLASH_Program hw f (addr + len) double_word;
              Some (if fst s then len + left_num else len, Flash_Lock hw (snd s))
            }
            else Some (len, Flash_Lock hw f))
     }
   }"

text \<open>Three double words from \<open>pData\<close> to the information page, which is erased first. A failure of
  a write returns with the flash left unlocked.\<close>

fun Flash_Storage_Header_loop_iap ::
  "'f flash_hw \<Rightarrow> 'f \<Rightarrow> u32 \<Rightarrow> u8 list \<Rightarrow> nat \<Rightarrow> nat \<Rightarrow> (bool \<times> 'f) option" where
  "Flash_Storage_Header_loop_iap hw f addr d i 0 = Some (True, f)"
| "Flash_Storage_Header_loop_iap hw f addr d i (Suc n) = do {
     Tem :: u64 \<leftarrow> ld 8 d (8 * i);
     let f = snd (hw_wait hw f);
     let r = HAL_FLASH_Program hw f (addr + of_nat i * 8) Tem;
     if \<not> fst r then Some (False, snd r)
     else Flash_Storage_Header_loop_iap hw (snd r) addr d (Suc i) n
   }"

definition Flash_Storage_Header_iap :: "'f flash_hw \<Rightarrow> 'f \<Rightarrow> u8 list \<Rightarrow> (u32 \<times> 'f) option" where
  "Flash_Storage_Header_iap hw f pData = do {
     let addr_appinfo = flash_page_from_end hw f 4;
     let e = Flash_Erase_Page_iap hw f addr_appinfo FLASH_PAGE_SIZE;
     if \<not> fst e then Some (0, snd e)
     else do {
       r \<leftarrow> Flash_Storage_Header_loop_iap hw (Flash_Unlock_iap hw (snd e)) addr_appinfo pData 0 3;
       Some (if fst r then (1, Flash_Lock hw (snd r)) else (0, snd r))
     }
   }"

section \<open>The contract\<close>

text \<open>What the vendor routines need beyond the contract of the flash: an unlocked controller without
  pending errors does not make them wait in vain.\<close>

locale hal_flash = flash_device +
  assumes wait_ok: "ready f \<Longrightarrow> fst (hw_wait hw f) = FLASH_COMPLETE"

lemma word_even_8:
  assumes "(addr :: u32) mod 8 = 0" and "even i"
  shows "(addr + of_nat i) mod 2 = 0"
proof (rule word_unat_eqI)
  have "unat (addr mod 8) = 0" using assms(1) by simp
  then have a: "unat addr mod 8 = 0" by (simp add: unat_mod)
  have c: "x mod 4294967296 mod 2 = x mod 2" for x :: nat by (rule mod_mod_cancel) simp
  have "unat (addr + of_nat i) = (unat addr + i) mod 4294967296"
    unfolding unat_word_ariths unat_of_nat_u32 by (simp add: mod_add_right_eq)
  then have "unat ((addr + of_nat i) mod 2) = (unat addr + i) mod 2"
    by (simp only: unat_mod) (simp add: c)
  also have "\<dots> = 0" using a assms(2) by presburger
  finally show "unat ((addr + of_nat i) mod 2) = unat (0 :: u32)" by simp
qed

lemma word_mod_8:
  assumes "(addr :: u32) mod 8 = 0" and "i mod 8 = 0"
  shows "(addr + of_nat i) mod 8 = 0"
proof (rule word_unat_eqI)
  have "unat (addr mod 8) = 0" using assms(1) by simp
  then have a: "unat addr mod 8 = 0" by (simp add: unat_mod)
  have c: "x mod 4294967296 mod 8 = x mod 8" for x :: nat by (rule mod_mod_cancel) simp
  have "unat (addr + of_nat i) = (unat addr + i) mod 4294967296"
    unfolding unat_word_ariths unat_of_nat_u32 by (simp add: mod_add_right_eq)
  then have "unat ((addr + of_nat i) mod 8) = (unat addr + i) mod 8"
    by (simp only: unat_mod) (simp add: c)
  also have "\<dots> = 0" using a assms(2) by presburger
  finally show "unat ((addr + of_nat i) mod 8) = unat (0 :: u32)" by simp
qed

lemma le_enc_append: "le_enc (m + n) x = le_enc m x @ le_enc n (x div 256 ^ m)"
  by (induction m arbitrary: x) (simp_all add: div_mult2_eq)

lemma le_enc_half_of:
  "le_enc 2 (unat (ucast (drop_bit (16 * i) (w :: u64)) :: u16)) = le_enc 2 (unat w div 256 ^ (2 * i))"
proof -
  have p: "(2 :: nat) ^ (16 * i) = 256 ^ (2 * i)" by (simp add: power_mult)
  have "unat (ucast (drop_bit (16 * i) w) :: u16) = unat w div 256 ^ (2 * i) mod 65536"
    unfolding unsigned_ucast_eq unat_drop_bit_eq by (simp add: take_bit_eq_mod drop_bit_eq_div p)
  moreover have "le_enc 2 (x mod 65536) = le_enc 2 x" for x :: nat
    using le_enc_dec [of "le_enc 2 x"] by (simp add: le_dec_enc del: le_enc_dec)
  ultimately show ?thesis by simp
qed

text \<open>The pages of the flash as ranges of addresses.\<close>

lemma same_page:
  assumes "unat a mod 2048 = 0" and "unat a + 2048 < 2 ^ 31"
  shows "(x :: u32) div FLASH_PAGE_SIZE = a div FLASH_PAGE_SIZE \<longleftrightarrow> unat (x - a) < 2048"
proof -
  obtain u where u: "unat a = 2048 * u" using assms(1) by (metis mod_0_imp_dvd dvdE)
  have d: "(n div 2048 = u) = (2048 * u \<le> n \<and> n < 2048 * u + 2048)" for n :: nat by linarith
  have "x div FLASH_PAGE_SIZE = a div FLASH_PAGE_SIZE \<longleftrightarrow> unat x div 2048 = u"
    by (simp add: FLASH_PAGE_SIZE_def word_unat_eq_iff unat_div u)
  also have "\<dots> \<longleftrightarrow> unat a \<le> unat x \<and> unat x < unat a + 2048" unfolding d u ..
  also have "\<dots> \<longleftrightarrow> unat (x - a) < 2048"
  proof (cases "unat a \<le> unat x")
    case True
    then show ?thesis by (simp add: unat_sub word_le_nat_alt less_diff_conv2 add.commute)
  next
    case False
    have "\<not> 4294967296 + unat x - unat a < 2048" using assms(2) by simp
    then show ?thesis using False by (simp add: unat_sub_if')
  qed
  finally show ?thesis .
qed

text \<open>Double words of bytes.\<close>

lemma ArrayU8ToU64_iap_le:
  assumes "8 \<le> length src"
  shows "ArrayU8ToU64_iap src = Some (of_nat (le_dec (take 8 src)))"
proof -
  obtain b0 b1 b2 b3 b4 b5 b6 b7 r where s: "src = b0 # b1 # b2 # b3 # b4 # b5 # b6 # b7 # r"
    using assms by (auto simp: numeral_eq_Suc Suc_le_length_iff)
  have u: "(ucast (x :: u8) :: u64) = of_nat (unat x)" for x by simp
  show ?thesis
    by (simp add: s ArrayU8ToU64_iap_def rd_def push_bit_eq_mult u algebra_simps del: of_nat_unat)
qed

lemma tail_dword_step:
  assumes "length bs = n" and "n < 8"
  shows "of_nat (le_dec bs) OR push_bit (8 * n) (ucast (x :: u8)) = (of_nat (le_dec (bs @ [x])) :: u64)"
proof -
  let ?w = "of_nat (le_dec bs) :: u64"
  have "le_dec bs < 2 ^ (8 * n)" using le_dec_less [of bs] assms(1) by (simp add: power_mult)
  moreover have "(2 :: nat) ^ (8 * n) \<le> 2 ^ 64" using assms(2) by (intro power_increasing) auto
  ultimately have w: "unat ?w < 2 ^ (8 * n)" by (simp add: unat_of_nat take_bit_nat_eq_self)
  note or = or_push_bit_add [OF w, of "ucast x"]
  have p: "(2 :: u64) ^ (8 * n) = 256 ^ n" by (simp add: power_mult)
  show ?thesis
    unfolding or by (simp add: assms(1) le_dec_append push_bit_eq_mult p mult.commute [of "ucast x"])
qed

lemma Flash_Write_tail_iap_word:
  assumes "m \<le> 8" and "i + left \<le> length b" and "\<And>n. y n = (if n < left then b ! (i + n) else 0xFF)"
  shows "Flash_Write_tail_iap b i left m (of_nat (le_dec (map y [0..<8 - m]))) =
    Some (of_nat (le_dec (map y [0..<8])))"
  using assms(1)
proof (induction m)
  case (Suc m)
  have x: "(if 8 - Suc m < left then rd b (i + (8 - Suc m)) else Some 0xFF) = Some (y (8 - Suc m))"
    using assms(2,3) by (simp add: rd_def)
  have "8 - m = Suc (8 - Suc m)" using Suc.prems by simp
  then have "map y [0..<8 - m] = map y [0..<8 - Suc m] @ [y (8 - Suc m)]" by simp
  then have s: "of_nat (le_dec (map y [0..<8 - Suc m])) OR push_bit (8 * (8 - Suc m)) (ucast (y (8 - Suc m))) =
      (of_nat (le_dec (map y [0..<8 - m])) :: u64)"
    using tail_dword_step [of "map y [0..<8 - Suc m]" "8 - Suc m" "y (8 - Suc m)"] by simp
  show ?case
    using Suc unfolding Flash_Write_tail_iap.simps Let_def x Option.bind.bind_lunit s by simp
qed simp

section \<open>Double words over the contract\<close>

context hal_flash
begin

lemma HAL_program_halves_stores:
  assumes "ready f" and "addr mod 8 = 0" and "i + n \<le> 4"
    and "\<And>k. k < 8 \<Longrightarrow> main (addr + of_nat k)"
    and "\<And>k. 2 * i \<le> k \<Longrightarrow> k < 2 * (i + n) \<Longrightarrow> hw_byte hw f (addr + of_nat k) = 0xFF"
  shows "\<exists>f'. HAL_program_halves hw f addr data i n = (True, f') \<and> ready f' \<and>
    hw_byte hw f' = put_bytes (hw_byte hw f) (addr + of_nat (2 * i)) (le_enc (2 * n) (unat data div 256 ^ (2 * i)))"
  using assms
proof (induction n arbitrary: f i)
  case 0
  then show ?case by simp
next
  case (Suc n)
  define h where "h = (ucast (drop_bit (16 * i) data) :: u16)"
  define x where "x = unat data div 256 ^ (2 * i)"
  let ?a = "addr + of_nat (2 * i)"
  have enc: "le_enc 2 (unat h) = le_enc 2 x" unfolding h_def x_def by (rule le_enc_half_of)
  have "erased hw f ?a 2"
    unfolding erased_def
  proof (intro allI impI)
    fix k :: nat assume "k < 2"
    then show "hw_byte hw f (?a + of_nat k) = 0xFF"
      using Suc.prems(5) [of "2 * i + k"] by (simp add: ac_simps)
  qed
  moreover have "main ?a" using Suc.prems(3) by (intro Suc.prems(4)) simp
  ultimately obtain f1 where f1: "hw_half hw f ?a h = (FLASH_COMPLETE, f1)" "ready f1"
      "hw_byte hw f1 = put_bytes (hw_byte hw f) ?a (le_enc 2 x)"
    using program_half [OF Suc.prems(1) word_even_8 [OF Suc.prems(2)], of "2 * i" h] unfolding enc by auto
  have "\<exists>f'. HAL_program_halves hw f1 addr data (Suc i) n = (True, f') \<and> ready f' \<and>
    hw_byte hw f' = put_bytes (hw_byte hw f1) (addr + of_nat (2 * Suc i)) (le_enc (2 * n) (unat data div 256 ^ (2 * Suc i)))"
  proof (rule Suc.IH)
    fix k assume k: "2 * Suc i \<le> k" "k < 2 * (Suc i + n)"
    have "hw_byte hw f1 (?a + of_nat (k - 2 * i)) = hw_byte hw f (?a + of_nat (k - 2 * i))"
      using k Suc.prems(3) unfolding f1(3) by (subst put_bytes_at) auto
    moreover have "?a + of_nat (k - 2 * i) = addr + of_nat k"
      using k by (simp add: of_nat_diff del: of_nat_mult)
    ultimately show "hw_byte hw f1 (addr + of_nat k) = 0xFF" using Suc.prems(5) [of k] k by simp
  qed (use f1(2) Suc.prems in auto)
  then obtain f' where f': "HAL_program_halves hw f1 addr data (Suc i) n = (True, f')" "ready f'"
      "hw_byte hw f' = put_bytes (hw_byte hw f1) (addr + of_nat (2 * Suc i)) (le_enc (2 * n) (unat data div 256 ^ (2 * Suc i)))"
    by blast
  have x2: "unat data div 256 ^ (2 * Suc i) = x div 256 ^ 2"
    unfolding x_def div_mult2_eq [symmetric] power_add [symmetric] by simp
  have a2: "addr + of_nat (2 * Suc i) = ?a + of_nat (length (le_enc 2 x))" by simp
  have "hw_byte hw f' = put_bytes (hw_byte hw f) ?a (le_enc 2 x @ le_enc (2 * n) (x div 256 ^ 2))"
  proof (cases "n = 0")
    case True
    then show ?thesis using f'(3) f1(3) by simp
  next
    case False
    then have "le_enc (2 * n) (x div 256 ^ 2) \<noteq> []"
      by (simp flip: length_greater_0_conv)
    moreover have "length (le_enc 2 x) + length (le_enc (2 * n) (x div 256 ^ 2)) \<le> 2 ^ 32"
      using Suc.prems(3) by simp
    ultimately show ?thesis unfolding f'(3) f1(3) a2 x2 by (intro put_bytes_append)
  qed
  also have "le_enc 2 x @ le_enc (2 * n) (x div 256 ^ 2) = le_enc (2 * Suc n) x"
    using le_enc_append [of 2 "2 * n" x] by simp
  finally have "hw_byte hw f' = put_bytes (hw_byte hw f) ?a (le_enc (2 * Suc n) x)" .
  moreover have "HAL_program_halves hw f addr data i (Suc n) = (True, f')"
    using f1(1) f'(1) by (simp add: h_def [symmetric] Let_def)
  ultimately show ?case using f'(2) x_def by blast
qed

lemma HAL_FLASH_Program_stores:
  assumes "ready f" and "addr mod 8 = 0" and "\<And>k. k < 8 \<Longrightarrow> main (addr + of_nat k)" and "erased hw f addr 8"
  shows "\<exists>f'. HAL_FLASH_Program hw f addr data = (True, f') \<and> ready f' \<and>
    hw_byte hw f' = put_bytes (hw_byte hw f) addr (le_enc 8 (unat data))"
proof -
  define g where "g = snd (hw_wait hw f)"
  have g: "ready g" "hw_byte hw g = hw_byte hw f"
    using assms(1) by (simp_all add: g_def wait_ready wait_byte)
  have "\<exists>f'. HAL_program_halves hw g addr data 0 4 = (True, f') \<and> ready f' \<and>
    hw_byte hw f' = put_bytes (hw_byte hw g) (addr + of_nat (2 * 0)) (le_enc (2 * 4) (unat data div 256 ^ (2 * 0)))"
    using assms(3,4) g by (intro HAL_program_halves_stores assms(2)) (auto simp: erased_def)
  then show ?thesis using wait_ok [OF assms(1)] g(2) by (auto simp: HAL_FLASH_Program_def g_def Let_def)
qed

lemma Flash_Unlock_iap_wait:
  "ready (snd (hw_wait hw (Flash_Unlock_iap hw f)))"
  "hw_byte hw (snd (hw_wait hw (Flash_Unlock_iap hw f))) = hw_byte hw f"
  by (simp_all add: Flash_Unlock_iap_def unlock_ready unlock_byte clear_byte wait_byte)

text \<open>The loop programs the double words it was given. \<open>ready\<close> is only known of the controller after
  a wait, which every round begins with.\<close>

lemma Flash_Write_loop_iap_programs:
  assumes "ready (snd (hw_wait hw f))" and "addr mod 8 = 0" and "i mod 8 = 0" and "i + 8 * n \<le> length b"
    and "i + 8 * n < 2 ^ 32"
    and "\<And>k. k < i + 8 * n \<Longrightarrow> main (addr + of_nat k)"
    and "\<And>k. i \<le> k \<Longrightarrow> k < i + 8 * n \<Longrightarrow> hw_byte hw f (addr + of_nat k) = 0xFF"
  shows "\<exists>f'. Flash_Write_loop_iap hw f addr b i n = Some (Inr (), f') \<and> ready (snd (hw_wait hw f')) \<and>
    hw_byte hw f' = put_bytes (hw_byte hw f) (addr + of_nat i) (take (8 * n) (drop i b))"
  using assms
proof (induction n arbitrary: f i)
  case 0
  then show ?case by simp
next
  case (Suc n)
  define bs where "bs = take 8 (drop i b)"
  define w :: u64 where "w = of_nat (le_dec bs)"
  have len: "length bs = 8" using Suc.prems(4) by (simp add: bs_def)
  have word: "ArrayU8ToU64_iap (drop i b) = Some w"
    using Suc.prems(4) by (simp add: ArrayU8ToU64_iap_le w_def bs_def)
  have enc: "le_enc 8 (unat w) = bs"
  proof -
    have "le_dec bs < 18446744073709551616" using le_dec_less [of bs] len by simp
    then have "unat w = le_dec bs" by (simp add: w_def unat_of_nat_u64)
    then show ?thesis using le_enc_dec [of bs] len by simp
  qed
  define f1 where "f1 = snd (hw_wait hw f)"
  have f1: "ready f1" "hw_byte hw f1 = hw_byte hw f"
    using Suc.prems(1) by (simp_all add: f1_def wait_byte)
  have er: "erased hw f1 (addr + of_nat i) 8"
    unfolding erased_def
  proof (intro allI impI)
    fix k :: nat assume "k < 8"
    then have "hw_byte hw f (addr + of_nat (i + k)) = 0xFF" using Suc.prems(7) [of "i + k"] by simp
    then show "hw_byte hw f1 (addr + of_nat i + of_nat k) = 0xFF" by (simp add: f1 add.assoc)
  qed
  have m: "main (addr + of_nat i + of_nat k)" if "k < 8" for k
    using Suc.prems(6) [of "i + k"] that by (simp add: add.assoc)
  obtain f2 where f2: "HAL_FLASH_Program hw f1 (addr + of_nat i) w = (True, f2)" "ready f2"
      "hw_byte hw f2 = put_bytes (hw_byte hw f) (addr + of_nat i) bs"
    using HAL_FLASH_Program_stores [OF f1(1) word_mod_8 [OF Suc.prems(2,3)] m er, of w] by (auto simp: enc f1)
  have next_addr: "addr + of_nat (i + 8) = addr + of_nat i + of_nat (length bs)"
    by (simp add: len)
  have "\<exists>f'. Flash_Write_loop_iap hw f2 addr b (i + 8) n = Some (Inr (), f') \<and> ready (snd (hw_wait hw f')) \<and>
    hw_byte hw f' = put_bytes (hw_byte hw f2) (addr + of_nat (i + 8)) (take (8 * n) (drop (i + 8) b))"
  proof (rule Suc.IH)
    fix k assume k: "i + 8 \<le> k" "k < i + 8 + 8 * n"
    have "hw_byte hw f2 (addr + of_nat i + of_nat (k - i)) = hw_byte hw f (addr + of_nat i + of_nat (k - i))"
      using k Suc.prems(5) len unfolding f2(3) by (subst put_bytes_at) auto
    moreover have "addr + of_nat i + of_nat (k - i) = addr + of_nat k"
      using k by simp
    ultimately show "hw_byte hw f2 (addr + of_nat k) = 0xFF" using Suc.prems(7) [of k] k by simp
  next
    show "(i + 8) mod 8 = 0" using Suc.prems(3) by simp
  qed (use f2(2) Suc.prems wait_ready in auto)
  then obtain f' where f': "Flash_Write_loop_iap hw f2 addr b (i + 8) n = Some (Inr (), f')"
    "ready (snd (hw_wait hw f'))"
    "hw_byte hw f' = put_bytes (hw_byte hw f2) (addr + of_nat (i + 8)) (take (8 * n) (drop (i + 8) b))"
    by blast
  have "hw_byte hw f' = put_bytes (hw_byte hw f) (addr + of_nat i) (take (8 * Suc n) (drop i b))"
  proof (cases "n = 0")
    case True
    then show ?thesis using f'(3) f2(3) by (simp add: bs_def)
  next
    case False
    define cs where "cs = take (8 * n) (drop (i + 8) b)"
    have "length bs + length cs \<le> 2 ^ 32" "cs \<noteq> []"
      using Suc.prems(4,5) False len by (auto simp: cs_def)
    then have "hw_byte hw f' = put_bytes (hw_byte hw f) (addr + of_nat i) (bs @ cs)"
      unfolding f'(3) f2(3) next_addr cs_def [symmetric] by (rule put_bytes_append)
    moreover have "take (8 * Suc n) (drop i b) = bs @ cs"
      by (simp add: bs_def cs_def take_add add.commute)
    ultimately show ?thesis by simp
  qed
  moreover have "Flash_Write_loop_iap hw f addr b i (Suc n) = Some (Inr (), f')"
    using word f2(1) f'(1) by (simp add: f1_def [symmetric])
  ultimately show ?case using f'(2) by blast
qed

text \<open>A write to an erased, aligned area stores the block. \<open>m\<close> is the length rounded up to double words.\<close>

lemma Flash_Write_iap_stores:
  assumes addr: "addr mod 8 = 0" and len: "unat len \<le> length b" and m: "unat len \<le> m" "m < unat len + 8" "8 dvd m"
    and small: "m < 2 ^ 31" and main: "\<And>k. k < m \<Longrightarrow> main (addr + of_nat k)" and blank: "erased hw f addr m"
  shows "\<exists>f'. Flash_Write_iap hw f addr b len = Some (len, f') \<and>
    hw_byte hw f' = put_bytes (hw_byte hw f) addr (take (unat len) b)"
proof -
  define r where "r = len mod 8"
  define l where "l = len - r"
  have r8: "unat r < 8" unfolding r_def unat_mod by simp
  have rl: "unat r \<le> unat len" unfolding r_def unat_mod by simp
  then have ul: "unat l = unat len - unat r"
    unfolding l_def by (intro unat_sub) (simp add: word_le_nat_alt)
  have sum: "l + r = len" by (simp add: l_def)
  define q where "q = unat l div 8"
  have l8: "unat l = 8 * q"
  proof -
    have "unat r = unat len mod 8" by (simp add: r_def unat_mod)
    then have "unat l mod 8 = 0" using ul rl by (simp add: minus_mod_eq_mult_div)
    then show ?thesis by (simp add: q_def) presburger
  qed
  obtain c where c: "m = 8 * c" using m(3) by blast
  define f0 where "f0 = Flash_Unlock_iap hw f"
  have f0: "ready (snd (hw_wait hw f0))" "hw_byte hw f0 = hw_byte hw f"
    by (simp_all add: f0_def Flash_Unlock_iap_def unlock_ready unlock_byte clear_byte)
  have FF: "hw_byte hw f (addr + of_nat k) = 0xFF" if "k < m" for k
    using blank that by (simp add: erased_def)
  have lm: "unat l \<le> m" using ul m(1) by simp
  have "\<exists>f1. Flash_Write_loop_iap hw f0 addr b 0 q = Some (Inr (), f1) \<and> ready (snd (hw_wait hw f1)) \<and>
      hw_byte hw f1 = put_bytes (hw_byte hw f0) (addr + of_nat 0) (take (8 * q) (drop 0 b))"
    by (rule Flash_Write_loop_iap_programs) (use f0 addr len small main FF ul l8 lm in auto)
  then obtain f1 where f1: "Flash_Write_loop_iap hw f0 addr b 0 q = Some (Inr (), f1)" "ready (snd (hw_wait hw f1))"
      "hw_byte hw f1 = put_bytes (hw_byte hw f) addr (take (unat l) b)"
    by (auto simp: f0 l8)
  have start: "Flash_Write_iap hw f addr b len =
    (if r \<noteq> 0 then do {
        double_word \<leftarrow> Flash_Write_tail_iap b (unat l) (unat r) 8 0;
        let g = snd (hw_wait hw f1);
        let s = HAL_FLASH_Program hw g (addr + l) double_word;
        Some (if fst s then l + r else l, Flash_Lock hw (snd s))
      }
     else Some (l, Flash_Lock hw f1))"
    unfolding Flash_Write_iap_def Let_def r_def [symmetric] l_def [symmetric] f0_def [symmetric]
      q_def [symmetric]
    using addr f1(1) by simp
  show ?thesis
  proof (cases "r = 0")
    case True
    then show ?thesis using start f1(3) sum by (auto simp: Flash_Lock_byte)
  next
    case False
    then have rpos: "0 < unat r" by (simp add: unat_gt_0)
    have mq: "m = 8 * q + 8"
    proof -
      have "8 * q < 8 * c" "8 * c < 8 * q + 16" using m(1,2) ul l8 rl rpos r8 c by linarith+
      then have "q < c" "c < q + 2" by linarith+
      then have "c = q + 1" by linarith
      then show ?thesis using c by simp
    qed
    define y where "y n = (if n < unat r then b ! (unat l + n) else (0xFF :: u8))" for n
    define ys where "ys = map y [0..<8]"
    define w :: u64 where "w = of_nat (le_dec ys)"
    have tail: "Flash_Write_tail_iap b (unat l) (unat r) 8 0 = Some w"
      using Flash_Write_tail_iap_word [of 8 "unat l" "unat r" b y] ul rl len by (simp add: y_def w_def ys_def)
    have l8': "length ys = 8" by (simp add: ys_def)
    have enc: "le_enc 8 (unat w) = ys"
    proof -
      have "le_dec ys < 18446744073709551616" using le_dec_less [of ys] l8' by simp
      then have "unat w = le_dec ys" unfolding w_def by (subst unat_of_nat_u64) simp
      then show ?thesis using le_enc_dec [of ys] unfolding l8' by simp
    qed
    define pad where "pad = replicate (8 - unat r) (0xFF :: u8)"
    have ys: "ys = take (unat r) (drop (unat l) b) @ pad"
      using ul rl len r8 by (intro nth_equalityI) (auto simp: ys_def pad_def y_def nth_append)
    define g where "g = snd (hw_wait hw f1)"
    have g: "ready g" "hw_byte hw g = hw_byte hw f1"
      by (simp_all add: g_def f1(2) wait_byte)
    have al: "addr + l = addr + of_nat (unat l)" by simp
    have er: "erased hw g (addr + l) 8"
      unfolding erased_def
    proof (intro allI impI)
      fix k :: nat assume k: "k < 8"
      have "unat l + k < 2 ^ 32" using k mq l8 small by simp
      then have "hw_byte hw g (addr + of_nat (unat l + k)) = 0xFF"
        unfolding g(2) f1(3) using k FF [of "unat l + k"] ul len mq l8 by (subst put_bytes_at) auto
      then show "hw_byte hw g (addr + l + of_nat k) = 0xFF" by (simp add: add.assoc)
    qed
    have mn: "main (addr + l + of_nat k)" if "k < 8" for k
    proof -
      have "unat l + k < m" using that mq l8 by simp
      from main [OF this] show ?thesis by (simp add: add.assoc)
    qed
    have "unat l mod 8 = 0" by (simp add: l8)
    from word_mod_8 [OF addr this] have ev: "(addr + l) mod 8 = 0" by simp
    obtain f2 where f2: "HAL_FLASH_Program hw g (addr + l) w = (True, f2)"
        "hw_byte hw f2 = put_bytes (hw_byte hw g) (addr + of_nat (unat l)) ys"
      using HAL_FLASH_Program_stores [OF g(1) ev mn er, of w] unfolding enc al [symmetric] by blast
    have tl: "length (take (unat l) b) = unat l" using ul len by simp
    have "ys \<noteq> []" using l8' by auto
    moreover have "length (take (unat l) b) + length ys \<le> 2 ^ 32" using tl l8' l8 mq small by simp
    ultimately have "hw_byte hw f2 = put_bytes (hw_byte hw f) addr (take (unat l) b @ ys)"
      using put_bytes_append [of "take (unat l) b" ys "hw_byte hw f" addr]
      unfolding f2(2) g(2) f1(3) tl by simp
    also have "take (unat l) b @ ys = take (unat len) b @ pad"
      unfolding ys using ul rl by (simp add: take_add [symmetric])
    also have "put_bytes (hw_byte hw f) addr (take (unat len) b @ pad) =
        put_bytes (hw_byte hw f) addr (take (unat len) b)"
    proof (rule put_bytes_pad)
      show "length (take (unat len) b) + length pad \<le> 2 ^ 32"
        using len small m(1) r8 by (simp add: pad_def)
    next
      fix k assume "length (take (unat len) b) \<le> k" "k < length (take (unat len) b) + length pad"
      then show "hw_byte hw f (addr + of_nat k) = pad ! (k - length (take (unat len) b))"
        using FF [of k] len ul l8 mq rl r8 by (simp add: pad_def)
    qed
    finally have "hw_byte hw (Flash_Lock hw f2) = put_bytes (hw_byte hw f) addr (take (unat len) b)"
      by (simp add: Flash_Lock_byte)
    moreover have "Flash_Write_iap hw f addr b len = Some (len, Flash_Lock hw f2)"
      using start False tail f2(1) sum by (simp add: g_def [symmetric])
    ultimately show ?thesis by blast
  qed
qed

section \<open>Erasing over the contract\<close>

text \<open>\<open>n\<close> consecutive pages from a page boundary.\<close>

lemma HAL_erase_pages_erases:
  assumes "ready f" and "unat addr mod 2048 = 0" and "unat addr + 2048 * n < 2 ^ 31"
    and "\<And>k. k < n \<Longrightarrow> main (addr + of_nat (2048 * k))"
  shows "\<exists>f'. HAL_erase_pages hw f addr n status = (n \<noteq> 0 \<or> status, f') \<and> ready f' \<and>
    hw_byte hw f' = put_bytes (hw_byte hw f) addr (replicate (2048 * n) 0xFF)"
  using assms
proof (induction n arbitrary: f addr status)
  case 0
  then show ?case by simp
next
  case (Suc n)
  have a: "unat (addr + FLASH_PAGE_SIZE) = unat addr + 2048"
    using Suc.prems(3) by (simp add: FLASH_PAGE_SIZE_def unat_word_ariths)
  obtain f1 where f1: "hw_erase hw f addr = (FLASH_COMPLETE, f1)" "ready f1"
      "hw_byte hw f1 = (\<lambda>x. if x div FLASH_PAGE_SIZE = addr div FLASH_PAGE_SIZE then 0xFF else hw_byte hw f x)"
    using erase_page [OF Suc.prems(1), of addr] Suc.prems(4) [of 0] by auto
  have "x div FLASH_PAGE_SIZE = addr div FLASH_PAGE_SIZE \<longleftrightarrow> unat (x - addr) < 2048" for x
    using Suc.prems(2,3) by (intro same_page) simp_all
  then have b1: "hw_byte hw f1 = put_bytes (hw_byte hw f) addr (replicate 2048 0xFF)"
    by (simp add: f1(3) put_bytes_def fun_eq_iff)
  have "main (addr + FLASH_PAGE_SIZE + of_nat (2048 * k))" if "k < n" for k
    using Suc.prems(4) [of "Suc k"] that by (simp add: FLASH_PAGE_SIZE_def ac_simps)
  then obtain f' where f': "HAL_erase_pages hw f1 (addr + FLASH_PAGE_SIZE) n True = (True, f')" "ready f'"
      "hw_byte hw f' = put_bytes (hw_byte hw f1) (addr + FLASH_PAGE_SIZE) (replicate (2048 * n) 0xFF)"
    using Suc.IH [OF f1(2), of "addr + FLASH_PAGE_SIZE" True] Suc.prems(2,3) a by auto
  have "hw_byte hw f' = put_bytes (hw_byte hw f) addr (replicate (2048 * Suc n) 0xFF)"
  proof (cases "n = 0")
    case True
    then show ?thesis using f'(3) b1 by simp
  next
    case False
    have p: "addr + FLASH_PAGE_SIZE = addr + of_nat (length (replicate 2048 (0xFF :: u8)))"
      by (simp add: FLASH_PAGE_SIZE_def)
    have "put_bytes (hw_byte hw f1) (addr + FLASH_PAGE_SIZE) (replicate (2048 * n) 0xFF) =
        put_bytes (hw_byte hw f) addr (replicate 2048 0xFF @ replicate (2048 * n) 0xFF)"
      unfolding b1 p using False Suc.prems(3) by (intro put_bytes_append) simp_all
    then show ?thesis using f'(3) by (simp add: replicate_add [symmetric])
  qed
  then show ?case using f1(1) f'(1,2) by simp
qed

end

end
