(* ===== verification/Boot_Main.thy ===== *)
theory Boot_Main
  imports Boot_Flash Checksum
begin

text \<open>
  The bootloader (IAP project: Projects/Src/main.c, with the update flag and the parameters of
  Projects/Src/iap_if.c). \<open>boot_main\<close> is main up to the point where it jumps to the application,
  resets the part or enters the loop that serves updates. The zlib routine uncompress is the
  parameter \<open>unz\<close>: from the bytes it may read and the room it may fill it gives the bytes it
  writes and the number of bytes it consumed. Clock, read protection and board initialisation have
  no effect on what is modelled. \<open>iap_if.c\<close> unlocks the flash and clears only the flag OPTVERR, where
  \<open>flash_if.c\<close> clears the flags of the last operation too; here both are \<open>Flash_Unlock_iap\<close>, because
  \<open>FLASH_WaitForLastOperation\<close> follows in every one of these functions and clears those flags itself.
\<close>

section \<open>The update flag and the parameters\<close>

record 'f boot_vars =
  boot_flash :: 'f
  boot_IAP_FLAG :: u64
  boot_param :: iap_param_type
  check_buf :: "u8 list"

definition RunAppMode_iap :: "'f flash_hw \<Rightarrow> 'f boot_vars \<Rightarrow> 'f boot_vars" where
  "RunAppMode_iap hw v = (let
     addr_iapflag = flash_page_from_end hw (boot_flash v) FLASH_IAP_FLAG_ADDR;
     v = v\<lparr>boot_IAP_FLAG := OTA_RUN_APP\<rparr>;
     f = snd (hw_wait hw (Flash_Unlock_iap hw (boot_flash v)));
     f = snd (HAL_FLASHEx_Erase hw f addr_iapflag 1)
   in v\<lparr>boot_flash := hw_lock hw f\<rparr>)"

definition UpdateAppMode_iap :: "'f flash_hw \<Rightarrow> 'f boot_vars \<Rightarrow> 'f boot_vars" where
  "UpdateAppMode_iap hw v = (let
     addr_iapflag = flash_page_from_end hw (boot_flash v) FLASH_IAP_FLAG_ADDR;
     v = (if ReadIAPMode hw (boot_flash v) \<noteq> OTA_RUN_APP then RunAppMode_iap hw v else v);
     f = Flash_Unlock_iap hw (boot_flash v);
     v = v\<lparr>boot_IAP_FLAG := OTA_Update_APP\<rparr>;
     f = snd (hw_wait hw f);
     f = snd (HAL_FLASH_Program hw f addr_iapflag (boot_IAP_FLAG v))
   in v\<lparr>boot_flash := hw_lock hw f\<rparr>)"

definition ForceUpdateAppMode_iap :: "'f flash_hw \<Rightarrow> 'f boot_vars \<Rightarrow> 'f boot_vars" where
  "ForceUpdateAppMode_iap hw v = (let
     addr_iapflag = flash_page_from_end hw (boot_flash v) FLASH_IAP_FLAG_ADDR;
     v = (if ReadIAPMode hw (boot_flash v) \<noteq> OTA_RUN_APP \<or> ReadIAPMode hw (boot_flash v) \<noteq> OTA_Update_APP
          then RunAppMode_iap hw v else v);
     f = Flash_Unlock_iap hw (boot_flash v);
     v = v\<lparr>boot_IAP_FLAG := OTA_Force_Update_APP\<rparr>;
     f = snd (hw_wait hw f);
     f = snd (HAL_FLASH_Program hw f addr_iapflag (boot_IAP_FLAG v))
   in v\<lparr>boot_flash := hw_lock hw f\<rparr>)"

definition iap_param_save_iap :: "'f flash_hw \<Rightarrow> 'f boot_vars \<Rightarrow> 'f boot_vars option" where
  "iap_param_save_iap hw v = do {
     let addr_iapparam = flash_page_from_end hw (boot_flash v) FLASH_IAP_PARAM_ADDR;
     let f = snd (hw_wait hw (Flash_Unlock_iap hw (boot_flash v)));
     let f = snd (HAL_FLASHEx_Erase hw f addr_iapparam 1);
     (_, f) \<leftarrow> Flash_Write_iap hw f addr_iapparam (iap_param_obj (boot_param v)) 24;
     Some (v\<lparr>boot_flash := hw_lock hw f\<rparr>)
   }"

definition iap_param_default_iap :: "'f flash_hw \<Rightarrow> 'f boot_vars \<Rightarrow> 'f boot_vars option" where
  "iap_param_default_iap hw v = iap_param_save_iap hw (v\<lparr>boot_param := iap_defaults (Get_ChipID hw (boot_flash v))\<rparr>)"

definition iap_param_load_iap :: "'f flash_hw \<Rightarrow> 'f boot_vars \<Rightarrow> 'f boot_vars option" where
  "iap_param_load_iap hw v = do {
     let addr_iapparam = flash_page_from_end hw (boot_flash v) FLASH_IAP_PARAM_ADDR;
     let v = v\<lparr>boot_param := (boot_param v)\<lparr>iap_Power_First_Flag := flash_half hw (boot_flash v) addr_iapparam\<rparr>\<rparr>;
     v \<leftarrow> (if iap_Power_First_Flag (boot_param v) \<noteq> DEV_FIRST_POWER_FLAG
           then iap_param_default_iap hw v else Some v);
     let addr_iapparam = flash_page_from_end hw (boot_flash v) FLASH_IAP_PARAM_ADDR;
     (_, obj) \<leftarrow> Flash_Read hw (boot_flash v) addr_iapparam (iap_param_obj (boot_param v)) 24;
     Some (v\<lparr>boot_param := iap_param_of obj\<rparr>)
   }"

section \<open>The image information\<close>

record boot_header =
  CompressFlag :: u16
  UpdatesTotalSize :: u32
  UpdatesSubSize :: u16
  UpdatesCRC32 :: u32
  ComPackOriginalSize :: u32
  ComPackNo :: u16
  PerComPackOriginalSize :: u16
  ComPackOriginalCRC32 :: u32

definition le_field :: "u8 list \<Rightarrow> nat \<Rightarrow> nat \<Rightarrow> nat" where
  "le_field bs i n = le_dec (take n (drop i bs))"

definition boot_header_of :: "u8 list \<Rightarrow> boot_header" where
  "boot_header_of bs = \<lparr>CompressFlag = of_nat (le_field bs 0 2), UpdatesTotalSize = of_nat (le_field bs 2 4),
     UpdatesSubSize = of_nat (le_field bs 6 2), UpdatesCRC32 = of_nat (le_field bs 8 4),
     ComPackOriginalSize = of_nat (le_field bs 12 4), ComPackNo = of_nat (le_field bs 16 2),
     PerComPackOriginalSize = of_nat (le_field bs 18 2), ComPackOriginalCRC32 = of_nat (le_field bs 20 4)\<rparr>"

section \<open>Main\<close>

definition FLASH_APP_RUN_ADDR :: u32 where "FLASH_APP_RUN_ADDR = 0x0800A000"

datatype boot_end = Boot_jump u32 u32 | Boot_reset | Boot_iap

definition flash_word :: "'f flash_hw \<Rightarrow> 'f \<Rightarrow> u32 \<Rightarrow> u32" where
  "flash_word hw f a = of_nat (le_dec (flash_bytes hw f a 4))"

text \<open>Label \<open>OTAoE\<close>: the parameters are loaded and updates are served.\<close>

definition boot_serve :: "'f flash_hw \<Rightarrow> 'f boot_vars \<Rightarrow> (boot_end \<times> 'f boot_vars) option" where
  "boot_serve hw v = map_option (Pair Boot_iap) (iap_param_load_iap hw v)"

text \<open>Label \<open>RunAPP\<close>.\<close>

definition boot_run :: "'f flash_hw \<Rightarrow> 'f boot_vars \<Rightarrow> (boot_end \<times> 'f boot_vars) option" where
  "boot_run hw v = (let sp = flash_word hw (boot_flash v) FLASH_APP_RUN_ADDR in
     if sp AND 0x2FFE0000 = 0x20000000
     then Some (Boot_jump sp (flash_word hw (boot_flash v) (FLASH_APP_RUN_ADDR + 4)), v)
     else boot_serve hw (ForceUpdateAppMode_iap hw v))"

text \<open>The checksum of the download area.\<close>

definition boot_read :: "'f flash_hw \<Rightarrow> u32 \<Rightarrow> u32 \<Rightarrow> 'f boot_vars \<Rightarrow> 'f boot_vars option" where
  "boot_read hw addr len v = do {
     (_, buf) \<leftarrow> Flash_Read hw (boot_flash v) addr (check_buf v) len;
     Some (v\<lparr>check_buf := buf\<rparr>)
   }"

fun boot_crc_pages ::
  "'f flash_hw \<Rightarrow> u32 \<Rightarrow> nat \<Rightarrow> nat \<Rightarrow> CRC32_CTX \<times> 'f boot_vars \<Rightarrow> (CRC32_CTX \<times> 'f boot_vars) option" where
  "boot_crc_pages hw addr i 0 (ctx, v) = Some (ctx, v)"
| "boot_crc_pages hw addr i (Suc n) (ctx, v) = do {
     v \<leftarrow> boot_read hw (addr + of_nat i * FLASH_PAGE_SIZE) FLASH_PAGE_SIZE v;
     ctx \<leftarrow> CRC32_Update ctx (check_buf v) FLASH_PAGE_SIZE;
     boot_crc_pages hw addr (Suc i) n (ctx, v)
   }"

definition boot_crc :: "'f flash_hw \<Rightarrow> u32 \<Rightarrow> u32 \<Rightarrow> 'f boot_vars \<Rightarrow> (u32 \<times> 'f boot_vars) option" where
  "boot_crc hw addr total_size v = do {
     let page_num = total_size div FLASH_PAGE_SIZE;
     let page_left = total_size mod FLASH_PAGE_SIZE;
     (ctx, v) \<leftarrow> boot_crc_pages hw addr 0 (unat page_num) (CRC32_Init \<lparr>crc = 0\<rparr>, v);
     (ctx, v) \<leftarrow> (if page_left \<noteq> 0
       then do {
         v \<leftarrow> boot_read hw (addr + page_num * FLASH_PAGE_SIZE) page_left v;
         ctx \<leftarrow> CRC32_Update ctx (check_buf v) page_left;
         Some (ctx, v)
       }
       else Some (ctx, v));
     Some (fst (CRC32_Final ctx), v)
   }"

text \<open>One page of the copy: read the download area, write the run area, read it back.\<close>

definition boot_copy_page ::
  "'f flash_hw \<Rightarrow> u32 \<Rightarrow> u32 \<Rightarrow> u32 \<Rightarrow> CRC32_CTX \<times> 'f boot_vars \<Rightarrow> (CRC32_CTX \<times> 'f boot_vars) option" where
  "boot_copy_page hw src off len = (\<lambda>(ctx, v). do {
     let v = v\<lparr>boot_flash := snd (hw_wait hw (boot_flash v))\<rparr>;
     v \<leftarrow> boot_read hw (src + off) len v;
     (_, f) \<leftarrow> Flash_Write_iap hw (boot_flash v) (FLASH_APP_RUN_ADDR + off) (check_buf v) len;
     v \<leftarrow> boot_read hw (FLASH_APP_RUN_ADDR + off) len (v\<lparr>boot_flash := f\<rparr>);
     ctx \<leftarrow> CRC32_Update ctx (check_buf v) len;
     Some (ctx, v)
   })"

fun boot_copy_pages ::
  "'f flash_hw \<Rightarrow> u32 \<Rightarrow> nat \<Rightarrow> nat \<Rightarrow> CRC32_CTX \<times> 'f boot_vars \<Rightarrow> (CRC32_CTX \<times> 'f boot_vars) option" where
  "boot_copy_pages hw src i 0 cv = Some cv"
| "boot_copy_pages hw src i (Suc n) cv = do {
     cv \<leftarrow> boot_copy_page hw src (of_nat i * FLASH_PAGE_SIZE) FLASH_PAGE_SIZE cv;
     boot_copy_pages hw src (Suc i) n cv
   }"

text \<open>One round of the copy loop: erase, copy, and the checksum of what was read back.\<close>

definition boot_copy_once :: "'f flash_hw \<Rightarrow> u32 \<Rightarrow> u32 \<Rightarrow> 'f boot_vars \<Rightarrow> (u32 \<times> 'f boot_vars) option" where
  "boot_copy_once hw src total_size v = do {
     let page_num = total_size div FLASH_PAGE_SIZE;
     let page_left = total_size mod FLASH_PAGE_SIZE;
     let v = v\<lparr>boot_flash := snd (Flash_Erase_Page_iap hw (boot_flash v) FLASH_APP_RUN_ADDR total_size)\<rparr>;
     (ctx, v) \<leftarrow> boot_copy_pages hw src 0 (unat page_num) (CRC32_Init \<lparr>crc = 0\<rparr>, v);
     (ctx, v) \<leftarrow> (if page_left \<noteq> 0
       then boot_copy_page hw src (page_num * FLASH_PAGE_SIZE) page_left (ctx, v)
       else Some (ctx, v));
     Some (fst (CRC32_Final ctx), v)
   }"

definition boot_done :: "'f flash_hw \<Rightarrow> 'f boot_vars \<Rightarrow> boot_end \<times> 'f boot_vars" where
  "boot_done hw v = (Boot_reset, RunAppMode_iap hw (v\<lparr>boot_flash := Flash_Lock hw (boot_flash v)\<rparr>))"

definition boot_give_up :: "'f flash_hw \<Rightarrow> 'f boot_vars \<Rightarrow> (boot_end \<times> 'f boot_vars) option" where
  "boot_give_up hw v = boot_serve hw (ForceUpdateAppMode_iap hw (v\<lparr>boot_flash := Flash_Lock hw (boot_flash v)\<rparr>))"

text \<open>The copy loop; the argument is the number of rounds left.\<close>

fun boot_copy ::
  "'f flash_hw \<Rightarrow> u32 \<Rightarrow> boot_header \<Rightarrow> nat \<Rightarrow> 'f boot_vars \<Rightarrow> (boot_end \<times> 'f boot_vars) option" where
  "boot_copy hw src h 0 v = boot_give_up hw v"
| "boot_copy hw src h (Suc tries) v = do {
     (sum, v) \<leftarrow> boot_copy_once hw src (UpdatesTotalSize h) v;
     if UpdatesCRC32 h = sum then Some (boot_done hw v) else boot_copy hw src h tries v
   }"

text \<open>The loop that decompresses. It does not end when \<open>unz\<close> keeps consuming nothing, which is the
  value None, as is writing behind the page buffer.\<close>

partial_function (option) boot_unz_loop ::
  "'f flash_hw \<Rightarrow> (u8 list \<Rightarrow> u32 \<Rightarrow> u8 list \<times> u32) \<Rightarrow> boot_header \<Rightarrow> u32 \<Rightarrow> u32 \<Rightarrow> u32 \<Rightarrow> 'f boot_vars \<Rightarrow>
     (u32 \<times> u32 \<times> 'f boot_vars) option" where
  "boot_unz_loop hw unz h pSrcData ComSizeCnt UncomSizeCnt v =
     (if ComSizeCnt < UpdatesTotalSize h
      then let
        room = ucast (PerComPackOriginalSize h) * 2;
        r = unz (flash_bytes hw (boot_flash v) pSrcData (unat room)) room;
        n = of_nat (length (fst r))
      in Option.bind (wrs (check_buf v) 0 (fst r)) (\<lambda>buf.
        let f = snd (hw_wait hw (boot_flash v)) in
        Option.bind (Flash_Write_iap hw f (FLASH_APP_RUN_ADDR + UncomSizeCnt) buf n) (\<lambda>s.
        boot_unz_loop hw unz h (pSrcData + snd r) (ComSizeCnt + snd r) (UncomSizeCnt + n)
          (v\<lparr>check_buf := buf, boot_flash := snd s\<rparr>)))
      else Some (pSrcData, UncomSizeCnt, v))"

text \<open>The rounds of the compressed case; after a failed one \<open>pSrcData\<close> is the run area.\<close>

fun boot_uncompress ::
  "'f flash_hw \<Rightarrow> (u8 list \<Rightarrow> u32 \<Rightarrow> u8 list \<times> u32) \<Rightarrow> boot_header \<Rightarrow> nat \<Rightarrow> u32 \<Rightarrow> 'f boot_vars \<Rightarrow>
     (boot_end \<times> 'f boot_vars) option" where
  "boot_uncompress hw unz h 0 pSrcData v = boot_give_up hw v"
| "boot_uncompress hw unz h (Suc tries) pSrcData v = do {
     let v = v\<lparr>boot_flash := snd (Flash_Erase_Page_iap hw (boot_flash v) FLASH_APP_RUN_ADDR (ComPackOriginalSize h))\<rparr>;
     (_, UncomSizeCnt, v) \<leftarrow> boot_unz_loop hw unz h pSrcData 0 0 v;
     let pSrcData = FLASH_APP_RUN_ADDR;
     ctx \<leftarrow> CRC32_Update (CRC32_Init \<lparr>crc = 0\<rparr>)
       (flash_bytes hw (boot_flash v) pSrcData (unat UncomSizeCnt)) UncomSizeCnt;
     if ComPackOriginalCRC32 h = fst (CRC32_Final ctx) \<and> ComPackOriginalSize h = UncomSizeCnt
     then Some (boot_done hw v)
     else boot_uncompress hw unz h tries pSrcData v
   }"

definition boot_update ::
  "'f flash_hw \<Rightarrow> (u8 list \<Rightarrow> u32 \<Rightarrow> u8 list \<times> u32) \<Rightarrow> 'f boot_vars \<Rightarrow> (boot_end \<times> 'f boot_vars) option" where
  "boot_update hw unz v = do {
     let addr_appinfo = flash_page_from_end hw (boot_flash v) FLASH_APP_INFO_ADDR;
     let addr_appcopy = flash_page_from_end hw (boot_flash v) FLASH_APP_COPY_ADDR;
     let h = boot_header_of (flash_bytes hw (boot_flash v) addr_appinfo 24);
     if UpdatesTotalSize h > OTA_BIN_MAX_SIZE then boot_run hw (RunAppMode_iap hw v)
     else do {
       (sum, v) \<leftarrow> boot_crc hw addr_appcopy (UpdatesTotalSize h) v;
       if UpdatesCRC32 h \<noteq> sum then boot_run hw (RunAppMode_iap hw v)
       else if CompressFlag h = 1
       then boot_uncompress hw unz h 3 addr_appcopy (v\<lparr>boot_flash := Flash_Unlock_iap hw (boot_flash v)\<rparr>)
       else boot_copy hw addr_appcopy h 3 (v\<lparr>boot_flash := Flash_Unlock_iap hw (boot_flash v)\<rparr>)
     }
   }"

definition boot_main ::
  "'f flash_hw \<Rightarrow> (u8 list \<Rightarrow> u32 \<Rightarrow> u8 list \<times> u32) \<Rightarrow> 'f boot_vars \<Rightarrow> (boot_end \<times> 'f boot_vars) option" where
  "boot_main hw unz v = (let v = v\<lparr>boot_IAP_FLAG := ReadIAPMode hw (boot_flash v)\<rparr> in
     if boot_IAP_FLAG v = OTA_RUN_APP then boot_run hw v
     else if boot_IAP_FLAG v = OTA_Update_APP then boot_update hw unz v
     else boot_serve hw v)"

section \<open>Checksum of an area\<close>

lemma put_bytes_within:
  assumes "i + length ys \<le> length xs" and "length xs \<le> 2 ^ 31"
  shows "put_bytes (put_bytes g a xs) (a + of_nat i) ys = put_bytes g a (take i xs @ ys @ drop (i + length ys) xs)"
proof
  fix x :: u32
  have i: "i < 2 ^ 32" using assms by simp
  have d: "unat (x - a) < 2 ^ 32" using unat_less_u32 [of "x - a"] by simp
  have l: "length (take i xs @ ys @ drop (i + length ys) xs) = length xs" using assms(1) by simp
  show "put_bytes (put_bytes g a xs) (a + of_nat i) ys x = put_bytes g a (take i xs @ ys @ drop (i + length ys) xs) x"
    using unat_diff_add [OF i, of x a] d assms
    by (auto simp: put_bytes_def l nth_append)
qed

lemma boot_read_some:
  assumes "unat len \<le> 2048" and "length (check_buf v) = 2048"
  shows "\<exists>r. boot_read hw addr len v =
      Some (v\<lparr>check_buf := flash_bytes hw (boot_flash v) addr (unat len) @ r\<rparr>) \<and> unat len + length r = 2048"
  using assms by (auto simp: boot_read_def Flash_Read_def)

abbreviation crc_run :: "u32 \<Rightarrow> u8 list \<Rightarrow> u32" where
  "crc_run c bs \<equiv> foldl (crc_byte 0xEDB88320) c bs"

lemma CRC32_Update_run:
  "length bs = unat len \<Longrightarrow> CRC32_Update ctx (bs @ r) len = Some (ctx\<lparr>crc := crc_run (crc ctx) bs\<rparr>)"
  by (simp add: CRC32_Update_ref)

lemma length_flash_bytes [simp]: "length (flash_bytes hw f a n) = n"
  by (simp add: flash_bytes_def)

lemma boot_crc_pages_run:
  assumes "length (check_buf v) = 2048"
  shows "\<exists>buf. length buf = 2048 \<and> boot_crc_pages hw addr i n (ctx, v) =
    Some (ctx\<lparr>crc := crc_run (crc ctx) (flash_bytes hw (boot_flash v) (addr + of_nat (2048 * i)) (2048 * n))\<rparr>,
      v\<lparr>check_buf := buf\<rparr>)"
  using assms
proof (induction n arbitrary: i ctx v)
  case 0
  then show ?case by (auto simp: flash_bytes_def intro: exI [of _ "check_buf v"])
next
  case (Suc n)
  let ?a = "addr + of_nat (2048 * i)"
  have p: "unat FLASH_PAGE_SIZE = 2048" by (simp add: FLASH_PAGE_SIZE_def)
  have a: "addr + of_nat i * FLASH_PAGE_SIZE = ?a" by (simp add: FLASH_PAGE_SIZE_def)
  define bs where "bs = flash_bytes hw (boot_flash v) ?a 2048"
  define v1 where "v1 = v\<lparr>check_buf := bs\<rparr>"
  have r: "boot_read hw ?a FLASH_PAGE_SIZE v = Some v1"
    using boot_read_some [of FLASH_PAGE_SIZE v hw ?a] Suc.prems by (auto simp: p bs_def v1_def)
  have u: "CRC32_Update ctx (check_buf v1) FLASH_PAGE_SIZE = Some (ctx\<lparr>crc := crc_run (crc ctx) bs\<rparr>)"
    using CRC32_Update_run [of bs FLASH_PAGE_SIZE ctx "[]"] by (simp add: p bs_def v1_def)
  have "length (check_buf v1) = 2048" by (simp add: v1_def bs_def)
  from Suc.IH [OF this, of "Suc i" "ctx\<lparr>crc := crc_run (crc ctx) bs\<rparr>"]
  obtain buf where buf: "length buf = 2048" "boot_crc_pages hw addr (Suc i) n (ctx\<lparr>crc := crc_run (crc ctx) bs\<rparr>, v1) =
      Some (ctx\<lparr>crc := crc_run (crc_run (crc ctx) bs)
        (flash_bytes hw (boot_flash v) (addr + of_nat (2048 * Suc i)) (2048 * n))\<rparr>, v\<lparr>check_buf := buf\<rparr>)"
    by (auto simp: v1_def)
  have "flash_bytes hw (boot_flash v) ?a (2048 * Suc n) =
      bs @ flash_bytes hw (boot_flash v) (addr + of_nat (2048 * Suc i)) (2048 * n)"
    using flash_bytes_append [of hw "boot_flash v" ?a 2048 "2048 * n"] by (simp add: bs_def ac_simps)
  then have "boot_crc_pages hw addr i (Suc n) (ctx, v) = Some (ctx\<lparr>crc := crc_run (crc ctx)
      (flash_bytes hw (boot_flash v) ?a (2048 * Suc n))\<rparr>, v\<lparr>check_buf := buf\<rparr>)"
    using buf(2) by (simp only: boot_crc_pages.simps a r u Option.bind.bind_lunit foldl_append)
  then show ?case using buf(1) by blast
qed

lemma crc_run_ref: "fst (CRC32_Final (ctx\<lparr>crc := crc_run 0xFFFFFFFF bs\<rparr>)) = crc32_ref bs"
  by (simp add: CRC32_Final_def crc32_ref_def Let_def)

text \<open>The whole pages and the rest of an image.\<close>

lemma page_split:
  "unat (w div FLASH_PAGE_SIZE) = unat w div 2048" "unat (w mod FLASH_PAGE_SIZE) = unat w mod 2048"
  "w div FLASH_PAGE_SIZE * FLASH_PAGE_SIZE = of_nat (2048 * (unat w div 2048))"
proof -
  show d: "unat (w div FLASH_PAGE_SIZE) = unat w div 2048" and "unat (w mod FLASH_PAGE_SIZE) = unat w mod 2048"
    by (simp_all add: FLASH_PAGE_SIZE_def unat_div unat_mod)
  have "w div FLASH_PAGE_SIZE = of_nat (unat w div 2048)" unfolding d [symmetric] by simp
  then show "w div FLASH_PAGE_SIZE * FLASH_PAGE_SIZE = of_nat (2048 * (unat w div 2048))"
    by (simp add: FLASH_PAGE_SIZE_def)
qed

lemma boot_crc_ref:
  assumes "length (check_buf v) = 2048"
  shows "\<exists>buf. length buf = 2048 \<and>
    boot_crc hw addr n v = Some (crc32_ref (flash_bytes hw (boot_flash v) addr (unat n)), v\<lparr>check_buf := buf\<rparr>)"
proof -
  define q where "q = unat n div 2048"
  define l where "l = unat n mod 2048"
  define ctx where "ctx = CRC32_Init \<lparr>crc = 0\<rparr>"
  have c: "crc ctx = 0xFFFFFFFF" by (simp add: ctx_def CRC32_Init_def)
  obtain buf where buf: "length buf = 2048" "boot_crc_pages hw addr 0 q (ctx, v) =
      Some (ctx\<lparr>crc := crc_run (crc ctx) (flash_bytes hw (boot_flash v) addr (2048 * q))\<rparr>, v\<lparr>check_buf := buf\<rparr>)"
    using boot_crc_pages_run [OF assms, of hw addr 0 q ctx] by auto
  define bs where "bs = flash_bytes hw (boot_flash v) addr (2048 * q)"
  define cs where "cs = flash_bytes hw (boot_flash v) (addr + of_nat (2048 * q)) l"
  have all: "flash_bytes hw (boot_flash v) addr (unat n) = bs @ cs"
    unfolding bs_def cs_def flash_bytes_append [symmetric] by (simp add: q_def l_def)
  have ll: "unat (n mod FLASH_PAGE_SIZE) = l" by (simp add: page_split l_def)
  have start: "boot_crc hw addr n v = do {
      (ctx, v) \<leftarrow> (if n mod FLASH_PAGE_SIZE \<noteq> 0
        then do {
          v \<leftarrow> boot_read hw (addr + of_nat (2048 * q)) (n mod FLASH_PAGE_SIZE) (v\<lparr>check_buf := buf\<rparr>);
          ctx \<leftarrow> CRC32_Update (ctx\<lparr>crc := crc_run (crc ctx) bs\<rparr>) (check_buf v) (n mod FLASH_PAGE_SIZE);
          Some (ctx, v)
        }
        else Some (ctx\<lparr>crc := crc_run (crc ctx) bs\<rparr>, v\<lparr>check_buf := buf\<rparr>));
      Some (fst (CRC32_Final ctx), v)
    }"
    unfolding boot_crc_def Let_def page_split q_def [symmetric] ctx_def [symmetric] buf(2) bs_def by simp
  show ?thesis
  proof (cases "n mod FLASH_PAGE_SIZE = 0")
    case True
    then have "cs = []" using ll by (simp add: cs_def flash_bytes_def)
    then show ?thesis using start True buf(1) crc_run_ref [where ctx = ctx and bs = bs] by (auto simp: all c)
  next
    case False
    have "l < 2048" by (simp add: l_def)
    then obtain r where r: "boot_read hw (addr + of_nat (2048 * q)) (n mod FLASH_PAGE_SIZE) (v\<lparr>check_buf := buf\<rparr>) =
        Some (v\<lparr>check_buf := cs @ r\<rparr>)" "l + length r = 2048"
      using boot_read_some [of "n mod FLASH_PAGE_SIZE" "v\<lparr>check_buf := buf\<rparr>" hw "addr + of_nat (2048 * q)"] buf(1)
      by (auto simp: ll cs_def)
    have "length cs = unat (n mod FLASH_PAGE_SIZE)" by (simp add: cs_def ll)
    from CRC32_Update_run [OF this, of "ctx\<lparr>crc := crc_run (crc ctx) bs\<rparr>" r]
    have "boot_crc hw addr n v = Some (crc32_ref (bs @ cs), v\<lparr>check_buf := cs @ r\<rparr>)"
      using start False r(1) crc_run_ref [where ctx = ctx and bs = "bs @ cs"] by (simp add: c)
    moreover have "length (cs @ r) = 2048" using r(2) by (simp add: cs_def)
    ultimately show ?thesis unfolding all by blast
  qed
qed

section \<open>The update flag over the contract\<close>

context hal_flash
begin

lemma HAL_erase_page:
  assumes "ready f" and "flash_page main a"
  shows "\<exists>f'. HAL_FLASHEx_Erase hw f a 1 = (True, f') \<and> ready f' \<and>
    hw_byte hw f' = put_bytes (hw_byte hw f) a (replicate 2048 0xFF)"
proof -
  define g where "g = snd (hw_wait hw f)"
  have g: "ready g" "hw_byte hw g = hw_byte hw f"
    using assms(1) by (simp_all add: g_def wait_ready wait_byte)
  have m: "main a" using flash_pageD(4) [OF assms(2), of 0] by simp
  have "\<exists>f'. HAL_erase_pages hw g a 1 False = (1 \<noteq> (0 :: nat) \<or> False, f') \<and> ready f' \<and>
    hw_byte hw f' = put_bytes (hw_byte hw g) a (replicate (2048 * 1) 0xFF)"
    using assms(2) m flash_pageD(3) [OF assms(2)] g(1)
    by (intro HAL_erase_pages_erases) (auto simp: flash_page_def)
  then show ?thesis using wait_ok [OF assms(1)] g(2) by (auto simp: HAL_FLASHEx_Erase_def g_def Let_def)
qed

lemma RunAppMode_iap_erases:
  assumes "flash_layout hw main (boot_flash v)"
  defines "a \<equiv> flash_page_from_end hw (boot_flash v) FLASH_IAP_FLAG_ADDR"
  shows "hw_byte hw (boot_flash (RunAppMode_iap hw v)) = put_bytes (hw_byte hw (boot_flash v)) a (replicate 2048 0xFF)"
    and "factory hw (boot_flash (RunAppMode_iap hw v)) = factory hw (boot_flash v)"
    and "ReadIAPMode hw (boot_flash (RunAppMode_iap hw v)) = OTA_RUN_APP"
proof -
  have page: "flash_page main a" unfolding a_def by (rule flag_page [OF assms(1)])
  define g where "g = snd (hw_wait hw (Flash_Unlock_iap hw (boot_flash v)))"
  have g: "ready g" "hw_byte hw g = hw_byte hw (boot_flash v)"
    unfolding g_def by (rule Flash_Unlock_iap_wait)+
  obtain f' where f': "HAL_FLASHEx_Erase hw g a 1 = (True, f')"
      "hw_byte hw f' = put_bytes (hw_byte hw (boot_flash v)) a (replicate 2048 0xFF)"
    using HAL_erase_page [OF g(1) page] unfolding g(2) by blast
  have v': "boot_flash (RunAppMode_iap hw v) = hw_lock hw f'"
    using f'(1) by (simp add: RunAppMode_iap_def Let_def a_def [symmetric] g_def [symmetric])
  show b: "hw_byte hw (boot_flash (RunAppMode_iap hw v)) = put_bytes (hw_byte hw (boot_flash v)) a (replicate 2048 0xFF)"
    by (simp add: v' lock_byte f'(2))
  then show fac: "factory hw (boot_flash (RunAppMode_iap hw v)) = factory hw (boot_flash v)"
    by (intro page_factory [OF page, of 0 "replicate 2048 0xFF"]) simp_all
  have a': "flash_page_from_end hw (boot_flash (RunAppMode_iap hw v)) FLASH_IAP_FLAG_ADDR = a"
    unfolding a_def by (rule factory_same(3) [OF fac])
  have "flash_bytes hw (boot_flash (RunAppMode_iap hw v)) (a + of_nat 0 + of_nat 0) 8 =
      take 8 (drop 0 (replicate 2048 0xFF))"
    using b by (intro flash_bytes_put [where g = "hw_byte hw (boot_flash v)"]) simp_all
  then have "flash_bytes hw (boot_flash (RunAppMode_iap hw v)) a 8 = replicate 8 0xFF" by simp
  moreover have "replicate 8 0xFF = [0xFF, 0xFF, 0xFF, 0xFF, 0xFF, 0xFF, 0xFF, 0xFF :: u8]"
    by code_simp
  ultimately show "ReadIAPMode hw (boot_flash (RunAppMode_iap hw v)) = OTA_RUN_APP"
    by (simp add: ReadIAPMode_def flash_dword_def a' OTA_RUN_APP_def)
qed

text \<open>A flag is written to an erased flag page.\<close>

lemma iap_flag_written:
  assumes layout: "flash_layout hw main f" and a: "a = flash_page_from_end hw f FLASH_IAP_FLAG_ADDR"
    and blank: "\<And>k. k < 8 \<Longrightarrow> hw_byte hw f (a + of_nat k) = 0xFF"
  shows "\<exists>f'. HAL_FLASH_Program hw (snd (hw_wait hw (Flash_Unlock_iap hw f))) a w = (True, f') \<and>
    hw_byte hw (hw_lock hw f') = put_bytes (hw_byte hw f) a (le_enc 8 (unat w)) \<and>
    factory hw (hw_lock hw f') = factory hw f \<and> ReadIAPMode hw (hw_lock hw f') = w"
proof -
  have page: "flash_page main a" unfolding a by (rule flag_page [OF layout])
  define g where "g = snd (hw_wait hw (Flash_Unlock_iap hw f))"
  have g: "ready g" "hw_byte hw g = hw_byte hw f" unfolding g_def by (rule Flash_Unlock_iap_wait)+
  have er: "erased hw g a 8" using blank by (simp add: erased_def g(2))
  have mn: "main (a + of_nat k)" if "k < 8" for k using flash_pageD(4) [OF page] that by simp
  have al: "a mod 8 = 0"
  proof (rule word_unat_eqI)
    obtain u where "unat a = 2048 * u" using flash_pageD(1) [OF page] by blast
    then show "unat (a mod 8) = unat (0 :: u32)" by (simp add: unat_mod)
  qed
  obtain f' where f': "HAL_FLASH_Program hw g a w = (True, f')" "hw_byte hw f' = put_bytes (hw_byte hw f) a (le_enc 8 (unat w))"
    using HAL_FLASH_Program_stores [OF g(1) al mn er] unfolding g(2) by blast
  have fac: "factory hw (hw_lock hw f') = factory hw f"
    unfolding factory_lock using f'(2) by (intro page_factory [OF page, of 0 "le_enc 8 (unat w)"]) simp_all
  have a': "flash_page_from_end hw (hw_lock hw f') FLASH_IAP_FLAG_ADDR = a" unfolding a by (rule factory_same(3) [OF fac])
  have "flash_bytes hw f' (a + of_nat 0 + of_nat 0) 8 = take 8 (drop 0 (le_enc 8 (unat w)))"
    using f'(2) by (intro flash_bytes_put [where g = "hw_byte hw f"]) simp_all
  then have b: "flash_bytes hw (hw_lock hw f') a 8 = le_enc 8 (unat w)" by (simp add: flash_bytes_lock)
  have "unat w < 256 ^ 8" using unsigned_less [of w, where ?'a = nat] by simp
  then have "ReadIAPMode hw (hw_lock hw f') = w" by (simp add: ReadIAPMode_def flash_dword_def a' b le_dec_enc)
  then show ?thesis using f' fac by (auto simp: g_def [symmetric] lock_byte)
qed

text \<open>The bootloader's forced update flag is set: the double word goes to an erased page.\<close>

lemma ForceUpdateAppMode_iap_flag:
  assumes "flash_layout hw main (boot_flash v)"
  shows "ReadIAPMode hw (boot_flash (ForceUpdateAppMode_iap hw v)) = OTA_Force_Update_APP"
proof -
  define a where "a = flash_page_from_end hw (boot_flash v) FLASH_IAP_FLAG_ADDR"
  define v1 where "v1 = RunAppMode_iap hw v"
  note e = RunAppMode_iap_erases [OF assms, folded a_def v1_def]
  have l1: "flash_layout hw main (boot_flash v1)" using assms factory_same(4) [OF e(2)] by simp
  have a1: "a = flash_page_from_end hw (boot_flash v1) FLASH_IAP_FLAG_ADDR"
    unfolding a_def using factory_same(3) [OF e(2)] by simp
  have "hw_byte hw (boot_flash v1) (a + of_nat k) = 0xFF" if "k < 8" for k
    using that unfolding e(1) by (subst put_bytes_at) auto
  then obtain f' where f': "HAL_FLASH_Program hw (snd (hw_wait hw (Flash_Unlock_iap hw (boot_flash v1)))) a OTA_Force_Update_APP = (True, f')"
      "ReadIAPMode hw (hw_lock hw f') = OTA_Force_Update_APP"
    using iap_flag_written [OF l1 a1, of OTA_Force_Update_APP] by blast
  have both: "ReadIAPMode hw (boot_flash v) \<noteq> OTA_RUN_APP \<or> ReadIAPMode hw (boot_flash v) \<noteq> OTA_Update_APP"
    by (simp add: OTA_RUN_APP_def OTA_Update_APP_def)
  show ?thesis
    using f' unfolding ForceUpdateAppMode_iap_def if_P [OF both]
    by (simp add: Let_def a_def [symmetric] v1_def [symmetric])
qed

end

section \<open>The copy over the contract\<close>

text \<open>The run area while the image is copied: \<open>j\<close> bytes are there, the rest is erased.\<close>

definition copied :: "(u32 \<Rightarrow> u8) \<Rightarrow> u8 list \<Rightarrow> nat \<Rightarrow> nat \<Rightarrow> u32 \<Rightarrow> u8" where
  "copied g img P j = put_bytes g FLASH_APP_RUN_ADDR (take j img @ replicate (2048 * P - j) 0xFF)"

lemma copied_outside:
  assumes "j \<le> length img" and "j \<le> 2048 * P" and "134258688 + 2048 * P \<le> unat x"
  shows "copied g img P j x = g x"
proof -
  have "unat (x - FLASH_APP_RUN_ADDR) = unat x - 134258688"
    using assms(3) by (subst unat_sub) (simp_all add: FLASH_APP_RUN_ADDR_def word_le_nat_alt)
  moreover have "\<not> unat x - 134258688 < 2048 * P" using assms(3) by linarith
  ultimately show ?thesis using assms(1,2) by (simp add: copied_def put_bytes_def)
qed

lemma copied_source:
  assumes "j \<le> length img" and "length img \<le> 2048 * P" and "134258688 + 2048 * P \<le> unat src"
    and "unat src + length img < 2 ^ 31" and "img = map (\<lambda>k. g (src + of_nat k)) [0..<length img]"
    and "hw_byte hw f = copied g img P j" and "i + n \<le> length img"
  shows "flash_bytes hw f (src + of_nat i) n = take n (drop i img)"
proof (rule nth_equalityI)
  fix k assume "k < length (flash_bytes hw f (src + of_nat i) n)"
  then have k: "k < n" by simp
  have u: "unat (src + of_nat (i + k)) = unat src + (i + k)"
    using k assms(4,7) by (subst unat_add_noover) (simp_all add: unat_of_nat_u32 del: of_nat_add)
  have "flash_bytes hw f (src + of_nat i) n ! k = hw_byte hw f (src + of_nat (i + k))"
    using k by (simp add: flash_bytes_def add.assoc)
  also have "\<dots> = g (src + of_nat (i + k))"
    unfolding assms(6) using assms(1-3) u by (intro copied_outside) simp_all
  also have "\<dots> = img ! (i + k)"
    using k assms(7) by (subst assms(5)) simp
  finally show "flash_bytes hw f (src + of_nat i) n ! k = take n (drop i img) ! k"
    using k assms(7) by simp
qed (use assms(7) in simp)

lemma copied_step:
  assumes "off + l \<le> length img" and "length img \<le> 2048 * P" and "2048 * P < 2 ^ 31"
  shows "put_bytes (copied g img P off) (FLASH_APP_RUN_ADDR + of_nat off) (take l (drop off img)) =
    copied g img P (off + l)"
proof -
  let ?xs = "take off img @ replicate (2048 * P - off) (0xFF :: u8)"
  have "take off ?xs @ take l (drop off img) @ drop (off + length (take l (drop off img))) ?xs =
      take (off + l) img @ replicate (2048 * P - (off + l)) 0xFF"
    using assms by (simp add: take_add)
  moreover have "put_bytes (put_bytes g FLASH_APP_RUN_ADDR ?xs) (FLASH_APP_RUN_ADDR + of_nat off) (take l (drop off img)) =
      put_bytes g FLASH_APP_RUN_ADDR (take off ?xs @ take l (drop off img) @ drop (off + length (take l (drop off img))) ?xs)"
    using assms by (intro put_bytes_within) simp_all
  ultimately show ?thesis unfolding copied_def by simp
qed

context hal_flash
begin

lemma boot_copy_page_copies:
  assumes img: "length img \<le> 2048 * P" "134258688 + 2048 * P \<le> unat src" "unat src + length img < 2 ^ 31"
      "img = map (\<lambda>k. g (src + of_nat k)) [0..<length img]"
    and main: "\<And>k. k < 2048 * P \<Longrightarrow> main (FLASH_APP_RUN_ADDR + of_nat k)"
    and st: "hw_byte hw (boot_flash v) = copied g img P (2048 * q)" and buf: "length (check_buf v) = 2048"
    and len: "unat len = l" "l \<le> 2048" "2048 * q + l \<le> length img" "2048 * q < length img"
  shows "\<exists>v'. boot_copy_page hw src (of_nat (2048 * q)) len (ctx, v) =
      Some (ctx\<lparr>crc := crc_run (crc ctx) (take l (drop (2048 * q) img))\<rparr>, v') \<and>
    hw_byte hw (boot_flash v') = copied g img P (2048 * q + l) \<and> length (check_buf v') = 2048"
proof -
  let ?R = "FLASH_APP_RUN_ADDR + of_nat (2048 * q)"
  define bs where "bs = take l (drop (2048 * q) img)"
  have bl: "length bs = l" using len(3) by (simp add: bs_def)
  have P: "2048 * P < 2 ^ 31" using img(2,3) by simp
  have qP: "q < P" using len(4) img(1) by linarith
  define v1 where "v1 = v\<lparr>boot_flash := snd (hw_wait hw (boot_flash v))\<rparr>"
  have v1: "hw_byte hw (boot_flash v1) = copied g img P (2048 * q)" "length (check_buf v1) = 2048"
    using st buf by (simp_all add: v1_def wait_byte)
  have src: "flash_bytes hw (boot_flash v1) (src + of_nat (2048 * q)) l = bs"
    unfolding bs_def using img len v1(1) by (intro copied_source) simp_all
  obtain r where r: "boot_read hw (src + of_nat (2048 * q)) len v1 = Some (v1\<lparr>check_buf := bs @ r\<rparr>)"
      "l + length r = 2048"
    using boot_read_some [OF _ v1(2), of len hw "src + of_nat (2048 * q)"] len(2) unfolding len(1) src by blast
  define m where "m = 8 * ((l + 7) div 8)"
  have m: "l \<le> m" "m < l + 8" "m \<le> 2048" "8 dvd m"
  proof -
    show "l \<le> m" "m < l + 8" unfolding m_def by simp_all
    have "(l + 7) div 8 \<le> 256" using len(2) by linarith
    then show "m \<le> 2048" "8 dvd m" by (simp_all add: m_def)
  qed
  have ra: "?R mod 8 = 0"
    using word_mod_8 [of FLASH_APP_RUN_ADDR "2048 * q"] by (simp add: FLASH_APP_RUN_ADDR_def)
  have blank: "hw_byte hw (boot_flash v1) (?R + of_nat k) = 0xFF" if "k < m" for k
  proof -
    let ?xs = "take (2048 * q) img @ replicate (2048 * P - 2048 * q) (0xFF :: u8)"
    have k: "2048 * q + k < 2048 * P" using that m(3) qP by linarith
    then have "?xs ! (2048 * q + k) = 0xFF" "2048 * q + k < length ?xs" using len(4) by (simp_all add: nth_append)
    then have "put_bytes g FLASH_APP_RUN_ADDR ?xs (FLASH_APP_RUN_ADDR + of_nat (2048 * q + k)) = 0xFF"
      using P k by (subst put_bytes_at) simp_all
    then show ?thesis by (simp add: v1(1) copied_def add.assoc)
  qed
  have mn: "main (?R + of_nat k)" if "k < m" for k
    using main [of "2048 * q + k"] that m(3) qP by (simp add: add.assoc)
  have w: "\<exists>f'. Flash_Write_iap hw (boot_flash v1) ?R (bs @ r) len = Some (len, f') \<and>
      hw_byte hw f' = put_bytes (hw_byte hw (boot_flash v1)) ?R (take (unat len) (bs @ r))"
    using ra m mn blank len bl by (intro Flash_Write_iap_stores [where m = m]) (simp_all add: erased_def)
  obtain f' where f': "Flash_Write_iap hw (boot_flash v1) ?R (bs @ r) len = Some (len, f')"
      "hw_byte hw f' = copied g img P (2048 * q + l)"
  proof -
    have "take (unat len) (bs @ r) = bs" using bl len(1) by simp
    then show thesis
      using that w copied_step [OF len(3) img(1) P, of g, folded bs_def] unfolding v1(1) by metis
  qed
  define v2 where "v2 = v1\<lparr>check_buf := bs @ r, boot_flash := f'\<rparr>"
  have readback: "flash_bytes hw f' ?R l = bs"
  proof (rule nth_equalityI)
    fix k assume "k < length (flash_bytes hw f' ?R l)"
    then have k: "k < l" by simp
    let ?xs = "take (2048 * q + l) img @ replicate (2048 * P - (2048 * q + l)) (0xFF :: u8)"
    have "2048 * q + k < 2 ^ 32" "2048 * q + k < length ?xs" using k P img(1) len(3) by simp_all
    then have "put_bytes g FLASH_APP_RUN_ADDR ?xs (FLASH_APP_RUN_ADDR + of_nat (2048 * q + k)) = img ! (2048 * q + k)"
      using k len(3) by (subst put_bytes_at) (simp_all add: nth_append)
    then show "flash_bytes hw f' ?R l ! k = bs ! k"
      using k len(3) by (simp add: flash_bytes_def f'(2) copied_def bs_def add.assoc)
  qed (simp add: bl)
  obtain s where s: "boot_read hw ?R len v2 = Some (v2\<lparr>check_buf := bs @ s\<rparr>)" "l + length s = 2048"
  proof -
    have v2: "boot_flash v2 = f'" "length (check_buf v2) = 2048" using bl r(2) by (simp_all add: v2_def)
    show thesis
      using that boot_read_some [OF _ v2(2), of len hw ?R] len(2) unfolding len(1) v2(1) readback by blast
  qed
  have crc: "CRC32_Update ctx (bs @ s) len = Some (ctx\<lparr>crc := crc_run (crc ctx) bs\<rparr>)"
    by (rule CRC32_Update_run) (simp add: bl len(1))
  have "boot_copy_page hw src (of_nat (2048 * q)) len (ctx, v) =
      Some (ctx\<lparr>crc := crc_run (crc ctx) bs\<rparr>, v2\<lparr>check_buf := bs @ s\<rparr>)"
    using f'(1) s(1) crc
    by (simp add: boot_copy_page_def v1_def [symmetric] r(1) v2_def del: of_nat_mult of_nat_numeral)
  then show ?thesis using f'(2) s(2) bl by (auto simp: v2_def bs_def)
qed

lemma boot_copy_pages_copies:
  assumes img: "length img \<le> 2048 * P" "134258688 + 2048 * P \<le> unat src" "unat src + length img < 2 ^ 31"
      "img = map (\<lambda>k. g (src + of_nat k)) [0..<length img]"
    and main: "\<And>k. k < 2048 * P \<Longrightarrow> main (FLASH_APP_RUN_ADDR + of_nat k)"
    and st: "hw_byte hw (boot_flash v) = copied g img P (2048 * i)" and buf: "length (check_buf v) = 2048"
    and fits: "2048 * (i + n) \<le> length img"
  shows "\<exists>v'. boot_copy_pages hw src i n (ctx, v) =
      Some (ctx\<lparr>crc := crc_run (crc ctx) (take (2048 * n) (drop (2048 * i) img))\<rparr>, v') \<and>
    hw_byte hw (boot_flash v') = copied g img P (2048 * (i + n)) \<and> length (check_buf v') = 2048"
  using st buf fits
proof (induction n arbitrary: i ctx v)
  case 0
  then show ?case by simp
next
  case (Suc n)
  have p: "unat FLASH_PAGE_SIZE = 2048" by (simp add: FLASH_PAGE_SIZE_def)
  have off: "of_nat i * FLASH_PAGE_SIZE = of_nat (2048 * i)" by (simp add: FLASH_PAGE_SIZE_def)
  define bs where "bs = take 2048 (drop (2048 * i) img)"
  obtain v1 where v1: "boot_copy_page hw src (of_nat (2048 * i)) FLASH_PAGE_SIZE (ctx, v) =
      Some (ctx\<lparr>crc := crc_run (crc ctx) bs\<rparr>, v1)"
      "hw_byte hw (boot_flash v1) = copied g img P (2048 * i + 2048)" "length (check_buf v1) = 2048"
    using boot_copy_page_copies [OF img main Suc.prems(1,2) p, of ctx] Suc.prems(3) unfolding bs_def by auto
  have "2048 * i + 2048 = 2048 * Suc i" by simp
  note IH = Suc.IH [OF v1(2) [unfolded this] v1(3), of "ctx\<lparr>crc := crc_run (crc ctx) bs\<rparr>"]
  obtain v' where v': "boot_copy_pages hw src (Suc i) n (ctx\<lparr>crc := crc_run (crc ctx) bs\<rparr>, v1) =
      Some (ctx\<lparr>crc := crc_run (crc_run (crc ctx) bs) (take (2048 * n) (drop (2048 * Suc i) img))\<rparr>, v')"
      "hw_byte hw (boot_flash v') = copied g img P (2048 * (i + Suc n))" "length (check_buf v') = 2048"
    using IH Suc.prems(3) by auto
  have "take (2048 * Suc n) (drop (2048 * i) img) = bs @ take (2048 * n) (drop (2048 * Suc i) img)"
    by (simp add: bs_def take_add add.commute)
  then show ?case using v1(1) v' by (simp add: off del: of_nat_mult)
qed

lemma Flash_Erase_Page_iap_ok:
  assumes "0 < unat n" and "unat n \<le> 106496" and "unat a mod 2048 = 0"
    and P: "P = (unat n + 2047) div 2048" and "unat a + 2048 * P < 2 ^ 31"
    and "\<And>k. k < 2048 * P \<Longrightarrow> main (a + of_nat k)"
  shows "\<exists>f'. Flash_Erase_Page_iap hw f a n = (True, f') \<and> hw_byte hw f' = put_bytes (hw_byte hw f) a (replicate (2048 * P) 0xFF)"
proof -
  have ok: "\<not> (n > OTA_BIN_MAX_SIZE \<or> n = 0)"
    using assms(1,2) by (auto simp: OTA_BIN_MAX_SIZE_def FLASH_PAGE_SIZE_def word_less_nat_alt)
  have pages: "unat ((n + FLASH_PAGE_SIZE - 1) div FLASH_PAGE_SIZE) = P"
  proof -
    have "n + FLASH_PAGE_SIZE - 1 = 2047 + n" by (simp add: FLASH_PAGE_SIZE_def)
    moreover have "unat (2047 + n) = unat n + 2047" using assms(2) by (subst unat_add_noover) simp_all
    ultimately show ?thesis unfolding P by (simp add: FLASH_PAGE_SIZE_def unat_div)
  qed
  have P0: "P \<noteq> 0" unfolding P using assms(1) by simp
  define g1 where "g1 = snd (hw_wait hw (Flash_Unlock_iap hw f))"
  have g1: "ready g1" "hw_byte hw g1 = hw_byte hw f" unfolding g1_def by (rule Flash_Unlock_iap_wait)+
  define g2 where "g2 = snd (hw_wait hw g1)"
  have g2: "ready g2" "hw_byte hw g2 = hw_byte hw f"
    using g1 by (simp_all add: g2_def wait_ready wait_byte)
  have "\<exists>f'. HAL_erase_pages hw g2 a P False = (P \<noteq> 0 \<or> False, f') \<and> ready f' \<and>
      hw_byte hw f' = put_bytes (hw_byte hw g2) a (replicate (2048 * P) 0xFF)"
  proof (rule HAL_erase_pages_erases [OF g2(1) assms(3,5)])
    show "main (a + of_nat (2048 * k))" if "k < P" for k using assms(6) [of "2048 * k"] that by simp
  qed
  then show ?thesis
    using wait_ok [OF g1(1)] g2 P0
    unfolding Flash_Erase_Page_iap_def if_not_P [OF ok]
    by (auto simp: Let_def pages g1_def [symmetric] HAL_FLASHEx_Erase_def g2_def [symmetric] Flash_Lock_byte)
qed

lemma boot_copy_once_copies:
  assumes img: "134258688 + 2048 * P \<le> unat src" "unat src + length img < 2 ^ 31"
      "img = map (\<lambda>k. hw_byte hw (boot_flash v) (src + of_nat k)) [0..<length img]"
    and main: "\<And>k. k < 2048 * P \<Longrightarrow> main (FLASH_APP_RUN_ADDR + of_nat k)"
    and n: "unat n = length img" "0 < unat n" "unat n \<le> 106496" "P = (unat n + 2047) div 2048"
    and buf: "length (check_buf v) = 2048"
  shows "\<exists>v'. boot_copy_once hw src n v = Some (crc32_ref img, v') \<and>
    hw_byte hw (boot_flash v') = copied (hw_byte hw (boot_flash v)) img P (length img)"
proof -
  define g where "g = hw_byte hw (boot_flash v)"
  define q where "q = length img div 2048"
  define l where "l = length img mod 2048"
  have ql: "2048 * q + l = length img" "l < 2048" by (simp_all add: q_def l_def)
  have nP: "length img \<le> 2048 * P" using n by linarith
  define v1 where "v1 = v\<lparr>boot_flash := snd (Flash_Erase_Page_iap hw (boot_flash v) FLASH_APP_RUN_ADDR n)\<rparr>"
  have R: "unat FLASH_APP_RUN_ADDR = 134258688" by (simp add: FLASH_APP_RUN_ADDR_def)
  have "hw_byte hw (boot_flash v1) = put_bytes g FLASH_APP_RUN_ADDR (replicate (2048 * P) 0xFF)"
    using Flash_Erase_Page_iap_ok [OF n(2,3) _ n(4) _ main, of "boot_flash v"] img(1,2) n(1) R
    by (auto simp: v1_def g_def)
  then have v1: "hw_byte hw (boot_flash v1) = copied g img P (2048 * 0)" "length (check_buf v1) = 2048"
    using buf by (simp_all add: copied_def v1_def)
  define ctx where "ctx = CRC32_Init \<lparr>crc = 0\<rparr>"
  have c: "crc ctx = 0xFFFFFFFF" by (simp add: ctx_def CRC32_Init_def)
  note img' = nP img(1,2) img(3) [folded g_def]
  obtain v2 where v2: "boot_copy_pages hw src 0 q (ctx, v1) =
      Some (ctx\<lparr>crc := crc_run (crc ctx) (take (2048 * q) img)\<rparr>, v2)"
      "hw_byte hw (boot_flash v2) = copied g img P (2048 * q)" "length (check_buf v2) = 2048"
    using boot_copy_pages_copies [OF img' main v1, of q ctx] ql by auto
  have start: "boot_copy_once hw src n v = do {
      (ctx, v) \<leftarrow> (if n mod FLASH_PAGE_SIZE \<noteq> 0
        then boot_copy_page hw src (of_nat (2048 * q)) (n mod FLASH_PAGE_SIZE)
          (ctx\<lparr>crc := crc_run (crc ctx) (take (2048 * q) img)\<rparr>, v2)
        else Some (ctx\<lparr>crc := crc_run (crc ctx) (take (2048 * q) img)\<rparr>, v2));
      Some (fst (CRC32_Final ctx), v)
    }"
    unfolding boot_copy_once_def Let_def page_split n(1) q_def [symmetric] ctx_def [symmetric] v1_def [symmetric] v2(1)
    by simp
  have ll: "unat (n mod FLASH_PAGE_SIZE) = l" by (simp add: page_split l_def n(1))
  show ?thesis
  proof (cases "n mod FLASH_PAGE_SIZE = 0")
    case True
    then have "l = 0" using ll by simp
    then show ?thesis
      using start True v2(2) ql(1) crc_run_ref [where ctx = ctx and bs = img] by (simp add: c g_def)
  next
    case False
    then have "0 < l" using ll by (simp add: unat_gt_0 [symmetric])
    then obtain v3 where v3: "boot_copy_page hw src (of_nat (2048 * q)) (n mod FLASH_PAGE_SIZE)
          (ctx\<lparr>crc := crc_run (crc ctx) (take (2048 * q) img)\<rparr>, v2) =
        Some (ctx\<lparr>crc := crc_run (crc_run (crc ctx) (take (2048 * q) img)) (take l (drop (2048 * q) img))\<rparr>, v3)"
        "hw_byte hw (boot_flash v3) = copied g img P (2048 * q + l)"
      using boot_copy_page_copies [OF img' main v2(2,3) ll, of "ctx\<lparr>crc := crc_run (crc ctx) (take (2048 * q) img)\<rparr>"] ql
      by auto
    have "take (2048 * q) img @ take l (drop (2048 * q) img) = img"
      using ql by (simp flip: take_add)
    then have "crc_run (crc_run (crc ctx) (take (2048 * q) img)) (take l (drop (2048 * q) img)) = crc_run (crc ctx) img"
      by (metis foldl_append)
    then show ?thesis
      using start False v3 ql(1) crc_run_ref [where ctx = ctx and bs = img]
      by (simp add: c g_def del: of_nat_mult)
  qed
qed

lemma copied_factory:
  assumes "hw_byte hw f' = copied (hw_byte hw f) img P (length img)" and "length img \<le> 2048 * P" and "P \<le> 52"
  shows "factory hw f' = factory hw f"
  unfolding factory_def
proof (rule flash_bytes_cong)
  fix k :: nat assume "k < 32"
  then have "unat (FLASH_SIZE_ADDR + of_nat k) = 536868832 + k"
    by (simp add: FLASH_SIZE_ADDR_def unat_word_ariths unat_of_nat_u32)
  then show "hw_byte hw f' (FLASH_SIZE_ADDR + of_nat k) = hw_byte hw f (FLASH_SIZE_ADDR + of_nat k)"
    unfolding assms(1) using assms(2,3) by (intro copied_outside) simp_all
qed

text \<open>The area the flag page lies behind.\<close>

lemma flag_page_behind:
  assumes "flash_layout hw main f" and "unat x < unat (flash_page_from_end hw f FLASH_APP_COPY_ADDR)"
  shows "put_bytes g (flash_page_from_end hw f FLASH_IAP_FLAG_ADDR) (replicate 2048 0xFF) x = g x"
proof -
  have "unat (flash_page_from_end hw f FLASH_APP_COPY_ADDR) \<le> unat (flash_page_from_end hw f FLASH_IAP_FLAG_ADDR)"
    using flash_page_address [OF assms(1), of FLASH_APP_COPY_ADDR] flash_page_address [OF assms(1), of FLASH_IAP_FLAG_ADDR]
    by (simp add: FLASH_APP_COPY_ADDR_def FLASH_IAP_FLAG_ADDR_def)
  then show ?thesis
    using put_bytes_outside [OF flag_page [OF assms(1)], of 0 "replicate 2048 0xFF" x g] assms(2) by simp
qed

lemma boot_update_installs:
  assumes layout: "flash_layout hw main (boot_flash v)"
    and h: "h = boot_header_of (flash_bytes hw (boot_flash v) (flash_page_from_end hw (boot_flash v) FLASH_APP_INFO_ADDR) 24)"
    and plain: "CompressFlag h \<noteq> 1" and n: "UpdatesTotalSize h = n" "0 < unat n" "unat n \<le> 106496"
    and src: "src = flash_page_from_end hw (boot_flash v) FLASH_APP_COPY_ADDR"
    and P: "P = (unat n + 2047) div 2048" "134258688 + 2048 * P \<le> unat src"
    and img: "img = flash_bytes hw (boot_flash v) src (unat n)" and sum: "UpdatesCRC32 h = crc32_ref img"
    and buf: "length (check_buf v) = 2048"
  shows "\<exists>v'. boot_update hw unz v = Some (Boot_reset, v') \<and> ReadIAPMode hw (boot_flash v') = OTA_RUN_APP \<and>
    hw_byte hw (boot_flash v') = put_bytes (copied (hw_byte hw (boot_flash v)) img P (unat n))
      (flash_page_from_end hw (boot_flash v) FLASH_IAP_FLAG_ADDR) (replicate 2048 0xFF)"
proof -
  let ?g = "hw_byte hw (boot_flash v)"
  have small: "\<not> n > OTA_BIN_MAX_SIZE"
    using n(3) by (simp add: OTA_BIN_MAX_SIZE_def FLASH_PAGE_SIZE_def word_less_nat_alt)
  have len: "length img = unat n" by (simp add: img)
  obtain b where b: "length b = 2048" "boot_crc hw src n v = Some (crc32_ref img, v\<lparr>check_buf := b\<rparr>)"
    using boot_crc_ref [OF buf, of hw src n] unfolding img by blast
  define v1 where "v1 = v\<lparr>check_buf := b, boot_flash := Flash_Unlock_iap hw (boot_flash v)\<rparr>"
  have g1: "hw_byte hw (boot_flash v1) = ?g"
    by (simp add: v1_def Flash_Unlock_iap_def unlock_byte clear_byte)
  have s: "unat src = 134217728 + 1024 * unat (Get_FlashSize hw (boot_flash v)) - 116736"
    unfolding src using flash_page_address [OF layout, of FLASH_APP_COPY_ADDR] by (simp add: FLASH_APP_COPY_ADDR_def)
  have S: "unat (Get_FlashSize hw (boot_flash v)) < 65536" by (rule unat_less_u16)
  have mn: "main (FLASH_APP_RUN_ADDR + of_nat k)" if "k < 2048 * P" for k
  proof -
    have "unat (FLASH_APP_RUN_ADDR + of_nat k) = 134258688 + k"
      using that P(2) s S by (subst unat_add_noover) (simp_all add: FLASH_APP_RUN_ADDR_def unat_of_nat_u32)
    then show ?thesis using layout that P(2) s by (auto simp: flash_layout_def)
  qed
  have "\<exists>v'. boot_copy_once hw src n v1 = Some (crc32_ref img, v') \<and>
      hw_byte hw (boot_flash v') = copied (hw_byte hw (boot_flash v1)) img P (length img)"
    using P n mn s S b(1) by (intro boot_copy_once_copies) (simp_all add: g1 len, simp_all add: img flash_bytes_def v1_def)
  then obtain v2 where v2: "boot_copy_once hw src n v1 = Some (crc32_ref img, v2)"
      "hw_byte hw (boot_flash v2) = copied ?g img P (length img)"
    unfolding g1 by blast
  define v3 where "v3 = v2\<lparr>boot_flash := Flash_Lock hw (boot_flash v2)\<rparr>"
  have v3: "hw_byte hw (boot_flash v3) = copied ?g img P (length img)" by (simp add: v3_def Flash_Lock_byte v2(2))
  have fac: "factory hw (boot_flash v3) = factory hw (boot_flash v)"
  proof (rule copied_factory [OF v3])
    show "length img \<le> 2048 * P" "P \<le> 52" unfolding len using P(1) n(3) by linarith+
  qed
  have l3: "flash_layout hw main (boot_flash v3)" using layout factory_same(4) [OF fac] by simp
  note flag = RunAppMode_iap_erases [OF l3, unfolded factory_same(3) [OF fac] v3 len]
  have "boot_copy hw src h 3 v1 = Some (boot_done hw v2)"
    using v2(1) sum by (simp add: numeral_3_eq_3 n(1))
  then have "boot_update hw unz v = Some (Boot_reset, RunAppMode_iap hw v3)"
    using small b(2) sum plain
    by (simp add: boot_update_def Let_def h [symmetric] src [symmetric] n(1) boot_done_def v1_def [symmetric] v3_def)
  then show ?thesis using flag(1,3) by blast
qed

text \<open>What the bootloader does when the announced image is too large or its checksum is wrong.\<close>

lemma boot_update_rejects:
  assumes layout: "flash_layout hw main (boot_flash v)"
    and h: "h = boot_header_of (flash_bytes hw (boot_flash v) (flash_page_from_end hw (boot_flash v) FLASH_APP_INFO_ADDR) 24)"
    and src: "src = flash_page_from_end hw (boot_flash v) FLASH_APP_COPY_ADDR"
    and bad: "UpdatesTotalSize h > OTA_BIN_MAX_SIZE \<or>
      UpdatesCRC32 h \<noteq> crc32_ref (flash_bytes hw (boot_flash v) src (unat (UpdatesTotalSize h)))"
    and buf: "length (check_buf v) = 2048"
  shows "\<exists>v'. boot_update hw unz v = boot_run hw v' \<and> ReadIAPMode hw (boot_flash v') = OTA_RUN_APP \<and>
    hw_byte hw (boot_flash v') = put_bytes (hw_byte hw (boot_flash v))
      (flash_page_from_end hw (boot_flash v) FLASH_IAP_FLAG_ADDR) (replicate 2048 0xFF)"
proof -
  have "\<exists>b. boot_update hw unz v = boot_run hw (RunAppMode_iap hw (v\<lparr>check_buf := b\<rparr>))"
  proof (cases "UpdatesTotalSize h > OTA_BIN_MAX_SIZE")
    case True
    then have "boot_update hw unz v = boot_run hw (RunAppMode_iap hw (v\<lparr>check_buf := check_buf v\<rparr>))"
      by (simp add: boot_update_def Let_def h [symmetric])
    then show ?thesis by blast
  next
    case False
    obtain b where "boot_crc hw src (UpdatesTotalSize h) v =
        Some (crc32_ref (flash_bytes hw (boot_flash v) src (unat (UpdatesTotalSize h))), v\<lparr>check_buf := b\<rparr>)"
      using boot_crc_ref [OF buf, of hw src "UpdatesTotalSize h"] by blast
    then show ?thesis using False bad
      by (auto simp: boot_update_def Let_def h [symmetric] src [symmetric])
  qed
  then obtain b where b: "boot_update hw unz v = boot_run hw (RunAppMode_iap hw (v\<lparr>check_buf := b\<rparr>))" ..
  have "flash_layout hw main (boot_flash (v\<lparr>check_buf := b\<rparr>))" using layout by simp
  note flag = RunAppMode_iap_erases [OF this]
  show ?thesis using b flag(1,3) by auto
qed

text \<open>The application that was there is started: its vector table is not in the flag page.\<close>

lemma boot_run_jumps:
  assumes "flash_layout hw main f" and "134258688 + 8 \<le> unat (flash_page_from_end hw f FLASH_APP_COPY_ADDR)"
    and "hw_byte hw (boot_flash v') = put_bytes (hw_byte hw f) (flash_page_from_end hw f FLASH_IAP_FLAG_ADDR) (replicate 2048 0xFF)"
    and "sp = flash_word hw f FLASH_APP_RUN_ADDR" and "sp AND 0x2FFE0000 = 0x20000000"
  shows "boot_run hw v' = Some (Boot_jump sp (flash_word hw f (FLASH_APP_RUN_ADDR + 4)), v')"
proof -
  have u: "unat (FLASH_APP_RUN_ADDR + of_nat j) = 134258688 + j" if "j < 8" for j
    using that by (subst unat_add_noover) (simp_all add: FLASH_APP_RUN_ADDR_def unat_of_nat_u32)
  have same: "hw_byte hw (boot_flash v') (FLASH_APP_RUN_ADDR + of_nat j) = hw_byte hw f (FLASH_APP_RUN_ADDR + of_nat j)"
    if "j < 8" for j
    unfolding assms(3) using that u [OF that] assms(2) by (intro flag_page_behind [OF assms(1)]) simp
  have "flash_bytes hw (boot_flash v') FLASH_APP_RUN_ADDR 4 = flash_bytes hw f FLASH_APP_RUN_ADDR 4"
    using same by (intro flash_bytes_cong) simp
  moreover have "flash_bytes hw (boot_flash v') (FLASH_APP_RUN_ADDR + 4) 4 = flash_bytes hw f (FLASH_APP_RUN_ADDR + 4) 4"
  proof (rule flash_bytes_cong)
    fix k :: nat assume "k < 4"
    then show "hw_byte hw (boot_flash v') (FLASH_APP_RUN_ADDR + 4 + of_nat k) = hw_byte hw f (FLASH_APP_RUN_ADDR + 4 + of_nat k)"
      using same [of "4 + k"] by (simp add: add.assoc)
  qed
  ultimately show ?thesis using assms(4,5) by (simp add: boot_run_def Let_def flash_word_def)
qed

end

section \<open>The STM32F1 flash under the vendor routines\<close>

interpretation stm32_hal: hal_flash stm32_hw stm32_ready stm32_main
  by unfold_locales (simp add: stm32_hw_def stm32_ready_def stm32_status_def)

section \<open>Properties\<close>

text \<open>C3: the bootloader installs a downloaded image. On a flash that behaves as the manual says, with
  the update flag set, an uncompressed image of at most 52 pages whose checksum is the one of its
  header, and the run area below the download area, main copies it on the first attempt and
  resets: the run area holds the image byte by byte, padded with erased cells up to the page, the
  update flag reads "run", and no other cell of the flash has changed.\<close>

theorem boot_installs_image:
  assumes "hal_flash hw ready main" and "flash_layout hw main (boot_flash v)"
    and "ReadIAPMode hw (boot_flash v) = OTA_Update_APP"
    and "h = boot_header_of (flash_bytes hw (boot_flash v) (flash_page_from_end hw (boot_flash v) FLASH_APP_INFO_ADDR) 24)"
    and "CompressFlag h \<noteq> 1" and "UpdatesTotalSize h = n" and "0 < unat n" and "unat n \<le> 106496"
    and "src = flash_page_from_end hw (boot_flash v) FLASH_APP_COPY_ADDR"
    and "P = (unat n + 2047) div 2048" and "unat FLASH_APP_RUN_ADDR + 2048 * P \<le> unat src"
    and "img = flash_bytes hw (boot_flash v) src (unat n)" and "UpdatesCRC32 h = crc32_ref img"
    and "length (check_buf v) = 2048"
  shows "\<exists>v'. boot_main hw unz v = Some (Boot_reset, v') \<and> ReadIAPMode hw (boot_flash v') = OTA_RUN_APP \<and>
    hw_byte hw (boot_flash v') =
      put_bytes (put_bytes (hw_byte hw (boot_flash v)) FLASH_APP_RUN_ADDR (img @ replicate (2048 * P - unat n) 0xFF))
        (flash_page_from_end hw (boot_flash v) FLASH_IAP_FLAG_ADDR) (replicate 2048 0xFF)"
proof -
  have "134258688 + 2048 * P \<le> unat src" using assms(11) by (simp add: FLASH_APP_RUN_ADDR_def)
  then show ?thesis
    using hal_flash.boot_update_installs [OF assms(1), of "v\<lparr>boot_IAP_FLAG := OTA_Update_APP\<rparr>" h n src P img unz] assms(2-14)
    by (simp add: boot_main_def Let_def copied_def OTA_Update_APP_def OTA_RUN_APP_def)
qed

definition boot_sample :: "u8 list \<Rightarrow> stm32f1 boot_vars" where
  "boot_sample hdr = \<lparr>boot_flash = blank_flash\<lparr>cells :=
     put_bytes (put_bytes (put_bytes (put_bytes (cells blank_flash)
       0x0803F800 [0x78, 0x56, 0xFF, 0xFF, 0x78, 0x56, 0xFF, 0xFF])
       0x0803E000 hdr)
       0x08023800 [0x31, 0x32, 0x33, 0x34, 0x35, 0x36, 0x37, 0x38, 0x39])
       0x0800A000 [0x00, 0x10, 0x00, 0x20, 0x01, 0xA1, 0x00, 0x08]\<rparr>,
     boot_IAP_FLAG = 0, boot_param = iap_defaults [1, 2, 3, 4, 5, 6], check_buf = replicate 2048 0\<rparr>"

definition boot_sample_header :: "u8 \<Rightarrow> u8 list" where
  "boot_sample_header x = [0, 0, 9, 0, 0, 0, 8, 0, x, 0x39, 0xF4, 0xCB, 0, 0, 0, 0, 0, 0, 0, 0, 0, 0, 0, 0]"

lemma boot_sample_bytes:
  assumes "hdr = boot_sample_header x"
  defines "f \<equiv> boot_flash (boot_sample hdr)"
  shows "Get_FlashSize stm32_hw f = 256" and "flash_layout stm32_hw stm32_main f"
    and "flash_page_from_end stm32_hw f FLASH_APP_COPY_ADDR = 0x08023800"
    and "flash_page_from_end stm32_hw f FLASH_APP_INFO_ADDR = 0x0803E000"
    and "flash_page_from_end stm32_hw f FLASH_IAP_FLAG_ADDR = 0x0803F800"
    and "ReadIAPMode stm32_hw f = OTA_Update_APP"
    and "flash_bytes stm32_hw f 0x0803E000 24 = hdr"
    and "flash_bytes stm32_hw f 0x08023800 9 = [0x31, 0x32, 0x33, 0x34, 0x35, 0x36, 0x37, 0x38, 0x39]"
    and "flash_bytes stm32_hw f 0x0800A000 8 = [0x00, 0x10, 0x00, 0x20, 0x01, 0xA1, 0x00, 0x08]"
proof -
  have c: "hw_byte stm32_hw f' = cells f'" for f' by (simp add: stm32_hw_def)
  have hl: "length hdr = 24" by (simp add: assms(1) boot_sample_header_def)
  have "flash_bytes stm32_hw f FLASH_SIZE_ADDR 2 = [0, 1]"
    by (simp add: flash_bytes_def c f_def boot_sample_def put_bytes_def hl blank_flash_def FLASH_SIZE_ADDR_def upt_rec)
  then show s: "Get_FlashSize stm32_hw f = 256" by (simp add: Get_FlashSize_def)
  show "flash_layout stm32_hw stm32_main f"
    by (simp add: flash_layout_def s stm32_main_def word_le_nat_alt word_less_nat_alt)
  note a = flash_page_from_end_def s FLASH_START_ADDR_def FLASH_PAGE_SIZE_def
  show "flash_page_from_end stm32_hw f FLASH_APP_COPY_ADDR = 0x08023800"
    "flash_page_from_end stm32_hw f FLASH_APP_INFO_ADDR = 0x0803E000"
    by (simp_all add: a FLASH_APP_COPY_ADDR_def FLASH_APP_INFO_ADDR_def)
  show p: "flash_page_from_end stm32_hw f FLASH_IAP_FLAG_ADDR = 0x0803F800"
    by (simp add: a FLASH_IAP_FLAG_ADDR_def)
  have "flash_bytes stm32_hw f 0x0803F800 8 = [0x78, 0x56, 0xFF, 0xFF, 0x78, 0x56, 0xFF, 0xFF]"
    by (simp add: flash_bytes_def c f_def boot_sample_def put_bytes_def hl upt_rec)
  then show "ReadIAPMode stm32_hw f = OTA_Update_APP"
    by (simp add: ReadIAPMode_def flash_dword_def p OTA_Update_APP_def)
  show "flash_bytes stm32_hw f 0x0803E000 24 = hdr"
    by (simp add: flash_bytes_def c f_def boot_sample_def put_bytes_def hl upt_rec)
       (simp add: assms(1) boot_sample_header_def)
  show "flash_bytes stm32_hw f 0x08023800 9 = [0x31, 0x32, 0x33, 0x34, 0x35, 0x36, 0x37, 0x38, 0x39]"
    "flash_bytes stm32_hw f 0x0800A000 8 = [0x00, 0x10, 0x00, 0x20, 0x01, 0xA1, 0x00, 0x08]"
    by (simp_all add: flash_bytes_def c f_def boot_sample_def put_bytes_def hl upt_rec)
qed

lemma boot_sample_fields:
  "boot_header_of (boot_sample_header x) = \<lparr>CompressFlag = 0, UpdatesTotalSize = 9, UpdatesSubSize = 8,
     UpdatesCRC32 = 0xCBF43900 + ucast x, ComPackOriginalSize = 0, ComPackNo = 0, PerComPackOriginalSize = 0,
     ComPackOriginalCRC32 = 0\<rparr>"
  by (simp add: boot_header_of_def boot_sample_header_def le_field_def)

lemma boot_sample_crc: "crc32_ref [0x31, 0x32, 0x33, 0x34, 0x35, 0x36, 0x37, 0x38, 0x39] = 0xCBF43926"
  by (simp add: crc32_ref_def crc_byte_def crc_bits_8 crc_bit_numeral)

theorem boot_installs_image_witness:
  "\<exists>v'. boot_main stm32_hw (\<lambda>_ _. ([], 0)) (boot_sample (boot_sample_header 0x26)) = Some (Boot_reset, v') \<and>
     hw_byte stm32_hw (boot_flash v') 0x0800A008 = 0x39"
proof -
  let ?v = "boot_sample (boot_sample_header 0x26)"
  let ?img = "[0x31, 0x32, 0x33, 0x34, 0x35, 0x36, 0x37, 0x38, 0x39] :: u8 list"
  note s = boot_sample_bytes [OF refl, of "0x26"]
  have "\<exists>v'. boot_main stm32_hw (\<lambda>_ _. ([], 0)) ?v = Some (Boot_reset, v') \<and>
      ReadIAPMode stm32_hw (boot_flash v') = OTA_RUN_APP \<and>
      hw_byte stm32_hw (boot_flash v') =
        put_bytes (put_bytes (hw_byte stm32_hw (boot_flash ?v)) FLASH_APP_RUN_ADDR (?img @ replicate (2048 * 1 - unat (9 :: u32)) 0xFF))
          (flash_page_from_end stm32_hw (boot_flash ?v) FLASH_IAP_FLAG_ADDR) (replicate 2048 0xFF)"
    using s(2,6,8)
    by (intro boot_installs_image [OF stm32_hal.hal_flash_axioms, where h = "boot_header_of (boot_sample_header 0x26)"
          and src = "0x08023800" and n = 9])
       (simp_all add: s(3-5,7) boot_sample_fields boot_sample_crc, simp_all add: FLASH_APP_RUN_ADDR_def boot_sample_def)
  then show ?thesis unfolding s(5) by (auto simp: put_bytes_def FLASH_APP_RUN_ADDR_def)
qed

text \<open>C7: a corrupt download never costs the old application. When the header announces more than 52
  pages, or the checksum of the download area is not the announced one, the bootloader only clears
  the update flag and starts the application that was there: every cell outside the flag page,
  so also the run area, is as it was.\<close>

theorem boot_keeps_old_application:
  assumes "hal_flash hw ready main" and "flash_layout hw main (boot_flash v)"
    and "ReadIAPMode hw (boot_flash v) = OTA_Update_APP"
    and "h = boot_header_of (flash_bytes hw (boot_flash v) (flash_page_from_end hw (boot_flash v) FLASH_APP_INFO_ADDR) 24)"
    and "src = flash_page_from_end hw (boot_flash v) FLASH_APP_COPY_ADDR" and "unat FLASH_APP_RUN_ADDR + 8 \<le> unat src"
    and "UpdatesTotalSize h > OTA_BIN_MAX_SIZE \<or>
      UpdatesCRC32 h \<noteq> crc32_ref (flash_bytes hw (boot_flash v) src (unat (UpdatesTotalSize h)))"
    and "length (check_buf v) = 2048"
    and "sp = flash_word hw (boot_flash v) FLASH_APP_RUN_ADDR" and "sp AND 0x2FFE0000 = 0x20000000"
  shows "\<exists>v'. boot_main hw unz v = Some (Boot_jump sp (flash_word hw (boot_flash v) (FLASH_APP_RUN_ADDR + 4)), v') \<and>
    ReadIAPMode hw (boot_flash v') = OTA_RUN_APP \<and>
    hw_byte hw (boot_flash v') = put_bytes (hw_byte hw (boot_flash v))
      (flash_page_from_end hw (boot_flash v) FLASH_IAP_FLAG_ADDR) (replicate 2048 0xFF)"
proof -
  let ?v = "v\<lparr>boot_IAP_FLAG := OTA_Update_APP\<rparr>"
  obtain v' where v': "boot_update hw unz ?v = boot_run hw v'" "ReadIAPMode hw (boot_flash v') = OTA_RUN_APP"
      "hw_byte hw (boot_flash v') = put_bytes (hw_byte hw (boot_flash v))
        (flash_page_from_end hw (boot_flash v) FLASH_IAP_FLAG_ADDR) (replicate 2048 0xFF)"
    using hal_flash.boot_update_rejects [OF assms(1), of ?v h src unz] assms(2,4,5,7,8) by auto
  have "134258688 + 8 \<le> unat (flash_page_from_end hw (boot_flash v) FLASH_APP_COPY_ADDR)"
    using assms(5,6) by (simp add: FLASH_APP_RUN_ADDR_def)
  from hal_flash.boot_run_jumps [OF assms(1,2) this v'(3) assms(9,10)]
  have "boot_main hw unz v = Some (Boot_jump sp (flash_word hw (boot_flash v) (FLASH_APP_RUN_ADDR + 4)), v')"
    using v'(1) assms(3) by (simp add: boot_main_def Let_def OTA_Update_APP_def OTA_RUN_APP_def)
  then show ?thesis using v'(2,3) by blast
qed

theorem boot_keeps_old_application_witness:
  "\<exists>v'. boot_main stm32_hw (\<lambda>_ _. ([], 0)) (boot_sample (boot_sample_header 0)) =
     Some (Boot_jump 0x20001000 0x0800A101, v')"
proof -
  let ?v = "boot_sample (boot_sample_header 0)"
  note s = boot_sample_bytes [OF refl, of 0]
  have "flash_bytes stm32_hw (boot_flash ?v) 0x0800A000 (4 + 4) = [0x00, 0x10, 0x00, 0x20, 0x01, 0xA1, 0x00, 0x08]"
    using s(9) by simp
  then have w: "flash_bytes stm32_hw (boot_flash ?v) 0x0800A000 4 = [0x00, 0x10, 0x00, 0x20]"
    "flash_bytes stm32_hw (boot_flash ?v) 0x0800A004 4 = [0x01, 0xA1, 0x00, 0x08]"
    unfolding flash_bytes_append by (auto simp: append_eq_Cons_conv flash_bytes_def upt_rec)
  have sp: "flash_word stm32_hw (boot_flash ?v) FLASH_APP_RUN_ADDR = 0x20001000"
    "flash_word stm32_hw (boot_flash ?v) (FLASH_APP_RUN_ADDR + 4) = 0x0800A101"
    using w by (simp_all add: flash_word_def FLASH_APP_RUN_ADDR_def)
  have "\<exists>v'. boot_main stm32_hw (\<lambda>_ _. ([], 0)) ?v =
      Some (Boot_jump 0x20001000 (flash_word stm32_hw (boot_flash ?v) (FLASH_APP_RUN_ADDR + 4)), v') \<and>
      ReadIAPMode stm32_hw (boot_flash v') = OTA_RUN_APP \<and>
      hw_byte stm32_hw (boot_flash v') = put_bytes (hw_byte stm32_hw (boot_flash ?v))
        (flash_page_from_end stm32_hw (boot_flash ?v) FLASH_IAP_FLAG_ADDR) (replicate 2048 0xFF)"
    using s(2,6) sp(1)
    by (intro boot_keeps_old_application [OF stm32_hal.hal_flash_axioms, where h = "boot_header_of (boot_sample_header 0)"
          and src = "0x08023800"])
       (simp_all add: s(3-5,7,8) boot_sample_fields boot_sample_crc, simp_all add: FLASH_APP_RUN_ADDR_def boot_sample_def)
  then show ?thesis unfolding sp(2) by blast
qed

end
