(* ===== verification/Update_Path.thy ===== *)
theory Update_Path
  imports Can_Protocol Boot_Main
begin

text \<open>
  The path of a firmware update through both programs: the application stores the image
  information and the update flag, the bootloader reads them after the reset. The two projects
  declare the information structure differently (drivers/iap_if.h of the application begins with
  a version field, Projects/Inc/iap_if.h of the bootloader does not).
\<close>

text \<open>The structure as the application fills it: the version, the compression flag, the size, and 18
  more bytes; \<open>pad\<close> are the two stack bytes that the seven words take in addition.\<close>

definition app_header :: "u16 \<Rightarrow> u16 \<Rightarrow> u32 \<Rightarrow> u8 list \<Rightarrow> u8 list" where
  "app_header ver cf total_size rest = half ver @ half cf @ le_enc 4 (unat total_size) @ rest"

text \<open>The size the bootloader reads from it: the compression flag and the low half of the size.\<close>

lemma boot_reads_app_header:
  assumes "length rest = 20"
  shows "unat (UpdatesTotalSize (boot_header_of (take 24 (app_header ver cf total_size rest)))) =
    unat cf + 65536 * (unat total_size mod 65536)"
proof -
  have "le_enc 4 (unat total_size) = le_enc (2 + 2) (unat total_size)" by simp
  also have "\<dots> = le_enc 2 (unat total_size) @ le_enc 2 (unat total_size div 65536)"
    unfolding le_enc_append by simp
  finally have e: "take 4 (drop 2 (take 24 (app_header ver cf total_size rest))) = half cf @ le_enc 2 (unat total_size)"
    using assms by (simp add: app_header_def)
  have "le_dec (half cf @ le_enc 2 (unat total_size)) = unat cf + 65536 * (unat total_size mod 65536)"
    using unat_less_u16 [of cf] by (simp add: le_dec_append half_le_enc le_dec_enc)
  moreover have "unat cf + 65536 * (unat total_size mod 65536) < 4294967296"
    using unat_less_u16 [of cf] mod_less_divisor [of 65536 "unat total_size"] by simp
  ultimately show ?thesis
    unfolding boot_header_of_def le_field_def boot_header.simps e by (simp only: unat_of_nat_u32 mod_less)
qed

context flash_device
begin

text \<open>Seven words stored in an erased information page.\<close>

lemma Flash_Storage_Header_loop_stores:
  assumes "ready f" and "addr mod 4 = 0" and "4 * (i + n) \<le> length d" and "4 * (i + n) < 2 ^ 31"
    and "\<And>k. k < 4 * (i + n) \<Longrightarrow> main (addr + of_nat k)"
    and "\<And>k. 4 * i \<le> k \<Longrightarrow> k < 4 * (i + n) \<Longrightarrow> hw_byte hw f (addr + of_nat k) = 0xFF"
  shows "\<exists>f'. Flash_Storage_Header_loop hw f addr d i n = Some (True, f') \<and>
    hw_byte hw f' = put_bytes (hw_byte hw f) (addr + of_nat (4 * i)) (take (4 * n) (drop (4 * i) d))"
  using assms
proof (induction n arbitrary: f i)
  case 0
  then show ?case by simp
next
  case (Suc n)
  let ?a = "addr + of_nat (4 * i)"
  define bs where "bs = take 4 (drop (4 * i) d)"
  have len: "length bs = 4" using Suc.prems(3) by (simp add: bs_def)
  define w :: u32 where "w = of_nat (le_dec bs)"
  have word: "ld 4 d (4 * i) = Some w" using Suc.prems(3) by (simp add: ld_Some w_def bs_def)
  have enc: "le_enc 4 (unat w) = bs"
  proof -
    have "le_dec bs < 4294967296" using le_dec_less [of bs] len by simp
    then have "unat w = le_dec bs" by (simp add: w_def unat_of_nat_u32)
    then show ?thesis using le_enc_dec [of bs] len by simp
  qed
  define f1 where "f1 = snd (hw_wait hw f)"
  have f1: "ready f1" "hw_byte hw f1 = hw_byte hw f"
    using Suc.prems(1) by (simp_all add: f1_def wait_ready wait_byte)
  have er: "erased hw f1 ?a 4"
    unfolding erased_def
  proof (intro allI impI)
    fix k :: nat assume "k < 4"
    then show "hw_byte hw f1 (?a + of_nat k) = 0xFF"
      using Suc.prems(6) [of "4 * i + k"] by (simp add: f1 ac_simps)
  qed
  have mn: "main ?a" "main (?a + 2)"
    using Suc.prems(5) [of "4 * i"] Suc.prems(5) [of "4 * i + 2"] by (simp_all add: ac_simps)
  obtain f2 where f2: "hw_word hw f1 ?a w = (FLASH_COMPLETE, f2)" "ready f2"
      "hw_byte hw f2 = put_bytes (hw_byte hw f) ?a bs"
    using program_word [OF f1(1) word_even [OF Suc.prems(2), of "4 * i"] mn er, of w] by (auto simp: enc f1)
  have a2: "addr + of_nat (4 * Suc i) = ?a + of_nat (length bs)" by (simp add: len)
  have "\<exists>f'. Flash_Storage_Header_loop hw f2 addr d (Suc i) n = Some (True, f') \<and>
    hw_byte hw f' = put_bytes (hw_byte hw f2) (addr + of_nat (4 * Suc i)) (take (4 * n) (drop (4 * Suc i) d))"
  proof (rule Suc.IH)
    fix k assume k: "4 * Suc i \<le> k" "k < 4 * (Suc i + n)"
    have "hw_byte hw f2 (?a + of_nat (k - 4 * i)) = hw_byte hw f (?a + of_nat (k - 4 * i))"
      using k Suc.prems(4) len unfolding f2(3) by (subst put_bytes_at) auto
    moreover have "?a + of_nat (k - 4 * i) = addr + of_nat k"
      using k by (simp add: of_nat_diff del: of_nat_mult)
    ultimately show "hw_byte hw f2 (addr + of_nat k) = 0xFF" using Suc.prems(6) [of k] k by simp
  qed (use f2(2) Suc.prems in auto)
  then obtain f' where f': "Flash_Storage_Header_loop hw f2 addr d (Suc i) n = Some (True, f')"
      "hw_byte hw f' = put_bytes (hw_byte hw f2) (addr + of_nat (4 * Suc i)) (take (4 * n) (drop (4 * Suc i) d))"
    by blast
  have "hw_byte hw f' = put_bytes (hw_byte hw f) ?a (bs @ take (4 * n) (drop (4 * Suc i) d))"
  proof (cases "n = 0")
    case True
    then show ?thesis using f'(2) f2(3) by simp
  next
    case False
    have "length bs + length (take (4 * n) (drop (4 * Suc i) d)) \<le> 2 ^ 32" using len Suc.prems(4) by simp
    moreover have "take (4 * n) (drop (4 * Suc i) d) \<noteq> []" using False Suc.prems(3) by auto
    ultimately show ?thesis unfolding f'(2) f2(3) a2 by (intro put_bytes_append)
  qed
  also have "bs @ take (4 * n) (drop (4 * Suc i) d) = take (4 * Suc n) (drop (4 * i) d)"
    by (simp add: bs_def take_add add.commute)
  finally have "hw_byte hw f' = put_bytes (hw_byte hw f) ?a (take (4 * Suc n) (drop (4 * i) d))" .
  moreover have "of_nat i * 4 = (of_nat (4 * i) :: u32)" by simp
  then have "Flash_Storage_Header_loop hw f addr d i (Suc n) = Some (True, f')"
    using word f2(1) f'(1) by (simp add: f1_def [symmetric] Let_def del: of_nat_mult)
  ultimately show ?case by blast
qed

lemma info_page:
  "flash_layout hw main f \<Longrightarrow> flash_page main (flash_page_from_end hw f FLASH_APP_INFO_ADDR)"
  by (rule flash_page_from_end_page) (simp_all add: FLASH_APP_INFO_ADDR_def)

lemma Flash_Storage_Header_stores:
  assumes "flash_layout hw main f" and "length d = 28"
  defines "a \<equiv> flash_page_from_end hw f FLASH_APP_INFO_ADDR"
  assumes "erased hw f a 28"
  shows "\<exists>f'. Flash_Storage_Header hw f d = Some (1, f') \<and> hw_byte hw f' = put_bytes (hw_byte hw f) a d"
proof -
  have page: "flash_page main a" unfolding a_def by (rule info_page [OF assms(1)])
  have a4: "a mod 4 = 0" using flash_page_mod4 [OF page, of 0] by simp
  have "\<exists>f'. Flash_Storage_Header_loop hw (Flash_Unlock hw f) a d 0 7 = Some (True, f') \<and>
    hw_byte hw f' = put_bytes (hw_byte hw (Flash_Unlock hw f)) (a + of_nat (4 * 0)) (take (4 * 7) (drop (4 * 0) d))"
  proof (rule Flash_Storage_Header_loop_stores [OF Flash_Unlock_ready a4])
    show "main (a + of_nat k)" if "k < 4 * (0 + 7)" for k using flash_pageD(4) [OF page] that by simp
    show "hw_byte hw (Flash_Unlock hw f) (a + of_nat k) = 0xFF" if "4 * 0 \<le> k" "k < 4 * (0 + 7)" for k
      using assms(4) that by (simp add: Flash_Unlock_byte erased_def)
  qed (use assms(2) in simp_all)
  then obtain f' where "Flash_Storage_Header_loop hw (Flash_Unlock hw f) a d 0 7 = Some (True, f')"
      "hw_byte hw f' = put_bytes (hw_byte hw f) a d"
    using assms(2) by (auto simp: Flash_Unlock_byte)
  then show ?thesis
    by (simp add: Flash_Storage_Header_def Let_def a_def FLASH_APP_INFO_ADDR_def Flash_Lock_byte)
qed

text \<open>Setting the update flag touches the flag page only.\<close>

lemma UpdateAppMode_frame:
  assumes "flash_layout hw main (dev_flash v)"
  defines "a \<equiv> flash_page_from_end hw (dev_flash v) FLASH_IAP_FLAG_ADDR"
  assumes "unat x < unat a \<or> unat a + 2048 \<le> unat x"
  shows "hw_byte hw (dev_flash (UpdateAppMode hw v)) x = hw_byte hw (dev_flash v) x"
proof -
  have page: "flash_page main a" unfolding a_def by (rule flag_page [OF assms(1)])
  obtain f1 where f1: "hw_erase hw (Flash_Unlock hw (dev_flash v)) a = (FLASH_COMPLETE, f1)"
      "hw_byte hw f1 = put_bytes (hw_byte hw (Flash_Unlock hw (dev_flash v))) a (replicate 2048 0xFF)"
    using page_erase [OF Flash_Unlock_ready page] by blast
  define v1 where "v1 = (if ReadIAPMode hw (dev_flash v) \<noteq> OTA_RUN_APP then RunAppMode hw v else v)"
  have "hw_byte hw (dev_flash (RunAppMode hw v)) x = hw_byte hw (dev_flash v) x"
    using put_bytes_outside [OF page, of 0 "replicate 2048 0xFF" x "hw_byte hw (dev_flash v)"] assms(3) f1
    by (simp add: RunAppMode_def Let_def a_def [symmetric] lock_byte Flash_Unlock_byte)
  then have v1: "hw_byte hw (dev_flash v1) x = hw_byte hw (dev_flash v) x" by (simp add: v1_def)
  have far: "4 \<le> unat (x - a)" "4 \<le> unat (x - (a + 2))"
    using page_outside [OF page, of 0 4 x] page_outside [OF page, of 2 4 x] assms(3) by simp_all
  show ?thesis
    using far v1
    by (simp add: UpdateAppMode_def Let_def a_def [symmetric] v1_def [symmetric] lock_byte word_frame wait_byte Flash_Unlock_byte)
qed

text \<open>The flash after the application has stored the information \<open>d\<close>, written to the download area
  and set the update flag.\<close>

lemma page_addresses:
  assumes "flash_layout hw main f"
  shows "unat (flash_page_from_end hw f FLASH_APP_COPY_ADDR) = 134217728 + 1024 * unat (Get_FlashSize hw f) - 116736"
    and "unat (flash_page_from_end hw f FLASH_APP_INFO_ADDR) = 134217728 + 1024 * unat (Get_FlashSize hw f) - 8192"
    and "unat (flash_page_from_end hw f FLASH_IAP_FLAG_ADDR) = 134217728 + 1024 * unat (Get_FlashSize hw f) - 2048"
    and "114 \<le> unat (Get_FlashSize hw f)" and "unat (Get_FlashSize hw f) < 65536"
  using flash_page_address [OF assms, of FLASH_APP_COPY_ADDR] flash_page_address [OF assms, of FLASH_APP_INFO_ADDR]
    flash_page_address [OF assms, of FLASH_IAP_FLAG_ADDR] assms unat_less_u16
  by (auto simp: FLASH_APP_COPY_ADDR_def FLASH_APP_INFO_ADDR_def FLASH_IAP_FLAG_ADDR_def flash_layout_def)

lemma factory_cong:
  assumes "\<And>x. 536868832 \<le> unat x \<Longrightarrow> hw_byte hw f' x = hw_byte hw f x"
  shows "factory hw f' = factory hw f"
  unfolding factory_def
proof (rule flash_bytes_cong)
  fix k :: nat assume "k < 32"
  then have "unat (FLASH_SIZE_ADDR + of_nat k) = 536868832 + k"
    by (simp add: FLASH_SIZE_ADDR_def unat_word_ariths unat_of_nat_u32)
  then show "hw_byte hw f' (FLASH_SIZE_ADDR + of_nat k) = hw_byte hw f (FLASH_SIZE_ADDR + of_nat k)"
    by (intro assms) simp
qed

lemma app_update_flash:
  assumes layout: "flash_layout hw main f" and d: "length d = 28"
    and f1: "hw_byte hw f1 = put_bytes (hw_byte hw f) (flash_page_from_end hw f FLASH_APP_INFO_ADDR) d"
    and src: "src = flash_page_from_end hw f FLASH_APP_COPY_ADDR"
    and f2: "\<forall>x. unat x < unat src \<or> unat src + 106496 \<le> unat x \<longrightarrow> hw_byte hw f2 x = hw_byte hw f1 x"
    and f3: "f3 = dev_flash (UpdateAppMode hw (v\<lparr>dev_flash := f2\<rparr>))"
  shows "factory hw f3 = factory hw f" and "ReadIAPMode hw f3 = OTA_Update_APP"
    and "\<And>x. unat x < unat src \<Longrightarrow> hw_byte hw f3 x = hw_byte hw f x"
    and "flash_bytes hw f3 (flash_page_from_end hw f FLASH_APP_INFO_ADDR) 24 = take 24 d"
proof -
  let ?info = "flash_page_from_end hw f FLASH_APP_INFO_ADDR" and ?flag = "flash_page_from_end hw f FLASH_IAP_FLAG_ADDR"
  note adr = page_addresses [OF layout, folded src]
  have page: "flash_page main ?info" by (rule info_page [OF layout])
  have f1x: "hw_byte hw f1 x = hw_byte hw f x" if "unat x < unat ?info \<or> unat ?info + 2048 \<le> unat x" for x
    using put_bytes_outside [OF page, of 0 d x "hw_byte hw f"] that d by (simp add: f1)
  have fac2: "factory hw f2 = factory hw f" using f2 f1x adr by (intro factory_cong) simp
  have l2: "flash_layout hw main (dev_flash (v\<lparr>dev_flash := f2\<rparr>))" using layout factory_same(4) [OF fac2] by simp
  have f3x: "hw_byte hw f3 x = hw_byte hw f2 x" if "unat x < unat ?flag \<or> unat ?flag + 2048 \<le> unat x" for x
    using UpdateAppMode_frame [OF l2, of x] that by (simp add: f3 factory_same(3) [OF fac2])
  show "ReadIAPMode hw f3 = OTA_Update_APP" unfolding f3 by (rule UpdateAppMode_flag(1) [OF l2])
  have "factory hw f3 = factory hw f2" using adr by (intro factory_cong f3x) simp
  then show "factory hw f3 = factory hw f" using fac2 by simp
  show "hw_byte hw f3 x = hw_byte hw f x" if "unat x < unat src" for x
    using f3x [of x] f2 f1x [of x] that adr by simp
  show "flash_bytes hw f3 ?info 24 = take 24 d"
  proof (rule nth_equalityI)
    fix k assume "k < length (flash_bytes hw f3 ?info 24)"
    then have k: "k < 24" by simp
    have u: "unat (?info + of_nat k) = unat ?info + k" using k by (intro flash_page_unat [OF page]) simp
    have "hw_byte hw f3 (?info + of_nat k) = hw_byte hw f1 (?info + of_nat k)"
      using f3x [of "?info + of_nat k"] f2 u k adr by simp
    also have "\<dots> = d ! k" unfolding f1 using k d by (subst put_bytes_at) simp_all
    finally show "flash_bytes hw f3 ?info 24 ! k = take 24 d ! k" using k d by (simp add: flash_bytes_def)
  qed (use d in simp)
qed

lemma flash_word_below:
  assumes "\<And>x. unat x < n \<Longrightarrow> hw_byte hw f' x = hw_byte hw f x" and "unat a + 4 \<le> n" and "n < 2 ^ 31"
  shows "flash_word hw f' a = flash_word hw f a"
proof -
  have "flash_bytes hw f' a 4 = flash_bytes hw f a 4"
  proof (rule flash_bytes_cong)
    fix k :: nat assume k: "k < 4"
    have "unat (a + of_nat k) = unat a + k"
      using k assms(2,3) by (subst unat_add_noover) (simp_all add: unat_of_nat_u32)
    then show "hw_byte hw f' (a + of_nat k) = hw_byte hw f (a + of_nat k)" using k assms(2) by (intro assms(1)) simp
  qed
  then show ?thesis by (simp add: flash_word_def)
qed

end

section \<open>The bootloader after a download by the application\<close>

context hal_flash
begin

lemma boot_refuses_app_header:
  assumes layout: "flash_layout hw main (boot_flash w)"
    and flag: "ReadIAPMode hw (boot_flash w) = OTA_Update_APP"
    and hdr: "flash_bytes hw (boot_flash w) (flash_page_from_end hw (boot_flash w) FLASH_APP_INFO_ADDR) 24 =
      take 24 (app_header ver cf total_size rest)"
    and rest: "length rest = 20" and big: "2 \<le> unat total_size mod 65536" and buf: "length (check_buf w) = 2048"
    and room: "134258688 + 8 \<le> unat (flash_page_from_end hw (boot_flash w) FLASH_APP_COPY_ADDR)"
    and sp: "sp = flash_word hw (boot_flash w) FLASH_APP_RUN_ADDR" "sp AND 0x2FFE0000 = 0x20000000"
  shows "\<exists>w'. boot_main hw unz w = Some (Boot_jump sp (flash_word hw (boot_flash w) (FLASH_APP_RUN_ADDR + 4)), w') \<and>
    hw_byte hw (boot_flash w') = put_bytes (hw_byte hw (boot_flash w))
      (flash_page_from_end hw (boot_flash w) FLASH_IAP_FLAG_ADDR) (replicate 2048 0xFF)"
proof -
  let ?w = "w\<lparr>boot_IAP_FLAG := OTA_Update_APP\<rparr>"
  let ?h = "boot_header_of (take 24 (app_header ver cf total_size rest))"
  have "UpdatesTotalSize ?h > OTA_BIN_MAX_SIZE"
    using boot_reads_app_header [OF rest, of ver cf total_size] big
    by (simp add: word_less_nat_alt OTA_BIN_MAX_SIZE_def FLASH_PAGE_SIZE_def)
  then obtain w' where w': "boot_update hw unz ?w = boot_run hw w'"
      "hw_byte hw (boot_flash w') = put_bytes (hw_byte hw (boot_flash w))
        (flash_page_from_end hw (boot_flash w) FLASH_IAP_FLAG_ADDR) (replicate 2048 0xFF)"
    using boot_update_rejects [of ?w ?h _ unz] layout hdr buf by auto
  from boot_run_jumps [OF layout room w'(2) sp] show ?thesis
    using w' flag by (simp add: boot_main_def Let_def OTA_Update_APP_def OTA_RUN_APP_def)
qed

lemma boot_after_app_update:
  assumes layout: "flash_layout hw main f" and rest: "length rest = 20" and big: "2 \<le> unat total_size mod 65536"
    and f1: "hw_byte hw f1 = put_bytes (hw_byte hw f) (flash_page_from_end hw f FLASH_APP_INFO_ADDR)
      (app_header ver cf total_size rest)"
    and src: "src = flash_page_from_end hw f FLASH_APP_COPY_ADDR" and room: "unat FLASH_APP_RUN_ADDR + 8 \<le> unat src"
    and f2: "\<forall>x. unat x < unat src \<or> unat src + 106496 \<le> unat x \<longrightarrow> hw_byte hw f2 x = hw_byte hw f1 x"
    and sp: "sp = flash_word hw f FLASH_APP_RUN_ADDR" "sp AND 0x2FFE0000 = 0x20000000" and buf: "length (check_buf w) = 2048"
  shows "\<exists>w'. boot_main hw unz (w\<lparr>boot_flash := dev_flash (UpdateAppMode hw (v\<lparr>dev_flash := f2\<rparr>))\<rparr>) =
      Some (Boot_jump sp (flash_word hw f (FLASH_APP_RUN_ADDR + 4)), w') \<and>
    (\<forall>x. unat FLASH_APP_RUN_ADDR \<le> unat x \<and> unat x < unat src \<longrightarrow> hw_byte hw (boot_flash w') x = hw_byte hw f x)"
proof -
  define f3 where "f3 = dev_flash (UpdateAppMode hw (v\<lparr>dev_flash := f2\<rparr>))"
  let ?w = "w\<lparr>boot_flash := f3\<rparr>"
  have "length (app_header ver cf total_size rest) = 28" using rest by (simp add: app_header_def)
  note f3 = app_update_flash [OF layout this f1 src f2 f3_def]
  have p3: "flash_page_from_end hw f3 p = flash_page_from_end hw f p" for p by (rule factory_same(3) [OF f3(1)])
  have l3: "flash_layout hw main f3" using layout factory_same(4) [OF f3(1)] by simp
  have "unat src < 2 ^ 31" using page_addresses [OF layout] by (simp add: src)
  note word = flash_word_below [where n = "unat src", OF f3(3) _ this]
  have run: "unat FLASH_APP_RUN_ADDR = 134258688" "unat (FLASH_APP_RUN_ADDR + 4) = 134258692"
    by (simp_all add: FLASH_APP_RUN_ADDR_def)
  have w3: "flash_word hw f3 FLASH_APP_RUN_ADDR = sp"
      "flash_word hw f3 (FLASH_APP_RUN_ADDR + 4) = flash_word hw f (FLASH_APP_RUN_ADDR + 4)"
    using word [of FLASH_APP_RUN_ADDR] word [of "FLASH_APP_RUN_ADDR + 4"] room run sp(1) by simp_all
  have "\<exists>w'. boot_main hw unz ?w = Some (Boot_jump sp (flash_word hw (boot_flash ?w) (FLASH_APP_RUN_ADDR + 4)), w') \<and>
      hw_byte hw (boot_flash w') = put_bytes (hw_byte hw (boot_flash ?w))
        (flash_page_from_end hw (boot_flash ?w) FLASH_IAP_FLAG_ADDR) (replicate 2048 0xFF)"
    using l3 f3(2,4) rest big buf room sp run w3
    by (intro boot_refuses_app_header) (simp_all add: p3 src [symmetric])
  then obtain w' where w': "boot_main hw unz ?w = Some (Boot_jump sp (flash_word hw f (FLASH_APP_RUN_ADDR + 4)), w')"
      "hw_byte hw (boot_flash w') = put_bytes (hw_byte hw f3) (flash_page_from_end hw f FLASH_IAP_FLAG_ADDR) (replicate 2048 0xFF)"
    by (auto simp: w3 p3)
  have "hw_byte hw (boot_flash w') x = hw_byte hw f x" if "unat x < unat src" for x
    unfolding w'(2) using f3(3) [OF that] that flag_page_behind [OF layout, of x] by (simp add: src)
  then show ?thesis using w'(1) f3_def by blast
qed

end

section \<open>Properties\<close>

text \<open>C13: an update downloaded by the application is never installed. When the application has stored
  the information of an image whose size has a low half of at least two, then written anything to
  the download area, then set the update flag, the bootloader reads another size from the
  information page, one above its limit, whatever was downloaded: it clears the flag and starts the
  old application, which is unchanged.\<close>

theorem app_update_never_installed:
  assumes hal: "hal_flash hw ready main" and layout: "flash_layout hw main f"
    and blank: "erased hw f (flash_page_from_end hw f FLASH_APP_INFO_ADDR) 28"
    and rest: "length rest = 20" and big: "2 \<le> unat total_size mod 65536"
    and src: "src = flash_page_from_end hw f FLASH_APP_COPY_ADDR" and room: "unat FLASH_APP_RUN_ADDR + 8 \<le> unat src"
    and sp: "sp = flash_word hw f FLASH_APP_RUN_ADDR" "sp AND 0x2FFE0000 = 0x20000000"
    and buf: "length (check_buf w) = 2048"
  shows "\<exists>f1. Flash_Storage_Header hw f (app_header ver cf total_size rest) = Some (1, f1) \<and>
    (\<forall>f2. (\<forall>x. unat x < unat src \<or> unat src + 106496 \<le> unat x \<longrightarrow> hw_byte hw f2 x = hw_byte hw f1 x) \<longrightarrow>
      (\<exists>w'. boot_main hw unz (w\<lparr>boot_flash := dev_flash (UpdateAppMode hw (v\<lparr>dev_flash := f2\<rparr>))\<rparr>) =
          Some (Boot_jump sp (flash_word hw f (FLASH_APP_RUN_ADDR + 4)), w') \<and>
        (\<forall>x. unat FLASH_APP_RUN_ADDR \<le> unat x \<and> unat x < unat src \<longrightarrow>
          hw_byte hw (boot_flash w') x = hw_byte hw f x)))"
proof -
  have dev: "flash_device hw ready main" using hal by (simp add: hal_flash_def)
  have "length (app_header ver cf total_size rest) = 28" using rest by (simp add: app_header_def)
  from flash_device.Flash_Storage_Header_stores [OF dev layout this blank]
  obtain f1 where f1: "Flash_Storage_Header hw f (app_header ver cf total_size rest) = Some (1, f1)"
      "hw_byte hw f1 = put_bytes (hw_byte hw f) (flash_page_from_end hw f FLASH_APP_INFO_ADDR)
        (app_header ver cf total_size rest)"
    by blast
  then show ?thesis
    using hal_flash.boot_after_app_update [OF hal layout rest big f1(2) src room _ sp buf] by blast
qed

theorem app_update_never_installed_witness:
  "\<exists>f1 w'. Flash_Storage_Header stm32_hw (boot_flash (boot_sample [])) (app_header 2 0 50000 (replicate 20 0)) = Some (1, f1) \<and>
     boot_main stm32_hw (\<lambda>_ _. ([], 0)) ((boot_sample [])\<lparr>boot_flash := dev_flash (UpdateAppMode stm32_hw (sample_vars\<lparr>dev_flash := f1\<rparr>))\<rparr>) =
       Some (Boot_jump 0x20001000 0x0800A101, w')"
proof -
  let ?f = "boot_flash (boot_sample [])"
  have c: "hw_byte stm32_hw f' = cells f'" for f' by (simp add: stm32_hw_def)
  note b = flash_bytes_def c boot_sample_def put_bytes_def
  have "flash_bytes stm32_hw ?f FLASH_SIZE_ADDR 2 = [0, 1]"
    by (simp add: b blank_flash_def FLASH_SIZE_ADDR_def upt_rec)
  then have s: "Get_FlashSize stm32_hw ?f = 256" by (simp add: Get_FlashSize_def)
  have layout: "flash_layout stm32_hw stm32_main ?f"
    by (simp add: flash_layout_def s stm32_main_def word_le_nat_alt word_less_nat_alt)
  have p: "flash_page_from_end stm32_hw ?f FLASH_APP_COPY_ADDR = 0x08023800"
    "flash_page_from_end stm32_hw ?f FLASH_APP_INFO_ADDR = 0x0803E000"
    by (simp_all add: flash_page_from_end_def s FLASH_START_ADDR_def FLASH_PAGE_SIZE_def
        FLASH_APP_COPY_ADDR_def FLASH_APP_INFO_ADDR_def)
  have "flash_bytes stm32_hw ?f 0x0803E000 28 = replicate 28 0xFF"
    by (simp add: b blank_flash_def FLASH_SIZE_ADDR_def upt_rec) (simp add: numeral_eq_Suc)
  then have blank: "erased stm32_hw ?f (flash_page_from_end stm32_hw ?f FLASH_APP_INFO_ADDR) 28"
    by (simp add: erased_bytes p)
  have w: "flash_word stm32_hw ?f FLASH_APP_RUN_ADDR = 0x20001000" "flash_word stm32_hw ?f (FLASH_APP_RUN_ADDR + 4) = 0x0800A101"
    by (simp_all add: flash_word_def b FLASH_APP_RUN_ADDR_def upt_rec)
  have "\<exists>f1. Flash_Storage_Header stm32_hw ?f (app_header 2 0 50000 (replicate 20 0)) = Some (1, f1) \<and>
    (\<forall>f2. (\<forall>x. unat x < unat (0x08023800 :: u32) \<or> unat (0x08023800 :: u32) + 106496 \<le> unat x \<longrightarrow> hw_byte stm32_hw f2 x = hw_byte stm32_hw f1 x) \<longrightarrow>
      (\<exists>w'. boot_main stm32_hw (\<lambda>_ _. ([], 0)) ((boot_sample [])\<lparr>boot_flash := dev_flash (UpdateAppMode stm32_hw (sample_vars\<lparr>dev_flash := f2\<rparr>))\<rparr>) =
          Some (Boot_jump 0x20001000 (flash_word stm32_hw ?f (FLASH_APP_RUN_ADDR + 4)), w') \<and>
        (\<forall>x. unat FLASH_APP_RUN_ADDR \<le> unat x \<and> unat x < unat (0x08023800 :: u32) \<longrightarrow>
          hw_byte stm32_hw (boot_flash w') x = hw_byte stm32_hw ?f x)))"
    using w(1) by (intro app_update_never_installed [OF stm32_hal.hal_flash_axioms layout blank])
      (simp_all only: p, simp_all add: FLASH_APP_RUN_ADDR_def boot_sample_def)
  then show ?thesis unfolding w(2) by blast
qed

end
