(* ===== verification/Calendar.thy ===== *)
theory Calendar
  imports Byte_Data
begin

text \<open>
  Calendar times (common_lib/usdl_time.c): a time is six bytes, the year counted from 2000, in
  binary (DEC) or in packed decimal (BCD). A function that gets a pointer to a time returns the
  time it leaves there, also when it reports FALSE. A read behind the leap year table is the value
  None; so is a loop that does not end.
\<close>

record TIME =
  Year :: u8
  Month :: u8
  Day :: u8
  Hour :: u8
  Minute :: u8
  Second :: u8

definition INIT_TIME :: TIME where
  "INIT_TIME = \<lparr>Year = 0x00, Month = 0x01, Day = 0x01, Hour = 0x00, Minute = 0x00, Second = 0x00\<rparr>"
definition ERROR_STAMP :: u32 where "ERROR_STAMP = 0"
definition TIME_EARLY :: u8 where "TIME_EARLY = 1"
definition TIME_LATE :: u8 where "TIME_LATE = 2"
definition TIME_EQUAL :: u8 where "TIME_EQUAL = 4"
definition ONE_DAY :: u32 where "ONE_DAY = 60 * 60 * 24"
definition ONE_HOUR :: u32 where "ONE_HOUR = 60 * 60"
definition ONE_MINUTE :: u32 where "ONE_MINUTE = 60"

definition CenturyYearTable :: "u8 list" where
  "CenturyYearTable = [
    1, 0, 0, 0, 1, 0, 0, 0, 1, 0, 0, 0, 1, 0, 0, 0, 1, 0, 0, 0,
    1, 0, 0, 0, 1, 0, 0, 0, 1, 0, 0, 0, 1, 0, 0, 0, 1, 0, 0, 0,
    1, 0, 0, 0, 1, 0, 0, 0, 1, 0, 0, 0, 1, 0, 0, 0, 1, 0, 0, 0,
    1, 0, 0, 0, 1, 0, 0, 0, 1, 0, 0, 0, 1, 0, 0, 0, 1, 0, 0, 0,
    1, 0, 0, 0, 1, 0, 0, 0, 1, 0, 0, 0, 1, 0, 0, 0, 1, 0, 0, 0]"

section \<open>Checks and corrections\<close>

definition TimeMonthDays :: "u8 \<Rightarrow> u8 \<Rightarrow> u8 option" where
  "TimeMonthDays year month =
     (if month \<in> {1, 3, 5, 7, 8, 10, 12} then Some 31
      else if month = 2 then do { leap \<leftarrow> rd CenturyYearTable (unat year); Some (28 + leap) }
      else if month \<in> {4, 6, 9, 11} then Some 30
      else Some 0)"

definition TimeDECCheck :: "TIME \<Rightarrow> bool option" where
  "TimeDECCheck t =
     (if Year t \<le> 99 \<and> 1 \<le> Month t \<and> Month t \<le> 12 \<and> 1 \<le> Day t
      then do {
        days \<leftarrow> TimeMonthDays (Year t) (Month t);
        Some (Day t \<le> days \<and> Hour t < 24 \<and> Minute t < 60 \<and> Second t < 60)
      }
      else Some False)"

text \<open>\<open>BitSet\<close> on a byte.\<close>

definition BitSet_u8 :: "u8 \<Rightarrow> nat \<Rightarrow> u8" where
  "BitSet_u8 src pos = src OR push_bit pos 1"

partial_function (option) TimeDECFix_loop :: "u8 \<Rightarrow> TIME \<Rightarrow> (u8 \<times> TIME) option" where
  "TimeDECFix_loop flag t =
     (if Year t > 99 then TimeDECFix_loop (BitSet_u8 flag 5) (t\<lparr>Year := 99\<rparr>)
      else if Month t = 0 then TimeDECFix_loop (BitSet_u8 flag 4) (t\<lparr>Month := 1\<rparr>)
      else if Month t > 12 then TimeDECFix_loop (BitSet_u8 flag 4) (t\<lparr>Month := 12\<rparr>)
      else if Day t = 0 then TimeDECFix_loop (BitSet_u8 flag 3) (t\<lparr>Day := 1\<rparr>)
      else Option.bind (TimeMonthDays (Year t) (Month t)) (\<lambda>days.
        if Day t > days then TimeDECFix_loop (BitSet_u8 flag 3) (t\<lparr>Day := days\<rparr>)
        else if Hour t \<ge> 24 then TimeDECFix_loop (BitSet_u8 flag 2) (t\<lparr>Hour := 23\<rparr>)
        else if Minute t \<ge> 60 then TimeDECFix_loop (BitSet_u8 flag 1) (t\<lparr>Minute := 59\<rparr>)
        else if Second t \<ge> 60 then TimeDECFix_loop (BitSet_u8 flag 0) (t\<lparr>Second := 59\<rparr>)
        else Some (flag, t)))"

definition TimeDECFix :: "TIME \<Rightarrow> (u8 \<times> TIME) option" where
  "TimeDECFix t = TimeDECFix_loop 0 t"

section \<open>Adding\<close>

text \<open>\<open>if (time->Day > 28) TimeDECFix(time);\<close>\<close>

definition fix_day :: "TIME \<Rightarrow> TIME option" where
  "fix_day t = (if Day t > 28 then map_option snd (TimeDECFix t) else Some t)"

definition TimeDECAddYear :: "TIME \<Rightarrow> u32 \<Rightarrow> (bool \<times> TIME) option" where
  "TimeDECAddYear t val = do {
     ok \<leftarrow> TimeDECCheck t;
     if \<not> ok then Some (False, t)
     else do {
       t \<leftarrow> fix_day (t\<lparr>Year := ucast ((val + ucast (Year t)) mod 100)\<rparr>);
       Some (True, t)
     }
   }"

definition TimeDECAddMonth :: "TIME \<Rightarrow> u32 \<Rightarrow> (bool \<times> TIME) option" where
  "TimeDECAddMonth t val = do {
     ok \<leftarrow> TimeDECCheck t;
     if \<not> ok then Some (False, t)
     else do {
       (ok, t) \<leftarrow> (if val + ucast (Month t) > 12
         then do {
           let val = val + ucast (Month t);
           let t = t\<lparr>Month := ucast (val mod 12)\<rparr>;
           if Month t = 0 then TimeDECAddYear (t\<lparr>Month := 12\<rparr>) (val div 12 - 1)
           else TimeDECAddYear t (val div 12)
         }
         else Some (True, t\<lparr>Month := Month t + ucast val\<rparr>));
       if \<not> ok then Some (False, t)
       else do { t \<leftarrow> fix_day t; Some (True, t) }
     }
   }"

partial_function (option) TimeDECAddDay_loop :: "TIME \<Rightarrow> u32 \<Rightarrow> u8 \<Rightarrow> (bool \<times> TIME \<times> u32) option" where
  "TimeDECAddDay_loop t val days_in_month =
     (if val > ucast days_in_month
      then Option.bind (TimeDECAddMonth t 1) (\<lambda>r.
        if \<not> fst r then Some (False, snd r, val - ucast days_in_month)
        else Option.bind (TimeMonthDays (Year (snd r)) (Month (snd r))) (\<lambda>days.
          TimeDECAddDay_loop (snd r) (val - ucast days_in_month) days))
      else Some (True, t, val))"

definition TimeDECAddDay :: "TIME \<Rightarrow> u32 \<Rightarrow> (bool \<times> TIME) option" where
  "TimeDECAddDay t val = do {
     ok \<leftarrow> TimeDECCheck t;
     if \<not> ok then Some (False, t)
     else do {
       let val = val + ucast (Day t);
       let t = t\<lparr>Day := 1\<rparr>;
       days_in_month \<leftarrow> TimeMonthDays (Year t) (Month t);
       (ok, t, val) \<leftarrow> TimeDECAddDay_loop t val days_in_month;
       Some (if ok then (True, t\<lparr>Day := ucast val\<rparr>) else (False, t))
     }
   }"

definition TimeDECAddHour :: "TIME \<Rightarrow> u32 \<Rightarrow> (bool \<times> TIME) option" where
  "TimeDECAddHour t val = do {
     ok \<leftarrow> TimeDECCheck t;
     if \<not> ok then Some (False, t)
     else if val + ucast (Hour t) \<ge> 24
     then do {
       let val = val + ucast (Hour t);
       (ok, t) \<leftarrow> TimeDECAddDay t (val div 24);
       Some (if ok then (True, t\<lparr>Hour := ucast (val mod 24)\<rparr>) else (False, t))
     }
     else Some (True, t\<lparr>Hour := Hour t + ucast val\<rparr>)
   }"

definition TimeDECAddMinute :: "TIME \<Rightarrow> u32 \<Rightarrow> (bool \<times> TIME) option" where
  "TimeDECAddMinute t val = do {
     ok \<leftarrow> TimeDECCheck t;
     if \<not> ok then Some (False, t)
     else if val + ucast (Minute t) \<ge> 60
     then do {
       let val = val + ucast (Minute t);
       (ok, t) \<leftarrow> TimeDECAddHour t (val div 60);
       Some (if ok then (True, t\<lparr>Minute := ucast (val mod 60)\<rparr>) else (False, t))
     }
     else Some (True, t\<lparr>Minute := Minute t + ucast val\<rparr>)
   }"

definition TimeDECAddSecond :: "TIME \<Rightarrow> u32 \<Rightarrow> (bool \<times> TIME) option" where
  "TimeDECAddSecond t val = do {
     ok \<leftarrow> TimeDECCheck t;
     if \<not> ok then Some (False, t)
     else if val + ucast (Second t) \<ge> 60
     then do {
       let val = val + ucast (Second t);
       (ok, t) \<leftarrow> TimeDECAddMinute t (val div 60);
       Some (if ok then (True, t\<lparr>Second := ucast (val mod 60)\<rparr>) else (False, t))
     }
     else Some (True, t\<lparr>Second := Second t + ucast val\<rparr>)
   }"

section \<open>Subtracting\<close>

definition TimeDECSubYear :: "TIME \<Rightarrow> u32 \<Rightarrow> (bool \<times> TIME) option" where
  "TimeDECSubYear t val = do {
     ok \<leftarrow> TimeDECCheck t;
     if \<not> ok then Some (False, t)
     else do {
       let t = (if ucast (Year t) \<ge> val mod 100 then t\<lparr>Year := Year t - ucast (val mod 100)\<rparr>
         else t\<lparr>Year := Year t + 100 - ucast (val mod 100)\<rparr>);
       t \<leftarrow> fix_day t;
       Some (True, t)
     }
   }"

definition TimeDECSubMonth :: "TIME \<Rightarrow> u32 \<Rightarrow> (bool \<times> TIME) option" where
  "TimeDECSubMonth t val = do {
     ok \<leftarrow> TimeDECCheck t;
     if \<not> ok then Some (False, t)
     else do {
       (ok, t) \<leftarrow> (if val \<ge> ucast (Month t)
         then do {
           let val = val - ucast (Month t);
           (ok, t) \<leftarrow> TimeDECSubYear t (1 + val div 12);
           Some (ok, if ok then t\<lparr>Month := 12 - ucast (val mod 12)\<rparr> else t)
         }
         else Some (True, t\<lparr>Month := Month t - ucast val\<rparr>));
       if \<not> ok then Some (False, t)
       else do { t \<leftarrow> fix_day t; Some (True, t) }
     }
   }"

text \<open>The test before the loop repeats the one of the loop.\<close>

partial_function (option) TimeDECSubDay_loop :: "TIME \<Rightarrow> u32 \<Rightarrow> u8 \<Rightarrow> (bool \<times> TIME \<times> u32 \<times> u8) option" where
  "TimeDECSubDay_loop t val day =
     (if val \<ge> ucast day
      then Option.bind (TimeDECSubMonth t 1) (\<lambda>r.
        if \<not> fst r then Some (False, snd r, val - ucast day, day)
        else Option.bind (TimeMonthDays (Year (snd r)) (Month (snd r))) (\<lambda>days.
          TimeDECSubDay_loop (snd r) (val - ucast day) days))
      else Some (True, t, val, day))"

definition TimeDECSubDay :: "TIME \<Rightarrow> u32 \<Rightarrow> (bool \<times> TIME) option" where
  "TimeDECSubDay t val = do {
     ok \<leftarrow> TimeDECCheck t;
     if \<not> ok then Some (False, t)
     else do {
       let day = Day t;
       let t = t\<lparr>Day := 1\<rparr>;
       (ok, t, val, day) \<leftarrow> (if val \<ge> ucast day
         then do {
           let val = val - ucast day;
           (ok, t) \<leftarrow> TimeDECSubMonth t 1;
           if \<not> ok then Some (False, t, val, day)
           else do { day \<leftarrow> TimeMonthDays (Year t) (Month t); Some (True, t, val, day) }
         }
         else Some (True, t, val, day));
       if \<not> ok then Some (False, t)
       else do {
         (ok, t, val, day) \<leftarrow> TimeDECSubDay_loop t val day;
         Some (if ok then (True, t\<lparr>Day := day - ucast val\<rparr>) else (False, t))
       }
     }
   }"

definition TimeDECSubHour :: "TIME \<Rightarrow> u32 \<Rightarrow> (bool \<times> TIME) option" where
  "TimeDECSubHour t val = do {
     ok \<leftarrow> TimeDECCheck t;
     if \<not> ok then Some (False, t)
     else if val > ucast (Hour t)
     then do {
       let val = val - ucast (Hour t);
       let t = t\<lparr>Hour := ucast (val mod 24)\<rparr>;
       (ok, t) \<leftarrow> TimeDECSubDay t ((if Hour t \<noteq> 0 then 1 else 0) + val div 24);
       Some (if \<not> ok then (False, t)
         else if Hour t \<noteq> 0 then (True, t\<lparr>Hour := 24 - ucast (val mod 24)\<rparr>) else (True, t))
     }
     else Some (True, t\<lparr>Hour := Hour t - ucast val\<rparr>)
   }"

definition TimeDECSubMinute :: "TIME \<Rightarrow> u32 \<Rightarrow> (bool \<times> TIME) option" where
  "TimeDECSubMinute t val = do {
     ok \<leftarrow> TimeDECCheck t;
     if \<not> ok then Some (False, t)
     else if val > ucast (Minute t)
     then do {
       let val = val - ucast (Minute t);
       let t = t\<lparr>Minute := ucast (val mod 60)\<rparr>;
       (ok, t) \<leftarrow> TimeDECSubHour t ((if Minute t \<noteq> 0 then 1 else 0) + val div 60);
       Some (if \<not> ok then (False, t)
         else if Minute t \<noteq> 0 then (True, t\<lparr>Minute := 60 - ucast (val mod 60)\<rparr>) else (True, t))
     }
     else Some (True, t\<lparr>Minute := Minute t - ucast val\<rparr>)
   }"

definition TimeDECSubSecond :: "TIME \<Rightarrow> u32 \<Rightarrow> (bool \<times> TIME) option" where
  "TimeDECSubSecond t val = do {
     ok \<leftarrow> TimeDECCheck t;
     if \<not> ok then Some (False, t)
     else if val > ucast (Second t)
     then do {
       let val = val - ucast (Second t);
       let t = t\<lparr>Second := ucast (val mod 60)\<rparr>;
       (ok, t) \<leftarrow> TimeDECSubMinute t ((if Second t \<noteq> 0 then 1 else 0) + val div 60);
       Some (if \<not> ok then (False, t)
         else if Second t \<noteq> 0 then (True, t\<lparr>Second := 60 - ucast (val mod 60)\<rparr>) else (True, t))
     }
     else Some (True, t\<lparr>Second := Second t - ucast val\<rparr>)
   }"

section \<open>Differences and stamps\<close>

text \<open>The exchange of two bytes with three exclusive ors.\<close>

definition Swap_bytes :: "u8 \<Rightarrow> u8 \<Rightarrow> u8 \<times> u8" where
  "Swap_bytes a b = (let a = a XOR b; b = b XOR a; a = a XOR b in (a, b))"

definition TimeSwap :: "TIME \<Rightarrow> TIME \<Rightarrow> TIME \<times> TIME" where
  "TimeSwap t1 t2 = (let
     y = Swap_bytes (Year t1) (Year t2);
     m = Swap_bytes (Month t1) (Month t2);
     d = Swap_bytes (Day t1) (Day t2);
     h = Swap_bytes (Hour t1) (Hour t2);
     n = Swap_bytes (Minute t1) (Minute t2);
     s = Swap_bytes (Second t1) (Second t2)
   in (\<lparr>Year = fst y, Month = fst m, Day = fst d, Hour = fst h, Minute = fst n, Second = fst s\<rparr>,
       \<lparr>Year = snd y, Month = snd m, Day = snd d, Hour = snd h, Minute = snd n, Second = snd s\<rparr>))"

definition time_bytes :: "TIME \<Rightarrow> u8 list" where
  "time_bytes t = [Year t, Month t, Day t, Hour t, Minute t, Second t]"

fun TimeComp_loop :: "u8 list \<Rightarrow> u8 list \<Rightarrow> u8" where
  "TimeComp_loop (x # xs) (y # ys) =
     (if x < y then TIME_EARLY else if x > y then TIME_LATE else TimeComp_loop xs ys)"
| "TimeComp_loop _ _ = TIME_EQUAL"

definition TimeComp :: "TIME \<Rightarrow> TIME \<Rightarrow> u8" where
  "TimeComp t1 t2 = TimeComp_loop (time_bytes t1) (time_bytes t2)"

text \<open>The loop over the months, for the difference in seconds (\<open>unit = ONE_DAY\<close>) and in days
  (\<open>unit = 1\<close>).\<close>

partial_function (option) month_sum_loop :: "u32 \<Rightarrow> u8 \<Rightarrow> u8 \<Rightarrow> u8 \<Rightarrow> u8 \<Rightarrow> u32 \<Rightarrow> u32 option" where
  "month_sum_loop one year month year2 month2 total_sum =
     (if year = year2 \<and> month = month2 then Some total_sum
      else Option.bind (TimeMonthDays year month) (\<lambda>days.
        if month = 12 then month_sum_loop one (year + 1) (0 + 1) year2 month2 (total_sum + ucast days * one)
        else month_sum_loop one year (month + 1) year2 month2 (total_sum + ucast days * one)))"

text \<open>\<open>((s8)b - (s8)a)\<close>, an int.\<close>

definition s8_diff :: "u8 \<Rightarrow> u8 \<Rightarrow> int" where
  "s8_diff b a = sint b - sint a"

definition TimeDECSubTime :: "TIME \<Rightarrow> TIME \<Rightarrow> u32 option" where
  "TimeDECSubTime t1 t2 = do {
     ok1 \<leftarrow> TimeDECCheck t1;
     ok2 \<leftarrow> (if ok1 then TimeDECCheck t2 else Some False);
     if \<not> ok1 \<or> \<not> ok2 then Some 0
     else do {
       let (t1, t2) = (if TimeComp t1 t2 AND TIME_LATE \<noteq> 0 then TimeSwap t1 t2 else (t1, t2));
       total_sum \<leftarrow> month_sum_loop ONE_DAY (Year t1) (Month t1) (Year t2) (Month t2) 0;
       Some (of_int (uint total_sum + s8_diff (Day t2) (Day t1) * uint ONE_DAY +
         s8_diff (Hour t2) (Hour t1) * uint ONE_HOUR +
         s8_diff (Minute t2) (Minute t1) * uint ONE_MINUTE + s8_diff (Second t2) (Second t1)))
     }
   }"

definition TimeDECDiffDay :: "TIME \<Rightarrow> TIME \<Rightarrow> u32 option" where
  "TimeDECDiffDay t1 t2 = do {
     ok1 \<leftarrow> TimeDECCheck t1;
     ok2 \<leftarrow> (if ok1 then TimeDECCheck t2 else Some False);
     if \<not> ok1 \<or> \<not> ok2 then Some 0
     else do {
       let (t1, t2) = (if TimeComp t1 t2 AND TIME_LATE \<noteq> 0 then TimeSwap t1 t2 else (t1, t2));
       total_sum \<leftarrow> month_sum_loop 1 (Year t1) (Month t1) (Year t2) (Month t2) 0;
       Some (of_int (uint total_sum + s8_diff (Day t2) (Day t1) + 1))
     }
   }"

definition TimeDECToStamp :: "TIME \<Rightarrow> u32 option" where
  "TimeDECToStamp t = do {
     ok \<leftarrow> TimeDECCheck t;
     if \<not> ok then Some ERROR_STAMP
     else do { d \<leftarrow> TimeDECSubTime t INIT_TIME; Some (d + 1) }
   }"

definition TimeDECStampToTime :: "u32 \<Rightarrow> TIME option" where
  "TimeDECStampToTime stamp =
     (if stamp \<noteq> ERROR_STAMP then map_option snd (TimeDECAddSecond INIT_TIME (stamp - 1)) else Some INIT_TIME)"

section \<open>The calendar in numbers\<close>

text \<open>Months counted from January 2000, days counted from the first of it.\<close>

definition mdays :: "nat \<Rightarrow> nat \<Rightarrow> nat" where
  "mdays y m = (if m = 2 then if y mod 4 = 0 then 29 else 28 else if m \<in> {4, 6, 9, 11} then 30 else 31)"

definition md :: "nat \<Rightarrow> nat" where
  "md k = mdays (k div 12) (k mod 12 + 1)"

primrec dsum :: "nat \<Rightarrow> nat" where
  "dsum 0 = 0"
| "dsum (Suc k) = dsum k + md k"

lemma md_bounds: "28 \<le> md k" "md k \<le> 31"
  by (simp_all add: md_def mdays_def)

lemma md_period: "md (k + 48) = md k"
proof -
  have "(k + 12 * 4) div 12 = k div 12 + 4" "(k + 12 * 4) mod 12 = k mod 12"
    by (simp_all only: div_mult_self2 mod_mult_self2 zero_neq_numeral not_False_eq_True)
  then show ?thesis by (simp add: md_def mdays_def)
qed

lemma dsum_period: "dsum (k + 48) = dsum k + 1461"
proof (induction k)
  case 0
  have "dsum 48 = 1461" by code_simp
  then show ?case by simp
next
  case (Suc k)
  have "dsum (Suc k + 48) = dsum (k + 48) + md (k + 48)" by (metis add_Suc dsum.simps(2))
  then show ?case using Suc md_period [of k] by simp
qed

lemma dsum_century: "dsum 1200 = 36525"
proof -
  have "dsum (n * 48) = n * 1461" for n
  proof (induction n)
    case (Suc n)
    have m: "Suc n * 48 = n * 48 + 48" by simp
    have "dsum (Suc n * 48) = dsum (n * 48) + 1461" unfolding m by (rule dsum_period)
    then show ?case using Suc by simp
  qed simp
  from this [of 25] show ?thesis by simp
qed

lemma dsum_mono: "i \<le> j \<Longrightarrow> dsum i \<le> dsum j"
  by (induction j) (auto simp: le_Suc_eq)

lemma dsum_less: "i < j \<Longrightarrow> dsum i + md i \<le> dsum j"
  using dsum_mono [of "Suc i" j] by simp

text \<open>A day number determines the month and the day in it.\<close>

lemma day_unique:
  assumes "dsum i + d = dsum j + e" and "d < md i" and "e < md j"
  shows "i = j \<and> d = e"
proof -
  have "\<not> i < j" "\<not> j < i" using assms dsum_less [of i j] dsum_less [of j i] by linarith+
  then show ?thesis using assms(1) by simp
qed

definition month_no :: "TIME \<Rightarrow> nat" where
  "month_no t = 12 * unat (Year t) + (unat (Month t) - 1)"

definition day_no :: "TIME \<Rightarrow> nat" where
  "day_no t = dsum (month_no t) + (unat (Day t) - 1)"

definition hour_no :: "TIME \<Rightarrow> nat" where
  "hour_no t = 24 * day_no t + unat (Hour t)"

definition minute_no :: "TIME \<Rightarrow> nat" where
  "minute_no t = 60 * hour_no t + unat (Minute t)"

definition second_no :: "TIME \<Rightarrow> nat" where
  "second_no t = 60 * minute_no t + unat (Second t)"

definition month_ok :: "TIME \<Rightarrow> bool" where
  "month_ok t \<longleftrightarrow> unat (Year t) < 100 \<and> 1 \<le> unat (Month t) \<and> unat (Month t) \<le> 12"

definition clock_ok :: "TIME \<Rightarrow> bool" where
  "clock_ok t \<longleftrightarrow> unat (Hour t) < 24 \<and> unat (Minute t) < 60 \<and> unat (Second t) < 60"

definition time_ok :: "TIME \<Rightarrow> bool" where
  "time_ok t \<longleftrightarrow> month_ok t \<and> 1 \<le> unat (Day t) \<and> unat (Day t) \<le> md (month_no t) \<and> clock_ok t"

lemma u8_u32 [simp]: "unat (ucast (x :: u8) :: u32) = unat x"
  using unat_less_u8 [of x] by (simp add: unsigned_ucast_eq take_bit_eq_mod)

lemma u32_u8: "unat (ucast (w :: u32) :: u8) = unat w mod 256"
  by (simp add: unsigned_ucast_eq take_bit_eq_mod)

lemma leap_table: "y < 100 \<Longrightarrow> rd CenturyYearTable y = Some (if y mod 4 = 0 then 1 else 0)"
proof -
  assume y: "y < 100"
  have "\<forall>y \<in> set [0..<100]. rd CenturyYearTable y = Some (if y mod 4 = 0 then 1 else 0)" by code_simp
  then show ?thesis using y by simp
qed

lemma TimeMonthDays_md:
  assumes "month_ok t"
  shows "TimeMonthDays (Year t) (Month t) = Some (of_nat (md (month_no t)))"
proof -
  have y: "month_no t div 12 = unat (Year t)" "month_no t mod 12 + 1 = unat (Month t)"
  proof -
    obtain m where m: "unat (Month t) = Suc m" "m < 12"
      using assms unfolding month_ok_def by (cases "unat (Month t)") auto
    show "month_no t div 12 = unat (Year t)" "month_no t mod 12 + 1 = unat (Month t)"
      unfolding month_no_def m(1) using m(2) by simp_all
  qed
  have m: "unat (Month t) \<in> {1, 2, 3, 4, 5, 6, 7, 8, 9, 10, 11, 12}" 
    using assms unfolding month_ok_def insert_iff empty_iff by presburger
  have w: "Month t = n \<longleftrightarrow> unat (Month t) = unat n" for n by (simp add: word_unat_eq_iff)
  have l: "rd CenturyYearTable (unat (Year t)) = Some (if unat (Year t) mod 4 = 0 then 1 else 0)"
    using assms by (intro leap_table) (simp add: month_ok_def)
  show ?thesis
    unfolding md_def y mdays_def TimeMonthDays_def insert_iff empty_iff w l
    using m unfolding insert_iff empty_iff by (elim disjE) simp_all
qed

lemma TimeDECCheck_ok: "TimeDECCheck t = Some (time_ok t)"
proof (cases "month_ok t")
  case True
  have u: "unat (of_nat (md (month_no t)) :: u8) = md (month_no t)"
    using md_bounds(2) [of "month_no t"] by (simp add: unat_of_nat_u8)
  have "Year t \<le> 99 \<and> 1 \<le> Month t \<and> Month t \<le> 12" using True by (auto simp: month_ok_def word_le_nat_alt)
  then show ?thesis
    using True u TimeMonthDays_md [OF True]
    by (auto simp: TimeDECCheck_def time_ok_def clock_ok_def word_le_nat_alt word_less_nat_alt)
next
  case False
  then have "\<not> (Year t \<le> 99 \<and> 1 \<le> Month t \<and> Month t \<le> 12)" by (auto simp: month_ok_def word_le_nat_alt)
  then show ?thesis using False by (auto simp: TimeDECCheck_def time_ok_def)
qed

lemma digits_eq:
  fixes n a b s u :: nat
  assumes "n * a + s = n * b + u" and "s < n" and "u < n"
  shows "a = b \<and> s = u"
proof -
  have "a = b" using assms by (metis add.commute add_cancel_right_left div_less div_mult_self2 less_nat_zero_code)
  then show ?thesis using assms(1) by simp
qed

lemma time_eqI:
  assumes "time_ok t" and "time_ok u" and "second_no t = second_no u"
  shows "t = u"
proof -
  have c: "unat (Hour t) < 24" "unat (Minute t) < 60" "unat (Second t) < 60"
    "unat (Hour u) < 24" "unat (Minute u) < 60" "unat (Second u) < 60"
    using assms unfolding time_ok_def clock_ok_def by blast+
  note s = digits_eq [OF assms(3) [unfolded second_no_def] c(3) c(6)]
  note n = digits_eq [OF s [THEN conjunct1, unfolded minute_no_def] c(2) c(5)]
  note h = digits_eq [OF n [THEN conjunct1, unfolded hour_no_def] c(1) c(4)]
  have d: "1 \<le> unat (Day t)" "unat (Day t) \<le> md (month_no t)"
    "1 \<le> unat (Day u)" "unat (Day u) \<le> md (month_no u)"
    using assms(1,2) unfolding time_ok_def by blast+
  have "month_no t = month_no u \<and> unat (Day t) - 1 = unat (Day u) - 1"
    using h d unfolding day_no_def by (intro day_unique) auto
  then have m: "12 * unat (Year t) + (unat (Month t) - 1) = 12 * unat (Year u) + (unat (Month u) - 1)"
    and e: "unat (Day t) = unat (Day u)"
    using d unfolding month_no_def by linarith+
  have k: "1 \<le> unat (Month t)" "unat (Month t) \<le> 12" "1 \<le> unat (Month u)" "unat (Month u) \<le> 12"
    using assms(1,2) unfolding time_ok_def month_ok_def by blast+
  have "unat (Year t) = unat (Year u) \<and> unat (Month t) - 1 = unat (Month u) - 1"
    using k by (intro digits_eq [OF m]) linarith+
  then have "unat (Year t) = unat (Year u)" "unat (Month t) = unat (Month u)"
    using k by linarith+
  then show ?thesis using s n h e by (simp add: word_unat_eq_iff)
qed

section \<open>Correction\<close>

text \<open>The loop corrects the fields in order and ends; the flag collects the fields it changed.\<close>

definition in_range :: "nat \<Rightarrow> nat \<Rightarrow> u8 \<Rightarrow> u8" where
  "in_range lo hi x = (if unat x < lo then of_nat lo else if hi < unat x then of_nat hi else x)"

definition fixed_time :: "TIME \<Rightarrow> TIME" where
  "fixed_time t = (let
     t = t\<lparr>Year := in_range 0 99 (Year t), Month := in_range 1 12 (Month t)\<rparr>
   in t\<lparr>Day := in_range 1 (md (month_no t)) (Day t), Hour := in_range 0 23 (Hour t),
        Minute := in_range 0 59 (Minute t), Second := in_range 0 59 (Second t)\<rparr>)"

definition mark :: "bool \<Rightarrow> nat \<Rightarrow> u8 \<Rightarrow> u8" where
  "mark changed pos flag = (if changed then BitSet_u8 flag pos else flag)"

definition outside :: "nat \<Rightarrow> nat \<Rightarrow> u8 \<Rightarrow> bool" where
  "outside lo hi x \<longleftrightarrow> unat x < lo \<or> hi < unat x"

definition fix_flag :: "TIME \<Rightarrow> u8" where
  "fix_flag t = mark (outside 0 59 (Second t)) 0 (mark (outside 0 59 (Minute t)) 1
     (mark (outside 0 23 (Hour t)) 2
     (mark (outside 1 (md (month_no (t\<lparr>Year := in_range 0 99 (Year t), Month := in_range 1 12 (Month t)\<rparr>))) (Day t)) 3
     (mark (outside 1 12 (Month t)) 4 (mark (outside 0 99 (Year t)) 5 0)))))"

lemma mark_simps [simp]: "mark True pos flag = BitSet_u8 flag pos" "mark False pos flag = flag"
  by (simp_all add: mark_def)

lemma in_range_id: "\<not> outside lo hi x \<Longrightarrow> in_range lo hi x = x"
  by (simp add: in_range_def outside_def)

lemma in_range_bounds: "lo \<le> hi \<Longrightarrow> hi < 256 \<Longrightarrow> lo \<le> unat (in_range lo hi x) \<and> unat (in_range lo hi x) \<le> hi"
  by (auto simp: in_range_def unat_of_nat_u8)

lemma md_u8: "unat (of_nat (md k) :: u8) = md k"
  using md_bounds(2) [of k] by (simp add: unat_of_nat_u8)

lemma month_no_update [simp]:
  "month_no (t\<lparr>Day := d\<rparr>) = month_no t" "month_no (t\<lparr>Hour := h\<rparr>) = month_no t"
  "month_no (t\<lparr>Minute := n\<rparr>) = month_no t" "month_no (t\<lparr>Second := s\<rparr>) = month_no t"
  by (simp_all add: month_no_def)

lemma month_ok_update [simp]:
  "month_ok (t\<lparr>Day := d\<rparr>) = month_ok t" "month_ok (t\<lparr>Hour := h\<rparr>) = month_ok t"
  "month_ok (t\<lparr>Minute := n\<rparr>) = month_ok t" "month_ok (t\<lparr>Second := s\<rparr>) = month_ok t"
  by (simp_all add: month_ok_def)

lemma fix_seconds:
  assumes "month_ok t" and "\<not> outside 1 (md (month_no t)) (Day t)" and "\<not> outside 0 23 (Hour t)"
    and "\<not> outside 0 59 (Minute t)"
  shows "TimeDECFix_loop f t =
    Some (mark (outside 0 59 (Second t)) 0 f, t\<lparr>Second := in_range 0 59 (Second t)\<rparr>)"
proof -
  have valid: "TimeDECFix_loop f t = Some (f, t)"
    if "month_ok t" "\<not> outside 1 (md (month_no t)) (Day t)" "\<not> outside 0 23 (Hour t)"
      "\<not> outside 0 59 (Minute t)" "\<not> outside 0 59 (Second t)" for f t
    using that md_u8 [of "month_no t"]
    by (subst TimeDECFix_loop.simps)
      (auto simp: outside_def TimeMonthDays_md word_le_nat_alt word_less_nat_alt month_ok_def word_unat_eq_iff)
  show ?thesis
  proof (cases "outside 0 59 (Second t)")
    case False
    then show ?thesis using valid assms by (simp add: in_range_id mark_def)
  next
    case True
    have "TimeDECFix_loop f t = TimeDECFix_loop (BitSet_u8 f 0) (t\<lparr>Second := 59\<rparr>)"
      using assms True md_u8 [of "month_no t"]
      by (subst TimeDECFix_loop.simps)
        (auto simp: outside_def TimeMonthDays_md word_le_nat_alt word_less_nat_alt month_ok_def word_unat_eq_iff)
    also have "\<dots> = Some (BitSet_u8 f 0, t\<lparr>Second := 59\<rparr>)"
      using assms by (intro valid) (auto simp: outside_def)
    finally show ?thesis using True by (simp add: mark_def in_range_def outside_def)
  qed
qed

lemma fix_minutes:
  assumes "month_ok t" and "\<not> outside 1 (md (month_no t)) (Day t)" and "\<not> outside 0 23 (Hour t)"
  shows "TimeDECFix_loop f t =
    Some (mark (outside 0 59 (Second t)) 0 (mark (outside 0 59 (Minute t)) 1 f),
      t\<lparr>Minute := in_range 0 59 (Minute t), Second := in_range 0 59 (Second t)\<rparr>)"
proof (cases "outside 0 59 (Minute t)")
  case False
  then show ?thesis using fix_seconds [of t f] assms by (simp add: in_range_id mark_def)
next
  case True
  have "TimeDECFix_loop f t = TimeDECFix_loop (BitSet_u8 f 1) (t\<lparr>Minute := 59\<rparr>)"
    using assms True md_u8 [of "month_no t"]
    by (subst TimeDECFix_loop.simps)
      (auto simp: outside_def TimeMonthDays_md word_le_nat_alt word_less_nat_alt month_ok_def word_unat_eq_iff)
  then show ?thesis
    using fix_seconds [of "t\<lparr>Minute := 59\<rparr>"] assms True
    by (simp add: mark_def in_range_def outside_def)
qed

lemma fix_hours:
  assumes "month_ok t" and "\<not> outside 1 (md (month_no t)) (Day t)"
  shows "TimeDECFix_loop f t =
    Some (mark (outside 0 59 (Second t)) 0 (mark (outside 0 59 (Minute t)) 1 (mark (outside 0 23 (Hour t)) 2 f)),
      t\<lparr>Hour := in_range 0 23 (Hour t), Minute := in_range 0 59 (Minute t), Second := in_range 0 59 (Second t)\<rparr>)"
proof (cases "outside 0 23 (Hour t)")
  case False
  then show ?thesis using fix_minutes [of t f] assms by (simp add: in_range_id mark_def)
next
  case True
  have "TimeDECFix_loop f t = TimeDECFix_loop (BitSet_u8 f 2) (t\<lparr>Hour := 23\<rparr>)"
    using assms True md_u8 [of "month_no t"]
    by (subst TimeDECFix_loop.simps)
      (auto simp: outside_def TimeMonthDays_md word_le_nat_alt word_less_nat_alt month_ok_def word_unat_eq_iff)
  then show ?thesis
    using fix_minutes [of "t\<lparr>Hour := 23\<rparr>"] assms True
    by (simp add: mark_def in_range_def outside_def)
qed

lemma fix_days:
  assumes "month_ok t"
  shows "TimeDECFix_loop f t =
    Some (mark (outside 0 59 (Second t)) 0 (mark (outside 0 59 (Minute t)) 1 (mark (outside 0 23 (Hour t)) 2
        (mark (outside 1 (md (month_no t)) (Day t)) 3 f))),
      t\<lparr>Day := in_range 1 (md (month_no t)) (Day t), Hour := in_range 0 23 (Hour t),
        Minute := in_range 0 59 (Minute t), Second := in_range 0 59 (Second t)\<rparr>)"
proof -
  let ?e = "md (month_no t)"
  consider "\<not> outside 1 ?e (Day t)" | "Day t = 0" | "?e < unat (Day t)"
    by (auto simp: outside_def word_unat_eq_iff)
  then show ?thesis
  proof cases
    case 1
    then show ?thesis using fix_hours [of t f] assms by (simp add: in_range_id mark_def)
  next
    case 2
    have "TimeDECFix_loop f t = TimeDECFix_loop (BitSet_u8 f 3) (t\<lparr>Day := 1\<rparr>)"
      using assms 2 by (subst TimeDECFix_loop.simps)
        (auto simp: word_le_nat_alt word_less_nat_alt month_ok_def word_unat_eq_iff)
    then show ?thesis
      using fix_hours [of "t\<lparr>Day := 1\<rparr>"] assms 2 md_bounds [of "month_no t"]
      by (simp add: mark_def in_range_def outside_def)
  next
    case 3
    have "TimeDECFix_loop f t = TimeDECFix_loop (BitSet_u8 f 3) (t\<lparr>Day := of_nat ?e\<rparr>)"
      using assms 3 md_u8 [of "month_no t"] md_bounds [of "month_no t"] by (subst TimeDECFix_loop.simps)
        (auto simp: TimeMonthDays_md word_le_nat_alt word_less_nat_alt month_ok_def word_unat_eq_iff)
    then show ?thesis
      using fix_hours [of "t\<lparr>Day := of_nat ?e\<rparr>"] assms 3 md_bounds [of "month_no t"] md_u8 [of "month_no t"]
      by (simp add: mark_def in_range_def outside_def)
  qed
qed

lemma TimeDECFix_flag_time: "TimeDECFix t = Some (fix_flag t, fixed_time t)"
proof -
  have month: "TimeDECFix_loop f t =
      Some (mark (outside 0 59 (Second t)) 0 (mark (outside 0 59 (Minute t)) 1 (mark (outside 0 23 (Hour t)) 2
        (mark (outside 1 (md (month_no (t\<lparr>Month := in_range 1 12 (Month t)\<rparr>))) (Day t)) 3
        (mark (outside 1 12 (Month t)) 4 f)))), fixed_time t)"
    if y: "unat (Year t) \<le> 99" for f t
  proof -
    have yr: "in_range 0 99 (Year t) = Year t" using y by (simp add: in_range_def)
    consider "\<not> outside 1 12 (Month t)" | "Month t = 0" | "12 < unat (Month t)"
      by (auto simp: outside_def word_unat_eq_iff)
    then show ?thesis
    proof cases
      case 1
      then have "month_ok t" using y by (auto simp: outside_def month_ok_def)
      then show ?thesis using fix_days [of t f] 1 yr by (simp add: in_range_id mark_def fixed_time_def)
    next
      case 2
      have "TimeDECFix_loop f t = TimeDECFix_loop (BitSet_u8 f 4) (t\<lparr>Month := 1\<rparr>)"
        using y 2 by (subst TimeDECFix_loop.simps) (auto simp: word_less_nat_alt)
      moreover have i: "in_range 1 12 (Month t) = 1" "outside 1 12 (Month t)"
        using 2 by (simp_all add: in_range_def outside_def)
      moreover have "month_ok (t\<lparr>Month := 1\<rparr>)" using y by (simp add: month_ok_def)
      ultimately show ?thesis
        using fix_days [of "t\<lparr>Month := 1\<rparr>"] yr i by (simp add: fixed_time_def Let_def)
    next
      case 3
      have "TimeDECFix_loop f t = TimeDECFix_loop (BitSet_u8 f 4) (t\<lparr>Month := 12\<rparr>)"
        using y 3 by (subst TimeDECFix_loop.simps) (auto simp: word_less_nat_alt word_unat_eq_iff)
      moreover have i: "in_range 1 12 (Month t) = 12" "outside 1 12 (Month t)"
        using 3 by (simp_all add: in_range_def outside_def)
      moreover have "month_ok (t\<lparr>Month := 12\<rparr>)" using y by (simp add: month_ok_def)
      ultimately show ?thesis
        using fix_days [of "t\<lparr>Month := 12\<rparr>"] yr i by (simp add: fixed_time_def Let_def)
    qed
  qed
  show ?thesis
  proof (cases "outside 0 99 (Year t)")
    case True
    have "TimeDECFix_loop 0 t = TimeDECFix_loop (BitSet_u8 0 5) (t\<lparr>Year := 99\<rparr>)"
      using True by (subst TimeDECFix_loop.simps) (auto simp: word_less_nat_alt outside_def)
    moreover have "in_range 0 99 (Year t) = 99" using True by (simp add: in_range_def outside_def)
    ultimately show ?thesis
      using month [of "t\<lparr>Year := 99\<rparr>" "BitSet_u8 0 5"] True
      by (simp add: TimeDECFix_def fix_flag_def mark_def fixed_time_def in_range_def [of 0 99])
  next
    case False
    then show ?thesis using month [of t 0]
      by (simp add: TimeDECFix_def fix_flag_def mark_def [of _ 5] in_range_id outside_def [of 0 99])
  qed
qed

lemma fixed_time_ok: "time_ok (fixed_time t)"
proof -
  let ?u = "t\<lparr>Year := in_range 0 99 (Year t), Month := in_range 1 12 (Month t)\<rparr>"
  have "month_ok ?u"
    using in_range_bounds [of 0 99 "Year t"] in_range_bounds [of 1 12 "Month t"] by (simp add: month_ok_def)
  then show ?thesis
    using in_range_bounds [of 0 23 "Hour t"] in_range_bounds [of 0 59 "Minute t"] in_range_bounds [of 0 59 "Second t"]
      in_range_bounds [of 1 "md (month_no ?u)" "Day t"] md_bounds [of "month_no ?u"]
    by (simp add: fixed_time_def time_ok_def clock_ok_def Let_def)
qed

lemma fixed_time_id: "time_ok t \<Longrightarrow> fixed_time t = t \<and> fix_flag t = 0"
  by (simp add: fixed_time_def fix_flag_def mark_def time_ok_def clock_ok_def month_ok_def in_range_def outside_def)

text \<open>C28: \<open>TimeDECFix\<close> ends on every six bytes and leaves a valid time: every field is moved to the
  nearest bound of its range, the day to the one of the month after the correction of year and
  month; the flag has a bit for every field that was changed; a valid time is left as it is.\<close>

theorem TimeDECFix_repairs:
  "TimeDECFix t = Some (fix_flag t, fixed_time t) \<and> TimeDECCheck (fixed_time t) = Some True \<and>
   (TimeDECCheck t = Some True \<longrightarrow> TimeDECFix t = Some (0, t))"
  using TimeDECFix_flag_time [of t] fixed_time_ok [of t] fixed_time_id [of t] by (simp add: TimeDECCheck_ok)

theorem TimeDECFix_repairs_witness:
  "TimeDECCheck \<lparr>Year = 4, Month = 2, Day = 29, Hour = 23, Minute = 59, Second = 59\<rparr> = Some True \<and>
   TimeDECFix \<lparr>Year = 4, Month = 2, Day = 29, Hour = 23, Minute = 59, Second = 59\<rparr> =
     Some (0, \<lparr>Year = 4, Month = 2, Day = 29, Hour = 23, Minute = 59, Second = 59\<rparr>) \<and>
   TimeDECFix \<lparr>Year = 101, Month = 2, Day = 31, Hour = 24, Minute = 7, Second = 60\<rparr> =
     Some (45, \<lparr>Year = 99, Month = 2, Day = 28, Hour = 23, Minute = 7, Second = 59\<rparr>)"
proof -
  have ok: "TimeDECCheck \<lparr>Year = 4, Month = 2, Day = 29, Hour = 23, Minute = 59, Second = 59\<rparr> = Some True"
    by code_simp
  have f: "fix_flag \<lparr>Year = 101, Month = 2, Day = 31, Hour = 24, Minute = 7, Second = 60\<rparr> = 45"
    "fixed_time \<lparr>Year = 101, Month = 2, Day = 31, Hour = 24, Minute = 7, Second = 60\<rparr> =
      \<lparr>Year = 99, Month = 2, Day = 28, Hour = 23, Minute = 7, Second = 59\<rparr>"
    by code_simp+
  show ?thesis using ok f TimeDECFix_repairs by metis
qed

section \<open>Adding, in numbers\<close>

lemma fix_day_ok:
  assumes "time_ok t"
  shows "fix_day t = Some t"
proof -
  have "fixed_time t = t" using fixed_time_id assms by blast
  then show ?thesis by (simp add: fix_day_def TimeDECFix_flag_time)
qed

lemma first_day_ok:
  assumes "month_ok t" and "Day t = 1" and "clock_ok t"
  shows "time_ok t"
  using assms md_bounds [of "month_no t"] by (simp add: time_ok_def)

lemma clock_ok_update [simp]:
  "clock_ok (t\<lparr>Year := y\<rparr>) = clock_ok t" "clock_ok (t\<lparr>Month := m\<rparr>) = clock_ok t"
  "clock_ok (t\<lparr>Day := d\<rparr>) = clock_ok t"
  by (simp_all add: clock_ok_def)

text \<open>The next month, at its first day.\<close>

lemma next_month:
  assumes t: "month_ok t" "Day t = 1" "clock_ok t"
  obtains u where "TimeDECAddMonth t 1 = Some (True, u)" and "month_ok u" and "Day u = 1" and "clock_ok u"
    and "month_no u = (month_no t + 1) mod 1200"
    and "Hour u = Hour t" and "Minute u = Minute t" and "Second u = Second t"
proof (cases "Month t = 12")
  case False
  let ?u = "t\<lparr>Month := Month t + 1\<rparr>"
  have m: "unat (Month t) < 12" "unat (Month t + 1) = unat (Month t) + 1"
    using t(1) False by (auto simp: month_ok_def word_unat_eq_iff unat_word_ariths)
  then have "unat (1 + ucast (Month t) :: u32) = unat (Month t) + 1" by (simp add: unat_word_ariths)
  moreover have "unat (12 :: u32) = 12" by simp
  ultimately have c: "\<not> 1 + ucast (Month t) > (12 :: u32)" using m(1) unfolding word_less_nat_alt by linarith
  have ok: "month_ok ?u" using t(1) m by (simp add: month_ok_def)
  have "TimeDECAddMonth t 1 = Some (True, ?u)"
    using c first_day_ok [OF t] fix_day_ok [OF first_day_ok [of ?u]] ok t(2,3)
    by (simp add: TimeDECAddMonth_def TimeDECCheck_ok)
  moreover have "month_no ?u = (month_no t + 1) mod 1200"
    using m t(1) by (simp add: month_no_def month_ok_def)
  ultimately show ?thesis using that [of ?u] ok t by simp
next
  case True
  let ?v = "t\<lparr>Month := 1\<rparr>"
  let ?u = "?v\<lparr>Year := ucast ((1 + ucast (Year t) :: u32) mod 100)\<rparr>"
  have y: "unat (Year t) < 100" using t(1) by (simp add: month_ok_def)
  have v: "time_ok ?v" using t by (intro first_day_ok) (simp_all add: month_ok_def)
  have yu: "unat (Year ?u) = (unat (Year t) + 1) mod 100"
    using y by (simp add: u32_u8 unat_mod unat_word_ariths)
  have ok: "month_ok ?u" using yu by (simp add: month_ok_def)
  have u: "time_ok ?u" using t ok by (intro first_day_ok) simp_all
  have "TimeDECAddMonth t 1 = Some (True, ?u)"
    using True first_day_ok [OF t] v u fix_day_ok [OF u]
    by (simp add: TimeDECAddMonth_def TimeDECAddYear_def TimeDECCheck_ok)
  moreover have "month_no ?u = (month_no t + 1) mod 1200"
    using yu y True by (simp add: month_no_def mod_Suc)
  ultimately show ?thesis using that [of ?u] ok t by simp
qed

lemma century: "month_ok t \<Longrightarrow> month_no t < 1200"
  unfolding month_no_def month_ok_def by linarith

lemma add_day_loop:
  assumes "month_ok t" and "Day t = 1" and "clock_ok t" and "1 \<le> unat val"
  shows "\<exists>u w. TimeDECAddDay_loop t val (of_nat (md (month_no t))) = Some (True, u, w) \<and>
    month_ok u \<and> Day u = 1 \<and> Hour u = Hour t \<and> Minute u = Minute t \<and> Second u = Second t \<and>
    1 \<le> unat w \<and> unat w \<le> md (month_no u) \<and>
    (dsum (month_no u) + unat w) mod 36525 = (dsum (month_no t) + unat val) mod 36525"
  using assms
proof (induction "unat val" arbitrary: t val rule: less_induct)
  case less
  let ?m = "md (month_no t)"
  have m: "unat (ucast (of_nat ?m :: u8) :: u32) = ?m" by (simp add: md_u8)
  show ?case
  proof (cases "?m < unat val")
    case False
    then have "TimeDECAddDay_loop t val (of_nat ?m) = Some (True, t, val)"
      using m by (subst TimeDECAddDay_loop.simps) (simp add: word_less_nat_alt)
    then show ?thesis using False less.prems by simp
  next
    case True
    obtain u where u: "TimeDECAddMonth t 1 = Some (True, u)" "month_ok u" "Day u = 1" "clock_ok u"
      "month_no u = (month_no t + 1) mod 1200" "Hour u = Hour t" "Minute u = Minute t" "Second u = Second t"
      using next_month less.prems(1,2,3) by blast
    let ?v = "val - ucast (of_nat ?m :: u8)"
    have v: "unat ?v = unat val - ?m" using True m by (simp add: unat_sub word_le_nat_alt)
    have "TimeDECAddDay_loop t val (of_nat ?m) = TimeDECAddDay_loop u ?v (of_nat (md (month_no u)))"
      using True m u(1) by (subst TimeDECAddDay_loop.simps) (simp add: word_less_nat_alt TimeMonthDays_md [OF u(2)])
    moreover have "(dsum (month_no u) + unat ?v) mod 36525 = (dsum (month_no t) + unat val) mod 36525"
    proof (cases "month_no t + 1 = 1200")
      case True
      then have "dsum (month_no t) + ?m = 36525" using dsum_century by (metis Suc_eq_plus1 dsum.simps(2))
      then have "dsum (month_no t) + unat val = 36525 + unat ?v" using v \<open>?m < unat val\<close> by linarith
      then show ?thesis using u(5) True by simp
    next
      case False
      then have "month_no u = Suc (month_no t)" using u(5) century [OF less.prems(1)] by simp
      then show ?thesis using v True by simp
    qed
    moreover have "unat ?v < unat val" using v True md_bounds [of "month_no t"] by linarith
    ultimately show ?thesis
      using less.hyps [of ?v u] u(2-) v True md_bounds by simp
  qed
qed

lemma unat_add_u8: "unat val + unat x < 2 ^ 32 \<Longrightarrow> unat (val + ucast x :: u32) = unat val + unat x" for x :: u8
  by (simp add: unat_word_ariths)

lemma day_ok: "time_ok t \<Longrightarrow> 1 \<le> unat (Day t)" "time_ok t \<Longrightarrow> unat (Day t) \<le> md (month_no t)"
  by (simp_all add: time_ok_def)

lemma day_no_bound: "time_ok t \<Longrightarrow> day_no t < 36525"
  using dsum_less [of "month_no t" 1200] century [of t] dsum_century by (auto simp: day_no_def time_ok_def)

lemma TimeDECAddDay_spec:
  assumes t: "time_ok t" and v: "unat val + unat (Day t) < 2 ^ 32"
  shows "\<exists>u. TimeDECAddDay t val = Some (True, u) \<and> time_ok u \<and> day_no u = (day_no t + unat val) mod 36525 \<and>
    Hour u = Hour t \<and> Minute u = Minute t \<and> Second u = Second t"
proof -
  let ?t = "t\<lparr>Day := 1\<rparr>" and ?v = "val + ucast (Day t)"
  have m: "month_ok ?t" "clock_ok ?t" "month_ok t" using t by (simp_all add: time_ok_def)
  have v': "unat ?v = unat val + unat (Day t)" using v by (rule unat_add_u8)
  obtain u w where u: "TimeDECAddDay_loop ?t ?v (of_nat (md (month_no ?t))) = Some (True, u, w)"
    "month_ok u" "Hour u = Hour t" "Minute u = Minute t" "Second u = Second t"
    "1 \<le> unat w" "unat w \<le> md (month_no u)"
    "(dsum (month_no u) + unat w) mod 36525 = (dsum (month_no t) + unat ?v) mod 36525"
    using add_day_loop [of ?t ?v] m v' day_ok(1) [OF t] by auto
  let ?u = "u\<lparr>Day := ucast w\<rparr>"
  have d: "unat (Day ?u) = unat w" using u(7) md_bounds(2) [of "month_no u"] by (simp add: u32_u8)
  have ok: "time_ok ?u" using u m(2) d by (simp add: time_ok_def clock_ok_def)
  have "Suc (day_no ?u) mod 36525 = (Suc (day_no t + unat val)) mod 36525"
    using u(6,8) d v' day_ok(1) [OF t] by (simp add: day_no_def ac_simps)
  then have "day_no ?u mod 36525 = (day_no t + unat val) mod 36525"
    unfolding nat_mod_eq_iff add_Suc nat.inject .
  then have "day_no ?u = (day_no t + unat val) mod 36525" using day_no_bound [OF ok] by simp
  moreover have "TimeDECAddDay t val = Some (True, ?u)"
    using u(1) t TimeMonthDays_md [OF m(3)] by (simp add: TimeDECAddDay_def TimeDECCheck_ok Let_def)
  ultimately show ?thesis using ok u by auto
qed

text \<open>The places of the clock: the carry is handed to the next unit.\<close>

lemma mod_add_same: "a mod n = b mod n \<Longrightarrow> (a + c) mod n = (b + c) mod n" for a b c n :: nat
  by (metis mod_add_left_eq)

lemma carry_mod:
  fixes a v n m :: nat
  assumes "0 < n"
  shows "n * ((a + v div n) mod m) + v mod n = (n * a + v) mod (m * n)"
proof -
  have e: "n * a + v = n * (a + v div n) + v mod n" by (simp add: algebra_simps)
  have "(n * a + v) div n = a + v div n" "(n * a + v) mod n = v mod n" using assms by simp_all
  then show ?thesis by (simp add: mod_mult2_eq mult.commute [of m])
qed

lemma TimeDECAddHour_spec:
  assumes t: "time_ok t" and v: "unat val + unat (Hour t) < 2 ^ 32"
  shows "\<exists>u. TimeDECAddHour t val = Some (True, u) \<and> time_ok u \<and>
    hour_no u = (hour_no t + unat val) mod (36525 * 24) \<and> Minute u = Minute t \<and> Second u = Second t"
proof -
  let ?v = "val + ucast (Hour t)"
  have v': "unat ?v = unat val + unat (Hour t)" using v by (rule unat_add_u8)
  have c: "hour_no t + unat val = 24 * day_no t + unat ?v" using v' by (simp add: hour_no_def)
  have day: "day_no t < 36525" using day_no_bound [OF t] by simp
  show ?thesis
  proof (cases "24 \<le> unat ?v")
    case False
    let ?u = "t\<lparr>Hour := Hour t + ucast val\<rparr>"
    have h: "unat (Hour ?u) = unat ?v" using False v' by (simp add: u32_u8 unat_word_ariths)
    have "time_ok ?u" using False h t by (simp add: time_ok_def clock_ok_def)
    moreover have "hour_no ?u = (hour_no t + unat val) mod (36525 * 24)"
      using h False c day by (simp add: hour_no_def day_no_def)
    moreover have "TimeDECAddHour t val = Some (True, ?u)"
      using False t by (simp add: TimeDECAddHour_def TimeDECCheck_ok word_le_nat_alt)
    ultimately show ?thesis by auto
  next
    case True
    have d: "unat (?v div 24) = unat ?v div 24" by (simp add: unat_div)
    have "unat (?v div 24) + unat (Day t) < 2 ^ 32"
      using unat_less_u32 [of ?v] unat_less_u8 [of "Day t"] times_div_less_eq_dividend [of 24 "unat ?v"]
      unfolding d by simp
    then obtain u where u: "TimeDECAddDay t (?v div 24) = Some (True, u)" "time_ok u"
      "day_no u = (day_no t + unat ?v div 24) mod (36525)" "Minute u = Minute t" "Second u = Second t"
      using TimeDECAddDay_spec [OF t, of "?v div 24"] unfolding d by auto
    let ?u = "u\<lparr>Hour := ucast (?v mod 24)\<rparr>"
    have h: "unat (Hour ?u) = unat ?v mod 24" by (simp add: u32_u8 unat_mod)
    have "time_ok ?u" using u(2) h by (simp add: time_ok_def clock_ok_def)
    moreover have "hour_no ?u = (hour_no t + unat val) mod (36525 * 24)"
      using h u(3) carry_mod [of 24 "day_no t" "unat ?v" "36525"] unfolding c by (simp add: hour_no_def day_no_def)
    moreover have "TimeDECAddHour t val = Some (True, ?u)"
      using True t u(1) by (simp add: TimeDECAddHour_def TimeDECCheck_ok word_le_nat_alt Let_def)
    ultimately show ?thesis using u by auto
  qed
qed

lemma hour_no_bound: "time_ok t \<Longrightarrow> hour_no t < 36525 * 24"
  using day_no_bound [of t] by (auto simp: hour_no_def time_ok_def clock_ok_def)

lemma TimeDECAddMinute_spec:
  assumes t: "time_ok t" and v: "unat val + unat (Minute t) < 2 ^ 32"
  shows "\<exists>u. TimeDECAddMinute t val = Some (True, u) \<and> time_ok u \<and>
    minute_no u = (minute_no t + unat val) mod (36525 * 24 * 60) \<and> Second u = Second t"
proof -
  let ?v = "val + ucast (Minute t)"
  have v': "unat ?v = unat val + unat (Minute t)" using v by (rule unat_add_u8)
  have c: "minute_no t + unat val = 60 * hour_no t + unat ?v" using v' by (simp add: minute_no_def)
  have hour: "hour_no t < 36525 * 24" using hour_no_bound [OF t] by simp
  show ?thesis
  proof (cases "60 \<le> unat ?v")
    case False
    let ?u = "t\<lparr>Minute := Minute t + ucast val\<rparr>"
    have h: "unat (Minute ?u) = unat ?v" using False v' by (simp add: u32_u8 unat_word_ariths)
    have "time_ok ?u" using False h t by (simp add: time_ok_def clock_ok_def)
    moreover have "minute_no ?u = (minute_no t + unat val) mod (36525 * 24 * 60)"
      using h False c hour by (simp add: minute_no_def hour_no_def day_no_def)
    moreover have "TimeDECAddMinute t val = Some (True, ?u)"
      using False t by (simp add: TimeDECAddMinute_def TimeDECCheck_ok word_le_nat_alt)
    ultimately show ?thesis by auto
  next
    case True
    have d: "unat (?v div 60) = unat ?v div 60" by (simp add: unat_div)
    have "unat (?v div 60) + unat (Hour t) < 2 ^ 32"
      using unat_less_u32 [of ?v] unat_less_u8 [of "Hour t"] times_div_less_eq_dividend [of 60 "unat ?v"]
      unfolding d by simp
    then obtain u where u: "TimeDECAddHour t (?v div 60) = Some (True, u)" "time_ok u"
      "hour_no u = (hour_no t + unat ?v div 60) mod (36525 * 24)" "Second u = Second t"
      using TimeDECAddHour_spec [OF t, of "?v div 60"] unfolding d by auto
    let ?u = "u\<lparr>Minute := ucast (?v mod 60)\<rparr>"
    have h: "unat (Minute ?u) = unat ?v mod 60" by (simp add: u32_u8 unat_mod)
    have "time_ok ?u" using u(2) h by (simp add: time_ok_def clock_ok_def)
    moreover have "minute_no ?u = (minute_no t + unat val) mod (36525 * 24 * 60)"
      using h u(3) carry_mod [of 60 "hour_no t" "unat ?v" "36525 * 24"] unfolding c by (simp add: minute_no_def hour_no_def day_no_def)
    moreover have "TimeDECAddMinute t val = Some (True, ?u)"
      using True t u(1) by (simp add: TimeDECAddMinute_def TimeDECCheck_ok word_le_nat_alt Let_def)
    ultimately show ?thesis using u by auto
  qed
qed

lemma minute_no_bound: "time_ok t \<Longrightarrow> minute_no t < 36525 * 24 * 60"
  using hour_no_bound [of t] by (auto simp: minute_no_def time_ok_def clock_ok_def)

lemma TimeDECAddSecond_spec:
  assumes t: "time_ok t" and v: "unat val + unat (Second t) < 2 ^ 32"
  shows "\<exists>u. TimeDECAddSecond t val = Some (True, u) \<and> time_ok u \<and>
    second_no u = (second_no t + unat val) mod (36525 * 24 * 60 * 60)"
proof -
  let ?v = "val + ucast (Second t)"
  have v': "unat ?v = unat val + unat (Second t)" using v by (rule unat_add_u8)
  have c: "second_no t + unat val = 60 * minute_no t + unat ?v" using v' by (simp add: second_no_def)
  have minute: "minute_no t < 36525 * 24 * 60" using minute_no_bound [OF t] by simp
  show ?thesis
  proof (cases "60 \<le> unat ?v")
    case False
    let ?u = "t\<lparr>Second := Second t + ucast val\<rparr>"
    have h: "unat (Second ?u) = unat ?v" using False v' by (simp add: u32_u8 unat_word_ariths)
    have "time_ok ?u" using False h t by (simp add: time_ok_def clock_ok_def)
    moreover have "second_no ?u = (second_no t + unat val) mod (36525 * 24 * 60 * 60)"
      using h False c minute by (simp add: second_no_def minute_no_def hour_no_def day_no_def)
    moreover have "TimeDECAddSecond t val = Some (True, ?u)"
      using False t by (simp add: TimeDECAddSecond_def TimeDECCheck_ok word_le_nat_alt)
    ultimately show ?thesis by auto
  next
    case True
    have d: "unat (?v div 60) = unat ?v div 60" by (simp add: unat_div)
    have "unat (?v div 60) + unat (Minute t) < 2 ^ 32"
      using unat_less_u32 [of ?v] unat_less_u8 [of "Minute t"] times_div_less_eq_dividend [of 60 "unat ?v"]
      unfolding d by simp
    then obtain u where u: "TimeDECAddMinute t (?v div 60) = Some (True, u)" "time_ok u"
      "minute_no u = (minute_no t + unat ?v div 60) mod (36525 * 24 * 60)"
      using TimeDECAddMinute_spec [OF t, of "?v div 60"] unfolding d by auto
    let ?u = "u\<lparr>Second := ucast (?v mod 60)\<rparr>"
    have h: "unat (Second ?u) = unat ?v mod 60" by (simp add: u32_u8 unat_mod)
    have "time_ok ?u" using u(2) h by (simp add: time_ok_def clock_ok_def)
    moreover have "second_no ?u = (second_no t + unat val) mod (36525 * 24 * 60 * 60)"
      using h u(3) carry_mod [of 60 "minute_no t" "unat ?v" "36525 * 24 * 60"] unfolding c by (simp add: second_no_def minute_no_def hour_no_def day_no_def)
    moreover have "TimeDECAddSecond t val = Some (True, ?u)"
      using True t u(1) by (simp add: TimeDECAddSecond_def TimeDECCheck_ok word_le_nat_alt Let_def)
    ultimately show ?thesis using u by auto
  qed
qed

lemma second_no_bound: "time_ok t \<Longrightarrow> second_no t < 36525 * 24 * 60 * 60"
  using minute_no_bound [of t] by (auto simp: second_no_def time_ok_def clock_ok_def)

text \<open>The month is changed before the year is added: a day the new month does not have fails the
  check of \<open>TimeDECAddYear\<close>, and the invalid date stays in the caller's time.\<close>

lemma add_month_leaves_invalid_day:
  "TimeDECAddMonth \<lparr>Year = 0, Month = 1, Day = 31, Hour = 0, Minute = 0, Second = 0\<rparr> 13 =
     Some (False, \<lparr>Year = 0, Month = 2, Day = 31, Hour = 0, Minute = 0, Second = 0\<rparr>)"
  by code_simp

text \<open>The day is fitted to the month of the year before, not to the one that is wanted: two months
  before 2004-02-29 is 2003-12-28.\<close>

lemma sub_month_fits_wrong_month:
  "TimeDECSubMonth \<lparr>Year = 4, Month = 2, Day = 29, Hour = 0, Minute = 0, Second = 0\<rparr> 2 =
     Some (True, \<lparr>Year = 3, Month = 12, Day = 28, Hour = 0, Minute = 0, Second = 0\<rparr>)"
proof -
  have f: "fixed_time \<lparr>Year = 3, Month = 2, Day = 29, Hour = 0, Minute = 0, Second = 0\<rparr> =
      \<lparr>Year = 3, Month = 2, Day = 28, Hour = 0, Minute = 0, Second = 0\<rparr>"
    "fixed_time \<lparr>Year = 3, Month = 12, Day = 28, Hour = 0, Minute = 0, Second = 0\<rparr> =
      \<lparr>Year = 3, Month = 12, Day = 28, Hour = 0, Minute = 0, Second = 0\<rparr>"
    by code_simp+
  have c: "TimeDECCheck \<lparr>Year = 4, Month = 2, Day = 29, Hour = 0, Minute = 0, Second = 0\<rparr> = Some True"
    by code_simp
  show ?thesis
    using f c by (simp add: TimeDECSubMonth_def TimeDECSubYear_def fix_day_def TimeDECFix_flag_time)
qed

section \<open>Differences, in numbers\<close>

lemma lex_less:
  fixes n a b s u :: nat
  assumes "s < n" and "u < n"
  shows "n * a + s < n * b + u \<longleftrightarrow> a < b \<or> a = b \<and> s < u"
proof -
  have "n * x + y < n * z + w" if "x < z" "y < n" for x y z w
  proof -
    have "n * Suc x \<le> n * z" using that(1) by (intro mult_le_mono2) simp
    then show ?thesis using that(2) by simp
  qed
  then show ?thesis using assms by (metis add_less_cancel_left less_asym linorder_neqE_nat)
qed

lemma day_less:
  assumes "d < md i" and "e < md j"
  shows "dsum i + d < dsum j + e \<longleftrightarrow> i < j \<or> i = j \<and> d < e"
  using assms dsum_less [of i j] dsum_less [of j i] by (cases i j rule: linorder_cases) auto

lemma second_less:
  assumes t: "time_ok t" and u: "time_ok u"
  shows "second_no t < second_no u \<longleftrightarrow> Year t < Year u \<or> Year t = Year u \<and> (Month t < Month u \<or>
      Month t = Month u \<and> (Day t < Day u \<or> Day t = Day u \<and> (Hour t < Hour u \<or> Hour t = Hour u \<and>
      (Minute t < Minute u \<or> Minute t = Minute u \<and> Second t < Second u))))"
proof -
  have c: "unat (Hour t) < 24" "unat (Minute t) < 60" "unat (Second t) < 60"
    "unat (Hour u) < 24" "unat (Minute u) < 60" "unat (Second u) < 60"
    using assms unfolding time_ok_def clock_ok_def by blast+
  have d: "1 \<le> unat (Day t)" "unat (Day t) - 1 < md (month_no t)"
    "1 \<le> unat (Day u)" "unat (Day u) - 1 < md (month_no u)"
    using t u unfolding time_ok_def by auto
  have m: "1 \<le> unat (Month t)" "unat (Month t) - 1 < 12" "1 \<le> unat (Month u)" "unat (Month u) - 1 < 12"
    using t u unfolding time_ok_def month_ok_def by auto
  have s: "n * a + x = n * b + y \<longleftrightarrow> a = b \<and> x = y" if "x < n" "y < n" for n a b x y :: nat
    using that digits_eq by blast
  have e: "dsum i + x = dsum j + y \<longleftrightarrow> i = j \<and> x = y" if "x < md i" "y < md j" for i j x y
    using that day_unique by blast
  have p: "x - 1 < y - 1 \<longleftrightarrow> x < y" "x - 1 = y - 1 \<longleftrightarrow> x = y" if "1 \<le> x" "1 \<le> y" for x y :: nat
    using that by auto
  show ?thesis
    unfolding second_no_def lex_less [OF c(3) c(6)] minute_no_def lex_less [OF c(2) c(5)] s [OF c(2) c(5)]
      hour_no_def lex_less [OF c(1) c(4)] s [OF c(1) c(4)] day_no_def day_less [OF d(2) d(4)] e [OF d(2) d(4)]
      p [OF d(1) d(3)]
    unfolding month_no_def lex_less [OF m(2) m(4)] s [OF m(2) m(4)] p [OF m(1) m(3)]
      word_less_nat_alt word_unat_eq_iff
    by blast
qed

lemma TimeComp_loop_lex:
  "length xs = length ys \<Longrightarrow> TimeComp_loop xs ys =
    (if ord_class.lexordp xs ys then TIME_EARLY else if ord_class.lexordp ys xs then TIME_LATE else TIME_EQUAL)"
  by (induction xs ys rule: TimeComp_loop.induct) auto

lemma TimeComp_order:
  assumes "time_ok t" and "time_ok u"
  shows "TimeComp t u = (if second_no t < second_no u then TIME_EARLY
    else if second_no u < second_no t then TIME_LATE else TIME_EQUAL)"
proof -
  have step: "ord_class.lexordp (x # xs) (y # ys) \<longleftrightarrow> x < y \<or> x = y \<and> ord_class.lexordp xs ys"
    for x y :: u8 and xs ys by auto
  have "ord_class.lexordp (time_bytes a) (time_bytes b) \<longleftrightarrow> second_no a < second_no b"
    if "time_ok a" "time_ok b" for a b
    unfolding second_less [OF that] time_bytes_def step by simp
  note this [OF assms] this [OF assms(2) assms(1)]
  moreover have "length (time_bytes t) = length (time_bytes u)" by (simp add: time_bytes_def)
  ultimately show ?thesis unfolding TimeComp_def by (simp only: TimeComp_loop_lex)
qed

lemma Swap_bytes_swaps: "Swap_bytes a b = (b, a)"
  by (simp add: Swap_bytes_def Let_def xor.assoc xor.commute xor.left_commute)

lemma TimeSwap_swaps: "TimeSwap t u = (u, t)"
  by (simp add: TimeSwap_def Swap_bytes_swaps)

lemma unat_of_nat_u32_md: "unat (of_nat (md k) :: u32) = md k"
  using md_bounds(2) [of k] by (simp add: unat_of_nat_u32)

lemma month_sum:
  assumes "month_ok t" and "month_ok u" and "month_no t \<le> month_no u"
  shows "month_sum_loop one (Year t) (Month t) (Year u) (Month u) s =
    Some (s + of_nat (dsum (month_no u) - dsum (month_no t)) * one)"
  using assms
proof (induction "month_no u - month_no t" arbitrary: t s)
  case 0
  then have "month_no t = month_no u" by simp
  moreover have "1 \<le> unat (Month t)" "unat (Month t) - 1 < 12" "1 \<le> unat (Month u)" "unat (Month u) - 1 < 12"
    using 0 by (auto simp: month_ok_def)
  ultimately have "unat (Year t) = unat (Year u) \<and> unat (Month t) = unat (Month u)"
    unfolding month_no_def using digits_eq by (metis diff_add)
  then show ?case using 0 by (subst month_sum_loop.simps) (simp add: word_unat_eq_iff)
next
  case (Suc k)
  let ?v = "if Month t = 12 then t\<lparr>Year := Year t + 1, Month := 1\<rparr> else t\<lparr>Month := Month t + 1\<rparr>"
  have ne: "\<not> (Year t = Year u \<and> Month t = Month u)" using Suc.hyps(2) by (auto simp: month_no_def)
  have lt: "Suc (month_no t) \<le> month_no u" using Suc.hyps(2) by simp
  have nxt: "month_ok ?v \<and> month_no ?v = Suc (month_no t)"
  proof (cases "Month t = 12")
    case True
    then have "unat (Month t) = 12" by simp
    then have "unat (Year t) < 99"
      using lt Suc.prems(2) unfolding month_ok_def month_no_def by linarith
    then have "unat (Year t + 1) = unat (Year t) + 1" by (simp add: unat_word_ariths)
    then show ?thesis using True \<open>unat (Year t) < 99\<close> by (simp add: month_ok_def month_no_def)
  next
    case False
    then have "unat (Month t) < 12" using Suc.prems(1) by (auto simp: month_ok_def word_unat_eq_iff)
    then have "unat (Month t + 1) = unat (Month t) + 1" by (simp add: unat_word_ariths)
    then show ?thesis using False Suc.prems(1) \<open>unat (Month t) < 12\<close> by (simp add: month_ok_def month_no_def)
  qed
  have d: "ucast (of_nat (md (month_no t)) :: u8) = (of_nat (md (month_no t)) :: u32)"
    by (rule word_unat_eq_iff [THEN iffD2]) (simp add: md_u8 unat_of_nat_u32_md)
  have "month_sum_loop one (Year t) (Month t) (Year u) (Month u) s =
      month_sum_loop one (Year ?v) (Month ?v) (Year u) (Month u) (s + of_nat (md (month_no t)) * one)"
    using ne d by (subst month_sum_loop.simps) (auto simp: TimeMonthDays_md [OF Suc.prems(1)])
  also have "\<dots> = Some (s + of_nat (md (month_no t)) * one + of_nat (dsum (month_no u) - dsum (month_no ?v)) * one)"
    using nxt lt Suc.prems(2) Suc.hyps(2) by (intro Suc.hyps(1)) auto
  also have "\<dots> = Some (s + of_nat (md (month_no t) + (dsum (month_no u) - dsum (Suc (month_no t)))) * one)"
    using nxt by (simp add: distrib_right add.assoc)
  also have "md (month_no t) + (dsum (month_no u) - dsum (Suc (month_no t))) = dsum (month_no u) - dsum (month_no t)"
    using dsum_mono [OF lt] by simp
  finally show ?case .
qed

definition time_diff :: "TIME \<Rightarrow> TIME \<Rightarrow> nat" where
  "time_diff t u = (second_no t - second_no u) + (second_no u - second_no t)"

lemma s8_diff_unat:
  assumes "unat a < 128" and "unat b < 128"
  shows "s8_diff b a = int (unat b) - int (unat a)"
proof -
  have "sint x = int (unat x)" if "unat x < 128" for x :: u8
  proof -
    have "int (unat x) < 128" using that by linarith
    then have "uint x < 128" by simp
    moreover have "- 128 \<le> uint x" using uint_ge_0 [of x] by linarith
    ultimately show ?thesis by (simp add: sint_uint signed_take_bit_int_eq_self)
  qed
  then show ?thesis using assms by (simp add: s8_diff_def)
qed

lemma century_seconds: "time_ok t \<Longrightarrow> second_no t < 3155760000"
  using second_no_bound [of t] by simp

lemma sub_ordered:
  assumes t: "time_ok t" and u: "time_ok u" and le: "second_no t \<le> second_no u"
  shows "month_sum_loop ONE_DAY (Year t) (Month t) (Year u) (Month u) 0 =
      Some (of_nat (dsum (month_no u) - dsum (month_no t)) * ONE_DAY)"
    and "(of_int (uint (of_nat (dsum (month_no u) - dsum (month_no t)) * ONE_DAY) +
        s8_diff (Day u) (Day t) * uint ONE_DAY + s8_diff (Hour u) (Hour t) * uint ONE_HOUR +
        s8_diff (Minute u) (Minute t) * uint ONE_MINUTE + s8_diff (Second u) (Second t)) :: u32) =
      of_nat (second_no u - second_no t)"
proof -
  have d: "1 \<le> unat (Day t)" "unat (Day t) \<le> 31" "1 \<le> unat (Day u)" "unat (Day u) \<le> 31"
    using t u md_bounds(2) [of "month_no t"] md_bounds(2) [of "month_no u"] by (auto simp: time_ok_def)
  have c: "unat (Hour t) < 24" "unat (Minute t) < 60" "unat (Second t) < 60"
    "unat (Hour u) < 24" "unat (Minute u) < 60" "unat (Second u) < 60"
    using t u unfolding time_ok_def clock_ok_def by blast+
  have m: "month_ok t" "month_ok u" using t u by (simp_all add: time_ok_def)
  have "\<not> second_no u < second_no t" using le by simp
  then have "month_no t \<le> month_no u"
    using m unfolding second_less [OF u t] month_no_def month_ok_def
    by (auto simp: not_less word_le_nat_alt word_less_nat_alt word_unat_eq_iff)
  then show "month_sum_loop ONE_DAY (Year t) (Month t) (Year u) (Month u) 0 =
      Some (of_nat (dsum (month_no u) - dsum (month_no t)) * ONE_DAY)"
    using month_sum [OF m] by simp
  have e: "int (second_no u) - int (second_no t) = 86400 * (int (dsum (month_no u)) - int (dsum (month_no t))) +
      (int (unat (Day u)) - int (unat (Day t))) * 86400 + (int (unat (Hour u)) - int (unat (Hour t))) * 3600 +
      (int (unat (Minute u)) - int (unat (Minute t))) * 60 + (int (unat (Second u)) - int (unat (Second t)))"
    using d by (simp add: second_no_def minute_no_def hour_no_def day_no_def of_nat_diff)
  have n: "int (dsum (month_no u)) - int (dsum (month_no t)) = int (dsum (month_no u) - dsum (month_no t))"
    using dsum_mono [OF \<open>month_no t \<le> month_no u\<close>] by (simp add: of_nat_diff)
  have s: "s8_diff (Day u) (Day t) = int (unat (Day u)) - int (unat (Day t))"
    "s8_diff (Hour u) (Hour t) = int (unat (Hour u)) - int (unat (Hour t))"
    "s8_diff (Minute u) (Minute t) = int (unat (Minute u)) - int (unat (Minute t))"
    "s8_diff (Second u) (Second t) = int (unat (Second u)) - int (unat (Second t))"
    by (rule s8_diff_unat; use c d in linarith)+
  have o: "uint ONE_DAY = 86400" "uint ONE_HOUR = 3600" "uint ONE_MINUTE = 60"
    by (simp_all add: ONE_DAY_def ONE_HOUR_def ONE_MINUTE_def)
  have "(of_nat (second_no u - second_no t) :: u32) = of_int (int (second_no u) - int (second_no t))"
    using le by (metis of_int_of_nat_eq of_nat_diff)
  then show "(of_int (uint (of_nat (dsum (month_no u) - dsum (month_no t)) * ONE_DAY) +
        s8_diff (Day u) (Day t) * uint ONE_DAY + s8_diff (Hour u) (Hour t) * uint ONE_HOUR +
        s8_diff (Minute u) (Minute t) * uint ONE_MINUTE + s8_diff (Second u) (Second t)) :: u32) =
      of_nat (second_no u - second_no t)"
    unfolding e n s o by (simp add: ONE_DAY_def mult.commute)
qed

lemma TimeDECSubTime_diff:
  assumes t: "time_ok t" and u: "time_ok u"
  shows "TimeDECSubTime t u = Some (of_nat (time_diff t u))"
proof -
  have late: "TimeComp t u AND TIME_LATE \<noteq> 0 \<longleftrightarrow> second_no u < second_no t"
    unfolding TimeComp_order [OF t u] by (simp add: TIME_EARLY_def TIME_LATE_def TIME_EQUAL_def)
  show ?thesis
  proof (cases "second_no u < second_no t")
    case True
    then show ?thesis
      using sub_ordered [OF u t] t u late
      by (simp add: TimeDECSubTime_def TimeDECCheck_ok TimeSwap_swaps time_diff_def)
  next
    case False
    then show ?thesis
      using sub_ordered [OF t u] t u late
      by (simp add: TimeDECSubTime_def TimeDECCheck_ok time_diff_def)
  qed
qed

lemma INIT_TIME_ok: "time_ok INIT_TIME" "second_no INIT_TIME = 0"
  by (simp_all add: INIT_TIME_def time_ok_def month_ok_def clock_ok_def second_no_def minute_no_def hour_no_def
      day_no_def month_no_def md_def mdays_def)

lemma TimeDECToStamp_no: "time_ok t \<Longrightarrow> TimeDECToStamp t = Some (of_nat (second_no t + 1))"
  using INIT_TIME_ok TimeDECSubTime_diff [OF _ INIT_TIME_ok(1)]
  by (simp add: TimeDECToStamp_def TimeDECCheck_ok time_diff_def add.commute)

lemma TimeDECStampToTime_no:
  assumes "stamp \<noteq> 0"
  shows "\<exists>u. TimeDECStampToTime stamp = Some u \<and> time_ok u \<and> second_no u = (unat stamp - 1) mod 3155760000"
proof -
  have "unat (stamp - 1) = unat stamp - 1" using assms by (simp add: unat_minus_one)
  moreover have "unat (stamp - 1) + unat (Second INIT_TIME) < 2 ^ 32"
    using unat_less_u32 [of "stamp - 1"] by (simp add: INIT_TIME_def)
  ultimately show ?thesis
    using TimeDECAddSecond_spec [OF INIT_TIME_ok(1), of "stamp - 1"] INIT_TIME_ok(2) assms
    by (auto simp: TimeDECStampToTime_def ERROR_STAMP_def)
qed

text \<open>C16: The stamp of a valid time counts the seconds from 2000-01-01 00:00:00 on, plus one, is never
  the error stamp 0, and gives the time back; the difference of two valid times is the absolute
  difference of their stamps.\<close>

theorem stamp_round_trip:
  assumes "TimeDECCheck t = Some True" and "TimeDECCheck u = Some True"
  shows "\<exists>s r. TimeDECToStamp t = Some s \<and> TimeDECToStamp u = Some r \<and> s \<noteq> ERROR_STAMP \<and>
    unat s = second_no t + 1 \<and> TimeDECStampToTime s = Some t \<and>
    TimeDECSubTime t u = Some (if r \<le> s then s - r else r - s)"
proof -
  have ok: "time_ok t" "time_ok u" using assms by (simp_all add: TimeDECCheck_ok)
  let ?s = "of_nat (second_no t + 1) :: u32" and ?r = "of_nat (second_no u + 1) :: u32"
  have s: "unat ?s = second_no t + 1" and r: "unat ?r = second_no u + 1"
    using century_seconds [OF ok(1)] century_seconds [OF ok(2)] by (simp_all only: unat_of_nat_u32) simp_all
  have s0: "?s \<noteq> 0" using s by (metis add_is_0 unat_0 zero_neq_one)
  obtain v where v: "TimeDECStampToTime ?s = Some v" "time_ok v" "second_no v = (unat ?s - 1) mod 3155760000"
    using TimeDECStampToTime_no [OF s0] by blast
  then have "v = t" using s ok century_seconds [OF ok(1)] by (intro time_eqI) simp_all
  moreover have "(of_nat (time_diff t u) :: u32) = (if ?r \<le> ?s then ?s - ?r else ?r - ?s)"
    using s r by (auto simp: time_diff_def word_le_nat_alt of_nat_diff)
  ultimately show ?thesis
    using TimeDECToStamp_no [OF ok(1)] TimeDECToStamp_no [OF ok(2)] TimeDECSubTime_diff [OF ok] s s0 v(1)
    by (simp add: ERROR_STAMP_def)
qed

theorem stamp_round_trip_witness:
  "\<exists>s. TimeDECToStamp \<lparr>Year = 17, Month = 2, Day = 28, Hour = 8, Minute = 30, Second = 59\<rparr> = Some s \<and>
    TimeDECStampToTime s = Some \<lparr>Year = 17, Month = 2, Day = 28, Hour = 8, Minute = 30, Second = 59\<rparr>"
proof -
  have "TimeDECCheck \<lparr>Year = 17, Month = 2, Day = 28, Hour = 8, Minute = 30, Second = 59\<rparr> = Some True"
    by code_simp
  then show ?thesis using stamp_round_trip by blast
qed

end
