(* ===== verification/Calendar_Bcd.thy ===== *)
theory Calendar_Bcd
  imports Calendar
begin

text \<open>
  The packed decimal times of common_lib/usdl_time.c, the queries on times (days of a month, day of
  the week, same day) and the local conversions of bytes between binary and packed decimal. A
  packed decimal operation converts its time to binary, works there and converts the result; a
  failure leaves the time in the form it has at that point.
\<close>

unbundle bit_operations_syntax

section \<open>Packed decimal bytes\<close>

definition CheckBCD :: "u8 \<Rightarrow> bool" where
  "CheckBCD bcd \<longleftrightarrow> drop_bit 4 bcd AND 0x0F < 10 \<and> bcd AND 0x0F < 10"

definition CheckDECToBCD :: "u8 \<Rightarrow> bool" where
  "CheckDECToBCD dec \<longleftrightarrow> dec \<le> 99"

primrec MemBCDCheck :: "u8 list \<Rightarrow> bool" where
  "MemBCDCheck [] = True"
| "MemBCDCheck (x # xs) = (if \<not> CheckBCD x then False else MemBCDCheck xs)"

text \<open>The nibble functions are those of \<open>Byte_Data\<close>; usdl_time.c has its own copies of them.\<close>

definition BCDFix :: "u8 \<Rightarrow> bool \<times> u8" where
  "BCDFix bcd =
     (if CheckBCD bcd then (False, bcd)
      else if bcd > 0x99 then (True, 0x00)
      else if GetU8LowU4 bcd > 0x09 then
        (let bcd = SetU8LowU4 bcd 0x00; bcd = SetU8HighU4 bcd (GetU8HighU4 bcd + 1) in (True, bcd))
      else (False, bcd))"

definition DECToBCDU8 :: "u8 \<Rightarrow> u8" where
  "DECToBCDU8 dec = (let quotient = (dec div 10) mod 10 in push_bit 4 quotient + dec - 10 * quotient)"

definition BCDToDECU8 :: "u8 \<Rightarrow> u8" where
  "BCDToDECU8 bcd = (drop_bit 4 bcd AND 0x0F) * 10 + (bcd AND 0x0F)"

definition GetBCDToDECU8 :: "u8 \<Rightarrow> u8" where
  "GetBCDToDECU8 bcd = (drop_bit 4 bcd AND 0x0F) * 10 + (bcd AND 0x0F)"

text \<open>\<open>DECToBCD\<close> fills \<open>len\<close> bytes, the two lowest digits first; \<open>index\<close> counts the bytes written.\<close>

function DECToBCD_loop :: "u8 list \<Rightarrow> u8 \<Rightarrow> u8 \<Rightarrow> u64 \<Rightarrow> u8 list option" where
  "DECToBCD_loop dst len index dec =
     (if dec = 0 then Some dst
      else Option.bind (wr dst (unat index)
          (push_bit 4 (ucast (dec div 10 mod 10)) OR ucast (dec mod 10))) (\<lambda>dst.
        if index + 1 \<ge> len then Some dst
        else DECToBCD_loop dst len (index + 1) (dec div 10 div 10)))"
  by pat_completeness auto
termination
proof (relation "measure (\<lambda>(dst, len, index, dec). unat dec)", goal_cases)
  case (2 dst len index dec)
  then have "0 < unat dec" by (simp add: word_greater_zero_iff unat_gt_0)
  then show ?case by (simp add: unat_div)
qed simp

declare DECToBCD_loop.simps [simp del]

definition DECToBCD :: "u8 \<Rightarrow> u64 \<Rightarrow> u8 list option" where
  "DECToBCD len dec = DECToBCD_loop (replicate (unat len) 0) len 0 dec"

definition GetDECToBCDU8 :: "u8 \<Rightarrow> u8 option" where
  "GetDECToBCDU8 dec = do { dst \<leftarrow> DECToBCD 1 (ucast dec); rd dst 0 }"

section \<open>Packed decimal times\<close>

definition bytes_time :: "(u8 \<Rightarrow> u8) \<Rightarrow> TIME \<Rightarrow> TIME" where
  "bytes_time f t = \<lparr>Year = f (Year t), Month = f (Month t), Day = f (Day t), Hour = f (Hour t),
     Minute = f (Minute t), Second = f (Second t)\<rparr>"

definition TimeBCDToDEC :: "TIME \<Rightarrow> (bool \<times> TIME) option" where
  "TimeBCDToDEC t =
     (if \<not> MemBCDCheck (time_bytes t) then Some (False, t)
      else do {
        let t = bytes_time BCDToDECU8 t;
        ok \<leftarrow> TimeDECCheck t;
        Some (ok, t)
      })"

definition TimeDECToBCD :: "TIME \<Rightarrow> (bool \<times> TIME) option" where
  "TimeDECToBCD t =
     (if \<not> list_all CheckDECToBCD (time_bytes t) then Some (False, t)
      else do {
        ok \<leftarrow> TimeDECCheck t;
        if \<not> ok then Some (False, t) else Some (True, bytes_time DECToBCDU8 t)
      })"

text \<open>The body that the twelve packed decimal operations share, with the binary operation.\<close>

definition bcd_operation :: "(TIME \<Rightarrow> u32 \<Rightarrow> (bool \<times> TIME) option) \<Rightarrow> TIME \<Rightarrow> u32 \<Rightarrow> (bool \<times> TIME) option" where
  "bcd_operation dec_op t val = do {
     (ok, t) \<leftarrow> TimeBCDToDEC t;
     if \<not> ok then Some (False, t)
     else do {
       (ok, t) \<leftarrow> dec_op t val;
       if \<not> ok then Some (False, t) else TimeDECToBCD t
     }
   }"

definition TimeBCDAddYear :: "TIME \<Rightarrow> u32 \<Rightarrow> (bool \<times> TIME) option" where
  "TimeBCDAddYear = bcd_operation TimeDECAddYear"
definition TimeBCDAddMonth :: "TIME \<Rightarrow> u32 \<Rightarrow> (bool \<times> TIME) option" where
  "TimeBCDAddMonth = bcd_operation TimeDECAddMonth"
definition TimeBCDAddDay :: "TIME \<Rightarrow> u32 \<Rightarrow> (bool \<times> TIME) option" where
  "TimeBCDAddDay = bcd_operation TimeDECAddDay"
definition TimeBCDAddHour :: "TIME \<Rightarrow> u32 \<Rightarrow> (bool \<times> TIME) option" where
  "TimeBCDAddHour = bcd_operation TimeDECAddHour"
definition TimeBCDAddMinute :: "TIME \<Rightarrow> u32 \<Rightarrow> (bool \<times> TIME) option" where
  "TimeBCDAddMinute = bcd_operation TimeDECAddMinute"
definition TimeBCDAddSecond :: "TIME \<Rightarrow> u32 \<Rightarrow> (bool \<times> TIME) option" where
  "TimeBCDAddSecond = bcd_operation TimeDECAddSecond"
definition TimeBCDSubYear :: "TIME \<Rightarrow> u32 \<Rightarrow> (bool \<times> TIME) option" where
  "TimeBCDSubYear = bcd_operation TimeDECSubYear"
definition TimeBCDSubMonth :: "TIME \<Rightarrow> u32 \<Rightarrow> (bool \<times> TIME) option" where
  "TimeBCDSubMonth = bcd_operation TimeDECSubMonth"
definition TimeBCDSubDay :: "TIME \<Rightarrow> u32 \<Rightarrow> (bool \<times> TIME) option" where
  "TimeBCDSubDay = bcd_operation TimeDECSubDay"
definition TimeBCDSubHour :: "TIME \<Rightarrow> u32 \<Rightarrow> (bool \<times> TIME) option" where
  "TimeBCDSubHour = bcd_operation TimeDECSubHour"
definition TimeBCDSubMinute :: "TIME \<Rightarrow> u32 \<Rightarrow> (bool \<times> TIME) option" where
  "TimeBCDSubMinute = bcd_operation TimeDECSubMinute"
definition TimeBCDSubSecond :: "TIME \<Rightarrow> u32 \<Rightarrow> (bool \<times> TIME) option" where
  "TimeBCDSubSecond = bcd_operation TimeDECSubSecond"

definition TimeBCDSubTime :: "TIME \<Rightarrow> TIME \<Rightarrow> u32 option" where
  "TimeBCDSubTime t1 t2 = do {
     (ok, t1) \<leftarrow> TimeBCDToDEC t1;
     if \<not> ok then Some 0
     else do {
       (ok, t2) \<leftarrow> TimeBCDToDEC t2;
       if \<not> ok then Some 0 else TimeDECSubTime t1 t2
     }
   }"

definition TimeBCDCheck :: "TIME \<Rightarrow> bool option" where
  "TimeBCDCheck t = map_option fst (TimeBCDToDEC t)"

definition TimeZeroCheck :: "TIME \<Rightarrow> bool" where
  "TimeZeroCheck t \<longleftrightarrow> Year t = 0 \<and> Month t = 0 \<and> Day t = 0 \<and> Hour t = 0 \<and> Minute t = 0 \<and> Second t = 0"

text \<open>\<open>else if (BCDFix(&field) == TRUE)\<close> continues with the corrected byte, else goes on with the next
  test; \<open>BCDFix\<close> that reports FALSE has not changed the byte.\<close>

partial_function (option) TimeBCDFix_loop :: "u8 \<Rightarrow> TIME \<Rightarrow> (u8 \<times> TIME) option" where
  "TimeBCDFix_loop flag t =
     (if Year t > 0x99 then TimeBCDFix_loop (BitSet_u8 flag 5) (t\<lparr>Year := 0x99\<rparr>)
      else if fst (BCDFix (Year t)) then TimeBCDFix_loop (BitSet_u8 flag 5) (t\<lparr>Year := snd (BCDFix (Year t))\<rparr>)
      else if Month t = 0x00 then TimeBCDFix_loop (BitSet_u8 flag 4) (t\<lparr>Month := 0x01\<rparr>)
      else if Month t > 0x12 then TimeBCDFix_loop (BitSet_u8 flag 4) (t\<lparr>Month := 0x12\<rparr>)
      else if fst (BCDFix (Month t)) then TimeBCDFix_loop (BitSet_u8 flag 4) (t\<lparr>Month := snd (BCDFix (Month t))\<rparr>)
      else if Day t = 0x00 then TimeBCDFix_loop (BitSet_u8 flag 3) (t\<lparr>Day := 0x01\<rparr>)
      else Option.bind (TimeMonthDays (GetBCDToDECU8 (Year t)) (GetBCDToDECU8 (Month t))) (\<lambda>days.
        if GetBCDToDECU8 (Day t) > days
        then Option.bind (GetDECToBCDU8 days) (\<lambda>d. TimeBCDFix_loop (BitSet_u8 flag 3) (t\<lparr>Day := d\<rparr>))
        else if fst (BCDFix (Day t)) then TimeBCDFix_loop (BitSet_u8 flag 3) (t\<lparr>Day := snd (BCDFix (Day t))\<rparr>)
        else if Hour t \<ge> 0x24 then TimeBCDFix_loop (BitSet_u8 flag 2) (t\<lparr>Hour := 0x23\<rparr>)
        else if fst (BCDFix (Hour t)) then TimeBCDFix_loop (BitSet_u8 flag 2) (t\<lparr>Hour := snd (BCDFix (Hour t))\<rparr>)
        else if Minute t \<ge> 0x60 then TimeBCDFix_loop (BitSet_u8 flag 1) (t\<lparr>Minute := 0x59\<rparr>)
        else if fst (BCDFix (Minute t)) then TimeBCDFix_loop (BitSet_u8 flag 1) (t\<lparr>Minute := snd (BCDFix (Minute t))\<rparr>)
        else if Second t \<ge> 0x60 then TimeBCDFix_loop (BitSet_u8 flag 0) (t\<lparr>Second := 0x59\<rparr>)
        else if fst (BCDFix (Second t)) then TimeBCDFix_loop (BitSet_u8 flag 0) (t\<lparr>Second := snd (BCDFix (Second t))\<rparr>)
        else Some (flag, t)))"

definition TimeBCDFix :: "TIME \<Rightarrow> (u8 \<times> TIME) option" where
  "TimeBCDFix t = TimeBCDFix_loop 0 t"

definition TimeBCDToStamp :: "TIME \<Rightarrow> u32 option" where
  "TimeBCDToStamp t = do {
     ok \<leftarrow> TimeBCDCheck t;
     if \<not> ok then Some ERROR_STAMP
     else do { d \<leftarrow> TimeBCDSubTime t INIT_TIME; Some (d + 1) }
   }"

definition TimeBCDStampToTime :: "u32 \<Rightarrow> TIME option" where
  "TimeBCDStampToTime stamp =
     (if stamp \<noteq> ERROR_STAMP then map_option snd (TimeBCDAddSecond INIT_TIME (stamp - 1)) else Some INIT_TIME)"

section \<open>Queries\<close>

definition TimeDECMonthDays :: "TIME \<Rightarrow> u8 option" where
  "TimeDECMonthDays t = do {
     ok \<leftarrow> TimeDECCheck t;
     if \<not> ok then Some 0 else TimeMonthDays (Year t) (Month t)
   }"

definition TimeBCDMonthDays :: "TIME \<Rightarrow> u8 option" where
  "TimeBCDMonthDays t = do {
     (ok, t) \<leftarrow> TimeBCDToDEC t;
     if \<not> ok then Some 0 else TimeMonthDays (Year t) (Month t)
   }"

text \<open>The sum is one of ints without a negative part, here a natural number.\<close>

definition TimeDECWeekDay :: "TIME \<Rightarrow> u8 option" where
  "TimeDECWeekDay t = do {
     ok \<leftarrow> TimeDECCheck t;
     if \<not> ok then Some 0x07
     else do {
       let year = (2000 + ucast (Year t) :: u16);
       let (t, year) = (if Month t = 1 \<or> Month t = 2 then (t\<lparr>Month := Month t + 12\<rparr>, year - 1) else (t, year));
       let y = unat year;
       let m = unat (Month t);
       Some (of_nat ((unat (Day t) + 2 * m + 3 * (m + 1) div 5 + y + y div 4 - y div 100 + y div 400) mod 7))
     }
   }"

definition TimeBCDWeekDay :: "TIME \<Rightarrow> u8 option" where
  "TimeBCDWeekDay t = do {
     (ok, t) \<leftarrow> TimeBCDToDEC t;
     if \<not> ok then Some 0x07 else TimeDECWeekDay t
   }"

definition both_ok :: "TIME \<Rightarrow> TIME \<Rightarrow> bool option" where
  "both_ok t1 t2 = do { ok \<leftarrow> TimeDECCheck t1; if \<not> ok then Some False else TimeDECCheck t2 }"

definition TimeSameMinute :: "TIME \<Rightarrow> TIME \<Rightarrow> bool option" where
  "TimeSameMinute t1 t2 = do {
     ok \<leftarrow> both_ok t1 t2;
     Some (ok \<and> Year t1 = Year t2 \<and> Month t1 = Month t2 \<and> Day t1 = Day t2 \<and> Hour t1 = Hour t2 \<and>
       Minute t1 = Minute t2)
   }"

definition TimeSameDay :: "TIME \<Rightarrow> TIME \<Rightarrow> bool option" where
  "TimeSameDay t1 t2 = do {
     ok \<leftarrow> both_ok t1 t2;
     Some (ok \<and> Year t1 = Year t2 \<and> Month t1 = Month t2 \<and> Day t1 = Day t2)
   }"

definition TimeSameMonth :: "TIME \<Rightarrow> TIME \<Rightarrow> bool option" where
  "TimeSameMonth t1 t2 = do {
     ok \<leftarrow> both_ok t1 t2;
     Some (ok \<and> Year t1 = Year t2 \<and> Month t1 = Month t2)
   }"

section \<open>Binary and packed decimal bytes\<close>

lemma all_bytes: "list_all (\<lambda>n. P (of_nat n)) [0..<256] \<Longrightarrow> P (x :: u8)"
proof -
  assume "list_all (\<lambda>n. P (of_nat n)) [0..<256]"
  moreover have "unat x \<in> set [0..<256]" using unat_less_u8 [of x] by simp
  ultimately have "P (of_nat (unat x))" unfolding list_all_iff by blast
  then show "P x" by simp
qed

lemma DEC_BCD_byte: "x \<le> 99 \<longrightarrow> BCDToDECU8 (DECToBCDU8 x) = x \<and> CheckBCD (DECToBCDU8 x)"
  by (rule all_bytes [of "\<lambda>x. x \<le> 99 \<longrightarrow> BCDToDECU8 (DECToBCDU8 x) = x \<and> CheckBCD (DECToBCDU8 x)"]) code_simp

lemma BCD_DEC_byte: "CheckBCD x \<longrightarrow> DECToBCDU8 (BCDToDECU8 x) = x \<and> BCDToDECU8 x \<le> 99"
  by (rule all_bytes [of "\<lambda>x. CheckBCD x \<longrightarrow> DECToBCDU8 (BCDToDECU8 x) = x \<and> BCDToDECU8 x \<le> 99"]) code_simp

definition dec_bytes :: "TIME \<Rightarrow> bool" where
  "dec_bytes t \<longleftrightarrow> Year t \<le> 99 \<and> Month t \<le> 99 \<and> Day t \<le> 99 \<and> Hour t \<le> 99 \<and> Minute t \<le> 99 \<and> Second t \<le> 99"

lemma time_ok_dec_bytes: "time_ok t \<Longrightarrow> dec_bytes t"
  using md_bounds(2) [of "month_no t"]
  by (auto simp: time_ok_def month_ok_def clock_ok_def dec_bytes_def word_le_nat_alt)

lemma BCD_of_DEC_time:
  "dec_bytes t \<Longrightarrow> bytes_time BCDToDECU8 (bytes_time DECToBCDU8 t) = t \<and>
    MemBCDCheck (time_bytes (bytes_time DECToBCDU8 t))"
  using DEC_BCD_byte by (simp add: dec_bytes_def bytes_time_def time_bytes_def)

lemma TimeBCDToDEC_of_DEC: "time_ok t \<Longrightarrow> TimeBCDToDEC (bytes_time DECToBCDU8 t) = Some (True, t)"
  using BCD_of_DEC_time [of t] time_ok_dec_bytes [of t] by (simp add: TimeBCDToDEC_def TimeDECCheck_ok)

lemma TimeDECToBCD_ok: "time_ok t \<Longrightarrow> TimeDECToBCD t = Some (True, bytes_time DECToBCDU8 t)"
  using time_ok_dec_bytes [of t]
  by (auto simp: TimeDECToBCD_def TimeDECCheck_ok dec_bytes_def time_bytes_def CheckDECToBCD_def)

text \<open>A packed decimal operation is the binary one on the converted time.\<close>

lemma bcd_operation_refines:
  assumes "time_ok t" and "dec_op t val = Some (True, u)" and "time_ok u"
  shows "bcd_operation dec_op (bytes_time DECToBCDU8 t) val = Some (True, bytes_time DECToBCDU8 u)"
  using assms by (simp add: bcd_operation_def TimeBCDToDEC_of_DEC TimeDECToBCD_ok)

lemma INIT_TIME_BCD: "bytes_time DECToBCDU8 INIT_TIME = INIT_TIME"
  by code_simp

lemma TimeBCDToStamp_DEC: "time_ok t \<Longrightarrow> TimeBCDToStamp (bytes_time DECToBCDU8 t) = TimeDECToStamp t"
  using TimeBCDToDEC_of_DEC [OF INIT_TIME_ok(1)] unfolding INIT_TIME_BCD
  by (simp add: TimeBCDToStamp_def TimeBCDCheck_def TimeBCDToDEC_of_DEC TimeBCDSubTime_def TimeDECToStamp_def TimeDECCheck_ok)

text \<open>A packed time that is no date is converted all the same: the caller is left with binary bytes.\<close>

lemma TimeBCDToDEC_converts_invalid:
  "TimeBCDToDEC \<lparr>Year = 0x15, Month = 0x13, Day = 0x10, Hour = 0, Minute = 0, Second = 0\<rparr> =
     Some (False, \<lparr>Year = 15, Month = 13, Day = 10, Hour = 0, Minute = 0, Second = 0\<rparr>)"
  by code_simp

text \<open>C23: Seconds are added to a packed decimal time as to the binary one: from a valid time both
  operations report TRUE and the packed result is the packed form of the binary result, which lies
  the given number of seconds later, modulo the century; the stamps of both forms are equal.\<close>

theorem bcd_add_second_refines:
  assumes "TimeDECCheck t = Some True" and "unat val + unat (Second t) < 2 ^ 32"
  shows "\<exists>u. TimeDECAddSecond t val = Some (True, u) \<and> TimeDECCheck u = Some True \<and>
    second_no u = (second_no t + unat val) mod (36525 * 24 * 60 * 60) \<and>
    TimeBCDAddSecond (bytes_time DECToBCDU8 t) val = Some (True, bytes_time DECToBCDU8 u) \<and>
    TimeBCDToStamp (bytes_time DECToBCDU8 u) = TimeDECToStamp u"
proof -
  have t: "time_ok t" using assms(1) by (simp add: TimeDECCheck_ok)
  obtain u where u: "TimeDECAddSecond t val = Some (True, u)" "time_ok u"
    "second_no u = (second_no t + unat val) mod (36525 * 24 * 60 * 60)"
    using TimeDECAddSecond_spec [OF t assms(2)] by auto
  then show ?thesis
    using bcd_operation_refines [of t TimeDECAddSecond val u, OF t u(1,2)] TimeBCDToStamp_DEC [OF u(2)]
    by (intro exI [of _ u]) (simp add: TimeBCDAddSecond_def TimeDECCheck_ok)
qed

theorem bcd_add_second_refines_witness:
  "\<exists>u. TimeDECAddSecond \<lparr>Year = 99, Month = 12, Day = 31, Hour = 23, Minute = 59, Second = 59\<rparr> 1 = Some (True, u) \<and>
    TimeBCDAddSecond \<lparr>Year = 0x99, Month = 0x12, Day = 0x31, Hour = 0x23, Minute = 0x59, Second = 0x59\<rparr> 1 =
      Some (True, bytes_time DECToBCDU8 u)"
proof -
  let ?t = "\<lparr>Year = 99, Month = 12, Day = 31, Hour = 23, Minute = 59, Second = 59\<rparr> :: TIME"
  have c: "TimeDECCheck ?t = Some True" by code_simp
  have n: "unat (1 :: u32) + unat (Second ?t) < 2 ^ 32" by simp
  have b: "bytes_time DECToBCDU8 ?t = \<lparr>Year = 0x99, Month = 0x12, Day = 0x31, Hour = 0x23, Minute = 0x59, Second = 0x59\<rparr>"
    by code_simp
  show ?thesis using bcd_add_second_refines [OF c n] unfolding b by blast
qed

section \<open>The day of the week\<close>

definition zeller :: "nat \<Rightarrow> nat \<Rightarrow> nat" where
  "zeller d k = (let
     y = 2000 + k div 12;
     m = k mod 12 + 1;
     (m, y) = (if m = 1 \<or> m = 2 then (m + 12, y - 1) else (m, y))
   in d + 2 * m + 3 * (m + 1) div 5 + y + y div 4 - y div 100 + y div 400)"

definition zeller_flat :: "nat \<Rightarrow> nat \<Rightarrow> nat" where
  "zeller_flat y m =
    (if m < 2 then 2 * (m + 13) + 3 * (m + 14) div 5 + (1984 + y) + (1999 + y) div 4
     else 2 * (m + 1) + 3 * (m + 2) div 5 + (1985 + y) + (2000 + y) div 4)"

lemma zeller_flat:
  assumes "y < 100" and "m < 12"
  shows "zeller d (12 * y + m) = d + zeller_flat y m"
proof -
  have d: "(12 * y + m) div 12 = y" "(12 * y + m) mod 12 = m" using assms by simp_all
  show ?thesis
  proof (cases "m < 2")
    case True
    have e: "2000 + y - 1 = 1999 + y" "m + 1 + 12 = m + 13" "m + 13 + 1 = m + 14" by simp_all
    have j: "m + 1 = 1 \<or> m + 1 = 2" using True by linarith
    have s: "a - (1999 + y) div 100 + (1999 + y) div 400 = a - 15" if "100 \<le> a" for a
    proof (cases "y = 0")
      case False
      then have "(1999 + y) div 100 = 20" "(1999 + y) div 400 = 5" using assms(1) by simp_all
      then show ?thesis by (simp only:) (use that in linarith)
    qed (use that in simp)
    show ?thesis
      unfolding zeller_def zeller_flat_def d Let_def e if_P [OF j] if_P [OF True] case_prod_conv
      by (subst s) simp_all
  next
    case False
    have j: "\<not> (m + 1 = 1 \<or> m + 1 = 2)" using False by linarith
    have "(2000 + y) div 100 = 20" "(2000 + y) div 400 = 5" using assms by simp_all
    then show ?thesis
      unfolding zeller_def zeller_flat_def d Let_def if_not_P [OF j] if_not_P [OF False] case_prod_conv by simp
  qed
qed

lemma zeller_years: "(2000 + y) div 4 = 500 + y div 4" "(1999 + y) div 4 = (if y mod 4 = 0 then 499 else 500) + y div 4"
  for y :: nat
  by (presburger, presburger)

lemma zeller_flat_next:
  assumes "m < 11"
  shows "zeller_flat y (Suc m) mod 7 = (zeller_flat y m + mdays y (m + 1)) mod 7"
proof -
  have "m = 0 \<or> m = 1 \<or> m = 2 \<or> m = 3 \<or> m = 4 \<or> m = 5 \<or> m = 6 \<or> m = 7 \<or> m = 8 \<or> m = 9 \<or> m = 10"
    using assms by presburger
  then show ?thesis
    unfolding zeller_flat_def zeller_years mdays_def
    by (elim disjE) (simp_all, auto intro!: mod_add_same)
qed

lemma zeller_flat_year: "zeller_flat (Suc y) 0 mod 7 = (zeller_flat y 11 + 31) mod 7"
  by (simp add: zeller_flat_def zeller_years) (auto intro!: mod_add_same)

lemma u8_u16: "unat (ucast (x :: u8) :: u16) = unat x"
  using unat_less_u8 [of x] by (simp add: unsigned_ucast_eq take_bit_eq_mod)

lemma zeller_next:
  assumes "Suc k < 1200"
  shows "zeller 0 (Suc k) mod 7 = (zeller 0 k + md k) mod 7"
proof -
  obtain y m where k: "k = 12 * y + m" "m < 12"
    using mult_div_mod_eq [of 12 k] mod_less_divisor [of 12 k] by (metis zero_less_numeral)
  have y: "y < 100" using assms k by simp
  have d: "md k = mdays y (m + 1)" using k by (simp add: md_def)
  have z: "zeller 0 k = zeller_flat y m" unfolding k(1) zeller_flat [OF y k(2)] by simp
  show ?thesis
  proof (cases "m < 11")
    case True
    have "zeller 0 (12 * y + Suc m) = zeller_flat y (Suc m)" using True zeller_flat [OF y, of "Suc m"] by simp
    moreover have "Suc k = 12 * y + Suc m" using k by simp
    ultimately show ?thesis using zeller_flat_next [OF True] unfolding z d by metis
  next
    case False
    then have m: "m = 11" using k(2) by simp
    then have e: "Suc k = 12 * Suc y + 0" using k by simp
    have "Suc y < 100" using assms e by simp
    then have "zeller 0 (Suc k) = zeller_flat (Suc y) 0" unfolding e using zeller_flat [of "Suc y" 0 0] by simp
    moreover have "md k = 31" unfolding d m by (simp add: mdays_def)
    ultimately show ?thesis using zeller_flat_year z m by simp
  qed
qed

lemma zeller_days: "k < 1200 \<Longrightarrow> (zeller 0 k + 1) mod 7 = (dsum k + 5) mod 7"
proof (induction k)
  case 0
  have "zeller 0 0 = 2517" by (simp add: zeller_def)
  then show ?case by simp
next
  case (Suc k)
  then have "(zeller 0 k + 1) mod 7 = (dsum k + 5) mod 7" "zeller 0 (Suc k) mod 7 = (zeller 0 k + md k) mod 7"
    using zeller_next by auto
  then show ?case using mod_add_same [of "zeller 0 (Suc k)" 7 "zeller 0 k + md k" 1]
      mod_add_same [of "zeller 0 k + 1" 7 "dsum k + 5" "md k"] by (simp add: ac_simps)
qed

text \<open>C29: Zeller's formula gives the day of the week: for a valid time the number of its day since
  2000-01-01, a Saturday (5 counted from Monday), modulo seven, and 7 for an invalid time.\<close>

theorem TimeDECWeekDay_counts_days:
  "TimeDECWeekDay t = Some (if TimeDECCheck t = Some True then of_nat ((day_no t + 5) mod 7) else 7)"
proof (cases "time_ok t")
  case False
  then show ?thesis by (simp add: TimeDECWeekDay_def TimeDECCheck_ok)
next
  case True
  then have b: "unat (Year t) < 100" "1 \<le> unat (Month t)" "unat (Month t) \<le> 12" "1 \<le> unat (Day t)"
    by (simp_all add: time_ok_def month_ok_def)
  obtain m where m: "unat (Month t) = Suc m" "m < 12" using b by (cases "unat (Month t)") auto
  have k: "month_no t = 12 * unat (Year t) + m" by (simp add: month_no_def m)
  have y: "unat (2000 + ucast (Year t) :: u16) = 2000 + unat (Year t)"
    "unat (2000 + ucast (Year t) - 1 :: u16) = 1999 + unat (Year t)"
    using b(1) by (simp_all add: unat_word_ariths unat_sub_if' u8_u16)
  have j: "Month t = 1 \<or> Month t = 2 \<longleftrightarrow> m < 2" using m by (auto simp: word_unat_eq_iff)
  have mm: "m < 2 \<Longrightarrow> unat (Month t + 12) = m + 13" using m by (simp add: unat_word_ariths)
  have "TimeDECWeekDay t = Some (of_nat (zeller (unat (Day t)) (month_no t) mod 7))"
    using True y j mm m
    by (simp add: TimeDECWeekDay_def TimeDECCheck_ok zeller_def Let_def k)
  moreover have "zeller (unat (Day t)) (month_no t) mod 7 = (day_no t + 5) mod 7"
  proof -
    have "zeller (unat (Day t)) (month_no t) = zeller 0 (month_no t) + 1 + (unat (Day t) - 1)"
      unfolding k zeller_flat [OF b(1) m(2)] using b(4) by simp
    moreover have "month_no t < 1200" using True century by (simp add: time_ok_def)
    ultimately show ?thesis
      using mod_add_same [OF zeller_days, of "month_no t" "unat (Day t) - 1"] by (simp add: day_no_def ac_simps)
  qed
  ultimately show ?thesis using True by (simp add: TimeDECCheck_ok)
qed

section \<open>Days between two times\<close>

lemma second_order:
  assumes "time_ok t" and "time_ok u" and "second_no t \<le> second_no u"
  shows "month_no t \<le> month_no u \<and> day_no t \<le> day_no u"
proof -
  have c: "unat (Hour t) < 24" "unat (Minute t) < 60" "unat (Second t) < 60"
    "unat (Hour u) < 24" "unat (Minute u) < 60" "unat (Second u) < 60"
    using assms unfolding time_ok_def clock_ok_def by blast+
  have d: "unat (Day t) - 1 < md (month_no t)" "unat (Day u) - 1 < md (month_no u)"
    using assms unfolding time_ok_def by auto
  have "\<not> second_no u < second_no t" using assms(3) by simp
  then have "\<not> day_no u < day_no t"
    unfolding second_no_def lex_less [OF c(6) c(3)] minute_no_def lex_less [OF c(5) c(2)]
      hour_no_def lex_less [OF c(4) c(1)] by blast
  moreover from this have "\<not> month_no u < month_no t" unfolding day_no_def day_less [OF d(2) d(1)] by blast
  ultimately show ?thesis by simp
qed

lemma diff_day_ordered:
  assumes t: "time_ok t" and u: "time_ok u" and le: "second_no t \<le> second_no u"
  shows "month_sum_loop 1 (Year t) (Month t) (Year u) (Month u) 0 =
      Some (of_nat (dsum (month_no u) - dsum (month_no t)))"
    and "(of_int (uint (of_nat (dsum (month_no u) - dsum (month_no t)) :: u32) + s8_diff (Day u) (Day t) + 1) :: u32) =
      of_nat (day_no u - day_no t + 1)"
proof -
  have d: "1 \<le> unat (Day t)" "unat (Day t) \<le> 31" "1 \<le> unat (Day u)" "unat (Day u) \<le> 31"
    using t u md_bounds(2) [of "month_no t"] md_bounds(2) [of "month_no u"] by (auto simp: time_ok_def)
  have m: "month_ok t" "month_ok u" using t u by (simp_all add: time_ok_def)
  have o: "month_no t \<le> month_no u" "day_no t \<le> day_no u" using second_order [OF t u le] by simp_all
  show "month_sum_loop 1 (Year t) (Month t) (Year u) (Month u) 0 =
      Some (of_nat (dsum (month_no u) - dsum (month_no t)))"
    using month_sum [OF m o(1)] by simp
  have n: "int (dsum (month_no u) - dsum (month_no t)) + (int (unat (Day u)) - int (unat (Day t))) + 1 =
      int (day_no u - day_no t + 1)"
    using d o dsum_mono [OF o(1)] by (simp add: day_no_def of_nat_diff)
  have s: "s8_diff (Day u) (Day t) = int (unat (Day u)) - int (unat (Day t))"
    by (rule s8_diff_unat; use d in linarith)
  have "(of_nat (day_no u - day_no t + 1) :: u32) = of_int (int (day_no u - day_no t + 1))" by (rule of_int_of_nat_eq [symmetric])
  also have "\<dots> = of_int (uint (of_nat (dsum (month_no u) - dsum (month_no t)) :: u32) + s8_diff (Day u) (Day t) + 1)"
    unfolding s n [symmetric] by simp
  finally show "(of_int (uint (of_nat (dsum (month_no u) - dsum (month_no t)) :: u32) + s8_diff (Day u) (Day t) + 1) :: u32) =
      of_nat (day_no u - day_no t + 1)" by (rule sym)
qed

lemma TimeDECDiffDay_days:
  assumes t: "time_ok t" and u: "time_ok u"
  shows "TimeDECDiffDay t u = Some (of_nat ((day_no t - day_no u) + (day_no u - day_no t) + 1))"
proof -
  have late: "TimeComp t u AND TIME_LATE \<noteq> 0 \<longleftrightarrow> second_no u < second_no t"
    unfolding TimeComp_order [OF t u] by (simp add: TIME_EARLY_def TIME_LATE_def TIME_EQUAL_def)
  show ?thesis
  proof (cases "second_no u < second_no t")
    case True
    then show ?thesis
      using diff_day_ordered [OF u t] second_order [OF u t] t u late
      by (simp add: TimeDECDiffDay_def TimeDECCheck_ok TimeSwap_swaps)
  next
    case False
    then show ?thesis
      using diff_day_ordered [OF t u] second_order [OF t u] t u late
      by (simp add: TimeDECDiffDay_def TimeDECCheck_ok)
  qed
qed

end
