(* ===== verification/Calendar_Sub.thy ===== *)
theory Calendar_Sub
  imports Calendar
begin

text \<open>
  Subtraction from calendar times (common_lib/usdl_time.c), in numbers: going back a number of
  days, hours, minutes or seconds is subtraction modulo the century, so it undoes the addition;
  the exact results of the operations on years and months; and all operations together: from a
  valid time they give the valid time the calendar says when the sum of the value and the field
  fits in 32 bits, and adding months says when it does not.
\<close>

section \<open>Going back by days\<close>

lemma mod_add_cancel: "(a + c) mod n = (b + c) mod n \<Longrightarrow> a mod n = b mod n" for a b c n :: nat
  unfolding nat_mod_eq_iff by (metis add.commute add.left_commute add_left_cancel)

lemma previous_month:
  assumes t: "month_ok t" "Day t = 1" "clock_ok t"
  obtains u where "TimeDECSubMonth t 1 = Some (True, u)" and "month_ok u" and "Day u = 1" and "clock_ok u"
    and "month_no u = (month_no t + 1199) mod 1200"
    and "Hour u = Hour t" and "Minute u = Minute t" and "Second u = Second t"
proof (cases "Month t = 1")
  case False
  let ?u = "t\<lparr>Month := Month t - 1\<rparr>"
  have m: "2 \<le> unat (Month t)" using t(1) False by (auto simp: month_ok_def word_unat_eq_iff)
  then have m': "unat (Month t - 1) = unat (Month t) - 1" by (subst unat_minus_one) auto
  have c: "\<not> ucast (Month t) \<le> (1 :: u32)" using m by (simp add: word_le_nat_alt)
  have ok: "month_ok ?u" using t(1) m m' by (simp add: month_ok_def) linarith
  have "TimeDECSubMonth t 1 = Some (True, ?u)"
    using c first_day_ok [OF t] fix_day_ok [OF first_day_ok [of ?u]] ok t(2,3)
    by (simp add: TimeDECSubMonth_def TimeDECCheck_ok)
  moreover have "month_no ?u = (month_no t + 1199) mod 1200"
  proof -
    have "month_no ?u + 1 = month_no t" using m m' by (simp add: month_no_def)
    moreover have "month_no ?u < 1200" using ok by (rule century)
    moreover from calculation(1) have "month_no t + 1199 = month_no ?u + 1200" by linarith
    ultimately show ?thesis by simp
  qed
  ultimately show ?thesis using that [of ?u] ok t by simp
next
  case True
  let ?v = "t\<lparr>Year := if 1 \<le> (ucast (Year t) :: u32) then Year t - 1 else Year t + 100 - 1\<rparr>"
  let ?u = "?v\<lparr>Month := 12\<rparr>"
  have y: "unat (Year t) < 100" using t(1) by (simp add: month_ok_def)
  have yv: "unat (Year ?v) = (unat (Year t) + 99) mod 100"
  proof (cases "Year t = 0")
    case False
    then have "1 \<le> unat (Year t)" by (simp add: word_unat_eq_iff Suc_leI)
    then show ?thesis using y by (simp add: word_le_nat_alt unat_minus_one unat_sub_if' mod_if)
  qed simp
  have v: "time_ok ?v" using t yv True by (intro first_day_ok) (simp_all add: month_ok_def)
  have ok: "month_ok ?u" using yv by (simp add: month_ok_def)
  have u: "time_ok ?u" using t ok by (intro first_day_ok) simp_all
  have "TimeDECSubMonth t 1 = Some (True, ?u)"
    using True first_day_ok [OF t] fix_day_ok [OF v] fix_day_ok [OF u]
    by (auto simp: TimeDECSubMonth_def TimeDECSubYear_def TimeDECCheck_ok)
  moreover have "month_no ?u = (month_no t + 1199) mod 1200"
    using yv y True by (auto simp: month_no_def mod_if)
  ultimately show ?thesis using that [of ?u] ok t by simp
qed

lemma previous_month_days:
  assumes "month_ok t" and "month_no u = (month_no t + 1199) mod 1200"
  shows "(dsum (month_no u) + md (month_no u)) mod 36525 = dsum (month_no t) mod 36525"
proof (cases "month_no t")
  case 0
  then have "dsum (month_no u) + md (month_no u) = dsum 1200" using assms(2) by (simp flip: dsum.simps(2))
  then show ?thesis using 0 dsum_century by simp
next
  case (Suc k)
  then have "month_no u = k" using assms century [OF assms(1)] by simp
  then show ?thesis using Suc by simp
qed

lemma sub_day_loop:
  assumes "month_ok t" and "Day t = 1" and "clock_ok t" and "1 \<le> unat day" and "unat day \<le> md (month_no t)"
  shows "\<exists>u w d. TimeDECSubDay_loop t val day = Some (True, u, w, d) \<and>
    month_ok u \<and> Day u = 1 \<and> Hour u = Hour t \<and> Minute u = Minute t \<and> Second u = Second t \<and>
    unat w < unat d \<and> unat d \<le> md (month_no u) \<and>
    (dsum (month_no u) + unat d + unat val) mod 36525 = (dsum (month_no t) + unat day + unat w) mod 36525"
  using assms
proof (induction "unat val" arbitrary: t val day rule: less_induct)
  case less
  show ?case
  proof (cases "unat day \<le> unat val")
    case False
    then have "TimeDECSubDay_loop t val day = Some (True, t, val, day)"
      by (subst TimeDECSubDay_loop.simps) (simp add: word_le_nat_alt)
    then show ?thesis using False less.prems by auto
  next
    case True
    obtain u where u: "TimeDECSubMonth t 1 = Some (True, u)" "month_ok u" "Day u = 1" "clock_ok u"
      "month_no u = (month_no t + 1199) mod 1200" "Hour u = Hour t" "Minute u = Minute t" "Second u = Second t"
      using previous_month less.prems(1,2,3) by blast
    let ?v = "val - ucast day" and ?m = "of_nat (md (month_no u)) :: u8"
    have v: "unat ?v + unat day = unat val" using True by (simp add: unat_sub word_le_nat_alt)
    have step: "TimeDECSubDay_loop t val day = TimeDECSubDay_loop u ?v ?m"
      using True u(1) by (subst TimeDECSubDay_loop.simps) (simp add: word_le_nat_alt TimeMonthDays_md [OF u(2)])
    have m: "1 \<le> unat ?m" "unat ?m \<le> md (month_no u)" using md_u8 md_bounds [of "month_no u"] by simp_all
    have lt: "unat ?v < unat val" using v less.prems(4) by linarith
    obtain x w d where x: "TimeDECSubDay_loop u ?v ?m = Some (True, x, w, d)"
      "month_ok x" "Day x = 1" "Hour x = Hour u" "Minute x = Minute u" "Second x = Second u"
      "unat w < unat d" "unat d \<le> md (month_no x)"
      "(dsum (month_no x) + unat d + unat ?v) mod 36525 = (dsum (month_no u) + unat ?m + unat w) mod 36525"
      using less.hyps [OF lt u(2,3,4) m] by (elim exE conjE)
    have e: "n + unat val = n + unat ?v + unat day" for n using v by simp
    have "(dsum (month_no x) + unat d + unat val) mod 36525 =
        (dsum (month_no x) + unat d + unat ?v + unat day) mod 36525"
      by (simp only: e)
    also have "\<dots> = (dsum (month_no u) + unat ?m + unat w + unat day) mod 36525"
      by (rule mod_add_same [OF x(9)])
    also have "\<dots> = (dsum (month_no u) + md (month_no u) + (unat w + unat day)) mod 36525"
      by (simp add: md_u8 ac_simps)
    also have "\<dots> = (dsum (month_no t) + (unat w + unat day)) mod 36525"
      by (rule mod_add_same [OF previous_month_days [OF less.prems(1) u(5)]])
    also have "dsum (month_no t) + (unat w + unat day) = dsum (month_no t) + unat day + unat w" by simp
    finally have "(dsum (month_no x) + unat d + unat val) mod 36525 = (dsum (month_no t) + unat day + unat w) mod 36525" .
    moreover have "TimeDECSubDay_loop t val day = Some (True, x, w, d)" unfolding step by (rule x(1))
    ultimately show ?thesis using x(2-8) u(6-8) by (intro exI [of _ x] exI [of _ w] exI [of _ d]) simp
  qed
qed

text \<open>The test before the loop is the first round of the loop.\<close>

lemma TimeDECSubDay_as_loop:
  assumes "time_ok t"
  shows "TimeDECSubDay t val = map_option (\<lambda>(ok, u, w, d). if ok then (True, u\<lparr>Day := d - ucast w\<rparr>) else (False, u))
    (TimeDECSubDay_loop (t\<lparr>Day := 1\<rparr>) val (Day t))"
proof -
  let ?t = "t\<lparr>Day := 1\<rparr>"
  have m: "month_ok ?t" "clock_ok ?t" using assms by (simp_all add: time_ok_def)
  obtain u where u: "TimeDECSubMonth ?t 1 = Some (True, u)" "month_ok u"
    using previous_month [OF m(1) _ m(2)] by auto
  show ?thesis
  proof (cases "val \<ge> ucast (Day t)")
    case True
    then show ?thesis
      using assms u by (subst TimeDECSubDay_loop.simps)
        (auto simp: TimeDECSubDay_def TimeDECCheck_ok Let_def TimeMonthDays_md split: Option.bind_split)
  next
    case False
    then show ?thesis
      using assms by (auto simp: TimeDECSubDay_def TimeDECCheck_ok Let_def split: Option.bind_split)
  qed
qed

lemma TimeDECSubDay_spec:
  assumes t: "time_ok t"
  shows "\<exists>u. TimeDECSubDay t val = Some (True, u) \<and> time_ok u \<and> (day_no u + unat val) mod 36525 = day_no t \<and>
    Hour u = Hour t \<and> Minute u = Minute t \<and> Second u = Second t"
proof -
  let ?t = "t\<lparr>Day := 1\<rparr>"
  have m: "month_ok ?t" "clock_ok ?t" "clock_ok t" using t by (simp_all add: time_ok_def)
  obtain u w d where u: "TimeDECSubDay_loop ?t val (Day t) = Some (True, u, w, d)"
    "month_ok u" "Hour u = Hour t" "Minute u = Minute t" "Second u = Second t"
    "unat w < unat d" "unat d \<le> md (month_no u)"
    "(dsum (month_no u) + unat d + unat val) mod 36525 = (dsum (month_no t) + unat (Day t) + unat w) mod 36525"
    using sub_day_loop [of ?t "Day t" val] m day_ok [OF t] by auto
  let ?u = "u\<lparr>Day := d - ucast w\<rparr>"
  have d: "unat (Day ?u) = unat d - unat w"
    using u(6,7) md_bounds(2) [of "month_no u"] by (simp add: unat_sub word_le_nat_alt u32_u8)
  have "1 \<le> unat (Day ?u) \<and> unat (Day ?u) \<le> md (month_no u)" unfolding d using u(6,7) by linarith
  then have ok: "time_ok ?u" using u(2-5) m(3) by (simp add: time_ok_def clock_ok_def)
  have "(day_no ?u + unat val + Suc (unat w)) mod 36525 = (day_no t + Suc (unat w)) mod 36525"
    using u(6,8) d day_ok(1) [OF t] by (simp add: day_no_def ac_simps)
  then have "(day_no ?u + unat val) mod 36525 = day_no t mod 36525" by (rule mod_add_cancel)
  then have "(day_no ?u + unat val) mod 36525 = day_no t" using day_no_bound [OF t] by simp
  then show ?thesis using ok u TimeDECSubDay_as_loop [OF t] by auto
qed

section \<open>Going back by hours, minutes and seconds\<close>

text \<open>What is borrowed from the next unit.\<close>

lemma borrow:
  fixes a k h n m v w :: nat
  assumes "0 < n" and "h < n" and "h < w" and "v = w - h"
    and "(a + ((if v mod n \<noteq> 0 then 1 else 0) + v div n)) mod m = b"
  shows "(n * a + (if v mod n \<noteq> 0 then n - v mod n else 0) + w) mod (m * n) = n * b + h"
proof -
  let ?k = "(if v mod n \<noteq> 0 then 1 else 0) + v div n"
  have "v mod n < n" using assms(1) by simp
  then have "(if v mod n \<noteq> 0 then n - v mod n else 0) + v = n * ?k"
  proof (cases "v mod n = 0")
    case True
    then show ?thesis using mult_div_mod_eq [of n v] by simp
  next
    case False
    have "n - v mod n + v = n + n * (v div n)"
      using mult_div_mod_eq [of n v] \<open>v mod n < n\<close> by linarith
    then show ?thesis using False by (simp add: distrib_left)
  qed
  then have e: "n * a + (if v mod n \<noteq> 0 then n - v mod n else 0) + w = n * a + (n * ?k + h)"
    using assms(3,4) by linarith
  have "n * ((a + (n * ?k + h) div n) mod m) + (n * ?k + h) mod n = (n * a + (n * ?k + h)) mod (m * n)"
    by (rule carry_mod [OF assms(1)])
  moreover have "(n * ?k + h) div n = ?k" "(n * ?k + h) mod n = h" using assms(1,2) by simp_all
  ultimately show ?thesis using assms(5) unfolding e by simp
qed

lemma TimeDECSubHour_spec:
  assumes t: "time_ok t"
  shows "\<exists>u. TimeDECSubHour t val = Some (True, u) \<and> time_ok u \<and>
    (hour_no u + unat val) mod (36525 * 24) = hour_no t \<and> Minute u = Minute t \<and> Second u = Second t"
proof (cases "unat (Hour t) < unat val")
  case False
  let ?u = "t\<lparr>Hour := Hour t - ucast val\<rparr>"
  have small: "unat (Hour t) < 24" using t by (simp add: time_ok_def clock_ok_def)
  have h: "unat (Hour ?u) + unat val = unat (Hour t)"
    using False small by (simp add: unat_sub word_le_nat_alt u32_u8)
  have "time_ok ?u" using h small t by (simp add: time_ok_def clock_ok_def)
  moreover have "hour_no ?u + unat val = hour_no t" using h by (simp add: hour_no_def day_no_def)
  moreover have "hour_no t < 36525 * 24" using hour_no_bound [OF t] by simp
  moreover have "TimeDECSubHour t val = Some (True, ?u)"
    using False t by (simp add: TimeDECSubHour_def TimeDECCheck_ok word_less_nat_alt)
  ultimately show ?thesis by auto
next
  case True
  let ?v = "val - ucast (Hour t)"
  let ?t = "t\<lparr>Hour := ucast (?v mod 24)\<rparr>"
  let ?k = "(if Hour ?t \<noteq> 0 then 1 else 0) + ?v div 24"
  have small: "unat (Hour t) < 24" using t by (simp add: time_ok_def clock_ok_def)
  have v: "unat ?v = unat val - unat (Hour t)" using True by (simp add: unat_sub word_le_nat_alt)
  have h: "unat (Hour ?t) = unat ?v mod 24" by (simp add: u32_u8 unat_mod)
  then have h0: "Hour ?t \<noteq> 0 \<longleftrightarrow> unat ?v mod 24 \<noteq> 0" unfolding word_unat_eq_iff by simp
  have t1: "time_ok ?t" using t h by (simp add: time_ok_def clock_ok_def)
  have k: "unat ?k = (if unat ?v mod 24 \<noteq> 0 then 1 else 0) + unat ?v div 24"
    unfolding h0 using unat_less_u32 [of ?v] by (simp add: unat_word_ariths unat_div)
  obtain u where u: "TimeDECSubDay ?t ?k = Some (True, u)" "time_ok u" "(day_no u + unat ?k) mod (36525) = day_no ?t"
    "Hour u = Hour ?t" "Minute u = Minute t" "Second u = Second t"
    using TimeDECSubDay_spec [OF t1, of ?k] by auto
  let ?u = "if Hour u \<noteq> 0 then u\<lparr>Hour := 24 - ucast (?v mod 24)\<rparr> else u"
  have hu: "unat (Hour ?u) = (if unat ?v mod 24 \<noteq> 0 then 24 - unat ?v mod 24 else 0)"
  proof -
    have "unat (ucast (?v mod 24) :: u8) = unat ?v mod 24" using h by simp
    moreover have "unat ?v mod 24 < 24" by simp
    ultimately have "unat (24 - ucast (?v mod 24) :: u8) = 24 - unat ?v mod 24"
      by (subst unat_sub) (simp_all add: word_le_nat_alt)
    then show ?thesis using h0 h u(4) by auto
  qed
  have n: "hour_no ?u = 24 * day_no u + unat (Hour ?u)" "hour_no t = 24 * day_no ?t + unat (Hour t)"
    by (simp_all add: hour_no_def day_no_def)
  have "time_ok ?u" using u(2) hu by (simp add: time_ok_def clock_ok_def)
  moreover have "(hour_no ?u + unat val) mod (36525 * 24) = hour_no t"
    unfolding n hu using u(3) unfolding k by (intro borrow [OF _ small True v]) simp_all
  moreover have "TimeDECSubHour t val = Some (True, ?u)"
    using True t u(1) by (simp add: TimeDECSubHour_def TimeDECCheck_ok word_less_nat_alt Let_def)
  ultimately show ?thesis using u by auto
qed

lemma TimeDECSubMinute_spec:
  assumes t: "time_ok t"
  shows "\<exists>u. TimeDECSubMinute t val = Some (True, u) \<and> time_ok u \<and>
    (minute_no u + unat val) mod (36525 * 24 * 60) = minute_no t \<and> Second u = Second t"
proof (cases "unat (Minute t) < unat val")
  case False
  let ?u = "t\<lparr>Minute := Minute t - ucast val\<rparr>"
  have small: "unat (Minute t) < 60" using t by (simp add: time_ok_def clock_ok_def)
  have h: "unat (Minute ?u) + unat val = unat (Minute t)"
    using False small by (simp add: unat_sub word_le_nat_alt u32_u8)
  have "time_ok ?u" using h small t by (simp add: time_ok_def clock_ok_def)
  moreover have "minute_no ?u + unat val = minute_no t" using h by (simp add: minute_no_def hour_no_def day_no_def)
  moreover have "minute_no t < 36525 * 24 * 60" using minute_no_bound [OF t] by simp
  moreover have "TimeDECSubMinute t val = Some (True, ?u)"
    using False t by (simp add: TimeDECSubMinute_def TimeDECCheck_ok word_less_nat_alt)
  ultimately show ?thesis by auto
next
  case True
  let ?v = "val - ucast (Minute t)"
  let ?t = "t\<lparr>Minute := ucast (?v mod 60)\<rparr>"
  let ?k = "(if Minute ?t \<noteq> 0 then 1 else 0) + ?v div 60"
  have small: "unat (Minute t) < 60" using t by (simp add: time_ok_def clock_ok_def)
  have v: "unat ?v = unat val - unat (Minute t)" using True by (simp add: unat_sub word_le_nat_alt)
  have h: "unat (Minute ?t) = unat ?v mod 60" by (simp add: u32_u8 unat_mod)
  then have h0: "Minute ?t \<noteq> 0 \<longleftrightarrow> unat ?v mod 60 \<noteq> 0" unfolding word_unat_eq_iff by simp
  have t1: "time_ok ?t" using t h by (simp add: time_ok_def clock_ok_def)
  have k: "unat ?k = (if unat ?v mod 60 \<noteq> 0 then 1 else 0) + unat ?v div 60"
    unfolding h0 using unat_less_u32 [of ?v] by (simp add: unat_word_ariths unat_div)
  obtain u where u: "TimeDECSubHour ?t ?k = Some (True, u)" "time_ok u" "(hour_no u + unat ?k) mod (36525 * 24) = hour_no ?t"
    "Minute u = Minute ?t" "Second u = Second t"
    using TimeDECSubHour_spec [OF t1, of ?k] by auto
  let ?u = "if Minute u \<noteq> 0 then u\<lparr>Minute := 60 - ucast (?v mod 60)\<rparr> else u"
  have hu: "unat (Minute ?u) = (if unat ?v mod 60 \<noteq> 0 then 60 - unat ?v mod 60 else 0)"
  proof -
    have "unat (ucast (?v mod 60) :: u8) = unat ?v mod 60" using h by simp
    moreover have "unat ?v mod 60 < 60" by simp
    ultimately have "unat (60 - ucast (?v mod 60) :: u8) = 60 - unat ?v mod 60"
      by (subst unat_sub) (simp_all add: word_le_nat_alt)
    then show ?thesis using h0 h u(4) by auto
  qed
  have n: "minute_no ?u = 60 * hour_no u + unat (Minute ?u)" "minute_no t = 60 * hour_no ?t + unat (Minute t)"
    by (simp_all add: minute_no_def hour_no_def day_no_def)
  have "time_ok ?u" using u(2) hu by (simp add: time_ok_def clock_ok_def)
  moreover have "(minute_no ?u + unat val) mod (36525 * 24 * 60) = minute_no t"
    unfolding n hu using u(3) unfolding k by (intro borrow [OF _ small True v]) simp_all
  moreover have "TimeDECSubMinute t val = Some (True, ?u)"
    using True t u(1) by (simp add: TimeDECSubMinute_def TimeDECCheck_ok word_less_nat_alt Let_def)
  ultimately show ?thesis using u by auto
qed

lemma TimeDECSubSecond_spec:
  assumes t: "time_ok t"
  shows "\<exists>u. TimeDECSubSecond t val = Some (True, u) \<and> time_ok u \<and>
    (second_no u + unat val) mod (36525 * 24 * 60 * 60) = second_no t"
proof (cases "unat (Second t) < unat val")
  case False
  let ?u = "t\<lparr>Second := Second t - ucast val\<rparr>"
  have small: "unat (Second t) < 60" using t by (simp add: time_ok_def clock_ok_def)
  have h: "unat (Second ?u) + unat val = unat (Second t)"
    using False small by (simp add: unat_sub word_le_nat_alt u32_u8)
  have "time_ok ?u" using h small t by (simp add: time_ok_def clock_ok_def)
  moreover have "second_no ?u + unat val = second_no t" using h by (simp add: second_no_def minute_no_def hour_no_def day_no_def)
  moreover have "second_no t < 36525 * 24 * 60 * 60" using second_no_bound [OF t] by simp
  moreover have "TimeDECSubSecond t val = Some (True, ?u)"
    using False t by (simp add: TimeDECSubSecond_def TimeDECCheck_ok word_less_nat_alt)
  ultimately show ?thesis by auto
next
  case True
  let ?v = "val - ucast (Second t)"
  let ?t = "t\<lparr>Second := ucast (?v mod 60)\<rparr>"
  let ?k = "(if Second ?t \<noteq> 0 then 1 else 0) + ?v div 60"
  have small: "unat (Second t) < 60" using t by (simp add: time_ok_def clock_ok_def)
  have v: "unat ?v = unat val - unat (Second t)" using True by (simp add: unat_sub word_le_nat_alt)
  have h: "unat (Second ?t) = unat ?v mod 60" by (simp add: u32_u8 unat_mod)
  then have h0: "Second ?t \<noteq> 0 \<longleftrightarrow> unat ?v mod 60 \<noteq> 0" unfolding word_unat_eq_iff by simp
  have t1: "time_ok ?t" using t h by (simp add: time_ok_def clock_ok_def)
  have k: "unat ?k = (if unat ?v mod 60 \<noteq> 0 then 1 else 0) + unat ?v div 60"
    unfolding h0 using unat_less_u32 [of ?v] by (simp add: unat_word_ariths unat_div)
  obtain u where u: "TimeDECSubMinute ?t ?k = Some (True, u)" "time_ok u" "(minute_no u + unat ?k) mod (36525 * 24 * 60) = minute_no ?t"
    "Second u = Second ?t"
    using TimeDECSubMinute_spec [OF t1, of ?k] by auto
  let ?u = "if Second u \<noteq> 0 then u\<lparr>Second := 60 - ucast (?v mod 60)\<rparr> else u"
  have hu: "unat (Second ?u) = (if unat ?v mod 60 \<noteq> 0 then 60 - unat ?v mod 60 else 0)"
  proof -
    have "unat (ucast (?v mod 60) :: u8) = unat ?v mod 60" using h by simp
    moreover have "unat ?v mod 60 < 60" by simp
    ultimately have "unat (60 - ucast (?v mod 60) :: u8) = 60 - unat ?v mod 60"
      by (subst unat_sub) (simp_all add: word_le_nat_alt)
    then show ?thesis using h0 h u(4) by auto
  qed
  have n: "second_no ?u = 60 * minute_no u + unat (Second ?u)" "second_no t = 60 * minute_no ?t + unat (Second t)"
    by (simp_all add: second_no_def minute_no_def hour_no_def day_no_def)
  have "time_ok ?u" using u(2) hu by (simp add: time_ok_def clock_ok_def)
  moreover have "(second_no ?u + unat val) mod (36525 * 24 * 60 * 60) = second_no t"
    unfolding n hu using u(3) unfolding k by (intro borrow [OF _ small True v]) simp_all
  moreover have "TimeDECSubSecond t val = Some (True, ?u)"
    using True t u(1) by (simp add: TimeDECSubSecond_def TimeDECCheck_ok word_less_nat_alt Let_def)
  ultimately show ?thesis using u by auto
qed

section \<open>Years and months, exactly\<close>

text \<open>The day is moved to the last one of the month when the month has less days.\<close>

definition clip_day :: "TIME \<Rightarrow> TIME" where
  "clip_day t = t\<lparr>Day := of_nat (min (unat (Day t)) (mdays (unat (Year t)) (unat (Month t))))\<rparr>"

lemma month_no_mdays: "month_ok t \<Longrightarrow> md (month_no t) = mdays (unat (Year t)) (unat (Month t))"
proof -
  assume "month_ok t"
  then obtain j where j: "unat (Month t) = Suc j" "j < 12" by (cases "unat (Month t)") (auto simp: month_ok_def)
  have "(12 * y + j) div 12 = y" "(12 * y + j) mod 12 = j" for y using j(2) by simp_all
  then show ?thesis by (simp add: md_def month_no_def j(1))
qed

lemma fix_day_clips:
  assumes "month_ok t" and "clock_ok t" and "1 \<le> unat (Day t)"
  shows "fix_day t = Some (clip_day t)" and "time_ok (clip_day t)"
proof -
  note md = md_bounds [of "month_no t"]
  have m: "md (month_no t) = mdays (unat (Year t)) (unat (Month t))" using month_no_mdays assms(1) by blast
  have r: "in_range 0 99 (Year t) = Year t" "in_range 1 12 (Month t) = Month t"
    "in_range 0 23 (Hour t) = Hour t" "in_range 0 59 (Minute t) = Minute t" "in_range 0 59 (Second t) = Second t"
    using assms by (auto simp: in_range_def month_ok_def clock_ok_def)
  have d: "in_range 1 (md (month_no t)) (Day t) = of_nat (min (unat (Day t)) (md (month_no t)))"
    using assms(3) by (simp add: in_range_def min_def)
  have u: "unat (of_nat (min (unat (Day t)) (md (month_no t))) :: u8) = min (unat (Day t)) (md (month_no t))"
    using md unfolding unat_of_nat_u8 by (intro mod_less) simp
  have f: "fixed_time t = clip_day t"
    using r d unfolding m by (simp add: fixed_time_def Let_def clip_day_def m)
  show "fix_day t = Some (clip_day t)"
  proof (cases "Day t > 28")
    case True
    then show ?thesis by (simp add: fix_day_def TimeDECFix_flag_time f)
  next
    case False
    then have "unat (Day t) \<le> md (month_no t)" using md(1) by (simp add: word_less_nat_alt)
    then have "clip_day t = t" by (simp add: clip_day_def m [symmetric] min_def)
    with False show ?thesis by (simp add: fix_day_def)
  qed
  show "time_ok (clip_day t)" unfolding f [symmetric] by (rule fixed_time_ok)
qed

lemma u8_eqI: "unat x = n \<Longrightarrow> (x :: u8) = of_nat n"
  by (metis of_nat_unat ucast_id)


lemma year_back:
  assumes y: "unat (Year t) < 100"
  shows "(if (ucast (Year t) :: u32) \<ge> val mod 100 then Year t - ucast (val mod 100) else Year t + 100 - ucast (val mod 100)) =
    of_nat ((unat (Year t) + 100 - unat val mod 100) mod 100)"
proof (rule u8_eqI)
  define m where "m = unat val mod 100"
  have m: "unat (ucast (val mod 100) :: u8) = m" "m < 100" unfolding u32_u8 unat_mod m_def by simp_all
  have c: "(ucast (Year t) :: u32) \<ge> val mod 100 \<longleftrightarrow> m \<le> unat (Year t)"
    unfolding word_le_nat_alt unat_mod m_def by simp
  have a: "unat (Year t + 100) = unat (Year t) + 100" using y by (simp add: unat_word_ariths)
  show "unat (if (ucast (Year t) :: u32) \<ge> val mod 100 then Year t - ucast (val mod 100) else Year t + 100 - ucast (val mod 100)) =
    (unat (Year t) + 100 - unat val mod 100) mod 100"
  proof (cases "m \<le> unat (Year t)")
    case True
    then have "unat (Year t - ucast (val mod 100)) = unat (Year t) - m"
      using m by (subst unat_sub) (simp_all add: word_le_nat_alt)
    moreover have "(unat (Year t) + 100 - m) mod 100 = unat (Year t) - m"
      using True y by (simp add: mod_if)
    ultimately show ?thesis using True by (simp only: c if_True m_def)
  next
    case False
    have "unat (Year t + 100 - ucast (val mod 100)) = unat (Year t) + 100 - m"
      using a m by (subst unat_sub) (simp add: word_le_nat_alt, simp)
    moreover have "(unat (Year t) + 100 - m) mod 100 = unat (Year t) + 100 - m"
      using False by (intro mod_less) linarith
    ultimately show ?thesis using False by (simp only: c if_False m_def)
  qed
qed

lemma TimeDECSubYear_exact:
  assumes t: "time_ok t"
  shows "TimeDECSubYear t val = Some (True, clip_day (t\<lparr>Year := of_nat ((unat (Year t) + 100 - unat val mod 100) mod 100)\<rparr>))"
    and "time_ok (clip_day (t\<lparr>Year := of_nat ((unat (Year t) + 100 - unat val mod 100) mod 100)\<rparr>))"
proof -
  define y :: u8 where "y = of_nat ((unat (Year t) + 100 - unat val mod 100) mod 100)"
  have y: "unat (Year t) < 100" using t by (simp add: time_ok_def month_ok_def)
  have uy: "unat y < 100" unfolding y_def unat_of_nat_u8 by simp
  have "TimeDECSubYear t val = Option.bind (fix_day (t\<lparr>Year :=
      if (ucast (Year t) :: u32) \<ge> val mod 100 then Year t - ucast (val mod 100) else Year t + 100 - ucast (val mod 100)\<rparr>))
      (\<lambda>t. Some (True, t))"
    using t by (simp add: TimeDECSubYear_def TimeDECCheck_ok)
  moreover have "month_ok (t\<lparr>Year := y\<rparr>)" "clock_ok (t\<lparr>Year := y\<rparr>)" "1 \<le> unat (Day (t\<lparr>Year := y\<rparr>))"
    using t uy by (simp_all add: time_ok_def month_ok_def clock_ok_def)
  note fix_day_clips [OF this]
  ultimately show "TimeDECSubYear t val = Some (True, clip_day (t\<lparr>Year := of_nat ((unat (Year t) + 100 - unat val mod 100) mod 100)\<rparr>))"
    "time_ok (clip_day (t\<lparr>Year := of_nat ((unat (Year t) + 100 - unat val mod 100) mod 100)\<rparr>))"
    unfolding year_back [OF y] y_def [symmetric] by simp_all
qed



text \<open>Going back: over the beginning of a year the day is first moved into the month of the earlier
  year and then into the new month.\<close>

definition sub_months :: "TIME \<Rightarrow> nat \<Rightarrow> TIME" where
  "sub_months t n =
     (if n < unat (Month t) then clip_day (t\<lparr>Month := of_nat (unat (Month t) - n)\<rparr>)
      else let v = n - unat (Month t) in
        clip_day ((clip_day (t\<lparr>Year := of_nat ((unat (Year t) + 100 - (v div 12 + 1) mod 100) mod 100)\<rparr>))
          \<lparr>Month := of_nat (12 - v mod 12)\<rparr>))"

lemma TimeDECSubMonth_exact:
  assumes t: "time_ok t"
  shows "TimeDECSubMonth t val = Some (True, sub_months t (unat val)) \<and> time_ok (sub_months t (unat val))"
proof (cases "unat val < unat (Month t)")
  case True
  have "unat (Month t) \<le> 12" using t by (simp add: time_ok_def month_ok_def)
  then have n: "unat (Month t - ucast val) = unat (Month t) - unat val"
    using True by (simp add: unat_sub word_le_nat_alt u32_u8)
  have e: "of_nat (unat (Month t) - unat val) = Month t - ucast val" by (rule u8_eqI [OF n, symmetric])
  have "month_ok (t\<lparr>Month := Month t - ucast val\<rparr>)" using t n True by (simp add: time_ok_def month_ok_def) linarith
  from fix_day_clips [OF this] t True show ?thesis
    by (simp add: sub_months_def e TimeDECSubMonth_def TimeDECCheck_ok word_le_nat_alt time_ok_def clock_ok_def)
next
  case False
  define v where "v = val - ucast (Month t)"
  have uv: "unat v = unat val - unat (Month t)" unfolding v_def using False by (subst unat_sub) (simp_all add: word_le_nat_alt)
  have y1: "unat (1 + v div 12) = unat v div 12 + 1"
    using unat_less_u32 [of v] by (simp add: unat_word_ariths unat_div)
  define x where "x = clip_day (t\<lparr>Year := of_nat ((unat (Year t) + 100 - (unat v div 12 + 1) mod 100) mod 100)\<rparr>)"
  have x: "TimeDECSubYear t (1 + v div 12) = Some (True, x)" "time_ok x"
    using TimeDECSubYear_exact [OF t, of "1 + v div 12"] unfolding y1 x_def by blast+
  have h: "unat (12 :: u32) = 12" by simp
  have m: "unat (ucast (v mod 12) :: u8) = unat v mod 12" unfolding u32_u8 unat_mod h by simp
  have "unat v mod 12 < 12" by simp
  then have n: "unat (12 - ucast (v mod 12) :: u8) = 12 - unat v mod 12"
    by (subst unat_sub) (simp_all add: word_le_nat_alt m)
  have e: "of_nat (12 - unat v mod 12) = (12 - ucast (v mod 12) :: u8)" by (rule u8_eqI [OF n, symmetric])
  have s: "sub_months t (unat val) = clip_day (x\<lparr>Month := of_nat (12 - unat v mod 12)\<rparr>)"
    using False by (simp add: sub_months_def Let_def uv [symmetric] x_def)
  have "month_ok (x\<lparr>Month := of_nat (12 - unat v mod 12)\<rparr>)"
    using x(2) n \<open>unat v mod 12 < 12\<close> unfolding e by (simp add: time_ok_def month_ok_def)
  from fix_day_clips [OF this] x False t show ?thesis unfolding s e
    by (simp add: TimeDECSubMonth_def TimeDECCheck_ok word_le_nat_alt Let_def v_def [symmetric] time_ok_def clock_ok_def)
qed

text \<open>Two months before the 29th of February 2004 the clock shows the 28th of December 2003.\<close>

lemma sub_month_loses_day:
  "TimeDECSubMonth \<lparr>Year = 4, Month = 2, Day = 29, Hour = 0, Minute = 0, Second = 0\<rparr> 2 =
     Some (True, \<lparr>Year = 3, Month = 12, Day = 28, Hour = 0, Minute = 0, Second = 0\<rparr>)"
proof -
  let ?t = "\<lparr>Year = 4, Month = 2, Day = 29, Hour = 0, Minute = 0, Second = 0\<rparr> :: TIME"
  have "time_ok ?t" by code_simp
  moreover have "sub_months ?t (unat (2 :: u32)) = \<lparr>Year = 3, Month = 12, Day = 28, Hour = 0, Minute = 0, Second = 0\<rparr>"
    by code_simp
  ultimately show ?thesis using TimeDECSubMonth_exact by metis
qed

section \<open>Typing of the operations\<close>








text \<open>Without room for the sum the month becomes 0 and the operation reports TRUE.\<close>

lemma add_month_wraps:
  "TimeDECAddMonth \<lparr>Year = 0, Month = 1, Day = 1, Hour = 0, Minute = 0, Second = 0\<rparr> 0xFFFFFFFF =
     Some (True, \<lparr>Year = 0, Month = 0, Day = 1, Hour = 0, Minute = 0, Second = 0\<rparr>)"
  by code_simp


text \<open>Going back undoes going forward: after adding a number of seconds (days) to a valid time,
  subtracting the same number gives the time again, across months, years and the end of the
  century.\<close>

theorem sub_undoes_add:
  assumes "TimeDECCheck t = Some True" and "unat val + unat (Second t) < 2 ^ 32" and "unat days + unat (Day t) < 2 ^ 32"
  shows "\<exists>u w. TimeDECAddSecond t val = Some (True, u) \<and> TimeDECSubSecond u val = Some (True, t) \<and>
    TimeDECAddDay t days = Some (True, w) \<and> TimeDECSubDay w days = Some (True, t)"
proof -
  have t: "time_ok t" using assms(1) by (simp add: TimeDECCheck_ok)
  obtain u where u: "TimeDECAddSecond t val = Some (True, u)" "time_ok u"
    "second_no u = (second_no t + unat val) mod (36525 * 24 * 60 * 60)"
    using TimeDECAddSecond_spec [OF t assms(2)] by auto
  obtain x where x: "TimeDECSubSecond u val = Some (True, x)" "time_ok x"
    "(second_no x + unat val) mod (36525 * 24 * 60 * 60) = second_no u"
    using TimeDECSubSecond_spec [OF u(2), of val] by auto
  have "second_no x mod (36525 * 24 * 60 * 60) = second_no t mod (36525 * 24 * 60 * 60)"
    by (rule mod_add_cancel [of _ "unat val"]) (simp only: x(3) u(3))
  then have "x = t" using century_seconds [OF t] century_seconds [OF x(2)] by (intro time_eqI [OF x(2) t]) simp
  moreover obtain w where w: "TimeDECAddDay t days = Some (True, w)" "time_ok w" "day_no w = (day_no t + unat days) mod 36525"
    "Hour w = Hour t" "Minute w = Minute t" "Second w = Second t"
    using TimeDECAddDay_spec [OF t assms(3)] by auto
  obtain y where y: "TimeDECSubDay w days = Some (True, y)" "time_ok y" "(day_no y + unat days) mod 36525 = day_no w"
    "Hour y = Hour w" "Minute y = Minute w" "Second y = Second w"
    using TimeDECSubDay_spec [OF w(2), of days] by auto
  have "day_no y mod 36525 = day_no t mod 36525"
    by (rule mod_add_cancel [of _ "unat days"]) (simp only: y(3) w(3))
  then have "day_no y = day_no t" using day_no_bound [OF t] day_no_bound [OF y(2)] by simp
  then have "y = t" using w y by (intro time_eqI [OF y(2) t]) (simp add: second_no_def minute_no_def hour_no_def)
  ultimately show ?thesis using u w x y by blast
qed

theorem sub_undoes_add_witness:
  "\<exists>u. TimeDECAddSecond \<lparr>Year = 99, Month = 12, Day = 31, Hour = 23, Minute = 59, Second = 59\<rparr> 1 = Some (True, u) \<and>
    TimeDECSubSecond u 1 = Some (True, \<lparr>Year = 99, Month = 12, Day = 31, Hour = 23, Minute = 59, Second = 59\<rparr>)"
proof -
  let ?t = "\<lparr>Year = 99, Month = 12, Day = 31, Hour = 23, Minute = 59, Second = 59\<rparr> :: TIME"
  have "TimeDECCheck ?t = Some True" by code_simp
  moreover have "unat (1 :: u32) + unat (Second ?t) < 2 ^ 32" "unat (1 :: u32) + unat (Day ?t) < 2 ^ 32" by simp_all
  ultimately show ?thesis using sub_undoes_add by blast
qed

end
