(* ===== verification/Uart_Port.thy ===== *)
theory Uart_Port
  imports Protocol_Frame
begin

text \<open>
  The serial port driver (drivers/drv_com_uart.c). \<open>UartDevType\<close> holds the two buffers, the baud
  rate and the callbacks, which are names here; the registers of the USART are the state \<open>'c\<close> of a
  device that \<open>uart_hw\<close> describes: what reading and writing its data register does, the bits of its
  status and control registers and the change of the two interrupt enable bits. What the driver
  calls is the list of events, oldest first. The semaphores only exclude other threads: a driver
  function runs as one step. The pins, the clocks and the interrupt controller are not modelled.
\<close>

record 'h UartDevType =
  baudrate :: u32
  rxbuf :: RingBufType
  txbuf_len :: u32
  txbuf_offset :: u32
  txbuf_TxBuf :: "u8 list"
  send_hook :: "'h option"
  recv_hook :: "'h option"

record 'c uart_hw =
  hw_rxne :: "'c \<Rightarrow> bool"
  hw_txe :: "'c \<Rightarrow> bool"
  hw_tc :: "'c \<Rightarrow> bool"
  hw_ore :: "'c \<Rightarrow> bool"
  hw_ne :: "'c \<Rightarrow> bool"
  hw_fe :: "'c \<Rightarrow> bool"
  hw_txeie :: "'c \<Rightarrow> bool"
  hw_tcie :: "'c \<Rightarrow> bool"
  hw_read_dr :: "'c \<Rightarrow> u8 \<times> 'c"
  hw_write_dr :: "u8 \<Rightarrow> 'c \<Rightarrow> 'c"
  hw_set_txeie :: "bool \<Rightarrow> 'c \<Rightarrow> 'c"
  hw_set_tcie :: "bool \<Rightarrow> 'c \<Rightarrow> 'c"
  hw_clear_tc :: "'c \<Rightarrow> 'c"
  hw_poll :: "'c \<Rightarrow> 'c"

datatype 'h uart_event = Uart_hook 'h | Uart_sem_release

definition UART_RX_BUF_SIZE :: u32 where "UART_RX_BUF_SIZE = 1024"

text \<open>The initialisation, up to the test of the baud rate; the flag tells whether the port is then
  configured and enabled. \<open>mem\<close> is the memory that the allocation gives.\<close>

definition stm32_uart_init :: "u8 list option \<Rightarrow> 'h UartDevType option \<Rightarrow> bool \<times> 'h UartDevType option" where
  "stm32_uart_init mem uart_dev = (case uart_dev of
     None \<Rightarrow> (False, None)
   | Some dev \<Rightarrow> (let dev = dev\<lparr>rxbuf := RxBufInit mem UART_RX_BUF_SIZE\<rparr> in
       (\<not> (baudrate dev = 0 \<or> baudrate dev > 115200), Some dev)))"

section \<open>The interrupt handler\<close>

definition call_hook :: "'h option \<Rightarrow> 'h uart_event list" where
  "call_hook h = (case h of None \<Rightarrow> [] | Some p \<Rightarrow> [Uart_hook p])"

definition stm32_uart_isr ::
  "'c uart_hw \<Rightarrow> 'c \<Rightarrow> 'h UartDevType \<Rightarrow> ('c \<times> 'h UartDevType \<times> 'h uart_event list) option" where
  "stm32_uart_isr hw c dev = do {
     (c, dev, evs) \<leftarrow> (if hw_rxne hw c
       then do {
         let (data, c) = hw_read_dr hw c;
         (_, ring) \<leftarrow> AddByteToBuf (rxbuf dev) data;
         Some (c, dev\<lparr>rxbuf := ring\<rparr>, call_hook (recv_hook dev))
       }
       else Some (c, dev, []));
     (c, dev) \<leftarrow> (if hw_txeie hw c \<and> hw_txe hw c
       then do {
         x \<leftarrow> rd (txbuf_TxBuf dev) (unat (txbuf_offset dev));
         let c = hw_write_dr hw x c;
         let dev = dev\<lparr>txbuf_offset := txbuf_offset dev + 1\<rparr>;
         Some (if txbuf_offset dev \<ge> txbuf_len dev
           then (hw_set_tcie hw True (hw_set_txeie hw False c), dev) else (c, dev))
       }
       else Some (c, dev));
     let (c, evs) = (if hw_tcie hw c \<and> hw_tc hw c
       then (hw_clear_tc hw (hw_set_tcie hw False c), evs @ call_hook (send_hook dev) @ [Uart_sem_release])
       else (c, evs));
     Some (if hw_ore hw c \<or> hw_ne hw c \<or> hw_fe hw c then snd (hw_read_dr hw c) else c, dev, evs)
   }"

section \<open>Sending\<close>

text \<open>The wait of \<open>UARTSendByte\<close>, with the number of polls left; the last poll reports FALSE whether
  the byte has left or not.\<close>

fun UART_wait :: "'c uart_hw \<Rightarrow> 'c \<Rightarrow> nat \<Rightarrow> bool \<times> 'c" where
  "UART_wait hw c 0 = (False, hw_poll hw c)"
| "UART_wait hw c (Suc n) = (if hw_txe hw c then (True, hw_poll hw c) else UART_wait hw (hw_poll hw c) n)"

definition UARTSendByte :: "'c uart_hw \<Rightarrow> 'c \<Rightarrow> u8 \<Rightarrow> bool \<times> 'c" where
  "UARTSendByte hw c data = UART_wait hw (hw_write_dr hw data c) 0x9FFFFF"

fun uart_send_loop :: "'c uart_hw \<Rightarrow> 'c \<Rightarrow> u8 list \<Rightarrow> nat \<Rightarrow> nat \<Rightarrow> 'c option" where
  "uart_send_loop hw c tx j 0 = Some c"
| "uart_send_loop hw c tx j (Suc n) = do {
     x \<leftarrow> rd tx j;
     uart_send_loop hw (snd (UARTSendByte hw c x)) tx (Suc j) n
   }"

text \<open>The device is None for a null pointer. The build polls (UART_SENDIT_MODE_EN is not set).\<close>

definition stm32_uart_send ::
  "'c uart_hw \<Rightarrow> 'c \<Rightarrow> 'h UartDevType option \<Rightarrow> u8 list \<Rightarrow> u32 \<Rightarrow> (u32 \<times> 'c) option" where
  "stm32_uart_send hw c uart_dev tx len = (case uart_dev of
     None \<Rightarrow> Some (0, c)
   | Some _ \<Rightarrow> map_option (\<lambda>c. (len, c)) (uart_send_loop hw c tx 0 (unat len)))"

section \<open>Receiving\<close>

definition stm32_uart_recv ::
  "'h UartDevType option \<Rightarrow> u8 list \<Rightarrow> u32 \<Rightarrow> bool \<Rightarrow> (u32 \<times> u8 list \<times> 'h UartDevType option) option" where
  "stm32_uart_recv uart_dev rx len clear = (case uart_dev of
     None \<Rightarrow> Some (0, rx, None)
   | Some dev \<Rightarrow> map_option (\<lambda>(n, rx, ring). (n, rx, Some (dev\<lparr>rxbuf := ring\<rparr>))) (ReadDataFromBuf (rxbuf dev) rx len clear))"

definition stm32_uart_get_len :: "'h UartDevType option \<Rightarrow> u32 option" where
  "stm32_uart_get_len uart_dev = (case uart_dev of None \<Rightarrow> Some 0 | Some dev \<Rightarrow> GetLenFromBuf (rxbuf dev))"

definition stm32_uart_del :: "'h UartDevType option \<Rightarrow> u32 \<Rightarrow> (u32 \<times> 'h UartDevType option) option" where
  "stm32_uart_del uart_dev len = (case uart_dev of
     None \<Rightarrow> Some (0, None)
   | Some dev \<Rightarrow> map_option (\<lambda>(n, ring). (n, Some (dev\<lparr>rxbuf := ring\<rparr>))) (DelDataFromBuf (rxbuf dev) len))"

definition stm32_uart_clear :: "'h UartDevType option \<Rightarrow> (bool \<times> 'h UartDevType option) option" where
  "stm32_uart_clear uart_dev = Some (case uart_dev of
     None \<Rightarrow> (False, None)
   | Some dev \<Rightarrow> (True, Some (dev\<lparr>rxbuf := (rxbuf dev)\<lparr>Tail := Head (rxbuf dev)\<rparr>\<rparr>)))"

datatype UartHookType = UART_TX_HOOK | UART_RX_HOOK

text \<open>A value of the enumeration other than the two is None.\<close>

definition stm32_uart_hook_cfg ::
  "'h UartDevType option \<Rightarrow> UartHookType option \<Rightarrow> 'h option \<Rightarrow> bool \<times> 'h UartDevType option" where
  "stm32_uart_hook_cfg uart_dev htype phook = (case uart_dev of
     None \<Rightarrow> (False, None)
   | Some dev \<Rightarrow> (case htype of
       Some UART_TX_HOOK \<Rightarrow> (True, Some (dev\<lparr>send_hook := phook\<rparr>))
     | Some UART_RX_HOOK \<Rightarrow> (True, Some (dev\<lparr>recv_hook := phook\<rparr>))
     | None \<Rightarrow> (False, Some dev)))"

section \<open>The baud rate\<close>

definition uart_brr :: "bool \<Rightarrow> u32 \<Rightarrow> u32 \<Rightarrow> u16" where
  "uart_brr over8 apb_clock rate = (let
     integer_diverder = (if over8 then (25 * apb_clock) div (2 * rate) else (25 * apb_clock) div (4 * rate));
     temp_reg = push_bit 4 (integer_diverder div 100);
     fractional_diver = integer_diverder - 100 * drop_bit 4 temp_reg;
     temp_reg = (if over8 then temp_reg OR ((fractional_diver * 8 + 50) div 100 AND 0x07)
       else temp_reg OR ((fractional_diver * 16 + 50) div 100 AND 0x0F))
   in ucast temp_reg)"

text \<open>The register value is None when the rate is refused; \<open>apb_clock\<close> and \<open>over8\<close> are read from
  the clock tree and from CR1.\<close>

definition stm32_uart_set_baudrate ::
  "bool \<Rightarrow> u32 \<Rightarrow> 'h UartDevType \<Rightarrow> u32 \<Rightarrow> bool \<times> u16 option \<times> 'h UartDevType" where
  "stm32_uart_set_baudrate over8 apb_clock dev rate =
     (if rate < 1200 \<or> rate > 115200 then (False, None, dev)
      else (True, Some (uart_brr over8 apb_clock rate), dev\<lparr>baudrate := rate\<rparr>))"

section \<open>The receive path is a byte queue\<close>

definition uart_peek :: "'h UartDevType option \<Rightarrow> u8 list \<Rightarrow> u32 \<Rightarrow> (u32 \<times> u8 list \<times> 'h UartDevType option) option" where
  "uart_peek dev rx len = stm32_uart_recv dev rx len False"

definition uart_ok :: "'h UartDevType option \<Rightarrow> bool" where
  "uart_ok d = (case d of None \<Rightarrow> False | Some dev \<Rightarrow> ring_ok (rxbuf dev))"

definition uart_pending :: "'h UartDevType option \<Rightarrow> u8 list" where
  "uart_pending d = (case d of None \<Rightarrow> [] | Some dev \<Rightarrow> ring_list (rxbuf dev))"

interpretation uart: byte_port uart_peek stm32_uart_del stm32_uart_clear uart_pending uart_ok
proof unfold_locales
  fix p :: "'a UartDevType option" and len :: u32 and dst :: "u8 list" and n
  assume ok: "uart_ok p" and l: "unat len \<le> length dst" and n: "n = min (unat len) (length (uart_pending p))"
  obtain dev where p: "p = Some dev" "ring_ok (rxbuf dev)" using ok by (auto simp: uart_ok_def split: option.splits)
  show "uart_peek p dst len = Some (of_nat n, take n (uart_pending p) @ drop n dst, p)"
    using ring.recv_peeks [OF p(2) l, of n] n p
    by (simp add: uart_peek_def stm32_uart_recv_def uart_pending_def ring_recv_def)
next
  fix p :: "'a UartDevType option"
  assume "uart_ok p"
  then show "length (uart_pending p) < 2 ^ 32"
    using ring.pending_bound by (auto simp: uart_ok_def uart_pending_def split: option.splits)
next
  fix p :: "'a UartDevType option" and k
  assume ok: "uart_ok p"
  obtain dev where p: "p = Some dev" "ring_ok (rxbuf dev)" using ok by (auto simp: uart_ok_def split: option.splits)
  show "\<exists>p'. stm32_uart_del p k = Some (of_nat (min (unat k) (length (uart_pending p))), p') \<and> uart_ok p' \<and>
      uart_pending p' = drop (unat k) (uart_pending p)"
    using ring.del_drops [OF p(2), of k] p(1) by (auto simp: stm32_uart_del_def uart_ok_def uart_pending_def)
next
  fix p :: "'a UartDevType option"
  assume ok: "uart_ok p"
  obtain dev where p: "p = Some dev" "ring_ok (rxbuf dev)" using ok by (auto simp: uart_ok_def split: option.splits)
  obtain ring' where r: "ClearDateFromBuf (rxbuf dev) = Some (True, ring')" "ring_ok ring'" "ring_list ring' = []"
    using ring.clear_empties [OF p(2)] by blast
  have "ring' = (rxbuf dev)\<lparr>Tail := Head (rxbuf dev)\<rparr>" using r(1) by (simp add: ClearDateFromBuf_def)
  then show "\<exists>p'. stm32_uart_clear p = Some (True, p') \<and> uart_ok p' \<and> uart_pending p' = []"
    using r p(1) by (simp add: stm32_uart_clear_def uart_ok_def uart_pending_def)
qed

text \<open>A received byte is appended to the buffer, which keeps its last bytes, and the callback is
  called once; a byte arrives between two interrupts of the same port.\<close>

lemma stm32_uart_isr_receives:
  assumes "ring_ok (rxbuf dev)" and "hw_rxne hw c" and "\<And>d. \<not> hw_txeie hw d" and "\<And>d. \<not> hw_tcie hw d"
  shows "\<exists>c' ring'. stm32_uart_isr hw c dev = Some (c', dev\<lparr>rxbuf := ring'\<rparr>, call_hook (recv_hook dev)) \<and>
    ring_ok ring' \<and> ring_list ring' = lastn (ring_capacity (rxbuf dev)) (ring_list (rxbuf dev) @ [fst (hw_read_dr hw c)])"
proof -
  obtain data c1 where d: "hw_read_dr hw c = (data, c1)" by (cases "hw_read_dr hw c")
  obtain ring' where r: "AddByteToBuf (rxbuf dev) data = Some (True, ring')" "ring_ok ring'"
    "ring_list ring' = lastn (ring_capacity (rxbuf dev)) (ring_list (rxbuf dev) @ [data])"
    using AddByteToBuf_keeps_last [OF assms(1)] by blast
  have "\<exists>c'. stm32_uart_isr hw c dev = Some (c', dev\<lparr>rxbuf := ring'\<rparr>, call_hook (recv_hook dev))"
    using assms(2-4) d r(1) by (simp add: stm32_uart_isr_def Let_def)
  then show ?thesis using r(2,3) d by auto
qed

text \<open>The result of sending is the length that was asked for, whether the bytes left in time or not.\<close>

lemma stm32_uart_send_reports_length:
  "unat len \<le> length tx \<Longrightarrow> \<exists>c'. stm32_uart_send hw c (Some dev) tx len = Some (len, c')"
proof -
  have "\<exists>c'. uart_send_loop hw c tx j n = Some c'" if "j + n \<le> length tx" for j n
    using that
  proof (induction n arbitrary: j c)
    case (Suc n)
    then have "rd tx j = Some (tx ! j)" by (simp add: rd_def)
    then show ?case using Suc.IH [of "Suc j"] Suc.prems by simp
  qed simp
  then show "unat len \<le> length tx \<Longrightarrow> \<exists>c'. stm32_uart_send hw c (Some dev) tx len = Some (len, c')"
    by (fastforce simp: stm32_uart_send_def)
qed

section \<open>The accuracy of the baud rate\<close>

lemma uart_brr_value:
  fixes apb rate :: u32
  defines "d \<equiv> 25 * unat apb div (4 * unat rate)"
  assumes "unat apb \<le> 72000000" and "1200 \<le> unat rate" and "unat rate \<le> 115200"
  shows "unat (uart_brr False apb rate) = 16 * (d div 100) + (if d mod 100 < 97 then (16 * (d mod 100) + 50) div 100 else 0)"
proof -
  define D where "D = (25 * apb) div (4 * rate)"
  have "unat (25 * apb) = 25 * unat apb" "unat (4 * rate) = 4 * unat rate"
    using assms by (simp_all add: unat_word_ariths)
  then have D: "unat D = d" by (simp add: D_def d_def unat_div)
  have "d \<le> 25 * 72000000 div (4 * 1200)" unfolding d_def
    using assms by (intro order_trans [OF div_le_mono div_le_mono2]) simp_all
  then have d: "d \<le> 375000" by simp
  define T where "T = push_bit 4 (D div 100)"
  have T: "unat T = 16 * (d div 100)"
    using d D by (simp add: T_def push_bit_eq_mult unat_word_ariths unat_div)
  have DT: "drop_bit 4 T = D div 100"
    by (rule word_unat_eqI) (simp add: unat_drop_bit_eq drop_bit_eq_div T unat_div D)
  define F where "F = D - 100 * drop_bit 4 T"
  have "unat (100 * (D div 100)) = 100 * (d div 100)" using d D by (simp add: unat_word_ariths unat_div)
  moreover have "100 * (d div 100) \<le> d" by simp
  ultimately have F: "unat F = d mod 100"
    by (simp add: F_def DT D minus_mult_div_eq_mod unat_mod)
  define G where "G = (F * 16 + 50) div 100"
  have G: "unat G = (16 * (d mod 100) + 50) div 100"
    using F mod_less_divisor [of 100 d] by (simp add: G_def unat_word_ariths unat_div mult.commute)
  have g: "unat G \<le> 16" using G mod_less_divisor [of 100 d] by simp
  have ga: "G AND 0x0F = take_bit 4 G" by (simp add: take_bit_eq_mask mask_eq_exp_minus_1)
  have M: "unat (G AND 0x0F) = (if d mod 100 < 97 then (16 * (d mod 100) + 50) div 100 else 0)"
  proof -
    have "unat (G AND 0x0F) = unat G mod 16" unfolding ga by (simp add: take_bit_eq_mod unat_mod)
    moreover have "d mod 100 < 97 \<longleftrightarrow> (16 * (d mod 100) + 50) div 100 < 16" by linarith
    ultimately show ?thesis using G g by auto
  qed
  have "T AND (G AND 0x0F) = 0"
    unfolding T_def ga by (rule bit_word_eqI) (auto simp: bit_simps dest: bit_imp_le_length)
  then have "T OR (G AND 0x0F) = T + (G AND 0x0F)" by (simp add: disjunctive_add_eq_or)
  then have "unat (T OR (G AND 0x0F)) = unat T + unat (G AND 0x0F)"
    using T d M by (simp add: unat_word_ariths)
  moreover have "uart_brr False apb rate = ucast (T OR (G AND 0x0F))"
    by (simp add: uart_brr_def Let_def D_def T_def F_def G_def)
  moreover have "unat T + unat (G AND 0x0F) < 65536"
  proof -
    have "d div 100 \<le> 3750" using d by linarith
    moreover have "unat (G AND 0x0F) \<le> 16" unfolding M using G g by simp
    ultimately show ?thesis using T by linarith
  qed
  ultimately show ?thesis using T M by (simp add: unsigned_ucast_eq take_bit_eq_mod)
qed

text \<open>C31: The divider that is programmed for a baud rate is off by less than one unit of the exact
  ratio of clock and rate, when the fraction of the intermediate value stays below 97 hundredths;
  otherwise the carry of the rounded fraction is lost and the divider is more than fifteen units
  too small.\<close>

theorem uart_brr_error:
  fixes apb rate :: u32
  assumes "unat apb \<le> 72000000" and "1200 \<le> unat rate" and "unat rate \<le> 115200"
    and "brr = unat (uart_brr False apb rate)"
  shows "brr * unat rate < unat apb + unat rate \<and>
    (if 25 * unat apb div (4 * unat rate) mod 100 < 97 then unat apb < brr * unat rate + unat rate
     else brr * unat rate + 15 * unat rate < unat apb)"
proof -
  define r where "r = unat rate"
  define d where "d = 25 * unat apb div (4 * r)"
  define m where "m = d div 100"
  define f where "f = d mod 100"
  have r: "0 < r" using assms(2) by (simp add: r_def)
  have mf: "d = 100 * m + f" by (simp add: m_def f_def)
  have "4 * r * d \<le> 25 * unat apb" unfolding d_def by (rule times_div_less_eq_dividend)
  moreover have "25 * unat apb < 4 * r * d + 4 * r" unfolding d_def using r dividend_less_div_times [of "4 * r" "25 * unat apb"]
    by (simp add: ac_simps)
  ultimately have a: "400 * (m * r) + 4 * (f * r) \<le> 25 * unat apb" "25 * unat apb < 400 * (m * r) + 4 * (f * r) + 4 * r"
    unfolding mf by (simp_all add: algebra_simps)
  have b: "brr = 16 * m + (if f < 97 then (16 * f + 50) div 100 else 0)"
    unfolding assms(4) uart_brr_value [OF assms(1-3)] m_def f_def d_def r_def by (rule refl)
  show ?thesis
  proof (cases "f < 97")
    case True
    define g where "g = (16 * f + 50) div 100"
    have "100 * g \<le> 16 * f + 50" "16 * f + 50 < 100 * g + 100" unfolding g_def by linarith+
    then have g: "100 * (g * r) \<le> 16 * (f * r) + 50 * r" "16 * (f * r) + 50 * r < 100 * (g * r) + 100 * r"
    proof -
      assume g: "100 * g \<le> 16 * f + 50" "16 * f + 50 < 100 * g + 100"
      show "100 * (g * r) \<le> 16 * (f * r) + 50 * r" using mult_le_mono1 [OF g(1), of r] by (simp add: algebra_simps)
      show "16 * (f * r) + 50 * r < 100 * (g * r) + 100 * r"
        using mult_less_mono1 [OF g(2) r] by (simp add: algebra_simps)
    qed
    have "brr * r = 16 * (m * r) + g * r" using True by (simp add: b g_def algebra_simps)
    then have "brr * r < unat apb + r" "unat apb < brr * r + r" using a g by linarith+
    then show ?thesis using True by (simp add: r_def f_def d_def)
  next
    case False
    then have "97 * r \<le> f * r" by (intro mult_le_mono1) simp
    moreover have "brr * r = 16 * (m * r)" using False by (simp add: b)
    ultimately have "brr * r < unat apb + r" "brr * r + 15 * r < unat apb" using a r by linarith+
    then show ?thesis using False by (simp add: r_def f_def d_def)
  qed
qed

theorem uart_brr_error_witness:
  "unat (uart_brr False 36000000 115200) * 115200 < 36000000 + 115200 \<and>
   36000000 < unat (uart_brr False 36000000 115200) * 115200 + 115200 \<and>
   unat (uart_brr False 36000000 19400) * 19400 + 15 * 19400 < 36000000"
  using uart_brr_error [of 36000000 115200, OF _ _ _ refl] uart_brr_error [of 36000000 19400, OF _ _ _ refl]
  by simp

end
