(* ===== verification/Uart_Ota.thy ===== *)
theory Uart_Ota
  imports Can_Node Uart_Port
begin

text \<open>
  The serial protocol of the application: firmware download, the IAP parameters, restart
  (general_app/uart_ota_protocol.c, used by the PMU board). It has the frame of the CAN protocol
  without device identifiers that select the receiver. \<open>uart_app\<close> holds the globals of the file; what
  the handler asks of the port and the kernel is \<open>uart_trace\<close>, oldest first. As in \<open>Can_Protocol\<close>,
  \<open>stk\<close> is the old content of the stack buffer in which an answer is built, and \<open>pad\<close> the stack
  behind the image header. The build defines USE_IAP.
\<close>

definition OTA_Start :: u8 where "OTA_Start = 0xE0"
definition OTA_Update :: u8 where "OTA_Update = 0xE1"
definition OTA_End :: u8 where "OTA_End = 0xE2"
definition FUC_PARAMSET_RESET_uart :: u8 where "FUC_PARAMSET_RESET_uart = 0xA0"
definition FUC_PARAMSET_SAVE_uart :: u8 where "FUC_PARAMSET_SAVE_uart = 0xA1"
definition FUC_PARAM_IAP_READ :: u8 where "FUC_PARAM_IAP_READ = 0x0E"
definition FUC_PARAM_IAP_WRITE :: u8 where "FUC_PARAM_IAP_WRITE = 0x0F"
definition COMM_PROTOCOL_MIN_LEN :: u32 where "COMM_PROTOCOL_MIN_LEN = 8"
definition COMM_PROTOCOL_MAX_LEN :: u32 where "COMM_PROTOCOL_MAX_LEN = 1280"

datatype uart_ota_event = Ttl_send "u8 list" | Ttl_delay u32 | Ttl_reset

record 'f uart_app =
  uart_vars :: "'f dev_vars"
  uart_Version :: u16
  uart_TotalSize :: u64
  uart_SubSize :: u32
  uart_CRC32 :: u64
  uart_Frame_Num :: u16
  uart_UpdateFlag :: u8
  uart_trace :: "uart_ota_event list"

section \<open>Answers\<close>

text \<open>The head and the tail of a frame are those of the CAN protocol.\<close>

definition iap_param_read :: "'f uart_app \<Rightarrow> u8 list \<Rightarrow> u32 \<Rightarrow> (u32 \<times> u8 list) option" where
  "iap_param_read a buf len = (let p = iap_param (uart_vars a) in
     put_frame 29 (FUC_PARAM_IAP_READ # half (ID p) @ [0, 0, 0] @
       concat (map (\<lambda>k. half (ChipUniqueID p ! k)) [0, 1, 2, 3, 4, 5]) @
       [0, 0, ucast (IAP_flag p), 0, 0, ucast (swversion p)]) buf len)"

definition OTA_Start_ACK_Construct :: "u8 list \<Rightarrow> u32 \<Rightarrow> (u32 \<times> u8 list) option" where
  "OTA_Start_ACK_Construct buf len = put_frame 8 [OTA_Start, 0, 0] buf len"

definition OTA_Update_ACK_Construct :: "'f uart_app \<Rightarrow> u8 list \<Rightarrow> u32 \<Rightarrow> u8 \<Rightarrow> (u32 \<times> u8 list) option" where
  "OTA_Update_ACK_Construct a buf len state_code =
     put_frame 11 ([OTA_Update, 0, 0] @ half (uart_Frame_Num a) @ [state_code]) buf len"

definition OTA_End_ACK_Construct :: "u8 list \<Rightarrow> u32 \<Rightarrow> (u32 \<times> u8 list) option" where
  "OTA_End_ACK_Construct buf len = put_frame 8 [OTA_End, 0, 0] buf len"

section \<open>The handler\<close>

definition uart_emit :: "uart_ota_event \<Rightarrow> 'f uart_app \<Rightarrow> 'f uart_app" where
  "uart_emit e a = a\<lparr>uart_trace := uart_trace a @ [e]\<rparr>"

text \<open>\<open>if (send_len) stm32_uart_send(&UartTTL, send_buf, send_len)\<close>, then what follows inside the
  same condition.\<close>

definition uart_answer :: "(u32 \<times> u8 list) option \<Rightarrow> uart_ota_event list \<Rightarrow> 'f uart_app \<Rightarrow> 'f uart_app option" where
  "uart_answer built after a = do {
     (send_len, send_buf) \<leftarrow> built;
     if send_len \<noteq> 0 then do {
       bs \<leftarrow> rds send_buf 0 (unat send_len);
       Some (a\<lparr>uart_trace := uart_trace a @ Ttl_send bs # after\<rparr>)
     }
     else Some a
   }"

definition iap_param_analysis :: "u8 list \<Rightarrow> 'f uart_app \<Rightarrow> 'f uart_app option" where
  "iap_param_analysis buf a = do {
     newID \<leftarrow> rd16 buf 4;
     _ \<leftarrow> rd16 buf 7;
     let v = uart_vars a;
     Some (a\<lparr>uart_vars := v\<lparr>iap_param := (iap_param v)\<lparr>ID := newID\<rparr>\<rparr>\<rparr>)
   }"

text \<open>The version has its high byte first.\<close>

definition uart_ota_start :: "'f flash_hw \<Rightarrow> u32 \<Rightarrow> u8 list \<Rightarrow> u8 list \<Rightarrow> u8 list \<Rightarrow> nat \<Rightarrow> 'f uart_app \<Rightarrow> 'f uart_app option" where
  "uart_ota_start hw addr_appcopy stk pad buf i a = do {
     let a = uart_emit (Ttl_delay 1) a;
     let a = a\<lparr>uart_UpdateFlag := 1\<rparr>;
     h \<leftarrow> rd buf (i + 6);
     l \<leftarrow> rd buf (i + 7);
     let a = a\<lparr>uart_Version := push_bit 8 (ucast h) OR ucast l\<rparr>;
     total \<leftarrow> ArrayU8ToU32 (drop (i + 10) buf);
     sub16 \<leftarrow> ArrayU8ToU16 (drop (i + 14) buf);
     crc \<leftarrow> ArrayU8ToU32 (drop (i + 16) buf);
     let a = a\<lparr>uart_TotalSize := ucast total, uart_SubSize := ucast sub16, uart_CRC32 := ucast crc\<rparr>;
     param \<leftarrow> rds buf (i + 6) 26;
     param \<leftarrow> wrs param 0 (half (uart_Version a));
     let (_, f) = Flash_Erase_Page hw (dev_flash (uart_vars a)) addr_appcopy (ucast (uart_TotalSize a + 64));
     (_, f) \<leftarrow> Flash_Storage_Header hw f (param @ pad);
     let a = a\<lparr>uart_vars := (uart_vars a)\<lparr>dev_flash := f\<rparr>\<rparr>;
     uart_answer (OTA_Start_ACK_Construct stk 256) [] a
   }"

definition uart_ota_update :: "'f flash_hw \<Rightarrow> u32 \<Rightarrow> u8 list \<Rightarrow> u8 list \<Rightarrow> nat \<Rightarrow> u32 \<Rightarrow> 'f uart_app \<Rightarrow> 'f uart_app option" where
  "uart_ota_update hw addr_appcopy stk buf i data_len a = do {
     let a = a\<lparr>uart_UpdateFlag := 2\<rparr>;
     num \<leftarrow> ArrayU8ToU16 (drop (i + 6) buf);
     let a = a\<lparr>uart_Frame_Num := num\<rparr>;
     let off = ucast (uart_Frame_Num a) * uart_SubSize a;
     if data_len > 10 \<and> off < OTA_BIN_MAX_SIZE
     then do {
       let updata_len = data_len - 10;
       (_, f) \<leftarrow> Flash_Write hw (dev_flash (uart_vars a)) (addr_appcopy + off) (drop (i + 8) buf) updata_len;
       let a = a\<lparr>uart_vars := (uart_vars a)\<lparr>dev_flash := f\<rparr>\<rparr>;
       uart_answer (OTA_Update_ACK_Construct a stk 256 0) [] a
     }
     else uart_answer (OTA_Update_ACK_Construct a stk 256 1) [] a
   }"

definition uart_ota_end :: "'f flash_hw \<Rightarrow> u8 list \<Rightarrow> 'f uart_app \<Rightarrow> 'f uart_app option" where
  "uart_ota_end hw stk a = do {
     let a = a\<lparr>uart_UpdateFlag := 3\<rparr>;
     a \<leftarrow> uart_answer (OTA_End_ACK_Construct stk 256) [Ttl_delay 20] a;
     let a = a\<lparr>uart_vars := UpdateAppMode hw (uart_vars a)\<rparr>;
     Some (uart_emit Ttl_reset a)
   }"

text \<open>The write request is analysed from the start of the buffer, not from the start of its frame.\<close>

definition uart_command ::
  "'f flash_hw \<Rightarrow> u32 \<Rightarrow> u8 list \<Rightarrow> u8 list \<Rightarrow> u8 list \<Rightarrow> nat \<Rightarrow> u32 \<Rightarrow> u8 \<Rightarrow> 'f uart_app \<Rightarrow> 'f uart_app option" where
  "uart_command hw addr_appcopy stk pad buf i data_len cmd a =
     (if cmd = OTA_Start then uart_ota_start hw addr_appcopy stk pad buf i a
      else if cmd = OTA_Update then uart_ota_update hw addr_appcopy stk buf i data_len a
      else if cmd = OTA_End then uart_ota_end hw stk a
      else if cmd = FUC_PARAM_IAP_READ then uart_answer (iap_param_read a stk 256) [] a
      else if cmd = FUC_PARAM_IAP_WRITE then iap_param_analysis buf a
      else if cmd = FUC_PARAMSET_SAVE_uart
      then map_option (\<lambda>v. a\<lparr>uart_vars := v\<rparr>) (iap_param_save hw (uart_vars a))
      else if cmd = FUC_PARAMSET_RESET_uart then Some (uart_emit Ttl_reset (uart_emit (Ttl_delay 20) a))
      else Some a)"

definition UART_OTA_Protocol_Anylise ::
  "'f flash_hw \<Rightarrow> u8 list \<Rightarrow> u8 list \<Rightarrow> 'f uart_app \<Rightarrow> u8 list \<Rightarrow> u32 \<Rightarrow> (del_info_type \<times> 'f uart_app) option" where
  "UART_OTA_Protocol_Anylise hw stk pad a buf len = do {
     let addr_appcopy = flash_page_from_end hw (dev_flash (uart_vars a)) FLASH_APP_COPY_ADDR;
     if len < COMM_PROTOCOL_MIN_LEN then Some (\<lparr>info_state = anylise_waiting, del_len = 0\<rparr>, a)
     else do {
       r \<leftarrow> uart_scan buf len;
       (case r of
          Scan_info info \<Rightarrow> Some (info, a)
        | Scan_frame i data_len \<Rightarrow> do {
            _ \<leftarrow> rd16 buf (i + 4);
            cmd \<leftarrow> rd buf (i + 3);
            a \<leftarrow> uart_command hw addr_appcopy stk pad buf i data_len cmd a;
            Some (\<lparr>info_state = anylise_accept, del_len = data_len + of_nat i\<rparr>, a)
          })
     }
   }"

section \<open>The channel\<close>

definition transport_recv :: "'h UartDevType option \<Rightarrow> u8 list \<Rightarrow> u32 \<Rightarrow> bool \<Rightarrow> (u32 \<times> u8 list \<times> 'h UartDevType option) option" where
  "transport_recv ttl buf len state = stm32_uart_recv ttl buf len state"

definition transport_del :: "'h UartDevType option \<Rightarrow> u32 \<Rightarrow> (u32 \<times> 'h UartDevType option) option" where
  "transport_del ttl len = stm32_uart_del ttl len"

definition transport_clear :: "'h UartDevType option \<Rightarrow> (bool \<times> 'h UartDevType option) option" where
  "transport_clear ttl = stm32_uart_clear ttl"

definition transport_send :: "'c uart_hw \<Rightarrow> 'c \<Rightarrow> 'h UartDevType option \<Rightarrow> u8 list \<Rightarrow> u32 \<Rightarrow> (u32 \<times> 'c) option" where
  "transport_send hw c ttl buf len = stm32_uart_send hw c ttl buf len"

definition uart_call :: "'f flash_hw \<Rightarrow> u8 list \<Rightarrow> u8 list \<Rightarrow> (unit, 'f uart_app) handler_call" where
  "uart_call hw stk pad h app b len = UART_OTA_Protocol_Anylise hw stk pad app b len"

definition uart_ota_init ::
  "'h UartDevType \<Rightarrow> u8 list option \<Rightarrow> bool \<Rightarrow> u8 list option \<Rightarrow> nat option \<Rightarrow>
     'h UartDevType option \<times> (unit, 'h UartDevType option) comm_dev_type option" where
  "uart_ota_init ttl ring_mem dev_ok buf_mem tid = (let
     (_, ttl) = stm32_uart_init ring_mem (Some ttl);
     UartCommDev = fst (comm_dev_create dev_ok buf_mem ''UartComm'' 1024 transport_recv transport_del
       transport_clear None (1 * RT_TICK_PER_SECOND))
   in case UartCommDev of
        None \<Rightarrow> (ttl, None)
      | Some _ \<Rightarrow> (let
          dev = snd (protocol_anylise_add UartCommDev (Some ()));
          dev = snd (protocol_anylise_startup tid dev)
        in (ttl, dev)))"

section \<open>One round\<close>

lemma uart_ota_init_ok:
  assumes "length mem = 1024" and "length mem2 = 1024" and "uart_ota_init ttl (Some mem) True (Some mem2) tid = (p, Some comm)"
  shows "uart_ok p" and "uart_pending p = []"
    and "comm_port uart_peek stm32_uart_del stm32_uart_clear comm" and "length (comm_buf comm) = 1024"
    and "comm_buf_len comm = 1024" and "protocol_anylise_fun comm = [Some (), None, None]"
proof -
  have p: "p = Some (ttl\<lparr>rxbuf := RxBufInit (Some mem) 1024\<rparr>)"
    using assms(3) by (auto simp: uart_ota_init_def stm32_uart_init_def Let_def comm_dev_create_def UART_RX_BUF_SIZE_def)
  have r: "ring_ok (RxBufInit (Some mem) 1024)" "ring_list (RxBufInit (Some mem) 1024) = []"
    by (rule RxBufInit_ok; simp add: assms(1))+
  show "uart_ok p" "uart_pending p = []"
    using r by (simp_all add: p uart_ok_def uart_pending_def)
  have c: "comm_buf comm = mem2 \<and> comm_buf_len comm = 1024 \<and> protocol_anylise_fun comm = [Some (), None, None] \<and>
      dev_recv comm = transport_recv \<and> dev_del comm = transport_del \<and> dev_clear comm = transport_clear"
    using assms(3) by (auto simp: uart_ota_init_def stm32_uart_init_def Let_def comm_dev_create_def protocol_anylise_add_def
        protocol_anylise_startup_def PROTOCOL_FUN_MAX_def numeral_3_eq_3 split: if_splits)
  show "length (comm_buf comm) = 1024" "comm_buf_len comm = 1024" "protocol_anylise_fun comm = [Some (), None, None]"
    using c assms(2) by simp_all
  show "comm_port uart_peek stm32_uart_del stm32_uart_clear comm"
    using c assms(2) by (auto simp: comm_port_def transport_recv_def uart_peek_def transport_del_def
        transport_clear_def fun_eq_iff)
qed

lemma uart_round:
  assumes "uart_ok p" and "comm_port uart_peek stm32_uart_del stm32_uart_clear comm"
    and "comm_buf_len comm = 1024" and "length (comm_buf comm) = 1024"
    and "protocol_anylise_fun comm = [Some (), None, None]"
    and "uart_pending p = xs" and "0 < length xs" and "length xs \<le> 1023"
    and "UART_OTA_Protocol_Anylise hw stk pad a (xs @ drop (length xs) (comm_buf comm)) (of_nat (length xs)) =
      Some (\<lparr>info_state = anylise_accept, del_len = of_nat (length xs)\<rparr>, a')"
  shows "\<exists>comm' p'. protocol_anylise_process (uart_call hw stk pad) t1 t2 comm p a = Some (comm', p', a') \<and>
    uart_ok p' \<and> uart_pending p' = []"
proof -
  have n: "length xs = min (unat (comm_buf_len comm)) (length (uart_pending p))"
    using assms(3,6,8) by simp
  have b: "xs @ drop (length xs) (comm_buf comm) = take (length xs) (uart_pending p) @ drop (length xs) (comm_buf comm)"
    using assms(6) by simp
  have v: "anylise_loop (uart_call hw stk pad) (protocol_anylise_fun comm) a (xs @ drop (length xs) (comm_buf comm))
      (of_nat (length xs)) [] = Some (Inl (of_nat (length xs)), a')"
    using assms(5,9) by (simp add: uart_call_def)
  have u: "unat (of_nat (length xs) :: u32) = length xs" using assms(8) by (simp add: unat_of_nat_u32)
  from uart.process_round [OF assms(1,2) n assms(7) b v, of t1 t2]
  obtain w p' where "protocol_anylise_process (uart_call hw stk pad) t1 t2 comm p a =
      Some (comm\<lparr>comm_buf := xs @ drop (length xs) (comm_buf comm), wait_ticks := w\<rparr>, p', a')"
      "uart_ok p'" "uart_pending p' = remaining (Inl (of_nat (length xs))) (comm_expired comm t1) (uart_pending p)"
    by blast
  then show ?thesis using assms(6) u by (auto simp: remaining_def)
qed

text \<open>A frame behind noise: what the handler reads of it.\<close>

lemma uart_frame_handled:
  assumes b: "b = pre @ mk_frame (cmd # body) @ post" and pre: "0xFE \<notin> set pre" and body: "2 \<le> length body"
    and n: "n = length pre + length body + 6" "n \<le> 1024"
    and run: "uart_command hw (flash_page_from_end hw (dev_flash (uart_vars a)) FLASH_APP_COPY_ADDR) stk pad b (length pre)
      (of_nat (length body + 6)) cmd a = Some a'"
  shows "UART_OTA_Protocol_Anylise hw stk pad a b (of_nat n) = Some (\<lparr>info_state = anylise_accept, del_len = of_nat n\<rparr>, a')"
proof -
  have un: "unat (of_nat n :: u32) = n" using n(2) by (simp add: unat_of_nat_u32)
  have len: "unat (of_nat n :: u32) = length pre + length (cmd # body) + 5"
    by (simp only: un) (simp add: n(1))
  have scan: "uart_scan b (of_nat n) = Some (Scan_frame (length pre) (of_nat (length (cmd # body) + 5)))"
    unfolding uart_scan_def using body n by (intro frame_scan_after_noise [OF b pre _ _ _ _ len]) simp_all
  have big: "\<not> of_nat n < COMM_PROTOCOL_MIN_LEN"
    using un n(1) body by (simp add: COMM_PROTOCOL_MIN_LEN_def word_less_nat_alt)
  obtain x y z s where f: "mk_frame (cmd # body) = [x, y, z, cmd] @ body @ [s, 0xBE]"
    by (simp add: mk_frame_def le_enc_2)
  obtain p q r where pq: "body = p # q # r" using body by (metis One_nat_def Suc_1 Suc_le_length_iff)
  have r: "rd b (length pre + 3) = Some cmd" "\<exists>w. rd16 b (length pre + 4) = Some w"
    unfolding b f unfolding pq rd16_def rd_def by (simp_all add: nth_append)
  have d: "of_nat (length (cmd # body) + 5) + of_nat (length pre) = (of_nat n :: u32)"
    using n(1) by (simp add: ac_simps)
  show ?thesis
    using big scan r run d by (auto simp: UART_OTA_Protocol_Anylise_def Let_def add.commute)
qed

text \<open>An answer of the protocol, put on the stack buffer and sent.\<close>

lemma uart_answer_sent:
  assumes "256 \<le> length stk" and "length body + 5 \<le> 256" and "n = of_nat (length body + 5)"
  shows "uart_answer (put_frame n body stk 256) after a = Some (a\<lparr>uart_trace := uart_trace a @ Ttl_send (mk_frame body) # after\<rparr>)"
proof -
  have u: "unat n = length body + 5" unfolding assms(3) unat_of_nat_u32 using assms(2) by simp
  have n0: "n \<noteq> 0"
  proof
    assume "n = 0"
    with u show False by simp
  qed
  have p: "put_frame n body stk 256 = Some (n, mk_frame body @ drop (unat n) stk)"
    using assms(1,2) u by (intro put_frame_mk_frame) simp_all
  have "rds (mk_frame body @ drop (unat n) stk) 0 (unat n) = Some (mk_frame body)"
    by (simp add: rds_def u)
  then show ?thesis using p n0 by (simp add: uart_answer_def)
qed

context flash_device
begin

lemma uart_update_stores:
  assumes layout: "flash_layout hw main (dev_flash (uart_vars a))" and area: "area = download_area hw (dev_flash (uart_vars a))"
    and off: "off = ucast num * uart_SubSize a" "off mod 4 = 0" "off < OTA_BIN_MAX_SIZE"
    and bs: "bs \<noteq> []" "length bs \<le> 1200"
    and blank: "erased hw (dev_flash (uart_vars a)) (area + off) (length bs + 4)"
    and stk: "256 \<le> length stk"
    and b: "b = pre @ mk_frame ([OTA_Update, x, y] @ half num @ bs) @ r"
  shows "\<exists>a'. uart_command hw area stk pad b (length pre) (of_nat (length bs + 10)) OTA_Update a = Some a' \<and>
    hw_byte hw (dev_flash (uart_vars a')) = put_bytes (hw_byte hw (dev_flash (uart_vars a))) (area + off) bs \<and>
    uart_trace a' = uart_trace a @ [Ttl_send (mk_frame ([OTA_Update, 0, 0] @ half num @ [0]))]"
proof -
  let ?f = "dev_flash (uart_vars a)"
  have ul: "unat (of_nat (length bs) :: u32) = length bs" using bs by (simp add: unat_of_nat_u32)
  obtain p q s where fr: "mk_frame ([OTA_Update, x, y] @ half num @ bs) = [0xFE, p, q, OTA_Update, x, y] @ half num @ bs @ [s, 0xBE]"
    by (simp add: mk_frame_def le_enc_2)
  have num: "ArrayU8ToU16 (drop (length pre + 6) b) = Some num" unfolding b fr by (simp add: ArrayU8ToU16_half)
  have data: "drop (length pre + 8) b = bs @ [s, 0xBE] @ r" unfolding b fr by (simp add: half_def)
  have "\<exists>f'. Flash_Write hw ?f (area + off) (bs @ [s, 0xBE] @ r) (of_nat (length bs)) = Some (of_nat (length bs), f') \<and>
      hw_byte hw f' = put_bytes (hw_byte hw ?f) (area + off) bs"
    by (rule download_block_stored [OF layout area off(2,3) _ blank]) (use bs in simp_all)
  then obtain f' where f': "Flash_Write hw ?f (area + off) (bs @ [s, 0xBE] @ r) (of_nat (length bs)) = Some (of_nat (length bs), f')"
      "hw_byte hw f' = put_bytes (hw_byte hw ?f) (area + off) bs"
    by blast
  have "unat (of_nat (length bs + 10) :: u32) = length bs + 10" unfolding unat_of_nat_u32 using bs by simp
  then have "of_nat (length bs + 10) > (10 :: u32)" using bs by (simp add: word_less_nat_alt)
  then have dl: "10 < of_nat (length bs) + (10 :: u32)" by simp
  define a1 where "a1 = a\<lparr>uart_UpdateFlag := 2, uart_Frame_Num := num, uart_vars := (uart_vars a)\<lparr>dev_flash := f'\<rparr>\<rparr>"
  have "uart_command hw area stk pad b (length pre) (of_nat (length bs + 10)) OTA_Update a =
      uart_answer (OTA_Update_ACK_Construct a1 stk 256 0) [] a1"
    using dl off(3) f'(1) by (simp add: uart_command_def uart_ota_update_def Let_def num data a1_def off(1) OTA_Update_def OTA_Start_def)
  also have "\<dots> = Some (a1\<lparr>uart_trace := uart_trace a1 @ [Ttl_send (mk_frame ([OTA_Update, 0, 0] @ half num @ [0]))]\<rparr>)"
    unfolding OTA_Update_ACK_Construct_def using stk by (subst uart_answer_sent) (simp_all add: a1_def half_def)
  finally show ?thesis using f'(2) by (simp add: a1_def)
qed

end

section \<open>A block arrives over the line\<close>

text \<open>C19: a block of firmware that arrives at the serial port is stored and confirmed. When the port of
  the freshly initialised channel holds an update request behind noise without a head byte, one round
  of the polling thread writes the block to its place in the download area and nowhere else, sends
  one answer with its number and state 0, and leaves the port empty.\<close>

theorem uart_block_stored:
  assumes flash: "flash_device hw ready main" "flash_layout hw main (dev_flash (uart_vars a))"
    and init: "uart_ota_init ttl (Some mem) True (Some mem2) tid = (p0, Some comm)" "length mem = 1024" "length mem2 = 1024"
    and port: "uart_ok p" "uart_pending p = pre @ mk_frame ([OTA_Update, x, y] @ half num @ bs)"
    and pre: "0xFE \<notin> set pre" and bs: "bs \<noteq> []" "length pre + length bs \<le> 1013"
    and off: "off = ucast num * uart_SubSize a" "off mod 4 = 0" "off < OTA_BIN_MAX_SIZE"
    and blank: "erased hw (dev_flash (uart_vars a)) (download_area hw (dev_flash (uart_vars a)) + off) (length bs + 4)"
    and stk: "256 \<le> length stk"
  shows "\<exists>comm' p' a'. protocol_anylise_process (uart_call hw stk pad) t1 t2 comm p a = Some (comm', p', a') \<and>
    uart_ok p' \<and> uart_pending p' = [] \<and>
    hw_byte hw (dev_flash (uart_vars a')) = put_bytes (hw_byte hw (dev_flash (uart_vars a)))
      (download_area hw (dev_flash (uart_vars a)) + off) bs \<and>
    uart_trace a' = uart_trace a @ [Ttl_send (mk_frame ([OTA_Update, 0, 0] @ half num @ [0]))]"
proof -
  note i = uart_ota_init_ok [OF init(2,3,1)]
  define xs where "xs = pre @ mk_frame ([OTA_Update, x, y] @ half num @ bs)"
  define b where "b = xs @ drop (length xs) (comm_buf comm)"
  have n: "length xs = length pre + length ([x, y] @ half num @ bs) + 6" by (simp add: xs_def half_def)
  have b': "b = pre @ mk_frame ([OTA_Update, x, y] @ half num @ bs) @ drop (length xs) (comm_buf comm)"
    by (simp add: b_def xs_def)
  obtain a' where a': "uart_command hw (download_area hw (dev_flash (uart_vars a))) stk pad b (length pre)
        (of_nat (length bs + 10)) OTA_Update a = Some a'"
      "hw_byte hw (dev_flash (uart_vars a')) = put_bytes (hw_byte hw (dev_flash (uart_vars a)))
        (download_area hw (dev_flash (uart_vars a)) + off) bs"
      "uart_trace a' = uart_trace a @ [Ttl_send (mk_frame ([OTA_Update, 0, 0] @ half num @ [0]))]"
    using flash_device.uart_update_stores [OF flash refl off bs(1) _ blank stk b'] bs(2) by auto
  have "UART_OTA_Protocol_Anylise hw stk pad a b (of_nat (length xs)) =
      Some (\<lparr>info_state = anylise_accept, del_len = of_nat (length xs)\<rparr>, a')"
    using a'(1) bs(2) n pre by (intro uart_frame_handled [of _ pre OTA_Update "[x, y] @ half num @ bs"])
      (simp_all add: b' half_def download_area_def ac_simps)
  from uart_round [OF port(1) i(3,5,4,6) port(2) [folded xs_def] _ _ this [unfolded b_def], of t1 t2]
  show ?thesis using n bs(2) a'(2,3) by (auto simp: half_def)
qed

definition sample_port :: "u8 list \<Rightarrow> nat UartDevType option" where
  "sample_port bs = Some \<lparr>baudrate = 9600, rxbuf = \<lparr>Head = 0, Tail = of_nat (length bs), RxBuf = Some (bs @ replicate (1024 - length bs) 0),
       RxBufSize = 1024\<rparr>,
     txbuf_len = 0, txbuf_offset = 0, txbuf_TxBuf = [], send_hook = None, recv_hook = None\<rparr>"

definition sample_uart :: "stm32f1 uart_app" where
  "sample_uart = \<lparr>uart_vars = sample_vars, uart_Version = 0, uart_TotalSize = 0, uart_SubSize = 8, uart_CRC32 = 0,
     uart_Frame_Num = 0, uart_UpdateFlag = 1, uart_trace = []\<rparr>"

lemma sample_port_ok:
  assumes "length bs < 1024"
  shows "uart_ok (sample_port bs)" and "uart_pending (sample_port bs) = bs"
  using assms by (auto simp: uart_ok_def uart_pending_def sample_port_def ring_ok_def ring_list_def ring_count_def
    unat_of_nat_u32 word_less_nat_alt nth_append intro!: nth_equalityI)

text \<open>The write request of the IAP parameters reads the device number at a fixed place of the
  buffer instead of its frame. Behind at least six bytes of noise the device takes a number from the
  noise, whatever number the request carries, and it still accepts the frame.\<close>

theorem uart_write_ignores_offset:
  assumes b: "b = noise @ half v @ rest @ mk_frame (FUC_PARAM_IAP_WRITE # body) @ post" and "0xFE \<notin> set (noise @ half v @ rest)"
    and "length noise = 4" and "2 \<le> length body" and "n = length rest + length body + 12" and "n \<le> 1024"
  shows "\<exists>a'. UART_OTA_Protocol_Anylise hw stk pad a b (of_nat n) =
      Some (\<lparr>info_state = anylise_accept, del_len = of_nat n\<rparr>, a') \<and>
    ID (iap_param (uart_vars a')) = v"
proof -
  have "rd16 b 4 = Some v" by (rule rd16_half) (simp add: b assms(3))
  moreover have "\<exists>w. rd16 b 7 = Some w" using assms(3) by (simp add: b rd16_def rd_def)
  moreover have b': "b = (noise @ half v @ rest) @ mk_frame (FUC_PARAM_IAP_WRITE # body) @ post" by (simp add: b)
  moreover have "n = length (noise @ half v @ rest) + length body + 6" using assms(3,5) by (simp add: half_def)
  ultimately show ?thesis
    using uart_frame_handled [OF b' assms(2,4) _ assms(6), of hw a stk pad]
    by (auto simp: uart_command_def iap_param_analysis_def Let_def FUC_PARAM_IAP_WRITE_def OTA_Start_def OTA_Update_def
        OTA_End_def FUC_PARAM_IAP_READ_def)
qed

theorem uart_write_ignores_offset_witness:
  "\<exists>a'. UART_OTA_Protocol_Anylise stm32_hw [] [] sample_uart
      ([1, 2, 3, 4, 0x34, 0x12] @ mk_frame [FUC_PARAM_IAP_WRITE, 0x99, 0x88, 0, 0]) 16 =
      Some (\<lparr>info_state = anylise_accept, del_len = 16\<rparr>, a') \<and> ID (iap_param (uart_vars a')) = 0x1234"
proof -
  have "[1, 2, 3, 4, 0x34, 0x12] @ mk_frame [FUC_PARAM_IAP_WRITE, 0x99, 0x88, 0, 0] =
      [1, 2, 3, 4] @ half 0x1234 @ [] @ mk_frame (FUC_PARAM_IAP_WRITE # [0x99, 0x88, 0, 0]) @ []"
    by (simp add: half_def)
  then have "\<exists>a'. UART_OTA_Protocol_Anylise stm32_hw [] [] sample_uart
      ([1, 2, 3, 4, 0x34, 0x12] @ mk_frame [FUC_PARAM_IAP_WRITE, 0x99, 0x88, 0, 0]) (of_nat 16) =
      Some (\<lparr>info_state = anylise_accept, del_len = of_nat 16\<rparr>, a') \<and> ID (iap_param (uart_vars a')) = 0x1234"
    by (rule uart_write_ignores_offset) (simp_all add: half_def)
  then show ?thesis by simp
qed

theorem uart_block_stored_witness:
  "\<exists>comm' p' a'. protocol_anylise_process (uart_call stm32_hw (replicate 256 0) []) 5 6
      (the (snd (uart_ota_init (the (sample_port [])) (Some (replicate 1024 0)) True (Some (replicate 1024 0)) (Some 1))))
      (sample_port ([7, 8] @ mk_frame [OTA_Update, 0, 0, 2, 0, 11, 12, 13])) sample_uart = Some (comm', p', a') \<and>
    uart_pending p' = [] \<and> cells (dev_flash (uart_vars a')) 0x08023811 = 12 \<and> length (uart_trace a') = 1"
proof -
  define init where "init = uart_ota_init (the (sample_port [])) (Some (replicate 1024 0)) True (Some (replicate 1024 0)) (Some 1)"
  obtain p0 comm where i: "init = (p0, Some comm)"
    by (auto simp: init_def uart_ota_init_def stm32_uart_init_def Let_def comm_dev_create_def protocol_anylise_add_def
        protocol_anylise_startup_def PROTOCOL_FUN_MAX_def numeral_3_eq_3 split: if_splits)
  have v: "uart_vars sample_uart = can_vars sample_app" by (simp add: sample_app_def sample_uart_def)
  have layout: "flash_layout stm32_hw stm32_main (dev_flash (uart_vars sample_uart))"
    using sample_layout by (simp add: sample_uart_def)
  have e: "hw_byte stm32_hw (dev_flash (can_vars sample_app)) (0x08023800 + of_nat k) = 0xFF" if "k < 100" for k
    using sample_erased [of 100] that by (simp add: erased_def)
  have "erased stm32_hw (dev_flash (can_vars sample_app)) (0x08023800 + 16) (length [11, 12, 13 :: u8] + 4)"
    unfolding erased_def
  proof (intro allI impI)
    fix k :: nat
    assume "k < length [11, 12, 13 :: u8] + 4"
    then show "hw_byte stm32_hw (dev_flash (can_vars sample_app)) (0x08023800 + 16 + of_nat k) = 0xFF"
      using e [of "16 + k"] by (simp add: ac_simps)
  qed
  then have blank: "erased stm32_hw (dev_flash (uart_vars sample_uart))
      (download_area stm32_hw (dev_flash (uart_vars sample_uart)) + 16) (length [11, 12, 13 :: u8] + 4)"
    unfolding v sample_area .
  define xs where "xs = [7, 8] @ mk_frame ([OTA_Update, 0, 0] @ half 2 @ [11, 12, 13])"
  have xs: "xs = [7, 8] @ mk_frame [OTA_Update, 0, 0, 2, 0, 11, 12, 13]" "length xs < 1024"
    by (simp_all add: xs_def half_def)
  have port: "uart_ok (sample_port xs)" "uart_pending (sample_port xs) = [7, 8] @ mk_frame ([OTA_Update, 0, 0] @ half 2 @ [11, 12, 13])"
    using sample_port_ok [OF xs(2)] by (simp_all add: xs_def)
  have "\<exists>comm' p' a'. protocol_anylise_process (uart_call stm32_hw (replicate 256 0) []) 5 6 comm (sample_port xs) sample_uart =
        Some (comm', p', a') \<and> uart_ok p' \<and> uart_pending p' = [] \<and>
      hw_byte stm32_hw (dev_flash (uart_vars a')) = put_bytes (hw_byte stm32_hw (dev_flash (uart_vars sample_uart)))
        (download_area stm32_hw (dev_flash (uart_vars sample_uart)) + 16) [11, 12, 13] \<and>
      uart_trace a' = uart_trace sample_uart @ [Ttl_send (mk_frame ([OTA_Update, 0, 0] @ half 2 @ [0]))]"
    by (intro uart_block_stored [OF stm32.flash_device_axioms layout i [unfolded init_def] _ _ port(1)
          port(2) _ _ _ _ _ _ blank])
       (simp_all add: sample_uart_def OTA_BIN_MAX_SIZE_def FLASH_PAGE_SIZE_def)
  then obtain comm' p' a' where r: "protocol_anylise_process (uart_call stm32_hw (replicate 256 0) []) 5 6 comm (sample_port xs) sample_uart =
        Some (comm', p', a')" "uart_pending p' = []" "hw_byte stm32_hw (dev_flash (uart_vars a')) =
        put_bytes (hw_byte stm32_hw (dev_flash (uart_vars sample_uart))) (0x08023800 + 16) [11, 12, 13]"
      "length (uart_trace a') = 1"
    unfolding v sample_area by (auto simp: sample_uart_def)
  have "hw_byte stm32_hw (dev_flash (uart_vars a')) 0x08023811 = 12" unfolding r(3) by (simp add: put_bytes_def)
  then have "cells (dev_flash (uart_vars a')) 0x08023811 = 12" by (simp add: stm32_hw_def)
  then show ?thesis using r(1,2,4) unfolding init_def [symmetric] i xs(1) [symmetric] fst_conv snd_conv option.sel by blast
qed

end
