(* ===== verification/Boot_Protocol.thy ===== *)
theory Boot_Protocol
  imports Can_Node Boot_Main
begin

text \<open>
  The update channel of the bootloader on the CAN bus (IAP project: Projects/Src/canbus_middle.c):
  firmware download, parameters, device search, and the function main calls again and again while
  it serves updates. \<open>boot_app\<close> holds the globals of the file; what the handler asks of the bus and
  the timer is \<open>boot_trace\<close>, oldest first. As in \<open>Can_Protocol\<close>, \<open>stk\<close> is the old content of the stack
  buffer in which an answer is built. Diagnostic printing is left out.
\<close>

record 'f boot_app =
  iap_vars :: "'f boot_vars"
  boot_OTA_Version :: u16
  boot_OTA_TotalSize :: u32
  boot_OTA_SubSize :: u32
  boot_OTA_CRC32 :: u32
  boot_OTA_Frame_Num :: u16
  boot_OTA_UpdateFlag :: u8
  boot_trace :: "can_event list"

section \<open>Answers\<close>

definition boot_ids :: "'f boot_app \<Rightarrow> u8 list" where
  "boot_ids a = half (remoteID (boot_param (iap_vars a))) @ half (ID (boot_param (iap_vars a)))"

definition CAN_OTA_Start_ACK_Construct_iap :: "'f boot_app \<Rightarrow> u8 list \<Rightarrow> u32 \<Rightarrow> (u32 \<times> u8 list) option" where
  "CAN_OTA_Start_ACK_Construct_iap a buf len = put_frame 10 (CAN_OTA_Send_Start # boot_ids a) buf len"

definition CAN_OTA_Update_ACK_Construct_iap :: "'f boot_app \<Rightarrow> u8 list \<Rightarrow> u32 \<Rightarrow> u8 \<Rightarrow> (u32 \<times> u8 list) option" where
  "CAN_OTA_Update_ACK_Construct_iap a buf len state_code =
     put_frame 13 (CAN_OTA_Send_Update # boot_ids a @ half (boot_OTA_Frame_Num a) @ [state_code]) buf len"

definition CAN_OTA_End_ACK_Construct_iap :: "'f boot_app \<Rightarrow> u8 list \<Rightarrow> u32 \<Rightarrow> (u32 \<times> u8 list) option" where
  "CAN_OTA_End_ACK_Construct_iap a buf len = put_frame 10 (CAN_OTA_Send_End # boot_ids a) buf len"

definition CAN_Paramset_Read_Construct_iap :: "'f boot_app \<Rightarrow> u8 list \<Rightarrow> u32 \<Rightarrow> (u32 \<times> u8 list) option" where
  "CAN_Paramset_Read_Construct_iap a buf len = put_frame 18 (FUC_PARAMSET_READ # boot_ids a @ replicate 8 0) buf len"

definition CAN_Automatic_Check_Construct_iap :: "'f boot_app \<Rightarrow> u8 list \<Rightarrow> u32 \<Rightarrow> (u32 \<times> u8 list) option" where
  "CAN_Automatic_Check_Construct_iap a buf len = put_frame 24 (FUC_DEVICE_SEARCH # boot_ids a @ replicate 14 0) buf len"

definition CAN_Paramset_Write_Construct_iap :: "'f boot_app \<Rightarrow> u8 list \<Rightarrow> u32 \<Rightarrow> (u32 \<times> u8 list) option" where
  "CAN_Paramset_Write_Construct_iap a buf len = put_frame 10 (FUC_PARAMSET_WRITE # boot_ids a) buf len"

definition CAN_Paramset_Save_Construct_iap :: "'f boot_app \<Rightarrow> u8 list \<Rightarrow> u32 \<Rightarrow> (u32 \<times> u8 list) option" where
  "CAN_Paramset_Save_Construct_iap a buf len = put_frame 10 (FUC_PARAMSET_SAVE # boot_ids a) buf len"

definition CAN_Device_Restart_Construct_iap :: "'f boot_app \<Rightarrow> u8 list \<Rightarrow> u32 \<Rightarrow> (u32 \<times> u8 list) option" where
  "CAN_Device_Restart_Construct_iap a buf len = put_frame 10 (FUC_DEVICE_RESTART # boot_ids a) buf len"

definition CAN_Paramset_Default_Construct_iap :: "'f boot_app \<Rightarrow> u8 list \<Rightarrow> u32 \<Rightarrow> (u32 \<times> u8 list) option" where
  "CAN_Paramset_Default_Construct_iap a buf len = put_frame 10 (FUC_PARAMSET_DEFAULT # boot_ids a) buf len"

definition CAN_Device_Search_Construct_iap :: "'f boot_app \<Rightarrow> u8 list \<Rightarrow> u32 \<Rightarrow> (u32 \<times> u8 list) option" where
  "CAN_Device_Search_Construct_iap a buf len = (let p = boot_param (iap_vars a) in
     put_frame 32 (FUC_DEVICE_SEARCH # boot_ids a @ concat (map (\<lambda>k. half (ChipUniqueID p ! k)) [0, 1, 2, 3, 4, 5]) @
       half (swversion p) @ [ucast (hwversion p), ucast (IAP_flag p), 0, 0] @ half (ID p) @ [0, 0]) buf len)"

definition CAN_Device_Paramset_Search_Construct_iap :: "'f boot_app \<Rightarrow> u8 list \<Rightarrow> u32 \<Rightarrow> (u32 \<times> u8 list) option" where
  "CAN_Device_Paramset_Search_Construct_iap a buf len =
     put_frame 10 (FUC_DEVICE_PARAMSET_SEARCH # boot_ids a) buf len"

section \<open>Requests that change parameters\<close>

text \<open>The weak analysis of a parameter request only reads its length field.\<close>

definition CAN_Paramset_Receive_Analyse_iap :: "u8 list \<Rightarrow> unit option" where
  "CAN_Paramset_Receive_Analyse_iap buf = map_option (\<lambda>_. ()) (rd16 buf 1)"

definition CAN_Device_Paramset_Search_SetID_iap :: "u8 list \<Rightarrow> 'f boot_vars \<Rightarrow> 'f boot_vars option" where
  "CAN_Device_Paramset_Search_SetID_iap buf v = do {
     RecvID \<leftarrow> rd16 buf 26;
     u0 \<leftarrow> rd16 buf 8;
     u1 \<leftarrow> rd16 buf 10;
     u2 \<leftarrow> rd16 buf 12;
     u3 \<leftarrow> rd16 buf 14;
     u4 \<leftarrow> rd16 buf 16;
     u5 \<leftarrow> rd16 buf 18;
     let check_sum = length (filter (\<lambda>i. [u0, u1, u2, u3, u4, u5] ! i = ChipUniqueID (boot_param v) ! i)
       [0, 1, 2, 3, 4, 5]);
     Some (if check_sum = 6 then v\<lparr>boot_param := (boot_param v)\<lparr>ID := RecvID\<rparr>\<rparr> else v)
   }"

section \<open>The handler\<close>

definition boot_emit :: "can_event \<Rightarrow> 'f boot_app \<Rightarrow> 'f boot_app" where
  "boot_emit e a = a\<lparr>boot_trace := boot_trace a @ [e]\<rparr>"

text \<open>\<open>if (send_len) canbus_middle_send(&CAN, 0x500, send_buf, send_len)\<close>\<close>

definition boot_answer :: "(u32 \<times> u8 list) option \<Rightarrow> 'f boot_app \<Rightarrow> 'f boot_app option" where
  "boot_answer built a = do {
     (send_len, send_buf) \<leftarrow> built;
     if send_len \<noteq> 0 then do {
       bs \<leftarrow> rds send_buf 0 (unat send_len);
       Some (boot_emit (Can_send 0x500 bs) a)
     }
     else Some a
   }"

definition boot_set_flash :: "'f \<Rightarrow> 'f boot_app \<Rightarrow> 'f boot_app" where
  "boot_set_flash f a = a\<lparr>iap_vars := (iap_vars a)\<lparr>boot_flash := f\<rparr>\<rparr>"

definition boot_ota_start :: "'f flash_hw \<Rightarrow> u32 \<Rightarrow> u8 list \<Rightarrow> u8 list \<Rightarrow> nat \<Rightarrow> 'f boot_app \<Rightarrow> 'f boot_app option" where
  "boot_ota_start hw addr_appcopy stk buf i a = do {
     let a = a\<lparr>boot_OTA_UpdateFlag := 1\<rparr>;
     ver \<leftarrow> rd16 buf (i + 8);
     let a = a\<lparr>boot_OTA_Version := ver\<rparr>;
     total \<leftarrow> ArrayU8ToU32 (drop (i + 12) buf);
     sub16 \<leftarrow> ArrayU8ToU16 (drop (i + 16) buf);
     crc \<leftarrow> ArrayU8ToU32 (drop (i + 18) buf);
     let a = a\<lparr>boot_OTA_TotalSize := total, boot_OTA_SubSize := ucast sub16, boot_OTA_CRC32 := crc\<rparr>;
     param \<leftarrow> rds buf (i + 10) 24;
     (_, f) \<leftarrow> Flash_Storage_Header_iap hw (boot_flash (iap_vars a)) param;
     let (_, f) = Flash_Erase_Page_iap hw f addr_appcopy (boot_OTA_TotalSize a);
     let a = boot_set_flash f a;
     boot_answer (CAN_OTA_Start_ACK_Construct_iap a stk 100) a
   }"

definition boot_ota_update :: "'f flash_hw \<Rightarrow> u32 \<Rightarrow> u8 list \<Rightarrow> u8 list \<Rightarrow> nat \<Rightarrow> u32 \<Rightarrow> 'f boot_app \<Rightarrow> 'f boot_app option" where
  "boot_ota_update hw addr_appcopy stk buf i data_len a = do {
     let a = a\<lparr>boot_OTA_UpdateFlag := 2\<rparr>;
     num \<leftarrow> ArrayU8ToU16 (drop (i + 8) buf);
     let a = a\<lparr>boot_OTA_Frame_Num := num\<rparr>;
     let off = ucast (boot_OTA_Frame_Num a) * boot_OTA_SubSize a;
     if data_len > 10 \<and> off < OTA_BIN_MAX_SIZE
     then do {
       let updata_len = data_len - 12;
       (_, f) \<leftarrow> Flash_Write_iap hw (boot_flash (iap_vars a)) (addr_appcopy + off) (drop (i + 10) buf) updata_len;
       let a = boot_set_flash f a;
       boot_answer (CAN_OTA_Update_ACK_Construct_iap a stk 100 0) a
     }
     else boot_answer (CAN_OTA_Update_ACK_Construct_iap a stk 100 1) a
   }"

definition boot_ota_end :: "'f flash_hw \<Rightarrow> u8 list \<Rightarrow> 'f boot_app \<Rightarrow> 'f boot_app option" where
  "boot_ota_end hw stk a = do {
     let a = boot_emit (Thread_delay 10) a;
     let a = a\<lparr>boot_OTA_UpdateFlag := 3\<rparr>;
     a \<leftarrow> boot_answer (CAN_OTA_End_ACK_Construct_iap a stk 100) a;
     let a = a\<lparr>iap_vars := UpdateAppMode_iap hw (iap_vars a)\<rparr>;
     Some (boot_emit System_reset (boot_emit (Thread_delay 100) a))
   }"

definition boot_on_vars :: "('f boot_vars \<Rightarrow> 'f boot_vars option) \<Rightarrow> 'f boot_app \<Rightarrow> 'f boot_app option" where
  "boot_on_vars g a = map_option (\<lambda>v. a\<lparr>iap_vars := v\<rparr>) (g (iap_vars a))"

definition boot_command ::
  "'f flash_hw \<Rightarrow> u32 \<Rightarrow> u8 list \<Rightarrow> u8 list \<Rightarrow> nat \<Rightarrow> u32 \<Rightarrow> u8 \<Rightarrow> 'f boot_app \<Rightarrow> 'f boot_app option" where
  "boot_command hw addr_appcopy stk buf i data_len cmd a =
     (if cmd = CAN_OTA_Recv_Start then boot_ota_start hw addr_appcopy stk buf i a
      else if cmd = CAN_OTA_Recv_Update then boot_ota_update hw addr_appcopy stk buf i data_len a
      else if cmd = CAN_OTA_Recv_End then boot_ota_end hw stk a
      else if cmd = FUC_PARAMSET_READ then boot_answer (CAN_Paramset_Read_Construct_iap a stk 100) a
      else if cmd = FUC_PARAMSET_WRITE then do {
        _ \<leftarrow> CAN_Paramset_Receive_Analyse_iap (drop i buf);
        boot_answer (CAN_Paramset_Write_Construct_iap a stk 100) a
      }
      else if cmd = FUC_PARAMSET_SAVE then do {
        a \<leftarrow> boot_on_vars (iap_param_save_iap hw) a;
        boot_answer (CAN_Paramset_Save_Construct_iap a stk 100) a
      }
      else if cmd = FUC_DEVICE_RESTART then do {
        a \<leftarrow> boot_answer (CAN_Device_Restart_Construct_iap a stk 100) a;
        Some (boot_emit System_reset (boot_emit (Thread_delay 10) a))
      }
      else if cmd = FUC_PARAMSET_DEFAULT then do {
        a \<leftarrow> boot_answer (CAN_Paramset_Default_Construct_iap a stk 100) a;
        boot_on_vars (iap_param_default_iap hw) a
      }
      else if cmd = FUC_DEVICE_SEARCH then do {
        let my = ID (boot_param (iap_vars a));
        (send_len, send_buf) \<leftarrow> CAN_Device_Search_Construct_iap a stk 100;
        if send_len \<noteq> 0
        then boot_answer (Some (send_len, send_buf))
          (if my = 0xFFFF then a else boot_emit (Thread_delay (can_search_delay my)) a)
        else Some a
      }
      else if cmd = FUC_DEVICE_PARAMSET_SEARCH then do {
        a \<leftarrow> boot_on_vars (CAN_Device_Paramset_Search_SetID_iap (drop i buf)) a;
        boot_answer (CAN_Device_Paramset_Search_Construct_iap a stk 100) a
      }
      else if cmd = FUC_AUTOMATIC_CHECK then boot_answer (CAN_Automatic_Check_Construct_iap a stk 100) a
      else Some a)"

text \<open>The identifier of the sender is made of the target identifier and one byte of the sender.\<close>

definition can500_protocol_anylise_iap ::
  "'f flash_hw \<Rightarrow> u8 list \<Rightarrow> 'f boot_app \<Rightarrow> u8 list \<Rightarrow> u32 \<Rightarrow> (del_info_type \<times> 'f boot_app) option" where
  "can500_protocol_anylise_iap hw stk a buf len = do {
     let addr_appcopy = flash_page_from_end hw (boot_flash (iap_vars a)) FLASH_APP_COPY_ADDR;
     if len < CAN_COMM_PROTOCOL_MIN_LEN then Some (\<lparr>info_state = anylise_waiting, del_len = 0\<rparr>, a)
     else do {
       r \<leftarrow> can500_scan buf len;
       (case r of
          Scan_info info \<Rightarrow> Some (info, a)
        | Scan_frame i data_len \<Rightarrow> do {
            dev_ID \<leftarrow> rd16 buf (i + 4);
            _ \<leftarrow> rd buf (i + 7);
            l \<leftarrow> rd buf (i + 6);
            let v = iap_vars a;
            let a = a\<lparr>iap_vars := v\<lparr>boot_param := (boot_param v)\<lparr>remoteID := push_bit 8 dev_ID OR ucast l\<rparr>\<rparr>\<rparr>;
            let my = ID (boot_param (iap_vars a));
            a \<leftarrow> (if my = dev_ID \<or> my = 0xFFFF
              then do {
                cmd \<leftarrow> rd buf (i + 3);
                boot_command hw addr_appcopy stk buf i data_len cmd a
              }
              else Some a);
            Some (\<lparr>info_state = anylise_accept, del_len = data_len + of_nat i\<rparr>, a)
          })
     }
   }"

section \<open>The loop body\<close>

record boot_channel =
  chan_CAN :: CANBus_type
  CAN_BUF500 :: RingBufType
  otacanbuf500 :: "u8 list"
  CANOTAWaitTicks :: u32

text \<open>\<open>canbuf500\<close> is storage of 2048 bytes, of which the ring uses 1024.\<close>

definition RingBufInit :: "u8 list \<Rightarrow> u32 \<Rightarrow> RingBufType" where
  "RingBufInit addr sz = \<lparr>Head = 0, Tail = 0, RxBuf = Some (take (unat sz) addr), RxBufSize = sz\<rparr>"

definition CAN_middle_init :: "u8 list \<Rightarrow> boot_channel \<Rightarrow> boot_channel" where
  "CAN_middle_init canbuf500 ch = ch\<lparr>CAN_BUF500 := RingBufInit canbuf500 1024, chan_CAN := snd (stm32_CAN_clear (chan_CAN ch))\<rparr>"

text \<open>The first half: at most one message goes from the driver to the ring.\<close>

definition boot_can_take :: "boot_channel \<Rightarrow> 'f boot_app \<Rightarrow> (boot_channel \<times> 'f boot_app) option" where
  "boot_can_take ch a = do {
     (got, can) \<leftarrow> stm32_CAN_recv (chan_CAN ch);
     let ch = ch\<lparr>chan_CAN := can\<rparr>;
     (case got of
        None \<Rightarrow> Some (ch, boot_emit (Thread_delay 10) a)
      | Some rx \<Rightarrow>
          if StdId rx = 0x500 then do {
            (_, ring) \<leftarrow> AddDataToBuf (CAN_BUF500 ch) (Data rx) (ucast (DLC rx));
            Some (ch\<lparr>CAN_BUF500 := ring\<rparr>, a)
          }
          else Some (ch, a))
   }"

text \<open>The whole: \<open>t1\<close> and \<open>t2\<close> are the readings of the tick counter, \<open>t2\<close> the one after a clear.\<close>

definition CAN_OTA_Periodic_Handle ::
  "'f flash_hw \<Rightarrow> u8 list \<Rightarrow> u32 \<Rightarrow> u32 \<Rightarrow> boot_channel \<Rightarrow> 'f boot_app \<Rightarrow> (boot_channel \<times> 'f boot_app) option" where
  "CAN_OTA_Periodic_Handle hw stk t1 t2 ch a = do {
     (ch, a) \<leftarrow> boot_can_take ch a;
     (len, b, ring) \<leftarrow> ReadDataFromBuf (CAN_BUF500 ch) (otacanbuf500 ch) 2048 False;
     let ch = ch\<lparr>otacanbuf500 := b, CAN_BUF500 := ring\<rparr>;
     if len = 0 then Some (ch\<lparr>CANOTAWaitTicks := t1\<rparr>, a)
     else do {
       (info, a) \<leftarrow> can500_protocol_anylise_iap hw stk a (otacanbuf500 ch) len;
       if info_state info \<noteq> anylise_waiting then do {
         (_, ring) \<leftarrow> DelDataFromBuf (CAN_BUF500 ch) (del_len info);
         Some (ch\<lparr>CAN_BUF500 := ring, CANOTAWaitTicks := t1\<rparr>, a)
       }
       else let tick_diff = t1 - CANOTAWaitTicks ch in
         if sint (Abs_int tick_diff) > 1000
         then Some (ch\<lparr>chan_CAN := snd (stm32_CAN_clear (chan_CAN ch)), CANOTAWaitTicks := t2\<rparr>, a)
         else Some (ch, a)
     }
   }"

end
