(* ===== verification/Boot_Store.thy ===== *)
theory Boot_Store
  imports Boot_Main
begin

text \<open>
  What the bootloader keeps in its own pages of the flash over the contract: the update flag and
  the image information.
\<close>

context hal_flash
begin

text \<open>The update flag is set, and nothing outside its page changes.\<close>

lemma UpdateAppMode_iap_flag:
  assumes layout: "flash_layout hw main (boot_flash v)"
  defines "a \<equiv> flash_page_from_end hw (boot_flash v) FLASH_IAP_FLAG_ADDR"
  shows "ReadIAPMode hw (boot_flash (UpdateAppMode_iap hw v)) = OTA_Update_APP"
    and "factory hw (boot_flash (UpdateAppMode_iap hw v)) = factory hw (boot_flash v)"
    and "unat x < unat a \<or> unat a + 2048 \<le> unat x \<Longrightarrow>
      hw_byte hw (boot_flash (UpdateAppMode_iap hw v)) x = hw_byte hw (boot_flash v) x"
proof -
  have page: "flash_page main a" unfolding a_def by (rule flag_page [OF layout])
  note e = RunAppMode_iap_erases [OF layout, folded a_def]
  define v1 where "v1 = (if ReadIAPMode hw (boot_flash v) \<noteq> OTA_RUN_APP then RunAppMode_iap hw v else v)"
  have fac1: "factory hw (boot_flash v1) = factory hw (boot_flash v)" by (simp add: v1_def e(2))
  have l1: "flash_layout hw main (boot_flash v1)" using layout factory_same(4) [OF fac1] by simp
  have a1: "a = flash_page_from_end hw (boot_flash v1) FLASH_IAP_FLAG_ADDR"
    unfolding a_def using factory_same(3) [OF fac1] by simp
  have out1: "hw_byte hw (boot_flash v1) x = hw_byte hw (boot_flash v) x" if "unat x < unat a \<or> unat a + 2048 \<le> unat x" for x
    using put_bytes_outside [OF page, of 0 "replicate 2048 0xFF" x] that by (simp add: v1_def e(1))
  have "hw_byte hw (boot_flash v1) (a + of_nat k) = 0xFF" if "k < 8" for k
  proof (cases "ReadIAPMode hw (boot_flash v) = OTA_RUN_APP")
    case True
    then show ?thesis using RunApp_flag_bytes [OF True that] by (simp add: v1_def a_def)
  next
    case False
    then show ?thesis using that by (simp add: v1_def e(1), subst put_bytes_at) auto
  qed
  then obtain f' where f': "HAL_FLASH_Program hw (snd (hw_wait hw (Flash_Unlock_iap hw (boot_flash v1)))) a OTA_Update_APP = (True, f')"
      "hw_byte hw (hw_lock hw f') = put_bytes (hw_byte hw (boot_flash v1)) a (le_enc 8 (unat OTA_Update_APP))"
      "factory hw (hw_lock hw f') = factory hw (boot_flash v1)" "ReadIAPMode hw (hw_lock hw f') = OTA_Update_APP"
    using iap_flag_written [OF l1 a1, of OTA_Update_APP] by blast
  have v': "boot_flash (UpdateAppMode_iap hw v) = hw_lock hw f'"
    using f'(1) by (simp add: UpdateAppMode_iap_def Let_def a_def [symmetric] v1_def [symmetric])
  show "ReadIAPMode hw (boot_flash (UpdateAppMode_iap hw v)) = OTA_Update_APP" by (simp add: v' f'(4))
  show "factory hw (boot_flash (UpdateAppMode_iap hw v)) = factory hw (boot_flash v)" by (simp add: v' f'(3) fac1)
  show "hw_byte hw (boot_flash (UpdateAppMode_iap hw v)) x = hw_byte hw (boot_flash v) x"
    if "unat x < unat a \<or> unat a + 2048 \<le> unat x"
    using put_bytes_outside [OF page, of 0 "le_enc 8 (unat OTA_Update_APP)" x "hw_byte hw (boot_flash v1)"] that out1 [OF that]
    by (simp add: v' f'(2))
qed

text \<open>The image information: its page is erased, then three double words are stored.\<close>

lemma Flash_Storage_Header_loop_iap_stores:
  assumes "ready (snd (hw_wait hw f))" and "addr mod 8 = 0" and "8 * (i + n) \<le> length d" and "8 * (i + n) < 2 ^ 31"
    and "\<And>k. k < 8 * (i + n) \<Longrightarrow> main (addr + of_nat k)"
    and "\<And>k. 8 * i \<le> k \<Longrightarrow> k < 8 * (i + n) \<Longrightarrow> hw_byte hw f (addr + of_nat k) = 0xFF"
  shows "\<exists>f'. Flash_Storage_Header_loop_iap hw f addr d i n = Some (True, f') \<and>
    hw_byte hw f' = put_bytes (hw_byte hw f) (addr + of_nat (8 * i)) (take (8 * n) (drop (8 * i) d))"
  using assms
proof (induction n arbitrary: f i)
  case 0
  then show ?case by simp
next
  case (Suc n)
  let ?a = "addr + of_nat (8 * i)"
  define bs where "bs = take 8 (drop (8 * i) d)"
  have len: "length bs = 8" using Suc.prems(3) by (simp add: bs_def)
  define w :: u64 where "w = of_nat (le_dec bs)"
  have word: "ld 8 d (8 * i) = Some w" using Suc.prems(3) by (simp add: ld_Some w_def bs_def)
  have enc: "le_enc 8 (unat w) = bs"
  proof -
    have "le_dec bs < 18446744073709551616" using le_dec_less [of bs] len by simp
    then have "unat w = le_dec bs" by (simp add: w_def unat_of_nat take_bit_nat_eq_self)
    then show ?thesis using le_enc_dec [of bs] len by simp
  qed
  define f1 where "f1 = snd (hw_wait hw f)"
  have f1: "ready f1" "hw_byte hw f1 = hw_byte hw f"
    using Suc.prems(1) by (simp_all add: f1_def wait_byte)
  have er: "erased hw f1 ?a 8"
    unfolding erased_def
  proof (intro allI impI)
    fix k :: nat assume "k < 8"
    then show "hw_byte hw f1 (?a + of_nat k) = 0xFF"
      using Suc.prems(6) [of "8 * i + k"] by (simp add: f1 ac_simps)
  qed
  have mn: "main (?a + of_nat k)" if "k < 8" for k
    using Suc.prems(5) [of "8 * i + k"] that by (simp add: ac_simps)
  obtain f2 where f2: "HAL_FLASH_Program hw f1 ?a w = (True, f2)" "ready f2"
      "hw_byte hw f2 = put_bytes (hw_byte hw f) ?a bs"
    using HAL_FLASH_Program_stores [OF f1(1) word_mod_8 [OF Suc.prems(2), of "8 * i"] mn er, of w] by (auto simp: enc f1)
  have a2: "addr + of_nat (8 * Suc i) = ?a + of_nat (length bs)" by (simp add: len)
  have "\<exists>f'. Flash_Storage_Header_loop_iap hw f2 addr d (Suc i) n = Some (True, f') \<and>
    hw_byte hw f' = put_bytes (hw_byte hw f2) (addr + of_nat (8 * Suc i)) (take (8 * n) (drop (8 * Suc i) d))"
  proof (rule Suc.IH)
    fix k assume k: "8 * Suc i \<le> k" "k < 8 * (Suc i + n)"
    have "hw_byte hw f2 (?a + of_nat (k - 8 * i)) = hw_byte hw f (?a + of_nat (k - 8 * i))"
      using k Suc.prems(4) len unfolding f2(3) by (subst put_bytes_at) auto
    moreover have "?a + of_nat (k - 8 * i) = addr + of_nat k"
      using k by (simp add: of_nat_diff del: of_nat_mult)
    ultimately show "hw_byte hw f2 (addr + of_nat k) = 0xFF" using Suc.prems(6) [of k] k by simp
  qed (use wait_ready [OF f2(2)] Suc.prems in auto)
  then obtain f' where f': "Flash_Storage_Header_loop_iap hw f2 addr d (Suc i) n = Some (True, f')"
      "hw_byte hw f' = put_bytes (hw_byte hw f2) (addr + of_nat (8 * Suc i)) (take (8 * n) (drop (8 * Suc i) d))"
    by blast
  have "hw_byte hw f' = put_bytes (hw_byte hw f) ?a (bs @ take (8 * n) (drop (8 * Suc i) d))"
  proof (cases "n = 0")
    case True
    then show ?thesis using f'(2) f2(3) by simp
  next
    case False
    have "length bs + length (take (8 * n) (drop (8 * Suc i) d)) \<le> 2 ^ 32" using len Suc.prems(4) by simp
    moreover have "take (8 * n) (drop (8 * Suc i) d) \<noteq> []" using False Suc.prems(3) by auto
    ultimately show ?thesis unfolding f'(2) f2(3) a2 by (intro put_bytes_append)
  qed
  also have "bs @ take (8 * n) (drop (8 * Suc i) d) = take (8 * Suc n) (drop (8 * i) d)"
    by (simp add: bs_def take_add add.commute)
  finally have "hw_byte hw f' = put_bytes (hw_byte hw f) ?a (take (8 * Suc n) (drop (8 * i) d))" .
  moreover have "of_nat i * 8 = (of_nat (8 * i) :: u32)" by simp
  then have "Flash_Storage_Header_loop_iap hw f addr d i (Suc n) = Some (True, f')"
    using word f2(1) f'(1) by (simp add: f1_def [symmetric] Let_def del: of_nat_mult)
  ultimately show ?case by blast
qed

lemma Flash_Storage_Header_iap_stores:
  assumes layout: "flash_layout hw main f" and d: "24 \<le> length d"
  defines "a \<equiv> flash_page_from_end hw f FLASH_APP_INFO_ADDR"
  shows "\<exists>f'. Flash_Storage_Header_iap hw f d = Some (1, f') \<and>
    hw_byte hw f' = put_bytes (hw_byte hw f) a (take 24 d @ replicate 2024 0xFF)"
proof -
  have page: "flash_page main a" unfolding a_def
    by (rule flash_page_from_end_page [OF layout]) (simp_all add: FLASH_APP_INFO_ADDR_def)
  note mn = flash_pageD(4) [OF page]
  obtain f1 where f1: "Flash_Erase_Page_iap hw f a FLASH_PAGE_SIZE = (True, f1)"
      "hw_byte hw f1 = put_bytes (hw_byte hw f) a (replicate 2048 0xFF)"
    using Flash_Erase_Page_iap_ok [of FLASH_PAGE_SIZE a 1 f] mn flash_pageD(1,3) [OF page]
    by (auto simp: FLASH_PAGE_SIZE_def dvd_eq_mod_eq_0)
  define g where "g = Flash_Unlock_iap hw f1"
  have g: "ready (snd (hw_wait hw g))" "hw_byte hw g = hw_byte hw f1"
    unfolding g_def by (rule Flash_Unlock_iap_wait) (simp add: Flash_Unlock_iap_def unlock_byte clear_byte)
  have al: "a mod 8 = 0"
  proof (rule word_unat_eqI)
    obtain u where "unat a = 2048 * u" using flash_pageD(1) [OF page] by blast
    then show "unat (a mod 8) = unat (0 :: u32)" by (simp add: unat_mod)
  qed
  have "\<exists>f'. Flash_Storage_Header_loop_iap hw g a d 0 3 = Some (True, f') \<and>
      hw_byte hw f' = put_bytes (hw_byte hw g) (a + of_nat (8 * 0)) (take (8 * 3) (drop (8 * 0) d))"
  proof (rule Flash_Storage_Header_loop_iap_stores [OF g(1) al])
    show "main (a + of_nat k)" if "k < 8 * (0 + 3)" for k using mn that by simp
    show "hw_byte hw g (a + of_nat k) = 0xFF" if "8 * 0 \<le> k" "k < 8 * (0 + 3)" for k
      using that unfolding g(2) f1(2) by (subst put_bytes_at) auto
  qed (use d in simp_all)
  then obtain f2 where f2: "Flash_Storage_Header_loop_iap hw g a d 0 3 = Some (True, f2)"
      "hw_byte hw f2 = put_bytes (hw_byte hw g) a (take 24 d)" by auto
  have "hw_byte hw f2 = put_bytes (hw_byte hw f) a (take 24 d @ replicate 2024 0xFF)"
    using put_bytes_within [of 0 "take 24 d" "replicate 2048 0xFF" "hw_byte hw f" a] d by (simp add: f2(2) g(2) f1(2))
  then show ?thesis
    using f1(1) f2(1)
    by (simp add: Flash_Storage_Header_iap_def Let_def a_def FLASH_APP_INFO_ADDR_def g_def Flash_Lock_byte)
qed

end

end
