(* ===== verification/Boot_Service.thy ===== *)
theory Boot_Service
  imports Boot_Protocol Boot_Store Update_Path
begin

text \<open>
  What every update channel of the bootloader promises, and what follows from it: the locale
  \<open>boot_update_service\<close> states the contract of the start request, of a block and of the end request;
  a whole session of a channel that keeps it leaves the image, its information and the update flag
  in the flash, and main installs the image after the reset. The channels are \<open>Boot_Download\<close> (CAN)
  and \<open>Boot_Serial_Update\<close> (serial line).
\<close>

section \<open>Addresses\<close>

lemma download_area_aligned:
  assumes "flash_layout hw main f"
  shows "2048 dvd unat (download_area hw f)"
  using flash_pageD(1) [OF flash_page_from_end_page [OF assms, of FLASH_APP_COPY_ADDR]]
  by (simp add: download_area_def FLASH_APP_COPY_ADDR_def)

lemma download_area_mod8:
  assumes "flash_layout hw main f" and "unat off < 106496"
  shows "unat ((download_area hw f + off) mod 8) = unat off mod 8"
proof -
  have "8 dvd unat (download_area hw f)" using download_area_aligned [OF assms(1)] by (rule dvd_trans [rotated]) simp
  moreover have "unat (download_area hw f + off) = unat (download_area hw f) + unat off"
    using download_area_bounds(1) [OF assms(1)] assms(2) by (subst unat_add_noover) simp_all
  ultimately show ?thesis by (simp add: unat_mod mod_add_eq [symmetric, of "unat (download_area hw f)"])
qed

lemma put_bytes_elsewhere:
  assumes "unat (a :: u32) + length bs \<le> 4294967296" and "unat x < unat a \<or> unat a + length bs \<le> unat x"
  shows "put_bytes g a bs x = g x"
proof -
  have "\<not> unat (x - a) < length bs"
  proof (cases "unat a \<le> unat x")
    case True
    then have "unat (x - a) = unat x - unat a" by (simp add: unat_sub word_le_nat_alt)
    then show ?thesis using True assms(2) by linarith
  next
    case False
    then have "unat (x - a) = 4294967296 + unat x - unat a" by (simp add: unat_sub_if')
    then show ?thesis using assms(1) by linarith
  qed
  then show ?thesis by (simp add: put_bytes_def)
qed

section \<open>Blocks one after another\<close>

fun run_blocks :: "(nat \<Rightarrow> u8 list \<Rightarrow> 'a \<Rightarrow> 'a option) \<Rightarrow> nat \<Rightarrow> u8 list list \<Rightarrow> 'a \<Rightarrow> 'a option" where
  "run_blocks upd k [] a = Some a"
| "run_blocks upd k (bs # rest) a = do { a \<leftarrow> upd k bs a; run_blocks upd (Suc k) rest a }"

definition update_session :: "(u8 list \<Rightarrow> 'a \<Rightarrow> 'a option) \<Rightarrow> (nat \<Rightarrow> u8 list \<Rightarrow> 'a \<Rightarrow> 'a option) \<Rightarrow> ('a \<Rightarrow> 'a option) \<Rightarrow>
    u8 list \<Rightarrow> u8 list list \<Rightarrow> 'a \<Rightarrow> 'a option" where
  "update_session start upd fin hdr blocks a = do { a \<leftarrow> start hdr a; a \<leftarrow> run_blocks upd 0 blocks a; fin a }"

lemma bind_snd:
  "m \<bind> (\<lambda>(x, y). Some y) = map_option snd m" "m \<bind> (\<lambda>(x, y). f y) = map_option snd m \<bind> f"
  by (cases m; auto)+

text \<open>
  The contract. \<open>svc_flash\<close> and \<open>svc_sub\<close> read the flash and the announced block size, \<open>svc_ok\<close> is the
  state in which the channel takes requests, \<open>svc_log\<close> counts what it asked of the line and the timer;
  the start request asks for \<open>n_start\<close> such things, a block for one, the end request for \<open>n_end\<close>.
  \<open>svc_max\<close> is the longest block.
\<close>

locale boot_update_service = hal_flash hw ready main
  for hw :: "'f flash_hw" and ready main +
  fixes svc_flash :: "'a \<Rightarrow> 'f" and svc_sub :: "'a \<Rightarrow> u32" and svc_ok :: "'a \<Rightarrow> bool" and svc_log :: "'a \<Rightarrow> nat"
    and svc_start :: "u8 list \<Rightarrow> 'a \<Rightarrow> 'a option" and svc_block :: "nat \<Rightarrow> u8 list \<Rightarrow> 'a \<Rightarrow> 'a option"
    and svc_end :: "'a \<Rightarrow> 'a option" and svc_max n_start n_end :: nat
  assumes svc_max: "svc_max \<le> 1448"
    and start_law: "svc_ok a \<Longrightarrow> flash_layout hw main (svc_flash a) \<Longrightarrow> length hdr = 24 \<Longrightarrow> h = boot_header_of hdr \<Longrightarrow>
      0 < unat (UpdatesTotalSize h) \<Longrightarrow> unat (UpdatesTotalSize h) \<le> 106496 \<Longrightarrow> P = (unat (UpdatesTotalSize h) + 2047) div 2048 \<Longrightarrow>
      \<exists>a'. svc_start hdr a = Some a' \<and> svc_ok a' \<and> svc_sub a' = ucast (UpdatesSubSize h) \<and> svc_log a' = svc_log a + n_start \<and>
        hw_byte hw (svc_flash a') = put_bytes (put_bytes (hw_byte hw (svc_flash a))
          (flash_page_from_end hw (svc_flash a) FLASH_APP_INFO_ADDR) (hdr @ replicate 2024 0xFF))
          (download_area hw (svc_flash a)) (replicate (2048 * P) 0xFF)"
    and block_law: "svc_ok a \<Longrightarrow> flash_layout hw main (svc_flash a) \<Longrightarrow> area = download_area hw (svc_flash a) \<Longrightarrow>
      off = ucast (of_nat k :: u16) * svc_sub a \<Longrightarrow> 8 dvd unat off \<Longrightarrow> off < OTA_BIN_MAX_SIZE \<Longrightarrow>
      bs \<noteq> [] \<Longrightarrow> length bs \<le> svc_max \<Longrightarrow> length bs \<le> m \<Longrightarrow> m < length bs + 8 \<Longrightarrow> 8 dvd m \<Longrightarrow>
      erased hw (svc_flash a) (area + off) m \<Longrightarrow>
      \<exists>a'. svc_block k bs a = Some a' \<and> svc_ok a' \<and> svc_sub a' = svc_sub a \<and> svc_log a' = svc_log a + 1 \<and>
        hw_byte hw (svc_flash a') = put_bytes (hw_byte hw (svc_flash a)) (area + off) bs"
    and end_law: "svc_ok a \<Longrightarrow> flash_layout hw main (svc_flash a) \<Longrightarrow>
      \<exists>a' v. svc_end a = Some a' \<and> svc_log a' = svc_log a + n_end \<and>
        boot_flash v = svc_flash a \<and> svc_flash a' = boot_flash (UpdateAppMode_iap hw v)"
begin

lemma run_blocks_stores:
  assumes "8 dvd s" and "s \<le> svc_max" and "unat (svc_sub a) = s" and "blocks_ok s blocks" and "[] \<notin> set blocks"
    and "k + length blocks \<le> 65536" and "length done = k * s"
    and "flash_layout hw main f0" and "area = download_area hw f0"
    and "8 dvd E" and "E \<le> 106496" and "length (done @ concat blocks) \<le> E"
    and "\<And>j. j < E \<Longrightarrow> hw_byte hw f0 (area + of_nat j) = 0xFF"
    and "hw_byte hw (svc_flash a) = put_bytes (hw_byte hw f0) area done" and "svc_ok a"
  shows "\<exists>a'. run_blocks svc_block k blocks a = Some a' \<and>
    hw_byte hw (svc_flash a') = put_bytes (hw_byte hw f0) area (done @ concat blocks) \<and>
    svc_ok a' \<and> svc_log a' = svc_log a + length blocks"
  using assms
proof (induction blocks arbitrary: a k "done")
  case Nil
  then show ?case by simp
next
  case (Cons bs rest)
  let ?f = "svc_flash a"
  have bs: "length bs \<le> s" "bs \<noteq> []" using Cons.prems(4,5) by (cases rest; auto)+
  have len: "k * s + length bs \<le> E" using Cons.prems(7,12) by simp
  note ar = download_area_bounds [OF Cons.prems(8), folded Cons.prems(9)]
  have fac: "factory hw ?f = factory hw f0"
    using ar(1) len Cons.prems(7,11) by (intro region_factory [OF _ Cons.prems(14)]) simp
  have layout: "flash_layout hw main ?f" using Cons.prems(8) factory_same(4) [OF fac] by simp
  have here: "area = download_area hw ?f"
    using factory_same(3) [OF fac] Cons.prems(9) by (simp add: download_area_def)
  define off where "off = ucast (of_nat k :: u16) * svc_sub a"
  have ks: "k * s < 106496" using len bs(2) Cons.prems(11) by (cases bs) simp_all
  have uoff: "unat off = k * s"
  proof -
    have "unat (ucast (of_nat k :: u16) :: u32) = k"
      using Cons.prems(6) by (simp add: unsigned_ucast_eq unat_of_nat_u16 take_bit_eq_mod)
    then show ?thesis using ks Cons.prems(3) by (simp add: off_def unat_word_ariths)
  qed
  then have offk: "off = of_nat (k * s)" unfolding uoff [symmetric] by simp
  have small: "off < OTA_BIN_MAX_SIZE"
    using uoff ks by (simp add: word_less_nat_alt OTA_BIN_MAX_SIZE_def FLASH_PAGE_SIZE_def)
  have o8: "8 dvd unat off" unfolding uoff using Cons.prems(1) by simp
  define m where "m = 8 * ((length bs + 7) div 8)"
  have m: "length bs \<le> m" "m < length bs + 8" "8 dvd m" unfolding m_def by (linarith, linarith, simp)
  have mE: "k * s + m \<le> E"
  proof -
    obtain u v where uv: "k * s = 8 * u" "E = 8 * v" using o8 [unfolded uoff] Cons.prems(10) by blast
    have "length bs \<le> 8 * (v - u)" using len uv by simp
    then have "(length bs + 7) div 8 \<le> v - u" by linarith
    moreover have "u \<le> v" using len uv by simp
    ultimately show ?thesis unfolding m_def uv by simp
  qed
  have "erased hw ?f (area + off) m"
    unfolding erased_def
  proof (intro allI impI)
    fix j assume j: "j < m"
    have at: "area + off + of_nat j = area + of_nat (k * s + j)" by (simp add: offk)
    have "hw_byte hw f0 (area + of_nat (k * s + j)) = 0xFF" using j mE by (intro Cons.prems(13)) simp
    then show "hw_byte hw ?f (area + off + of_nat j) = 0xFF"
      unfolding at Cons.prems(14) using j mE Cons.prems(7,11) by (subst put_bytes_at) simp_all
  qed
  moreover have "length bs \<le> svc_max" using bs(1) Cons.prems(2) by simp
  ultimately obtain a1 where a1: "svc_block k bs a = Some a1"
      "hw_byte hw (svc_flash a1) = put_bytes (hw_byte hw ?f) (area + off) bs" "svc_ok a1"
      "svc_sub a1 = svc_sub a" "svc_log a1 = svc_log a + 1"
    using block_law [OF Cons.prems(15) layout here off_def o8 small bs(2) _ m] by blast
  have byte: "hw_byte hw (svc_flash a1) = put_bytes (hw_byte hw f0) area (done @ bs)"
    using a1(2) put_bytes_append [of "done" bs "hw_byte hw f0" area] bs(2) len Cons.prems(7,11,14) by (simp add: offk)
  show ?case
  proof (cases "rest = []")
    case True
    then show ?thesis using a1 byte by simp
  next
    case False
    then have "blocks_ok s rest" "length bs = s" using Cons.prems(4) by (cases rest; simp)+
    then have "\<exists>a'. run_blocks svc_block (Suc k) rest a1 = Some a' \<and>
        hw_byte hw (svc_flash a') = put_bytes (hw_byte hw f0) area ((done @ bs) @ concat rest) \<and>
        svc_ok a' \<and> svc_log a' = svc_log a1 + length rest"
      using Cons.prems byte a1 by (intro Cons.IH) simp_all
    then show ?thesis using a1(1,5) by auto
  qed
qed

text \<open>A whole session: what it leaves in the flash.\<close>

lemma session_stores:
  assumes layout: "flash_layout hw main (svc_flash a)" and ok: "svc_ok a"
    and hdr: "length hdr = 24" and h: "h = boot_header_of hdr"
    and n: "unat (UpdatesTotalSize h) = length img" "0 < length img" "length img \<le> 106496"
    and s: "unat (UpdatesSubSize h) = s" "8 dvd s" "s \<le> svc_max"
    and blocks: "blocks_ok s blocks" "[] \<notin> set blocks" "length blocks \<le> 65536" "img = concat blocks"
    and P: "P = (length img + 2047) div 2048"
    and area: "area = download_area hw (svc_flash a)"
  shows "\<exists>a'. update_session svc_start svc_block svc_end hdr blocks a = Some a' \<and>
    factory hw (svc_flash a') = factory hw (svc_flash a) \<and>
    ReadIAPMode hw (svc_flash a') = OTA_Update_APP \<and>
    flash_bytes hw (svc_flash a') (flash_page_from_end hw (svc_flash a) FLASH_APP_INFO_ADDR) 24 = hdr \<and>
    flash_bytes hw (svc_flash a') area (length img) = img \<and>
    (\<forall>x. unat x < unat area \<longrightarrow> hw_byte hw (svc_flash a') x = hw_byte hw (svc_flash a) x) \<and>
    svc_log a' = svc_log a + n_start + length blocks + n_end"
proof -
  let ?f = "svc_flash a" and ?g = "hw_byte hw (svc_flash a)"
  define info where "info = flash_page_from_end hw ?f FLASH_APP_INFO_ADDR"
  define flag where "flag = flash_page_from_end hw ?f FLASH_IAP_FLAG_ADDR"
  note adr = page_addresses [OF layout, folded info_def flag_def download_area_def, folded area]
  have "P \<le> 52" unfolding P using n(3) by linarith
  then have P52: "2048 * P \<le> 106496" by simp
  have imgP: "length img \<le> 2048 * P" unfolding P by linarith
  define g1 where "g1 = put_bytes (put_bytes ?g info (hdr @ replicate 2024 0xFF)) area (replicate (2048 * P) 0xFF)"
  obtain a1 where a1: "svc_start hdr a = Some a1" "hw_byte hw (svc_flash a1) = g1" "svc_ok a1"
      "svc_sub a1 = ucast (UpdatesSubSize h)" "svc_log a1 = svc_log a + n_start"
    using start_law [OF ok layout hdr h _ _ P [folded n(1)]] n unfolding g1_def info_def area by auto
  have out: "g1 x = ?g x" if "unat x < unat area \<or> unat info + 2048 \<le> unat x" for x
  proof -
    have "g1 x = put_bytes ?g info (hdr @ replicate 2024 0xFF) x"
      unfolding g1_def by (rule put_bytes_elsewhere) (use that adr P52 in auto)
    also have "\<dots> = ?g x" by (rule put_bytes_elsewhere) (use that adr hdr in auto)
    finally show ?thesis .
  qed
  have fac1: "factory hw (svc_flash a1) = factory hw ?f"
    by (rule factory_cong) (use out adr in \<open>simp add: a1(2)\<close>)
  have l1: "flash_layout hw main (svc_flash a1)" using layout factory_same(4) [OF fac1] by simp
  have area1: "area = download_area hw (svc_flash a1)"
    unfolding area download_area_def by (rule factory_same(3) [OF fac1, symmetric])
  have sub: "unat (svc_sub a1) = s"
    using s(1) unat_less_u16 [of "UpdatesSubSize h"] by (simp add: a1(4) unsigned_ucast_eq take_bit_eq_mod)
  have blank: "hw_byte hw (svc_flash a1) (area + of_nat j) = 0xFF" if "j < 2048 * P" for j
    unfolding a1(2) g1_def using that P52 by (subst put_bytes_at) auto
  obtain a2 where a2: "run_blocks svc_block 0 blocks a1 = Some a2"
      "hw_byte hw (svc_flash a2) = put_bytes g1 area img" "svc_ok a2" "svc_log a2 = svc_log a1 + length blocks"
    using run_blocks_stores [OF s(2,3) sub blocks(1,2) _ _ l1 area1 _ P52 _ blank _ a1(3), of 0 "[]"]
      blocks(3,4) imgP by (auto simp: a1(2))
  have out2: "hw_byte hw (svc_flash a2) x = ?g x" if "unat x < unat area \<or> unat info + 2048 \<le> unat x" for x
  proof -
    have "put_bytes g1 area img x = g1 x" by (rule put_bytes_elsewhere) (use that adr P52 imgP in auto)
    then show ?thesis by (simp add: a2(2) out [OF that])
  qed
  have fac2: "factory hw (svc_flash a2) = factory hw ?f"
    by (rule factory_cong) (use out2 adr in simp)
  have l2: "flash_layout hw main (svc_flash a2)" using layout factory_same(4) [OF fac2] by simp
  obtain a3 v where a3: "svc_end a2 = Some a3" "svc_log a3 = svc_log a2 + n_end"
      "boot_flash v = svc_flash a2" "svc_flash a3 = boot_flash (UpdateAppMode_iap hw v)"
    using end_law [OF a2(3) l2] by blast
  note fl = UpdateAppMode_iap_flag [of v, unfolded a3(3), folded a3(4), OF l2, unfolded factory_same(3) [OF fac2], folded flag_def]
  have fac3: "factory hw (svc_flash a3) = factory hw ?f" using fl(2) fac2 by simp
  have by3: "hw_byte hw (svc_flash a3) x = put_bytes g1 area img x" if "unat x < unat flag" for x
    using fl(3) [of x] that by (simp add: a2(2))
  have "flash_bytes hw (svc_flash a3) info 24 = hdr"
  proof (rule nth_equalityI)
    fix k assume "k < length (flash_bytes hw (svc_flash a3) info 24)"
    then have k: "k < 24" by simp
    then have u: "unat (info + of_nat k) = unat info + k"
      using adr by (subst unat_add_noover) (simp_all add: unat_of_nat_u32)
    have "hw_byte hw (svc_flash a3) (info + of_nat k) = put_bytes g1 area img (info + of_nat k)"
      using u k adr by (intro by3) simp
    also have "\<dots> = g1 (info + of_nat k)" using u adr P52 imgP by (intro put_bytes_elsewhere) simp_all
    also have "\<dots> = put_bytes ?g info (hdr @ replicate 2024 0xFF) (info + of_nat k)"
      unfolding g1_def using u adr P52 by (intro put_bytes_elsewhere) simp_all
    also have "\<dots> = hdr ! k" using k hdr by (subst put_bytes_at) (simp_all add: nth_append)
    finally show "flash_bytes hw (svc_flash a3) info 24 ! k = hdr ! k" using k by (simp add: flash_bytes_def)
  qed (use hdr in simp)
  moreover have "flash_bytes hw (svc_flash a3) area (length img) = img"
  proof (rule nth_equalityI)
    fix k assume "k < length (flash_bytes hw (svc_flash a3) area (length img))"
    then have k: "k < length img" by simp
    then have u: "unat (area + of_nat k) = unat area + k"
      using adr n(3) by (subst unat_add_noover) (simp_all add: unat_of_nat_u32)
    have "hw_byte hw (svc_flash a3) (area + of_nat k) = put_bytes g1 area img (area + of_nat k)"
      using u k adr n(3) by (intro by3) simp
    also have "\<dots> = img ! k" using k n(3) by (subst put_bytes_at) simp_all
    finally show "flash_bytes hw (svc_flash a3) area (length img) ! k = img ! k" using k by (simp add: flash_bytes_def)
  qed simp
  moreover have "hw_byte hw (svc_flash a3) x = ?g x" if "unat x < unat area" for x
    using by3 [of x] out2 [of x, unfolded a2(2)] that adr by simp
  ultimately show ?thesis
    using a1(1,5) a2(1,4) a3(1,2) fl(1) fac3 by (auto simp: update_session_def info_def)
qed

end

section \<open>After the reset\<close>

context hal_flash
begin

text \<open>The bootloader after the reset that ends the session; \<open>w\<close> are its fresh variables.\<close>

lemma boot_session_installed:
  assumes layout: "flash_layout hw main f0" and fac: "factory hw (boot_flash w) = factory hw f0"
    and mode: "ReadIAPMode hw (boot_flash w) = OTA_Update_APP" and area: "area = download_area hw f0"
    and hdr: "flash_bytes hw (boot_flash w) (flash_page_from_end hw f0 FLASH_APP_INFO_ADDR) 24 = hdr"
    and h: "h = boot_header_of hdr" "CompressFlag h \<noteq> 1"
    and n: "unat (UpdatesTotalSize h) = length img" "0 < length img" "length img \<le> 106496"
    and img: "flash_bytes hw (boot_flash w) area (length img) = img" and sum: "UpdatesCRC32 h = crc32_ref img"
    and P: "P = (length img + 2047) div 2048" "unat FLASH_APP_RUN_ADDR + 2048 * P \<le> unat area"
    and same: "\<forall>x. unat x < unat area \<longrightarrow> hw_byte hw (boot_flash w) x = hw_byte hw f0 x"
    and buf: "length (check_buf w) = 2048"
  shows "\<exists>w'. boot_main hw unz w = Some (Boot_reset, w') \<and> ReadIAPMode hw (boot_flash w') = OTA_RUN_APP \<and>
    flash_bytes hw (boot_flash w') FLASH_APP_RUN_ADDR (length img) = img \<and>
    (\<forall>x. unat x < unat FLASH_APP_RUN_ADDR \<or> unat FLASH_APP_RUN_ADDR + 2048 * P \<le> unat x \<and> unat x < unat area \<longrightarrow>
      hw_byte hw (boot_flash w') x = hw_byte hw f0 x)"
proof -
  let ?w = "w\<lparr>boot_IAP_FLAG := OTA_Update_APP\<rparr>"
  have run: "unat FLASH_APP_RUN_ADDR = 134258688" by (simp add: FLASH_APP_RUN_ADDR_def)
  have l: "flash_layout hw main (boot_flash w)" using layout factory_same(4) [OF fac] by simp
  note pages = factory_same(3) [OF fac]
  have a: "area = flash_page_from_end hw (boot_flash w) FLASH_APP_COPY_ADDR"
    unfolding area download_area_def pages by (rule refl)
  have "\<exists>w'. boot_update hw unz ?w = Some (Boot_reset, w') \<and> ReadIAPMode hw (boot_flash w') = OTA_RUN_APP \<and>
    hw_byte hw (boot_flash w') = put_bytes (copied (hw_byte hw (boot_flash ?w)) img P (unat (UpdatesTotalSize h)))
      (flash_page_from_end hw (boot_flash ?w) FLASH_IAP_FLAG_ADDR) (replicate 2048 0xFF)"
    using l h n img sum P buf hdr run
    by (intro boot_update_installs [of ?w h "UpdatesTotalSize h" area P img]) (simp_all add: pages area download_area_def)
  then obtain w' where w': "boot_update hw unz ?w = Some (Boot_reset, w')" "ReadIAPMode hw (boot_flash w') = OTA_RUN_APP"
      "hw_byte hw (boot_flash w') = put_bytes (copied (hw_byte hw (boot_flash w)) img P (length img))
        (flash_page_from_end hw (boot_flash w) FLASH_IAP_FLAG_ADDR) (replicate 2048 0xFF)"
    unfolding n(1) by auto
  have imgP: "length img \<le> 2048 * P" unfolding P(1) by linarith
  have "P \<le> 52" unfolding P(1) using n(3) by linarith
  then have P52: "2048 * P \<le> 106496" by simp
  have below: "hw_byte hw (boot_flash w') x = copied (hw_byte hw (boot_flash w)) img P (length img) x"
    if "unat x < unat area" for x
    unfolding w'(3) using that a by (intro flag_page_behind [OF l]) simp
  have main: "boot_main hw unz w = Some (Boot_reset, w')"
    using w'(1) mode by (simp add: boot_main_def Let_def OTA_Update_APP_def OTA_RUN_APP_def)
  moreover have "flash_bytes hw (boot_flash w') FLASH_APP_RUN_ADDR (length img) = img"
  proof (rule nth_equalityI)
    fix k assume "k < length (flash_bytes hw (boot_flash w') FLASH_APP_RUN_ADDR (length img))"
    then have k: "k < length img" by simp
    then have "unat (FLASH_APP_RUN_ADDR + of_nat k) = 134258688 + k"
      using run n(3) by (subst unat_add_noover) (simp_all add: unat_of_nat_u32)
    then have "hw_byte hw (boot_flash w') (FLASH_APP_RUN_ADDR + of_nat k) =
        copied (hw_byte hw (boot_flash w)) img P (length img) (FLASH_APP_RUN_ADDR + of_nat k)"
      using k imgP P(2) run by (intro below) simp
    also have "\<dots> = img ! k" unfolding copied_def using k n(3) by (subst put_bytes_at) (simp_all add: nth_append)
    finally show "flash_bytes hw (boot_flash w') FLASH_APP_RUN_ADDR (length img) ! k = img ! k"
      using k by (simp add: flash_bytes_def)
  qed simp
  moreover have "hw_byte hw (boot_flash w') x = hw_byte hw f0 x"
    if x: "unat x < unat FLASH_APP_RUN_ADDR \<or> unat FLASH_APP_RUN_ADDR + 2048 * P \<le> unat x \<and> unat x < unat area" for x
  proof -
    have lo: "unat x < unat area" using x P(2) by auto
    have "copied (hw_byte hw (boot_flash w)) img P (length img) x = hw_byte hw (boot_flash w) x"
      unfolding copied_def by (rule put_bytes_elsewhere) (use x run P52 imgP in auto)
    then show ?thesis using below [OF lo] same lo by simp
  qed
  ultimately show ?thesis using w'(2) by blast
qed

end

context boot_update_service
begin

text \<open>Both together: the image of a session is installed by the next start of the bootloader.\<close>

lemma session_installs:
  assumes layout: "flash_layout hw main (svc_flash a)" and ok: "svc_ok a"
    and hdr: "length hdr = 24" "h = boot_header_of hdr" "CompressFlag h \<noteq> 1"
    and n: "unat (UpdatesTotalSize h) = length img" "0 < length img" "length img \<le> 106496" "UpdatesCRC32 h = crc32_ref img"
    and s: "unat (UpdatesSubSize h) = s" "8 dvd s" "s \<le> svc_max"
    and blocks: "blocks_ok s blocks" "[] \<notin> set blocks" "length blocks \<le> 65536" "img = concat blocks"
    and P: "P = (length img + 2047) div 2048"
    and area: "area = download_area hw (svc_flash a)" "unat FLASH_APP_RUN_ADDR + 2048 * P \<le> unat area"
  shows "\<exists>a'. update_session svc_start svc_block svc_end hdr blocks a = Some a' \<and> svc_log a' = svc_log a + n_start + length blocks + n_end \<and>
    (\<forall>w. boot_flash w = svc_flash a' \<and> length (check_buf w) = 2048 \<longrightarrow>
      (\<exists>w'. boot_main hw unz w = Some (Boot_reset, w') \<and> ReadIAPMode hw (boot_flash w') = OTA_RUN_APP \<and>
        flash_bytes hw (boot_flash w') FLASH_APP_RUN_ADDR (length img) = img \<and>
        (\<forall>x. unat x < unat FLASH_APP_RUN_ADDR \<or> unat FLASH_APP_RUN_ADDR + 2048 * P \<le> unat x \<and> unat x < unat area \<longrightarrow>
          hw_byte hw (boot_flash w') x = hw_byte hw (svc_flash a) x)))"
proof -
  obtain a' where a': "update_session svc_start svc_block svc_end hdr blocks a = Some a'"
      "factory hw (svc_flash a') = factory hw (svc_flash a)"
      "ReadIAPMode hw (svc_flash a') = OTA_Update_APP"
      "flash_bytes hw (svc_flash a') (flash_page_from_end hw (svc_flash a) FLASH_APP_INFO_ADDR) 24 = hdr"
      "flash_bytes hw (svc_flash a') area (length img) = img"
      "\<forall>x. unat x < unat area \<longrightarrow> hw_byte hw (svc_flash a') x = hw_byte hw (svc_flash a) x"
      "svc_log a' = svc_log a + n_start + length blocks + n_end"
    using session_stores [OF layout ok hdr(1,2) n(1-3) s blocks P area(1)] by blast
  have "\<exists>w'. boot_main hw unz w = Some (Boot_reset, w') \<and> ReadIAPMode hw (boot_flash w') = OTA_RUN_APP \<and>
      flash_bytes hw (boot_flash w') FLASH_APP_RUN_ADDR (length img) = img \<and>
      (\<forall>x. unat x < unat FLASH_APP_RUN_ADDR \<or> unat FLASH_APP_RUN_ADDR + 2048 * P \<le> unat x \<and> unat x < unat area \<longrightarrow>
        hw_byte hw (boot_flash w') x = hw_byte hw (svc_flash a) x)"
    if w: "boot_flash w = svc_flash a'" "length (check_buf w) = 2048" for w
    using boot_session_installed [OF layout _ _ area(1) _ hdr(2,3) n(1-3) _ n(4) P area(2) _ w(2)] a' by (simp add: w(1))
  then show ?thesis using a'(1,7) by blast
qed

end

end
