(* ===== verification/Boot_Download.thy ===== *)
theory Boot_Download
  imports Boot_Service
begin

text \<open>
  A firmware update through the bootloader: the start request, the blocks and the end request of
  \<open>Boot_Protocol\<close>, what they leave in the flash, and what main does with it after the reset.
\<close>

section \<open>Requests at the start of the buffer\<close>

text \<open>The state in which a request is executed: the sender has been noted.\<close>

definition boot_noted :: "u16 \<Rightarrow> u16 \<Rightarrow> 'f boot_app \<Rightarrow> 'f boot_app" where
  "boot_noted target sender a = a\<lparr>iap_vars := (iap_vars a)\<lparr>boot_param := (boot_param (iap_vars a))\<lparr>remoteID :=
     push_bit 8 target OR ucast (ucast sender :: u8)\<rparr>\<rparr>\<rparr>"

definition boot_frame :: "u8 \<Rightarrow> u16 \<Rightarrow> u16 \<Rightarrow> u8 list \<Rightarrow> u8 list" where
  "boot_frame cmd target sender rest = mk_frame (cmd # half target @ half sender @ rest)"

lemma boot_frame_bytes:
  obtains x y s where "boot_frame cmd target sender rest = [0xFE, x, y, cmd] @ half target @ half sender @ rest @ [s, 0xBE]"
  unfolding boot_frame_def by (auto simp: mk_frame_def le_enc_2)

lemma length_boot_frame [simp]: "length (boot_frame cmd target sender rest) = length rest + 10"
  by (simp add: boot_frame_def)

lemma boot_frame_handled:
  assumes b: "b = boot_frame cmd target sender rest @ r" and len: "length rest \<le> 1450"
    and target: "ID (boot_param (iap_vars a)) = target"
    and run: "boot_command hw (flash_page_from_end hw (boot_flash (iap_vars a)) FLASH_APP_COPY_ADDR) stk b 0
      (of_nat (length rest + 10)) cmd (boot_noted target sender a) = Some a'"
  shows "can500_protocol_anylise_iap hw stk a b (of_nat (length rest + 10)) =
    Some (\<lparr>info_state = anylise_accept, del_len = of_nat (length rest + 10)\<rparr>, a')"
proof -
  let ?n = "of_nat (length rest + 10) :: u32"
  have n: "unat ?n = length rest + 10" unfolding unat_of_nat_u32 using len by simp
  have scan: "can500_scan b ?n = Some (Scan_frame 0 ?n)"
    unfolding b boot_frame_def using n len by (intro mk_frame_scanned) simp_all
  obtain x y s where f: "boot_frame cmd target sender rest = [0xFE, x, y, cmd] @ half target @ half sender @ rest @ [s, 0xBE]"
    by (rule boot_frame_bytes)
  have flds: "rd16 b 4 = Some target" "rd b 3 = Some cmd" "rd b 6 = Some (ucast sender)" "\<exists>z. rd b 7 = Some z"
    unfolding b f by (rule rd16_half, simp add: half_def) (simp_all add: rd_def half_def)
  have "\<not> ?n < CAN_COMM_PROTOCOL_MIN_LEN"
    using n by (simp add: CAN_COMM_PROTOCOL_MIN_LEN_def word_less_nat_alt)
  then show ?thesis
    using scan flds run target by (auto simp: can500_protocol_anylise_iap_def Let_def boot_noted_def)
qed

lemma boot_answer_sent:
  assumes "100 \<le> length stk" and "length body + 5 \<le> 100" and "n = of_nat (length body + 5)"
  shows "boot_answer (put_frame n body stk 100) a = Some (boot_emit (Can_send 0x500 (mk_frame body)) a)"
proof -
  have u: "unat n = length body + 5" unfolding assms(3) unat_of_nat_u32 using assms(2) by simp
  have n0: "n \<noteq> 0"
  proof
    assume "n = 0"
    with u show False by simp
  qed
  have p: "put_frame n body stk 100 = Some (n, mk_frame body @ drop (unat n) stk)"
    using assms(1,2) u by (intro put_frame_mk_frame) simp_all
  have "rds (mk_frame body @ drop (unat n) stk) 0 (unat n) = Some (mk_frame body)"
    by (simp add: rds_def u)
  then show ?thesis using p n0 by (simp add: boot_answer_def)
qed

lemma boot_noted_simps [simp]:
  "boot_flash (iap_vars (boot_noted t s a)) = boot_flash (iap_vars a)" "check_buf (iap_vars (boot_noted t s a)) = check_buf (iap_vars a)"
  "ID (boot_param (iap_vars (boot_noted t s a))) = ID (boot_param (iap_vars a))"
  "boot_OTA_SubSize (boot_noted t s a) = boot_OTA_SubSize a" "boot_trace (boot_noted t s a) = boot_trace a"
  by (simp_all add: boot_noted_def)

text \<open>The blocks of an image, one request each; \<open>left k\<close> is what an earlier round left in the analysis
  buffer behind request \<open>k\<close>. The session is the start request, the blocks and the end request.\<close>

fun boot_download ::
  "'f flash_hw \<Rightarrow> u8 list \<Rightarrow> u16 \<Rightarrow> u16 \<Rightarrow> (nat \<Rightarrow> u8 list) \<Rightarrow> nat \<Rightarrow> u8 list list \<Rightarrow> 'f boot_app \<Rightarrow> 'f boot_app option" where
  "boot_download hw stk target sender left k [] a = Some a"
| "boot_download hw stk target sender left k (bs # rest) a = do {
     (_, a) \<leftarrow> can500_protocol_anylise_iap hw stk a
       (update_frame target sender (of_nat k) bs @ left k) (of_nat (length bs + 12));
     boot_download hw stk target sender left (Suc k) rest a
   }"

definition boot_session ::
  "'f flash_hw \<Rightarrow> u8 list \<Rightarrow> u16 \<Rightarrow> u16 \<Rightarrow> u16 \<Rightarrow> u8 list \<Rightarrow> (nat \<Rightarrow> u8 list) \<Rightarrow> u8 list \<Rightarrow> u8 list \<Rightarrow> u8 list list \<Rightarrow>
     'f boot_app \<Rightarrow> 'f boot_app option" where
  "boot_session hw stk target sender ver hdr left r1 r2 blocks a = do {
     (_, a) \<leftarrow> can500_protocol_anylise_iap hw stk a
       (boot_frame CAN_OTA_Recv_Start target sender (half ver @ hdr) @ r1) 36;
     a \<leftarrow> boot_download hw stk target sender left 0 blocks a;
     (_, a) \<leftarrow> can500_protocol_anylise_iap hw stk a (boot_frame CAN_OTA_Recv_End target sender [] @ r2) 10;
     Some a
   }"

context hal_flash
begin

text \<open>The start request.\<close>

lemma boot_start_step:
  assumes layout: "flash_layout hw main (boot_flash (iap_vars a))" and target: "ID (boot_param (iap_vars a)) = target"
    and hdr: "length hdr = 24" and h: "h = boot_header_of hdr" and n: "0 < unat (UpdatesTotalSize h)" "unat (UpdatesTotalSize h) \<le> 106496"
    and P: "P = (unat (UpdatesTotalSize h) + 2047) div 2048" and stk: "100 \<le> length stk"
    and b: "b = boot_frame CAN_OTA_Recv_Start target sender (half ver @ hdr) @ r"
  shows "\<exists>a' ack. can500_protocol_anylise_iap hw stk a b 36 = Some (\<lparr>info_state = anylise_accept, del_len = 36\<rparr>, a') \<and>
    hw_byte hw (boot_flash (iap_vars a')) =
      put_bytes (put_bytes (hw_byte hw (boot_flash (iap_vars a))) (flash_page_from_end hw (boot_flash (iap_vars a)) FLASH_APP_INFO_ADDR)
        (hdr @ replicate 2024 0xFF)) (download_area hw (boot_flash (iap_vars a))) (replicate (2048 * P) 0xFF) \<and>
    ID (boot_param (iap_vars a')) = target \<and> check_buf (iap_vars a') = check_buf (iap_vars a) \<and>
    boot_OTA_SubSize a' = ucast (UpdatesSubSize h) \<and> boot_trace a' = boot_trace a @ [Can_send 0x500 ack]"
proof -
  let ?f = "boot_flash (iap_vars a)"
  let ?info = "flash_page_from_end hw ?f FLASH_APP_INFO_ADDR"
  obtain f1 where f1: "Flash_Storage_Header_iap hw ?f hdr = Some (1, f1)"
      "hw_byte hw f1 = put_bytes (hw_byte hw ?f) ?info (hdr @ replicate 2024 0xFF)"
    using Flash_Storage_Header_iap_stores [OF layout, of hdr] hdr by auto
  note ar = download_area_bounds [OF layout]
  have "P \<le> 52" unfolding P using n(2) by linarith
  then have P52: "2048 * P \<le> 106496" by simp
  have "unat (download_area hw ?f) mod 2048 = 0" using download_area_aligned [OF layout] by simp
  moreover have mn: "main (download_area hw ?f + of_nat k)" if "k < 2048 * P" for k
    using that P52 by (intro ar(3)) simp
  ultimately obtain f2 where f2: "Flash_Erase_Page_iap hw f1 (download_area hw ?f) (UpdatesTotalSize h) = (True, f2)"
      "hw_byte hw f2 = put_bytes (hw_byte hw f1) (download_area hw ?f) (replicate (2048 * P) 0xFF)"
    using Flash_Erase_Page_iap_ok [OF n _ P _ mn, of f1] ar(1) P52 by auto
  obtain x y s where fr: "boot_frame CAN_OTA_Recv_Start target sender (half ver @ hdr) =
      [0xFE, x, y, CAN_OTA_Recv_Start] @ half target @ half sender @ (half ver @ hdr) @ [s, 0xBE]"
    by (rule boot_frame_bytes)
  have d10: "drop 10 b = hdr @ [s, 0xBE] @ r" unfolding b fr by (simp add: half_def)
  have dk: "drop (10 + k) b = drop k hdr @ [s, 0xBE] @ r" if "k \<le> 24" for k
  proof -
    have "drop (10 + k) b = drop k (drop 10 b)" by (simp add: add.commute)
    then show ?thesis unfolding d10 using that hdr by simp
  qed
  have ver: "rd16 b 8 = Some ver" unfolding b fr by (rule rd16_half) (simp add: half_def)
  have tk: "take m (drop k hdr @ [s, 0xBE] @ r) = take m (drop k hdr)" if "k + m \<le> 24" for k m
    using that hdr by simp
  have total: "ArrayU8ToU32 (drop 12 b) = Some (UpdatesTotalSize h)"
    using dk [of 2] hdr tk [of 2 4] by (simp add: ArrayU8ToU32_le h boot_header_of_def le_field_def)
  have sub: "ArrayU8ToU16 (drop 16 b) = Some (UpdatesSubSize h)"
    using dk [of 6] hdr tk [of 6 2] by (simp add: ArrayU8ToU16_le h boot_header_of_def le_field_def)
  have "\<exists>crc. ArrayU8ToU32 (drop 18 b) = Some crc" using dk [of 8] hdr by (simp add: ArrayU8ToU32_le)
  then obtain crc where crc: "ArrayU8ToU32 (drop 18 b) = Some crc" ..
  have "length b = 36 + length r" unfolding b using hdr by simp
  then have param: "rds b 10 24 = Some hdr" using d10 hdr by (simp add: rds_def)
  define a1 where "a1 = boot_set_flash f2 ((boot_noted target sender a)\<lparr>boot_OTA_UpdateFlag := 1, boot_OTA_Version := ver,
    boot_OTA_TotalSize := UpdatesTotalSize h, boot_OTA_SubSize := ucast (UpdatesSubSize h), boot_OTA_CRC32 := crc\<rparr>)"
  have "boot_command hw (download_area hw ?f) stk b 0 36 CAN_OTA_Recv_Start (boot_noted target sender a) =
      boot_answer (CAN_OTA_Start_ACK_Construct_iap a1 stk 100) a1"
    using f1(1) f2(1)
    by (simp add: boot_command_def boot_ota_start_def Let_def ver total sub crc param a1_def boot_set_flash_def)
  also have "\<dots> = Some (boot_emit (Can_send 0x500 (mk_frame (CAN_OTA_Send_Start # boot_ids a1))) a1)"
    unfolding CAN_OTA_Start_ACK_Construct_iap_def using stk by (intro boot_answer_sent) (simp_all add: boot_ids_def)
  finally have run: "boot_command hw (flash_page_from_end hw ?f FLASH_APP_COPY_ADDR) stk b 0 (of_nat (length (half ver @ hdr) + 10))
      CAN_OTA_Recv_Start (boot_noted target sender a) =
      Some (boot_emit (Can_send 0x500 (mk_frame (CAN_OTA_Send_Start # boot_ids a1))) a1)"
    using hdr by (simp add: download_area_def)
  have "length (half ver @ hdr) \<le> 1450" using hdr by simp
  from boot_frame_handled [OF b this target run] show ?thesis
    using f2(2) hdr target by (auto simp: f1(2) boot_emit_def a1_def boot_set_flash_def)
qed

text \<open>An update request; \<open>m\<close> is the length of the block rounded up to double words.\<close>

lemma boot_update_step:
  assumes layout: "flash_layout hw main (boot_flash (iap_vars a))" and target: "ID (boot_param (iap_vars a)) = target"
    and area: "area = download_area hw (boot_flash (iap_vars a))" and off: "off = ucast num * boot_OTA_SubSize a" "8 dvd unat off" "off < OTA_BIN_MAX_SIZE"
    and bs: "length bs \<le> 1448" and m: "length bs \<le> m" "m < length bs + 8" "8 dvd m"
    and blank: "erased hw (boot_flash (iap_vars a)) (area + off) m"
    and stk: "100 \<le> length stk" and b: "b = update_frame target sender num bs @ r"
  shows "\<exists>a' ack. can500_protocol_anylise_iap hw stk a b (of_nat (length bs + 12)) =
      Some (\<lparr>info_state = anylise_accept, del_len = of_nat (length bs + 12)\<rparr>, a') \<and>
    hw_byte hw (boot_flash (iap_vars a')) = put_bytes (hw_byte hw (boot_flash (iap_vars a))) (area + off) bs \<and>
    ID (boot_param (iap_vars a')) = target \<and> check_buf (iap_vars a') = check_buf (iap_vars a) \<and>
    boot_OTA_SubSize a' = boot_OTA_SubSize a \<and> boot_trace a' = boot_trace a @ [Can_send 0x500 ack] \<and> ack ! 10 = 0"
proof -
  let ?f = "boot_flash (iap_vars a)"
  note ar = download_area_bounds [OF layout, folded area]
  have o: "unat off < 106496" using off(3) by (simp add: word_less_nat_alt OTA_BIN_MAX_SIZE_def FLASH_PAGE_SIZE_def)
  have addr8: "(area + off) mod 8 = 0"
    using download_area_mod8 [OF layout o] off(2) by (intro word_unat_eqI) (simp add: area)
  have mn: "main (area + off + of_nat j)" if "j < m" for j
    using ar(3) [of "unat off + j"] that bs m(2) o by (simp add: add.assoc)
  have ul: "unat (of_nat (length bs) :: u32) = length bs" using bs by (simp add: unat_of_nat_u32)
  have e: "update_frame target sender num bs = boot_frame CAN_OTA_Recv_Update target sender (half num @ bs)"
    by (simp add: update_frame_def boot_frame_def)
  obtain x y s where fr: "boot_frame CAN_OTA_Recv_Update target sender (half num @ bs) =
      [0xFE, x, y, CAN_OTA_Recv_Update] @ half target @ half sender @ (half num @ bs) @ [s, 0xBE]"
    by (rule boot_frame_bytes)
  have d8: "drop 8 b = half num @ bs @ [s, 0xBE] @ r" unfolding b e fr by (simp add: half_def)
  have d10: "drop 10 b = bs @ [s, 0xBE] @ r" unfolding b e fr by (simp add: half_def)
  have "\<exists>f'. Flash_Write_iap hw ?f (area + off) (drop 10 b) (of_nat (length bs)) = Some (of_nat (length bs), f') \<and>
      hw_byte hw f' = put_bytes (hw_byte hw ?f) (area + off) (take (unat (of_nat (length bs) :: u32)) (drop 10 b))"
    by (rule Flash_Write_iap_stores [OF addr8 _ _ _ m(3) _ mn blank]) (use bs m in \<open>simp_all add: ul d10\<close>)
  then obtain f' where f': "Flash_Write_iap hw ?f (area + off) (drop 10 b) (of_nat (length bs)) = Some (of_nat (length bs), f')"
      "hw_byte hw f' = put_bytes (hw_byte hw ?f) (area + off) bs"
    unfolding ul d10 by auto
  have num: "ArrayU8ToU16 (drop 8 b) = Some num" unfolding d8 by (rule ArrayU8ToU16_half)
  define a1 where "a1 = boot_set_flash f' ((boot_noted target sender a)\<lparr>boot_OTA_UpdateFlag := 2, boot_OTA_Frame_Num := num\<rparr>)"
  have un: "unat (of_nat (length bs + 12) :: u32) = length bs + 12" unfolding unat_of_nat_u32 using bs by simp
  then have dl: "of_nat (length bs + 12) > (10 :: u32)" "of_nat (length bs + 12) - 12 = (of_nat (length bs) :: u32)"
    by (simp_all add: word_less_nat_alt)
  have "boot_command hw area stk b 0 (of_nat (length bs + 12)) CAN_OTA_Recv_Update (boot_noted target sender a) =
      boot_answer (CAN_OTA_Update_ACK_Construct_iap a1 stk 100 0) a1"
    using dl f'(1) off(3) num
    by (simp add: boot_command_def boot_ota_update_def Let_def a1_def off(1) CAN_OTA_Recv_Update_def CAN_OTA_Recv_Start_def boot_set_flash_def)
  also have "\<dots> = Some (boot_emit (Can_send 0x500 (mk_frame (CAN_OTA_Send_Update # boot_ids a1 @ half (boot_OTA_Frame_Num a1) @ [0]))) a1)"
    unfolding CAN_OTA_Update_ACK_Construct_iap_def using stk by (intro boot_answer_sent) (simp_all add: boot_ids_def)
  finally have run: "boot_command hw (flash_page_from_end hw ?f FLASH_APP_COPY_ADDR) stk b 0 (of_nat (length (half num @ bs) + 10))
      CAN_OTA_Recv_Update (boot_noted target sender a) =
      Some (boot_emit (Can_send 0x500 (mk_frame (CAN_OTA_Send_Update # boot_ids a1 @ half (boot_OTA_Frame_Num a1) @ [0]))) a1)"
    by (simp add: area download_area_def add.commute)
  have z: "mk_frame (CAN_OTA_Send_Update # boot_ids a1 @ half (boot_OTA_Frame_Num a1) @ [0]) ! 10 = 0"
    by (simp add: mk_frame_def le_enc_2 boot_ids_def half_def)
  have l: "length (half num @ bs) \<le> 1450" using bs by simp
  have n12: "length (half num @ bs) + 10 = length bs + 12" by simp
  from boot_frame_handled [OF b [unfolded e] l target run, unfolded n12] show ?thesis
    using f'(2) target z by (auto simp: boot_emit_def a1_def boot_set_flash_def)
qed

text \<open>The end request sets the update flag.\<close>

lemma boot_end_step:
  assumes layout: "flash_layout hw main (boot_flash (iap_vars a))" and target: "ID (boot_param (iap_vars a)) = target"
    and stk: "100 \<le> length stk" and b: "b = boot_frame CAN_OTA_Recv_End target sender [] @ r"
  shows "\<exists>a' ack. can500_protocol_anylise_iap hw stk a b 10 = Some (\<lparr>info_state = anylise_accept, del_len = 10\<rparr>, a') \<and>
    boot_flash (iap_vars a') = boot_flash (UpdateAppMode_iap hw (iap_vars (boot_noted target sender a))) \<and>
    boot_trace a' = boot_trace a @ [Thread_delay 10, Can_send 0x500 ack, Thread_delay 100, System_reset]"
proof -
  define a1 where "a1 = (boot_emit (Thread_delay 10) (boot_noted target sender a))\<lparr>boot_OTA_UpdateFlag := 3\<rparr>"
  define ack where "ack = mk_frame (CAN_OTA_Send_End # boot_ids a1)"
  have ans: "boot_answer (CAN_OTA_End_ACK_Construct_iap a1 stk 100) a1 = Some (boot_emit (Can_send 0x500 ack) a1)"
    unfolding CAN_OTA_End_ACK_Construct_iap_def ack_def using stk by (intro boot_answer_sent) (simp_all add: boot_ids_def)
  define a2 where "a2 = boot_emit System_reset (boot_emit (Thread_delay 100)
    ((boot_emit (Can_send 0x500 ack) a1)\<lparr>iap_vars := UpdateAppMode_iap hw (iap_vars (boot_emit (Can_send 0x500 ack) a1))\<rparr>))"
  have "boot_command hw ad stk b 0 n CAN_OTA_Recv_End (boot_noted target sender a) = Some a2" for ad n
    using ans by (simp add: boot_command_def boot_ota_end_def Let_def CAN_OTA_Recv_End_def CAN_OTA_Recv_Start_def
        CAN_OTA_Recv_Update_def a1_def [symmetric] a2_def)
  then have "can500_protocol_anylise_iap hw stk a b (of_nat (length ([] :: u8 list) + 10)) =
      Some (\<lparr>info_state = anylise_accept, del_len = of_nat (length ([] :: u8 list) + 10)\<rparr>, a2)"
    by (intro boot_frame_handled [OF b _ target]) simp_all
  then show ?thesis by (auto simp: a2_def a1_def boot_emit_def)
qed

end

section \<open>The channel keeps the contract\<close>

lemma boot_download_run_blocks:
  "boot_download hw stk target sender left k blocks a = run_blocks
    (\<lambda>k bs a. map_option snd (can500_protocol_anylise_iap hw stk a
      (update_frame target sender (of_nat k) bs @ left k) (of_nat (length bs + 12)))) k blocks a"
  by (induction blocks arbitrary: k a) (simp_all add: bind_snd cong: bind_option_cong)

sublocale hal_flash \<subseteq> can_service: boot_update_service hw ready main
  "\<lambda>a. boot_flash (iap_vars a)" boot_OTA_SubSize
  "\<lambda>a. ID (boot_param (iap_vars a)) = target \<and> 100 \<le> length stk" "\<lambda>a. length (boot_trace a)"
  "\<lambda>hdr a. map_option snd (can500_protocol_anylise_iap hw stk a
     (boot_frame CAN_OTA_Recv_Start target sender (half ver @ hdr) @ r1) 36)"
  "\<lambda>k bs a. map_option snd (can500_protocol_anylise_iap hw stk a
     (update_frame target sender (of_nat k) bs @ left k) (of_nat (length bs + 12)))"
  "\<lambda>a. map_option snd (can500_protocol_anylise_iap hw stk a (boot_frame CAN_OTA_Recv_End target sender [] @ r2) 10)"
  1448 1 4
  for stk target sender ver left r1 r2
proof (unfold_locales, goal_cases)
  case (2 a hdr h P)
  then show ?case
    using boot_start_step [of a target hdr h P stk _ sender ver r1, OF _ _ _ _ _ _ _ _ refl] by fastforce
next
  case (3 a area off k bs m)
  then show ?case
    using boot_update_step [of a target area off "of_nat k" bs m stk _ sender "left k", OF _ _ _ _ _ _ _ _ _ _ _ _ refl] by fastforce
next
  case (4 a)
  then obtain a' ack where "can500_protocol_anylise_iap hw stk a (boot_frame CAN_OTA_Recv_End target sender [] @ r2) 10 =
        Some (\<lparr>info_state = anylise_accept, del_len = 10\<rparr>, a')"
      "boot_flash (iap_vars a') = boot_flash (UpdateAppMode_iap hw (iap_vars (boot_noted target sender a)))"
      "boot_trace a' = boot_trace a @ [Thread_delay 10, Can_send 0x500 ack, Thread_delay 100, System_reset]"
    using boot_end_step [of a target stk _ sender r2, OF _ _ _ refl] by blast
  then show ?case by (auto intro: exI [of _ "iap_vars (boot_noted target sender a)"])
qed simp

text \<open>What the contract gives for this channel.\<close>

context hal_flash
begin

lemma boot_session_installs:
  assumes layout: "flash_layout hw main (boot_flash (iap_vars a))"
    and target: "ID (boot_param (iap_vars a)) = target" and stk: "100 \<le> length stk"
    and hdr: "length hdr = 24" "h = boot_header_of hdr" "CompressFlag h \<noteq> 1"
    and n: "unat (UpdatesTotalSize h) = length img" "0 < length img" "length img \<le> 106496" "UpdatesCRC32 h = crc32_ref img"
    and s: "unat (UpdatesSubSize h) = s" "8 dvd s" "s \<le> 1448"
    and blocks: "blocks_ok s blocks" "[] \<notin> set blocks" "length blocks \<le> 65536" "img = concat blocks"
    and P: "P = (length img + 2047) div 2048"
    and area: "area = download_area hw (boot_flash (iap_vars a))" "unat FLASH_APP_RUN_ADDR + 2048 * P \<le> unat area"
  shows "\<exists>a'. boot_session hw stk target sender ver hdr left r1 r2 blocks a = Some a' \<and>
    length (boot_trace a') = length (boot_trace a) + length blocks + 5 \<and>
    (\<forall>w. boot_flash w = boot_flash (iap_vars a') \<and> length (check_buf w) = 2048 \<longrightarrow>
      (\<exists>w'. boot_main hw unz w = Some (Boot_reset, w') \<and> ReadIAPMode hw (boot_flash w') = OTA_RUN_APP \<and>
        flash_bytes hw (boot_flash w') FLASH_APP_RUN_ADDR (length img) = img \<and>
        (\<forall>x. unat x < unat FLASH_APP_RUN_ADDR \<or> unat FLASH_APP_RUN_ADDR + 2048 * P \<le> unat x \<and> unat x < unat area \<longrightarrow>
          hw_byte hw (boot_flash w') x = hw_byte hw (boot_flash (iap_vars a)) x)))"
proof -
  have session: "boot_session hw stk target sender ver hdr left r1 r2 blocks a = update_session
      (\<lambda>hdr a. map_option snd (can500_protocol_anylise_iap hw stk a
        (boot_frame CAN_OTA_Recv_Start target sender (half ver @ hdr) @ r1) 36))
      (\<lambda>k bs a. map_option snd (can500_protocol_anylise_iap hw stk a
        (update_frame target sender (of_nat k) bs @ left k) (of_nat (length bs + 12))))
      (\<lambda>a. map_option snd (can500_protocol_anylise_iap hw stk a (boot_frame CAN_OTA_Recv_End target sender [] @ r2) 10))
      hdr blocks a"
    by (simp add: boot_session_def update_session_def boot_download_run_blocks bind_snd)
  show ?thesis
    using can_service.session_installs [of a target stk hdr h img s blocks P area sender ver r1 left r2 unz]
      assms unfolding session by (simp add: ac_simps)
qed

end

section \<open>An update through the bootloader\<close>

text \<open>C1: an image downloaded through the bootloader is installed. On a flash that behaves as the manual
  says, when a host sends the start request with the image information, the image in blocks of the
  announced size (a multiple of eight, all but the last one full) and the end request, the handler accepts
  and answers every request, sets the update flag and asks for a reset. Main, after the reset, finds
  the checksum right, copies the image and resets again: the run area holds the image, the flag reads
  "run", and neither the bootloader nor the gap behind the run area has changed.\<close>

theorem boot_download_installs:
  assumes hal: "hal_flash hw ready main" and layout: "flash_layout hw main (boot_flash (iap_vars a))"
    and target: "ID (boot_param (iap_vars a)) = target" and stk: "100 \<le> length stk"
    and hdr: "length hdr = 24" "h = boot_header_of hdr" "CompressFlag h \<noteq> 1"
    and n: "unat (UpdatesTotalSize h) = length img" "0 < length img" "length img \<le> 106496" "UpdatesCRC32 h = crc32_ref img"
    and s: "unat (UpdatesSubSize h) = s" "8 dvd s" "s \<le> 1448"
    and blocks: "blocks_ok s blocks" "[] \<notin> set blocks" "length blocks \<le> 65536" "img = concat blocks"
    and P: "P = (length img + 2047) div 2048"
    and area: "area = download_area hw (boot_flash (iap_vars a))" "unat FLASH_APP_RUN_ADDR + 2048 * P \<le> unat area"
  shows "\<exists>a'. boot_session hw stk target sender ver hdr left r1 r2 blocks a = Some a' \<and>
    length (boot_trace a') = length (boot_trace a) + length blocks + 5 \<and>
    (\<forall>w. boot_flash w = boot_flash (iap_vars a') \<and> length (check_buf w) = 2048 \<longrightarrow>
      (\<exists>w'. boot_main hw unz w = Some (Boot_reset, w') \<and> ReadIAPMode hw (boot_flash w') = OTA_RUN_APP \<and>
        flash_bytes hw (boot_flash w') FLASH_APP_RUN_ADDR (length img) = img \<and>
        (\<forall>x. unat x < unat FLASH_APP_RUN_ADDR \<or> unat FLASH_APP_RUN_ADDR + 2048 * P \<le> unat x \<and> unat x < unat area \<longrightarrow>
          hw_byte hw (boot_flash w') x = hw_byte hw (boot_flash (iap_vars a)) x)))"
  by (rule hal_flash.boot_session_installs [OF hal layout target stk hdr n s blocks P area])

definition sample_boot_app :: "stm32f1 boot_app" where
  "sample_boot_app = \<lparr>iap_vars = boot_sample (boot_sample_header 0), boot_OTA_Version = 0, boot_OTA_TotalSize = 0,
     boot_OTA_SubSize = 0, boot_OTA_CRC32 = 0, boot_OTA_Frame_Num = 0, boot_OTA_UpdateFlag = 0, boot_trace = []\<rparr>"

theorem boot_download_installs_witness:
  "\<exists>a' w'. boot_session stm32_hw (replicate 100 0) (ID (boot_param (iap_vars sample_boot_app))) 7 1 (boot_sample_header 0x26)
      (\<lambda>_. []) [] [] [[0x31, 0x32, 0x33, 0x34, 0x35, 0x36, 0x37, 0x38], [0x39]] sample_boot_app = Some a' \<and>
    boot_main stm32_hw (\<lambda>_ _. ([], 0)) ((iap_vars a')\<lparr>check_buf := replicate 2048 0\<rparr>) = Some (Boot_reset, w') \<and>
    flash_bytes stm32_hw (boot_flash w') FLASH_APP_RUN_ADDR 9 = [0x31, 0x32, 0x33, 0x34, 0x35, 0x36, 0x37, 0x38, 0x39]"
proof -
  let ?a = sample_boot_app and ?img = "[0x31, 0x32, 0x33, 0x34, 0x35, 0x36, 0x37, 0x38, 0x39] :: u8 list"
  note s = boot_sample_bytes [OF refl, of 0]
  have b: "iap_vars ?a = boot_sample (boot_sample_header 0)" by (simp add: sample_boot_app_def)
  have "\<exists>a'. boot_session stm32_hw (replicate 100 0) (ID (boot_param (iap_vars ?a))) 7 1 (boot_sample_header 0x26)
      (\<lambda>_. []) [] [] [[0x31, 0x32, 0x33, 0x34, 0x35, 0x36, 0x37, 0x38], [0x39]] ?a = Some a' \<and>
    length (boot_trace a') = length (boot_trace ?a) + length [[0x31, 0x32, 0x33, 0x34, 0x35, 0x36, 0x37, 0x38], [0x39 :: u8]] + 5 \<and>
    (\<forall>w. boot_flash w = boot_flash (iap_vars a') \<and> length (check_buf w) = 2048 \<longrightarrow>
      (\<exists>w'. boot_main stm32_hw (\<lambda>_ _. ([], 0)) w = Some (Boot_reset, w') \<and> ReadIAPMode stm32_hw (boot_flash w') = OTA_RUN_APP \<and>
        flash_bytes stm32_hw (boot_flash w') FLASH_APP_RUN_ADDR (length ?img) = ?img \<and>
        (\<forall>x. unat x < unat FLASH_APP_RUN_ADDR \<or> unat FLASH_APP_RUN_ADDR + 2048 * 1 \<le> unat x \<and> unat x < unat (0x08023800 :: u32) \<longrightarrow>
          hw_byte stm32_hw (boot_flash w') x = hw_byte stm32_hw (boot_flash (iap_vars ?a)) x)))"
    using s(2)
    by (intro boot_download_installs [OF stm32_hal.hal_flash_axioms, where s = 8 and h = "boot_header_of (boot_sample_header 0x26)"])
       (simp_all add: b s(3) download_area_def boot_sample_fields boot_sample_crc boot_sample_header_def [where x = "0x26", THEN arg_cong [where f = length]],
        simp_all add: FLASH_APP_RUN_ADDR_def)
  then obtain a' where a': "boot_session stm32_hw (replicate 100 0) (ID (boot_param (iap_vars ?a))) 7 1 (boot_sample_header 0x26)
      (\<lambda>_. []) [] [] [[0x31, 0x32, 0x33, 0x34, 0x35, 0x36, 0x37, 0x38], [0x39]] ?a = Some a'"
    "\<forall>w. boot_flash w = boot_flash (iap_vars a') \<and> length (check_buf w) = 2048 \<longrightarrow>
      (\<exists>w'. boot_main stm32_hw (\<lambda>_ _. ([], 0)) w = Some (Boot_reset, w') \<and>
        flash_bytes stm32_hw (boot_flash w') FLASH_APP_RUN_ADDR (length ?img) = ?img)"
    by blast
  have "\<exists>w'. boot_main stm32_hw (\<lambda>_ _. ([], 0)) ((iap_vars a')\<lparr>check_buf := replicate 2048 0\<rparr>) = Some (Boot_reset, w') \<and>
        flash_bytes stm32_hw (boot_flash w') FLASH_APP_RUN_ADDR (length ?img) = ?img"
    by (rule a'(2) [rule_format]) simp
  moreover have "length ?img = 9" by simp
  ultimately show ?thesis using a'(1) by metis
qed

end
