(* ===== verification/Boot_Faults.thy ===== *)
theory Boot_Faults
  imports Boot_Download
begin

text \<open>
  Three behaviours of the update channel that cost the bootloader its protocol: whom it answers, a
  block that is confirmed but not stored, and an incomplete frame that is never given up.
\<close>

section \<open>The answer goes to the wrong device\<close>

lemma boot_read_answered:
  assumes "ID (boot_param (iap_vars a)) = target" and "100 \<le> length stk"
    and "b = boot_frame FUC_PARAMSET_READ target sender [] @ r"
  shows "can500_protocol_anylise_iap hw stk a b 10 = Some (\<lparr>info_state = anylise_accept, del_len = 10\<rparr>,
    boot_emit (Can_send 0x500 (mk_frame (FUC_PARAMSET_READ # boot_ids (boot_noted target sender a) @ replicate 8 0)))
      (boot_noted target sender a))"
proof -
  let ?a = "boot_noted target sender a"
  have ans: "boot_answer (CAN_Paramset_Read_Construct_iap ?a stk 100) ?a =
      Some (boot_emit (Can_send 0x500 (mk_frame (FUC_PARAMSET_READ # boot_ids ?a @ replicate 8 0))) ?a)"
    unfolding CAN_Paramset_Read_Construct_iap_def using assms(2) by (intro boot_answer_sent) (simp_all add: boot_ids_def)
  have "boot_command hw ad stk b 0 n FUC_PARAMSET_READ ?a =
      Some (boot_emit (Can_send 0x500 (mk_frame (FUC_PARAMSET_READ # boot_ids ?a @ replicate 8 0))) ?a)" for ad n
    using ans by (simp add: boot_command_def CAN_OTA_Recv_Start_def CAN_OTA_Recv_Update_def CAN_OTA_Recv_End_def FUC_PARAMSET_READ_def)
  then have "can500_protocol_anylise_iap hw stk a b (of_nat (length ([] :: u8 list) + 10)) =
      Some (\<lparr>info_state = anylise_accept, del_len = of_nat (length ([] :: u8 list) + 10)\<rparr>,
        boot_emit (Can_send 0x500 (mk_frame (FUC_PARAMSET_READ # boot_ids ?a @ replicate 8 0))) ?a)"
    by (intro boot_frame_handled [OF assms(3) _ assms(1)]) simp_all
  then show ?thesis by simp
qed

text \<open>C14: the bootloader does not answer the device that asked. The receiver in its answer, the two bytes
  from the fourth on, has the low byte of the sender's identifier in its low byte and the low byte of
  the bootloader's own in its high byte; the two bytes behind them are the bootloader's identifier. An application with the
  sender's identifier takes the answer for a frame of another device: it accepts the bytes, notes
  the bootloader as the last sender and neither acts nor answers, unless the high byte of its
  identifier happens to be the low byte of the bootloader's.\<close>

theorem boot_answers_wrong_device:
  assumes target: "ID (boot_param (iap_vars a)) = target" and stk: "100 \<le> length stk"
    and peer: "ID (iap_param (can_vars p)) = sender" "sender \<noteq> 0xFFFF" "ucast (drop_bit 8 sender) \<noteq> (ucast target :: u8)"
  shows "\<exists>a' ack. can500_protocol_anylise_iap hw stk a (boot_frame FUC_PARAMSET_READ target sender [] @ r1) 10 =
      Some (\<lparr>info_state = anylise_accept, del_len = 10\<rparr>, a') \<and>
    boot_trace a' = boot_trace a @ [Can_send 0x500 ack] \<and>
    take 4 (drop 4 ack) = [ucast sender, ucast target] @ half target \<and>
    can500_protocol_anylise hw' stk' pad p (ack @ r2) 18 = Some (\<lparr>info_state = anylise_accept, del_len = 18\<rparr>,
      p\<lparr>can_vars := (can_vars p)\<lparr>iap_param := (iap_param (can_vars p))\<lparr>remoteID := target\<rparr>\<rparr>\<rparr>)"
proof -
  define rem :: u16 where "rem = push_bit 8 target OR ucast (ucast sender :: u8)"
  define ack where "ack = mk_frame (FUC_PARAMSET_READ # half rem @ half target @ replicate 8 0)"
  have ids: "boot_ids (boot_noted target sender a) = half rem @ half target"
    using target by (simp add: boot_ids_def boot_noted_def rem_def)
  have bytes: "half rem = [ucast sender, ucast target]"
    unfolding half_def rem_def by (simp, intro conjI; rule bit_word_eqI) (auto simp: bit_simps dest: bit_imp_le_length)
  have "rem \<noteq> sender"
  proof
    assume "rem = sender"
    then have "drop_bit 8 rem = drop_bit 8 sender" by simp
    moreover have "(ucast (drop_bit 8 rem) :: u8) = ucast target"
      unfolding rem_def by (rule bit_word_eqI) (auto simp: bit_simps dest: bit_imp_le_length)
    ultimately show False using peer(3) by simp
  qed
  obtain x y s where f: "ack = [0xFE, x, y, FUC_PARAMSET_READ] @ half rem @ half target @ replicate 8 0 @ [s, 0xBE]"
    unfolding ack_def by (auto simp: mk_frame_def le_enc_2)
  have scan: "can500_scan (ack @ r2) 18 = Some (Scan_frame 0 18)"
    unfolding ack_def by (rule mk_frame_scanned) simp_all
  have flds: "rd16 (ack @ r2) 4 = Some rem" "rd16 (ack @ r2) 6 = Some target"
    unfolding f by (rule rd16_half, simp add: half_def)+
  have "can500_protocol_anylise hw' stk' pad p (ack @ r2) 18 = Some (\<lparr>info_state = anylise_accept, del_len = 18\<rparr>,
      p\<lparr>can_vars := (can_vars p)\<lparr>iap_param := (iap_param (can_vars p))\<lparr>remoteID := target\<rparr>\<rparr>\<rparr>)"
    using scan flds \<open>rem \<noteq> sender\<close> peer(1,2)
    by (simp add: can500_protocol_anylise_def Let_def CAN_COMM_PROTOCOL_MIN_LEN_def)
  moreover have "take 4 (drop 4 ack) = [ucast sender, ucast target] @ half target"
    unfolding bytes [symmetric] by (simp add: f half_def)
  ultimately show ?thesis
    using boot_read_answered [OF target stk refl, of hw sender r1] by (auto simp: boot_emit_def ids ack_def)
qed

theorem boot_answers_wrong_device_witness:
  "\<exists>a' ack. can500_protocol_anylise_iap stm32_hw (replicate 100 0) sample_boot_app (boot_frame FUC_PARAMSET_READ 0xFFFF 0x0201 []) 10 =
      Some (\<lparr>info_state = anylise_accept, del_len = 10\<rparr>, a') \<and>
    boot_trace a' = [Can_send 0x500 ack] \<and> take 4 (drop 4 ack) = [0x01, 0xFF, 0xFF, 0xFF] \<and>
    (\<exists>p'. can500_protocol_anylise stm32_hw (replicate 100 0) [] sample_app ack 18 =
      Some (\<lparr>info_state = anylise_accept, del_len = 18\<rparr>, p') \<and> can_trace p' = [])"
proof -
  have "ID (boot_param (iap_vars sample_boot_app)) = 0xFFFF"
    by (simp add: sample_boot_app_def boot_sample_def iap_defaults_def)
  moreover have "boot_trace sample_boot_app = []" "can_trace sample_app = []" "ID (iap_param (can_vars sample_app)) = 0x0201"
    by (simp_all add: sample_boot_app_def sample_app_def sample_vars_def)
  ultimately show ?thesis
    using boot_answers_wrong_device [of sample_boot_app "0xFFFF" "replicate 100 0" sample_app "0x0201" stm32_hw "[]" stm32_hw "replicate 100 0" "[]" "[]"]
    by (auto simp: half_def)
qed

section \<open>A block between double words\<close>

text \<open>C15: the bootloader confirms blocks it has not stored. A block whose place is not a multiple of
  eight, which a host that keeps to the documented multiple of four may send, is refused by the flash
  interface; the handler ignores that, leaves the flash as it was and answers with state 0.\<close>

theorem boot_confirms_unstored_block:
  assumes layout: "flash_layout hw main (boot_flash (iap_vars a))" and target: "ID (boot_param (iap_vars a)) = target"
    and off: "off = ucast num * boot_OTA_SubSize a" "\<not> 8 dvd unat off" "off < OTA_BIN_MAX_SIZE"
    and bs: "length bs \<le> 1448" and stk: "100 \<le> length stk"
  shows "\<exists>a' ack. can500_protocol_anylise_iap hw stk a (update_frame target sender num bs @ r) (of_nat (length bs + 12)) =
      Some (\<lparr>info_state = anylise_accept, del_len = of_nat (length bs + 12)\<rparr>, a') \<and>
    boot_flash (iap_vars a') = boot_flash (iap_vars a) \<and>
    boot_trace a' = boot_trace a @ [Can_send 0x500 ack] \<and> ack ! 10 = 0"
proof -
  let ?f = "boot_flash (iap_vars a)" and ?area = "flash_page_from_end hw (boot_flash (iap_vars a)) FLASH_APP_COPY_ADDR"
  define b where "b = update_frame target sender num bs @ r"
  have o: "unat off < 106496" using off(3) by (simp add: word_less_nat_alt OTA_BIN_MAX_SIZE_def FLASH_PAGE_SIZE_def)
  have "unat ((?area + off) mod 8) \<noteq> 0"
    using download_area_mod8 [OF layout o] off(2) by (simp add: download_area_def dvd_eq_mod_eq_0)
  then have "(?area + off) mod 8 \<noteq> 0" by (metis unat_0)
  then have wr: "Flash_Write_iap hw ?f (?area + off) d n = Some (0, ?f)" for d n
    by (simp add: Flash_Write_iap_def Let_def)
  have e: "update_frame target sender num bs = boot_frame CAN_OTA_Recv_Update target sender (half num @ bs)"
    by (simp add: update_frame_def boot_frame_def)
  obtain x y s where fr: "boot_frame CAN_OTA_Recv_Update target sender (half num @ bs) =
      [0xFE, x, y, CAN_OTA_Recv_Update] @ half target @ half sender @ (half num @ bs) @ [s, 0xBE]"
    by (rule boot_frame_bytes)
  have d8: "drop 8 b = half num @ bs @ [s, 0xBE] @ r" unfolding b_def e fr by (simp add: half_def)
  have num: "ArrayU8ToU16 (drop 8 b) = Some num" unfolding d8 by (rule ArrayU8ToU16_half)
  define a1 where "a1 = (boot_noted target sender a)\<lparr>boot_OTA_UpdateFlag := 2, boot_OTA_Frame_Num := num\<rparr>"
  define ack where "ack = mk_frame (CAN_OTA_Send_Update # boot_ids a1 @ half (boot_OTA_Frame_Num a1) @ [0])"
  have un: "unat (of_nat (length bs + 12) :: u32) = length bs + 12" unfolding unat_of_nat_u32 using bs by simp
  then have dl: "of_nat (length bs + 12) > (10 :: u32)" by (simp add: word_less_nat_alt)
  have a1f: "boot_set_flash ?f a1 = a1" by (simp add: boot_set_flash_def a1_def boot_noted_def)
  have "boot_command hw ?area stk b 0 (of_nat (length bs + 12)) CAN_OTA_Recv_Update (boot_noted target sender a) =
      boot_answer (CAN_OTA_Update_ACK_Construct_iap (boot_set_flash ?f a1) stk 100 0) (boot_set_flash ?f a1)"
    using dl off(3) num wr
    by (simp add: boot_command_def boot_ota_update_def Let_def a1_def off(1) CAN_OTA_Recv_Update_def CAN_OTA_Recv_Start_def)
  also have "\<dots> = Some (boot_emit (Can_send 0x500 ack) a1)"
    unfolding CAN_OTA_Update_ACK_Construct_iap_def ack_def a1f using stk by (intro boot_answer_sent) (simp_all add: boot_ids_def)
  finally have run: "boot_command hw ?area stk b 0 (of_nat (length (half num @ bs) + 10)) CAN_OTA_Recv_Update (boot_noted target sender a) =
      Some (boot_emit (Can_send 0x500 ack) a1)"
    by (simp add: add.commute)
  have z: "ack ! 10 = 0" by (simp add: ack_def mk_frame_def le_enc_2 boot_ids_def half_def)
  have l: "length (half num @ bs) \<le> 1450" using bs by simp
  have n12: "length (half num @ bs) + 10 = length bs + 12" by simp
  from boot_frame_handled [OF b_def [unfolded e] l target run, unfolded n12] show ?thesis
    using z by (auto simp: boot_emit_def a1_def b_def)
qed

theorem boot_confirms_unstored_block_witness:
  "\<exists>a' ack. can500_protocol_anylise_iap stm32_hw (replicate 100 0) (sample_boot_app\<lparr>boot_OTA_SubSize := 12\<rparr>)
      (update_frame 0xFFFF 7 1 [1, 2, 3, 4, 5, 6, 7, 8, 9, 10, 11, 12]) 24 =
      Some (\<lparr>info_state = anylise_accept, del_len = 24\<rparr>, a') \<and>
    boot_flash (iap_vars a') = boot_flash (iap_vars sample_boot_app) \<and>
    boot_trace a' = [Can_send 0x500 ack] \<and> ack ! 10 = 0"
proof -
  have i: "ID (boot_param (iap_vars sample_boot_app)) = 0xFFFF"
    by (simp add: sample_boot_app_def boot_sample_def iap_defaults_def)
  have "flash_layout stm32_hw stm32_main (boot_flash (iap_vars sample_boot_app))"
    using boot_sample_bytes(2) [OF refl, of 0] by (simp add: sample_boot_app_def)
  then show ?thesis
    using boot_confirms_unstored_block [of stm32_hw stm32_main "sample_boot_app\<lparr>boot_OTA_SubSize := 12\<rparr>" "0xFFFF" 12 1
        "[1, 2, 3, 4, 5, 6, 7, 8, 9, 10, 11, 12]" "replicate 100 0" 7 "[]"] i
    by (simp add: OTA_BIN_MAX_SIZE_def FLASH_PAGE_SIZE_def) (simp add: sample_boot_app_def)
qed

section \<open>An incomplete frame\<close>

lemma can500_scan_partial:
  assumes "xs = 0xFE # half m @ rest" and "8 \<le> unat m" "unat m \<le> 1460" and "length xs < unat m"
    and "n = of_nat (length xs)"
  shows "can500_scan (xs @ ys) n = Some (Scan_info \<lparr>info_state = anylise_waiting, del_len = 0\<rparr>)"
proof -
  have u: "unat n = length xs" using assms(3,4) by (simp add: assms(5) unat_of_nat_u32)
  have hd: "rd (xs @ ys) 0 = Some 0xFE" "rd (xs @ ys) (Suc 0) = Some (ucast m)" "rd (xs @ ys) 2 = Some (ucast (drop_bit 8 m))"
    by (simp_all add: assms(1) rd_def half_def)
  have w: "push_bit 8 (ucast (ucast (drop_bit 8 m) :: u8)) + ucast (ucast m :: u8) = (ucast m :: u32)"
    using half_word [of m] by (simp add: add.commute)
  have um: "unat (ucast m :: u32) = unat m" using unat_less_u16 [of m] by (simp add: unsigned_ucast_eq take_bit_eq_mod)
  have "\<not> (ucast m > (1460 :: u32) \<or> ucast m < (8 :: u32))" "n < ucast m"
    using assms(2-4) by (simp_all add: word_less_nat_alt um u)
  then show ?thesis
    unfolding can500_scan_def by (subst frame_scan.simps) (simp add: hd w Let_def numeral_2_eq_2 [symmetric])
qed

fun boot_rounds ::
  "'f flash_hw \<Rightarrow> u8 list \<Rightarrow> (u32 \<times> u32) list \<Rightarrow> boot_channel \<Rightarrow> 'f boot_app \<Rightarrow> (boot_channel \<times> 'f boot_app) option" where
  "boot_rounds hw stk [] ch a = Some (ch, a)"
| "boot_rounds hw stk ((t1, t2) # ticks) ch a = do {
     (ch, a) \<leftarrow> CAN_OTA_Periodic_Handle hw stk t1 t2 ch a;
     boot_rounds hw stk ticks ch a
   }"

text \<open>The bootloader never gives up an incomplete frame. While nothing more arrives, the bytes of a
  frame that was cut short stay in the buffer of the channel, however many rounds go by and whatever the
  clock says: what expires after a second is the queue of the driver, which is empty, and not
  the buffer.\<close>

theorem boot_keeps_incomplete_frame:
  assumes ring: "ring_ok (CAN_BUF500 ch)" "ring_list (CAN_BUF500 ch) = xs"
    and can: "CanRx_Read (chan_CAN ch) = CanRx_Write (chan_CAN ch)" and buf: "length (otacanbuf500 ch) = 2048"
    and xs: "xs = 0xFE # half m @ rest" "8 \<le> unat m" "unat m \<le> 1460" "length xs < unat m"
  shows "\<exists>ch' a'. boot_rounds hw stk ticks ch a = Some (ch', a') \<and> CAN_BUF500 ch' = CAN_BUF500 ch \<and>
    iap_vars a' = iap_vars a \<and> boot_trace a' = boot_trace a @ replicate (length ticks) (Thread_delay 10)"
  using ring can buf
proof (induction ticks arbitrary: ch a)
  case Nil
  then show ?case by simp
next
  case (Cons t ticks)
  obtain t1 t2 where t: "t = (t1, t2)" by (cases t)
  define n where "n = length xs"
  have n: "0 < n" "n \<le> 1460" using xs by (simp_all add: n_def)
  have un: "unat (of_nat n :: u32) = n" using n(2) by (simp add: unat_of_nat_u32)
  have n0: "(of_nat n :: u32) \<noteq> 0" using un n(1) by (metis neq0_conv unat_0)
  define b where "b = xs @ drop n (otacanbuf500 ch)"
  have take: "boot_can_take ch a = Some (ch, boot_emit (Thread_delay 10) a)"
    using Cons.prems(3) by (simp add: boot_can_take_def stm32_CAN_recv_def)
  have read: "ReadDataFromBuf (CAN_BUF500 ch) (otacanbuf500 ch) 2048 False = Some (of_nat n, b, CAN_BUF500 ch)"
    using ring.recv_peeks [OF Cons.prems(1), of 2048 "otacanbuf500 ch" n] Cons.prems(2,4) n
    by (simp add: ring_recv_def b_def n_def)
  have "can500_protocol_anylise_iap hw stk (boot_emit (Thread_delay 10) a) b (of_nat n) =
      Some (\<lparr>info_state = anylise_waiting, del_len = 0\<rparr>, boot_emit (Thread_delay 10) a)"
    using can500_scan_partial [OF xs, of "of_nat n" "drop n (otacanbuf500 ch)"]
    by (simp add: can500_protocol_anylise_iap_def b_def n_def)
  then have round: "\<exists>ch1. CAN_OTA_Periodic_Handle hw stk t1 t2 ch a = Some (ch1, boot_emit (Thread_delay 10) a) \<and>
      CAN_BUF500 ch1 = CAN_BUF500 ch \<and> CanRx_Read (chan_CAN ch1) = CanRx_Write (chan_CAN ch1) \<and> length (otacanbuf500 ch1) = 2048"
    using take read n0 Cons.prems(3,4) n un
    by (auto simp: CAN_OTA_Periodic_Handle_def Let_def stm32_CAN_clear_def b_def n_def)
  then obtain ch1 where ch1: "CAN_OTA_Periodic_Handle hw stk t1 t2 ch a = Some (ch1, boot_emit (Thread_delay 10) a)"
      "CAN_BUF500 ch1 = CAN_BUF500 ch" "CanRx_Read (chan_CAN ch1) = CanRx_Write (chan_CAN ch1)" "length (otacanbuf500 ch1) = 2048"
    by blast
  show ?case
    using Cons.IH [of ch1 "boot_emit (Thread_delay 10) a"] Cons.prems(1,2) ch1
    by (auto simp: t boot_emit_def)
qed

theorem boot_keeps_incomplete_frame_witness:
  "\<exists>ch' a'. boot_rounds stm32_hw [] [(5000, 5001), (100000, 100001)]
      \<lparr>chan_CAN = \<lparr>CANRxBuf = [], CanRx_Read = 3, CanRx_Write = 3\<rparr>,
        CAN_BUF500 = \<lparr>Head = 0, Tail = 5, RxBuf = Some ([0xFE, 0xB4, 0x05, 1, 2] @ replicate 1019 0), RxBufSize = 1024\<rparr>,
        otacanbuf500 = replicate 2048 0, CANOTAWaitTicks = 0\<rparr> sample_boot_app = Some (ch', a') \<and>
    Tail (CAN_BUF500 ch') = 5"
proof -
  define ch where "ch = \<lparr>chan_CAN = \<lparr>CANRxBuf = [], CanRx_Read = 3, CanRx_Write = 3\<rparr>,
        CAN_BUF500 = \<lparr>Head = 0, Tail = 5, RxBuf = Some ([0xFE, 0xB4, 0x05, 1, 2] @ replicate 1019 0), RxBufSize = 1024\<rparr>,
        otacanbuf500 = replicate 2048 0, CANOTAWaitTicks = 0\<rparr>"
  have "ring_ok (CAN_BUF500 ch)" by (simp add: ch_def ring_ok_def)
  moreover have "ring_list (CAN_BUF500 ch) = 0xFE # half 0x05B4 @ [1, 2]"
    by (simp add: ch_def ring_list_def ring_count_def half_def upt_rec)
  ultimately have "\<exists>ch' a'. boot_rounds stm32_hw [] [(5000, 5001), (100000, 100001)] ch sample_boot_app = Some (ch', a') \<and>
      CAN_BUF500 ch' = CAN_BUF500 ch \<and> iap_vars a' = iap_vars sample_boot_app \<and>
      boot_trace a' = boot_trace sample_boot_app @ replicate (length [(5000 :: u32, 5001 :: u32), (100000, 100001)]) (Thread_delay 10)"
    by (rule boot_keeps_incomplete_frame [OF _ _ _ _ refl]) (simp_all add: ch_def half_def)
  then show ?thesis unfolding ch_def by auto
qed

end
