(* ===== verification/Boot_Serial.thy ===== *)
theory Boot_Serial
  imports Boot_Protocol Uart_Ota
begin

text \<open>
  The serial line of the bootloader (IAP project: Projects/Src/stm32_uart.c and ota_protocol.c): the
  driver, the handler of the update requests and the function main calls again and again while it
  serves updates. The frame, the receive ring and the registers of the device are those of
  \<open>Uart_Port\<close> and \<open>Uart_Ota\<close>; \<open>ser_app\<close> holds the globals of ota_protocol.c, among them the buffer in
  which an answer is built, and \<open>ser_trace\<close> what the handler asks of the line and the timer, oldest
  first. Diagnostic printing, pins, clocks and the interrupt controller are left out.
\<close>

section \<open>The driver\<close>

record iap_uart =
  iap_rxbuf :: RingBufType
  iap_RxBuf_addr :: "u8 list"
  iap_RxBuf_size :: u32

definition stm32_uart_init_iap :: "iap_uart option \<Rightarrow> iap_uart option" where
  "stm32_uart_init_iap uart_dev = (case uart_dev of
     None \<Rightarrow> None
   | Some dev \<Rightarrow> Some (dev\<lparr>iap_rxbuf := RingBufInit (iap_RxBuf_addr dev) (iap_RxBuf_size dev)\<rparr>))"

text \<open>An error flag is cleared by reading the status and the data register.\<close>

definition stm32_uart_isr_iap :: "'c uart_hw \<Rightarrow> 'c \<Rightarrow> iap_uart \<Rightarrow> ('c \<times> iap_uart) option" where
  "stm32_uart_isr_iap hw c dev = do {
     (c, dev) \<leftarrow> (if hw_rxne hw c
       then do {
         let (data, c) = hw_read_dr hw c;
         (_, ring) \<leftarrow> AddByteToBuf (iap_rxbuf dev) data;
         Some (c, dev\<lparr>iap_rxbuf := ring\<rparr>)
       }
       else Some (c, dev));
     let c = (if hw_ore hw c then snd (hw_read_dr hw c) else c);
     let c = (if hw_ne hw c then snd (hw_read_dr hw c) else c);
     Some (if hw_fe hw c then snd (hw_read_dr hw c) else c, dev)
   }"

text \<open>The wait for the end of the transmission, with the number of polls left.\<close>

fun UART_wait_iap :: "'c uart_hw \<Rightarrow> 'c \<Rightarrow> nat \<Rightarrow> bool \<times> 'c" where
  "UART_wait_iap hw c 0 = (False, hw_poll hw c)"
| "UART_wait_iap hw c (Suc n) =
     (if hw_tc hw c then (True, hw_poll hw c) else UART_wait_iap hw (hw_poll hw c) n)"

definition UARTSendByte_iap :: "'c uart_hw \<Rightarrow> 'c \<Rightarrow> u8 \<Rightarrow> bool \<times> 'c" where
  "UARTSendByte_iap hw c data = UART_wait_iap hw (hw_write_dr hw data c) 0x9FFFFF"

fun uart_send_loop_iap :: "'c uart_hw \<Rightarrow> 'c \<Rightarrow> u8 list \<Rightarrow> nat \<Rightarrow> nat \<Rightarrow> 'c option" where
  "uart_send_loop_iap hw c tx j 0 = Some c"
| "uart_send_loop_iap hw c tx j (Suc n) = do {
     x \<leftarrow> rd tx j;
     uart_send_loop_iap hw (snd (UARTSendByte_iap hw c x)) tx (Suc j) n
   }"

text \<open>The device is dereferenced before it is compared with NULL.\<close>

definition stm32_uart_send_iap :: "'c uart_hw \<Rightarrow> 'c \<Rightarrow> iap_uart option \<Rightarrow> u8 list \<Rightarrow> u32 \<Rightarrow> (u32 \<times> 'c) option" where
  "stm32_uart_send_iap hw c uart_dev tx len = do {
     _ \<leftarrow> uart_dev;
     c \<leftarrow> uart_send_loop_iap hw c tx 0 (unat len);
     Some (len, c)
   }"

definition stm32_uart_recv_iap ::
  "iap_uart option \<Rightarrow> u8 list \<Rightarrow> u32 \<Rightarrow> bool \<Rightarrow> (u32 \<times> u8 list \<times> iap_uart option) option" where
  "stm32_uart_recv_iap uart_dev rx len clear = (case uart_dev of
     None \<Rightarrow> Some (0, rx, None)
   | Some dev \<Rightarrow> do {
       (n, rx, ring) \<leftarrow> ReadDataFromBuf (iap_rxbuf dev) rx len clear;
       Some (n, rx, Some (dev\<lparr>iap_rxbuf := ring\<rparr>))
     })"

definition stm32_uart_len_get_iap :: "iap_uart option \<Rightarrow> u32 option" where
  "stm32_uart_len_get_iap uart_dev = (case uart_dev of None \<Rightarrow> Some 0 | Some dev \<Rightarrow> GetLenFromBuf (iap_rxbuf dev))"

definition stm32_uart_del_iap :: "iap_uart option \<Rightarrow> u32 \<Rightarrow> (u32 \<times> iap_uart option) option" where
  "stm32_uart_del_iap uart_dev len = (case uart_dev of
     None \<Rightarrow> Some (0, None)
   | Some dev \<Rightarrow> do {
       (n, ring) \<leftarrow> DelDataFromBuf (iap_rxbuf dev) len;
       Some (n, Some (dev\<lparr>iap_rxbuf := ring\<rparr>))
     })"

definition stm32_uart_clear_iap :: "iap_uart option \<Rightarrow> (bool \<times> iap_uart option) option" where
  "stm32_uart_clear_iap uart_dev = Some (case uart_dev of
     None \<Rightarrow> (False, None)
   | Some dev \<Rightarrow> (True, Some (dev\<lparr>iap_rxbuf := (iap_rxbuf dev)\<lparr>Tail := Head (iap_rxbuf dev)\<rparr>\<rparr>)))"

section \<open>Answers\<close>

record 'f ser_app =
  ser_vars :: "'f boot_vars"
  ser_Version :: u16
  ser_TotalSize :: u64
  ser_SubSize :: u32
  ser_CRC32 :: u64
  ser_Frame_Num :: u16
  ser_UpdateFlag :: u8
  OTASendBuf :: "u8 list"
  ser_trace :: "uart_ota_event list"

definition iap_param_read_iap :: "'f ser_app \<Rightarrow> u8 list \<Rightarrow> u32 \<Rightarrow> (u32 \<times> u8 list) option" where
  "iap_param_read_iap a buf len = (let p = boot_param (ser_vars a) in
     put_frame 29 (FUC_PARAM_IAP_READ # half (ID p) @ [0, 0, 0] @
       concat (map (\<lambda>k. half (ChipUniqueID p ! k)) [0, 1, 2, 3, 4, 5]) @
       [0, 0, ucast (IAP_flag p), 0, 0, ucast (swversion p)]) buf len)"

definition OTA_Start_ACK_Construct_iap :: "'f ser_app \<Rightarrow> u8 list \<Rightarrow> u32 \<Rightarrow> (u32 \<times> u8 list) option" where
  "OTA_Start_ACK_Construct_iap a buf len = put_frame 8 (OTA_Start # half (ID (boot_param (ser_vars a)))) buf len"

definition OTA_Update_ACK_Construct_iap :: "'f ser_app \<Rightarrow> u8 list \<Rightarrow> u32 \<Rightarrow> u8 \<Rightarrow> (u32 \<times> u8 list) option" where
  "OTA_Update_ACK_Construct_iap a buf len state_code =
     put_frame 11 (OTA_Update # half (ID (boot_param (ser_vars a))) @ half (ser_Frame_Num a) @ [state_code]) buf len"

definition OTA_End_ACK_Construct_iap :: "'f ser_app \<Rightarrow> u8 list \<Rightarrow> u32 \<Rightarrow> (u32 \<times> u8 list) option" where
  "OTA_End_ACK_Construct_iap a buf len = put_frame 8 (OTA_End # half (ID (boot_param (ser_vars a)))) buf len"

definition ser_emit :: "uart_ota_event \<Rightarrow> 'f ser_app \<Rightarrow> 'f ser_app" where
  "ser_emit e a = a\<lparr>ser_trace := ser_trace a @ [e]\<rparr>"

text \<open>\<open>send_len = ...Construct(OTASendBuf, sizeof(OTASendBuf)); if (send_len) stm32_uart_send(...)\<close>, then
  what follows inside the same condition.\<close>

definition ser_answer ::
  "(u8 list \<Rightarrow> u32 \<Rightarrow> (u32 \<times> u8 list) option) \<Rightarrow> uart_ota_event list \<Rightarrow> 'f ser_app \<Rightarrow> 'f ser_app option" where
  "ser_answer construct after a = do {
     (send_len, send_buf) \<leftarrow> construct (OTASendBuf a) 1024;
     let a = a\<lparr>OTASendBuf := send_buf\<rparr>;
     if send_len \<noteq> 0 then do {
       bs \<leftarrow> rds (OTASendBuf a) 0 (unat send_len);
       Some (a\<lparr>ser_trace := ser_trace a @ Ttl_send bs # after\<rparr>)
     }
     else Some a
   }"

definition iap_param_send_lora :: "'f ser_app \<Rightarrow> 'f ser_app option" where
  "iap_param_send_lora a = ser_answer (iap_param_read_iap a) [] a"

section \<open>The handler\<close>

definition iap_param_analysis_iap :: "u8 list \<Rightarrow> 'f ser_app \<Rightarrow> 'f ser_app option" where
  "iap_param_analysis_iap buf a = do {
     newID \<leftarrow> rd16 buf 4;
     _ \<leftarrow> rd16 buf 7;
     let v = ser_vars a;
     Some (a\<lparr>ser_vars := v\<lparr>boot_param := (boot_param v)\<lparr>ID := newID\<rparr>\<rparr>\<rparr>)
   }"

definition ser_set_flash :: "'f \<Rightarrow> 'f ser_app \<Rightarrow> 'f ser_app" where
  "ser_set_flash f a = a\<lparr>ser_vars := (ser_vars a)\<lparr>boot_flash := f\<rparr>\<rparr>"

text \<open>The version has its high byte first.\<close>

definition ser_ota_start :: "'f flash_hw \<Rightarrow> u32 \<Rightarrow> u8 list \<Rightarrow> nat \<Rightarrow> 'f ser_app \<Rightarrow> 'f ser_app option" where
  "ser_ota_start hw addr_appcopy buf i a = do {
     let a = ser_emit (Ttl_delay 20) a;
     let a = a\<lparr>ser_UpdateFlag := 1\<rparr>;
     h \<leftarrow> rd buf (i + 6);
     l \<leftarrow> rd buf (i + 7);
     let a = a\<lparr>ser_Version := push_bit 8 (ucast h) OR ucast l\<rparr>;
     total \<leftarrow> ArrayU8ToU32 (drop (i + 10) buf);
     sub16 \<leftarrow> ArrayU8ToU16 (drop (i + 14) buf);
     crc \<leftarrow> ArrayU8ToU32 (drop (i + 16) buf);
     let a = a\<lparr>ser_TotalSize := ucast total, ser_SubSize := ucast sub16, ser_CRC32 := ucast crc\<rparr>;
     param \<leftarrow> rds buf (i + 8) 24;
     (_, f) \<leftarrow> Flash_Storage_Header_iap hw (boot_flash (ser_vars a)) param;
     let (_, f) = Flash_Erase_Page_iap hw f addr_appcopy (ucast (ser_TotalSize a));
     let a = ser_set_flash f a;
     ser_answer (OTA_Start_ACK_Construct_iap a) [] a
   }"

definition ser_ota_update :: "'f flash_hw \<Rightarrow> u32 \<Rightarrow> u8 list \<Rightarrow> nat \<Rightarrow> u32 \<Rightarrow> 'f ser_app \<Rightarrow> 'f ser_app option" where
  "ser_ota_update hw addr_appcopy buf i data_len a = do {
     let a = a\<lparr>ser_UpdateFlag := 2\<rparr>;
     num \<leftarrow> ArrayU8ToU16 (drop (i + 6) buf);
     let a = a\<lparr>ser_Frame_Num := num\<rparr>;
     let off = ucast (ser_Frame_Num a) * ser_SubSize a;
     if data_len > 10 \<and> off < OTA_BIN_MAX_SIZE
     then do {
       let updata_len = data_len - 10;
       (_, f) \<leftarrow> Flash_Write_iap hw (boot_flash (ser_vars a)) (addr_appcopy + off) (drop (i + 8) buf) updata_len;
       let a = ser_set_flash f a;
       ser_answer (\<lambda>buf len. OTA_Update_ACK_Construct_iap a buf len 0) [] a
     }
     else ser_answer (\<lambda>buf len. OTA_Update_ACK_Construct_iap a buf len 1) [] a
   }"

definition ser_ota_end :: "'f flash_hw \<Rightarrow> 'f ser_app \<Rightarrow> 'f ser_app option" where
  "ser_ota_end hw a = do {
     let a = a\<lparr>ser_UpdateFlag := 3\<rparr>;
     a \<leftarrow> ser_answer (OTA_End_ACK_Construct_iap a) [Ttl_delay 2000] a;
     let a = a\<lparr>ser_vars := UpdateAppMode_iap hw (ser_vars a)\<rparr>;
     Some (ser_emit Ttl_reset a)
   }"

text \<open>The write request is analysed from the start of the buffer, not from the start of its frame.\<close>

definition ser_command ::
  "'f flash_hw \<Rightarrow> u32 \<Rightarrow> u8 list \<Rightarrow> nat \<Rightarrow> u32 \<Rightarrow> u8 \<Rightarrow> 'f ser_app \<Rightarrow> 'f ser_app option" where
  "ser_command hw addr_appcopy buf i data_len cmd a =
     (if cmd = OTA_Start then ser_ota_start hw addr_appcopy buf i a
      else if cmd = OTA_Update then ser_ota_update hw addr_appcopy buf i data_len a
      else if cmd = OTA_End then ser_ota_end hw a
      else if cmd = FUC_PARAM_IAP_READ then ser_answer (iap_param_read_iap a) [] a
      else if cmd = FUC_PARAM_IAP_WRITE then iap_param_analysis_iap buf a
      else if cmd = FUC_PARAMSET_SAVE_uart
      then map_option (\<lambda>v. a\<lparr>ser_vars := v\<rparr>) (iap_param_save_iap hw (ser_vars a))
      else if cmd = FUC_PARAMSET_RESET_uart then Some (ser_emit Ttl_reset (ser_emit (Ttl_delay 10) a))
      else Some a)"

definition OTA_Protocol_Anylise ::
  "'f flash_hw \<Rightarrow> 'f ser_app \<Rightarrow> u8 list \<Rightarrow> u32 \<Rightarrow> (del_info_type \<times> 'f ser_app) option" where
  "OTA_Protocol_Anylise hw a buf len = do {
     let addr_appcopy = flash_page_from_end hw (boot_flash (ser_vars a)) FLASH_APP_COPY_ADDR;
     if len < COMM_PROTOCOL_MIN_LEN then Some (\<lparr>info_state = anylise_waiting, del_len = 0\<rparr>, a)
     else do {
       r \<leftarrow> uart_scan buf len;
       (case r of
          Scan_info info \<Rightarrow> Some (info, a)
        | Scan_frame i data_len \<Rightarrow> do {
            _ \<leftarrow> rd16 buf (i + 4);
            cmd \<leftarrow> rd buf (i + 3);
            a \<leftarrow> ser_command hw addr_appcopy buf i data_len cmd a;
            Some (\<lparr>info_state = anylise_accept, del_len = data_len + of_nat i\<rparr>, a)
          })
     }
   }"

section \<open>The loop body\<close>

record ser_channel =
  UartTTL :: "iap_uart option"
  OTACommBuf :: "u8 list"
  OTAWaitTicks :: u32

text \<open>\<open>t1\<close> and \<open>t2\<close> are the readings of the tick counter, \<open>t2\<close> the one after a clear.\<close>

definition OTA_Periodic_Handle ::
  "'f flash_hw \<Rightarrow> u32 \<Rightarrow> u32 \<Rightarrow> ser_channel \<Rightarrow> 'f ser_app \<Rightarrow> (ser_channel \<times> 'f ser_app) option" where
  "OTA_Periodic_Handle hw t1 t2 ch a = do {
     (len, b, dev) \<leftarrow> stm32_uart_recv_iap (UartTTL ch) (OTACommBuf ch) 2048 False;
     let ch = ch\<lparr>OTACommBuf := b, UartTTL := dev\<rparr>;
     if len = 0 then Some (ch\<lparr>OTAWaitTicks := t1\<rparr>, a)
     else do {
       (info, a) \<leftarrow> OTA_Protocol_Anylise hw a (OTACommBuf ch) len;
       if info_state info \<noteq> anylise_waiting then do {
         (_, dev) \<leftarrow> stm32_uart_del_iap (UartTTL ch) (del_len info);
         Some (ch\<lparr>UartTTL := dev, OTAWaitTicks := t1\<rparr>, a)
       }
       else let tick_diff = t1 - OTAWaitTicks ch in
         if sint (Abs_int tick_diff) > 20000
         then do {
           (_, dev) \<leftarrow> stm32_uart_clear_iap (UartTTL ch);
           Some (ch\<lparr>UartTTL := dev, OTAWaitTicks := t2\<rparr>, a)
         }
         else Some (ch, a)
     }
   }"

text \<open>One round of the endless loop of main: both channels, on the same parameters and flash.\<close>

definition boot_serve_round ::
  "'f flash_hw \<Rightarrow> u8 list \<Rightarrow> u32 \<Rightarrow> u32 \<Rightarrow> u32 \<Rightarrow> u32 \<Rightarrow> ser_channel \<times> boot_channel \<times> 'f ser_app \<times> 'f boot_app \<Rightarrow>
     (ser_channel \<times> boot_channel \<times> 'f ser_app \<times> 'f boot_app) option" where
  "boot_serve_round hw stk t1 t2 t3 t4 = (\<lambda>(sch, cch, sa, ca). do {
     (sch, sa) \<leftarrow> OTA_Periodic_Handle hw t1 t2 sch sa;
     let ca = ca\<lparr>iap_vars := ser_vars sa\<rparr>;
     (cch, ca) \<leftarrow> CAN_OTA_Periodic_Handle hw stk t3 t4 cch ca;
     let sa = sa\<lparr>ser_vars := iap_vars ca\<rparr>;
     Some (sch, cch, sa, ca)
   })"

section \<open>The receive path is a byte queue\<close>

definition serial_peek :: "iap_uart option \<Rightarrow> u8 list \<Rightarrow> u32 \<Rightarrow> (u32 \<times> u8 list \<times> iap_uart option) option" where
  "serial_peek dev rx len = stm32_uart_recv_iap dev rx len False"

definition serial_ok :: "iap_uart option \<Rightarrow> bool" where
  "serial_ok d = (case d of None \<Rightarrow> False | Some dev \<Rightarrow> ring_ok (iap_rxbuf dev))"

definition serial_pending :: "iap_uart option \<Rightarrow> u8 list" where
  "serial_pending d = (case d of None \<Rightarrow> [] | Some dev \<Rightarrow> ring_list (iap_rxbuf dev))"

definition serial_capacity :: "iap_uart option \<Rightarrow> nat" where
  "serial_capacity d = (case d of None \<Rightarrow> 0 | Some dev \<Rightarrow> ring_capacity (iap_rxbuf dev))"

text \<open>What the interrupt does for one byte.\<close>

definition serial_add :: "iap_uart option \<Rightarrow> u8 \<Rightarrow> (bool \<times> iap_uart option) option" where
  "serial_add d x = do {
     dev \<leftarrow> d;
     (ok, ring) \<leftarrow> AddByteToBuf (iap_rxbuf dev) x;
     Some (ok, Some (dev\<lparr>iap_rxbuf := ring\<rparr>)) }"

lemma serial_okE:
  assumes "serial_ok p"
  obtains dev where "p = Some dev" "ring_ok (iap_rxbuf dev)"
  using assms by (auto simp: serial_ok_def split: option.splits)

interpretation serial: byte_queue serial_peek stm32_uart_del_iap stm32_uart_clear_iap serial_pending serial_ok
  serial_add serial_capacity
proof unfold_locales
  fix p and len :: u32 and dst :: "u8 list" and n
  assume l: "unat len \<le> length dst" and n: "n = min (unat len) (length (serial_pending p))" and "serial_ok p"
  then obtain dev where p: "p = Some dev" "ring_ok (iap_rxbuf dev)" by (auto elim: serial_okE)
  show "serial_peek p dst len = Some (of_nat n, take n (serial_pending p) @ drop n dst, p)"
    using ring.recv_peeks [OF p(2) l, of n] n p
    by (simp add: serial_peek_def stm32_uart_recv_iap_def serial_pending_def ring_recv_def)
next
  fix p assume "serial_ok p"
  then show "length (serial_pending p) < 2 ^ 32"
    using ring.pending_bound by (auto simp: serial_pending_def elim!: serial_okE)
next
  fix p and k :: u32 assume "serial_ok p"
  then obtain dev where p: "p = Some dev" "ring_ok (iap_rxbuf dev)" by (rule serial_okE)
  show "\<exists>p'. stm32_uart_del_iap p k = Some (of_nat (min (unat k) (length (serial_pending p))), p') \<and> serial_ok p' \<and>
      serial_pending p' = drop (unat k) (serial_pending p)"
    using ring.del_drops [OF p(2), of k] p(1) by (auto simp: stm32_uart_del_iap_def serial_ok_def serial_pending_def)
next
  fix p assume "serial_ok p"
  then obtain dev where p: "p = Some dev" "ring_ok (iap_rxbuf dev)" by (rule serial_okE)
  obtain ring' where r: "ClearDateFromBuf (iap_rxbuf dev) = Some (True, ring')" "ring_ok ring'" "ring_list ring' = []"
    using ring.clear_empties [OF p(2)] by blast
  have "ring' = (iap_rxbuf dev)\<lparr>Tail := Head (iap_rxbuf dev)\<rparr>" using r(1) by (simp add: ClearDateFromBuf_def)
  then show "\<exists>p'. stm32_uart_clear_iap p = Some (True, p') \<and> serial_ok p' \<and> serial_pending p' = []"
    using r p(1) by (simp add: stm32_uart_clear_iap_def serial_ok_def serial_pending_def)
next
  fix p x assume "serial_ok p"
  then obtain dev where p: "p = Some dev" "ring_ok (iap_rxbuf dev)" by (rule serial_okE)
  show "\<exists>p'. serial_add p x = Some (True, p') \<and> serial_ok p' \<and> serial_capacity p' = serial_capacity p \<and>
      serial_pending p' = lastn (serial_capacity p) (serial_pending p @ [x])"
    using ring.add_keeps_last [OF p(2), of x] p(1)
    by (auto simp: serial_add_def serial_ok_def serial_pending_def serial_capacity_def)
next
  fix p assume "serial_ok p"
  then show "length (serial_pending p) \<le> serial_capacity p"
    using ring.pending_capacity by (auto simp: serial_pending_def serial_capacity_def elim!: serial_okE)
qed

lemma stm32_uart_isr_iap_adds:
  assumes "hw_rxne hw c"
  shows "map_option (Some \<circ> snd) (stm32_uart_isr_iap hw c dev) = map_option snd (serial_add (Some dev) (fst (hw_read_dr hw c)))"
  using assms by (cases "AddByteToBuf (iap_rxbuf dev) (fst (hw_read_dr hw c))")
    (auto simp: stm32_uart_isr_iap_def serial_add_def Let_def split: prod.splits)

text \<open>A null device is dereferenced by the send function, whose test for NULL comes too late.\<close>

lemma stm32_uart_send_iap_null: "stm32_uart_send_iap hw c None tx len = None"
  by (simp add: stm32_uart_send_iap_def)

lemma stm32_uart_init_iap_ok:
  assumes "0 < unat (iap_RxBuf_size dev)" "unat (iap_RxBuf_size dev) \<le> 2 ^ 31"
    and "unat (iap_RxBuf_size dev) \<le> length (iap_RxBuf_addr dev)"
  shows "serial_ok (stm32_uart_init_iap (Some dev))" "serial_pending (stm32_uart_init_iap (Some dev)) = []"
    "serial_capacity (stm32_uart_init_iap (Some dev)) = unat (iap_RxBuf_size dev) - 1"
  using assms by (auto simp: stm32_uart_init_iap_def serial_ok_def serial_pending_def serial_capacity_def
    RingBufInit_def ring_ok_def ring_list_def ring_count_def ring_capacity_def)

end
