(* ===== verification/Boot_Serial_Update.thy ===== *)
theory Boot_Serial_Update
  imports Boot_Serial Boot_Service
begin

text \<open>
  A firmware update over the serial line of the bootloader: every request arrives byte by byte
  through the receive interrupt, one round of \<open>OTA_Periodic_Handle\<close> finds and executes it. The channel
  keeps the contract of \<open>Boot_Service\<close>.
\<close>

section \<open>A request on the line\<close>

definition serial_request ::
  "'f flash_hw \<Rightarrow> u32 \<Rightarrow> u32 \<Rightarrow> u8 list \<Rightarrow> ser_channel \<times> 'f ser_app \<Rightarrow> (ser_channel \<times> 'f ser_app) option" where
  "serial_request hw t1 t2 frame = (\<lambda>(ch, a). do {
     dev \<leftarrow> add_all serial_add (UartTTL ch) frame;
     OTA_Periodic_Handle hw t1 t2 (ch\<lparr>UartTTL := dev\<rparr>) a })"

definition serial_ready :: "ser_channel \<Rightarrow> bool" where
  "serial_ready ch \<longleftrightarrow> serial_ok (UartTTL ch) \<and> serial_pending (UartTTL ch) = [] \<and>
     serial_capacity (UartTTL ch) = 1023 \<and> length (OTACommBuf ch) = 2048"

lemma serial_capacity_del:
  "stm32_uart_del_iap d k = Some (n, d') \<Longrightarrow> serial_capacity d' = serial_capacity d"
  by (auto simp: stm32_uart_del_iap_def serial_capacity_def DelDataFromBuf_def ring_capacity_def umod_def Let_def
    split: option.splits if_splits bind_splits)

lemma serial_round:
  assumes ok: "serial_ready ch" and body: "2 \<le> length body" "length body \<le> 1017"
    and n: "n = length body + 6" and frame: "frame = mk_frame (cmd # body)"
    and run: "ser_command hw (flash_page_from_end hw (boot_flash (ser_vars a)) FLASH_APP_COPY_ADDR)
      (frame @ drop n (OTACommBuf ch)) 0 (of_nat n) cmd a = Some a'"
  shows "\<exists>ch'. serial_request hw t1 t2 frame (ch, a) = Some (ch', a') \<and> serial_ready ch'"
proof -
  have len: "length frame = n" by (simp add: frame n)
  obtain d1 where d1: "add_all serial_add (UartTTL ch) frame = Some d1" "serial_ok d1"
      "serial_capacity d1 = 1023" "serial_pending d1 = frame"
    using serial.add_all_keeps_last [of "UartTTL ch" frame] ok len body n by (auto simp: serial_ready_def)
  define b where "b = frame @ drop n (OTACommBuf ch)"
  have "serial_peek d1 (OTACommBuf ch) 2048 =
      Some (of_nat n, take n (serial_pending d1) @ drop n (OTACommBuf ch), d1)"
    using ok len body n d1(4) by (intro serial.recv_peeks [OF d1(2)]) (simp_all add: serial_ready_def)
  then have recv: "stm32_uart_recv_iap d1 (OTACommBuf ch) 2048 False = Some (of_nat n, b, d1)"
    using len d1(4) by (simp add: serial_peek_def b_def)
  have un: "unat (of_nat n :: u32) = n" unfolding unat_of_nat_u32 using body n by simp
  then have n0: "of_nat n \<noteq> (0 :: u32)" using n by (metis add_is_0 unat_0 zero_neq_numeral)
  have "uart_scan b (of_nat n) = Some (Scan_frame (length ([] :: u8 list)) (of_nat (length (cmd # body) + 5)))"
    unfolding uart_scan_def using body n un
    by (intro frame_scan_after_noise [where post = "drop n (OTACommBuf ch)"]) (simp_all add: b_def frame)
  then have scan: "uart_scan b (of_nat n) = Some (Scan_frame 0 (of_nat n))" by (simp add: n add.commute)
  obtain x y z s where f: "frame = [x, y, z, cmd] @ body @ [s, 0xBE]" by (simp add: frame mk_frame_def le_enc_2)
  obtain p q u where pq: "body = p # q # u" using body by (metis One_nat_def Suc_1 Suc_le_length_iff)
  have reads: "rd b 3 = Some cmd" "\<exists>w. rd16 b 4 = Some w"
    unfolding b_def f pq rd16_def rd_def by simp_all
  have big: "\<not> of_nat n < COMM_PROTOCOL_MIN_LEN"
    using un n body by (simp add: COMM_PROTOCOL_MIN_LEN_def word_less_nat_alt)
  have handled: "OTA_Protocol_Anylise hw a b (of_nat n) = Some (\<lparr>info_state = anylise_accept, del_len = of_nat n\<rparr>, a')"
    using big scan reads run by (auto simp: OTA_Protocol_Anylise_def Let_def b_def)
  obtain d2 where d2: "stm32_uart_del_iap d1 (of_nat n) = Some (of_nat (min (unat (of_nat n :: u32)) (length (serial_pending d1))), d2)"
      "serial_ok d2" "serial_pending d2 = drop (unat (of_nat n :: u32)) (serial_pending d1)"
    using serial.del_drops [OF d1(2), of "of_nat n"] by blast
  have "serial_ready (ch\<lparr>OTACommBuf := b, UartTTL := d2, OTAWaitTicks := t1\<rparr>)"
    using d2(2,3) d1(3,4) len un ok body n serial_capacity_del [OF d2(1)]
    by (simp add: serial_ready_def b_def)
  then show ?thesis
    using d1(1) recv n0 handled d2(1) by (auto simp: serial_request_def OTA_Periodic_Handle_def Let_def)
qed

lemma ser_answer_sent:
  assumes "length (OTASendBuf a) = 1024" and "length body + 5 \<le> 256" and "n = of_nat (length body + 5)"
  shows "\<exists>b. length b = 1024 \<and> ser_answer (put_frame n body) after a =
    Some (a\<lparr>OTASendBuf := b, ser_trace := ser_trace a @ Ttl_send (mk_frame body) # after\<rparr>)"
proof -
  have u: "unat n = length body + 5" unfolding assms(3) unat_of_nat_u32 using assms(2) by simp
  have n0: "n \<noteq> 0"
  proof
    assume "n = 0"
    with u show False by simp
  qed
  define b where "b = mk_frame body @ drop (unat n) (OTASendBuf a)"
  have p: "put_frame n body (OTASendBuf a) 1024 = Some (n, b)"
    unfolding b_def using assms(1,2) u by (intro put_frame_mk_frame) simp_all
  have "rds b 0 (unat n) = Some (mk_frame body)" by (simp add: rds_def u b_def)
  then have "ser_answer (put_frame n body) after a =
      Some (a\<lparr>OTASendBuf := b, ser_trace := ser_trace a @ Ttl_send (mk_frame body) # after\<rparr>)"
    using p n0 by (simp add: ser_answer_def Let_def)
  moreover have "length b = 1024" using assms(1,2) u by (simp add: b_def)
  ultimately show ?thesis by blast
qed

section \<open>The three requests\<close>

definition serial_start :: "u16 \<Rightarrow> u8 \<Rightarrow> u8 \<Rightarrow> u8 list \<Rightarrow> u8 list" where
  "serial_start dest vh vl hdr = mk_frame (OTA_Start # half dest @ [vh, vl] @ hdr)"

definition serial_block :: "u16 \<Rightarrow> u16 \<Rightarrow> u8 list \<Rightarrow> u8 list" where
  "serial_block dest num bs = mk_frame (OTA_Update # half dest @ half num @ bs)"

definition serial_end :: "u16 \<Rightarrow> u8 list" where
  "serial_end dest = mk_frame (OTA_End # half dest)"

context hal_flash
begin

lemma ser_start_step:
  assumes layout: "flash_layout hw main (boot_flash (ser_vars a))" and buf: "length (OTASendBuf a) = 1024"
    and ch: "serial_ready ch" and hdr: "length hdr = 24" and h: "h = boot_header_of hdr"
    and n: "0 < unat (UpdatesTotalSize h)" "unat (UpdatesTotalSize h) \<le> 106496"
    and P: "P = (unat (UpdatesTotalSize h) + 2047) div 2048"
  shows "\<exists>ch' a'. serial_request hw t1 t2 (serial_start dest vh vl hdr) (ch, a) = Some (ch', a') \<and> serial_ready ch' \<and>
    hw_byte hw (boot_flash (ser_vars a')) =
      put_bytes (put_bytes (hw_byte hw (boot_flash (ser_vars a))) (flash_page_from_end hw (boot_flash (ser_vars a)) FLASH_APP_INFO_ADDR)
        (hdr @ replicate 2024 0xFF)) (download_area hw (boot_flash (ser_vars a))) (replicate (2048 * P) 0xFF) \<and>
    length (OTASendBuf a') = 1024 \<and> ser_SubSize a' = ucast (UpdatesSubSize h) \<and> length (ser_trace a') = length (ser_trace a) + 2"
proof -
  let ?f = "boot_flash (ser_vars a)"
  let ?info = "flash_page_from_end hw ?f FLASH_APP_INFO_ADDR"
  obtain f1 where f1: "Flash_Storage_Header_iap hw ?f hdr = Some (1, f1)"
      "hw_byte hw f1 = put_bytes (hw_byte hw ?f) ?info (hdr @ replicate 2024 0xFF)"
    using Flash_Storage_Header_iap_stores [OF layout, of hdr] hdr by auto
  note ar = download_area_bounds [OF layout]
  have "P \<le> 52" unfolding P using n(2) by linarith
  then have P52: "2048 * P \<le> 106496" by simp
  have "unat (download_area hw ?f) mod 2048 = 0" using download_area_aligned [OF layout] by simp
  moreover have mn: "main (download_area hw ?f + of_nat k)" if "k < 2048 * P" for k
    using that P52 by (intro ar(3)) simp
  ultimately obtain f2 where f2: "Flash_Erase_Page_iap hw f1 (download_area hw ?f) (UpdatesTotalSize h) = (True, f2)"
      "hw_byte hw f2 = put_bytes (hw_byte hw f1) (download_area hw ?f) (replicate (2048 * P) 0xFF)"
    using Flash_Erase_Page_iap_ok [OF n _ P _ mn, of f1] ar(1) P52 by auto
  obtain x y s where fr: "serial_start dest vh vl hdr = [0xFE, x, y, OTA_Start] @ half dest @ [vh, vl] @ hdr @ [s, 0xBE]"
    unfolding serial_start_def by (auto simp: mk_frame_def le_enc_2)
  have tk: "take m (drop k hdr @ [s, 0xBE] @ r) = take m (drop k hdr)" if "k + m \<le> 24" for k m r
    using that hdr by simp
  have d8: "drop 8 (serial_start dest vh vl hdr @ r) = hdr @ [s, 0xBE] @ r" for r by (simp add: fr half_def)
  have dk: "drop (8 + k) (serial_start dest vh vl hdr @ r) = drop k hdr @ [s, 0xBE] @ r" if "k \<le> 24" for k r
  proof -
    have "drop (8 + k) (serial_start dest vh vl hdr @ r) = drop k (drop 8 (serial_start dest vh vl hdr @ r))"
      by (simp only: drop_drop add.commute)
    then show ?thesis unfolding d8 using that hdr by simp
  qed
  have ver: "rd (serial_start dest vh vl hdr @ r) 6 = Some vh" "rd (serial_start dest vh vl hdr @ r) 7 = Some vl" for r
    by (simp_all add: fr half_def rd_def)
  have total: "ArrayU8ToU32 (drop 10 (serial_start dest vh vl hdr @ r)) = Some (UpdatesTotalSize h)" for r
    using dk [of 2 r] hdr tk [of 2 4] by (simp add: ArrayU8ToU32_le h boot_header_of_def le_field_def)
  have sub: "ArrayU8ToU16 (drop 14 (serial_start dest vh vl hdr @ r)) = Some (UpdatesSubSize h)" for r
    using dk [of 6 r] hdr tk [of 6 2] by (simp add: ArrayU8ToU16_le h boot_header_of_def le_field_def)
  have crc: "ArrayU8ToU32 (drop 16 (serial_start dest vh vl hdr @ r)) = Some (UpdatesCRC32 h)" for r
    using dk [of 8 r] hdr tk [of 8 4] by (simp add: ArrayU8ToU32_le h boot_header_of_def le_field_def)
  have param: "rds (serial_start dest vh vl hdr @ r) 8 24 = Some hdr" for r
    using d8 [of r] hdr by (simp add: rds_def fr half_def)
  define a1 where "a1 = ser_set_flash f2 ((ser_emit (Ttl_delay 20) a)\<lparr>ser_UpdateFlag := 1,
    ser_Version := push_bit 8 (ucast vh) OR ucast vl, ser_TotalSize := ucast (UpdatesTotalSize h),
    ser_SubSize := ucast (UpdatesSubSize h), ser_CRC32 := ucast (UpdatesCRC32 h)\<rparr>)"
  have uu: "ucast (ucast w :: u64) = w" for w :: u32
    by (rule bit_word_eqI) (auto simp: bit_simps)
  have cmd: "ser_command hw (download_area hw ?f) (serial_start dest vh vl hdr @ r) 0 m OTA_Start a =
      ser_answer (OTA_Start_ACK_Construct_iap a1) [] a1" for r m
    using f1(1) f2(1)
    by (simp add: ser_command_def ser_ota_start_def Let_def ver total sub crc param a1_def ser_set_flash_def ser_emit_def uu
      del: drop_append)
  have "length (OTASendBuf a1) = 1024" using buf by (simp add: a1_def ser_set_flash_def ser_emit_def)
  then obtain b where b: "length b = 1024" "ser_answer (OTA_Start_ACK_Construct_iap a1) [] a1 = Some (a1\<lparr>OTASendBuf := b,
      ser_trace := ser_trace a1 @ [Ttl_send (mk_frame (OTA_Start # half (ID (boot_param (ser_vars a1)))))]\<rparr>)"
    using ser_answer_sent [of a1 "OTA_Start # half (ID (boot_param (ser_vars a1)))" 8 "[]"]
    by (auto simp: OTA_Start_ACK_Construct_iap_def [abs_def])
  have "\<exists>ch'. serial_request hw t1 t2 (serial_start dest vh vl hdr) (ch, a) = Some (ch', a1\<lparr>OTASendBuf := b,
      ser_trace := ser_trace a1 @ [Ttl_send (mk_frame (OTA_Start # half (ID (boot_param (ser_vars a1)))))]\<rparr>) \<and> serial_ready ch'"
    by (rule serial_round [OF ch _ _ refl serial_start_def])
      (use hdr cmd b in \<open>simp_all add: download_area_def\<close>)
  then show ?thesis
    using f2(2) b(1) by (fastforce simp: f1(2) a1_def ser_set_flash_def ser_emit_def)
qed

lemma ser_block_step:
  assumes layout: "flash_layout hw main (boot_flash (ser_vars a))" and buf: "length (OTASendBuf a) = 1024"
    and ch: "serial_ready ch" and area: "area = download_area hw (boot_flash (ser_vars a))"
    and off: "off = ucast num * ser_SubSize a" "8 dvd unat off" "off < OTA_BIN_MAX_SIZE"
    and bs: "bs \<noteq> []" "length bs \<le> 1013" and m: "length bs \<le> m" "m < length bs + 8" "8 dvd m"
    and blank: "erased hw (boot_flash (ser_vars a)) (area + off) m"
  shows "\<exists>ch' a'. serial_request hw t1 t2 (serial_block dest num bs) (ch, a) = Some (ch', a') \<and> serial_ready ch' \<and>
    hw_byte hw (boot_flash (ser_vars a')) = put_bytes (hw_byte hw (boot_flash (ser_vars a))) (area + off) bs \<and>
    length (OTASendBuf a') = 1024 \<and> ser_SubSize a' = ser_SubSize a \<and> length (ser_trace a') = length (ser_trace a) + 1"
proof -
  let ?f = "boot_flash (ser_vars a)"
  note ar = download_area_bounds [OF layout, folded area]
  have o: "unat off < 106496" using off(3) by (simp add: word_less_nat_alt OTA_BIN_MAX_SIZE_def FLASH_PAGE_SIZE_def)
  have addr8: "(area + off) mod 8 = 0"
    using download_area_mod8 [OF layout o] off(2) by (intro word_unat_eqI) (simp add: area)
  have mn: "main (area + off + of_nat j)" if "j < m" for j
    using ar(3) [of "unat off + j"] that bs m(2) o by (simp add: add.assoc)
  have ul: "unat (of_nat (length bs) :: u32) = length bs" using bs by (simp add: unat_of_nat_u32)
  obtain x y s where fr: "serial_block dest num bs = [0xFE, x, y, OTA_Update] @ half dest @ half num @ bs @ [s, 0xBE]"
    unfolding serial_block_def by (auto simp: mk_frame_def le_enc_2)
  have num: "ArrayU8ToU16 (drop 6 (serial_block dest num bs @ r)) = Some num" for r
  proof -
    have "drop 6 (serial_block dest num bs @ r) = half num @ bs @ [s, 0xBE] @ r" by (simp add: fr half_def)
    then show ?thesis by (simp only: ArrayU8ToU16_half)
  qed
  have data: "drop 8 (serial_block dest num bs @ r) = bs @ [s, 0xBE] @ r" for r by (simp add: fr half_def)
  define r where "r = drop (length bs + 10) (OTACommBuf ch)"
  have "\<exists>f'. Flash_Write_iap hw ?f (area + off) (bs @ [s, 0xBE] @ r) (of_nat (length bs)) = Some (of_nat (length bs), f') \<and>
      hw_byte hw f' = put_bytes (hw_byte hw ?f) (area + off) (take (unat (of_nat (length bs) :: u32)) (bs @ [s, 0xBE] @ r))"
    by (rule Flash_Write_iap_stores [OF addr8 _ _ _ m(3) _ mn blank]) (use bs m in \<open>simp_all add: ul\<close>)
  then obtain f' where f': "Flash_Write_iap hw ?f (area + off) (bs @ [s, 0xBE] @ r) (of_nat (length bs)) = Some (of_nat (length bs), f')"
      "hw_byte hw f' = put_bytes (hw_byte hw ?f) (area + off) bs"
    unfolding ul by auto
  define a1 where "a1 = ser_set_flash f' (a\<lparr>ser_UpdateFlag := 2, ser_Frame_Num := num\<rparr>)"
  have "unat (of_nat (length bs + 10) :: u32) = length bs + 10" unfolding unat_of_nat_u32 using bs by simp
  then have dl: "of_nat (length bs + 10) > (10 :: u32)" "of_nat (length bs + 10) - 10 = (of_nat (length bs) :: u32)"
    using bs(1) by (simp_all add: word_less_nat_alt)
  define ack where "ack = OTA_Update # half (ID (boot_param (ser_vars a1))) @ half (ser_Frame_Num a1) @ [0]"
  have cmd: "ser_command hw area (serial_block dest num bs @ r) 0 (of_nat (length bs + 10)) OTA_Update a =
      ser_answer (put_frame 11 ack) [] a1"
    using dl f'(1) off(3) num data
    by (simp add: ser_command_def ser_ota_update_def Let_def a1_def ser_set_flash_def off(1) OTA_Update_def OTA_Start_def
      OTA_Update_ACK_Construct_iap_def ack_def)
  have "length (OTASendBuf a1) = 1024" using buf by (simp add: a1_def ser_set_flash_def)
  then obtain b where b: "length b = 1024" "ser_answer (put_frame 11 ack) [] a1 =
      Some (a1\<lparr>OTASendBuf := b, ser_trace := ser_trace a1 @ [Ttl_send (mk_frame ack)]\<rparr>)"
    using ser_answer_sent [of a1 ack 11 "[]"] by (auto simp: ack_def)
  have n: "length bs + 10 = length (half dest @ half num @ bs) + 6" by simp
  have "\<exists>ch'. serial_request hw t1 t2 (serial_block dest num bs) (ch, a) =
      Some (ch', a1\<lparr>OTASendBuf := b, ser_trace := ser_trace a1 @ [Ttl_send (mk_frame ack)]\<rparr>) \<and> serial_ready ch'"
    by (rule serial_round [OF ch _ _ n serial_block_def])
      (use bs cmd b in \<open>simp_all only: r_def area download_area_def, simp_all\<close>)
  then show ?thesis
    using f'(2) b(1) by (fastforce simp: a1_def ser_set_flash_def)
qed

lemma ser_end_step:
  assumes layout: "flash_layout hw main (boot_flash (ser_vars a))" and buf: "length (OTASendBuf a) = 1024"
    and ch: "serial_ready ch"
  shows "\<exists>ch' a' v. serial_request hw t1 t2 (serial_end dest) (ch, a) = Some (ch', a') \<and>
    boot_flash v = boot_flash (ser_vars a) \<and> boot_flash (ser_vars a') = boot_flash (UpdateAppMode_iap hw v) \<and>
    length (ser_trace a') = length (ser_trace a) + 3"
proof -
  define a1 where "a1 = a\<lparr>ser_UpdateFlag := 3\<rparr>"
  define ack where "ack = OTA_End # half (ID (boot_param (ser_vars a1)))"
  have "length (OTASendBuf a1) = 1024" using buf by (simp add: a1_def)
  then obtain b where b: "length b = 1024" "ser_answer (put_frame 8 ack) [Ttl_delay 2000] a1 =
      Some (a1\<lparr>OTASendBuf := b, ser_trace := ser_trace a1 @ [Ttl_send (mk_frame ack), Ttl_delay 2000]\<rparr>)"
    using ser_answer_sent [of a1 ack 8 "[Ttl_delay 2000]"] by (auto simp: ack_def)
  define a2 where "a2 = a1\<lparr>OTASendBuf := b, ser_trace := ser_trace a1 @ [Ttl_send (mk_frame ack), Ttl_delay 2000, Ttl_reset],
    ser_vars := UpdateAppMode_iap hw (ser_vars a1)\<rparr>"
  have "OTA_End_ACK_Construct_iap a1 = put_frame 8 ack"
    by (simp add: OTA_End_ACK_Construct_iap_def ack_def fun_eq_iff)
  then have cmd: "ser_command hw ad bb 0 m OTA_End a = Some a2" for ad bb m
    using b(2) by (simp add: ser_command_def ser_ota_end_def Let_def OTA_End_def OTA_Update_def OTA_Start_def
      a1_def [symmetric] a2_def ser_emit_def)
  have n: "8 = length (half dest) + 6" by simp
  have "\<exists>ch'. serial_request hw t1 t2 (serial_end dest) (ch, a) = Some (ch', a2) \<and> serial_ready ch'"
    by (rule serial_round [OF ch _ _ n serial_end_def]) (simp_all add: cmd)
  then show ?thesis by (fastforce simp: a2_def a1_def)
qed

end

section \<open>The channel keeps the contract\<close>

sublocale hal_flash \<subseteq> serial_service: boot_update_service hw ready main
  "\<lambda>s. boot_flash (ser_vars (snd s))" "\<lambda>s. ser_SubSize (snd s)"
  "\<lambda>s. serial_ready (fst s) \<and> length (OTASendBuf (snd s)) = 1024" "\<lambda>s. length (ser_trace (snd s))"
  "\<lambda>hdr. serial_request hw (t 0) u (serial_start dest vh vl hdr)"
  "\<lambda>k bs. serial_request hw (t (Suc k)) u (serial_block dest (of_nat k) bs)"
  "serial_request hw u u (serial_end dest)"
  1013 2 3
  for dest vh vl and t :: "nat \<Rightarrow> u32" and u
proof (unfold_locales, goal_cases)
  case (2 s hdr h P)
  then show ?case
    using ser_start_step [of "snd s" "fst s" hdr h P "t 0" u dest vh vl] by fastforce
next
  case (3 s area off k bs m)
  then show ?case
    using ser_block_step [of "snd s" "fst s" area off "of_nat k" bs m "t (Suc k)" u dest] by fastforce
next
  case (4 s)
  then show ?case
    using ser_end_step [of "snd s" "fst s" u u dest] by fastforce
qed simp

section \<open>An update over the serial line\<close>

text \<open>A session: round \<open>k\<close> of the loop reads \<open>t k\<close> from the tick counter, the last one \<open>u\<close>.\<close>

definition serial_session ::
  "'f flash_hw \<Rightarrow> (nat \<Rightarrow> u32) \<Rightarrow> u32 \<Rightarrow> u16 \<Rightarrow> u8 \<Rightarrow> u8 \<Rightarrow> u8 list \<Rightarrow> u8 list list \<Rightarrow>
     ser_channel \<times> 'f ser_app \<Rightarrow> (ser_channel \<times> 'f ser_app) option" where
  "serial_session hw t u dest vh vl hdr blocks = update_session
     (\<lambda>hdr. serial_request hw (t 0) u (serial_start dest vh vl hdr))
     (\<lambda>k bs. serial_request hw (t (Suc k)) u (serial_block dest (of_nat k) bs))
     (serial_request hw u u (serial_end dest)) hdr blocks"

context hal_flash
begin

lemma serial_session_installs:
  assumes layout: "flash_layout hw main (boot_flash (ser_vars a))" and buf: "length (OTASendBuf a) = 1024"
    and ch: "serial_ready ch"
    and hdr: "length hdr = 24" "h = boot_header_of hdr" "CompressFlag h \<noteq> 1"
    and n: "unat (UpdatesTotalSize h) = length img" "0 < length img" "length img \<le> 106496" "UpdatesCRC32 h = crc32_ref img"
    and s: "unat (UpdatesSubSize h) = s" "8 dvd s" "s \<le> 1013"
    and blocks: "blocks_ok s blocks" "[] \<notin> set blocks" "length blocks \<le> 65536" "img = concat blocks"
    and P: "P = (length img + 2047) div 2048"
    and area: "area = download_area hw (boot_flash (ser_vars a))" "unat FLASH_APP_RUN_ADDR + 2048 * P \<le> unat area"
  shows "\<exists>s'. serial_session hw t u dest vh vl hdr blocks (ch, a) = Some s' \<and>
    length (ser_trace (snd s')) = length (ser_trace a) + length blocks + 5 \<and>
    (\<forall>w. boot_flash w = boot_flash (ser_vars (snd s')) \<and> length (check_buf w) = 2048 \<longrightarrow>
      (\<exists>w'. boot_main hw unz w = Some (Boot_reset, w') \<and> ReadIAPMode hw (boot_flash w') = OTA_RUN_APP \<and>
        flash_bytes hw (boot_flash w') FLASH_APP_RUN_ADDR (length img) = img \<and>
        (\<forall>x. unat x < unat FLASH_APP_RUN_ADDR \<or> unat FLASH_APP_RUN_ADDR + 2048 * P \<le> unat x \<and> unat x < unat area \<longrightarrow>
          hw_byte hw (boot_flash w') x = hw_byte hw (boot_flash (ser_vars a)) x)))"
  unfolding serial_session_def
  using serial_service.session_installs [of "(ch, a)" hdr h img s blocks P area t u dest vh vl unz] assms
  by (simp add: ac_simps)

end

text \<open>C2: an image that a host sends over the serial line of the bootloader is installed. From the freshly
  initialised port on, when the start request with the image information, the image in blocks of the
  announced size (a multiple of eight of at most 1013 bytes, all but the last one full) and the end
  request arrive byte by byte, each followed by one round of the loop, every request is answered, the
  update flag is set and a reset is asked for. Main, after the reset, installs the image: the run area
  holds it, the flag reads "run", and neither the bootloader nor the gap behind the run area changed.\<close>

theorem serial_download_installs:
  assumes hal: "hal_flash hw ready main" and layout: "flash_layout hw main (boot_flash (ser_vars a))"
    and dev: "iap_RxBuf_size dev = 1024" "length (iap_RxBuf_addr dev) = 1024"
    and buf: "length comm = 2048" "length (OTASendBuf a) = 1024"
    and hdr: "length hdr = 24" "h = boot_header_of hdr" "CompressFlag h \<noteq> 1"
    and n: "unat (UpdatesTotalSize h) = length img" "0 < length img" "length img \<le> 106496" "UpdatesCRC32 h = crc32_ref img"
    and s: "unat (UpdatesSubSize h) = s" "8 dvd s" "s \<le> 1013"
    and blocks: "blocks_ok s blocks" "[] \<notin> set blocks" "length blocks \<le> 65536" "img = concat blocks"
    and P: "P = (length img + 2047) div 2048"
    and area: "area = download_area hw (boot_flash (ser_vars a))" "unat FLASH_APP_RUN_ADDR + 2048 * P \<le> unat area"
  shows "\<exists>s'. serial_session hw t u dest vh vl hdr blocks
      (\<lparr>UartTTL = stm32_uart_init_iap (Some dev), OTACommBuf = comm, OTAWaitTicks = w0\<rparr>, a) = Some s' \<and>
    length (ser_trace (snd s')) = length (ser_trace a) + length blocks + 5 \<and>
    (\<forall>w. boot_flash w = boot_flash (ser_vars (snd s')) \<and> length (check_buf w) = 2048 \<longrightarrow>
      (\<exists>w'. boot_main hw unz w = Some (Boot_reset, w') \<and> ReadIAPMode hw (boot_flash w') = OTA_RUN_APP \<and>
        flash_bytes hw (boot_flash w') FLASH_APP_RUN_ADDR (length img) = img \<and>
        (\<forall>x. unat x < unat FLASH_APP_RUN_ADDR \<or> unat FLASH_APP_RUN_ADDR + 2048 * P \<le> unat x \<and> unat x < unat area \<longrightarrow>
          hw_byte hw (boot_flash w') x = hw_byte hw (boot_flash (ser_vars a)) x)))"
proof -
  have "serial_ready \<lparr>UartTTL = stm32_uart_init_iap (Some dev), OTACommBuf = comm, OTAWaitTicks = w0\<rparr>"
    using stm32_uart_init_iap_ok [of dev] dev buf(1) by (simp add: serial_ready_def)
  then show ?thesis
    by (rule hal_flash.serial_session_installs [OF hal layout buf(2) _ hdr n s blocks P area])
qed

definition sample_ser_app :: "stm32f1 ser_app" where
  "sample_ser_app = \<lparr>ser_vars = boot_sample (boot_sample_header 0), ser_Version = 0, ser_TotalSize = 0,
     ser_SubSize = 0, ser_CRC32 = 0, ser_Frame_Num = 0, ser_UpdateFlag = 0, OTASendBuf = replicate 1024 0, ser_trace = []\<rparr>"

definition sample_iap_uart :: iap_uart where
  "sample_iap_uart = \<lparr>iap_rxbuf = \<lparr>Head = 7, Tail = 3, RxBuf = None, RxBufSize = 0\<rparr>,
     iap_RxBuf_addr = replicate 1024 0, iap_RxBuf_size = 1024\<rparr>"

theorem serial_download_installs_witness:
  "\<exists>s' w'. serial_session stm32_hw of_nat 9 0x0201 1 2 (boot_sample_header 0x26)
      [[0x31, 0x32, 0x33, 0x34, 0x35, 0x36, 0x37, 0x38], [0x39]]
      (\<lparr>UartTTL = stm32_uart_init_iap (Some sample_iap_uart), OTACommBuf = replicate 2048 0, OTAWaitTicks = 0\<rparr>, sample_ser_app) = Some s' \<and>
    boot_main stm32_hw (\<lambda>_ _. ([], 0)) ((ser_vars (snd s'))\<lparr>check_buf := replicate 2048 0\<rparr>) = Some (Boot_reset, w') \<and>
    flash_bytes stm32_hw (boot_flash w') FLASH_APP_RUN_ADDR 9 = [0x31, 0x32, 0x33, 0x34, 0x35, 0x36, 0x37, 0x38, 0x39]"
proof -
  let ?a = sample_ser_app and ?img = "[0x31, 0x32, 0x33, 0x34, 0x35, 0x36, 0x37, 0x38, 0x39] :: u8 list"
  let ?s = "(\<lparr>UartTTL = stm32_uart_init_iap (Some sample_iap_uart), OTACommBuf = replicate 2048 0, OTAWaitTicks = 0\<rparr>, ?a)"
  note s = boot_sample_bytes [OF refl, of 0]
  have b: "ser_vars ?a = boot_sample (boot_sample_header 0)" by (simp add: sample_ser_app_def)
  have "\<exists>s'. serial_session stm32_hw of_nat 9 0x0201 1 2 (boot_sample_header 0x26)
      [[0x31, 0x32, 0x33, 0x34, 0x35, 0x36, 0x37, 0x38], [0x39]] ?s = Some s' \<and>
    length (ser_trace (snd s')) = length (ser_trace ?a) + length [[0x31, 0x32, 0x33, 0x34, 0x35, 0x36, 0x37, 0x38], [0x39 :: u8]] + 5 \<and>
    (\<forall>w. boot_flash w = boot_flash (ser_vars (snd s')) \<and> length (check_buf w) = 2048 \<longrightarrow>
      (\<exists>w'. boot_main stm32_hw (\<lambda>_ _. ([], 0)) w = Some (Boot_reset, w') \<and> ReadIAPMode stm32_hw (boot_flash w') = OTA_RUN_APP \<and>
        flash_bytes stm32_hw (boot_flash w') FLASH_APP_RUN_ADDR (length ?img) = ?img \<and>
        (\<forall>x. unat x < unat FLASH_APP_RUN_ADDR \<or> unat FLASH_APP_RUN_ADDR + 2048 * 1 \<le> unat x \<and> unat x < unat (0x08023800 :: u32) \<longrightarrow>
          hw_byte stm32_hw (boot_flash w') x = hw_byte stm32_hw (boot_flash (ser_vars ?a)) x)))"
    using s(2)
    by (intro serial_download_installs [OF stm32_hal.hal_flash_axioms, where s = 8 and h = "boot_header_of (boot_sample_header 0x26)"])
       (simp_all add: b s(3) download_area_def boot_sample_fields boot_sample_crc sample_iap_uart_def
          boot_sample_header_def [where x = "0x26", THEN arg_cong [where f = length]],
        simp_all add: FLASH_APP_RUN_ADDR_def sample_ser_app_def)
  then obtain s' where s': "serial_session stm32_hw of_nat 9 0x0201 1 2 (boot_sample_header 0x26)
      [[0x31, 0x32, 0x33, 0x34, 0x35, 0x36, 0x37, 0x38], [0x39]] ?s = Some s'"
    "\<forall>w. boot_flash w = boot_flash (ser_vars (snd s')) \<and> length (check_buf w) = 2048 \<longrightarrow>
      (\<exists>w'. boot_main stm32_hw (\<lambda>_ _. ([], 0)) w = Some (Boot_reset, w') \<and>
        flash_bytes stm32_hw (boot_flash w') FLASH_APP_RUN_ADDR (length ?img) = ?img)"
    by blast
  have "\<exists>w'. boot_main stm32_hw (\<lambda>_ _. ([], 0)) ((ser_vars (snd s'))\<lparr>check_buf := replicate 2048 0\<rparr>) = Some (Boot_reset, w') \<and>
        flash_bytes stm32_hw (boot_flash w') FLASH_APP_RUN_ADDR (length ?img) = ?img"
    by (rule s'(2) [rule_format]) simp
  moreover have "length ?img = 9" by simp
  ultimately show ?thesis using s'(1) by metis
qed

end
