(* ===== verification/Node_List.thy ===== *)
theory Node_List
  imports Firmware_Prelude
begin

text \<open>
  The intrusive doubly linked list of \<open>common_lib/usdl_list.c\<close>. A node is two pointers; the
  memory is a map from addresses to nodes, so that the order of the stores and the aliasing of
  the pointers (an empty list is a node that points at itself) are those of the code. A read or
  a write at an address with no node, NULL among them, is \<open>None\<close>.

  \<open>dlist h head xs\<close> says that the nodes \<open>xs\<close> hang on \<open>head\<close> in that order: it is the invariant of
  the lists and, as a relation between the memory and the list of addresses, their abstraction.
\<close>

named_theorems node_simps \<open>reads of updated nodes\<close>

section \<open>Nodes and memory\<close>

type_synonym addr = u32

record list_node =
  node_next :: addr
  node_prev :: addr

type_synonym node_heap = "addr \<rightharpoonup> list_node"

definition nxt :: "node_heap \<Rightarrow> addr \<Rightarrow> addr option" where
  "nxt h p = map_option node_next (h p)"

definition prv :: "node_heap \<Rightarrow> addr \<Rightarrow> addr option" where
  "prv h p = map_option node_prev (h p)"

definition set_next :: "addr \<Rightarrow> addr \<Rightarrow> node_heap \<Rightarrow> node_heap option" where
  "set_next p v h = do { n \<leftarrow> h p; Some (h(p \<mapsto> n\<lparr>node_next := v\<rparr>)) }"

definition set_prev :: "addr \<Rightarrow> addr \<Rightarrow> node_heap \<Rightarrow> node_heap option" where
  "set_prev p v h = do { n \<leftarrow> h p; Some (h(p \<mapsto> n\<lparr>node_prev := v\<rparr>)) }"

section \<open>Operations\<close>

definition ListHeadInit :: "addr \<Rightarrow> node_heap \<Rightarrow> node_heap option" where
  "ListHeadInit ptr h = do { h \<leftarrow> set_next ptr ptr h; set_prev ptr ptr h }"

definition list_link :: "addr \<Rightarrow> addr \<Rightarrow> addr \<Rightarrow> node_heap \<Rightarrow> node_heap option" where
  "list_link new_node prev next h = do {
     h \<leftarrow> set_prev next new_node h;
     h \<leftarrow> set_next new_node next h;
     h \<leftarrow> set_prev new_node prev h;
     set_next prev new_node h }"

definition ListAdd :: "addr \<Rightarrow> addr \<Rightarrow> node_heap \<Rightarrow> node_heap option" where
  "ListAdd new_node head h = do { n \<leftarrow> nxt h head; list_link new_node head n h }"

definition ListAddTail :: "addr \<Rightarrow> addr \<Rightarrow> node_heap \<Rightarrow> node_heap option" where
  "ListAddTail new_node head h = do { p \<leftarrow> prv h head; list_link new_node p head h }"

definition list_del :: "addr \<Rightarrow> addr \<Rightarrow> node_heap \<Rightarrow> node_heap option" where
  "list_del prev next h = do { h \<leftarrow> set_prev next prev h; set_next prev next h }"

definition list_unlink :: "addr \<Rightarrow> node_heap \<Rightarrow> node_heap option" where
  "list_unlink entry h = do { p \<leftarrow> prv h entry; n \<leftarrow> nxt h entry; list_del p n h }"

definition ListDel :: "addr \<Rightarrow> node_heap \<Rightarrow> node_heap option" where
  "ListDel entry h = do {
     h \<leftarrow> list_unlink entry h;
     h \<leftarrow> set_next entry 0 h;
     set_prev entry 0 h }"

definition ListDelInit :: "addr \<Rightarrow> node_heap \<Rightarrow> node_heap option" where
  "ListDelInit entry h = do { h \<leftarrow> list_unlink entry h; ListHeadInit entry h }"

definition ListReplace :: "addr \<Rightarrow> addr \<Rightarrow> node_heap \<Rightarrow> node_heap option" where
  "ListReplace old new_node h = do {
     n \<leftarrow> nxt h old;
     h \<leftarrow> set_next new_node n h;
     n \<leftarrow> nxt h new_node;
     h \<leftarrow> set_prev n new_node h;
     p \<leftarrow> prv h old;
     h \<leftarrow> set_prev new_node p h;
     p \<leftarrow> prv h new_node;
     set_next p new_node h }"

definition ListReplaceInit :: "addr \<Rightarrow> addr \<Rightarrow> node_heap \<Rightarrow> node_heap option" where
  "ListReplaceInit old new_node h = do { h \<leftarrow> ListReplace old new_node h; ListHeadInit old h }"

definition ListMove :: "addr \<Rightarrow> addr \<Rightarrow> node_heap \<Rightarrow> node_heap option" where
  "ListMove entry head h = do { h \<leftarrow> list_unlink entry h; ListAdd entry head h }"

definition ListMoveTail :: "addr \<Rightarrow> addr \<Rightarrow> node_heap \<Rightarrow> node_heap option" where
  "ListMoveTail entry head h = do { h \<leftarrow> list_unlink entry h; ListAddTail entry head h }"

definition ListEmpty :: "addr \<Rightarrow> node_heap \<Rightarrow> bool option" where
  "ListEmpty head h = do { n \<leftarrow> nxt h head; Some (n = head) }"

definition list_splice :: "addr \<Rightarrow> addr \<Rightarrow> node_heap \<Rightarrow> node_heap option" where
  "list_splice lst head h = do {
     first \<leftarrow> nxt h lst;
     last \<leftarrow> prv h lst;
     at \<leftarrow> nxt h head;
     h \<leftarrow> set_prev first head h;
     h \<leftarrow> set_next head first h;
     h \<leftarrow> set_next last at h;
     set_prev at last h }"

definition ListSplice :: "addr \<Rightarrow> addr \<Rightarrow> node_heap \<Rightarrow> node_heap option" where
  "ListSplice lst head h = do {
     e \<leftarrow> ListEmpty lst h;
     if \<not> e then list_splice lst head h else Some h }"

definition ListSpliceInit :: "addr \<Rightarrow> addr \<Rightarrow> node_heap \<Rightarrow> node_heap option" where
  "ListSpliceInit lst head h = do {
     e \<leftarrow> ListEmpty lst h;
     if \<not> e then do { h \<leftarrow> list_splice lst head h; ListHeadInit lst h } else Some h }"

text \<open>
  The loops of \<open>ListGet\<close> over \<open>ListForEach\<close> and \<open>ListForEachReverse\<close>: the link they follow is
  \<open>step\<close>, and \<open>k\<close> is the distance of \<open>position\<close> from zero, which every round brings one nearer
  to zero, so the loop ends whatever the memory holds. It is entered with \<open>0 < k\<close>.
\<close>

fun list_walk :: "(addr \<Rightarrow> addr option) \<Rightarrow> addr \<Rightarrow> nat \<Rightarrow> addr \<Rightarrow> addr option" where
  "list_walk step head 0 pos = Some 0"
| "list_walk step head (Suc k) pos =
     (if pos = head then Some 0
      else if k = 0 then Some pos
      else do { n \<leftarrow> step pos; list_walk step head k n })"

definition ListGet :: "addr \<Rightarrow> int \<Rightarrow> node_heap \<Rightarrow> addr option" where
  "ListGet head position h =
     (if position = 0 then Some head
      else if 0 < position then do { n \<leftarrow> nxt h head; list_walk (nxt h) head (nat position) n }
      else do { p \<leftarrow> prv h head; list_walk (prv h) head (nat (- position)) p })"

definition ListInsert :: "addr \<Rightarrow> int \<Rightarrow> addr \<Rightarrow> node_heap \<Rightarrow> (bool \<times> node_heap) option" where
  "ListInsert head position new_node h = do {
     pos_node \<leftarrow> ListGet head position h;
     if pos_node = 0 then Some (False, h)
     else do {
       n \<leftarrow> nxt h pos_node;
       h \<leftarrow> list_link new_node pos_node n h;
       Some (True, h) } }"

definition ListDelByPosition :: "addr \<Rightarrow> int \<Rightarrow> node_heap \<Rightarrow> (bool \<times> node_heap) option" where
  "ListDelByPosition head position h = do {
     pos_node \<leftarrow> ListGet head position h;
     if pos_node = 0 then Some (False, h)
     else do { h \<leftarrow> ListDel pos_node h; Some (True, h) } }"

section \<open>Reads of updated memory\<close>

definition upd_next :: "addr \<Rightarrow> addr \<Rightarrow> node_heap \<Rightarrow> node_heap" where
  "upd_next p v h = h(p := map_option (\<lambda>n. n\<lparr>node_next := v\<rparr>) (h p))"

definition upd_prev :: "addr \<Rightarrow> addr \<Rightarrow> node_heap \<Rightarrow> node_heap" where
  "upd_prev p v h = h(p := map_option (\<lambda>n. n\<lparr>node_prev := v\<rparr>) (h p))"

lemma set_next_eq [node_simps]: "p \<in> dom h \<Longrightarrow> set_next p v h = Some (upd_next p v h)"
  by (auto simp: set_next_def upd_next_def)

lemma set_prev_eq [node_simps]: "p \<in> dom h \<Longrightarrow> set_prev p v h = Some (upd_prev p v h)"
  by (auto simp: set_prev_def upd_prev_def)

lemma dom_upd [node_simps]: "dom (upd_next p v h) = dom h" "dom (upd_prev p v h) = dom h"
  by (auto simp: upd_next_def upd_prev_def split: if_splits)

lemma upd_next_other [node_simps]: "q \<noteq> p \<Longrightarrow> upd_next p v h q = h q"
  by (simp add: upd_next_def)

lemma upd_prev_other [node_simps]: "q \<noteq> p \<Longrightarrow> upd_prev p v h q = h q"
  by (simp add: upd_prev_def)

lemma nxt_upd_next [node_simps]:
  "nxt (upd_next p v h) q = (if q = p \<and> p \<in> dom h then Some v else nxt h q)"
  by (cases "h p") (auto simp: nxt_def upd_next_def)

lemma nxt_upd_prev [node_simps]: "nxt (upd_prev p v h) q = nxt h q"
  by (auto simp: nxt_def upd_prev_def option.map_comp comp_def)

lemma prv_upd_prev [node_simps]:
  "prv (upd_prev p v h) q = (if q = p \<and> p \<in> dom h then Some v else prv h q)"
  by (cases "h p") (auto simp: prv_def upd_prev_def)

lemma prv_upd_next [node_simps]: "prv (upd_next p v h) q = prv h q"
  by (auto simp: prv_def upd_next_def option.map_comp comp_def)

lemma nxt_Some_dom: "nxt h p = Some q \<Longrightarrow> p \<in> dom h"
  by (auto simp: nxt_def)

lemma prv_Some_dom: "prv h p = Some q \<Longrightarrow> p \<in> dom h"
  by (auto simp: prv_def)

section \<open>Chains and lists\<close>

definition linked :: "node_heap \<Rightarrow> addr \<Rightarrow> addr \<Rightarrow> bool" where
  "linked h a b \<longleftrightarrow> nxt h a = Some b \<and> prv h b = Some a"

fun chain :: "node_heap \<Rightarrow> addr list \<Rightarrow> bool" where
  "chain h (a # b # xs) \<longleftrightarrow> linked h a b \<and> chain h (b # xs)"
| "chain h [a] \<longleftrightarrow> True"
| "chain h [] \<longleftrightarrow> True"

definition dlist :: "node_heap \<Rightarrow> addr \<Rightarrow> addr list \<Rightarrow> bool" where
  "dlist h head xs \<longleftrightarrow> h 0 = None \<and> distinct (head # xs) \<and> chain h (head # xs @ [head])"

lemma chain_join:
  "xs \<noteq> [] \<Longrightarrow> ys \<noteq> [] \<Longrightarrow>
     chain h (xs @ ys) \<longleftrightarrow> chain h xs \<and> linked h (last xs) (hd ys) \<and> chain h ys"
proof (induction xs rule: induct_list012)
  case (2 x)
  then show ?case by (cases ys) auto
qed auto

lemma chain_cong:
  "(\<And>p. p \<in> set (butlast xs) \<Longrightarrow> nxt h' p = nxt h p) \<Longrightarrow>
   (\<And>p. p \<in> set (tl xs) \<Longrightarrow> prv h' p = prv h p) \<Longrightarrow> chain h' xs = chain h xs"
proof (induction xs rule: induct_list012)
  case (3 x y zs)
  have "chain h' (y # zs) = chain h (y # zs)"
  proof (rule "3.IH"(2))
    fix p assume "p \<in> set (butlast (y # zs))"
    then show "nxt h' p = nxt h p" by (intro "3.prems"(1)) simp
  next
    fix p assume "p \<in> set (tl (y # zs))"
    then show "prv h' p = prv h p" by (intro "3.prems"(2)) simp
  qed
  then show ?case
    using "3.prems" by (simp add: linked_def)
qed auto

lemma chain_dom_butlast: "chain h xs \<Longrightarrow> p \<in> set (butlast xs) \<Longrightarrow> p \<in> dom h"
  by (induction xs rule: induct_list012) (auto simp: linked_def dest: nxt_Some_dom split: if_splits)

text \<open>The list around a cut: the part up to the cut, the part after it, and the link across.\<close>

lemma dlist_cut:
  "dlist h head (us @ vs) \<longleftrightarrow>
     h 0 = None \<and> distinct (head # us @ vs) \<and> chain h (head # us) \<and>
     linked h (last (head # us)) (hd (vs @ [head])) \<and> chain h (vs @ [head])"
  using chain_join [of "head # us" "vs @ [head]" h] by (auto simp: dlist_def)

lemma dlist_cut_at:
  "dlist h head (us @ x # vs) \<longleftrightarrow>
     h 0 = None \<and> distinct (head # us @ x # vs) \<and> chain h (head # us) \<and>
     linked h (last (head # us)) x \<and> linked h x (hd (vs @ [head])) \<and> chain h (vs @ [head])"
  using dlist_cut [of h head us "x # vs"] chain_join [of "[x]" "vs @ [head]" h]
  by auto

lemma dlist_dom: "dlist h head xs \<Longrightarrow> p \<in> set (head # xs) \<Longrightarrow> p \<in> dom h"
  unfolding dlist_def using chain_dom_butlast [of h "head # xs @ [head]" p] by auto

lemma dlist_not_null: "dlist h head xs \<Longrightarrow> p \<in> set (head # xs) \<Longrightarrow> p \<noteq> 0"
  using dlist_dom [of h head xs p] by (auto simp: dlist_def)

lemma dlist_frame:
  assumes "dlist h head xs" "h' 0 = None" "\<And>p. p \<in> set (head # xs) \<Longrightarrow> h' p = h p"
  shows "dlist h' head xs"
proof -
  have "chain h' (head # xs @ [head]) = chain h (head # xs @ [head])"
    using assms(3) by (intro chain_cong) (auto simp: nxt_def prv_def)
  with assms show ?thesis by (simp add: dlist_def)
qed

text \<open>
  An update around a cut that keeps the \<open>next\<close> of every node before the cut's left end and the
  \<open>prev\<close> of every node after its right end keeps both parts.
\<close>

lemma cut_kept:
  assumes "distinct (head # us @ vs)" "chain h (head # us)" "chain h (vs @ [head])"
    and "\<And>p. p \<in> set (head # us @ vs) \<Longrightarrow> p \<noteq> last (head # us) \<Longrightarrow> nxt h' p = nxt h p"
    and "\<And>p. p \<in> set (head # us @ vs) \<Longrightarrow> p \<noteq> hd (vs @ [head]) \<Longrightarrow> prv h' p = prv h p"
  shows "chain h' (head # us)" "chain h' (vs @ [head])"
proof -
  have "chain h' (head # us) = chain h (head # us)"
  proof (rule chain_cong)
    fix p assume p: "p \<in> set (butlast (head # us))"
    have "p \<noteq> last (head # us)"
      using p assms(1) by (cases us rule: rev_cases) auto
    then show "nxt h' p = nxt h p"
      using p in_set_butlastD [of p "head # us"] by (intro assms(4)) auto
  next
    fix p assume p: "p \<in> set (tl (head # us))"
    have "p \<noteq> hd (vs @ [head])"
      using p assms(1) by (cases vs) auto
    then show "prv h' p = prv h p"
      using p by (intro assms(5)) auto
  qed
  with assms(2) show "chain h' (head # us)" by simp
  have "chain h' (vs @ [head]) = chain h (vs @ [head])"
  proof (rule chain_cong)
    fix p assume p: "p \<in> set (butlast (vs @ [head]))"
    have "p \<noteq> last (head # us)"
      using p assms(1) by (cases us rule: rev_cases) auto
    then show "nxt h' p = nxt h p"
      using p by (intro assms(4)) auto
  next
    fix p assume p: "p \<in> set (tl (vs @ [head]))"
    have "p \<noteq> hd (vs @ [head])"
      using p assms(1) by (cases vs) auto
    then show "prv h' p = prv h p"
      using p by (intro assms(5)) (cases vs; auto)+
  qed
  with assms(3) show "chain h' (vs @ [head])" by simp
qed

end
