(* ===== verification/Node_List_Ops.thy ===== *)
theory Node_List_Ops
  imports Node_List
begin

text \<open>
  What each operation of \<open>common_lib/usdl_list.c\<close> does to a well formed list: which list it
  leaves, and that no node outside the list and the operands changes.
\<close>

section \<open>Nodes an operation leaves alone\<close>

definition changes_only :: "addr set \<Rightarrow> node_heap \<Rightarrow> node_heap \<Rightarrow> bool" where
  "changes_only A h h' \<longleftrightarrow> dom h' = dom h \<and> (\<forall>q. q \<notin> A \<longrightarrow> h' q = h q)"

lemma changes_only_trans:
  "changes_only A h h' \<Longrightarrow> changes_only B h' h'' \<Longrightarrow> A \<union> B \<subseteq> C \<Longrightarrow> changes_only C h h''"
  unfolding changes_only_def by (metis Un_iff subsetD)

lemma changes_only_mono: "changes_only A h h' \<Longrightarrow> A \<subseteq> B \<Longrightarrow> changes_only B h h'"
  by (auto simp: changes_only_def)

lemma changes_only_refl [simp]: "changes_only A h h"
  by (simp add: changes_only_def)

lemma changes_only_upd [node_simps]:
  "p \<in> A \<Longrightarrow> changes_only A h (upd_next p v h') \<longleftrightarrow> changes_only A h h'"
  "p \<in> A \<Longrightarrow> changes_only A h (upd_prev p v h') \<longleftrightarrow> changes_only A h h'"
  by (auto simp: changes_only_def node_simps) (metis upd_next_other upd_prev_other)+

lemma changes_only_null: "changes_only A h h' \<Longrightarrow> h 0 = None \<Longrightarrow> h' 0 = None"
  unfolding changes_only_def by (metis domIff)

lemma dlist_changes_only:
  assumes d: "dlist h head xs" and c: "changes_only A h h'" and "A \<inter> set (head # xs) = {}"
  shows "dlist h' head xs"
proof (rule dlist_frame [OF d])
  show "h' 0 = None" using changes_only_null [OF c] d by (simp add: dlist_def)
qed (use c assms(3) in \<open>auto simp: changes_only_def\<close>)

lemma last_in_head [simp]: "last (head # us) \<in> set (head # us)"
  by (rule last_in_set) simp

lemma hd_in_head [simp]: "hd (vs @ [head]) \<in> set (head # vs)"
  by (cases vs) auto

section \<open>Linking and unlinking\<close>

lemma list_link_cut:
  assumes d: "dlist h head (us @ vs)" and dom: "new \<in> dom h" and new: "new \<notin> set (head # us @ vs)"
    and p: "p = last (head # us)" and n: "n = hd (vs @ [head])"
  shows "\<exists>h'. list_link new p n h = Some h' \<and> dlist h' head (us @ new # vs) \<and>
           changes_only {p, new, n} h h'"
proof -
  define h' where "h' = upd_next p new (upd_prev new p (upd_next new n (upd_prev n new h)))"
  have pn: "p \<in> set (head # us)" "n \<in> set (head # vs)" by (simp_all only: p n last_in_head hd_in_head)
  have pdom: "p \<in> dom h" by (rule dlist_dom [OF d]) (use pn in auto)
  have ndom: "n \<in> dom h" by (rule dlist_dom [OF d]) (use pn in auto)
  have np: "new \<noteq> p" "new \<noteq> n" using new pn by auto
  have run: "list_link new p n h = Some h'"
    using pdom ndom dom by (simp add: list_link_def h'_def node_simps)
  have only: "changes_only {p, new, n} h h'"
    by (simp add: h'_def node_simps)
  note cut = d [unfolded dlist_cut]
  have keep_nxt: "nxt h' q = nxt h q" if "q \<in> set (head # us @ vs)" "q \<noteq> last (head # us)" for q
    using that assms(3) by (metis h'_def nxt_upd_next nxt_upd_prev p)
  have keep_prv: "prv h' q = prv h q" if "q \<in> set (head # us @ vs)" "q \<noteq> hd (vs @ [head])" for q
    using that assms(3) by (metis h'_def prv_upd_next prv_upd_prev n)
  have dist: "distinct (head # us @ vs)" and old: "chain h (head # us)" "chain h (vs @ [head])"
    using cut by auto
  note parts = cut_kept [OF dist old keep_nxt keep_prv]
  have links: "linked h' p new" "linked h' new n"
    using np pdom ndom dom by (auto simp: linked_def h'_def node_simps)
  have null: "h' 0 = None"
    using only cut by (auto intro: changes_only_null)
  have "dlist h' head (us @ new # vs)"
    using cut new parts links null unfolding dlist_cut_at p n by auto
  with run only show ?thesis by blast
qed

lemma list_del_cut:
  assumes d: "dlist h head (us @ x # vs)"
    and p: "p = last (head # us)" and n: "n = hd (vs @ [head])"
  shows "\<exists>h'. list_del p n h = Some h' \<and> dlist h' head (us @ vs) \<and>
           changes_only {p, n} h h'"
proof -
  define h' where "h' = upd_next p n (upd_prev n p h)"
  have pn: "p \<in> set (head # us)" "n \<in> set (head # vs)" by (simp_all only: p n last_in_head hd_in_head)
  have pdom: "p \<in> dom h" by (rule dlist_dom [OF d]) (use pn in auto)
  have ndom: "n \<in> dom h" by (rule dlist_dom [OF d]) (use pn in auto)
  have run: "list_del p n h = Some h'"
    using pdom ndom by (simp add: list_del_def h'_def node_simps)
  have only: "changes_only {p, n} h h'"
    by (simp add: h'_def node_simps)
  note cut = d [unfolded dlist_cut_at]
  have keep_nxt: "nxt h' q = nxt h q" if "q \<in> set (head # us @ vs)" "q \<noteq> last (head # us)" for q
    using that by (metis h'_def nxt_upd_next nxt_upd_prev p)
  have keep_prv: "prv h' q = prv h q" if "q \<in> set (head # us @ vs)" "q \<noteq> hd (vs @ [head])" for q
    using that by (metis h'_def prv_upd_next prv_upd_prev n)
  have dist: "distinct (head # us @ vs)" and old: "chain h (head # us)" "chain h (vs @ [head])"
    using cut by auto
  note parts = cut_kept [OF dist old keep_nxt keep_prv]
  have link: "linked h' p n"
    using pdom ndom by (auto simp: linked_def h'_def node_simps)
  have null: "h' 0 = None"
    using only cut by (auto intro: changes_only_null)
  have "dlist h' head (us @ vs)"
    using cut parts link null unfolding dlist_cut p n by auto
  with run only show ?thesis by blast
qed

text \<open>The links of an element are its neighbours in the list, the head at both ends.\<close>

lemma dlist_neighbours:
  assumes "dlist h head (us @ x # vs)"
  shows "nxt h x = Some (hd (vs @ [head]))" "prv h x = Some (last (head # us))"
  using assms by (auto simp: dlist_cut_at linked_def)

lemma dlist_head_next: "dlist h head xs \<Longrightarrow> nxt h head = Some (hd (xs @ [head]))"
  using dlist_cut [of h head "[]" xs] by (simp add: linked_def)

lemma dlist_head_prev: "dlist h head xs \<Longrightarrow> prv h head = Some (last (head # xs))"
  using dlist_cut [of h head xs "[]"] by (simp add: linked_def)

lemma list_unlink_cut:
  assumes d: "dlist h head (us @ x # vs)"
  shows "\<exists>h'. list_unlink x h = Some h' \<and> dlist h' head (us @ vs) \<and>
           changes_only (set (head # us @ vs)) h h'"
proof -
  obtain h' where "list_del (last (head # us)) (hd (vs @ [head])) h = Some h'"
      "dlist h' head (us @ vs)" and ch: "changes_only {last (head # us), hd (vs @ [head])} h h'"
    using list_del_cut [OF d refl refl] by blast
  moreover have "changes_only (set (head # us @ vs)) h h'"
    using ch last_in_head [of head us] hd_in_head [of vs head]
    by (rule_tac changes_only_mono) auto
  ultimately show ?thesis
    using dlist_neighbours [OF d] by (simp add: list_unlink_def)
qed

section \<open>Operations\<close>

lemma ListHeadInit_dlist:
  assumes "head \<in> dom h" "h 0 = None"
  shows "\<exists>h'. ListHeadInit head h = Some h' \<and> dlist h' head [] \<and> changes_only {head} h h'"
proof -
  define h' where "h' = upd_prev head head (upd_next head head h)"
  have "ListHeadInit head h = Some h'"
    using assms by (simp add: ListHeadInit_def h'_def node_simps)
  moreover have only: "changes_only {head} h h'"
    by (simp add: h'_def node_simps)
  moreover have "dlist h' head []"
    using assms changes_only_null [OF only]
    by (auto simp: dlist_def linked_def h'_def node_simps)
  ultimately show ?thesis by blast
qed

text \<open>Insertion after the nodes \<open>us\<close>, which the three inserting operations share.\<close>

lemma list_insert_cut:
  assumes d: "dlist h head (us @ vs)" and "new \<in> dom h" "new \<notin> set (head # us @ vs)"
  shows "\<exists>h'. list_link new (last (head # us)) (hd (vs @ [head])) h = Some h' \<and>
           dlist h' head (us @ new # vs) \<and> changes_only (set (head # new # us @ vs)) h h'"
proof -
  obtain h' where h': "list_link new (last (head # us)) (hd (vs @ [head])) h = Some h'"
      "dlist h' head (us @ new # vs)"
      "changes_only {last (head # us), new, hd (vs @ [head])} h h'"
    using list_link_cut [OF assms refl refl] by blast
  moreover have "changes_only (set (head # new # us @ vs)) h h'"
    using h'(3) last_in_head [of head us] hd_in_head [of vs head]
    by (rule_tac changes_only_mono) auto
  ultimately show ?thesis by blast
qed

lemma ListAdd_dlist:
  assumes "dlist h head xs" "new \<in> dom h" "new \<notin> set (head # xs)"
  shows "\<exists>h'. ListAdd new head h = Some h' \<and> dlist h' head (new # xs) \<and>
           changes_only (set (head # new # xs)) h h'"
  using list_insert_cut [of h head "[]" xs new] assms dlist_head_next [OF assms(1)]
  by (simp add: ListAdd_def)

lemma ListAddTail_dlist:
  assumes "dlist h head xs" "new \<in> dom h" "new \<notin> set (head # xs)"
  shows "\<exists>h'. ListAddTail new head h = Some h' \<and> dlist h' head (xs @ [new]) \<and>
           changes_only (set (head # new # xs)) h h'"
  using list_insert_cut [of h head xs "[]" new] assms dlist_head_prev [OF assms(1)]
  by (simp add: ListAddTail_def)

lemma ListDel_dlist:
  assumes d: "dlist h head (us @ x # vs)"
  shows "\<exists>h'. ListDel x h = Some h' \<and> dlist h' head (us @ vs) \<and>
           changes_only (set (head # us @ x # vs)) h h' \<and> nxt h' x = Some 0 \<and> prv h' x = Some 0"
proof -
  obtain h1 where h1: "list_unlink x h = Some h1" "dlist h1 head (us @ vs)"
      "changes_only (set (head # us @ vs)) h h1"
    using list_unlink_cut [OF d] by blast
  define h' where "h' = upd_prev x 0 (upd_next x 0 h1)"
  have "x \<in> dom h" by (rule dlist_dom [OF d]) simp
  then have x: "x \<in> dom h1" using h1(3) by (simp add: changes_only_def)
  have run: "ListDel x h = Some h'"
    using h1(1) x by (simp add: ListDel_def h'_def node_simps)
  have only: "changes_only {x} h1 h'" by (simp add: h'_def node_simps)
  have "x \<notin> set (head # us @ vs)" using d by (auto simp: dlist_def)
  then have "dlist h' head (us @ vs)"
    by (intro dlist_changes_only [OF h1(2) only]) auto
  moreover have "changes_only (set (head # us @ x # vs)) h h'"
    by (rule changes_only_trans [OF h1(3) only]) auto
  moreover have "nxt h' x = Some 0" "prv h' x = Some 0"
    using x by (simp_all add: h'_def node_simps)
  ultimately show ?thesis using run by blast
qed

lemma ListDelInit_dlist:
  assumes d: "dlist h head (us @ x # vs)"
  shows "\<exists>h'. ListDelInit x h = Some h' \<and> dlist h' head (us @ vs) \<and> dlist h' x [] \<and>
           changes_only (set (head # us @ x # vs)) h h'"
proof -
  obtain h1 where h1: "list_unlink x h = Some h1" "dlist h1 head (us @ vs)"
      "changes_only (set (head # us @ vs)) h h1"
    using list_unlink_cut [OF d] by blast
  have "x \<in> dom h" by (rule dlist_dom [OF d]) simp
  then have "x \<in> dom h1" using h1(3) by (simp add: changes_only_def)
  moreover have "h1 0 = None" using h1(2) by (simp add: dlist_def)
  ultimately obtain h' where h': "ListHeadInit x h1 = Some h'" "dlist h' x []"
      "changes_only {x} h1 h'"
    using ListHeadInit_dlist by blast
  have "x \<notin> set (head # us @ vs)" using d by (auto simp: dlist_def)
  then have "dlist h' head (us @ vs)"
    by (intro dlist_changes_only [OF h1(2) h'(3)]) auto
  moreover have "changes_only (set (head # us @ x # vs)) h h'"
    by (rule changes_only_trans [OF h1(3) h'(3)]) auto
  ultimately show ?thesis using h1(1) h'(1,2) by (simp add: ListDelInit_def)
qed

end
