(* ===== verification/Node_List_Moves.thy ===== *)
theory Node_List_Moves
  imports Node_List_Ops
begin

text \<open>
  The operations of \<open>common_lib/usdl_list.c\<close> that replace a node, move it or join two lists, and
  the ones that find a node by its position.
\<close>

section \<open>Replacing a node\<close>

lemma ListReplace_dlist:
  assumes d: "dlist h head (us @ x # vs)" and new: "new \<in> dom h" "new \<notin> set (head # us @ x # vs)"
  shows "\<exists>h'. ListReplace x new h = Some h' \<and> dlist h' head (us @ new # vs) \<and>
           changes_only (set (head # new # us @ vs)) h h'"
proof -
  define p where "p = last (head # us)"
  define n where "n = hd (vs @ [head])"
  define h' where "h' = upd_next p new (upd_prev new p (upd_prev n new (upd_next new n h)))"
  note cut = d [unfolded dlist_cut_at]
  have pn: "p \<in> set (head # us)" "n \<in> set (head # vs)"
    by (simp_all only: p_def n_def last_in_head hd_in_head)
  have pdom: "p \<in> dom h" by (rule dlist_dom [OF d]) (use pn in auto)
  have ndom: "n \<in> dom h" by (rule dlist_dom [OF d]) (use pn in auto)
  have np: "new \<noteq> p" "new \<noteq> n" "x \<noteq> n" "x \<noteq> new" using new pn cut by auto
  have run: "ListReplace x new h = Some h'"
    using pdom ndom new(1) np dlist_neighbours [OF d, folded p_def n_def]
    by (simp add: ListReplace_def h'_def node_simps)
  have only: "changes_only (set (head # new # us @ vs)) h h'"
    using pn by (auto simp: h'_def node_simps)
  have keep_nxt: "nxt h' q = nxt h q" if "q \<in> set (head # us @ vs)" "q \<noteq> last (head # us)" for q
    using that new(2) by (auto simp: h'_def node_simps p_def)
  have keep_prv: "prv h' q = prv h q" if "q \<in> set (head # us @ vs)" "q \<noteq> hd (vs @ [head])" for q
    using that new(2) by (auto simp: h'_def node_simps n_def)
  have dist: "distinct (head # us @ vs)" and old: "chain h (head # us)" "chain h (vs @ [head])"
    using cut by auto
  note parts = cut_kept [OF dist old keep_nxt keep_prv]
  have links: "linked h' p new" "linked h' new n"
    using np pdom ndom new(1) by (auto simp: linked_def h'_def node_simps)
  have null: "h' 0 = None"
    using only cut by (auto intro: changes_only_null)
  have "dlist h' head (us @ new # vs)"
    using cut new(2) parts links null unfolding dlist_cut_at p_def n_def by auto
  with run only show ?thesis by blast
qed

section \<open>Moving a node\<close>

text \<open>Within a list the node moves to an end; from one list to another it leaves the one and
  enters the other.\<close>

lemma ListMove_dlist:
  assumes d: "dlist h head (us @ x # vs)"
  shows "\<exists>h'. ListMove x head h = Some h' \<and> dlist h' head (x # us @ vs) \<and>
           changes_only (set (head # us @ x # vs)) h h'"
proof -
  obtain h1 where h1: "list_unlink x h = Some h1" "dlist h1 head (us @ vs)"
      "changes_only (set (head # us @ vs)) h h1"
    using list_unlink_cut [OF d] by blast
  have "x \<in> dom h" by (rule dlist_dom [OF d]) simp
  then have "x \<in> dom h1" using h1(3) by (simp add: changes_only_def)
  moreover have "x \<notin> set (head # us @ vs)" using d by (auto simp: dlist_def)
  ultimately obtain h' where h': "ListAdd x head h1 = Some h'" "dlist h' head (x # us @ vs)"
      "changes_only (set (head # x # us @ vs)) h1 h'"
    using ListAdd_dlist [OF h1(2)] by blast
  have "changes_only (set (head # us @ x # vs)) h h'"
    by (rule changes_only_trans [OF h1(3) h'(3)]) auto
  with h1(1) h'(1,2) show ?thesis by (simp add: ListMove_def)
qed

lemma ListMoveTail_dlist:
  assumes d: "dlist h head (us @ x # vs)"
  shows "\<exists>h'. ListMoveTail x head h = Some h' \<and> dlist h' head (us @ vs @ [x]) \<and>
           changes_only (set (head # us @ x # vs)) h h'"
proof -
  obtain h1 where h1: "list_unlink x h = Some h1" "dlist h1 head (us @ vs)"
      "changes_only (set (head # us @ vs)) h h1"
    using list_unlink_cut [OF d] by blast
  have "x \<in> dom h" by (rule dlist_dom [OF d]) simp
  then have "x \<in> dom h1" using h1(3) by (simp add: changes_only_def)
  moreover have "x \<notin> set (head # us @ vs)" using d by (auto simp: dlist_def)
  ultimately obtain h' where h': "ListAddTail x head h1 = Some h'"
      "dlist h' head ((us @ vs) @ [x])" "changes_only (set (head # x # us @ vs)) h1 h'"
    using ListAddTail_dlist [OF h1(2)] by blast
  have "changes_only (set (head # us @ x # vs)) h h'"
    by (rule changes_only_trans [OF h1(3) h'(3)]) auto
  with h1(1) h'(1,2) show ?thesis by (simp add: ListMoveTail_def)
qed

lemma list_unlink_other:
  assumes d: "dlist h src (us @ x # vs)" and e: "dlist h head xs"
    and disj: "set (src # us @ x # vs) \<inter> set (head # xs) = {}"
  shows "\<exists>h'. list_unlink x h = Some h' \<and> dlist h' src (us @ vs) \<and> dlist h' head xs \<and>
           x \<in> dom h' \<and> changes_only (set (src # us @ vs)) h h'"
proof -
  obtain h' where h': "list_unlink x h = Some h'" "dlist h' src (us @ vs)"
      "changes_only (set (src # us @ vs)) h h'"
    using list_unlink_cut [OF d] by blast
  have "dlist h' head xs"
    by (rule dlist_changes_only [OF e h'(3)]) (use disj in auto)
  moreover have "x \<in> dom h" by (rule dlist_dom [OF d]) simp
  ultimately show ?thesis using h' by (auto simp: changes_only_def)
qed

lemma ListMove_other:
  assumes d: "dlist h src (us @ x # vs)" and e: "dlist h head xs"
    and disj: "set (src # us @ x # vs) \<inter> set (head # xs) = {}"
  shows "\<exists>h'. ListMove x head h = Some h' \<and> dlist h' src (us @ vs) \<and> dlist h' head (x # xs) \<and>
           changes_only (set (src # us @ x # vs) \<union> set (head # xs)) h h'"
proof -
  obtain h1 where h1: "list_unlink x h = Some h1" "dlist h1 src (us @ vs)" "dlist h1 head xs"
      "x \<in> dom h1" "changes_only (set (src # us @ vs)) h h1"
    using list_unlink_other [OF assms] by blast
  obtain h' where h': "ListAdd x head h1 = Some h'" "dlist h' head (x # xs)"
      "changes_only (set (head # x # xs)) h1 h'"
    using ListAdd_dlist [OF h1(3,4)] disj by auto
  have "x \<notin> set (src # us @ vs)" using d by (auto simp: dlist_def)
  then have "dlist h' src (us @ vs)"
    by (intro dlist_changes_only [OF h1(2) h'(3)]) (use disj in auto)
  moreover have "changes_only (set (src # us @ x # vs) \<union> set (head # xs)) h h'"
    by (rule changes_only_trans [OF h1(5) h'(3)]) auto
  ultimately show ?thesis using h1(1) h'(1,2) by (simp add: ListMove_def)
qed

lemma ListMoveTail_other:
  assumes d: "dlist h src (us @ x # vs)" and e: "dlist h head xs"
    and disj: "set (src # us @ x # vs) \<inter> set (head # xs) = {}"
  shows "\<exists>h'. ListMoveTail x head h = Some h' \<and> dlist h' src (us @ vs) \<and>
           dlist h' head (xs @ [x]) \<and>
           changes_only (set (src # us @ x # vs) \<union> set (head # xs)) h h'"
proof -
  obtain h1 where h1: "list_unlink x h = Some h1" "dlist h1 src (us @ vs)" "dlist h1 head xs"
      "x \<in> dom h1" "changes_only (set (src # us @ vs)) h h1"
    using list_unlink_other [OF assms] by blast
  obtain h' where h': "ListAddTail x head h1 = Some h'" "dlist h' head (xs @ [x])"
      "changes_only (set (head # x # xs)) h1 h'"
    using ListAddTail_dlist [OF h1(3,4)] disj by auto
  have "x \<notin> set (src # us @ vs)" using d by (auto simp: dlist_def)
  then have "dlist h' src (us @ vs)"
    by (intro dlist_changes_only [OF h1(2) h'(3)]) (use disj in auto)
  moreover have "changes_only (set (src # us @ x # vs) \<union> set (head # xs)) h h'"
    by (rule changes_only_trans [OF h1(5) h'(3)]) auto
  ultimately show ?thesis using h1(1) h'(1,2) by (simp add: ListMoveTail_def)
qed

section \<open>Joining two lists\<close>

lemma ListEmpty_dlist: "dlist h head xs \<Longrightarrow> ListEmpty head h = Some (xs = [])"
  using dlist_head_next [of h head xs] by (cases xs) (auto simp: ListEmpty_def dlist_def)

lemma dlist_chain: "dlist h head xs \<Longrightarrow> chain h xs"
  using dlist_cut [of h head "[]" xs] chain_join [of xs "[head]" h] by (cases "xs = []") auto

lemma list_splice_dlist:
  assumes d: "dlist h head xs" and e: "dlist h lst ys" and ne: "ys \<noteq> []"
    and disj: "set (lst # ys) \<inter> set (head # xs) = {}"
  shows "\<exists>h'. list_splice lst head h = Some h' \<and> dlist h' head (ys @ xs) \<and>
           changes_only (set (head # ys @ xs)) h h'"
proof -
  define first where "first = hd ys"
  define final where "final = last ys"
  define at where "at = hd (xs @ [head])"
  define h' where
    "h' = upd_prev at final (upd_next final at (upd_next head first (upd_prev first head h)))"
  have mem: "first \<in> set ys" "final \<in> set ys" "at \<in> set (head # xs)"
    using hd_in_set [OF ne] last_in_set [OF ne] hd_in_head [of xs head]
    unfolding first_def final_def at_def by blast+
  have doms: "first \<in> dom h" "final \<in> dom h"
    using mem by (auto intro!: dlist_dom [OF e] simp del: domIff)
  have doms': "at \<in> dom h" "head \<in> dom h"
    by (rule dlist_dom [OF d]; use mem in simp)+
  have heads: "nxt h lst = Some first" "prv h lst = Some final" "nxt h head = Some at"
    using dlist_head_next [OF e] dlist_head_prev [OF e] dlist_head_next [OF d] ne
    by (simp_all add: first_def final_def at_def)
  have run: "list_splice lst head h = Some h'"
    using doms doms' heads by (simp add: list_splice_def h'_def node_simps)
  have only: "changes_only (set (head # ys @ xs)) h h'"
    using mem by (auto simp: h'_def node_simps)
  have dist: "distinct (head # ys @ xs)"
    using d e disj by (auto simp: dlist_def)
  have nx: "nxt h' q = nxt h q" if "q \<noteq> head" "q \<noteq> final" for q
    using that by (simp add: h'_def node_simps)
  have pv: "prv h' q = prv h q" if "q \<noteq> first" "q \<noteq> at" for q
    using that by (simp add: h'_def node_simps)
  have "chain h' ys = chain h ys"
  proof (rule chain_cong)
    fix q assume q: "q \<in> set (butlast ys)"
    then have "q \<in> set ys" by (rule in_set_butlastD)
    moreover have "q \<noteq> final" using q dist unfolding final_def by (cases ys rule: rev_cases) auto
    ultimately show "nxt h' q = nxt h q" using dist by (intro nx) auto
  next
    fix q assume q: "q \<in> set (tl ys)"
    then have "q \<noteq> first" "q \<in> set ys" using dist unfolding first_def by (cases ys; auto)+
    moreover from this have "q \<noteq> at" using mem dist by auto
    ultimately show "prv h' q = prv h q" by (intro pv)
  qed
  then have c1: "chain h' ys" using dlist_chain [OF e] by simp
  have "chain h' (xs @ [head]) = chain h (xs @ [head])"
  proof (rule chain_cong)
    fix q assume "q \<in> set (butlast (xs @ [head]))"
    then show "nxt h' q = nxt h q" using dist mem by (intro nx) auto
  next
    fix q assume q: "q \<in> set (tl (xs @ [head]))"
    then have "q \<in> set (head # xs)" by (cases xs) auto
    moreover have "q \<noteq> at" using q dist unfolding at_def by (cases xs) auto
    ultimately show "prv h' q = prv h q" using mem dist by (intro pv) auto
  qed
  then have c2: "chain h' (xs @ [head])" using d dlist_cut [of h head "[]" xs] by simp
  have ne2: "first \<noteq> at" "final \<noteq> head" using mem dist by auto
  have links: "linked h' head (hd ys)" "linked h' (last ys) (hd (xs @ [head]))"
    using doms doms' ne2 unfolding first_def [symmetric] final_def [symmetric] at_def [symmetric]
    by (auto simp: linked_def h'_def node_simps)
  have null: "h' 0 = None"
    using changes_only_null [OF only] d by (simp add: dlist_def)
  have "chain h' ([head] @ ys @ (xs @ [head]))"
    using c1 c2 links ne by (simp add: chain_join del: append_Cons append.simps)
  with dist null have "dlist h' head (ys @ xs)" by (simp add: dlist_def)
  with run only show ?thesis by blast
qed

lemma ListSplice_dlist:
  assumes d: "dlist h head xs" and e: "dlist h lst ys"
    and disj: "set (lst # ys) \<inter> set (head # xs) = {}"
  shows "\<exists>h'. ListSplice lst head h = Some h' \<and> dlist h' head (ys @ xs) \<and>
           changes_only (set (head # ys @ xs)) h h'"
proof (cases "ys = []")
  case True
  with d show ?thesis by (simp add: ListSplice_def ListEmpty_dlist [OF e])
next
  case False
  with list_splice_dlist [OF d e False disj] show ?thesis
    by (simp add: ListSplice_def ListEmpty_dlist [OF e])
qed

lemma ListSpliceInit_dlist:
  assumes d: "dlist h head xs" and e: "dlist h lst ys"
    and disj: "set (lst # ys) \<inter> set (head # xs) = {}"
  shows "\<exists>h'. ListSpliceInit lst head h = Some h' \<and> dlist h' head (ys @ xs) \<and> dlist h' lst [] \<and>
           changes_only (set (lst # head # ys @ xs)) h h'"
proof (cases "ys = []")
  case True
  with d e show ?thesis by (simp add: ListSpliceInit_def ListEmpty_dlist [OF e])
next
  case False
  obtain h1 where h1: "list_splice lst head h = Some h1" "dlist h1 head (ys @ xs)"
      "changes_only (set (head # ys @ xs)) h h1"
    using list_splice_dlist [OF d e False disj] by blast
  have "lst \<in> dom h" by (rule dlist_dom [OF e]) simp
  then have "lst \<in> dom h1" using h1(3) by (simp add: changes_only_def)
  moreover have "h1 0 = None" using h1(2) by (simp add: dlist_def)
  ultimately obtain h' where h': "ListHeadInit lst h1 = Some h'" "dlist h' lst []"
      "changes_only {lst} h1 h'"
    using ListHeadInit_dlist by blast
  have "lst \<notin> set (head # ys @ xs)" using e disj by (auto simp: dlist_def)
  then have "dlist h' head (ys @ xs)"
    by (intro dlist_changes_only [OF h1(2) h'(3)]) auto
  moreover have "changes_only (set (lst # head # ys @ xs)) h h'"
    by (rule changes_only_trans [OF h1(3) h'(3)]) auto
  ultimately show ?thesis using h1(1) h'(1,2) False
    by (simp add: ListSpliceInit_def ListEmpty_dlist [OF e])
qed

end
