(* ===== verification/Node_List_Spec.thy ===== *)
theory Node_List_Spec
  imports Node_List_Moves
begin

text \<open>
  \<open>common_lib/usdl_list.c\<close> against lists of addresses: positions, the operations as functions on
  such lists, and any sequence of operations on a list as the same sequence on its abstraction.
\<close>

section \<open>Positions\<close>

text \<open>
  The position \<open>p\<close> of \<open>ListGet\<close> in a list of \<open>n\<close> nodes: how many nodes of the list stand before
  and at it. The head is position 0; positions count from the first node, or from the last one
  downwards.
\<close>

definition list_index :: "int \<Rightarrow> nat \<Rightarrow> nat option" where
  "list_index p n =
     (if p = 0 then Some 0
      else if 0 < p then (if nat p \<le> n then Some (nat p) else None)
      else if nat (- p) \<le> n then Some (n + 1 - nat (- p)) else None)"

lemma list_index_le: "list_index p n = Some k \<Longrightarrow> k \<le> n"
  by (auto simp: list_index_def split: if_splits)

lemma list_index_pos: "list_index p n = Some k \<Longrightarrow> p \<noteq> 0 \<Longrightarrow> 0 < k"
  by (auto simp: list_index_def split: if_splits)

lemma list_walk_next:
  "chain h (ys @ [head]) \<Longrightarrow> head \<notin> set ys \<Longrightarrow>
     list_walk (nxt h) head (Suc k) (hd (ys @ [head])) = Some (if k < length ys then ys ! k else 0)"
proof (induction ys arbitrary: k)
  case (Cons y ys)
  have link: "nxt h y = Some (hd (ys @ [head]))" "chain h (ys @ [head])"
    using Cons.prems chain_join [of "[y]" "ys @ [head]" h] by (auto simp: linked_def)
  show ?case
  proof (cases k)
    case 0
    with Cons.prems show ?thesis by auto
  next
    case (Suc j)
    have "list_walk (nxt h) head (Suc j) (hd (ys @ [head])) =
        Some (if j < length ys then ys ! j else 0)"
      using Cons.prems link(2) by (intro Cons.IH) auto
    with Suc Cons.prems link(1) show ?thesis by auto
  qed
qed simp

lemma list_walk_prev:
  "chain h (head # ys) \<Longrightarrow> head \<notin> set ys \<Longrightarrow>
     list_walk (prv h) head (Suc k) (last (head # ys)) =
       Some (if k < length ys then ys ! (length ys - Suc k) else 0)"
proof (induction ys arbitrary: k rule: rev_induct)
  case (snoc y ys)
  have link: "prv h y = Some (last (head # ys))" "chain h (head # ys)"
    using snoc.prems chain_join [of "head # ys" "[y]" h] by (auto simp: linked_def)
  show ?case
  proof (cases k)
    case 0
    with snoc.prems show ?thesis by auto
  next
    case (Suc j)
    have "list_walk (prv h) head (Suc j) (last (head # ys)) =
        Some (if j < length ys then ys ! (length ys - Suc j) else 0)"
      using snoc.prems link(2) by (intro snoc.IH) auto
    with Suc snoc.prems link(1) show ?thesis by (auto simp: nth_append)
  qed
qed simp

lemma ListGet_dlist:
  assumes d: "dlist h head xs"
  shows "ListGet head p h =
    Some (case list_index p (length xs) of None \<Rightarrow> 0 | Some k \<Rightarrow> (head # xs) ! k)"
proof -
  have head: "head \<notin> set xs" and next_chain: "chain h (xs @ [head])" and prev_chain: "chain h (head # xs)"
    using d dlist_cut [of h head "[]" xs] dlist_cut [of h head xs "[]"] by (auto simp: dlist_def)
  consider "p = 0" | j where "p = 1 + int j" | j where "p = - 1 - int j"
  proof (cases "0 < p")
    case True
    then have "p = 1 + int (nat (p - 1))" by simp
    then show ?thesis using that(2) by blast
  next
    case False
    then have "p = 0 \<or> p = - 1 - int (nat (- p - 1))" by auto
    then show ?thesis using that(1,3) by blast
  qed
  then show ?thesis
  proof cases
    case 1
    then show ?thesis by (simp add: ListGet_def list_index_def)
  next
    case 2
    then have n: "nat p = Suc j" "0 < p" "p \<noteq> 0" by auto
    show ?thesis
      using n dlist_head_next [OF d] list_walk_next [OF next_chain head, of j]
      by (auto simp: ListGet_def list_index_def)
  next
    case 3
    then have n: "nat (- p) = Suc j" "\<not> 0 < p" "p \<noteq> 0" by auto
    have idx: "(head # xs) ! (length xs + 1 - Suc j) = xs ! (length xs - Suc j)" if "j < length xs"
      using that by (simp add: nth_Cons')
    show ?thesis
      using n dlist_head_prev [OF d] list_walk_prev [OF prev_chain head, of j] idx
      by (auto simp: ListGet_def list_index_def)
  qed
qed

text \<open>The node at an index ends the part of the list up to it.\<close>

lemma nth_last_take: "k \<le> length xs \<Longrightarrow> (a # xs) ! k = last (a # take k xs)"
  by (cases k) (auto simp: last_conv_nth)

lemma ListInsert_dlist:
  assumes d: "dlist h head xs" and new: "new \<in> dom h" "new \<notin> set (head # xs)"
    and k: "list_index p (length xs) = Some k"
  shows "\<exists>h'. ListInsert head p new h = Some (True, h') \<and>
           dlist h' head (take k xs @ new # drop k xs) \<and>
           changes_only (set (head # new # xs)) h h'"
proof -
  let ?at = "last (head # take k xs)"
  have d': "dlist h head (take k xs @ drop k xs)" using d by simp
  have get: "ListGet head p h = Some ?at"
    using ListGet_dlist [OF d, of p] k nth_last_take [OF list_index_le [OF k], of head] by simp
  have at: "?at \<in> set (head # xs)"
    using last_in_head [of head "take k xs"] by (auto dest: in_set_takeD)
  have nz: "?at \<noteq> 0" by (rule dlist_not_null [OF d at])
  have nx: "nxt h ?at = Some (hd (drop k xs @ [head]))"
    using d' unfolding dlist_cut linked_def by blast
  obtain h' where "list_link new ?at (hd (drop k xs @ [head])) h = Some h'"
      "dlist h' head (take k xs @ new # drop k xs)"
      "changes_only (set (head # new # take k xs @ drop k xs)) h h'"
    using list_insert_cut [OF d' new(1)] new(2) by (metis append_take_drop_id)
  with get nz nx show ?thesis
    by (simp only: ListInsert_def append_take_drop_id bind.bind_lunit if_False) simp
qed

lemma ListInsert_outside:
  "dlist h head xs \<Longrightarrow> list_index p (length xs) = None \<Longrightarrow>
     ListInsert head p new h = Some (False, h)"
  using ListGet_dlist [of h head xs p] by (simp add: ListInsert_def)

lemma ListDelByPosition_dlist:
  assumes d: "dlist h head xs" and k: "list_index p (length xs) = Some (Suc k)"
  shows "\<exists>h'. ListDelByPosition head p h = Some (True, h') \<and>
           dlist h' head (take k xs @ drop (Suc k) xs) \<and>
           changes_only (set (head # xs)) h h'"
proof -
  have lt: "k < length xs" using list_index_le [OF k] by simp
  have split: "take k xs @ xs ! k # drop (Suc k) xs = xs"
    using id_take_nth_drop [OF lt] by simp
  have d': "dlist h head (take k xs @ xs ! k # drop (Suc k) xs)"
    using d split by simp
  have get: "ListGet head p h = Some (xs ! k)"
    using ListGet_dlist [OF d, of p] k by simp
  have nz: "xs ! k \<noteq> 0" by (rule dlist_not_null [OF d]) (use lt in simp)
  show ?thesis
    using ListDel_dlist [OF d'] get nz split by (auto simp: ListDelByPosition_def)
qed

lemma ListDelByPosition_outside:
  "dlist h head xs \<Longrightarrow> list_index p (length xs) = None \<Longrightarrow>
     ListDelByPosition head p h = Some (False, h)"
  using ListGet_dlist [of h head xs p] by (simp add: ListDelByPosition_def)

section \<open>Sequences of operations on one list\<close>

datatype list_op =
    Op_Add addr | Op_AddTail addr | Op_Insert int addr | Op_Replace addr addr
  | Op_Del addr | Op_DelInit addr | Op_DelAt int | Op_Move addr | Op_MoveTail addr

definition returning :: "bool \<Rightarrow> node_heap option \<Rightarrow> (bool \<times> node_heap) option" where
  "returning r = map_option (Pair r)"

fun list_exec :: "addr \<Rightarrow> list_op \<Rightarrow> node_heap \<Rightarrow> (bool \<times> node_heap) option" where
  "list_exec head (Op_Add n) h = returning True (ListAdd n head h)"
| "list_exec head (Op_AddTail n) h = returning True (ListAddTail n head h)"
| "list_exec head (Op_Insert p n) h = ListInsert head p n h"
| "list_exec head (Op_Replace x n) h = returning True (ListReplace x n h)"
| "list_exec head (Op_Del x) h = returning True (ListDel x h)"
| "list_exec head (Op_DelInit x) h = returning True (ListDelInit x h)"
| "list_exec head (Op_DelAt p) h = ListDelByPosition head p h"
| "list_exec head (Op_Move x) h = returning True (ListMove x head h)"
| "list_exec head (Op_MoveTail x) h = returning True (ListMoveTail x head h)"

fun list_execs :: "addr \<Rightarrow> list_op list \<Rightarrow> node_heap \<Rightarrow> (bool list \<times> node_heap) option" where
  "list_execs head [] h = Some ([], h)"
| "list_execs head (c # cs) h = do {
     (r, h) \<leftarrow> list_exec head c h;
     (rs, h) \<leftarrow> list_execs head cs h;
     Some (r # rs, h) }"

text \<open>
  What the operations promise, on the list of addresses. \<open>None\<close> is a call the interface does not
  allow: a new node that is no node or hangs on the list already, a node that is not on the
  list, position 0 for a deletion. \<open>ok\<close> says which new nodes exist.
\<close>

fun list_spec :: "(addr \<Rightarrow> bool) \<Rightarrow> addr \<Rightarrow> list_op \<Rightarrow> addr list \<Rightarrow> (bool \<times> addr list) option" where
  "list_spec ok head (Op_Add n) xs =
     (if ok n \<and> n \<notin> set (head # xs) then Some (True, n # xs) else None)"
| "list_spec ok head (Op_AddTail n) xs =
     (if ok n \<and> n \<notin> set (head # xs) then Some (True, xs @ [n]) else None)"
| "list_spec ok head (Op_Insert p n) xs =
     (if ok n \<and> n \<notin> set (head # xs)
      then (case list_index p (length xs) of
              None \<Rightarrow> Some (False, xs)
            | Some k \<Rightarrow> Some (True, take k xs @ n # drop k xs))
      else None)"
| "list_spec ok head (Op_Replace x n) xs =
     (if ok n \<and> n \<notin> set (head # xs) \<and> x \<in> set xs
      then Some (True, map (\<lambda>y. if y = x then n else y) xs) else None)"
| "list_spec ok head (Op_Del x) xs =
     (if x \<in> set xs then Some (True, remove1 x xs) else None)"
| "list_spec ok head (Op_DelInit x) xs =
     (if x \<in> set xs then Some (True, remove1 x xs) else None)"
| "list_spec ok head (Op_DelAt p) xs =
     (if p = 0 then None
      else case list_index p (length xs) of
             None \<Rightarrow> Some (False, xs)
           | Some k \<Rightarrow> Some (True, take (k - 1) xs @ drop k xs))"
| "list_spec ok head (Op_Move x) xs =
     (if x \<in> set xs then Some (True, x # remove1 x xs) else None)"
| "list_spec ok head (Op_MoveTail x) xs =
     (if x \<in> set xs then Some (True, remove1 x xs @ [x]) else None)"

fun list_specs ::
  "(addr \<Rightarrow> bool) \<Rightarrow> addr \<Rightarrow> list_op list \<Rightarrow> addr list \<Rightarrow> (bool list \<times> addr list) option" where
  "list_specs ok head [] xs = Some ([], xs)"
| "list_specs ok head (c # cs) xs = do {
     (r, xs) \<leftarrow> list_spec ok head c xs;
     (rs, xs) \<leftarrow> list_specs ok head cs xs;
     Some (r # rs, xs) }"

definition allocated :: "node_heap \<Rightarrow> addr \<Rightarrow> bool" where
  "allocated h p \<longleftrightarrow> h p \<noteq> None"

lemma allocated_dom: "allocated h p \<longleftrightarrow> p \<in> dom h"
  by (auto simp: allocated_def)

lemma changes_only_allocated: "changes_only A h h' \<Longrightarrow> allocated h' = allocated h"
  by (auto simp: allocated_dom changes_only_def)

lemma dlist_split:
  assumes "dlist h head xs" "x \<in> set xs"
  obtains us vs where "xs = us @ x # vs" "x \<notin> set us" "remove1 x xs = us @ vs"
    "\<And>n. map (\<lambda>y. if y = x then n else y) xs = us @ n # vs"
proof -
  obtain us vs where xs: "xs = us @ x # vs" "x \<notin> set us"
    using assms(2) by (meson split_list_first)
  moreover have "x \<notin> set vs" using assms(1) xs(1) by (simp add: dlist_def)
  ultimately show ?thesis
    by (intro that [of us vs]) (auto simp: remove1_append intro!: map_idI)
qed

text \<open>One operation: from a list that satisfies the specification's precondition the code
  returns, leaves the specified list and touches nothing else.\<close>

lemma list_exec_refines:
  assumes d: "dlist h head xs" and s: "list_spec (allocated h) head c xs = Some (r, xs')"
  shows "\<exists>h'. list_exec head c h = Some (r, h') \<and> dlist h' head xs' \<and> allocated h' = allocated h"
proof -
  have on: thesis if "x \<in> set xs" "\<And>us vs. xs = us @ x # vs \<Longrightarrow> remove1 x xs = us @ vs \<Longrightarrow>
      (\<And>n. map (\<lambda>y. if y = x then n else y) xs = us @ n # vs) \<Longrightarrow> thesis" for x thesis
    using dlist_split [OF d that(1)] that(2) by blast
  show ?thesis
  proof (cases c)
    case (Op_Add n)
    with s have "n \<in> dom h" "n \<notin> set (head # xs)" "r" "xs' = n # xs"
      by (auto simp: allocated_dom split: if_splits)
    with Op_Add ListAdd_dlist [OF d] changes_only_allocated show ?thesis
      by (fastforce simp: returning_def)
  next
    case (Op_AddTail n)
    with s have "n \<in> dom h" "n \<notin> set (head # xs)" "r" "xs' = xs @ [n]"
      by (auto simp: allocated_dom split: if_splits)
    with Op_AddTail ListAddTail_dlist [OF d] changes_only_allocated show ?thesis
      by (fastforce simp: returning_def)
  next
    case (Op_Insert p n)
    with s have n: "n \<in> dom h" "n \<notin> set (head # xs)"
      by (auto simp: allocated_dom split: if_splits)
    show ?thesis
    proof (cases "list_index p (length xs)")
      case None
      with s Op_Insert n ListInsert_outside [OF d None] d show ?thesis
        by (auto simp: allocated_dom)
    next
      case (Some k)
      with s Op_Insert n have "r" "xs' = take k xs @ n # drop k xs"
        by (auto simp: allocated_dom)
      with Op_Insert ListInsert_dlist [OF d n Some] changes_only_allocated show ?thesis
        by fastforce
    qed
  next
    case (Op_Replace x n)
    with s have n: "n \<in> dom h" "n \<notin> set (head # xs)" "x \<in> set xs" "r"
        "xs' = map (\<lambda>y. if y = x then n else y) xs"
      by (auto simp: allocated_dom split: if_splits)
    from n(3) show ?thesis
    proof (rule on)
      fix us vs assume xs: "xs = us @ x # vs" "\<And>n. map (\<lambda>y. if y = x then n else y) xs = us @ n # vs"
      have "n \<notin> set (head # us @ x # vs)" using n(2) xs(1) by simp
      from ListReplace_dlist [OF d [unfolded xs(1)] n(1) this] xs(2) n(4,5) Op_Replace
        changes_only_allocated
      show ?thesis by (fastforce simp: returning_def)
    qed
  next
    case (Op_Del x)
    with s have x: "x \<in> set xs" "r" "xs' = remove1 x xs" by (auto split: if_splits)
    from x(1) show ?thesis
    proof (rule on)
      fix us vs assume xs: "xs = us @ x # vs" "remove1 x xs = us @ vs"
      from ListDel_dlist [OF d [unfolded xs(1)]] xs(2) x Op_Del changes_only_allocated
      show ?thesis by (fastforce simp: returning_def)
    qed
  next
    case (Op_DelInit x)
    with s have x: "x \<in> set xs" "r" "xs' = remove1 x xs" by (auto split: if_splits)
    from x(1) show ?thesis
    proof (rule on)
      fix us vs assume xs: "xs = us @ x # vs" "remove1 x xs = us @ vs"
      from ListDelInit_dlist [OF d [unfolded xs(1)]] xs(2) x Op_DelInit changes_only_allocated
      show ?thesis by (fastforce simp: returning_def)
    qed
  next
    case (Op_DelAt p)
    with s have p: "p \<noteq> 0" by (auto split: if_splits)
    show ?thesis
    proof (cases "list_index p (length xs)")
      case None
      with s Op_DelAt p ListDelByPosition_outside [OF d None] d show ?thesis by auto
    next
      case (Some k)
      with list_index_pos [OF Some p] obtain j where j: "k = Suc j" by (cases k) auto
      with Some s Op_DelAt p have "r" "xs' = take j xs @ drop (Suc j) xs" by auto
      with Op_DelAt ListDelByPosition_dlist [OF d Some [unfolded j]] changes_only_allocated
      show ?thesis by fastforce
    qed
  next
    case (Op_Move x)
    with s have x: "x \<in> set xs" "r" "xs' = x # remove1 x xs" by (auto split: if_splits)
    from x(1) show ?thesis
    proof (rule on)
      fix us vs assume xs: "xs = us @ x # vs" "remove1 x xs = us @ vs"
      from ListMove_dlist [OF d [unfolded xs(1)]] xs(2) x Op_Move changes_only_allocated
      show ?thesis by (fastforce simp: returning_def)
    qed
  next
    case (Op_MoveTail x)
    with s have x: "x \<in> set xs" "r" "xs' = remove1 x xs @ [x]" by (auto split: if_splits)
    from x(1) show ?thesis
    proof (rule on)
      fix us vs assume xs: "xs = us @ x # vs" "remove1 x xs = us @ vs"
      from ListMoveTail_dlist [OF d [unfolded xs(1)]] xs(2) x Op_MoveTail changes_only_allocated
      show ?thesis by (fastforce simp: returning_def)
    qed
  qed
qed

lemma list_execs_refine:
  "dlist h head xs \<Longrightarrow> list_specs (allocated h) head cs xs = Some (rs, xs') \<Longrightarrow>
     \<exists>h'. list_execs head cs h = Some (rs, h') \<and> dlist h' head xs' \<and> allocated h' = allocated h"
proof (induction cs arbitrary: h xs rs)
  case (Cons c cs)
  obtain r ys rs' where spec: "list_spec (allocated h) head c xs = Some (r, ys)"
      "list_specs (allocated h) head cs ys = Some (rs', xs')" "rs = r # rs'"
    using Cons.prems(2) by (auto split: bind_splits)
  obtain h1 where h1: "list_exec head c h = Some (r, h1)" "dlist h1 head ys"
      "allocated h1 = allocated h"
    using list_exec_refines [OF Cons.prems(1) spec(1)] by blast
  obtain h' where "list_execs head cs h1 = Some (rs', h')" "dlist h' head xs'"
      "allocated h' = allocated h1"
    using Cons.IH [OF h1(2)] spec(2) h1(3) by fastforce
  with h1 spec(3) show ?case by simp
qed simp

section \<open>Properties\<close>

text \<open>A memory for the witnesses: a list 1 with the nodes 2 and 3, an empty list 4, and a node 5
  that hangs on nothing.\<close>

definition list_demo :: node_heap where
  "list_demo = [1 \<mapsto> \<lparr>node_next = 2, node_prev = 3\<rparr>, 2 \<mapsto> \<lparr>node_next = 3, node_prev = 1\<rparr>,
     3 \<mapsto> \<lparr>node_next = 1, node_prev = 2\<rparr>, 4 \<mapsto> \<lparr>node_next = 4, node_prev = 4\<rparr>,
     5 \<mapsto> \<lparr>node_next = 0, node_prev = 0\<rparr>]"

lemma list_demo_lists: "dlist list_demo 1 [2, 3]" "dlist list_demo 4 []"
  by (simp_all add: dlist_def list_demo_def linked_def nxt_def prv_def)

lemma list_demo_allocated: "allocated list_demo 5"
  by (simp add: allocated_def list_demo_def)

text \<open>C25: any sequence of the list operations on a well formed list, each called as the
  interface allows, runs without a stray access, returns what the same operations on the plain
  list of addresses return, and leaves a well formed list of the addresses they leave.\<close>

theorem list_operations_refine:
  assumes "dlist h head xs" and "list_specs (allocated h) head cs xs = Some (rs, xs')"
  shows "\<exists>h'. list_execs head cs h = Some (rs, h') \<and> dlist h' head xs'"
  using list_execs_refine [OF assms] by blast

lemma list_operations_refine_witness:
  "\<exists>h'. list_execs 1 [Op_Add 5, Op_MoveTail 2, Op_DelAt (- 2), Op_Insert 7 3, Op_Del 5] list_demo
      = Some ([True, True, True, False, True], h') \<and> dlist h' 1 [2]"
  by (rule list_operations_refine [OF list_demo_lists(1)])
    (simp add: list_demo_allocated list_index_def allocated_def list_demo_def)

text \<open>C26: moving a node from one list to another, to its front or to its end, and splicing a
  whole list into another keep every list well formed: the node leaves the one and enters the
  other, the spliced list comes before the nodes that were there and its own head is left empty,
  and a third list that shares no node with the two is not changed.\<close>

theorem list_transfer_kept:
  assumes "dlist h src (us @ x # vs)" "dlist h head xs" "dlist h other zs"
    and "distinct ((src # us @ x # vs) @ (head # xs) @ (other # zs))"
  shows "(\<exists>h'. ListMove x head h = Some h' \<and> dlist h' src (us @ vs) \<and> dlist h' head (x # xs) \<and>
            dlist h' other zs) \<and>
         (\<exists>h'. ListMoveTail x head h = Some h' \<and> dlist h' src (us @ vs) \<and>
            dlist h' head (xs @ [x]) \<and> dlist h' other zs) \<and>
         (\<exists>h'. ListSpliceInit src head h = Some h' \<and> dlist h' src [] \<and>
            dlist h' head ((us @ x # vs) @ xs) \<and> dlist h' other zs)"
proof -
  have disj: "set (src # us @ x # vs) \<inter> set (head # xs) = {}"
    using assms(4) by auto
  have other: "dlist h' other zs" if "changes_only A h h'" "A \<subseteq> set (src # us @ x # vs) \<union> set (head # xs)"
    for A h'
    by (rule dlist_changes_only [OF assms(3) that(1)]) (use that(2) assms(4) in auto)
  show ?thesis
    using ListMove_other [OF assms(1,2) disj] ListMoveTail_other [OF assms(1,2) disj]
      ListSpliceInit_dlist [OF assms(2,1) disj]
    by (intro conjI) (elim exE conjE; intro exI conjI; (assumption | erule other, fastforce))+
qed

lemma list_transfer_kept_witness:
  "\<exists>h'. ListMove 3 4 (list_demo(6 \<mapsto> \<lparr>node_next = 6, node_prev = 6\<rparr>)) = Some h' \<and>
     dlist h' 1 [2] \<and> dlist h' 4 [3] \<and> dlist h' 6 []"
  using list_transfer_kept [of "list_demo(6 \<mapsto> \<lparr>node_next = 6, node_prev = 6\<rparr>)" 1 "[2]" 3 "[]" 4 "[]" 6 "[]"]
  by (simp add: dlist_def list_demo_def linked_def nxt_def prv_def)

text \<open>\<open>ListGet\<close> finds the nodes of a well formed list by position: 0 is the head, 1, 2, ... the
  nodes from the first on, -1, -2, ... the nodes from the last on, and every position beyond the
  length in either direction is NULL.\<close>

theorem ListGet_position:
  assumes d: "dlist h head xs"
  shows "ListGet head 0 h = Some head \<and>
    (\<forall>k < length xs. ListGet head (int k + 1) h = Some (xs ! k) \<and>
       ListGet head (- int k - 1) h = Some (rev xs ! k)) \<and>
    (\<forall>p. int (length xs) < \<bar>p\<bar> \<longrightarrow> ListGet head p h = Some 0)"
proof (intro conjI allI impI)
  show "ListGet head 0 h = Some head"
    using ListGet_dlist [OF d] by (simp add: list_index_def)
next
  fix k assume k: "k < length xs"
  show "ListGet head (int k + 1) h = Some (xs ! k)"
    using k ListGet_dlist [OF d, of "int k + 1"] by (simp add: list_index_def nat_add_distrib)
  have "nat (1 + int k) = Suc k" by simp
  then show "ListGet head (- int k - 1) h = Some (rev xs ! k)"
    using k ListGet_dlist [OF d, of "- int k - 1"]
    by (simp add: list_index_def rev_nth nth_Cons' add.commute)
next
  fix p :: int assume "int (length xs) < \<bar>p\<bar>"
  then show "ListGet head p h = Some 0"
    using ListGet_dlist [OF d, of p] by (auto simp: list_index_def split: if_splits)
qed

lemma ListGet_position_witness:
  "ListGet 1 2 list_demo = Some 3 \<and> ListGet 1 (- 2) list_demo = Some 2 \<and> ListGet 1 3 list_demo = Some 0"
  using ListGet_position [OF list_demo_lists(1)] by (auto simp: less_Suc_eq dest: spec [of _ 1] spec [of _ "3 :: int"])

lemma list_link_null:
  assumes "h 0 = None"
  shows "list_link new p 0 h = None" "list_link new 0 n h = None"
proof -
  have keep: "h1 0 = None" if "set_prev q v h' = Some h1 \<or> set_next q v h' = Some h1" "h' 0 = None"
    for q v h' h1
    using that by (auto simp: set_prev_def set_next_def split: bind_splits)
  show "list_link new p 0 h = None"
    using assms by (simp add: list_link_def set_prev_def)
  show "list_link new 0 n h = None"
    unfolding list_link_def
    by (auto simp: set_next_def [of 0] split: bind_splits dest!: keep [OF disjI1] keep [OF disjI2]
      intro: assms)
qed

text \<open>\<open>ListDelByPosition\<close> at position 0, which its description says fails, takes the head
  out of its own list and reports success: the head is left with two NULL links, the next
  insertion at that head writes through NULL, and the search for a second node reads it.\<close>

theorem ListDelByPosition_zero:
  assumes d: "dlist h head xs"
  shows "\<exists>h'. ListDelByPosition head 0 h = Some (True, h') \<and>
    nxt h' head = Some 0 \<and> prv h' head = Some 0 \<and>
    ListAdd new head h' = None \<and> ListAddTail new head h' = None \<and>
    ListGet head 1 h' = Some 0 \<and> ListGet head 2 h' = None"
proof -
  define n where "n = hd (xs @ [head])"
  define p where "p = last (head # xs)"
  define h' where "h' = upd_prev head 0 (upd_next head 0 (upd_next p n (upd_prev n p h)))"
  have links: "nxt h head = Some n" "prv h head = Some p"
    using dlist_head_next [OF d] dlist_head_prev [OF d] by (simp_all add: n_def p_def)
  have hd: "head \<in> dom h" "head \<noteq> 0" by (rule dlist_dom [OF d] dlist_not_null [OF d], simp)+
  have "n \<in> set (head # xs)" "p \<in> set (head # xs)"
    by (simp_all only: p_def n_def last_in_head hd_in_head)
  then have pn: "n \<in> dom h" "p \<in> dom h" by (auto intro!: dlist_dom [OF d] simp del: domIff)
  have run: "ListDel head h = Some h'"
    using links hd pn by (simp add: ListDel_def list_unlink_def list_del_def h'_def node_simps)
  have nulls: "nxt h' head = Some 0" "prv h' head = Some 0"
    using hd by (simp_all add: h'_def node_simps)
  have "dom h' = dom h" by (simp add: h'_def node_simps)
  then have none: "h' 0 = None" using d by (metis dlist_def domIff)
  have add: "ListAdd new head h' = None" "ListAddTail new head h' = None"
    using nulls list_link_null [of h', OF none] by (simp_all add: ListAdd_def ListAddTail_def)
  have get: "ListGet head 1 h' = Some 0" "ListGet head 2 h' = None"
    using nulls hd(2) none by (simp_all add: ListGet_def numeral_2_eq_2 nxt_def [of h' 0])
  show ?thesis
    using run nulls add get hd(2) by (simp add: ListDelByPosition_def ListGet_def)
qed

lemma ListDelByPosition_zero_witness:
  "\<exists>h'. ListDelByPosition 1 0 list_demo = Some (True, h') \<and> ListGet 1 2 h' = None"
  using ListDelByPosition_zero [OF list_demo_lists(1)] by blast

end
