(* ===== verification/C_String.thy ===== *)
theory C_String
  imports Firmware_Prelude
begin

text \<open>
  The string functions of \<open>common_lib/usdl_string.c\<close>. A pointer is the list of the bytes from where
  it points to the end of its object; an increment drops the first byte and a read past the end is
  \<open>None\<close>. A result that points into the argument is its offset, NULL is \<open>None\<close> inside the result.
  Destination and source of the copying functions are different objects. Offsets and lengths are
  natural numbers, an object is smaller than the address space.
\<close>

section \<open>Copying\<close>

fun StrCpy :: "u8 list \<Rightarrow> u8 list \<Rightarrow> u8 list option" where
  "StrCpy (d # ds) (c # cs) = (if c \<noteq> 0 then map_option ((#) c) (StrCpy ds cs) else Some (0 # ds))"
| "StrCpy _ _ = None"

text \<open>\<open>while (--n > 0) *d++ = 0\<close>, with \<open>n\<close> already decremented.\<close>

fun str_fill :: "nat \<Rightarrow> u8 list \<Rightarrow> u8 list option" where
  "str_fill 0 ds = Some ds"
| "str_fill (Suc n) (d # ds) = map_option ((#) 0) (str_fill n ds)"
| "str_fill (Suc n) [] = None"

fun str_ncopy :: "nat \<Rightarrow> u8 list \<Rightarrow> u8 list \<Rightarrow> u8 list option" where
  "str_ncopy (Suc n) (d # ds) (c # cs) =
     (if c \<noteq> 0 then (if n = 0 then Some (c # ds) else map_option ((#) c) (str_ncopy n ds cs))
      else map_option ((#) 0) (str_fill n ds))"
| "str_ncopy n ds cs = (if n = 0 then Some ds else None)"

definition StrNCpy :: "u8 list \<Rightarrow> u8 list \<Rightarrow> u32 \<Rightarrow> u8 list option" where
  "StrNCpy dst src n = str_ncopy (unat n) dst src"

fun StrCat :: "u8 list \<Rightarrow> u8 list \<Rightarrow> u8 list option" where
  "StrCat (d # ds) str = (if d \<noteq> 0 then map_option ((#) d) (StrCat ds str) else StrCpy (d # ds) str)"
| "StrCat [] str = None"

text \<open>The loop that appends at most \<open>n\<close> bytes; it is entered with \<open>0 < n\<close>.\<close>

fun str_nappend :: "nat \<Rightarrow> u8 list \<Rightarrow> u8 list \<Rightarrow> u8 list option" where
  "str_nappend (Suc n) (d # ds) (c # cs) =
     (if c = 0 then Some (0 # ds)
      else if n > 0 then map_option ((#) c) (str_nappend n ds cs)
      else map_option ((#) c) (wr ds 0 0))"
| "str_nappend _ _ _ = None"

fun str_ncat :: "nat \<Rightarrow> u8 list \<Rightarrow> u8 list \<Rightarrow> u8 list option" where
  "str_ncat n (d # ds) src = (if d \<noteq> 0 then map_option ((#) d) (str_ncat n ds src) else str_nappend n (d # ds) src)"
| "str_ncat n [] src = None"

definition StrNCat :: "u8 list \<Rightarrow> u8 list \<Rightarrow> u32 \<Rightarrow> u8 list option" where
  "StrNCat dst src n = (if n \<noteq> 0 then str_ncat (unat n) dst src else Some dst)"

section \<open>Lengths\<close>

fun str_end :: "u8 list \<Rightarrow> nat option" where
  "str_end (c # cs) = (if c \<noteq> 0 then map_option Suc (str_end cs) else Some 0)"
| "str_end [] = None"

definition StrLen :: "u8 list \<Rightarrow> u32 option" where
  "StrLen str = map_option of_nat (str_end str)"

fun str_nlen :: "u32 \<Rightarrow> u32 \<Rightarrow> u8 list \<Rightarrow> u32 option" where
  "str_nlen max_len re_len (c # cs) =
     (if c \<noteq> 0 then (if re_len + 1 \<ge> max_len then Some max_len else str_nlen max_len (re_len + 1) cs)
      else Some re_len)"
| "str_nlen max_len re_len [] = None"

definition StrNLen :: "u8 list \<Rightarrow> u32 \<Rightarrow> u32 option" where
  "StrNLen str max_len = str_nlen max_len 0 str"

section \<open>Comparison\<close>

text \<open>A result of type \<open>s8\<close> is a byte, its value the \<open>sint\<close> of it; \<open>StrNCmp\<close> alone returns a \<open>u32\<close>.\<close>

fun StrCmp :: "u8 list \<Rightarrow> u8 list \<Rightarrow> u8 option" where
  "StrCmp (a # as) (b # bs) = (if a = b then (if a = 0 then Some 0 else StrCmp as bs) else Some (a - b))"
| "StrCmp _ _ = None"

definition fold_case :: "u8 \<Rightarrow> u8" where
  "fold_case c = (if c \<ge> 0x41 \<and> c \<le> 0x5A then c + 0x20 else c)"

fun StrICmp :: "u8 list \<Rightarrow> u8 list \<Rightarrow> u8 option" where
  "StrICmp (a # as) (b # bs) = (let ch1 = fold_case a; ch2 = fold_case b in
     if ch1 \<noteq> 0 \<and> ch1 = ch2 then StrICmp as bs else Some (ch1 - ch2))"
| "StrICmp _ _ = None"

fun str_ncmp :: "nat \<Rightarrow> u8 list \<Rightarrow> u8 list \<Rightarrow> u32 option" where
  "str_ncmp (Suc n) (a # as) (b # bs) =
     (if a = b then (if a = 0 \<or> n = 0 then Some 0 else str_ncmp n as bs) else Some (ucast a - ucast b))"
| "str_ncmp _ _ _ = None"

definition StrNCmp :: "u8 list \<Rightarrow> u8 list \<Rightarrow> u32 \<Rightarrow> u32 option" where
  "StrNCmp str1 str2 n = (if n = 0 then Some 0 else str_ncmp (unat n) str1 str2)"

fun StrNICmp :: "u8 list \<Rightarrow> u8 list \<Rightarrow> u32 \<Rightarrow> u8 option" where
  "StrNICmp (a # as) (b # bs) count = (let ch1 = fold_case a; ch2 = fold_case b in
     if count - 1 \<noteq> 0 \<and> ch1 \<noteq> 0 \<and> ch1 = ch2 then StrNICmp as bs (count - 1) else Some (ch1 - ch2))"
| "StrNICmp _ _ _ = None"

section \<open>Searching\<close>

fun str_chr :: "nat \<Rightarrow> u8 list \<Rightarrow> u8 \<Rightarrow> nat option option" where
  "str_chr i (c # cs) ch = (if c \<noteq> ch then (if c = 0 then Some None else str_chr (Suc i) cs ch) else Some (Some i))"
| "str_chr i [] ch = None"

definition StrChr :: "u8 list \<Rightarrow> u8 \<Rightarrow> nat option option" where
  "StrChr str ch = str_chr 0 str ch"

fun str_rchr :: "nat \<Rightarrow> nat option \<Rightarrow> u8 list \<Rightarrow> u8 \<Rightarrow> nat option option" where
  "str_rchr i save (c # cs) ch = (let save = (if c = ch then Some i else save) in
     if c \<noteq> 0 then str_rchr (Suc i) save cs ch else Some save)"
| "str_rchr i save [] ch = None"

definition StrRChr :: "u8 list \<Rightarrow> u8 \<Rightarrow> nat option option" where
  "StrRChr str ch = str_rchr 0 None str ch"

text \<open>Whether a byte that is not zero occurs in a set of characters.\<close>

fun str_has :: "u8 list \<Rightarrow> u8 \<Rightarrow> bool option" where
  "str_has (c2 # p) c1 = (if c2 \<noteq> 0 then (if c1 = c2 then Some True else str_has p c1) else Some False)"
| "str_has [] c1 = None"

fun str_cspn :: "nat \<Rightarrow> u8 list \<Rightarrow> u8 list \<Rightarrow> nat option" where
  "str_cspn i (c1 # cs) ch_set = (if c1 \<noteq> 0
     then do { found \<leftarrow> str_has ch_set c1; if found then Some i else str_cspn (Suc i) cs ch_set }
     else Some i)"
| "str_cspn i [] ch_set = None"

definition StrCSpn :: "u8 list \<Rightarrow> u8 list \<Rightarrow> u32 option" where
  "StrCSpn str ch_set = map_option of_nat (str_cspn 0 str ch_set)"

fun str_spn :: "nat \<Rightarrow> u8 list \<Rightarrow> u8 list \<Rightarrow> nat option" where
  "str_spn i (c1 # cs) ch_set = (if c1 \<noteq> 0
     then do { found \<leftarrow> str_has ch_set c1; if found then str_spn (Suc i) cs ch_set else Some i }
     else Some i)"
| "str_spn i [] ch_set = None"

definition StrSpn :: "u8 list \<Rightarrow> u8 list \<Rightarrow> u32 option" where
  "StrSpn str ch_set = map_option of_nat (str_spn 0 str ch_set)"

text \<open>The comparison inside \<open>StrStr\<close>: does the string \<open>t2\<close> start at \<open>t1\<close>?\<close>

fun str_match :: "u8 list \<Rightarrow> u8 list \<Rightarrow> bool option" where
  "str_match t1 (c2 # t2) = (if c2 \<noteq> 0
     then (case t1 of [] \<Rightarrow> None | x # t1 \<Rightarrow> if x = c2 then str_match t1 t2 else Some False)
     else Some True)"
| "str_match t1 [] = None"

fun str_search :: "nat \<Rightarrow> u8 \<Rightarrow> u8 list \<Rightarrow> u8 list \<Rightarrow> nat option option" where
  "str_search i c sub_str (c2 # str) =
     (if c2 = 0 then Some None
      else if c2 \<noteq> c then str_search (Suc i) c sub_str str
      else do { same \<leftarrow> str_match str sub_str;
                if same then Some (Some i) else str_search (Suc i) c sub_str str })"
| "str_search i c sub_str [] = None"

fun StrStr :: "u8 list \<Rightarrow> u8 list \<Rightarrow> nat option option" where
  "StrStr str (c # sub_str) = (if c = 0 then Some (Some 0) else str_search 0 c sub_str str)"
| "StrStr str [] = None"

section \<open>Removing a character\<close>

text \<open>The first byte that is not \<open>ch\<close>, or the end: its offset.\<close>

fun str_skip :: "u8 \<Rightarrow> u8 list \<Rightarrow> nat option" where
  "str_skip ch (c # cs) = (if c \<noteq> 0 \<and> c = ch then map_option Suc (str_skip ch cs) else Some 0)"
| "str_skip ch [] = None"

lemma str_skip_less: "str_skip ch cs = Some k \<Longrightarrow> k < length cs"
  by (induction cs arbitrary: k) (auto split: if_splits)

text \<open>\<open>p\<close> is what the loop has read, \<open>ys\<close> what \<open>p1\<close> then points to.\<close>

function strip_loop :: "u8 \<Rightarrow> u8 \<Rightarrow> u8 list \<Rightarrow> u8 list option" where
  "strip_loop ch p ys = (if p = 0 then Some (p # ys)
     else case ys of
       [] \<Rightarrow> None
     | y # cs \<Rightarrow>
         if y = ch then do {
           k \<leftarrow> str_skip ch ys;
           z \<leftarrow> rd ys k;
           if z \<noteq> 0 then map_option ((#) p) (strip_loop ch z (cs[k - 1 := ch]))
           else Some (p # 0 # cs)
         }
         else map_option ((#) p) (strip_loop ch y cs))"
  by pat_completeness auto
termination by (relation "measure (\<lambda>(ch, p, ys). length ys)") auto

declare strip_loop.simps [simp del]

definition Strip :: "u8 list \<Rightarrow> u8 \<Rightarrow> u8 list option" where
  "Strip str ch = (case str of [] \<Rightarrow> None | p # ys \<Rightarrow> strip_loop ch p ys)"

section \<open>Splitting\<close>

record DataNode =
  node_Data :: "nat option"
  node_Len :: u32

text \<open>\<open>pos\<close> is the offset of \<open>str\<close>. The result is the number of nodes, the text from \<open>str\<close> on with
  the separators replaced, and the nodes.\<close>

fun split_loop :: "u8 \<Rightarrow> u8 \<Rightarrow> nat \<Rightarrow> u8 list \<Rightarrow> nat \<Rightarrow> nat \<Rightarrow> nat \<Rightarrow> nat \<Rightarrow> DataNode list \<Rightarrow>
    (nat \<times> u8 list \<times> DataNode list) option" where
  "split_loop split replace node_num (c # str) pos str_start str_len index result =
     (if c = 0 then
        (if str_len \<noteq> 0 then do {
           result \<leftarrow> wr result index \<lparr>node_Data = Some str_start, node_Len = of_nat str_len\<rparr>;
           Some (index + 1, c # str, result)
         }
         else Some (index, c # str, result))
      else if c = split then do {
        result \<leftarrow> wr result index (if str_len \<noteq> 0 then \<lparr>node_Data = Some str_start, node_Len = of_nat str_len\<rparr>
          else \<lparr>node_Data = None, node_Len = 0\<rparr>);
        if index + 1 \<ge> node_num then Some (index + 1, c # str, result)
        else do {
          (n, str, result) \<leftarrow> split_loop split replace node_num str (pos + 1) (pos + 1) 0 (index + 1) result;
          Some (n, replace # str, result)
        }
      }
      else do {
        (n, str, result) \<leftarrow> split_loop split replace node_num str (pos + 1) str_start (str_len + 1) index result;
        Some (n, c # str, result)
      })"
| "split_loop split replace node_num [] pos str_start str_len index result = None"

text \<open>\<open>pos\<close> is where \<open>str\<close> lies in the object that the nodes point into; a null pointer is \<open>None\<close>.\<close>

definition StrSplit :: "u8 list option \<Rightarrow> nat \<Rightarrow> u8 \<Rightarrow> u8 \<Rightarrow> DataNode list \<Rightarrow> nat \<Rightarrow>
    (nat \<times> u8 list \<times> DataNode list) option" where
  "StrSplit str pos split replace result node_num = (case str of
     None \<Rightarrow> Some (0, [], result)
   | Some s \<Rightarrow> split_loop split replace node_num s pos pos 0 0 result)"

end
