(* ===== verification/C_String_Spec.thy ===== *)
theory C_String_Spec
  imports C_String "HOL-Library.Sublist"
begin

text \<open>
  What the functions of \<open>C_String\<close> compute on zero-terminated strings: a string \<open>xs\<close> in memory is
  \<open>xs @ 0 # r\<close> with no zero byte in \<open>xs\<close>; \<open>r\<close> is whatever lies behind it.
\<close>

section \<open>Lengths and copies\<close>

lemma str_end_cstr: "0 \<notin> set xs \<Longrightarrow> str_end (xs @ 0 # r) = Some (length xs)"
  by (induction xs) auto

lemma StrLen_cstr: "0 \<notin> set xs \<Longrightarrow> StrLen (xs @ 0 # r) = Some (of_nat (length xs))"
  by (simp add: StrLen_def str_end_cstr)

lemma str_nlen_cstr:
  "0 \<notin> set xs \<Longrightarrow> re < unat mx \<Longrightarrow>
     str_nlen mx (of_nat re) (xs @ 0 # r) = Some (if re + length xs < unat mx then of_nat (re + length xs) else mx)"
proof (induction xs arbitrary: re)
  case (Cons x xs)
  have "unat mx < 4294967296" by (rule unat_less_u32)
  then have u: "unat (of_nat (Suc re) :: u32) = Suc re"
    using Cons.prems(2) by (simp add: unat_of_nat take_bit_nat_eq_self del: of_nat_Suc)
  have c: "mx \<le> of_nat re + 1 \<longleftrightarrow> unat mx \<le> Suc re"
    using u by (simp add: word_le_nat_alt add.commute)
  show ?case
  proof (cases "unat mx \<le> Suc re")
    case True
    with Cons.prems c show ?thesis by (simp add: add.commute)
  next
    case False
    with Cons.IH [of "Suc re"] Cons.prems c show ?thesis by (simp add: add.commute add.left_commute)
  qed
qed simp

lemma StrNLen_cstr:
  "0 \<notin> set xs \<Longrightarrow> mx \<noteq> 0 \<Longrightarrow>
     StrNLen (xs @ 0 # r) mx = Some (if length xs < unat mx then of_nat (length xs) else mx)"
  using str_nlen_cstr [of xs 0 mx r] by (simp add: StrNLen_def unat_gt_0)

lemma StrCpy_cstr:
  "0 \<notin> set xs \<Longrightarrow> length xs < length dst \<Longrightarrow>
     StrCpy dst (xs @ 0 # r) = Some (xs @ 0 # drop (Suc (length xs)) dst)"
proof (induction xs arbitrary: dst)
  case Nil
  then show ?case by (cases dst) auto
next
  case (Cons x xs)
  then show ?case by (cases dst) auto
qed

lemma StrCat_cstr:
  "0 \<notin> set ds \<Longrightarrow> 0 \<notin> set xs \<Longrightarrow> length xs \<le> length room \<Longrightarrow>
     StrCat (ds @ 0 # room) (xs @ 0 # r) = Some (ds @ xs @ 0 # drop (length xs) room)"
  by (induction ds) (simp_all add: StrCpy_cstr)

lemma str_fill_eq: "n \<le> length ds \<Longrightarrow> str_fill n ds = Some (replicate n 0 @ drop n ds)"
proof (induction n arbitrary: ds)
  case (Suc n)
  then show ?case by (cases ds) auto
qed simp

lemma str_ncopy_cstr:
  "0 \<notin> set xs \<Longrightarrow> n \<le> length dst \<Longrightarrow>
     str_ncopy n dst (xs @ 0 # r) = Some (take n xs @ replicate (n - length xs) 0 @ drop n dst)"
proof (induction n arbitrary: dst xs)
  case (Suc n)
  then obtain d ds where dst: "dst = d # ds" by (cases dst) auto
  show ?case
  proof (cases xs)
    case Nil
    with Suc.prems dst show ?thesis by (simp add: str_fill_eq)
  next
    case (Cons x ys)
    with Suc dst show ?thesis by auto
  qed
qed simp

lemma StrNCpy_cstr:
  "0 \<notin> set xs \<Longrightarrow> unat n \<le> length dst \<Longrightarrow>
     StrNCpy dst (xs @ 0 # r) n = Some (take (unat n) xs @ replicate (unat n - length xs) 0 @ drop (unat n) dst)"
  by (simp add: StrNCpy_def str_ncopy_cstr)

lemma str_nappend_cstr:
  "0 \<notin> set xs \<Longrightarrow> 0 < n \<Longrightarrow> min n (length xs) < length room \<Longrightarrow>
     str_nappend n room (xs @ 0 # r) = Some (take n xs @ 0 # drop (Suc (min n (length xs))) room)"
proof (induction n arbitrary: room xs)
  case (Suc n)
  obtain d ds where room: "room = d # ds" using Suc.prems(3) by (cases room) auto
  show ?case
  proof (cases xs)
    case Nil
    with room show ?thesis by simp
  next
    case (Cons x ys)
    show ?thesis
    proof (cases n)
      case 0
      with Suc.prems Cons room obtain e es where "ds = e # es" by (cases ds) auto
      with Suc.prems Cons room 0 show ?thesis by (simp add: wr_def)
    next
      case (Suc m)
      with Suc.IH [of ys ds] Suc.prems Cons room show ?thesis by simp
    qed
  qed
qed simp

lemma StrNCat_cstr:
  assumes "0 \<notin> set ds" "0 \<notin> set xs" "n \<noteq> 0" "min (unat n) (length xs) \<le> length room"
  shows "StrNCat (ds @ 0 # room) (xs @ 0 # r) n =
    Some (ds @ take (unat n) xs @ 0 # drop (min (unat n) (length xs)) room)"
proof -
  have "0 < unat n" using assms(3) by (simp add: unat_gt_0)
  then have "str_ncat (unat n) (ds @ 0 # room) (xs @ 0 # r) =
      Some (ds @ take (unat n) xs @ 0 # drop (min (unat n) (length xs)) room)"
    using assms by (induction ds) (simp_all add: str_nappend_cstr)
  with assms(3) show ?thesis by (simp add: StrNCat_def)
qed

section \<open>Comparison\<close>

text \<open>The byte in which two strings first differ, the terminator included.\<close>

lemma StrCmp_equal: "0 \<notin> set xs \<Longrightarrow> StrCmp (xs @ 0 # r) (xs @ 0 # q) = Some 0"
  by (induction xs) auto

lemma StrCmp_differ:
  "0 \<notin> set ps \<Longrightarrow> a \<noteq> b \<Longrightarrow> StrCmp (ps @ a # r) (ps @ b # q) = Some (a - b)"
  by (induction ps) auto

lemma ucast_u8_eq: "ucast (a :: u8) = (ucast b :: u32) \<longleftrightarrow> a = b"
  by transfer simp

lemma ucast_u8_zero: "ucast (a :: u8) = (0 :: u32) \<longleftrightarrow> a = 0"
  using ucast_u8_eq [of a 0] by simp

lemma str_ncmp_cstr:
  "0 \<notin> set xs \<Longrightarrow> 0 \<notin> set ys \<Longrightarrow> 0 < n \<Longrightarrow>
     \<exists>d. str_ncmp n (xs @ 0 # r) (ys @ 0 # q) = Some d \<and> (d = 0 \<longleftrightarrow> take n xs = take n ys)"
proof (induction n arbitrary: xs ys)
  case (Suc n)
  show ?case
  proof (cases xs)
    case Nil
    with Suc.prems show ?thesis by (cases ys) (auto simp: ucast_u8_zero)
  next
    case (Cons x xs')
    note xs = this
    show ?thesis
    proof (cases ys)
      case Nil
      with Suc.prems xs show ?thesis by (auto simp: ucast_u8_zero)
    next
      case (Cons y ys')
      show ?thesis
      proof (cases "n = 0")
        case True
        with Suc.prems xs Cons show ?thesis by (auto simp: ucast_u8_eq)
      next
        case False
        then obtain d where "str_ncmp n (xs' @ 0 # r) (ys' @ 0 # q) = Some d" "d = 0 \<longleftrightarrow> take n xs' = take n ys'"
          using Suc.IH [of xs' ys'] Suc.prems xs Cons by auto
        with Suc.prems xs Cons False show ?thesis by (auto simp: ucast_u8_eq)
      qed
    qed
  qed
qed simp

lemma StrNCmp_prefix:
  "0 \<notin> set xs \<Longrightarrow> 0 \<notin> set ys \<Longrightarrow>
     \<exists>d. StrNCmp (xs @ 0 # r) (ys @ 0 # q) n = Some d \<and> (d = 0 \<longleftrightarrow> take (unat n) xs = take (unat n) ys)"
  using str_ncmp_cstr [of xs ys "unat n" r q] by (auto simp: StrNCmp_def unat_gt_0)

lemma StrICmp_folded:
  "0 \<notin> set xs \<Longrightarrow> 0 \<notin> set ys \<Longrightarrow> StrICmp (xs @ 0 # r) (ys @ 0 # q) =
     StrCmp (map fold_case xs @ 0 # r) (map fold_case ys @ 0 # q)"
proof (induction xs arbitrary: ys)
  case Nil
  have z: "fold_case 0 = 0" by (simp add: fold_case_def)
  show ?case using Nil z by (cases ys) (auto simp: Let_def)
next
  case (Cons x xs)
  have z: "fold_case 0 = 0" by (simp add: fold_case_def)
  have nz: "fold_case c \<noteq> 0" if "c \<noteq> 0" for c
  proof
    assume f: "fold_case c = 0"
    show False
    proof (cases "c \<ge> 0x41 \<and> c \<le> 0x5A")
      case True
      then have "unat c \<le> 90" by (simp add: word_le_nat_alt)
      then have "unat (c + 0x20) = unat c + 32" by (simp add: unat_word_ariths)
      with f True show False by (simp add: fold_case_def)
    next
      case False
      with f that show False by (simp add: fold_case_def split: if_splits)
    qed
  qed
  show ?case using Cons nz z by (cases ys) (auto simp: Let_def)
qed

section \<open>Searching\<close>

lemma str_chr_cstr:
  "0 \<notin> set xs \<Longrightarrow> str_chr i (xs @ 0 # r) ch =
     Some (if ch \<in> set xs \<or> ch = 0 then Some (i + length (takeWhile (\<lambda>c. c \<noteq> ch) xs)) else None)"
  by (induction xs arbitrary: i) auto

lemma StrChr_first:
  "0 \<notin> set xs \<Longrightarrow> StrChr (xs @ 0 # r) ch =
     Some (if ch \<in> set xs \<or> ch = 0 then Some (length (takeWhile (\<lambda>c. c \<noteq> ch) xs)) else None)"
  by (simp add: StrChr_def str_chr_cstr)

lemma str_rchr_found:
  "0 \<notin> set (ps @ c # qs) \<Longrightarrow> c \<notin> set qs \<Longrightarrow> c \<noteq> 0 \<Longrightarrow> str_rchr i s (ps @ c # qs @ 0 # r) c = Some (Some (i + length ps))"
proof (induction ps arbitrary: i s)
  case Nil
  have "0 \<notin> set qs \<Longrightarrow> c \<notin> set qs \<Longrightarrow> c \<noteq> 0 \<Longrightarrow> str_rchr j t (qs @ 0 # r) c = Some t" for j t
    by (induction qs arbitrary: j) (auto simp: Let_def)
  with Nil show ?case by (auto simp: Let_def)
qed (auto simp: Let_def)

lemma StrRChr_last:
  "0 \<notin> set (ps @ c # qs) \<Longrightarrow> c \<notin> set qs \<Longrightarrow> c \<noteq> 0 \<Longrightarrow> StrRChr (ps @ c # qs @ 0 # r) c = Some (Some (length ps))"
  by (simp add: StrRChr_def str_rchr_found)

lemma str_has_cstr: "0 \<notin> set xs \<Longrightarrow> str_has (xs @ 0 # r) c = Some (c \<in> set xs)"
  by (induction xs) auto

lemma StrCSpn_cstr:
  assumes "0 \<notin> set xs" "0 \<notin> set cs"
  shows "StrCSpn (xs @ 0 # r) (cs @ 0 # q) = Some (of_nat (length (takeWhile (\<lambda>c. c \<notin> set cs) xs)))"
proof -
  have "str_cspn i (xs @ 0 # r) (cs @ 0 # q) = Some (i + length (takeWhile (\<lambda>c. c \<notin> set cs) xs))" for i
    using assms by (induction xs arbitrary: i) (auto simp: str_has_cstr)
  then show ?thesis by (simp add: StrCSpn_def)
qed

lemma StrSpn_cstr:
  assumes "0 \<notin> set xs" "0 \<notin> set cs"
  shows "StrSpn (xs @ 0 # r) (cs @ 0 # q) = Some (of_nat (length (takeWhile (\<lambda>c. c \<in> set cs) xs)))"
proof -
  have "str_spn i (xs @ 0 # r) (cs @ 0 # q) = Some (i + length (takeWhile (\<lambda>c. c \<in> set cs) xs))" for i
    using assms by (induction xs arbitrary: i) (auto simp: str_has_cstr)
  then show ?thesis by (simp add: StrSpn_def)
qed

lemma str_match_cstr:
  "0 \<notin> set xs \<Longrightarrow> 0 \<notin> set sub \<Longrightarrow> str_match (xs @ 0 # r) (sub @ 0 # q) = Some (prefix sub xs)"
proof (induction sub arbitrary: xs)
  case (Cons s sub)
  then show ?case by (cases xs) auto
qed simp

lemma str_search_cstr:
  assumes "0 \<notin> set xs" "0 \<notin> set (c # sub)"
  shows "str_search i c (sub @ 0 # q) (xs @ 0 # r) =
    Some (if sublist (c # sub) xs
      then Some (i + (LEAST k. prefix (c # sub) (drop k xs))) else None)"
  using assms(1)
proof (induction xs arbitrary: i)
  case (Cons x xs)
  show ?case
  proof (cases "prefix (c # sub) (x # xs)")
    case True
    then have "x = c" "prefix sub xs" by auto
    moreover have "(LEAST k. prefix (c # sub) (drop k (x # xs))) = 0"
      using True by (intro Least_equality) auto
    moreover have "sublist (c # sub) (x # xs)" using True by (rule prefix_imp_sublist)
    ultimately show ?thesis using Cons.prems assms(2) by (simp add: str_match_cstr)
  next
    case False
    have step: "str_search i c (sub @ 0 # q) ((x # xs) @ 0 # r) = str_search (Suc i) c (sub @ 0 # q) (xs @ 0 # r)"
      using Cons.prems assms(2) False by (auto simp: str_match_cstr)
    have sub: "sublist (c # sub) (x # xs) \<longleftrightarrow> sublist (c # sub) xs"
      using False by (auto simp: sublist_Cons_right)
    show ?thesis
    proof (cases "sublist (c # sub) xs")
      case True
      then obtain ps ss where "xs = ps @ (c # sub) @ ss" by (auto simp: sublist_def)
      then have k: "prefix (c # sub) (drop (Suc (length ps)) (x # xs))" by (simp add: prefix_def)
      have "(LEAST k. prefix (c # sub) (drop k (x # xs))) = Suc (LEAST k. prefix (c # sub) (drop (Suc k) (x # xs)))"
        by (rule Least_Suc [where P = "\<lambda>k. prefix (c # sub) (drop k (x # xs))", OF k]) (use False in simp)
      with Cons step sub True show ?thesis by simp
    next
      case False
      with Cons step sub show ?thesis by simp
    qed
  qed
qed simp

section \<open>Removing and splitting\<close>

text \<open>\<open>Strip\<close> moves the bytes it removes behind the new terminator; the first byte is never looked at.\<close>

lemma str_skip_run: "ch \<noteq> 0 \<Longrightarrow> c \<noteq> ch \<Longrightarrow> str_skip ch (replicate k ch @ c # cs) = Some k"
  by (induction k) auto

lemma leading_run: "\<exists>k rest. ys = replicate k ch @ rest \<and> (rest = [] \<or> hd rest \<noteq> ch)"
proof (induction ys)
  case (Cons y ys)
  show ?case
  proof (cases "y = ch")
    case True
    from Cons obtain k rest where "ys = replicate k ch @ rest" "rest = [] \<or> hd rest \<noteq> ch" by blast
    with True show ?thesis by (intro exI [of _ "Suc k"] exI [of _ rest]) simp
  next
    case False
    then show ?thesis by (intro exI [of _ 0] exI [of _ "y # ys"]) simp
  qed
qed simp

lemma strip_loop_cstr:
  assumes "ch \<noteq> 0"
  shows "0 \<notin> set xs \<Longrightarrow> p \<noteq> 0 \<Longrightarrow>
    \<exists>t. strip_loop ch p (xs @ 0 # r) = Some (p # filter (\<lambda>c. c \<noteq> ch) xs @ 0 # t @ r) \<and>
      length t + length (filter (\<lambda>c. c \<noteq> ch) xs) = length xs"
proof (induction "length xs" arbitrary: xs p rule: less_induct)
  case less
  show ?case
  proof (cases xs)
    case Nil
    with less.prems assms show ?thesis by (simp add: strip_loop.simps)
  next
    case (Cons y ys)
    note xs = this
    show ?thesis
    proof (cases "y = ch")
      case False
      have "\<exists>t. strip_loop ch y (ys @ 0 # r) = Some (y # filter (\<lambda>c. c \<noteq> ch) ys @ 0 # t @ r) \<and>
          length t + length (filter (\<lambda>c. c \<noteq> ch) ys) = length ys"
        by (rule less.hyps) (use less.prems xs in simp_all)
      moreover have "strip_loop ch p (xs @ 0 # r) = map_option ((#) p) (strip_loop ch y (ys @ 0 # r))"
        using False xs less.prems by (subst strip_loop.simps) simp
      ultimately show ?thesis using False xs by auto
    next
      case True
      obtain k rest where ys: "ys = replicate k ch @ rest" and rest: "rest = [] \<or> hd rest \<noteq> ch"
        using leading_run [of ys ch] by (elim exE conjE)
      show ?thesis
      proof (cases rest)
        case Nil
        have skip: "str_skip ch ((y # ys) @ 0 # r) = Some (Suc k)"
          using str_skip_run [of ch 0 "Suc k" r] assms True ys Nil by simp
        have "strip_loop ch p (xs @ 0 # r) = Some (p # 0 # (replicate k ch @ [0]) @ r)"
          using skip less.prems xs True ys Nil
          by (subst strip_loop.simps) (simp add: rd_def nth_append)
        with xs True ys Nil show ?thesis by (intro exI [of _ "replicate k ch @ [0]"]) simp
      next
        case (Cons z zs)
        with rest less.prems xs ys have z: "z \<noteq> ch" "z \<noteq> 0" by auto
        have skip: "str_skip ch ((y # ys) @ 0 # r) = Some (Suc k)"
          using str_skip_run [of ch z "Suc k" "zs @ 0 # r"] assms True z ys Cons by simp
        have "strip_loop ch p (xs @ 0 # r) =
            map_option ((#) p) (strip_loop ch z ((replicate k ch @ ch # zs) @ 0 # r))"
          using skip less.prems xs True ys Cons z
          by (subst strip_loop.simps) (simp add: rd_def nth_append list_update_append)
        moreover have "\<exists>t. strip_loop ch z ((replicate k ch @ ch # zs) @ 0 # r) =
            Some (z # filter (\<lambda>c. c \<noteq> ch) (replicate k ch @ ch # zs) @ 0 # t @ r) \<and>
            length t + length (filter (\<lambda>c. c \<noteq> ch) (replicate k ch @ ch # zs)) = length (replicate k ch @ ch # zs)"
          by (rule less.hyps) (use less.prems xs ys Cons z assms in simp_all)
        ultimately show ?thesis using xs True ys Cons z by auto
      qed
    qed
  qed
qed

lemma Strip_cstr:
  assumes "0 \<notin> set (x # xs)" and "ch \<noteq> 0"
  shows "\<exists>t. Strip ((x # xs) @ 0 # r) ch = Some (x # filter (\<lambda>c. c \<noteq> ch) xs @ 0 # t @ r)"
  using strip_loop_cstr [OF assms(2), of xs x r] assms(1) by (auto simp: Strip_def)

text \<open>A text made of fields: the fields with a separator between them, and the nodes that describe
  them when the text starts at offset \<open>p\<close>.\<close>

fun joined :: "u8 \<Rightarrow> u8 list list \<Rightarrow> u8 list" where
  "joined s [] = []"
| "joined s [f] = f"
| "joined s (f # fs) = f @ s # joined s fs"

definition field_node :: "nat \<Rightarrow> u8 list \<Rightarrow> DataNode" where
  "field_node p f = (if f = [] then \<lparr>node_Data = None, node_Len = 0\<rparr> else \<lparr>node_Data = Some p, node_Len = of_nat (length f)\<rparr>)"

fun field_nodes :: "nat \<Rightarrow> u8 list list \<Rightarrow> DataNode list" where
  "field_nodes p [] = []"
| "field_nodes p (f # fs) = field_node p f # field_nodes (p + length f + 1) fs"

lemma length_field_nodes [simp]: "length (field_nodes p fs) = length fs"
  by (induction fs arbitrary: p) auto

lemma split_loop_field:
  "0 \<notin> set f \<Longrightarrow> s \<notin> set f \<Longrightarrow> split_loop s rep m (f @ rest) pos st len idx res =
     map_option (\<lambda>(n, t, ns). (n, f @ t, ns)) (split_loop s rep m rest (pos + length f) st (len + length f) idx res)"
proof (induction f arbitrary: pos len)
  case Nil
  then show ?case by (cases "split_loop s rep m rest pos st len idx res") auto
next
  case (Cons x f)
  then show ?case
    by (cases "split_loop s rep m rest (Suc pos + length f) st (Suc len + length f) idx res") auto
qed

lemma split_loop_sep:
  "s \<noteq> 0 \<Longrightarrow> idx < length res \<Longrightarrow> split_loop s rep m (s # rest) (st + length f) st (length f) idx res =
     (if Suc idx \<ge> m then Some (Suc idx, s # rest, res[idx := field_node st f])
      else map_option (\<lambda>(n, t, ns). (n, rep # t, ns))
        (split_loop s rep m rest (st + length f + 1) (st + length f + 1) 0 (Suc idx) (res[idx := field_node st f])))"
  by (cases "split_loop s rep m rest (st + length f + 1) (st + length f + 1) 0 (Suc idx) (res[idx := field_node st f])")
    (auto simp: field_node_def wr_def)

lemma split_loop_end:
  "idx < length res \<Longrightarrow> split_loop s rep m (0 # rest) q st (length f) idx res =
     Some (if f = [] then (idx, 0 # rest, res) else (Suc idx, 0 # rest, res[idx := field_node st f]))"
  by (auto simp: field_node_def wr_def)

text \<open>The number of fields that get a node when all of them fit: an empty last field gets none.\<close>

definition field_count :: "u8 list list \<Rightarrow> nat" where
  "field_count fs = (if last fs = [] then length fs - 1 else length fs)"

lemma upd_take_drop:
  "idx < length res \<Longrightarrow> take (Suc idx) (res[idx := x]) @ ys = take idx res @ x # ys"
  by (simp add: take_Suc_conv_app_nth)

lemma split_loop_fields:
  "s \<noteq> 0 \<Longrightarrow> \<forall>f \<in> set fs. 0 \<notin> set f \<and> s \<notin> set f \<Longrightarrow> fs \<noteq> [] \<Longrightarrow> idx + length fs \<le> m \<Longrightarrow> idx + length fs \<le> length res \<Longrightarrow>
    split_loop s rep m (joined s fs @ 0 # r) st st 0 idx res =
      Some (idx + field_count fs, joined rep fs @ 0 # r,
        take idx res @ take (field_count fs) (field_nodes st fs) @ drop (idx + field_count fs) res)"
proof (induction s fs arbitrary: st idx res rule: joined.induct)
  case (2 s f)
  then show ?case
    by (auto simp: split_loop_field split_loop_end field_count_def upd_conv_take_nth_drop simp del: split_loop.simps)
next
  case (3 s f g fs)
  note IH = "3.IH" [OF "3.prems"(1), of "Suc idx" "res[idx := field_node st f]" "st + length f + 1"]
  have "field_count (f # g # fs) = Suc (field_count (g # fs))" by (simp add: field_count_def)
  moreover have "take (Suc idx) (res[idx := field_node st f]) = take idx res @ [field_node st f]"
    using 3(6) by (simp add: take_Suc_conv_app_nth)
  ultimately show ?case using IH 3(2-6)
    by (simp add: split_loop_field split_loop_sep del: split_loop.simps)
qed simp

text \<open>With fewer nodes than fields the loop stops in front of the separator behind the last node.\<close>

lemma split_loop_stops:
  "s \<noteq> 0 \<Longrightarrow> \<forall>f \<in> set fs. 0 \<notin> set f \<and> s \<notin> set f \<Longrightarrow> 0 < k \<Longrightarrow> k < length fs \<Longrightarrow> idx + k \<le> length res \<Longrightarrow>
    split_loop s rep (idx + k) (joined s fs @ 0 # r) st st 0 idx res =
      Some (idx + k, joined rep (take k fs) @ s # joined s (drop k fs) @ 0 # r,
        take idx res @ take k (field_nodes st fs) @ drop (idx + k) res)"
proof (induction s fs arbitrary: st idx res k rule: joined.induct)
  case (3 s f g fs)
  have u: "take (Suc idx) (res[idx := field_node st f]) = take idx res @ [field_node st f]"
    using 3 by (simp add: take_Suc_conv_app_nth)
  show ?case
  proof (cases "k = 1")
    case True
    with 3 show ?thesis
      by (simp add: split_loop_field split_loop_sep upd_conv_take_nth_drop del: split_loop.simps)
  next
    case False
    then obtain j where k: "k = Suc j" "0 < j" using "3.prems"(3) by (cases k) auto
    obtain i where j: "j = Suc i" using k by (cases j) auto
    note IH = "3.IH" [OF "3.prems"(1), of j "Suc idx" "res[idx := field_node st f]" "st + length f + 1"]
    show ?thesis using IH u 3(2-6) k j
      by (simp add: split_loop_field split_loop_sep del: split_loop.simps)
  qed
qed simp_all

lemma sint_diff_ascii: "a < 0x80 \<Longrightarrow> b < 0x80 \<Longrightarrow> sint (a - b :: u8) < 0 \<longleftrightarrow> a < b"
proof -
  assume a: "a < 0x80" "b < 0x80"
  have s: "sint c = uint c" if "c < 0x80" for c :: u8
  proof -
    have "uint c < 128" using that by (simp add: word_less_def)
    then have "signed_take_bit 7 (uint c) = uint c"
      by (intro signed_take_bit_int_eq_self) (simp_all add: order_trans [OF _ uint_ge_0])
    then show ?thesis by (simp add: sint_uint)
  qed
  have u: "uint a < 128" "uint b < 128" using a by (simp_all add: word_less_def)
  have "sint (a - b) = signed_take_bit 7 (uint a - uint b)"
    by (simp add: sint_word_ariths s a)
  also have "\<dots> = uint a - uint b"
  proof (rule signed_take_bit_int_eq_self)
    have "- 128 \<le> uint a - uint b" "uint a - uint b < 128" using u uint_ge_0 [of a] uint_ge_0 [of b] by linarith+
    then show "- (2 ^ 7) \<le> uint a - uint b" "uint a - uint b < 2 ^ 7" by simp_all
  qed
  finally show ?thesis by (simp add: word_less_def)
qed

section \<open>Properties\<close>

text \<open>C32: \<open>StrStr\<close> finds the first occurrence. On zero-terminated strings it never reads past either of
  them; it answers NULL when the one does not occur in the other, and otherwise the least offset at
  which it does, for the empty string offset 0.\<close>

theorem StrStr_first_occurrence:
  assumes "0 \<notin> set xs" and "0 \<notin> set sub"
  shows "\<exists>res. StrStr (xs @ 0 # r) (sub @ 0 # q) = Some res \<and>
    (case res of
       None \<Rightarrow> \<not> sublist sub xs
     | Some k \<Rightarrow> k + length sub \<le> length xs \<and> take (length sub) (drop k xs) = sub \<and>
         (\<forall>j < k. take (length sub) (drop j xs) \<noteq> sub))"
proof (cases sub)
  case Nil
  then show ?thesis by simp
next
  case (Cons c cs)
  have run: "StrStr (xs @ 0 # r) (sub @ 0 # q) =
      Some (if sublist sub xs then Some (LEAST k. prefix sub (drop k xs)) else None)"
    using str_search_cstr [of xs c cs 0 q r] assms Cons by simp
  have pre: "prefix sub zs \<longleftrightarrow> take (length sub) zs = sub" for zs
    by (metis append_eq_conv_conj prefix_def take_is_prefix)
  show ?thesis
  proof (cases "sublist sub xs")
    case True
    then obtain ps ss where "xs = ps @ sub @ ss" by (auto simp: sublist_def)
    then have ex: "prefix sub (drop (length ps) xs)" by simp
    define k where "k = (LEAST k. prefix sub (drop k xs))"
    have k: "prefix sub (drop k xs)" unfolding k_def by (rule LeastI [where P = "\<lambda>k. prefix sub (drop k xs)", OF ex])
    then have "length sub \<le> length xs - k" using prefix_length_le by fastforce
    with Cons have "k + length sub \<le> length xs" by auto
    moreover have "take (length sub) (drop j xs) \<noteq> sub" if "j < k" for j
      using not_less_Least [OF that [unfolded k_def]] pre by blast
    moreover have "StrStr (xs @ 0 # r) (sub @ 0 # q) = Some (Some k)" using run True by (simp add: k_def)
    moreover have "take (length sub) (drop k xs) = sub" using k pre by blast
    ultimately show ?thesis by auto
  next
    case False
    with run show ?thesis by auto
  qed
qed

lemma StrStr_first_occurrence_witness:
  "\<exists>k. StrStr ([1, 1, 2, 1, 2] @ 0 # [9]) ([1, 2] @ 0 # []) = Some (Some k) \<and> k = 1"
proof -
  obtain res where "StrStr ([1, 1, 2, 1, 2] @ 0 # [9]) ([1, 2] @ 0 # []) = Some res"
      "case res of None \<Rightarrow> \<not> sublist [1, 2] [1, 1, 2, 1, 2 :: u8]
       | Some k \<Rightarrow> k + length [1, 2 :: u8] \<le> length [1, 1, 2, 1, 2 :: u8] \<and>
           take (length [1, 2 :: u8]) (drop k [1, 1, 2, 1, 2]) = [1, 2 :: u8] \<and>
           (\<forall>j < k. take (length [1, 2 :: u8]) (drop j [1, 1, 2, 1, 2]) \<noteq> [1, 2 :: u8])"
    using StrStr_first_occurrence [of "[1, 1, 2, 1, 2]" "[1, 2]" "[9]" "[]"] by auto
  then show ?thesis by simp
qed

text \<open>C33: \<open>StrCmp\<close> orders strings whose bytes are ASCII. It never reads past them and answers 0 exactly
  for equal strings; otherwise the sign of its result is that of the first two bytes that differ.
  For bytes beyond ASCII the difference does not fit the eight bits of the result: the string of
  the single byte 0xFF is reported to be less than the empty one.\<close>

theorem StrCmp_orders_ascii:
  assumes "0 \<notin> set xs" and "0 \<notin> set ys"
  shows "\<exists>d. StrCmp (xs @ 0 # r) (ys @ 0 # q) = Some d \<and> (d = 0 \<longleftrightarrow> xs = ys) \<and>
    ((\<forall>c \<in> set xs \<union> set ys. c < 0x80) \<longrightarrow> (sint d < 0 \<longleftrightarrow> (xs, ys) \<in> lexord {(a, b). a < b}))"
  using assms
proof (induction xs arbitrary: ys)
  case Nil
  then show ?case
  proof (cases ys)
    case (Cons y zs)
    with Nil show ?thesis using sint_diff_ascii [of 0 y] by (auto simp: word_gt_0)
  qed simp
next
  case (Cons x xs)
  then show ?case
  proof (cases ys)
    case Nil
    with Cons show ?thesis using sint_diff_ascii [of x 0] by auto
  next
    case (Cons y zs)
    show ?thesis
    proof (cases "x = y")
      case True
      from Cons.IH [of zs] Cons.prems Cons obtain d where "StrCmp (xs @ 0 # r) (zs @ 0 # q) = Some d"
          "d = 0 \<longleftrightarrow> xs = zs" "(\<forall>c \<in> set xs \<union> set zs. c < 0x80) \<longrightarrow> (sint d < 0 \<longleftrightarrow> (xs, zs) \<in> lexord {(a, b). a < b})"
        by auto
      with True Cons Cons.prems show ?thesis by auto
    next
      case False
      with Cons Cons.prems sint_diff_ascii [of x y] show ?thesis by auto
    qed
  qed
qed

lemma StrCmp_orders_ascii_witness:
  "\<exists>d. StrCmp ([0x61, 0x62] @ 0 # []) ([0x61, 0x63, 0x64] @ 0 # []) = Some d \<and> sint d < 0"
proof -
  obtain d where "StrCmp ([0x61, 0x62] @ 0 # []) ([0x61, 0x63, 0x64] @ 0 # []) = Some d"
      "(\<forall>c \<in> set [0x61, 0x62] \<union> set [0x61, 0x63, 0x64]. c < (0x80 :: u8)) \<longrightarrow>
        (sint d < 0 \<longleftrightarrow> ([0x61 :: u8, 0x62], [0x61, 0x63, 0x64]) \<in> lexord {(a, b). a < b})"
    using StrCmp_orders_ascii [of "[0x61, 0x62]" "[0x61, 0x63, 0x64]" "[]" "[]"] by auto
  then show ?thesis by auto
qed

text \<open>Beyond ASCII the difference does not fit the eight bits of the result.\<close>

lemma StrCmp_high_byte: "\<exists>d. StrCmp (0xFF # 0 # r) (0 # q) = Some d \<and> sint d < 0"
  by simp

text \<open>C34: \<open>StrSplit\<close> takes a text apart into its fields. For a text of fields with the separator
  between them there is one node per field, with its place and length, a null node for an empty
  field in front of the last and none for an empty last one; every separator is replaced and no
  other byte changes. When there are fewer nodes than fields exactly that many are written, and the
  text from the separator behind the last of them on is untouched.\<close>

theorem StrSplit_fields:
  assumes "s \<noteq> 0" and "\<forall>f \<in> set fs. 0 \<notin> set f \<and> s \<notin> set f" and "fs \<noteq> []"
    and "0 < m" and "m \<le> length nodes"
  shows "StrSplit (Some (joined s fs @ 0 # r)) p s rep nodes m =
    (if length fs \<le> m
     then Some (field_count fs, joined rep fs @ 0 # r,
       take (field_count fs) (field_nodes p fs) @ drop (field_count fs) nodes)
     else Some (m, joined rep (take m fs) @ s # joined s (drop m fs) @ 0 # r,
       take m (field_nodes p fs) @ drop m nodes))"
  using split_loop_fields [of s fs 0 m nodes rep r p] split_loop_stops [of s fs m 0 nodes rep r p] assms
  by (simp add: StrSplit_def)

lemma StrSplit_fields_witness:
  "StrSplit (Some (joined 0x2C [[0x41, 0x42], [], [0x43]] @ 0 # [])) 5 0x2C 0
      (replicate (Suc (Suc (Suc (Suc 0)))) \<lparr>node_Data = None, node_Len = 9\<rparr>) (Suc (Suc (Suc (Suc 0)))) =
    Some (3, [0x41, 0x42, 0, 0, 0x43, 0],
      [\<lparr>node_Data = Some 5, node_Len = 2\<rparr>, \<lparr>node_Data = None, node_Len = 0\<rparr>,
       \<lparr>node_Data = Some 9, node_Len = 1\<rparr>, \<lparr>node_Data = None, node_Len = 9\<rparr>])"
  using StrSplit_fields [where s = "0x2C" and fs = "[[0x41, 0x42], [], [0x43]]" and m = "Suc (Suc (Suc (Suc 0)))" and r = "[]" and p = 5 and rep = 0
      and nodes = "replicate (Suc (Suc (Suc (Suc 0)))) \<lparr>node_Data = None, node_Len = 9\<rparr>"]
  by (simp add: field_count_def field_node_def)

end
