(* ===== verification/Memory_Ops.thy ===== *)
theory Memory_Ops
  imports C_String
begin

text \<open>
  The memory functions of \<open>common_lib/usdl_mem.c\<close>: byte-wise operations on blocks, copies between a
  line and a ring, pattern search, rotation, and the pool of locked address ranges. A block is the
  list of its bytes, pointers into it are offsets; different pointer arguments are different objects.
  Lengths are 32-bit words as in the code. \<open>None\<close> is an access outside an object or a loop that
  does not end.
\<close>

unbundle bit_operations_syntax

section \<open>Bytes of one block\<close>

text \<open>The loop that replaces \<open>n\<close> bytes from \<open>i\<close> on, and the one that folds them.\<close>

primrec mem_each :: "(u8 \<Rightarrow> u8) \<Rightarrow> nat \<Rightarrow> nat \<Rightarrow> u8 list \<Rightarrow> u8 list option" where
  "mem_each f 0 i ptr = Some ptr"
| "mem_each f (Suc n) i ptr = do { x \<leftarrow> rd ptr i; ptr \<leftarrow> wr ptr i (f x); mem_each f n (Suc i) ptr }"

primrec mem_fold :: "(u32 \<Rightarrow> u8 \<Rightarrow> u32) \<Rightarrow> nat \<Rightarrow> nat \<Rightarrow> u8 list \<Rightarrow> u32 \<Rightarrow> u32 option" where
  "mem_fold f 0 i ptr res = Some res"
| "mem_fold f (Suc n) i ptr res = do { x \<leftarrow> rd ptr i; mem_fold f n (Suc i) ptr (f res x) }"

definition MemAdd :: "u8 list \<Rightarrow> u8 \<Rightarrow> u32 \<Rightarrow> u8 list option" where
  "MemAdd ptr v len = mem_each (\<lambda>x. x + v) (unat len) 0 ptr"

definition MemSub :: "u8 list \<Rightarrow> u8 \<Rightarrow> u32 \<Rightarrow> u8 list option" where
  "MemSub ptr v len = mem_each (\<lambda>x. x - v) (unat len) 0 ptr"

definition MemAnd :: "u8 list \<Rightarrow> u8 \<Rightarrow> u32 \<Rightarrow> u8 list option" where
  "MemAnd ptr v len = mem_each (\<lambda>x. x AND v) (unat len) 0 ptr"

definition MemNot :: "u8 list \<Rightarrow> u32 \<Rightarrow> u8 list option" where
  "MemNot ptr len = mem_each (\<lambda>x. if x = 0 then 1 else 0) (unat len) 0 ptr"

definition MemBitNot :: "u8 list \<Rightarrow> u32 \<Rightarrow> u8 list option" where
  "MemBitNot ptr len = mem_each (\<lambda>x. NOT x) (unat len) 0 ptr"

definition MemOr :: "u8 list \<Rightarrow> u8 \<Rightarrow> u32 \<Rightarrow> u8 list option" where
  "MemOr ptr v len = mem_each (\<lambda>x. x OR v) (unat len) 0 ptr"

definition MemXor :: "u8 list \<Rightarrow> u8 \<Rightarrow> u32 \<Rightarrow> u8 list option" where
  "MemXor ptr v len = mem_each (\<lambda>x. x XOR v) (unat len) 0 ptr"

definition MemSum :: "u8 list \<Rightarrow> u32 \<Rightarrow> u32 option" where
  "MemSum ptr len = mem_fold (\<lambda>r x. r + ucast x) (unat len) 0 ptr 0"

definition MemAllAnd :: "u8 list \<Rightarrow> u32 \<Rightarrow> u32 option" where
  "MemAllAnd ptr len = mem_fold (\<lambda>r x. r AND ucast x) (unat len) 0 ptr (NOT 0)"

definition MemAllOr :: "u8 list \<Rightarrow> u32 \<Rightarrow> u32 option" where
  "MemAllOr ptr len = mem_fold (\<lambda>r x. r OR ucast x) (unat len) 0 ptr 0"

definition MemAllXor :: "u8 list \<Rightarrow> u32 \<Rightarrow> u32 option" where
  "MemAllXor ptr len = mem_fold (\<lambda>r x. r XOR ucast x) (unat len) 0 ptr 0"

text \<open>\<open>j = length - 1\<close> wraps for a length of 0.\<close>

function MemReverse_loop :: "u8 list \<Rightarrow> u32 \<Rightarrow> u32 \<Rightarrow> u8 list option" where
  "MemReverse_loop ptr i j =
     (if i < j then do {
        a \<leftarrow> rd ptr (unat i); b \<leftarrow> rd ptr (unat j); ptr \<leftarrow> wr ptr (unat i) (a XOR b);
        a \<leftarrow> rd ptr (unat i); b \<leftarrow> rd ptr (unat j); ptr \<leftarrow> wr ptr (unat j) (b XOR a);
        a \<leftarrow> rd ptr (unat i); b \<leftarrow> rd ptr (unat j); ptr \<leftarrow> wr ptr (unat i) (a XOR b);
        MemReverse_loop ptr (i + 1) (j - 1)
      }
      else Some ptr)"
  by pat_completeness auto
termination
proof (relation "measure (\<lambda>(ptr, i, j). unat j)", goal_cases)
  case (2 ptr i j)
  then have "j \<noteq> 0" by (metis word_not_simps(1))
  then show ?case by (simp add: unat_minus_one unat_gt_0)
qed simp

declare MemReverse_loop.simps [simp del]

definition MemReverse :: "u8 list \<Rightarrow> u32 \<Rightarrow> u8 list option" where
  "MemReverse ptr len = MemReverse_loop ptr 0 (len - 1)"

primrec MemReverseCpy_loop :: "nat \<Rightarrow> nat \<Rightarrow> u8 list \<Rightarrow> u8 list \<Rightarrow> nat \<Rightarrow> u8 list option" where
  "MemReverseCpy_loop 0 i dst src len = Some dst"
| "MemReverseCpy_loop (Suc n) i dst src len = do {
     x \<leftarrow> rd src (len - i - 1); dst \<leftarrow> wr dst i x; MemReverseCpy_loop n (Suc i) dst src len }"

definition MemReverseCpy :: "u8 list \<Rightarrow> u8 list \<Rightarrow> u32 \<Rightarrow> u8 list option" where
  "MemReverseCpy dst src len = MemReverseCpy_loop (unat len) 0 dst src (unat len)"

section \<open>Lines and rings\<close>

text \<open>\<open>memcpy\<close> of \<open>n\<close> bytes from offset \<open>s\<close> of one object to offset \<open>d\<close> of another.\<close>

definition mem_copy :: "u8 list \<Rightarrow> nat \<Rightarrow> u8 list \<Rightarrow> nat \<Rightarrow> nat \<Rightarrow> u8 list option" where
  "mem_copy dst d src s n = do { xs \<leftarrow> rds src s n; wrs dst d xs }"

text \<open>The loop copies whole turns of the ring; a turn is not empty (for an empty one it would not end).\<close>

function line_turns :: "u8 list \<Rightarrow> u8 list \<Rightarrow> nat \<Rightarrow> u32 \<Rightarrow> u32 \<Rightarrow> (u8 list \<times> nat \<times> u32) option" where
  "line_turns dst src s len copy_len =
     (if len > copy_len then
        (if copy_len = 0 then None
         else do { dst \<leftarrow> mem_copy dst 0 src s (unat copy_len);
                   line_turns dst src (s + unat copy_len) (len - copy_len) copy_len })
      else Some (dst, s, len))"
  by pat_completeness auto
termination
proof (relation "measure (\<lambda>(dst, src, s, len, copy_len). unat len)", goal_cases)
  case (2 dst src s len copy_len)
  then have "unat (len - copy_len) = unat len - unat copy_len" "0 < unat copy_len" "unat copy_len < unat len"
    by (simp_all add: unat_sub_noover unat_gt_0 word_less_nat_alt order_less_imp_le)
  then show ?case by simp
qed simp

declare line_turns.simps [simp del]

text \<open>The result is the ring and the offset of the write pointer.\<close>

definition MemLineToCycle :: "u8 list \<Rightarrow> u32 \<Rightarrow> u32 \<Rightarrow> u8 list \<Rightarrow> u32 \<Rightarrow> (nat \<times> u8 list) option" where
  "MemLineToCycle dst dst_size start_offset src len =
     (if dst_size = 0 \<or> start_offset \<ge> dst_size then Some (0, dst)
      else do {
        let copy_len = dst_size - start_offset;
        (dst, s, len, start_offset, copy_len) \<leftarrow>
          (if len > copy_len then do {
             dst \<leftarrow> mem_copy dst (unat start_offset) src 0 (unat copy_len);
             Some (dst, unat copy_len, len - copy_len, 0, dst_size)
           }
           else Some (dst, 0, len, start_offset, copy_len));
        (dst, s, len) \<leftarrow> line_turns dst src s len copy_len;
        dst \<leftarrow> mem_copy dst (unat start_offset) src s (unat len);
        Some (unat ((start_offset + len) mod dst_size), dst)
      })"

definition MemCycleToLine :: "u8 list \<Rightarrow> u8 list \<Rightarrow> u32 \<Rightarrow> u32 \<Rightarrow> u32 \<Rightarrow> (u32 \<times> u8 list) option" where
  "MemCycleToLine dst src start_pos end_pos src_size =
     (if end_pos > start_pos then do {
        let len = end_pos - start_pos;
        dst \<leftarrow> mem_copy dst 0 src (unat start_pos) (unat len);
        Some (len, dst)
      }
      else if end_pos < start_pos then do {
        let len = src_size - start_pos;
        dst \<leftarrow> mem_copy dst 0 src (unat start_pos) (unat len);
        dst \<leftarrow> mem_copy dst (unat len) src 0 (unat end_pos);
        Some (len + end_pos, dst)
      }
      else Some (0, dst))"

definition MemCycleSubToLine ::
    "u8 list \<Rightarrow> u8 list \<Rightarrow> u32 \<Rightarrow> u32 \<Rightarrow> u32 \<Rightarrow> u32 \<Rightarrow> (u32 \<times> u8 list) option" where
  "MemCycleSubToLine dst src start_pos end_pos src_size request_len =
     (if end_pos > start_pos then do {
        let head_len = end_pos - start_pos;
        let head_len = (if head_len > request_len then request_len else head_len);
        dst \<leftarrow> mem_copy dst 0 src (unat start_pos) (unat head_len);
        Some (head_len, dst)
      }
      else if end_pos < start_pos then do {
        let head_len = src_size - start_pos;
        if head_len \<ge> request_len then do {
          dst \<leftarrow> mem_copy dst 0 src (unat start_pos) (unat request_len);
          Some (request_len, dst)
        }
        else do {
          dst \<leftarrow> mem_copy dst 0 src (unat start_pos) (unat head_len);
          if end_pos \<ge> request_len - head_len then do {
            dst \<leftarrow> mem_copy dst (unat head_len) src 0 (unat (request_len - head_len));
            Some (request_len, dst)
          }
          else do {
            dst \<leftarrow> mem_copy dst (unat head_len) src 0 (unat end_pos);
            Some (head_len + end_pos, dst)
          }
        }
      }
      else Some (0, dst))"

section \<open>Search, rotation, comparison\<close>

text \<open>A pointer into the block is an offset, \<open>eos\<close> may lie in front of it.\<close>

function MemMem_loop :: "u8 list \<Rightarrow> u8 list \<Rightarrow> nat \<Rightarrow> int \<Rightarrow> nat \<Rightarrow> nat option option" where
  "MemMem_loop b1 b2 len2 eos sp =
     (if int sp \<le> eos then do {
        x \<leftarrow> rd b1 sp;
        y \<leftarrow> rd b2 0;
        same \<leftarrow> (if x = y then do { xs \<leftarrow> rds b1 sp len2; ys \<leftarrow> rds b2 0 len2; Some (xs = ys) } else Some False);
        if same then Some (Some sp) else MemMem_loop b1 b2 len2 eos (Suc sp)
      }
      else Some None)"
  by pat_completeness auto
termination by (relation "measure (\<lambda>(b1, b2, len2, eos, sp). nat (eos - int sp + 1))") auto

declare MemMem_loop.simps [simp del]

definition MemMem :: "u8 list option \<Rightarrow> u32 \<Rightarrow> u8 list option \<Rightarrow> u32 \<Rightarrow> nat option option" where
  "MemMem b1 len1 b2 len2 = (case (b1, b2) of
     (Some x, Some y) \<Rightarrow>
       (if len1 \<noteq> 0 \<and> len2 \<noteq> 0 then MemMem_loop x y (unat len2) (int (unat len1) - int (unat len2)) 0
        else Some None)
   | _ \<Rightarrow> Some None)"

text \<open>The body of the loop of \<open>MemShiftR\<close>: \<open>temp\<close> is 32 bits wide, the swap is by three exclusive ors.\<close>

primrec MemShiftR_loop :: "nat \<Rightarrow> u8 list \<Rightarrow> u32 \<Rightarrow> u32 \<Rightarrow> u32 \<Rightarrow> u32 \<Rightarrow> u32 \<Rightarrow> u8 list option" where
  "MemShiftR_loop 0 src src_len shift_len index start temp = Some src"
| "MemShiftR_loop (Suc n) src src_len shift_len index start temp = do {
     index \<leftarrow> umod (index + shift_len) src_len;
     x \<leftarrow> rd src (unat index);
     let x = (ucast (ucast x XOR temp) :: u8);
     let temp = temp XOR ucast x;
     let x = (ucast (ucast x XOR temp) :: u8);
     src \<leftarrow> wr src (unat index) x;
     if index = start then do {
       let start = start + 1;
       temp \<leftarrow> rd src (unat start);
       MemShiftR_loop n src src_len shift_len start start (ucast temp)
     }
     else MemShiftR_loop n src src_len shift_len index start temp
   }"

definition MemShiftR :: "u8 list option \<Rightarrow> u32 \<Rightarrow> u32 \<Rightarrow> u8 list option option" where
  "MemShiftR src src_len shift_len = (case src of
     None \<Rightarrow> Some None
   | Some b \<Rightarrow>
       if src_len = 0 \<or> shift_len = 0 then Some (Some b)
       else do {
         temp \<leftarrow> rd b 0;
         shift_len \<leftarrow> umod shift_len src_len;
         b \<leftarrow> MemShiftR_loop (unat src_len) b src_len shift_len 0 0 (ucast temp);
         Some (Some b)
       })"

primrec MemAllSameValue_loop :: "u8 list \<Rightarrow> u8 \<Rightarrow> nat \<Rightarrow> bool option" where
  "MemAllSameValue_loop src v 0 = Some True"
| "MemAllSameValue_loop src v (Suc len) = do {
     x \<leftarrow> rd src len; if x \<noteq> v then Some False else MemAllSameValue_loop src v len }"

definition MemAllSameValue :: "u8 list \<Rightarrow> u16 \<Rightarrow> u8 \<Rightarrow> bool option" where
  "MemAllSameValue src len v = MemAllSameValue_loop src v (unat len)"

primrec MemAllSame_loop :: "u8 list \<Rightarrow> nat \<Rightarrow> bool option" where
  "MemAllSame_loop src 0 = Some True"
| "MemAllSame_loop src (Suc len) = do {
     x \<leftarrow> rd src len; y \<leftarrow> rd src 0; if x \<noteq> y then Some False else MemAllSame_loop src len }"

definition MemAllSame :: "u8 list \<Rightarrow> u32 \<Rightarrow> bool option" where
  "MemAllSame src len = MemAllSame_loop src (unat len)"

section \<open>Two blocks\<close>

text \<open>\<open>while (len) { dst[len] = src1[len] op src2[len]; len--; }\<close>\<close>

primrec mem_zip :: "(u8 \<Rightarrow> u8 \<Rightarrow> u8) \<Rightarrow> u8 list \<Rightarrow> u8 list \<Rightarrow> u8 list \<Rightarrow> nat \<Rightarrow> u8 list option" where
  "mem_zip f dst src1 src2 0 = Some dst"
| "mem_zip f dst src1 src2 (Suc len) = do {
     x \<leftarrow> rd src1 (Suc len); y \<leftarrow> rd src2 (Suc len); dst \<leftarrow> wr dst (Suc len) (f x y);
     mem_zip f dst src1 src2 len }"

definition MemAddMem :: "u8 list \<Rightarrow> u8 list \<Rightarrow> u8 list \<Rightarrow> u32 \<Rightarrow> u8 list option" where
  "MemAddMem dst src1 src2 len = mem_zip (\<lambda>x y. x + y) dst src1 src2 (unat len)"

definition MemSubMem :: "u8 list \<Rightarrow> u8 list \<Rightarrow> u8 list \<Rightarrow> u32 \<Rightarrow> u8 list option" where
  "MemSubMem dst src1 src2 len = mem_zip (\<lambda>x y. x - y) dst src1 src2 (unat len)"

definition MemAndMem :: "u8 list \<Rightarrow> u8 list \<Rightarrow> u8 list \<Rightarrow> u32 \<Rightarrow> u8 list option" where
  "MemAndMem dst src1 src2 len = mem_zip (\<lambda>x y. x AND y) dst src1 src2 (unat len)"

definition MemOrMem :: "u8 list \<Rightarrow> u8 list \<Rightarrow> u8 list \<Rightarrow> u32 \<Rightarrow> u8 list option" where
  "MemOrMem dst src1 src2 len = mem_zip (\<lambda>x y. x OR y) dst src1 src2 (unat len)"

definition MemXorMem :: "u8 list \<Rightarrow> u8 list \<Rightarrow> u8 list \<Rightarrow> u32 \<Rightarrow> u8 list option" where
  "MemXorMem dst src1 src2 len = mem_zip (\<lambda>x y. x XOR y) dst src1 src2 (unat len)"

end
