(* ===== verification/Memory_Spec.thy ===== *)
theory Memory_Spec
  imports Memory_Ops
begin

text \<open>
  What the memory functions compute, in terms of lists: maps and folds of a part of the block,
  reversal, the byte-by-byte writing of a ring, the first occurrence of a pattern, the rotation of a
  block, and where the functions leave the bytes they were given.
\<close>

unbundle bit_operations_syntax

section \<open>Bytes of one block\<close>

lemma mem_each_eq:
  "i + n \<le> length ptr \<Longrightarrow> mem_each f n i ptr = Some (take i ptr @ map f (take n (drop i ptr)) @ drop (i + n) ptr)"
proof (induction n arbitrary: i ptr)
  case (Suc n)
  then have i: "i < length ptr" by simp
  have "take n (drop (Suc i) (ptr[i := f (ptr ! i)])) = take n (drop (Suc i) ptr)" by simp
  moreover have "take (Suc i) (ptr[i := f (ptr ! i)]) = take i ptr @ [f (ptr ! i)]"
    using i by (simp add: take_Suc_conv_app_nth)
  moreover have "take (Suc n) (drop i ptr) = ptr ! i # take n (drop (Suc i) ptr)"
    using i by (simp flip: Cons_nth_drop_Suc)
  ultimately show ?case
    using Suc.IH [of "Suc i" "ptr[i := f (ptr ! i)]"] Suc.prems i by (simp add: rd_Some wr_Some)
qed simp

lemma mem_fold_eq:
  "i + n \<le> length ptr \<Longrightarrow> mem_fold f n i ptr r = Some (foldl f r (take n (drop i ptr)))"
proof (induction n arbitrary: i r)
  case (Suc n)
  then have i: "i < length ptr" by simp
  then have "take (Suc n) (drop i ptr) = ptr ! i # take n (drop (Suc i) ptr)"
    by (simp flip: Cons_nth_drop_Suc)
  with Suc i show ?case by (simp add: rd_Some)
qed simp

lemma MemAdd_MemSub:
  assumes "unat len \<le> length ptr"
  shows "Option.bind (MemAdd ptr v len) (\<lambda>p. MemSub p v len) = Some ptr"
proof -
  have "map (\<lambda>x. x - v) (map (\<lambda>x. x + v) (take (unat len) ptr)) = take (unat len) ptr"
    by (simp add: comp_def)
  with assms show ?thesis by (simp add: MemAdd_def MemSub_def mem_each_eq)
qed

lemma MemXor_twice:
  assumes "unat len \<le> length ptr"
  shows "Option.bind (MemXor ptr v len) (\<lambda>p. MemXor p v len) = Some ptr"
proof -
  have "map (\<lambda>x. x XOR v) (map (\<lambda>x. x XOR v) (take (unat len) ptr)) = take (unat len) ptr"
    by (simp add: comp_def xor.assoc)
  with assms show ?thesis by (simp add: MemXor_def mem_each_eq)
qed

lemma unat_ucast_u8: "of_nat (unat (x :: u8)) = (ucast x :: u32)"
  by transfer simp

lemma MemSum_eq:
  assumes "unat len \<le> length ptr"
  shows "MemSum ptr len = Some (of_nat (sum_list (map unat (take (unat len) ptr))))"
proof -
  have "foldl (\<lambda>r x. r + ucast x) r xs = r + of_nat (sum_list (map unat xs))" for r :: u32 and xs :: "u8 list"
    by (induction xs arbitrary: r) (simp_all add: add.assoc unat_ucast_u8)
  with assms show ?thesis by (simp add: MemSum_def mem_fold_eq)
qed

lemma xor_swap: "(a XOR b) XOR (b XOR (a XOR b)) = (b :: u8)" "b XOR (a XOR b) = (a :: u8)"
  by (metis xor.assoc xor.commute xor.left_neutral xor_self_eq)+

lemma MemReverse_loop_eq:
  assumes "unat j < length ptr"
  shows "MemReverse_loop ptr i j = Some (map (\<lambda>k. if unat i \<le> k \<and> k \<le> unat j then ptr ! (unat i + unat j - k) else ptr ! k) [0..<length ptr])"
  using assms
proof (induction "unat j - unat i" arbitrary: i j ptr rule: less_induct)
  case less
  show ?case
  proof (cases "i < j")
    case False
    then have le: "unat j \<le> unat i" by (simp add: word_less_nat_alt)
    have "map (\<lambda>k. if unat i \<le> k \<and> k \<le> unat j then ptr ! (unat i + unat j - k) else ptr ! k) [0..<length ptr] = ptr"
    proof (rule nth_equalityI, goal_cases)
      case (2 k)
      show ?case
      proof (cases "unat i \<le> k \<and> k \<le> unat j")
        case True
        with le have "k = unat i" "k = unat j" by simp_all
        with 2 show ?thesis by simp
      next
        case False
        with 2 show ?thesis by auto
      qed
    qed simp
    with False show ?thesis by (subst MemReverse_loop.simps) simp
  next
    case True
    define a b where "a = ptr ! unat i" and "b = ptr ! unat j"
    define p where "p = ptr[unat i := b, unat j := a]"
    have ij: "unat i < unat j" using True by (simp add: word_less_nat_alt)
    have step: "MemReverse_loop ptr i j = MemReverse_loop p (i + 1) (j - 1)"
      using True ij less.prems unfolding p_def a_def b_def
      by (subst MemReverse_loop.simps) (simp add: rd_Some wr_Some xor_swap nth_list_update list_update_swap)
    have u: "unat (i + 1) = Suc (unat i)" "unat (j - 1) = unat j - 1"
    proof -
      have "j \<noteq> 0" using ij by auto
      then show "unat (i + 1) = Suc (unat i)" "unat (j - 1) = unat j - 1"
        using ij unat_less_u32 [of j] by (simp_all add: unat_Suc_word unat_minus_one)
    qed
    have IH: "MemReverse_loop p (i + 1) (j - 1) = Some (map (\<lambda>k. if unat (i + 1) \<le> k \<and> k \<le> unat (j - 1)
        then p ! (unat (i + 1) + unat (j - 1) - k) else p ! k) [0..<length p])"
      by (rule less.hyps) (use u ij less.prems in \<open>auto simp: p_def\<close>)
    have "map (\<lambda>k. if unat (i + 1) \<le> k \<and> k \<le> unat (j - 1) then p ! (unat (i + 1) + unat (j - 1) - k) else p ! k) [0..<length p] =
        map (\<lambda>k. if unat i \<le> k \<and> k \<le> unat j then ptr ! (unat i + unat j - k) else ptr ! k) [0..<length ptr]"
      using u ij less.prems by (intro nth_equalityI) (auto simp: p_def a_def b_def nth_list_update)
    with step IH show ?thesis by simp
  qed
qed

lemma MemReverse_eq:
  assumes "0 < unat len" and "unat len \<le> length ptr"
  shows "MemReverse ptr len = Some (rev (take (unat len) ptr) @ drop (unat len) ptr)"
proof -
  have u: "unat (len - 1) = unat len - 1" using assms(1) by (simp add: unat_minus_one unat_gt_0)
  have "map (\<lambda>k. if unat 0 \<le> k \<and> k \<le> unat (len - 1) then ptr ! (unat 0 + unat (len - 1) - k) else ptr ! k) [0..<length ptr] =
      rev (take (unat len) ptr) @ drop (unat len) ptr"
    using assms u by (intro nth_equalityI) (auto simp: nth_append rev_nth min_def)
  with MemReverse_loop_eq [of "len - 1" ptr 0] assms u show ?thesis by (simp add: MemReverse_def)
qed

text \<open>Reversing nothing runs off the block: \<open>length - 1\<close> wraps to the largest word.\<close>

lemma MemReverse_empty: "length ptr < 4294967296 \<Longrightarrow> MemReverse ptr 0 = None"
proof -
  assume len: "length ptr < 4294967296"
  have m: "(0 :: u32) - 1 = 0xFFFFFFFF" by simp
  have u: "unat (0xFFFFFFFF :: u32) = 4294967295" by simp
  show ?thesis
    unfolding MemReverse_def m using len by (subst MemReverse_loop.simps) (auto simp: rd_def u)
qed

lemma MemReverseCpy_loop_eq:
  "i + n = len \<Longrightarrow> len \<le> length src \<Longrightarrow> len \<le> length dst \<Longrightarrow>
     MemReverseCpy_loop n i dst src len = Some (take i dst @ rev (take n src) @ drop len dst)"
proof (induction n arbitrary: i dst)
  case (Suc n)
  have "take (Suc i) (dst[i := src ! n]) = take i dst @ [src ! n]"
    using Suc.prems by (simp add: take_Suc_conv_app_nth)
  moreover have "rev (take (Suc n) src) = src ! n # rev (take n src)"
    using Suc.prems by (simp add: take_Suc_conv_app_nth)
  moreover have "len - i - 1 = n" using Suc.prems by simp
  ultimately show ?case
    using Suc.IH [of "Suc i" "dst[i := src ! n]"] Suc.prems by (simp add: rd_Some wr_Some)
qed simp

lemma MemReverseCpy_eq:
  "unat len \<le> length src \<Longrightarrow> unat len \<le> length dst \<Longrightarrow>
     MemReverseCpy dst src len = Some (rev (take (unat len) src) @ drop (unat len) dst)"
  by (simp add: MemReverseCpy_def MemReverseCpy_loop_eq)

section \<open>Two blocks\<close>

text \<open>The operations on two blocks treat the bytes 1 to \<open>len\<close> instead of 0 to \<open>len - 1\<close>.\<close>

lemma mem_zip_eq:
  "n < length dst \<Longrightarrow> n < length src1 \<Longrightarrow> n < length src2 \<Longrightarrow>
     mem_zip f dst src1 src2 n = Some (map (\<lambda>k. if 1 \<le> k \<and> k \<le> n then f (src1 ! k) (src2 ! k) else dst ! k) [0..<length dst])"
proof (induction n arbitrary: dst)
  case 0
  then show ?case by (auto intro: nth_equalityI)
next
  case (Suc n)
  have "map (\<lambda>k. if 1 \<le> k \<and> k \<le> n then f (src1 ! k) (src2 ! k) else dst[Suc n := f (src1 ! Suc n) (src2 ! Suc n)] ! k) [0..<length dst] =
      map (\<lambda>k. if 1 \<le> k \<and> k \<le> Suc n then f (src1 ! k) (src2 ! k) else dst ! k) [0..<length dst]"
    using Suc.prems by (intro nth_equalityI) (auto simp: nth_list_update le_Suc_eq)
  with Suc show ?case by (simp add: rd_Some wr_Some)
qed

lemma mem_zip_off_by_one:
  "0 < n \<Longrightarrow> length src1 = n \<Longrightarrow> mem_zip f dst src1 src2 n = None"
  by (cases n) (auto simp: rd_def)

section \<open>Rings\<close>

text \<open>Writing a ring byte by byte, and what lies in a ring between two positions.\<close>

fun ring_put :: "nat \<Rightarrow> nat \<Rightarrow> u8 list \<Rightarrow> u8 list \<Rightarrow> nat \<times> u8 list" where
  "ring_put sz pos dst [] = (pos, dst)"
| "ring_put sz pos dst (x # xs) = ring_put sz ((pos + 1) mod sz) (dst[pos := x]) xs"

definition ring_segment :: "nat \<Rightarrow> u8 list \<Rightarrow> nat \<Rightarrow> nat \<Rightarrow> u8 list" where
  "ring_segment sz src start stop =
     (if start \<le> stop then take (stop - start) (drop start src)
      else take (sz - start) (drop start src) @ take stop src)"

lemma ring_put_append:
  "ring_put sz pos dst (xs @ ys) = (case ring_put sz pos dst xs of (pos, dst) \<Rightarrow> ring_put sz pos dst ys)"
  by (induction xs arbitrary: pos dst) auto

lemma ring_put_line:
  "pos < sz \<Longrightarrow> pos + length xs \<le> sz \<Longrightarrow> sz \<le> length dst \<Longrightarrow>
     ring_put sz pos dst xs = ((pos + length xs) mod sz, take pos dst @ xs @ drop (pos + length xs) dst)"
proof (induction xs arbitrary: pos dst)
  case (Cons x xs)
  show ?case
  proof (cases "Suc pos = sz")
    case True
    with Cons.prems have "xs = []" by (cases xs) simp_all
    with Cons.prems True show ?thesis by (simp add: upd_conv_take_nth_drop)
  next
    case False
    with Cons.prems have m: "Suc pos mod sz = Suc pos" by simp
    have "take (Suc pos) (dst[pos := x]) = take pos dst @ [x]"
      using Cons.prems by (simp add: take_Suc_conv_app_nth)
    with Cons.IH [of "Suc pos" "dst[pos := x]"] Cons.prems False m show ?thesis by simp
  qed
qed simp

lemma mem_copy_eq:
  "d + n \<le> length dst \<Longrightarrow> s + n \<le> length src \<Longrightarrow>
     mem_copy dst d src s n = Some (take d dst @ take n (drop s src) @ drop (d + n) dst)"
  by (simp add: mem_copy_def rds_Some wrs_Some)

lemma line_turns_ring:
  "unat sz \<le> length dst \<Longrightarrow> 0 < unat sz \<Longrightarrow> s + unat len \<le> length src \<Longrightarrow>
     \<exists>dst' s' len'. line_turns dst src s len sz = Some (dst', s', len') \<and> length dst' = length dst \<and>
       len' \<le> sz \<and> s' + unat len' = s + unat len \<and> s \<le> s' \<and>
       ring_put (unat sz) 0 dst (take (unat len) (drop s src)) = ring_put (unat sz) 0 dst' (take (unat len') (drop s' src))"
proof (induction "unat len" arbitrary: dst s len rule: less_induct)
  case less
  show ?case
  proof (cases "len > sz")
    case False
    then show ?thesis by (subst line_turns.simps) auto
  next
    case True
    have u: "unat (len - sz) = unat len - unat sz" "unat sz < unat len"
      using True by (simp_all add: unat_sub_noover word_less_nat_alt order_less_imp_le)
    define d where "d = take (unat sz) (drop s src) @ drop (unat sz) dst"
    have ld: "length d = length dst" using less.prems u by (simp add: d_def)
    have copy: "mem_copy dst 0 src s (unat sz) = Some d"
      using less.prems u by (simp add: mem_copy_eq d_def)
    have step: "line_turns dst src s len sz = line_turns d src (s + unat sz) (len - sz) sz"
      using True less.prems copy by (subst line_turns.simps) (simp add: unat_gt_0)
    have split: "take (unat len) (drop s src) =
        take (unat sz) (drop s src) @ take (unat (len - sz)) (drop (s + unat sz) src)"
      using take_add [of "unat sz" "unat len - unat sz" "drop s src"] u by (simp add: add.commute)
    have "ring_put (unat sz) 0 dst (take (unat sz) (drop s src)) = (0, d)"
      using less.prems u by (subst ring_put_line) (simp_all add: d_def)
    then have put: "ring_put (unat sz) 0 dst (take (unat len) (drop s src)) =
        ring_put (unat sz) 0 d (take (unat (len - sz)) (drop (s + unat sz) src))"
      unfolding split ring_put_append by simp
    have "\<exists>dst' s' len'. line_turns d src (s + unat sz) (len - sz) sz = Some (dst', s', len') \<and> length dst' = length d \<and>
       len' \<le> sz \<and> s' + unat len' = (s + unat sz) + unat (len - sz) \<and> s + unat sz \<le> s' \<and>
       ring_put (unat sz) 0 d (take (unat (len - sz)) (drop (s + unat sz) src)) =
         ring_put (unat sz) 0 dst' (take (unat len') (drop s' src))"
      by (rule less.hyps) (use less.prems u ld in simp_all)
    then show ?thesis unfolding step put using ld u by fastforce
  qed
qed

text \<open>C40: \<open>MemLineToCycle\<close> writes a ring. For every start in the ring and every length, also one of several
  turns, its block copies have the effect of writing the bytes one after the other around the ring,
  and the pointer returned is the next place.\<close>

theorem MemLineToCycle_ring:
  assumes "start < sz" and "unat sz \<le> length dst" and "unat len \<le> length src"
  shows "MemLineToCycle dst sz start src len = Some (ring_put (unat sz) (unat start) dst (take (unat len) src))"
proof -
  have st: "unat start < unat sz" using assms(1) by (simp add: word_less_nat_alt)
  have ne: "sz \<noteq> 0" "\<not> start \<ge> sz" using assms(1) by auto
  have room: "unat (sz - start) = unat sz - unat start"
    using assms(1) by (simp add: unat_sub_noover order_less_imp_le)
  have pos: "unat ((a + l) mod sz) = (unat a + unat l) mod unat sz" if "unat a + unat l \<le> unat sz" for a l
  proof -
    have "unat (a + l) = unat a + unat l" using that unat_less_u32 [of sz] by (intro unat_add_noover) simp
    then show ?thesis by (simp add: unat_mod)
  qed
  show ?thesis
  proof (cases "len > sz - start")
    case False
    then have l: "unat start + unat len \<le> unat sz" using room st by (simp add: word_less_nat_alt)
    have "line_turns dst src 0 len (sz - start) = Some (dst, 0, len)"
      using False by (subst line_turns.simps) simp
    with False l ne st assms show ?thesis
      by (simp add: MemLineToCycle_def mem_copy_eq ring_put_line pos)
  next
    case True
    define n where "n = unat (sz - start)"
    have l: "unat (len - (sz - start)) = unat len - n" "n < unat len"
      using True by (simp_all add: n_def unat_sub_noover word_less_nat_alt order_less_imp_le)
    define d where "d = take (unat start) dst @ take n src @ drop (unat sz) dst"
    have n: "unat start + n = unat sz" using room st by (simp add: n_def)
    have ld: "length d = length dst" using assms l n by (simp add: d_def)
    have copy: "mem_copy dst (unat start) src 0 n = Some d"
      using assms l n by (simp add: mem_copy_eq d_def)
    have put: "ring_put (unat sz) (unat start) dst (take n src) = (0, d)"
      using assms l n st by (subst ring_put_line) (simp_all add: d_def)
    obtain d' s' l' where turns: "line_turns d src n (len - (sz - start)) sz = Some (d', s', l')"
        and r: "length d' = length d" "l' \<le> sz" "s' + unat l' = n + unat (len - (sz - start))"
        and e: "ring_put (unat sz) 0 d (take (unat (len - (sz - start))) (drop n src)) =
            ring_put (unat sz) 0 d' (take (unat l') (drop s' src))"
      using line_turns_ring [of sz d n "len - (sz - start)" src] assms l ld st by auto
    have l': "unat l' \<le> unat sz" using r(2) by (simp add: word_le_nat_alt)
    have "take (unat len) src = take n src @ take (unat (len - (sz - start))) (drop n src)"
      using l by (simp add: take_add [symmetric])
    then have "ring_put (unat sz) (unat start) dst (take (unat len) src) =
        ring_put (unat sz) 0 d' (take (unat l') (drop s' src))"
      using put e by (simp add: ring_put_append)
    also have "\<dots> = (unat l' mod unat sz, take (unat l') (drop s' src) @ drop (unat l') d')"
      using l' r l assms st ld by (subst ring_put_line) simp_all
    finally show ?thesis
      using True ne copy turns r l' l assms ld pos [of 0 l']
      by (simp add: MemLineToCycle_def n_def [symmetric] mem_copy_eq)
  qed
qed

lemma MemLineToCycle_ring_witness:
  "MemLineToCycle [0, 0, 0, 7] 3 2 [1, 2, 3, 4, 5, 6, 8] 7 = Some (0, [5, 6, 8, 7])"
proof -
  have "ring_put 3 2 [0, 0, 0, 7] [1, 2, 3, 4, 5, 6, 8] = (0, [5, 6, 8, 7])" by code_simp
  with MemLineToCycle_ring [of 2 3 "[0, 0, 0, 7]" 7 "[1, 2, 3, 4, 5, 6, 8]"] show ?thesis by simp
qed

text \<open>What has been written between two positions is read back, all of it or its first part.\<close>

lemma of_nat_unat_u32: "of_nat (unat w) = (w :: u32)"
  by simp

lemma ring_segment_length:
  "start < sz \<Longrightarrow> stop < sz \<Longrightarrow> sz \<le> length src \<Longrightarrow>
     length (ring_segment sz src start stop) = (if start \<le> stop then stop - start else sz - start + stop)"
  by (simp add: ring_segment_def)

lemma MemCycleToLine_segment:
  assumes "start < sz" and "stop < sz" and "unat sz \<le> length src"
    and "seg = ring_segment (unat sz) src (unat start) (unat stop)" and "length seg \<le> length dst"
  shows "MemCycleToLine dst src start stop sz = Some (of_nat (length seg), seg @ drop (length seg) dst)"
proof -
  have lt: "unat start < unat sz" "unat stop < unat sz" using assms(1,2) by (simp_all add: word_less_nat_alt)
  have up: "unat (stop - start) = unat stop - unat start" if "start \<le> stop"
    using that by (simp add: unat_sub_noover)
  have room: "unat (sz - start) = unat sz - unat start"
    using assms(1) by (simp add: unat_sub_noover order_less_imp_le)
  consider "start < stop" | "stop < start" | "start = stop" by fastforce
  then show ?thesis
  proof cases
    case 1
    then have le: "unat start < unat stop" by (simp add: word_less_nat_alt)
    have w: "of_nat (unat stop - unat start) = stop - start"
      using up 1 of_nat_unat_u32 [of "stop - start"] by simp
    show ?thesis
      using 1 le lt assms(3-5) up by (simp add: MemCycleToLine_def ring_segment_def mem_copy_eq w)
  next
    case 2
    then have le: "unat stop < unat start" by (simp add: word_less_nat_alt)
    have w: "of_nat (unat sz - unat start) = sz - start"
      using room of_nat_unat_u32 [of "sz - start"] by simp
    show ?thesis
      using 2 le lt assms(3-5) room order_less_not_sym [OF 2]
      by (simp add: MemCycleToLine_def ring_segment_def mem_copy_eq w add.commute)
  next
    case 3
    with assms(4,5) lt show ?thesis by (simp add: MemCycleToLine_def ring_segment_def)
  qed
qed

lemma MemCycleSubToLine_prefix:
  assumes "start < sz" and "stop < sz" and "unat sz \<le> length src"
    and "seg = take (unat n) (ring_segment (unat sz) src (unat start) (unat stop))" and "length seg \<le> length dst"
  shows "MemCycleSubToLine dst src start stop sz n = Some (of_nat (length seg), seg @ drop (length seg) dst)"
proof -
  have lt: "unat start < unat sz" "unat stop < unat sz" using assms(1,2) by (simp_all add: word_less_nat_alt)
  have up: "unat (stop - start) = unat stop - unat start" if "start \<le> stop"
    using that by (simp add: unat_sub_noover)
  have room: "unat (sz - start) = unat sz - unat start"
    using assms(1) by (simp add: unat_sub_noover order_less_imp_le)
  consider "start < stop" | "stop < start" | "start = stop" by fastforce
  then show ?thesis
  proof cases
    case 1
    then have le: "unat start < unat stop" by (simp add: word_less_nat_alt)
    show ?thesis
    proof (cases "stop - start > n")
      case True
      then have "unat n < unat stop - unat start" using up 1 by (simp add: word_less_nat_alt order_less_imp_le)
      then have "seg = take (unat n) (drop (unat start) src)" "length seg = unat n"
        using le lt assms(3,4) by (simp_all add: ring_segment_def)
      with 1 True \<open>unat n < unat stop - unat start\<close> le lt assms(3,5) show ?thesis
        by (simp add: MemCycleSubToLine_def mem_copy_eq)
    next
      case False
      then have n: "unat stop - unat start \<le> unat n" using up 1 by (simp add: word_less_nat_alt order_less_imp_le)
      have w: "of_nat (unat stop - unat start) = stop - start"
        using up 1 of_nat_unat_u32 [of "stop - start"] by simp
      have "seg = take (unat stop - unat start) (drop (unat start) src)" "length seg = unat stop - unat start"
        using n le lt assms(3,4) by (simp_all add: ring_segment_def min_def)
      then show ?thesis
        using 1 False n le lt assms(3,5) up w by (simp add: MemCycleSubToLine_def mem_copy_eq)
    qed
  next
    case 2
    then have le: "unat stop < unat start" by (simp add: word_less_nat_alt)
    have w: "of_nat (unat sz - unat start) = sz - start"
      using room of_nat_unat_u32 [of "sz - start"] by simp
    show ?thesis
    proof (cases "sz - start \<ge> n")
      case True
      then have "unat n \<le> unat sz - unat start" using room by (simp add: word_le_nat_alt)
      then have "seg = take (unat n) (drop (unat start) src)" "length seg = unat n"
        using le lt assms(3,4) by (simp_all add: ring_segment_def)
      with 2 True \<open>unat n \<le> unat sz - unat start\<close> le lt assms(3,5) order_less_not_sym [OF 2] show ?thesis
        by (simp add: MemCycleSubToLine_def mem_copy_eq)
    next
      case False
      then have n: "unat sz - unat start < unat n" using room by (simp add: word_le_nat_alt)
      have rest: "unat (n - (sz - start)) = unat n - (unat sz - unat start)"
        using False room by (simp add: unat_sub_noover)
      show ?thesis
      proof (cases "stop \<ge> n - (sz - start)")
        case True
        then have "unat n - (unat sz - unat start) \<le> unat stop" using rest by (simp add: word_le_nat_alt)
        then have "seg = take (unat sz - unat start) (drop (unat start) src) @ take (unat n - (unat sz - unat start)) src"
            "length seg = unat n"
          using le lt n assms(3,4) by (simp_all add: ring_segment_def)
        with 2 False True n le lt assms(3,5) rest room order_less_not_sym [OF 2]
          \<open>unat n - (unat sz - unat start) \<le> unat stop\<close> show ?thesis
          by (simp add: MemCycleSubToLine_def mem_copy_eq)
      next
        case no: False
        then have "unat stop < unat n - (unat sz - unat start)" using rest by (simp add: word_le_nat_alt)
        then have "seg = take (unat sz - unat start) (drop (unat start) src) @ take (unat stop) src"
            "length seg = unat sz - unat start + unat stop"
          using le lt n assms(3,4) by (simp_all add: ring_segment_def)
        with 2 False no n le lt assms(3,5) rest room order_less_not_sym [OF 2] show ?thesis
          by (simp add: MemCycleSubToLine_def mem_copy_eq w add.commute)
      qed
    qed
  next
    case 3
    with assms(4,5) lt show ?thesis by (simp add: MemCycleSubToLine_def ring_segment_def)
  qed
qed

lemma ring_put_segment:
  assumes "start < sz" and "sz \<le> length dst" and "length xs < sz"
    and "(stop, dst') = ring_put sz start dst xs"
  shows "stop < sz \<and> length dst' = length dst \<and> ring_segment sz dst' start stop = xs"
proof (cases "start + length xs < sz")
  case True
  have "ring_put sz start dst xs = (start + length xs, take start dst @ xs @ drop (start + length xs) dst)"
    using ring_put_line [of start sz xs dst] True assms(1,2) by simp
  with assms True show ?thesis by (simp add: ring_segment_def)
next
  case False
  define n where "n = sz - start"
  have xs: "xs = take n xs @ drop n xs" by simp
  define d where "d = take start dst @ take n xs @ drop sz dst"
  have n: "n \<le> length xs" using False by (simp add: n_def)
  have "ring_put sz start dst (take n xs) = (0, d)"
    using assms n by (subst ring_put_line) (simp_all add: d_def n_def)
  then have "ring_put sz start dst xs = ring_put sz 0 d (drop n xs)"
    by (subst xs, subst ring_put_append) simp
  also have "\<dots> = (length xs - n, drop n xs @ drop (length xs - n) d)"
    using assms n by (subst ring_put_line) (simp_all add: d_def n_def)
  finally have r: "stop = length xs - n" "dst' = drop n xs @ drop (length xs - n) d"
    using assms(4) by simp_all
  have s: "stop < start" using assms(1,3) n by (simp add: r n_def)
  have "drop start dst' = drop start d"
    using s n by (simp add: r)
  then have "take n (drop start dst') = take n xs"
    using assms(1,2) n by (simp add: d_def)
  moreover have "take stop dst' = drop n xs" by (simp add: r)
  moreover have "length dst' = length dst" using assms n by (simp add: r d_def n_def)
  ultimately show ?thesis using s assms(1) xs by (simp add: ring_segment_def n_def [symmetric])
qed

section \<open>Search\<close>

definition first_match :: "u8 list \<Rightarrow> u8 list \<Rightarrow> nat \<Rightarrow> nat option \<Rightarrow> bool" where
  "first_match pat blk sp res \<longleftrightarrow> (case res of
     None \<Rightarrow> \<forall>k. sp \<le> k \<and> k + length pat \<le> length blk \<longrightarrow> take (length pat) (drop k blk) \<noteq> pat
   | Some k \<Rightarrow> sp \<le> k \<and> k + length pat \<le> length blk \<and> take (length pat) (drop k blk) = pat \<and>
       (\<forall>j. sp \<le> j \<and> j < k \<longrightarrow> take (length pat) (drop j blk) \<noteq> pat))"

lemma first_match_here:
  "sp + length pat \<le> length blk \<Longrightarrow> take (length pat) (drop sp blk) = pat \<Longrightarrow> first_match pat blk sp (Some sp)"
  unfolding first_match_def option.case by (intro conjI allI impI) linarith+

lemma first_match_later:
  assumes "first_match pat blk (Suc sp) res" and "take (length pat) (drop sp blk) \<noteq> pat"
  shows "first_match pat blk sp res"
proof -
  show ?thesis
  proof (cases res)
    case None
    have l: "\<forall>k. Suc sp \<le> k \<and> k + length pat \<le> length blk \<longrightarrow> take (length pat) (drop k blk) \<noteq> pat"
      using assms(1) unfolding first_match_def None option.case .
    show ?thesis unfolding first_match_def None option.case
    proof (intro allI impI)
      fix k assume k: "sp \<le> k \<and> k + length pat \<le> length blk"
      show "take (length pat) (drop k blk) \<noteq> pat"
      proof (cases "k = sp")
        case False
        with k have "Suc sp \<le> k" by simp
        with l k show ?thesis by blast
      qed (use assms(2) in simp)
    qed
  next
    case (Some k)
    have k: "Suc sp \<le> k" "k + length pat \<le> length blk" "take (length pat) (drop k blk) = pat"
        "\<forall>j. Suc sp \<le> j \<and> j < k \<longrightarrow> take (length pat) (drop j blk) \<noteq> pat"
      using assms(1) unfolding first_match_def Some option.case by blast+
    have "\<forall>j. sp \<le> j \<and> j < k \<longrightarrow> take (length pat) (drop j blk) \<noteq> pat"
    proof (intro allI impI)
      fix j assume j: "sp \<le> j \<and> j < k"
      show "take (length pat) (drop j blk) \<noteq> pat"
      proof (cases "j = sp")
        case False
        with j have "Suc sp \<le> j" by simp
        with k(4) j show ?thesis by blast
      qed (use assms(2) in simp)
    qed
    moreover have "sp \<le> k" using k(1) by simp
    ultimately show ?thesis using k(2,3) unfolding first_match_def Some option.case by blast
  qed
qed

lemma MemMem_loop_spec:
  assumes "0 < length pat" and "eos = int (length blk) - int (length pat)"
  shows "\<exists>res. MemMem_loop (blk @ r) (pat @ q) (length pat) eos sp = Some res \<and> first_match pat blk sp res"
proof (induction "length blk - sp" arbitrary: sp rule: less_induct)
  case less
  show ?case
  proof (cases "int sp \<le> eos")
    case False
    then have "\<not> (sp \<le> k \<and> k + length pat \<le> length blk)" for k using assms(2) by linarith
    then have "first_match pat blk sp None" by (auto simp: first_match_def)
    with False show ?thesis by (subst MemMem_loop.simps) simp
  next
    case True
    then have sp: "sp + length pat \<le> length blk" using assms(2) by linarith
    with assms(1) have lt: "sp < length blk" by linarith
    have head: "rd (blk @ r) sp = Some (blk ! sp)" "rd (pat @ q) 0 = Some (pat ! 0)"
      using lt assms(1) by (simp_all add: rd_Some nth_append)
    have slice: "rds (blk @ r) sp (length pat) = Some (take (length pat) (drop sp blk))"
        "rds (pat @ q) 0 (length pat) = Some pat"
      using sp by (simp_all add: rds_Some)
    show ?thesis
    proof (cases "take (length pat) (drop sp blk) = pat")
      case match: True
      then have "blk ! sp = pat ! 0"
        using lt assms(1) by (metis Cons_nth_drop_Suc hd_conv_nth length_greater_0_conv list.sel(1) take_eq_Nil2 hd_take)
      with True head slice match have "MemMem_loop (blk @ r) (pat @ q) (length pat) eos sp = Some (Some sp)"
        by (subst MemMem_loop.simps) simp
      with first_match_here [OF sp match] show ?thesis by blast
    next
      case no: False
      have "length blk - Suc sp < length blk - sp" using lt by simp
      then obtain res where "MemMem_loop (blk @ r) (pat @ q) (length pat) eos (Suc sp) = Some res"
          and later: "first_match pat blk (Suc sp) res"
        using less.hyps by blast
      then have "MemMem_loop (blk @ r) (pat @ q) (length pat) eos sp = Some res"
        using True no head slice by (subst MemMem_loop.simps) simp
      with first_match_later [OF later no] show ?thesis by blast
    qed
  qed
qed

text \<open>\<open>MemMem\<close> finds the first occurrence in a block that is not empty, and an empty pattern nowhere.\<close>

lemma MemMem_first:
  assumes "pat \<noteq> []" and "blk \<noteq> []" and "length pat < 2 ^ 32" and "length blk < 2 ^ 32"
  shows "\<exists>res. MemMem (Some (blk @ r)) (of_nat (length blk)) (Some (pat @ q)) (of_nat (length pat)) = Some res \<and>
    first_match pat blk 0 res"
proof -
  have u: "unat (of_nat (length pat) :: u32) = length pat" "unat (of_nat (length blk) :: u32) = length blk"
    using assms(3,4) by (simp_all add: unat_of_nat take_bit_nat_eq_self)
  have "(of_nat (length pat) :: u32) \<noteq> 0" "(of_nat (length blk) :: u32) \<noteq> 0"
    using u assms(1,2) by (metis length_0_conv unat_0)+
  with MemMem_loop_spec [of pat "int (length blk) - int (length pat)" blk r q 0] u assms(1) show ?thesis
    by (simp add: MemMem_def)
qed

end
