(* ===== verification/Memory_Rotation.thy ===== *)
theory Memory_Rotation
  imports Memory_Spec
begin

text \<open>
  \<open>MemShiftR\<close> follows the cycles of the rotation: it carries a value along a cycle until it is back
  at the start and goes on with the next one. There are \<open>gcd n s\<close> cycles of equal length; the
  invariant says which places have their final value after some cycles and some steps of the next.
\<close>

unbundle bit_operations_syntax

lemma ucast_xor_u8: "ucast (ucast (x :: u8) XOR (ucast t :: u32)) = x XOR (t :: u8)"
  by (rule bit_word_eqI) (simp add: bit_simps)

lemma ucast_xor_u32: "ucast (t :: u8) XOR (ucast x :: u32) = ucast (t XOR x)"
  by (rule bit_word_eqI) (auto simp: bit_simps)

lemma xor_cancel: "t XOR (x XOR t) = (x :: u8)" "(x XOR t) XOR x = (t :: u8)"
  by (metis xor.assoc xor.commute xor.left_neutral xor_self_eq)+

lemma ucast_ucast_u8: "ucast (ucast (x :: u8) :: u32) = x"
  by (rule bit_word_eqI) (simp add: bit_simps)

text \<open>One step: the value carried goes to the next place of the cycle, the value there is carried on.\<close>

lemma MemShiftR_step:
  assumes "i < n" and "s < n" and "n \<le> 2147483648" and "n \<le> length b" and "start < 2 ^ 32"
    and "ix = (i + s) mod n" and "b' = b[ix := t]"
  shows "MemShiftR_loop (Suc m) b (of_nat n) (of_nat s) (of_nat i) (of_nat start) (ucast t) =
    (if ix = start then Option.bind (rd b' (unat (of_nat start + 1 :: u32))) (\<lambda>x.
        MemShiftR_loop m b' (of_nat n) (of_nat s) (of_nat start + 1) (of_nat start + 1) (ucast x))
     else MemShiftR_loop m b' (of_nat n) (of_nat s) (of_nat ix) (of_nat start) (ucast (b ! ix)))"
proof -
  have u: "unat (of_nat k :: u32) = k" if "k < 2 ^ 32" for k
    using that by (simp add: unat_of_nat take_bit_nat_eq_self)
  have nz: "(of_nat n :: u32) \<noteq> 0"
  proof
    assume "(of_nat n :: u32) = 0"
    then have "unat (of_nat n :: u32) = 0" by simp
    with u [of n] assms show False by simp
  qed
  have "(of_nat i + of_nat s :: u32) mod of_nat n = of_nat ix"
  proof (rule word_unat_eq_iff [THEN iffD2])
    have "unat (of_nat i + of_nat s :: u32) = i + s"
      using u [of "i + s"] assms(1-3) by (simp flip: of_nat_add)
    then show "unat ((of_nat i + of_nat s :: u32) mod of_nat n) = unat (of_nat ix :: u32)"
      using u [of n] u [of ix] assms(1-3,6) by (simp add: unat_mod order_less_le_trans [OF mod_less_divisor])
  qed
  then have idx: "umod (of_nat i + of_nat s :: u32) (of_nat n) = Some (of_nat ix)"
    using nz by (simp add: umod_def)
  have ixn: "ix < n" using assms by simp
  have ix: "unat (of_nat ix :: u32) = ix" "ix < length b"
    using ixn u [of ix] assms(3,4) by simp_all
  have eq: "(of_nat ix :: u32) = of_nat start \<longleftrightarrow> ix = start"
    using u [of start] ix(1) assms(5) by metis
  show ?thesis
    using idx ix eq assms(7)
    by (simp add: Let_def rd_Some wr_Some ucast_xor_u8 ucast_xor_u32 ucast_ucast_u8 xor_cancel)
qed

section \<open>The cycles of a rotation\<close>

text \<open>\<open>g\<close> cycles of \<open>l\<close> places each.\<close>

lemma cycle_distinct:
  fixes n s :: nat
  assumes "0 < n" "l = n div gcd n s" "i < k" "k - i < l"
  shows "(m + i * s) mod n \<noteq> (m + k * s) mod n"
proof
  assume e: "(m + i * s) mod n = (m + k * s) mod n"
  have le: "m + i * s \<le> m + k * s" using assms(3) by simp
  have "n dvd (m + k * s) - (m + i * s)"
    using mod_eq_dvd_iff_nat [OF le, of n] e by simp
  then have d: "n dvd (k - i) * s" by (simp add: diff_mult_distrib)
  have g: "gcd n s \<noteq> 0" using assms(1) by simp
  obtain n' s' where ns: "n = n' * gcd n s" "s = s' * gcd n s" "coprime n' s'"
    using gcd_coprime_exists [OF g] by blast
  have l: "l = n'" using assms(2) ns(1) g by (metis nonzero_mult_div_cancel_right)
  have "n' * gcd n s dvd ((k - i) * s') * gcd n s" using d ns(1,2) by (metis mult.assoc)
  then have "n' dvd (k - i) * s'" using g assms(1) by auto
  then have "l dvd k - i" using ns(3) l by (simp add: coprime_dvd_mult_left_iff)
  with assms(3,4) show False by (auto dest: dvd_imp_le)
qed

lemma cycle_closed:
  fixes n s :: nat
  assumes "0 < n" "l = n div gcd n s"
  shows "(m + (l + k) * s) mod n = (m + k * s) mod n"
proof -
  have "l * s = n * (s div gcd n s)"
    using assms by (metis div_mult_swap dvd_div_mult gcd_dvd1 gcd_dvd2 mult.commute)
  then have "m + (l + k) * s = (m + k * s) + n * (s div gcd n s)" by (simp add: algebra_simps)
  then show ?thesis by (metis mod_mult_self2)
qed

lemma cycle_covers:
  fixes n s :: nat
  assumes "0 < n" "0 < s" "l = n div gcd n s" "j < n" "j mod gcd n s = m"
  shows "\<exists>i. 0 < i \<and> i \<le> l \<and> j = (m + i * s) mod n"
proof -
  define g where "g = gcd n s"
  obtain x y where xy: "s * x = n * y + g"
    using bezout_nat [of s n] assms(2) by (auto simp: g_def gcd.commute)
  define q where "q = j div g"
  have j: "j = m + q * g" using assms(5) mod_div_mult_eq [of j g] by (simp add: q_def g_def)
  have "q * x * s = q * (s * x)" by (simp add: algebra_simps)
  then have "m + q * x * s = j + n * (q * y)" by (simp add: xy j algebra_simps)
  then have start: "(m + q * x * s) mod n = j" using assms(4) by simp
  have l: "0 < l" using assms(1,3) by (simp add: div_greater_zero_iff dvd_imp_le)
  have red: "(m + (l * c + k) * s) mod n = (m + k * s) mod n" for c k
  proof (induction c)
    case (Suc c)
    have "(m + (l * Suc c + k) * s) mod n = (m + (l + (l * c + k)) * s) mod n" by (simp add: algebra_simps)
    also have "\<dots> = (m + (l * c + k) * s) mod n" by (rule cycle_closed [OF assms(1,3)])
    finally show ?case using Suc by simp
  qed simp
  define i where "i = q * x mod l"
  have "(m + i * s) mod n = j"
    using red [of "q * x div l" i] start by (simp add: i_def)
  moreover have "(m + l * s) mod n = (m + 0 * s) mod n"
    using cycle_closed [OF assms(1,3), of m 0] by simp
  ultimately show ?thesis
    using l by (cases "i = 0") (auto simp: i_def intro: exI [of _ l] exI [of _ "q * x mod l"] less_imp_le)
qed

section \<open>The loop\<close>

text \<open>After \<open>m\<close> cycles and \<open>k\<close> steps of the next one these places have their final value.\<close>

definition rotated :: "nat \<Rightarrow> nat \<Rightarrow> nat \<Rightarrow> nat \<Rightarrow> nat \<Rightarrow> bool" where
  "rotated n s m k j \<longleftrightarrow> j mod gcd n s < m \<or> (\<exists>i. 0 < i \<and> i \<le> k \<and> j = (m + i * s) mod n)"

definition rotating :: "u8 list \<Rightarrow> nat \<Rightarrow> nat \<Rightarrow> nat \<Rightarrow> nat \<Rightarrow> u8 list \<Rightarrow> bool" where
  "rotating x n s m k b \<longleftrightarrow> length b = length x \<and> n \<le> length x \<and> drop n b = drop n x \<and>
     (\<forall>j < n. b ! j = (if rotated n s m k j then x ! ((j + n - s) mod n) else x ! j))"

lemma place_class:
  fixes n s :: nat
  assumes "m < gcd n s"
  shows "(m + i * s) mod n mod gcd n s = m"
proof -
  have "(m + i * s) mod n mod gcd n s = (m + i * s) mod gcd n s" by (rule mod_mod_cancel) simp
  also have "\<dots> = m mod gcd n s"
    by (metis dvd_mult gcd_dvd2 mod_add_right_eq mod_0_imp_dvd dvd_imp_mod_0 add.right_neutral)
  finally show ?thesis using assms by simp
qed

lemma rotated_next:
  assumes "0 < s" "s < n" "l = n div gcd n s" "m < gcd n s" "k < l"
  shows "\<not> rotated n s m k ((m + Suc k * s) mod n)"
proof
  assume "rotated n s m k ((m + Suc k * s) mod n)"
  then obtain i where i: "0 < i" "i \<le> k" "(m + i * s) mod n = (m + Suc k * s) mod n"
    using place_class [OF assms(4), of "Suc k"] by (auto simp: rotated_def)
  have "Suc k - i < l" using i(1) assms(5) by linarith
  with cycle_distinct [of n l s i "Suc k" m] assms i show False by simp
qed

lemma rotated_Suc:
  "rotated n s m (Suc k) j \<longleftrightarrow> rotated n s m k j \<or> j = (m + Suc k * s) mod n"
  by (auto simp: rotated_def le_Suc_eq)

lemma rotated_cycle:
  assumes "0 < s" "s < n" "l = n div gcd n s" "m < gcd n s" "j < n"
  shows "rotated n s m l j \<longleftrightarrow> rotated n s (Suc m) 0 j"
proof
  assume "rotated n s m l j"
  then show "rotated n s (Suc m) 0 j"
    using place_class [OF assms(4)] by (auto simp: rotated_def)
next
  assume "rotated n s (Suc m) 0 j"
  then consider "j mod gcd n s < m" | "j mod gcd n s = m" by (auto simp: rotated_def less_Suc_eq)
  then show "rotated n s m l j"
  proof cases
    case 2
    have n: "0 < n" using assms(1,2) by simp
    show ?thesis using cycle_covers [OF n assms(1,3,5) 2] by (auto simp: rotated_def)
  qed (simp add: rotated_def)
qed

lemma rotating_step:
  assumes "rotating x n s m k b" "0 < s" "s < n" "l = n div gcd n s" "m < gcd n s" "k < l"
    and "ix = (m + Suc k * s) mod n"
  shows "rotating x n s m (Suc k) (b[ix := x ! ((m + k * s) mod n)])" and "b ! ix = x ! ix" and "ix < n"
proof -
  have ix: "ix < n" using assms(2,3,7) by simp
  then show "ix < n" .
  have new: "\<not> rotated n s m k ix" using rotated_next [OF assms(2-6)] assms(7) by simp
  with assms(1) ix show "b ! ix = x ! ix" by (simp add: rotating_def)
  have "(ix + n - s) mod n = (ix + (n - s)) mod n" using assms(3) by simp
  also have "\<dots> = (m + Suc k * s + (n - s)) mod n" by (simp add: assms(7) mod_add_left_eq)
  also have "m + Suc k * s + (n - s) = (m + k * s) + n" using assms(3) by simp
  finally have prev: "(ix + n - s) mod n = (m + k * s) mod n" by simp
  show "rotating x n s m (Suc k) (b[ix := x ! ((m + k * s) mod n)])"
    using assms(1) ix prev unfolding rotating_def rotated_Suc assms(7) [symmetric]
    by (auto simp: nth_list_update)
qed

lemma MemShiftR_loop_rotates:
  assumes "0 < s" "s < n" "n \<le> 2147483648" "l = n div gcd n s"
  shows "rotating x n s m k b \<Longrightarrow> (m < gcd n s \<and> k < l) \<or> (m = gcd n s \<and> k = 0) \<Longrightarrow>
    r = (gcd n s - m) * l - k \<Longrightarrow>
    \<exists>b'. MemShiftR_loop r b (of_nat n) (of_nat s) (of_nat ((m + k * s) mod n)) (of_nat m) (ucast (x ! ((m + k * s) mod n))) = Some b' \<and>
      rotating x n s (gcd n s) 0 b'"
proof (induction r arbitrary: m k b)
  case 0
  have l: "0 < l" using assms(2,4) by (simp add: div_greater_zero_iff dvd_imp_le)
  have "m = gcd n s \<and> k = 0"
  proof (rule ccontr)
    assume "\<not> (m = gcd n s \<and> k = 0)"
    with 0 have m: "m < gcd n s" "k < l" by auto
    then have "1 * l \<le> (gcd n s - m) * l" by (intro mult_le_mono1) simp
    with 0(3) m show False by simp
  qed
  with 0 show ?case by simp
next
  case (Suc r)
  have m: "m < gcd n s" "k < l" using Suc.prems by auto
  have gn: "gcd n s < n" using assms(1,2) by (meson dvd_imp_le gcd_dvd2 le_less_trans)
  define ix where "ix = (m + Suc k * s) mod n"
  define b' where "b' = b[ix := x ! ((m + k * s) mod n)]"
  note st = rotating_step [OF Suc.prems(1) assms(1,2,4) m ix_def]
  have inv: "rotating x n s m (Suc k) b'" using st(1) by (simp add: b'_def)
  have len: "n \<le> length b" "length b = length x" using Suc.prems(1) by (simp_all add: rotating_def)
  have nx: "((m + k * s) mod n + s) mod n = ix"
    unfolding ix_def mod_add_left_eq by (simp add: add.commute add.left_commute)
  have step: "MemShiftR_loop (Suc r) b (of_nat n) (of_nat s) (of_nat ((m + k * s) mod n)) (of_nat m) (ucast (x ! ((m + k * s) mod n))) =
    (if ix = m then Option.bind (rd b' (unat (of_nat m + 1 :: u32))) (\<lambda>y.
        MemShiftR_loop r b' (of_nat n) (of_nat s) (of_nat m + 1) (of_nat m + 1) (ucast y))
     else MemShiftR_loop r b' (of_nat n) (of_nat s) (of_nat ix) (of_nat m) (ucast (b ! ix)))"
    by (rule MemShiftR_step) (use assms(1-3) m gn len nx in \<open>auto simp: b'_def\<close>)
  show ?case
  proof (cases "Suc k = l")
    case False
    with m have k: "Suc k < l" by simp
    have "ix \<noteq> m"
    proof
      assume "ix = m"
      then have "(m + 0 * s) mod n = (m + Suc k * s) mod n" using m gn by (simp add: ix_def)
      with cycle_distinct [of n l s 0 "Suc k" m] assms k show False by auto
    qed
    with step have "MemShiftR_loop (Suc r) b (of_nat n) (of_nat s) (of_nat ((m + k * s) mod n)) (of_nat m) (ucast (x ! ((m + k * s) mod n))) =
        MemShiftR_loop r b' (of_nat n) (of_nat s) (of_nat ((m + Suc k * s) mod n)) (of_nat m) (ucast (x ! ((m + Suc k * s) mod n)))"
      using st(2) by (simp add: ix_def)
    moreover have "r = (gcd n s - m) * l - Suc k" using Suc.prems(3) by simp
    ultimately show ?thesis using Suc.IH [OF inv] m(1) k by simp
  next
    case True
    have "ix = m" using cycle_closed [of n l s m 0] assms True m gn by (simp add: ix_def)
    have w: "(of_nat m + 1 :: u32) = of_nat (Suc m)" by simp
    have u: "unat (of_nat m + 1 :: u32) = Suc m"
      unfolding w using m gn assms(3) by (simp add: unat_of_nat take_bit_nat_eq_self del: of_nat_Suc)
    have in_b: "Suc m < n" using m(1) gn by simp
    have inv': "rotating x n s (Suc m) 0 b'"
      using inv rotated_cycle [OF assms(1,2,4) m(1)] unfolding True by (simp add: rotating_def)
    have lb: "Suc m < length b'" using in_b len by (simp add: b'_def)
    have run: "MemShiftR_loop (Suc r) b (of_nat n) (of_nat s) (of_nat ((m + k * s) mod n)) (of_nat m) (ucast (x ! ((m + k * s) mod n))) =
        MemShiftR_loop r b' (of_nat n) (of_nat s) (of_nat (Suc m)) (of_nat (Suc m)) (ucast (b' ! Suc m))"
      using step \<open>ix = m\<close> u w rd_Some [OF lb] by simp
    have rest: "r = (gcd n s - Suc m) * l"
    proof -
      have "(gcd n s - m) * l = (gcd n s - Suc m) * l + l"
        using m(1) by (simp add: Suc_diff_Suc [symmetric])
      with Suc.prems(3) True show ?thesis by simp
    qed
    show ?thesis
    proof (cases "Suc m = gcd n s")
      case last: True
      then have "r = 0" using rest by simp
      with run inv' last show ?thesis by simp
    next
      case False
      then have sm: "Suc m < gcd n s" using m(1) by simp
      then have "\<not> rotated n s (Suc m) 0 (Suc m)" by (simp add: rotated_def)
      then have y: "b' ! Suc m = x ! Suc m" using inv' in_b by (simp add: rotating_def)
      show ?thesis using Suc.IH [OF inv'] sm m(2) rest run y in_b by simp
    qed
  qed
qed

lemma rotating_done:
  assumes "rotating (x @ r) n s (gcd n s) 0 b" and "length x = n" and "0 < s" and "s < n"
  shows "b = rotate (n - s) x @ r"
proof (rule nth_equalityI)
  show "length b = length (rotate (n - s) x @ r)" using assms(1) by (simp add: rotating_def)
  fix j assume j: "j < length b"
  show "b ! j = (rotate (n - s) x @ r) ! j"
  proof (cases "j < n")
    case True
    then have "rotated n s (gcd n s) 0 j" using assms(3) by (simp add: rotated_def)
    with True assms(1) have "b ! j = (x @ r) ! ((j + n - s) mod n)" by (simp add: rotating_def)
    moreover have "(j + n - s) mod n < n" "j + n - s = n - s + j" using assms(4) by simp_all
    ultimately show ?thesis using True assms(2) by (simp add: nth_append nth_rotate)
  next
    case False
    have "drop n b = r" using assms(1,2) by (simp add: rotating_def)
    moreover have "drop n b ! (j - n) = b ! j" using False j by simp
    ultimately have "b ! j = r ! (j - n)" by simp
    with False assms(2) show ?thesis by (simp add: nth_append)
  qed
qed

text \<open>C35: \<open>MemShiftR\<close> rotates its block to the right. For every shift that is not a multiple of the length
  the byte at each place moves on by the shift around the block, nothing behind the block changes and
  nothing outside it is read, whatever common divisors length and shift have.\<close>

theorem MemShiftR_rotates:
  assumes "length x = unat n" and "unat n \<le> 2147483648" and "n \<noteq> 0" and "s mod n \<noteq> 0"
  shows "MemShiftR (Some (x @ r)) n s = Some (Some (rotate (unat n - unat (s mod n)) x @ r))"
proof -
  define k where "k = unat (s mod n)"
  have nz: "n \<noteq> 0" "s \<noteq> 0" using assms(3,4) by auto
  have k: "0 < k" "k < unat n"
  proof -
    show "0 < k" using assms(4) unfolding k_def unat_gt_0 .
    show "k < unat n" using nz unfolding k_def by (simp add: unat_mod unat_gt_0)
  qed
  then have ne: "x \<noteq> []" "0 < unat n" using assms(1) by auto
  have init: "rotating (x @ r) (unat n) k 0 0 (x @ r)"
    using assms(1) by (simp add: rotating_def rotated_def)
  have ll: "0 < unat n div gcd (unat n) k" using k by (simp add: div_greater_zero_iff dvd_imp_le)
  have g: "0 < gcd (unat n) k" using k by simp
  have count: "unat n = (gcd (unat n) k - 0) * (unat n div gcd (unat n) k) - 0" by simp
  obtain b where b: "MemShiftR_loop (unat n) (x @ r) (of_nat (unat n)) (of_nat k) (of_nat ((0 + 0 * k) mod unat n)) (of_nat 0)
        (ucast ((x @ r) ! ((0 + 0 * k) mod unat n))) = Some b" "rotating (x @ r) (unat n) k (gcd (unat n) k) 0 b"
    using MemShiftR_loop_rotates [OF k assms(2) refl init _ count] ll g by blast
  have w: "of_nat k = s mod n" by (simp add: k_def)
  have "b = rotate (unat n - k) x @ r" by (rule rotating_done [OF b(2) assms(1) k])
  with b(1) nz ne w show ?thesis
    by (simp add: MemShiftR_def rd_Some umod_def k_def)
qed

lemma MemShiftR_rotates_witness:
  "MemShiftR (Some ([1, 2, 3, 4, 5, 6] @ [9])) 6 10 = Some (Some ([3, 4, 5, 6, 1, 2] @ [9]))"
proof -
  have "rotate 2 [1, 2, 3, 4, 5, 6 :: u8] = [3, 4, 5, 6, 1, 2]" by code_simp
  with MemShiftR_rotates [of "[1, 2, 3, 4, 5, 6]" 6 10 "[9]"] show ?thesis by simp
qed

text \<open>A shift by a multiple of the length leaves the block alone, but reads the byte behind it.\<close>

lemma MemShiftR_loop_zero:
  assumes "n \<le> 2147483648" and "length b = n"
  shows "i < n \<Longrightarrow> m = n - i \<Longrightarrow> MemShiftR_loop m b (of_nat n) (of_nat 0) (of_nat i) (of_nat i) (ucast (b ! i)) = None"
proof (induction m arbitrary: i)
  case (Suc m)
  have upd: "b[i := b ! i] = b" by simp
  have w: "(of_nat i + 1 :: u32) = of_nat (Suc i)" by simp
  have u: "unat (of_nat i + 1 :: u32) = Suc i"
    unfolding w using Suc.prems(1) assms(1) by (simp add: unat_of_nat take_bit_nat_eq_self del: of_nat_Suc)
  have step: "MemShiftR_loop (Suc m) b (of_nat n) (of_nat 0) (of_nat i) (of_nat i) (ucast (b ! i)) =
      Option.bind (rd b (Suc i)) (\<lambda>x. MemShiftR_loop m b (of_nat n) (of_nat 0) (of_nat (Suc i)) (of_nat (Suc i)) (ucast x))"
    using MemShiftR_step [of i n 0 b i i b "b ! i" m] Suc.prems assms u w upd by simp
  show ?case
  proof (cases "Suc i < n")
    case True
    moreover have "m = n - Suc i" using Suc.prems(2) by simp
    ultimately show ?thesis using step Suc.IH [of "Suc i"] assms(2) by (simp only: rd_Some bind.bind_lunit)
  next
    case False
    with step assms(2) show ?thesis by (simp add: rd_None)
  qed
qed simp

lemma MemShiftR_multiple:
  assumes "length x = unat n" and "unat n \<le> 2147483648" and "s mod n = 0" and "s \<noteq> 0" and "n \<noteq> 0"
  shows "MemShiftR (Some x) n s = None"
proof -
  have "0 < unat n" using assms(5) by (simp add: unat_gt_0)
  then have "MemShiftR_loop (unat n) x (of_nat (unat n)) (of_nat 0) (of_nat 0) (of_nat 0) (ucast (x ! 0)) = None"
    by (intro MemShiftR_loop_zero [OF assms(2,1)]) simp_all
  with assms \<open>0 < unat n\<close> show ?thesis by (simp add: MemShiftR_def rd_Some umod_def)
qed

end
