(* ===== verification/Memory_Match.thy ===== *)
theory Memory_Match
  imports Memory_Spec
begin

text \<open>
  \<open>MemMatch\<close> of \<open>common_lib/usdl_mem.c\<close>: a pattern with wildcards is matched against the beginnings
  of a block. \<open>pat\<close> and \<open>dst\<close> are the places behind the last wildcard and where the match of the rest
  is tried, \<open>k\<close> counts the iterations of the \<open>for\<close> loop, so its pointers are \<open>pat + k\<close> and \<open>dst + k\<close>.
\<close>

definition node_at :: "DataNode list \<Rightarrow> nat \<Rightarrow> nat \<Rightarrow> DataNode list option" where
  "node_at result i d = do { n \<leftarrow> rd result i; wr result i (n\<lparr>node_Data := Some d\<rparr>) }"

definition node_size :: "DataNode list \<Rightarrow> nat \<Rightarrow> u32 \<Rightarrow> DataNode list option" where
  "node_size result i len = do { n \<leftarrow> rd result i; wr result i (n\<lparr>node_Len := len\<rparr>) }"

text \<open>The length of the node in front of \<open>i\<close>, when \<open>i\<close> is greater than 1: from its start to \<open>e\<close>, less \<open>back\<close>.\<close>

definition node_close :: "DataNode list \<Rightarrow> nat \<Rightarrow> nat \<Rightarrow> nat \<Rightarrow> DataNode list option" where
  "node_close result i e b =
     (if i > 1 then do { n \<leftarrow> rd result (i - 1); d \<leftarrow> node_Data n; node_size result (i - 1) (of_nat e - of_nat d - of_nat b) }
      else Some result)"

text \<open>The loop counts up to the index in a byte; with an index of 255 or more it never ends.\<close>

definition match_fail :: "nat \<Rightarrow> DataNode list \<Rightarrow> (bool \<times> DataNode list) option" where
  "match_fail i result = (if i \<ge> 255 then None
     else do { result \<leftarrow> wr result i \<lparr>node_Data = None, node_Len = 0\<rparr>; Some (False, result) })"

function match_skip :: "u8 list \<Rightarrow> nat \<Rightarrow> u8 \<Rightarrow> nat \<Rightarrow> nat option" where
  "match_skip P end_pat wildcard p = do {
     c \<leftarrow> rd P p;
     if c = wildcard \<and> p < end_pat then match_skip P end_pat wildcard (p + 1) else Some p }"
  by pat_completeness auto
termination by (relation "measure (\<lambda>(P, end_pat, wildcard, p). end_pat - p)") auto

declare match_skip.simps [simp del]

function MemMatch_loop :: "u8 list \<Rightarrow> nat \<Rightarrow> u8 list \<Rightarrow> nat \<Rightarrow> u8 \<Rightarrow> nat \<Rightarrow> nat \<Rightarrow> nat \<Rightarrow> nat \<Rightarrow> bool \<Rightarrow> DataNode list \<Rightarrow>
    (bool \<times> DataNode list) option" where
  "MemMatch_loop P end_pat D end_dst wildcard pat dst k result_index star result =
     (if dst + k < end_dst \<and> pat + k < end_pat then do {
        c \<leftarrow> rd P (pat + k);
        if c = wildcard then do {
          result \<leftarrow> node_at result result_index (dst + k);
          result \<leftarrow> node_close result result_index (dst + k) k;
          if pat + k + 1 = end_pat then do {
            result \<leftarrow> node_size result 0 (of_nat end_dst);
            result \<leftarrow> node_close result (result_index + 1) end_dst 0;
            Some (True, result)
          }
          else MemMatch_loop P end_pat D end_dst wildcard (pat + k + 1) (dst + k) 0 (result_index + 1) True result
        }
        else do {
          x \<leftarrow> rd D (dst + k);
          if x \<noteq> c then
            (if \<not> star then match_fail result_index result
             else MemMatch_loop P end_pat D end_dst wildcard pat (dst + 1) 0 result_index star result)
          else MemMatch_loop P end_pat D end_dst wildcard pat dst (k + 1) result_index star result
        }
      }
      else do {
        p \<leftarrow> match_skip P end_pat wildcard (pat + k);
        if p = end_pat then do {
          result \<leftarrow> node_size result 0 (of_nat (dst + k));
          result \<leftarrow> node_close result result_index (dst + k) (p - pat);
          Some (True, result)
        }
        else match_fail result_index result
      })"
  by pat_completeness auto
termination
  by (relation "measures [\<lambda>(P, end_pat, D, end_dst, w, pat, dst, k, i, star, r). end_pat - pat,
      \<lambda>(P, end_pat, D, end_dst, w, pat, dst, k, i, star, r). end_dst - dst,
      \<lambda>(P, end_pat, D, end_dst, w, pat, dst, k, i, star, r). end_dst - (dst + k)]") auto

declare MemMatch_loop.simps [simp del]

definition MemMatch :: "u8 list \<Rightarrow> u32 \<Rightarrow> u8 list \<Rightarrow> u32 \<Rightarrow> u8 \<Rightarrow> DataNode list \<Rightarrow> (bool \<times> DataNode list) option" where
  "MemMatch pat pat_len dst dst_len wildcard result = do {
     result \<leftarrow> node_at result 0 0;
     MemMatch_loop pat (unat pat_len) dst (unat dst_len) wildcard 0 0 0 1 False result }"

section \<open>Patterns\<close>

fun wild_match :: "u8 \<Rightarrow> u8 list \<Rightarrow> u8 list \<Rightarrow> bool" where
  "wild_match w [] ys = True"
| "wild_match w (c # cs) ys =
     (if c = w then list_ex (\<lambda>k. wild_match w cs (drop k ys)) [0..<Suc (length ys)]
      else (case ys of [] \<Rightarrow> False | y # ys \<Rightarrow> y = c \<and> wild_match w cs ys))"

lemma list_ex_upto: "list_ex P [0..<Suc n] \<longleftrightarrow> (\<exists>k \<le> n. P k)"
  by (auto simp: list_ex_iff less_Suc_eq_le simp del: upt_Suc)

declare wild_match.simps(2) [simp del] upt_Suc [simp del]

lemma wild_match_star: "wild_match w (w # cs) ys \<longleftrightarrow> (\<exists>k. wild_match w cs (drop k ys))"
proof
  assume "\<exists>k. wild_match w cs (drop k ys)"
  then obtain k where k: "wild_match w cs (drop k ys)" by blast
  show "wild_match w (w # cs) ys"
  proof (cases "k \<le> length ys")
    case True
    with k show ?thesis by (auto simp: wild_match.simps(2) list_ex_upto)
  next
    case False
    with k have "wild_match w cs (drop (length ys) ys)" by simp
    then show ?thesis unfolding wild_match.simps(2) list_ex_upto by auto
  qed
qed (auto simp: wild_match.simps(2) list_ex_upto)

lemma wild_match_lit:
  "c \<noteq> w \<Longrightarrow> wild_match w (c # cs) ys \<longleftrightarrow> (\<exists>zs. ys = c # zs \<and> wild_match w cs zs)"
  by (cases ys) (auto simp: wild_match.simps(2))

lemma wild_match_lits: "w \<notin> set ls \<Longrightarrow> wild_match w (ls @ cs) (ls @ ys) \<longleftrightarrow> wild_match w cs ys"
  by (induction ls) (auto simp: wild_match_lit)

lemma wild_match_lits_rest: "w \<notin> set ls \<Longrightarrow> wild_match w (ls @ cs) ys \<Longrightarrow> wild_match w cs (drop (length ls) ys)"
  by (induction ls arbitrary: ys) (auto simp: wild_match_lit)

lemma wild_match_length: "wild_match w cs ys \<Longrightarrow> length (filter (\<lambda>c. c \<noteq> w) cs) \<le> length ys"
proof (induction cs arbitrary: ys)
  case (Cons c cs)
  show ?case
  proof (cases "c = w")
    case True
    with Cons.prems have "wild_match w (w # cs) ys" by simp
    then obtain k where "wild_match w cs (drop k ys)" unfolding wild_match_star by blast
    from Cons.IH [OF this] True show ?thesis by simp
  next
    case False
    with Cons show ?thesis by (auto simp: wild_match_lit)
  qed
qed simp

lemma wild_match_wilds: "set cs \<subseteq> {w} \<Longrightarrow> wild_match w cs ys"
proof (induction cs arbitrary: ys)
  case (Cons c cs)
  then have c: "c = w" and all: "wild_match w cs zs" for zs by auto
  show ?case unfolding c wild_match_star using all by blast
qed simp

section \<open>The verdict\<close>

text \<open>Enough room for the nodes: what the code may still write.\<close>

definition wilds :: "u8 \<Rightarrow> u8 list \<Rightarrow> nat" where
  "wilds w cs = length (filter (\<lambda>c. c = w) cs)"

lemma match_skip_eq:
  assumes "p \<le> length cs"
  shows "match_skip (cs @ z # q) (length cs) w p = Some (p + length (takeWhile (\<lambda>c. c = w) (drop p cs)))"
  using assms
proof (induction "length cs - p" arbitrary: p rule: less_induct)
  case less
  show ?case
  proof (cases "p < length cs")
    case False
    with less.prems show ?thesis by (subst match_skip.simps) (simp add: rd_def nth_append)
  next
    case True
    have dr: "drop p cs = cs ! p # drop (Suc p) cs" using True by (simp add: Cons_nth_drop_Suc)
    have c: "rd (cs @ z # q) p = Some (cs ! p)" using True by (simp add: rd_def nth_append)
    show ?thesis
    proof (cases "cs ! p = w")
      case True
      with less.hyps [of "Suc p"] \<open>p < length cs\<close> c dr show ?thesis
        by (subst match_skip.simps) simp
    next
      case False
      with c dr show ?thesis by (subst match_skip.simps) simp
    qed
  qed
qed

text \<open>The nodes written so far have a start.\<close>

definition nodes_ok :: "DataNode list \<Rightarrow> nat \<Rightarrow> bool" where
  "nodes_ok r i \<longleftrightarrow> 0 < i \<and> i \<le> length r \<and> (\<forall>j < i. node_Data (r ! j) \<noteq> None)"

lemma node_at_ok:
  "nodes_ok r i \<Longrightarrow> i < length r \<Longrightarrow> \<exists>r'. node_at r i d = Some r' \<and> length r' = length r \<and> nodes_ok r' (Suc i)"
  by (auto simp: node_at_def nodes_ok_def rd_Some wr_Some nth_list_update less_Suc_eq)

lemma node_size_ok:
  "nodes_ok r i \<Longrightarrow> j < length r \<Longrightarrow> \<exists>r'. node_size r j l = Some r' \<and> length r' = length r \<and> nodes_ok r' i"
  by (auto simp: node_size_def nodes_ok_def rd_Some wr_Some nth_list_update)

lemma node_close_ok:
  assumes "nodes_ok r i" "0 < k" "k \<le> i"
  shows "\<exists>r'. node_close r k e b = Some r' \<and> length r' = length r \<and> nodes_ok r' i"
proof (cases "k > 1")
  case True
  then have "k - 1 < i" "k - 1 < length r" using assms by (auto simp: nodes_ok_def)
  moreover obtain d where "node_Data (r ! (k - 1)) = Some d"
    using assms(1) \<open>k - 1 < i\<close> by (auto simp: nodes_ok_def)
  ultimately show ?thesis
    using True node_size_ok [OF assms(1), of "k - 1"] by (simp add: node_close_def rd_Some)
qed (use assms in \<open>simp add: node_close_def\<close>)

text \<open>The result that is still open: after a wildcard the rest may match anywhere further on.\<close>

definition open_match :: "u8 \<Rightarrow> bool \<Rightarrow> u8 list \<Rightarrow> u8 list \<Rightarrow> bool" where
  "open_match w star cs ys \<longleftrightarrow> (if star then \<exists>j. wild_match w cs (drop j ys) else wild_match w cs ys)"

lemma open_match_here: "wild_match w cs ys \<Longrightarrow> open_match w star cs ys"
  by (auto simp: open_match_def intro: exI [of _ 0])

lemma open_match_somewhere: "open_match w star cs ys \<Longrightarrow> \<exists>j. wild_match w cs (drop j ys)"
  unfolding open_match_def by (cases star) (auto intro: exI [of _ 0])

lemma open_match_star:
  assumes "w \<notin> set ls"
  shows "open_match w star (ls @ w # cs) (ls @ ys) \<longleftrightarrow> open_match w True cs ys"
proof
  assume "open_match w star (ls @ w # cs) (ls @ ys)"
  then obtain j where "wild_match w (ls @ w # cs) (drop j (ls @ ys))"
    using open_match_somewhere by blast
  then have "wild_match w (w # cs) (drop (length ls) (drop j (ls @ ys)))"
    by (rule wild_match_lits_rest [OF assms])
  then obtain i where "wild_match w cs (drop i (drop (length ls) (drop j (ls @ ys))))"
    unfolding wild_match_star by blast
  moreover have "drop i (drop (length ls) (drop j (ls @ ys))) = drop (i + j) ys"
    by (simp only: drop_drop) (simp add: add.commute add.left_commute)
  ultimately show "open_match w True cs ys" unfolding open_match_def if_True by metis
next
  assume "open_match w True cs ys"
  then have "wild_match w (w # cs) ys" by (simp add: open_match_def wild_match_star)
  then show "open_match w star (ls @ w # cs) (ls @ ys)"
    by (intro open_match_here) (simp add: wild_match_lits [OF assms])
qed

lemma open_match_short:
  assumes "w \<notin> set ls" and "wilds w rest < length rest"
  shows "\<not> open_match w star (ls @ rest) ls"
proof
  assume "open_match w star (ls @ rest) ls"
  then obtain j where "wild_match w (ls @ rest) (drop j ls)"
    using open_match_somewhere by blast
  then have "length (filter (\<lambda>c. c \<noteq> w) (ls @ rest)) \<le> length ls"
    using wild_match_length by fastforce
  moreover have "filter (\<lambda>c. c \<noteq> w) ls = ls" using assms(1) by (induction ls) auto
  moreover have "0 < length (filter (\<lambda>c. c \<noteq> w) rest)"
    using assms(2) sum_length_filter_compl [of "\<lambda>c. c = w" rest] unfolding wilds_def by linarith
  ultimately show False by simp
qed

lemma open_match_mismatch:
  assumes "w \<notin> set ls" and "c \<noteq> w" and "x \<noteq> c"
  shows "open_match w star (ls @ c # cs) (ls @ x # ys) \<longleftrightarrow> star \<and> open_match w True (ls @ c # cs) (tl (ls @ x # ys))"
proof -
  have no: "\<not> wild_match w (ls @ c # cs) (drop 0 (ls @ x # ys))"
    using assms by (simp add: wild_match_lits wild_match_lit)
  have "(\<exists>j. wild_match w (ls @ c # cs) (drop j (ls @ x # ys))) \<longleftrightarrow>
      (\<exists>j. wild_match w (ls @ c # cs) (drop j (tl (ls @ x # ys))))"
  proof
    assume "\<exists>j. wild_match w (ls @ c # cs) (drop j (ls @ x # ys))"
    then obtain j where j: "wild_match w (ls @ c # cs) (drop j (ls @ x # ys))" by blast
    with no obtain i where "j = Suc i" by (cases j) auto
    with j have "wild_match w (ls @ c # cs) (drop i (tl (ls @ x # ys)))" by (simp only: drop_Suc)
    then show "\<exists>j. wild_match w (ls @ c # cs) (drop j (tl (ls @ x # ys)))" by blast
  next
    assume "\<exists>j. wild_match w (ls @ c # cs) (drop j (tl (ls @ x # ys)))"
    then obtain j where "wild_match w (ls @ c # cs) (drop (Suc j) (ls @ x # ys))" unfolding drop_Suc by blast
    then show "\<exists>j. wild_match w (ls @ c # cs) (drop j (ls @ x # ys))" by blast
  qed
  with no show ?thesis by (simp add: open_match_def)
qed

lemma MemMatch_loop_verdict:
  assumes "nodes_ok result i" and "i + wilds w (drop pat cs) < length result" and "i + wilds w (drop pat cs) < 255"
    and "pat + k \<le> length cs" and "dst + k \<le> length ds"
    and "take k (drop pat cs) = take k (drop dst ds)" and "w \<notin> set (take k (drop pat cs))"
  shows "\<exists>r'. MemMatch_loop (cs @ z # q) (length cs) (ds @ r) (length ds) w pat dst k i star result =
      Some (open_match w star (drop pat cs) (drop dst ds), r') \<and> length r' = length result"
  using assms
proof (induction "(pat, dst, k)" arbitrary: pat dst k i star result
    rule: wf_induct_rule [OF wf_measures [of "[\<lambda>(pat, dst, k). length cs - pat, \<lambda>(pat, dst, k). length ds - dst,
      \<lambda>(pat, dst, k). length ds - (dst + k)]"]])
  case (1 pat dst k i star result)
  define ls where "ls = take k (drop pat cs)"
  have cs: "drop pat cs = ls @ drop (pat + k) cs"
    unfolding ls_def by (metis add.commute append_take_drop_id drop_drop)
  have ds: "drop dst ds = ls @ drop (dst + k) ds"
    unfolding ls_def "1.prems"(6) by (metis add.commute append_take_drop_id drop_drop)
  have nls: "w \<notin> set ls" using "1.prems"(7) by (simp add: ls_def)
  have ri: "i < length result" "0 < i" using "1.prems"(1,2) by (auto simp: nodes_ok_def)
  have ne: "0 < length result" using ri(1) by linarith
  show ?case
  proof (cases "dst + k < length ds \<and> pat + k < length cs")
    case False
    define ws where "ws = takeWhile (\<lambda>c. c = w) (drop (pat + k) cs)"
    have skip: "match_skip (cs @ z # q) (length cs) w (pat + k) = Some (pat + k + length ws)"
      using match_skip_eq [of "pat + k" cs] "1.prems"(4) by (simp add: ws_def)
    show ?thesis
    proof (cases "pat + k + length ws = length cs")
      case all: True
      define rest where "rest = drop (pat + k) cs"
      have "length ws = length rest" using all "1.prems"(4) by (simp add: rest_def)
      then have "takeWhile (\<lambda>c. c = w) rest = rest"
        using takeWhile_dropWhile_id [of "\<lambda>c. c = w" rest] unfolding ws_def rest_def
        by (metis append_Nil2 append_eq_append_conv)
      then have "\<forall>c \<in> set rest. c = w" by (simp only: takeWhile_eq_all_conv)
      then have "set rest \<subseteq> {w}" by blast
      then have "wild_match w (drop pat cs) (drop dst ds)"
        unfolding cs ds rest_def [symmetric] wild_match_lits [OF nls] by (rule wild_match_wilds)
      then have verdict: "open_match w star (drop pat cs) (drop dst ds)" by (rule open_match_here)
      obtain r1 where r1: "node_size result 0 (of_nat (dst + k)) = Some r1" "length r1 = length result" "nodes_ok r1 i"
        using node_size_ok [OF "1.prems"(1) ne] by blast
      obtain r2 where r2: "node_close r1 i (dst + k) (length cs - pat) = Some r2" "length r2 = length result"
        using node_close_ok [OF r1(3), of i] ri r1(2) by auto
      show ?thesis
        using False skip all verdict r1 r2 by (subst MemMatch_loop.simps) auto
    next
      case some: False
      have "ws = []" if "pat + k = length cs" using that by (simp add: ws_def)
      with some False "1.prems"(4,5) have dk: "dst + k = length ds" by auto
      have "\<not> (\<forall>c \<in> set (drop (pat + k) cs). c = w)"
      proof
        assume "\<forall>c \<in> set (drop (pat + k) cs). c = w"
        then have "ws = drop (pat + k) cs" by (simp add: ws_def takeWhile_eq_all_conv)
        with some "1.prems"(4) show False by simp
      qed
      then obtain y where "y \<in> set (drop (pat + k) cs)" "y \<noteq> w" by blast
      then have "wilds w (drop (pat + k) cs) < length (drop (pat + k) cs)"
        unfolding wilds_def by (rule length_filter_less)
      then have "\<not> open_match w star (drop pat cs) (drop dst ds)"
        using open_match_short [OF nls] unfolding cs ds by (simp add: dk)
      then show ?thesis
        using dk skip some ri "1.prems"(3) by (subst MemMatch_loop.simps) (simp add: match_fail_def wr_Some)
    qed
  next
    case True
    define c x where "c = cs ! (pat + k)" and "x = ds ! (dst + k)"
    have cs': "drop pat cs = ls @ c # drop (Suc (pat + k)) cs" using cs True by (simp add: c_def Cons_nth_drop_Suc)
    have ds': "drop dst ds = ls @ x # drop (Suc (dst + k)) ds" using ds True by (simp add: x_def Cons_nth_drop_Suc)
    have rc: "rd (cs @ z # q) (pat + k) = Some c" "rd (ds @ r) (dst + k) = Some x"
      using True by (simp_all add: rd_def nth_append c_def x_def)
    have room: "wilds w (drop pat cs) = wilds w (drop (Suc (pat + k)) cs) + (if c = w then 1 else 0)"
      using nls unfolding cs' wilds_def by (auto simp: filter_empty_conv)
    show ?thesis
    proof (cases "c = w")
      case wild: True
      have ri': "Suc i < length result" using "1.prems"(2) room wild by simp
      obtain r1 where r1: "node_at result i (dst + k) = Some r1" "length r1 = length result" "nodes_ok r1 (Suc i)"
        using node_at_ok [OF "1.prems"(1) ri(1)] by blast
      obtain r2 where r2: "node_close r1 i (dst + k) k = Some r2" "length r2 = length result" "nodes_ok r2 (Suc i)"
        using node_close_ok [OF r1(3), of i] ri(2) r1(2) by auto
      have verdict: "open_match w star (drop pat cs) (drop dst ds) =
          open_match w True (drop (Suc (pat + k)) cs) (drop (dst + k) ds)"
        unfolding cs' ds wild by (rule open_match_star [OF nls])
      show ?thesis
      proof (cases "pat + k + 1 = length cs")
        case True
        obtain r3 where r3: "node_size r2 0 (of_nat (length ds)) = Some r3" "length r3 = length result" "nodes_ok r3 (Suc i)"
          using node_size_ok [OF r2(3), of 0] ne r2(2) by fastforce
        obtain r4 where r4: "node_close r3 (Suc i) (length ds) 0 = Some r4" "length r4 = length result"
          using node_close_ok [OF r3(3), of "Suc i"] r3(2) by auto
        have "open_match w star (drop pat cs) (drop dst ds)" unfolding verdict using True by (simp add: open_match_def)
        then show ?thesis
          using \<open>dst + k < length ds \<and> pat + k < length cs\<close> wild rc r1 r2 r3 r4 True
          by (subst MemMatch_loop.simps) simp
      next
        case False
        have "\<exists>r'. MemMatch_loop (cs @ z # q) (length cs) (ds @ r) (length ds) w (Suc (pat + k)) (dst + k) 0 (Suc i) True r2 =
            Some (open_match w True (drop (Suc (pat + k)) cs) (drop (dst + k) ds), r') \<and> length r' = length r2"
          by (rule "1.hyps") (use True r2 room wild "1.prems" in auto)
        then show ?thesis
          using True wild rc r1 r2 False verdict by (subst MemMatch_loop.simps) auto
      qed
    next
      case lit: False
      show ?thesis
      proof (cases "x = c")
        case eq: True
        have "\<exists>r'. MemMatch_loop (cs @ z # q) (length cs) (ds @ r) (length ds) w pat dst (Suc k) i star result =
            Some (open_match w star (drop pat cs) (drop dst ds), r') \<and> length r' = length result"
        proof (rule "1.hyps")
          have lk: "length ls = k" using True by (auto simp: ls_def)
          have "take (Suc k) (drop pat cs) = ls @ [c]" "take (Suc k) (drop dst ds) = ls @ [x]"
            unfolding cs' ds' by (simp_all add: lk)
          then show "take (Suc k) (drop pat cs) = take (Suc k) (drop dst ds)" "w \<notin> set (take (Suc k) (drop pat cs))"
            using nls lit eq by simp_all
        qed (use True "1.prems" in auto)
        then show ?thesis
          using True lit rc eq by (subst MemMatch_loop.simps) auto
      next
        case ne: False
        have verdict: "open_match w star (drop pat cs) (drop dst ds) =
            (star \<and> open_match w True (drop pat cs) (drop (Suc dst) ds))"
          using open_match_mismatch [OF nls lit ne, of star "drop (Suc (pat + k)) cs" "drop (Suc (dst + k)) ds"]
          unfolding cs' [symmetric] ds' [symmetric] by (simp add: drop_Suc tl_drop)
        show ?thesis
        proof (cases star)
          case False
          with True lit rc ne verdict ri "1.prems"(3) show ?thesis
            by (subst MemMatch_loop.simps) (simp add: match_fail_def wr_Some)
        next
          case st: True
          have "\<exists>r'. MemMatch_loop (cs @ z # q) (length cs) (ds @ r) (length ds) w pat (Suc dst) 0 i star result =
              Some (open_match w star (drop pat cs) (drop (Suc dst) ds), r') \<and> length r' = length result"
            by (rule "1.hyps") (use True "1.prems" in auto)
          then show ?thesis
            using True lit rc ne st verdict by (subst MemMatch_loop.simps) auto
        qed
      qed
    qed
  qed
qed

text \<open>C36: \<open>MemMatch\<close> decides whether a beginning of the block matches the pattern. With room for the
  nodes of all wildcards and one byte that may be read behind the pattern, it ends, stays inside its
  objects, and its verdict is that of the definition of matching: a wildcard stands for any number of
  bytes, every other byte for itself.\<close>

theorem MemMatch_verdict:
  assumes "length cs < 2 ^ 32" and "length ds < 2 ^ 32" and "wilds w cs + 1 < length result" and "wilds w cs < 254"
  shows "\<exists>r'. MemMatch (cs @ z # q) (of_nat (length cs)) (ds @ r) (of_nat (length ds)) w result = Some (wild_match w cs ds, r') \<and>
    length r' = length result"
proof -
  have u: "unat (of_nat (length cs) :: u32) = length cs" "unat (of_nat (length ds) :: u32) = length ds"
    using assms(1,2) by (simp_all add: unat_of_nat take_bit_nat_eq_self)
  have "nodes_ok (result[0 := (result ! 0)\<lparr>node_Data := Some 0\<rparr>]) 1"
    using assms(3) by (cases result) (auto simp: nodes_ok_def)
  moreover have "node_at result 0 0 = Some (result[0 := (result ! 0)\<lparr>node_Data := Some 0\<rparr>])"
    using assms(3) by (cases result) (simp_all add: node_at_def rd_def wr_def)
  ultimately show ?thesis
    using MemMatch_loop_verdict [of "result[0 := (result ! 0)\<lparr>node_Data := Some 0\<rparr>]" 1 w 0 cs 0 0 ds z q r False] assms(3,4) u
    by (simp add: MemMatch_def open_match_def)
qed

lemma MemMatch_verdict_witness:
  "\<exists>r'. MemMatch ([0x61, 0x2A, 0x63] @ 0 # []) (of_nat (length [0x61, 0x2A, 0x63 :: u8])) ([0x61, 0x78, 0x79, 0x63, 0x7A] @ [])
      (of_nat (length [0x61, 0x78, 0x79, 0x63, 0x7A :: u8])) 0x2A (replicate 3 \<lparr>node_Data = None, node_Len = 0\<rparr>) = Some (True, r')"
proof -
  have w: "wild_match 0x2A [0x61, 0x2A, 0x63] [0x61, 0x78, 0x79, 0x63, 0x7A]" by code_simp
  show ?thesis
    using MemMatch_verdict [of "[0x61, 0x2A, 0x63]" "[0x61, 0x78, 0x79, 0x63, 0x7A]" "0x2A"
        "replicate 3 \<lparr>node_Data = None, node_Len = 0\<rparr>" 0 "[]" "[]"] w
    by (auto simp: wilds_def)
qed

text \<open>A wildcard at the end that meets the end of the block makes the length of the part in front of it wrong.\<close>

lemma MemMatch_short_node:
  "map_option (\<lambda>(b, r). (b, node_Data (r ! 1), node_Len (r ! 1)))
     (MemMatch [0x2A, 0x62, 0x2A, 0] 3 [0x61, 0x62] 2 0x2A (replicate 4 \<lparr>node_Data = None, node_Len = 0\<rparr>)) =
   Some (True, Some 0, 0)"
  by code_simp

end
