(* ===== verification/Mutex_Pool.thy ===== *)
theory Mutex_Pool
  imports C_String
begin

text \<open>
  The pool of locked address ranges at the end of \<open>common_lib/usdl_mem.c\<close>. Addresses are natural
  numbers, a range ends inside the address space. What other tasks do to the pool while
  \<open>MutexApply\<close> waits is the effect of the function it calls, a parameter of the model. The pool is an
  array of \<open>MUTEX_POOL_SIZE\<close> entries.
\<close>

definition MUTEX_POOL_SIZE :: nat where
  "MUTEX_POOL_SIZE = 128"

record MutexType =
  mtx_Obj :: DataNode
  mtx_Valid :: bool

text \<open>Does an entry hold a range that meets the one from \<open>addr\<close> of length \<open>len\<close>?\<close>

definition mutex_meets :: "MutexType \<Rightarrow> nat \<Rightarrow> u32 \<Rightarrow> bool" where
  "mutex_meets m addr len \<longleftrightarrow> (case node_Data (mtx_Obj m) of
     None \<Rightarrow> 0 < addr + unat len \<and> unat (node_Len (mtx_Obj m)) > addr
   | Some d \<Rightarrow> d < addr + unat len \<and> d + unat (node_Len (mtx_Obj m)) > addr)"

text \<open>\<open>MUTEX_SEARCH_FAILED\<close> is \<open>None\<close> inside the result.\<close>

function MutexSearch :: "MutexType list \<Rightarrow> nat \<Rightarrow> nat \<Rightarrow> u32 \<Rightarrow> nat option option" where
  "MutexSearch pool i addr len =
     (if i < MUTEX_POOL_SIZE then do {
        m \<leftarrow> rd pool i;
        if mtx_Valid m \<and> mutex_meets m addr len then Some (Some i) else MutexSearch pool (i + 1) addr len
      }
      else Some None)"
  by pat_completeness auto
termination by (relation "measure (\<lambda>(pool, i, addr, len). MUTEX_POOL_SIZE - i)") auto

declare MutexSearch.simps [simp del]

text \<open>The waiting loop: the result is whether the range is free, and the pool then. It need not end.\<close>

partial_function (option) mutex_wait ::
    "(u32 \<Rightarrow> MutexType list \<Rightarrow> MutexType list) \<Rightarrow> u32 \<Rightarrow> bool \<Rightarrow> nat \<Rightarrow> nat \<Rightarrow> u32 \<Rightarrow> u32 \<Rightarrow> MutexType list \<Rightarrow>
      (bool \<times> MutexType list) option" where
  "mutex_wait func func_para timeout_enabled i addr len timeout pool =
     Option.bind (MutexSearch pool i addr len) (\<lambda>found.
       case found of
         None \<Rightarrow> Some (True, pool)
       | Some i \<Rightarrow>
           if timeout_enabled then
             (if timeout = 0 then Some (False, pool)
              else mutex_wait func func_para timeout_enabled i addr len (timeout - 1) (func func_para pool))
           else mutex_wait func func_para timeout_enabled i addr len timeout (func func_para pool))"

declare mutex_wait.simps [code]

text \<open>The search for an entry that is not in use.\<close>

function mutex_take :: "MutexType list \<Rightarrow> nat \<Rightarrow> nat \<Rightarrow> u32 \<Rightarrow> (bool \<times> MutexType list) option" where
  "mutex_take pool i addr len =
     (if i < MUTEX_POOL_SIZE then do {
        m \<leftarrow> rd pool i;
        if \<not> mtx_Valid m then do {
          pool \<leftarrow> wr pool i \<lparr>mtx_Obj = \<lparr>node_Data = Some addr, node_Len = len\<rparr>, mtx_Valid = True\<rparr>;
          Some (True, pool)
        }
        else mutex_take pool (i + 1) addr len
      }
      else Some (False, pool))"
  by pat_completeness auto
termination by (relation "measure (\<lambda>(pool, i, addr, len). MUTEX_POOL_SIZE - i)") auto

declare mutex_take.simps [simp del]

definition MutexApply ::
    "(u32 \<Rightarrow> MutexType list \<Rightarrow> MutexType list) \<Rightarrow> u32 \<Rightarrow> nat \<Rightarrow> u32 \<Rightarrow> u32 \<Rightarrow> MutexType list \<Rightarrow>
      (bool \<times> MutexType list) option" where
  "MutexApply func func_para addr len timeout pool = do {
     let timeout_enabled = (timeout \<noteq> 0);
     (free, pool) \<leftarrow> mutex_wait func func_para timeout_enabled 0 addr len timeout pool;
     if free then mutex_take pool 0 addr len else Some (False, pool) }"

definition MutexRelease :: "nat \<Rightarrow> MutexType list \<Rightarrow> (bool \<times> MutexType list) option" where
  "MutexRelease addr pool = do {
     index \<leftarrow> MutexSearch pool 0 addr 1;
     case index of
       None \<Rightarrow> Some (False, pool)
     | Some i \<Rightarrow> do {
         pool \<leftarrow> wr pool i \<lparr>mtx_Obj = \<lparr>node_Data = None, node_Len = 0\<rparr>, mtx_Valid = False\<rparr>;
         Some (True, pool)
       } }"

section \<open>The contract\<close>

text \<open>The address ranges of a pool: those of its valid entries. The invariant: they are disjoint.\<close>

definition mutex_range :: "MutexType \<Rightarrow> nat set" where
  "mutex_range m = (case node_Data (mtx_Obj m) of None \<Rightarrow> {0..<unat (node_Len (mtx_Obj m))}
     | Some d \<Rightarrow> {d..<d + unat (node_Len (mtx_Obj m))})"

definition mutex_ok :: "MutexType list \<Rightarrow> bool" where
  "mutex_ok pool \<longleftrightarrow> length pool = MUTEX_POOL_SIZE \<and>
     (\<forall>i < MUTEX_POOL_SIZE. \<forall>j < MUTEX_POOL_SIZE. i \<noteq> j \<and> mtx_Valid (pool ! i) \<and> mtx_Valid (pool ! j) \<longrightarrow>
        mutex_range (pool ! i) \<inter> mutex_range (pool ! j) = {})"

lemma mutex_meets_range:
  "0 < unat len \<Longrightarrow> mutex_range m \<inter> {addr..<addr + unat len} \<noteq> {} \<Longrightarrow> mutex_meets m addr len"
  by (auto simp: mutex_meets_def mutex_range_def split: option.splits)

lemma mutex_meets_byte: "mutex_meets m addr 1 \<longleftrightarrow> addr \<in> mutex_range m"
  by (auto simp: mutex_meets_def mutex_range_def split: option.splits)

lemma MutexSearch_spec:
  assumes "length pool = MUTEX_POOL_SIZE"
  shows "\<exists>res. MutexSearch pool i addr len = Some res \<and>
    (case res of
       None \<Rightarrow> \<forall>j. i \<le> j \<and> j < MUTEX_POOL_SIZE \<longrightarrow> \<not> (mtx_Valid (pool ! j) \<and> mutex_meets (pool ! j) addr len)
     | Some k \<Rightarrow> i \<le> k \<and> k < MUTEX_POOL_SIZE \<and> mtx_Valid (pool ! k) \<and> mutex_meets (pool ! k) addr len \<and>
         (\<forall>j. i \<le> j \<and> j < k \<longrightarrow> \<not> (mtx_Valid (pool ! j) \<and> mutex_meets (pool ! j) addr len)))"
  using assms
proof (induction pool i addr len rule: MutexSearch.induct)
  case (1 pool i addr len)
  show ?case
  proof (cases "i < MUTEX_POOL_SIZE")
    case False
    then have "MutexSearch pool i addr len = Some None" by (subst MutexSearch.simps) simp
    with False show ?thesis by auto
  next
    case True
    then have rd: "rd pool i = Some (pool ! i)" using "1.prems" by (simp add: rd_Some)
    show ?thesis
    proof (cases "mtx_Valid (pool ! i) \<and> mutex_meets (pool ! i) addr len")
      case hit: True
      then have "MutexSearch pool i addr len = Some (Some i)"
        using True rd by (subst MutexSearch.simps) simp
      with hit True show ?thesis by auto
    next
      case no: False
      have step: "MutexSearch pool i addr len = MutexSearch pool (i + 1) addr len"
        using True rd no by (subst MutexSearch.simps) auto
      from "1.IH" [OF True rd no "1.prems"] obtain res where
          r: "MutexSearch pool (i + 1) addr len = Some res" and spec: "case res of
         None \<Rightarrow> \<forall>j. i + 1 \<le> j \<and> j < MUTEX_POOL_SIZE \<longrightarrow> \<not> (mtx_Valid (pool ! j) \<and> mutex_meets (pool ! j) addr len)
       | Some k \<Rightarrow> i + 1 \<le> k \<and> k < MUTEX_POOL_SIZE \<and> mtx_Valid (pool ! k) \<and> mutex_meets (pool ! k) addr len \<and>
           (\<forall>j. i + 1 \<le> j \<and> j < k \<longrightarrow> \<not> (mtx_Valid (pool ! j) \<and> mutex_meets (pool ! j) addr len))"
        by blast
      have nx: "i \<le> j \<longleftrightarrow> j = i \<or> i + 1 \<le> j" for j by auto
      show ?thesis
      proof (cases res)
        case None
        with spec no nx r step show ?thesis by (intro exI [of _ None]) auto
      next
        case (Some k)
        with spec no nx r step show ?thesis by (intro exI [of _ "Some k"]) auto
      qed
    qed
  qed
qed

lemma MutexSearch_cases:
  assumes "length pool = MUTEX_POOL_SIZE"
  obtains (none) "MutexSearch pool i addr len = Some None"
      "\<And>j. i \<le> j \<Longrightarrow> j < MUTEX_POOL_SIZE \<Longrightarrow> mtx_Valid (pool ! j) \<Longrightarrow> \<not> mutex_meets (pool ! j) addr len"
    | (found) k where "MutexSearch pool i addr len = Some (Some k)" "i \<le> k" "k < MUTEX_POOL_SIZE" "mtx_Valid (pool ! k)"
      "mutex_meets (pool ! k) addr len"
      "\<And>j. i \<le> j \<Longrightarrow> j < k \<Longrightarrow> mtx_Valid (pool ! j) \<Longrightarrow> \<not> mutex_meets (pool ! j) addr len"
proof -
  obtain res where "MutexSearch pool i addr len = Some res" "case res of
       None \<Rightarrow> \<forall>j. i \<le> j \<and> j < MUTEX_POOL_SIZE \<longrightarrow> \<not> (mtx_Valid (pool ! j) \<and> mutex_meets (pool ! j) addr len)
     | Some k \<Rightarrow> i \<le> k \<and> k < MUTEX_POOL_SIZE \<and> mtx_Valid (pool ! k) \<and> mutex_meets (pool ! k) addr len \<and>
         (\<forall>j. i \<le> j \<and> j < k \<longrightarrow> \<not> (mtx_Valid (pool ! j) \<and> mutex_meets (pool ! j) addr len))"
    using MutexSearch_spec [OF assms] by blast
  then show thesis by (cases res) (auto intro: that)
qed

lemma mutex_take_spec:
  assumes "length pool = MUTEX_POOL_SIZE"
  shows "(\<exists>k. i \<le> k \<and> k < MUTEX_POOL_SIZE \<and> \<not> mtx_Valid (pool ! k) \<and> (\<forall>j. i \<le> j \<and> j < k \<longrightarrow> mtx_Valid (pool ! j)) \<and>
       mutex_take pool i addr len =
         Some (True, pool[k := \<lparr>mtx_Obj = \<lparr>node_Data = Some addr, node_Len = len\<rparr>, mtx_Valid = True\<rparr>])) \<or>
    (\<forall>j. i \<le> j \<and> j < MUTEX_POOL_SIZE \<longrightarrow> mtx_Valid (pool ! j)) \<and> mutex_take pool i addr len = Some (False, pool)"
  using assms
proof (induction pool i addr len rule: mutex_take.induct)
  case (1 pool i addr len)
  show ?case
  proof (cases "i < MUTEX_POOL_SIZE")
    case False
    then have "mutex_take pool i addr len = Some (False, pool)" by (subst mutex_take.simps) simp
    with False show ?thesis by auto
  next
    case True
    then have rd: "rd pool i = Some (pool ! i)" using "1.prems" by (simp add: rd_Some)
    show ?thesis
    proof (cases "mtx_Valid (pool ! i)")
      case hit: False
      then have "mutex_take pool i addr len =
          Some (True, pool[i := \<lparr>mtx_Obj = \<lparr>node_Data = Some addr, node_Len = len\<rparr>, mtx_Valid = True\<rparr>])"
        using True rd "1.prems" by (subst mutex_take.simps) (simp add: wr_Some)
      with hit True show ?thesis by auto
    next
      case no: True
      then have nn: "\<not> \<not> mtx_Valid (pool ! i)" by simp
      have step: "mutex_take pool i addr len = mutex_take pool (i + 1) addr len"
        using True rd no by (subst mutex_take.simps) simp
      have nx: "i \<le> j \<longleftrightarrow> j = i \<or> i + 1 \<le> j" for j by auto
      from "1.IH" [OF True rd nn "1.prems"] show ?thesis
        proof (elim disjE exE conjE)
        fix k assume k: "i + 1 \<le> k" "k < MUTEX_POOL_SIZE" "\<not> mtx_Valid (pool ! k)" "\<forall>j. i + 1 \<le> j \<and> j < k \<longrightarrow> mtx_Valid (pool ! j)"
          "mutex_take pool (i + 1) addr len = Some (True, pool[k := \<lparr>mtx_Obj = \<lparr>node_Data = Some addr, node_Len = len\<rparr>, mtx_Valid = True\<rparr>])"
        have "\<forall>j. i \<le> j \<and> j < k \<longrightarrow> mtx_Valid (pool ! j)" using k(4) no nx by auto
        moreover have "i \<le> k" using k(1) by simp
        ultimately show ?thesis unfolding step using k by blast
      next
        assume k: "\<forall>j. i + 1 \<le> j \<and> j < MUTEX_POOL_SIZE \<longrightarrow> mtx_Valid (pool ! j)" "mutex_take pool (i + 1) addr len = Some (False, pool)"
        have "\<forall>j. i \<le> j \<and> j < MUTEX_POOL_SIZE \<longrightarrow> mtx_Valid (pool ! j)" using k(1) no nx by auto
        with k(2) show ?thesis unfolding step by blast
      qed
    qed
  qed
qed

section \<open>Waiting\<close>

text \<open>Other tasks only release ranges.\<close>

definition only_releases :: "MutexType list \<Rightarrow> MutexType list \<Rightarrow> bool" where
  "only_releases p q \<longleftrightarrow> length q = length p \<and> (\<forall>i < length p. mtx_Valid (q ! i) \<longrightarrow> q ! i = p ! i)"

lemma only_releases_ok: "mutex_ok p \<Longrightarrow> only_releases p q \<Longrightarrow> mutex_ok q"
  unfolding mutex_ok_def only_releases_def by metis

definition mutex_clear :: "MutexType list \<Rightarrow> nat \<Rightarrow> nat \<Rightarrow> u32 \<Rightarrow> bool" where
  "mutex_clear pool n addr len \<longleftrightarrow> (\<forall>j < n. mtx_Valid (pool ! j) \<longrightarrow> \<not> mutex_meets (pool ! j) addr len)"

lemma mutex_wait_step:
  assumes IH: "\<And>en i t pool. wait f p en i addr len t pool = Some y \<Longrightarrow> mutex_ok pool \<Longrightarrow> mutex_clear pool i addr len \<Longrightarrow>
      mutex_ok (snd y) \<and> (fst y \<longrightarrow> mutex_clear (snd y) MUTEX_POOL_SIZE addr len)"
    and step: "Option.bind (MutexSearch pool i addr len) (\<lambda>found. case found of
         None \<Rightarrow> Some (True, pool)
       | Some i \<Rightarrow> if en then (if t = 0 then Some (False, pool) else wait f p en i addr len (t - 1) (f p pool))
           else wait f p en i addr len t (f p pool)) = Some y"
    and rel: "\<And>q. only_releases q (f p q)" and ok: "mutex_ok pool" and clear: "mutex_clear pool i addr len"
  shows "mutex_ok (snd y) \<and> (fst y \<longrightarrow> mutex_clear (snd y) MUTEX_POOL_SIZE addr len)"
proof -
  have lp: "length pool = MUTEX_POOL_SIZE" using ok by (simp add: mutex_ok_def)
  show ?thesis
  proof (cases rule: MutexSearch_cases [OF lp, of i addr len, case_names none found])
    case none
    then have "y = (True, pool)" using step by simp
    moreover have "mutex_clear pool MUTEX_POOL_SIZE addr len"
      unfolding mutex_clear_def
    proof (intro allI impI)
      fix j assume j: "j < MUTEX_POOL_SIZE" "mtx_Valid (pool ! j)"
      show "\<not> mutex_meets (pool ! j) addr len"
        using clear none(2) [of j] j by (cases "j < i") (auto simp: mutex_clear_def)
    qed
    ultimately show ?thesis using ok by simp
  next
    case (found k)
    define pool1 where "pool1 = f p pool"
    have r: "only_releases pool pool1" using rel by (simp add: pool1_def)
    then have ok1: "mutex_ok pool1" using ok only_releases_ok by blast
    have low: "mutex_clear pool1 k addr len"
      unfolding mutex_clear_def
    proof (intro allI impI)
      fix j assume j: "j < k" "mtx_Valid (pool1 ! j)"
      then have e: "pool1 ! j = pool ! j" using r found(3) lp by (simp add: only_releases_def)
      show "\<not> mutex_meets (pool1 ! j) addr len"
        using clear found(6) [of j] j e by (cases "j < i") (auto simp: mutex_clear_def)
    qed
    from step found(1) consider "y = (False, pool)" | t' where "wait f p en k addr len t' pool1 = Some y"
    proof (cases "en \<and> t = 0")
      case True
      with step found(1) have "y = (False, pool)" by simp
      then show thesis by (rule that(1))
    next
      case False
      define t' where "t' = (if en then t - 1 else t)"
      have "wait f p en k addr len t' pool1 = Some y"
        using step found(1) False by (cases en) (simp_all add: pool1_def t'_def)
      then show thesis by (rule that(2))
    qed
    then show ?thesis
    proof cases
      case 1
      then show ?thesis using ok by simp
    next
      case 2
      from IH [OF 2 ok1 low] show ?thesis .
    qed
  qed
qed

lemma mutex_wait_free:
  assumes run: "mutex_wait f p en i addr len t pool = Some y"
    and rel: "\<And>q. only_releases q (f p q)" and ok: "mutex_ok pool" and clear: "mutex_clear pool i addr len"
  shows "mutex_ok (snd y) \<and> (fst y \<longrightarrow> mutex_clear (snd y) MUTEX_POOL_SIZE addr len)"
proof -
  have "(\<forall>q. only_releases q (f p q)) \<longrightarrow> mutex_ok pool \<longrightarrow> mutex_clear pool i addr len \<longrightarrow>
      mutex_ok (snd y) \<and> (fst y \<longrightarrow> mutex_clear (snd y) MUTEX_POOL_SIZE addr len)"
  proof (rule mutex_wait.raw_induct [where P = "\<lambda>f p en i addr len t pool y. (\<forall>q. only_releases q (f p q)) \<longrightarrow> mutex_ok pool \<longrightarrow>
      mutex_clear pool i addr len \<longrightarrow> mutex_ok (snd y) \<and> (fst y \<longrightarrow> mutex_clear (snd y) MUTEX_POOL_SIZE addr len)", OF _ run])
    fix wait f p en i addr len t pool y
    assume IH: "\<And>f p en i addr len t pool y. wait f p en i addr len t pool = Some y \<Longrightarrow>
        (\<forall>q. only_releases q (f p q)) \<longrightarrow> mutex_ok pool \<longrightarrow> mutex_clear pool i addr len \<longrightarrow>
        mutex_ok (snd y) \<and> (fst y \<longrightarrow> mutex_clear (snd y) MUTEX_POOL_SIZE addr len)"
      and step: "Option.bind (MutexSearch pool i addr len) (\<lambda>found. case found of
           None \<Rightarrow> Some (True, pool)
         | Some i \<Rightarrow> if en then (if t = 0 then Some (False, pool) else wait f p en i addr len (t - 1) (f p pool))
             else wait f p en i addr len t (f p pool)) = Some y"
    show "(\<forall>q. only_releases q (f p q)) \<longrightarrow> mutex_ok pool \<longrightarrow> mutex_clear pool i addr len \<longrightarrow>
        mutex_ok (snd y) \<and> (fst y \<longrightarrow> mutex_clear (snd y) MUTEX_POOL_SIZE addr len)"
    proof (intro impI)
      assume "\<forall>q. only_releases q (f p q)" "mutex_ok pool" "mutex_clear pool i addr len"
      with mutex_wait_step [of wait f p addr len y, OF _ step] IH
      show "mutex_ok (snd y) \<and> (fst y \<longrightarrow> mutex_clear (snd y) MUTEX_POOL_SIZE addr len)" by blast
    qed
  qed
  with rel ok clear show ?thesis by blast
qed

text \<open>A range that is taken keeps the ranges disjoint.\<close>

lemma mutex_take_ok:
  assumes "mutex_ok pool" and "mutex_clear pool MUTEX_POOL_SIZE addr len" and "0 < unat len" and "k < MUTEX_POOL_SIZE"
  shows "mutex_ok (pool[k := \<lparr>mtx_Obj = \<lparr>node_Data = Some addr, node_Len = len\<rparr>, mtx_Valid = True\<rparr>])"
proof -
  have new: "mutex_range (pool ! j) \<inter> {addr..<addr + unat len} = {}" if "j < MUTEX_POOL_SIZE" "mtx_Valid (pool ! j)" for j
    using assms(2) mutex_meets_range [OF assms(3), of "pool ! j" addr] that by (auto simp: mutex_clear_def)
  have r: "mutex_range \<lparr>mtx_Obj = \<lparr>node_Data = Some addr, node_Len = len\<rparr>, mtx_Valid = True\<rparr> = {addr..<addr + unat len}"
    by (simp add: mutex_range_def)
  show ?thesis
    using assms(1,4) new unfolding mutex_ok_def by (auto simp: nth_list_update r Int_commute)
qed

text \<open>C37: the pool keeps its ranges apart. While the other tasks do nothing but release ranges, a request
  for a range that is not empty leaves the ranges of the pool disjoint, whatever the timeout, and when
  it is granted the range is in the pool.\<close>

theorem MutexApply_exclusive:
  assumes "mutex_ok pool" and "\<And>q. only_releases q (func para q)" and "0 < unat len"
    and "MutexApply func para addr len timeout pool = Some (granted, pool')"
  shows "mutex_ok pool' \<and>
    (granted \<longrightarrow> (\<exists>k < MUTEX_POOL_SIZE. mtx_Valid (pool' ! k) \<and> mutex_range (pool' ! k) = {addr..<addr + unat len}))"
proof -
  obtain a b where ab: "mutex_wait func para (timeout \<noteq> 0) 0 addr len timeout pool = Some (a, b)"
      and tk: "(if a then mutex_take b 0 addr len else Some (False, b)) = Some (granted, pool')"
    using assms(4) by (auto simp: MutexApply_def Let_def split: bind_splits)
  define y where "y = (a, b)"
  have y: "mutex_wait func para (timeout \<noteq> 0) 0 addr len timeout pool = Some y" using ab by (simp add: y_def)
  have take: "(if fst y then mutex_take (snd y) 0 addr len else Some (False, snd y)) = Some (granted, pool')"
    using tk unfolding y_def fst_conv snd_conv .
  have w: "mutex_ok (snd y) \<and> (fst y \<longrightarrow> mutex_clear (snd y) MUTEX_POOL_SIZE addr len)"
    using mutex_wait_free [OF y assms(2,1)] by (simp add: mutex_clear_def)
  show ?thesis
  proof (cases "fst y")
    case False
    with take w show ?thesis by simp
  next
    case True
    with w have ok: "mutex_ok (snd y)" and clear: "mutex_clear (snd y) MUTEX_POOL_SIZE addr len" by auto
    have lp: "length (snd y) = MUTEX_POOL_SIZE" using ok by (simp add: mutex_ok_def)
    from mutex_take_spec [OF lp, of 0 addr len] show ?thesis
    proof (elim disjE exE conjE)
      fix k assume k: "k < MUTEX_POOL_SIZE" and t: "mutex_take (snd y) 0 addr len =
          Some (True, (snd y)[k := \<lparr>mtx_Obj = \<lparr>node_Data = Some addr, node_Len = len\<rparr>, mtx_Valid = True\<rparr>])"
      show ?thesis
        using take True t mutex_take_ok [OF ok clear assms(3) k] k lp
        by (auto simp: mutex_range_def intro!: exI [of _ k])
    next
      assume "mutex_take (snd y) 0 addr len = Some (False, snd y)"
      then show ?thesis using take True ok by simp
    qed
  qed
qed

lemma MutexApply_exclusive_witness:
  "\<exists>pool'. MutexApply (\<lambda>_ p. p) 0 5 1 1 (replicate 128 \<lparr>mtx_Obj = \<lparr>node_Data = None, node_Len = 0\<rparr>, mtx_Valid = False\<rparr>) =
     Some (True, pool') \<and> mutex_ok pool' \<and> (\<exists>k < MUTEX_POOL_SIZE. mutex_range (pool' ! k) = {5..<6})"
proof -
  define pool :: "MutexType list" where
    "pool = replicate 128 \<lparr>mtx_Obj = \<lparr>node_Data = None, node_Len = 0\<rparr>, mtx_Valid = False\<rparr>"
  have ok: "mutex_ok pool" by (simp add: pool_def mutex_ok_def MUTEX_POOL_SIZE_def)
  have rel: "only_releases q ((\<lambda>_ p. p) (0 :: u32) q)" for q by (simp add: only_releases_def)
  have lp: "length pool = MUTEX_POOL_SIZE" by (simp add: pool_def MUTEX_POOL_SIZE_def)
  have "MutexSearch pool 0 5 1 = Some None"
    by (cases rule: MutexSearch_cases [OF lp, of 0 5 1]) (auto simp: pool_def MUTEX_POOL_SIZE_def)
  then have w: "mutex_wait (\<lambda>_ p. p) 0 True 0 5 1 1 pool = Some (True, pool)" by (subst mutex_wait.simps) simp
  obtain pool' where g: "MutexApply (\<lambda>_ p. p) 0 5 1 1 pool = Some (True, pool')"
    using mutex_take_spec [OF lp, of 0 5 1] w by (auto simp: MutexApply_def pool_def MUTEX_POOL_SIZE_def dest: spec [of _ 0])
  from MutexApply_exclusive [of pool "\<lambda>_ p. p" 0 1 5 1 True, OF ok rel _ g] g show ?thesis
    unfolding pool_def by auto
qed

text \<open>With a timeout the request always returns, after at most \<open>timeout\<close> calls of the waiting function.\<close>

lemma mutex_wait_returns:
  assumes "\<And>p. length (func para p) = length p"
  shows "length pool = MUTEX_POOL_SIZE \<Longrightarrow>
    \<exists>res n. n \<le> unat timeout \<and> mutex_wait func para True i addr len timeout pool = Some (res, ((func para) ^^ n) pool)"
proof (induction "unat timeout" arbitrary: timeout i pool)
  case 0
  then have t: "timeout = 0" by (simp add: unat_eq_0)
  show ?case
    by (cases rule: MutexSearch_cases [OF "0.prems", of i addr len, case_names none found]; subst mutex_wait.simps)
      (use t in \<open>auto intro: exI [of _ 0]\<close>)
next
  case (Suc n)
  then have t0: "timeout \<noteq> 0" by auto
  with Suc.hyps(2) have t: "timeout \<noteq> 0" "n = unat (timeout - 1)" by (simp_all add: unat_minus_one)
  show ?case
  proof (cases rule: MutexSearch_cases [OF Suc.prems, of i addr len, case_names none found])
    case none
    then have "mutex_wait func para True i addr len timeout pool = Some (True, ((func para) ^^ 0) pool)"
      by (subst mutex_wait.simps) simp
    then show ?thesis by blast
  next
    case (found k)
    have lp: "length (func para pool) = MUTEX_POOL_SIZE" using assms Suc.prems by simp
    obtain res m where m: "m \<le> n" "mutex_wait func para True k addr len (timeout - 1) (func para pool) =
        Some (res, ((func para) ^^ m) (func para pool))"
      using Suc.hyps(1) [OF t(2) lp, of k] unfolding t(2) by blast
    have "mutex_wait func para True i addr len timeout pool = Some (res, ((func para) ^^ Suc m) pool)"
      using found(1) t(1) m(2) by (subst mutex_wait.simps) (simp add: funpow_Suc_right del: funpow.simps)
    then show ?thesis using m(1) Suc.hyps(2) by (intro exI [of _ res] exI [of _ "Suc m"]) simp
  qed
qed

lemma MutexApply_returns:
  assumes "\<And>p. length (func para p) = length p" and "length pool = MUTEX_POOL_SIZE" and "timeout \<noteq> 0"
  shows "\<exists>res. MutexApply func para addr len timeout pool = Some res"
proof -
  obtain res n where w: "mutex_wait func para True 0 addr len timeout pool = Some (res, ((func para) ^^ n) pool)"
    using mutex_wait_returns [where func = func and para = para, OF assms(1,2)] by blast
  have "length (((func para) ^^ n) pool) = MUTEX_POOL_SIZE" using assms(1,2) by (induction n) auto
  from mutex_take_spec [OF this, of 0 addr len] w assms(3) show ?thesis
    by (auto simp: MutexApply_def)
qed

text \<open>Without one it waits for ever on a range that nobody releases.\<close>

lemma mutex_wait_forever:
  assumes "func para pool = pool" and "MutexSearch pool k addr len = Some (Some k)"
  shows "mutex_wait func para False k addr len timeout pool = None"
proof -
  have "f p q = q \<longrightarrow> MutexSearch q i a l = Some (Some i) \<longrightarrow> \<not> en \<longrightarrow> False" if "mutex_wait f p en i a l t q = Some y" for f p en i a l t q y
  proof (rule mutex_wait.raw_induct [where P = "\<lambda>f p en i a l t q y. f p q = q \<longrightarrow> MutexSearch q i a l = Some (Some i) \<longrightarrow> \<not> en \<longrightarrow> False",
      OF _ that], goal_cases)
    case (1 w f p en i a l t q y)
    show ?case
    proof (intro impI)
      assume a: "f p q = q" "MutexSearch q i a l = Some (Some i)" "\<not> en"
      then have "w f p en i a l t q = Some y" using 1(2) by simp
      from 1(1) [OF this] a show False by simp
    qed
  qed
  from this [of func para False k addr len timeout pool] assms show ?thesis
    by (cases "mutex_wait func para False k addr len timeout pool") blast+
qed

section \<open>Release\<close>

definition mutex_tidy :: "MutexType list \<Rightarrow> bool" where
  "mutex_tidy pool \<longleftrightarrow> (\<forall>m \<in> set pool. \<not> mtx_Valid m \<longrightarrow> m = \<lparr>mtx_Obj = \<lparr>node_Data = None, node_Len = 0\<rparr>, mtx_Valid = False\<rparr>)"

text \<open>Releasing any address of a range that was granted gives the pool back.\<close>

text \<open>C38: releasing undoes a grant. When no range of the pool meets the requested one and an entry is
  free, the request is granted at once, and releasing any address of the range gives back exactly the
  pool there was before.\<close>

theorem MutexRelease_undoes_MutexApply:
  assumes "mutex_ok pool" and "mutex_tidy pool" and "mutex_clear pool MUTEX_POOL_SIZE addr len"
    and "a \<in> {addr..<addr + unat len}" and "\<exists>k < MUTEX_POOL_SIZE. \<not> mtx_Valid (pool ! k)"
  shows "\<exists>pool'. MutexApply func para addr len timeout pool = Some (True, pool') \<and> mutex_ok pool' \<and>
    MutexRelease a pool' = Some (True, pool)"
proof -
  have lp: "length pool = MUTEX_POOL_SIZE" using assms(1) by (simp add: mutex_ok_def)
  have len: "0 < unat len" using assms(4) by auto
  have "MutexSearch pool 0 addr len = Some None"
    using assms(3) by (cases rule: MutexSearch_cases [OF lp, of 0 addr len]) (auto simp: mutex_clear_def)
  then have wait: "mutex_wait func para (timeout \<noteq> 0) 0 addr len timeout pool = Some (True, pool)"
    by (subst mutex_wait.simps) simp
  define new where "new = \<lparr>mtx_Obj = \<lparr>node_Data = Some addr, node_Len = len\<rparr>, mtx_Valid = True\<rparr>"
  obtain k where k: "k < MUTEX_POOL_SIZE" "\<not> mtx_Valid (pool ! k)" "mutex_take pool 0 addr len = Some (True, pool[k := new])"
    using mutex_take_spec [OF lp, of 0 addr len] assms(5) unfolding new_def by blast
  have granted: "MutexApply func para addr len timeout pool = Some (True, pool[k := new])"
    using wait k(3) by (simp add: MutexApply_def)
  have ok: "mutex_ok (pool[k := new])" unfolding new_def by (rule mutex_take_ok [OF assms(1,3) len k(1)])
  have ln: "length (pool[k := new]) = MUTEX_POOL_SIZE" using lp by simp
  have hit: "mtx_Valid (pool[k := new] ! k)" "mutex_meets (pool[k := new] ! k) a 1"
    using k(1) lp assms(4) unfolding mutex_meets_byte by (simp_all add: new_def mutex_range_def)
  have "MutexSearch (pool[k := new]) 0 a 1 = Some (Some k)"
  proof (cases rule: MutexSearch_cases [OF ln, of 0 a 1, case_names none found])
    case none
    with hit k(1) show ?thesis by blast
  next
    case (found j)
    have "j = k"
    proof (rule ccontr)
      assume "j \<noteq> k"
      then have "mutex_range (pool[k := new] ! j) \<inter> mutex_range (pool[k := new] ! k) = {}"
        using ok found(3,4) hit(1) k(1) unfolding mutex_ok_def by blast
      with found(5) hit(2) show False unfolding mutex_meets_byte by blast
    qed
    with found(1) show ?thesis by simp
  qed
  moreover have "pool ! k = \<lparr>mtx_Obj = \<lparr>node_Data = None, node_Len = 0\<rparr>, mtx_Valid = False\<rparr>"
    using assms(2) k(1,2) lp by (simp add: mutex_tidy_def)
  then have "(pool[k := new])[k := \<lparr>mtx_Obj = \<lparr>node_Data = None, node_Len = 0\<rparr>, mtx_Valid = False\<rparr>] = pool"
    by (metis list_update_id list_update_overwrite)
  ultimately have "MutexRelease a (pool[k := new]) = Some (True, pool)"
    using k(1) lp by (simp add: MutexRelease_def wr_Some)
  with granted ok show ?thesis by blast
qed

lemma MutexRelease_undoes_MutexApply_witness:
  "\<exists>pool'. MutexApply (\<lambda>_ p. p) 0 5 3 1 (replicate 128 \<lparr>mtx_Obj = \<lparr>node_Data = None, node_Len = 0\<rparr>, mtx_Valid = False\<rparr>) =
       Some (True, pool') \<and>
     MutexRelease 7 pool' = Some (True, replicate 128 \<lparr>mtx_Obj = \<lparr>node_Data = None, node_Len = 0\<rparr>, mtx_Valid = False\<rparr>)"
proof -
  define pool :: "MutexType list" where
    "pool = replicate 128 \<lparr>mtx_Obj = \<lparr>node_Data = None, node_Len = 0\<rparr>, mtx_Valid = False\<rparr>"
  have "mutex_ok pool" "mutex_tidy pool" "mutex_clear pool MUTEX_POOL_SIZE 5 3"
    by (simp_all add: pool_def mutex_ok_def mutex_tidy_def mutex_clear_def MUTEX_POOL_SIZE_def)
  moreover have "\<exists>k < MUTEX_POOL_SIZE. \<not> mtx_Valid (pool ! k)"
    by (intro exI [of _ 0]) (simp add: pool_def MUTEX_POOL_SIZE_def)
  ultimately show ?thesis
    using MutexRelease_undoes_MutexApply [of pool 5 3 7 "\<lambda>_ p. p" 0 1] unfolding pool_def by auto
qed

section \<open>A grant that overlaps\<close>

lemma mutex_wait_resumes:
  assumes "MutexSearch pool i addr len = Some (Some k)" and "en \<longrightarrow> timeout \<noteq> 0"
  shows "\<exists>timeout'. mutex_wait func para en i addr len timeout pool = mutex_wait func para en k addr len timeout' (func para pool)"
  using assms by (subst mutex_wait.simps) auto

text \<open>An example. While one task waits for \<open>[0, 10)\<close> in entry 1, the entries 0 and 1 are released and
  another task is granted \<open>[5, 6)\<close> in entry 0.\<close>

definition mutex_empty :: MutexType where
  "mutex_empty = \<lparr>mtx_Obj = \<lparr>node_Data = None, node_Len = 0\<rparr>, mtx_Valid = False\<rparr>"

definition mutex_held :: "nat \<Rightarrow> u32 \<Rightarrow> MutexType" where
  "mutex_held a l = \<lparr>mtx_Obj = \<lparr>node_Data = Some a, node_Len = l\<rparr>, mtx_Valid = True\<rparr>"

definition mutex_demo :: "MutexType list" where
  "mutex_demo = mutex_held 100 10 # mutex_held 0 10 # replicate 126 mutex_empty"

definition mutex_others :: "u32 \<Rightarrow> MutexType list \<Rightarrow> MutexType list" where
  "mutex_others para pool = (case do {
       (_, pool) \<leftarrow> MutexRelease 100 pool;
       (_, pool) \<leftarrow> MutexRelease 0 pool;
       MutexApply (\<lambda>_ p. p) 0 5 1 1 pool
     } of None \<Rightarrow> pool | Some (_, pool) \<Rightarrow> pool)"

lemma mutex_others_demo: "mutex_others 0 mutex_demo = mutex_held 5 1 # mutex_empty # replicate 126 mutex_empty"
  by code_simp

lemma mutex_ok_pair:
  "mutex_ok (mutex_held a l # mutex_held b m # replicate 126 mutex_empty) \<longleftrightarrow>
     {a..<a + unat l} \<inter> {b..<b + unat m} = {}"
proof -
  define pool where "pool = mutex_held a l # mutex_held b m # replicate 126 mutex_empty"
  have n: "pool ! 0 = mutex_held a l" "pool ! 1 = mutex_held b m" by (simp_all add: pool_def)
  have v: "mtx_Valid (pool ! i) \<longleftrightarrow> i = 0 \<or> i = 1" if "i < MUTEX_POOL_SIZE" for i
    using that by (auto simp: pool_def nth_Cons' MUTEX_POOL_SIZE_def mutex_held_def mutex_empty_def)
  have r: "mutex_range (mutex_held a l) = {a..<a + unat l}" for a l
    by (simp add: mutex_range_def mutex_held_def)
  have len: "length pool = MUTEX_POOL_SIZE" "0 < MUTEX_POOL_SIZE" "1 < MUTEX_POOL_SIZE"
    by (simp_all add: pool_def MUTEX_POOL_SIZE_def)
  have "mutex_ok pool \<longleftrightarrow> mutex_range (pool ! 0) \<inter> mutex_range (pool ! 1) = {}"
  proof
    assume "mutex_ok pool"
    with len v show "mutex_range (pool ! 0) \<inter> mutex_range (pool ! 1) = {}" unfolding mutex_ok_def by (metis zero_neq_one)
  next
    assume d: "mutex_range (pool ! 0) \<inter> mutex_range (pool ! 1) = {}"
    show "mutex_ok pool" unfolding mutex_ok_def
    proof (intro conjI allI impI)
      fix i j assume "i < MUTEX_POOL_SIZE" "j < MUTEX_POOL_SIZE" "i \<noteq> j \<and> mtx_Valid (pool ! i) \<and> mtx_Valid (pool ! j)"
      with v consider "i = 0" "j = 1" | "i = 1" "j = 0" by metis
      then show "mutex_range (pool ! i) \<inter> mutex_range (pool ! j) = {}" using d by cases (auto simp: Int_commute)
    qed (rule len)
  qed
  then show ?thesis unfolding n r unfolding pool_def .
qed

lemma mutex_ok_one: "mutex_ok (mutex_held a l # mutex_empty # replicate 126 mutex_empty)"
proof -
  have "i = 0" if "i < MUTEX_POOL_SIZE" "mtx_Valid ((mutex_held a l # mutex_empty # replicate 126 mutex_empty) ! i)" for i
    using that by (cases i) (auto simp: nth_Cons' MUTEX_POOL_SIZE_def mutex_empty_def split: if_splits)
  then show ?thesis unfolding mutex_ok_def by (auto simp: MUTEX_POOL_SIZE_def)
qed

text \<open>C39: the pool can grant overlapping ranges. A task that waits goes on from the entry \<open>k\<close> that
  stopped it and never looks at the ones before. Let \<open>k\<close> be the first entry in the way of the requested
  range, and let the other tasks, in one call of the waiting function, leave a pool in which no entry from
  \<open>k\<close> on is in the way, an entry is free, and an entry \<open>j\<close> before \<open>k\<close> holds a range that shares an
  address with the requested one. Then the request is granted beside that range: the pool that results
  is not well formed, even when the one before was.\<close>

theorem MutexApply_overlaps:
  assumes "length pool = MUTEX_POOL_SIZE" and "k < MUTEX_POOL_SIZE" and "mtx_Valid (pool ! k)" and "mutex_meets (pool ! k) addr len"
    and "\<forall>i < k. mtx_Valid (pool ! i) \<longrightarrow> \<not> mutex_meets (pool ! i) addr len"
    and "length (func para pool) = MUTEX_POOL_SIZE"
    and "\<forall>i < MUTEX_POOL_SIZE. k \<le> i \<longrightarrow> mtx_Valid (func para pool ! i) \<longrightarrow> \<not> mutex_meets (func para pool ! i) addr len"
    and "\<exists>i < MUTEX_POOL_SIZE. \<not> mtx_Valid (func para pool ! i)"
    and "j < k" and "mtx_Valid (func para pool ! j)" and "mutex_range (func para pool ! j) \<inter> {addr..<addr + unat len} \<noteq> {}"
  shows "\<exists>i pool'. MutexApply func para addr len timeout pool = Some (True, pool') \<and> i < MUTEX_POOL_SIZE \<and> i \<noteq> j \<and>
    pool' = (func para pool)[i := \<lparr>mtx_Obj = \<lparr>node_Data = Some addr, node_Len = len\<rparr>, mtx_Valid = True\<rparr>] \<and>
    pool' ! j = func para pool ! j \<and> \<not> mutex_ok pool'"
proof -
  define later where "later = func para pool"
  define new where "new = \<lparr>mtx_Obj = \<lparr>node_Data = Some addr, node_Len = len\<rparr>, mtx_Valid = True\<rparr>"
  have ll: "length later = MUTEX_POOL_SIZE" using assms(6) by (simp add: later_def)
  have stop: "MutexSearch pool 0 addr len = Some (Some k)"
  proof (cases rule: MutexSearch_cases [OF assms(1), of 0 addr len, case_names none found])
    case none
    then show ?thesis using assms(2-4) by blast
  next
    case (found i)
    have "i = k" using found(4,5,6) assms(3-5) by (metis le0 linorder_neqE_nat)
    with found(1) show ?thesis by simp
  qed
  obtain t' where wait: "mutex_wait func para (timeout \<noteq> 0) 0 addr len timeout pool =
      mutex_wait func para (timeout \<noteq> 0) k addr len t' later"
    using mutex_wait_resumes [OF stop, of "timeout \<noteq> 0" timeout func para] by (auto simp: later_def)
  have "MutexSearch later k addr len = Some None"
    using assms(7) by (cases rule: MutexSearch_cases [OF ll, of k addr len]) (auto simp: later_def)
  then have free: "mutex_wait func para (timeout \<noteq> 0) k addr len t' later = Some (True, later)"
    by (subst mutex_wait.simps) simp
  obtain i where i: "i < MUTEX_POOL_SIZE" "\<not> mtx_Valid (later ! i)" "mutex_take later 0 addr len = Some (True, later[i := new])"
    using mutex_take_spec [OF ll, of 0 addr len] assms(8) unfolding new_def later_def by blast
  have ij: "i \<noteq> j" "j < MUTEX_POOL_SIZE" using i(2) assms(2,9,10) by (auto simp: later_def)
  have n: "later[i := new] ! i = new" "later[i := new] ! j = later ! j" using i(1) ij ll by simp_all
  have "mutex_range new = {addr..<addr + unat len}" by (simp add: mutex_range_def new_def)
  then have "mutex_range (later[i := new] ! i) \<inter> mutex_range (later[i := new] ! j) \<noteq> {}"
    using assms(11) unfolding n by (auto simp: later_def)
  moreover have "mtx_Valid (later[i := new] ! i)" "mtx_Valid (later[i := new] ! j)"
    using assms(10) unfolding n by (simp_all add: new_def later_def)
  ultimately have "\<not> mutex_ok (later[i := new])" using i(1) ij unfolding mutex_ok_def by blast
  then show ?thesis
    using wait free i ij n(2) by (intro exI [of _ i]) (simp add: MutexApply_def new_def later_def)
qed

theorem MutexApply_overlaps_witness:
  "\<exists>pool'. MutexApply mutex_others 0 0 10 1 mutex_demo = Some (True, pool') \<and> pool' ! 0 = mutex_held 5 1 \<and>
     mutex_ok mutex_demo \<and> mutex_ok (mutex_others 0 mutex_demo) \<and> \<not> mutex_ok pool'"
proof -
  note o = mutex_others_demo
  have v: "\<not> mtx_Valid ((mutex_held 5 1 # mutex_empty # replicate 126 mutex_empty) ! i)" if "1 \<le> i" "i < MUTEX_POOL_SIZE" for i
    using that by (auto simp: nth_Cons' MUTEX_POOL_SIZE_def mutex_empty_def)
  have "\<exists>i pool'. MutexApply mutex_others 0 0 10 1 mutex_demo = Some (True, pool') \<and> i < MUTEX_POOL_SIZE \<and> i \<noteq> 0 \<and>
    pool' = (mutex_others 0 mutex_demo)[i := \<lparr>mtx_Obj = \<lparr>node_Data = Some 0, node_Len = 10\<rparr>, mtx_Valid = True\<rparr>] \<and>
    pool' ! 0 = mutex_others 0 mutex_demo ! 0 \<and> \<not> mutex_ok pool'"
  proof (rule MutexApply_overlaps [where k = 1])
    show "\<forall>i < MUTEX_POOL_SIZE. 1 \<le> i \<longrightarrow> mtx_Valid (mutex_others 0 mutex_demo ! i) \<longrightarrow> \<not> mutex_meets (mutex_others 0 mutex_demo ! i) 0 10"
      unfolding o using v by blast
    show "\<exists>i < MUTEX_POOL_SIZE. \<not> mtx_Valid (mutex_others 0 mutex_demo ! i)"
      unfolding o by (intro exI [of _ 1]) (simp add: MUTEX_POOL_SIZE_def mutex_empty_def)
    show "mutex_range (mutex_others 0 mutex_demo ! 0) \<inter> {0..<0 + unat (10 :: u32)} \<noteq> {}"
      unfolding o by (simp add: mutex_range_def mutex_held_def)
    show "mtx_Valid (mutex_others 0 mutex_demo ! 0)" unfolding o by (simp add: mutex_held_def)
    show "length (mutex_others 0 mutex_demo) = MUTEX_POOL_SIZE" unfolding o by (simp add: MUTEX_POOL_SIZE_def)
  qed (simp_all add: mutex_demo_def MUTEX_POOL_SIZE_def mutex_held_def mutex_meets_def)
  moreover have "mutex_ok mutex_demo" unfolding mutex_demo_def mutex_ok_pair by simp
  moreover have "mutex_ok (mutex_others 0 mutex_demo)" unfolding o using mutex_ok_one [of 5 1] by simp
  ultimately show ?thesis unfolding o by auto
qed

end
