(* ===== verification/Print_Format.thy ===== *)
theory Print_Format
  imports C_String
begin

text \<open>
  Formatted output: the \<open>Printf\<close> and \<open>Sprintf\<close> families of \<open>common_lib/usdl_io.c\<close>. The file has the
  formatter twice, once giving every character to a function and once storing it in a bounded buffer;
  apart from that the two texts are the same. The formatter is defined here over an output \<open>put n c s\<close>
  that takes the character number \<open>n\<close>; \<open>Vprintf\<close> and \<open>Vsnprintf\<close> are it with their two outputs.

  Arguments are a list of the values that \<open>VA_ARG\<close> reads; reading one of another type is undefined
  (\<open>None\<close>). Widths are integers; \<open>%n\<close> adds an address and a value to the list of stores.
\<close>

unbundle bit_operations_syntax

datatype VaArg = Va_word u32 | Va_long u64 | Va_str "u8 list" | Va_ptr u32

definition ZEROPAD :: u32 where "ZEROPAD = 1"
definition SIGN :: u32 where "SIGN = 2"
definition PLUS :: u32 where "PLUS = 4"
definition SPACE :: u32 where "SPACE = 8"
definition LEFT :: u32 where "LEFT = 16"
definition SPECIAL :: u32 where "SPECIAL = 32"
definition LARGE :: u32 where "LARGE = 64"

section \<open>Directives\<close>

text \<open>Loops over the format read its next byte; the format has to be terminated.\<close>

fun skip_atoi :: "u8 list \<Rightarrow> int \<Rightarrow> (int \<times> u8 list) option" where
  "skip_atoi (c # cs) i =
     (if 0x30 \<le> c \<and> c \<le> 0x39 then
        (if i * 10 + uint c - 0x30 > 2147483647 then None else skip_atoi cs (i * 10 + uint c - 0x30))
      else Some (i, c # cs))"
| "skip_atoi [] i = None"

fun format_flags :: "u8 list \<Rightarrow> u32 \<Rightarrow> (u32 \<times> u8 list) option" where
  "format_flags (c # cs) flags =
     (if c = 0x2D then format_flags cs (flags OR LEFT)
      else if c = 0x2B then format_flags cs (flags OR PLUS)
      else if c = 0x20 then format_flags cs (flags OR SPACE)
      else if c = 0x23 then format_flags cs (flags OR SPECIAL)
      else if c = 0x30 then format_flags cs (flags OR ZEROPAD)
      else Some (flags, c # cs))"
| "format_flags [] flags = None"

fun va_word :: "VaArg list \<Rightarrow> (u32 \<times> VaArg list) option" where
  "va_word (Va_word w # args) = Some (w, args)"
| "va_word _ = None"

fun va_long :: "VaArg list \<Rightarrow> (u64 \<times> VaArg list) option" where
  "va_long (Va_long w # args) = Some (w, args)"
| "va_long _ = None"

fun va_str :: "VaArg list \<Rightarrow> (u8 list \<times> VaArg list) option" where
  "va_str (Va_str s # args) = Some (s, args)"
| "va_str _ = None"

fun va_ptr :: "VaArg list \<Rightarrow> (u32 \<times> VaArg list) option" where
  "va_ptr (Va_ptr p # args) = Some (p, args)"
| "va_ptr _ = None"

definition is_dec :: "u8 \<Rightarrow> bool" where
  "is_dec c \<longleftrightarrow> 0x30 \<le> c \<and> c \<le> 0x39"

text \<open>The field width: the result is the flags, the width, the rest of the format and the arguments.\<close>

definition format_width :: "u8 list \<Rightarrow> u32 \<Rightarrow> VaArg list \<Rightarrow> (u32 \<times> int \<times> u8 list \<times> VaArg list) option" where
  "format_width cs flags args = do {
     c \<leftarrow> rd cs 0;
     if is_dec c then do { (w, cs) \<leftarrow> skip_atoi cs 0; Some (flags, w, cs, args) }
     else if c = 0x2A then do {
       (w, args) \<leftarrow> va_word args;
       if sint w < 0 then
         (if w = 0x80000000 then None else Some (flags OR LEFT, - sint w, tl cs, args))
       else Some (flags, sint w, tl cs, args)
     }
     else Some (flags, -1, cs, args)
   }"

definition format_precision :: "u8 list \<Rightarrow> VaArg list \<Rightarrow> (int \<times> u8 list \<times> VaArg list) option" where
  "format_precision cs args = do {
     c \<leftarrow> rd cs 0;
     if c = 0x2E then do {
       let cs = tl cs;
       c \<leftarrow> rd cs 0;
       (p, cs, args) \<leftarrow>
         (if is_dec c then do { (p, cs) \<leftarrow> skip_atoi cs 0; Some (p, cs, args) }
          else if c = 0x2A then do { (w, args) \<leftarrow> va_word args; Some (sint w, tl cs, args) }
          else Some (-1, cs, args));
       Some (if p < 0 then 0 else p, cs, args)
     }
     else Some (-1, cs, args)
   }"

text \<open>The qualifier; 0 stands for none.\<close>

definition format_qualifier :: "u8 list \<Rightarrow> (u8 \<times> u8 list) option" where
  "format_qualifier cs = do {
     c \<leftarrow> rd cs 0;
     if c = 0x68 \<or> c = 0x6C \<or> c = 0x4C \<or> c = 0x5A \<or> c = 0x7A then do {
       let cs = tl cs;
       d \<leftarrow> rd cs 0;
       if c = 0x6C \<and> d = 0x6C then Some (0x4C, tl cs) else Some (c, cs)
     }
     else Some (0, cs)
   }"

section \<open>Output\<close>

text \<open>The state of the output: the number of characters so far, and what the output keeps.\<close>

definition emit_char :: "(nat \<Rightarrow> u8 \<Rightarrow> 's \<Rightarrow> 's option) \<Rightarrow> u8 \<Rightarrow> nat \<times> 's \<Rightarrow> (nat \<times> 's) option" where
  "emit_char put c st = (case st of (n, s) \<Rightarrow> map_option (Pair (Suc n)) (put n c s))"

fun emit_chars :: "(nat \<Rightarrow> u8 \<Rightarrow> 's \<Rightarrow> 's option) \<Rightarrow> u8 list \<Rightarrow> nat \<times> 's \<Rightarrow> (nat \<times> 's) option" where
  "emit_chars put [] st = Some st"
| "emit_chars put (c # cs) st = Option.bind (emit_char put c st) (emit_chars put cs)"

text \<open>\<open>while (size-- > 0) output(c)\<close>.\<close>

definition emit_pad :: "(nat \<Rightarrow> u8 \<Rightarrow> 's \<Rightarrow> 's option) \<Rightarrow> u8 \<Rightarrow> int \<Rightarrow> nat \<times> 's \<Rightarrow> (nat \<times> 's) option" where
  "emit_pad put c sz st = emit_chars put (replicate (nat sz) c) st"

definition pad_left :: "int \<Rightarrow> int" where
  "pad_left sz = (if sz > 0 then -1 else sz - 1)"

section \<open>Numbers\<close>

text \<open>\<open>digits[k]\<close>; the tables \<open>small_digits\<close> and \<open>large_digits\<close> have 36 characters.\<close>

definition num_digit :: "u32 \<Rightarrow> u32 \<Rightarrow> u8" where
  "num_digit flags k = (if k < 10 then 0x30 + ucast k
     else if flags AND LARGE \<noteq> 0 then 0x41 + ucast (k - 10) else 0x61 + ucast (k - 10))"

text \<open>The digits, the lowest first. The loop divides the low 32 bits of the number; bases below 2 do not
  get here.\<close>

function num_digits :: "u32 \<Rightarrow> u64 \<Rightarrow> u32 \<Rightarrow> u8 list" where
  "num_digits flags num base =
     (if num = 0 \<or> base < 2 then []
      else num_digit flags (ucast num mod base) # num_digits flags (ucast (ucast num div base)) base)"
  by pat_completeness auto
termination
proof (relation "measure (\<lambda>(flags, num, base). unat num)", goal_cases)
  case (2 flags num base)
  then have b: "2 \<le> unat base" and n: "0 < unat num" by (simp_all add: word_less_nat_alt unat_gt_0)
  have "unat (ucast num :: u32) \<le> unat num" by (simp add: unsigned_ucast_eq take_bit_nat_less_eq_self)
  then have "unat (ucast num :: u32) div unat base < unat num"
    using b n by (metis div_le_mono div_less_dividend le_less_trans less_le_trans one_less_numeral_iff semiring_norm(76))
  moreover have "unat (ucast (ucast num div base :: u32) :: u64) = unat (ucast num :: u32) div unat base"
  proof -
    have "unat (ucast num div base :: u32) < 2 ^ 64" using unat_less_u32 [of "ucast num div base"] by simp
    then show ?thesis by (simp add: unsigned_ucast_eq take_bit_nat_eq_self unat_div)
  qed
  ultimately show ?case by simp
qed simp

declare num_digits.simps [simp del]

text \<open>The second half of the function: padding, sign, prefix, leading zeros and digits.\<close>

definition number_out ::
    "(nat \<Rightarrow> u8 \<Rightarrow> 's \<Rightarrow> 's option) \<Rightarrow> u32 \<Rightarrow> u8 \<Rightarrow> u8 \<Rightarrow> u32 \<Rightarrow> int \<Rightarrow> int \<Rightarrow> u8 list \<Rightarrow> nat \<times> 's \<Rightarrow> (nat \<times> 's) option" where
  "number_out put flags c sign base sz precision tmp st = do {
     (st, sz) \<leftarrow>
       (if flags AND (ZEROPAD + LEFT) = 0 then do { st \<leftarrow> emit_pad put 0x20 sz st; Some (st, pad_left sz) }
        else Some (st, sz));
     st \<leftarrow> (if sign \<noteq> 0 then emit_char put sign st else Some st);
     st \<leftarrow> (if flags AND SPECIAL \<noteq> 0 then
              (if base = 8 then emit_char put 0x30 st
               else if base = 16 then emit_chars put [0x30, num_digit flags 33] st
               else Some st)
            else Some st);
     (st, sz) \<leftarrow>
       (if flags AND LEFT = 0 then do { st \<leftarrow> emit_pad put c sz st; Some (st, pad_left sz) } else Some (st, sz));
     st \<leftarrow> emit_pad put 0x30 (precision - int (length tmp)) st;
     st \<leftarrow> emit_chars put (rev tmp) st;
     emit_pad put 0x20 sz st
   }"

text \<open>The sign: its character or 0, the magnitude and the width that is left.\<close>

definition number_sign :: "u32 \<Rightarrow> u64 \<Rightarrow> int \<Rightarrow> (u8 \<times> u64 \<times> int) option" where
  "number_sign flags num sz =
     (if flags AND SIGN \<noteq> 0 then
        (if sint num < 0 then (if num = 0x8000000000000000 then None else Some (0x2D, - num, sz - 1))
         else if flags AND PLUS \<noteq> 0 then Some (0x2B, num, sz - 1)
         else if flags AND SPACE \<noteq> 0 then Some (0x20, num, sz - 1)
         else Some (0, num, sz))
      else Some (0, num, sz))"

definition VprintfNumber ::
    "(nat \<Rightarrow> u8 \<Rightarrow> 's \<Rightarrow> 's option) \<Rightarrow> nat \<times> 's \<Rightarrow> u64 \<Rightarrow> u32 \<Rightarrow> int \<Rightarrow> int \<Rightarrow> u32 \<Rightarrow> (nat \<times> 's) option" where
  "VprintfNumber put st num base sz precision flags = do {
     let flags = (if flags AND LEFT \<noteq> 0 then flags AND NOT ZEROPAD else flags);
     let c = (if flags AND ZEROPAD \<noteq> 0 then 0x30 else 0x20);
     (sign, num, sz) \<leftarrow> number_sign flags num sz;
     let sz = (if flags AND SPECIAL \<noteq> 0 then (if base = 16 then sz - 2 else if base = 8 then sz - 1 else sz) else sz);
     let tmp = (if num = 0 then [0x30] else num_digits flags num base);
     let precision = (if int (length tmp) > precision then int (length tmp) else precision);
     number_out put flags c sign base (sz - precision) precision tmp st
   }"

section \<open>Conversions\<close>

text \<open>\<open>for (; sc_count-- && *sc != 0; ++sc)\<close>: the length of a string argument.\<close>

fun format_strlen :: "u8 list \<Rightarrow> int \<Rightarrow> int option" where
  "format_strlen (c # cs) sc_count =
     (if sc_count \<noteq> 0 \<and> c \<noteq> 0 then map_option ((+) 1) (format_strlen cs (sc_count - 1)) else Some 0)"
| "format_strlen [] sc_count = (if sc_count = 0 then Some 0 else None)"

text \<open>\<open>while (--field_width > 0)\<close> in the conversion of a character.\<close>

definition format_char ::
    "(nat \<Rightarrow> u8 \<Rightarrow> 's \<Rightarrow> 's option) \<Rightarrow> u32 \<Rightarrow> int \<Rightarrow> u8 \<Rightarrow> nat \<times> 's \<Rightarrow> (nat \<times> 's) option" where
  "format_char put flags width c st = do {
     (st, width) \<leftarrow>
       (if flags AND LEFT = 0 then do {
          st \<leftarrow> emit_pad put 0x20 (width - 1) st;
          Some (st, if width - 1 > 0 then 0 else width - 1)
        }
        else Some (st, width));
     st \<leftarrow> emit_char put c st;
     emit_pad put 0x20 (width - 1) st
   }"

definition format_string ::
    "(nat \<Rightarrow> u8 \<Rightarrow> 's \<Rightarrow> 's option) \<Rightarrow> u32 \<Rightarrow> int \<Rightarrow> int \<Rightarrow> u8 list \<Rightarrow> nat \<times> 's \<Rightarrow> (nat \<times> 's) option" where
  "format_string put flags width precision s st = do {
     len \<leftarrow> format_strlen s precision;
     (st, width) \<leftarrow>
       (if flags AND LEFT = 0 then do {
          st \<leftarrow> emit_pad put 0x20 (width - len) st;
          Some (st, if len < width then len - 1 else width - 1)
        }
        else Some (st, width));
     st \<leftarrow> emit_chars put (take (nat len) s) st;
     emit_pad put 0x20 (width - len) st
   }"

text \<open>The argument of an integer conversion, extended to 64 bits.\<close>

definition format_integer :: "u8 \<Rightarrow> u32 \<Rightarrow> VaArg list \<Rightarrow> (u64 \<times> VaArg list) option" where
  "format_integer qualifier flags args =
     (if qualifier = 0x4C then va_long args
      else do {
        (w, args) \<leftarrow> va_word args;
        if qualifier = 0x5A \<or> qualifier = 0x7A then Some (scast w, args)
        else if qualifier = 0x68 then
          Some (if flags AND SIGN \<noteq> 0 then scast (ucast w :: u16) else ucast (ucast w :: u16), args)
        else Some (if flags AND SIGN \<noteq> 0 then scast w else ucast w, args)
      })"

text \<open>What a conversion keeps: the output, the arguments and the values stored by \<open>%n\<close>.\<close>

record 's printer =
  print_out :: "nat \<times> 's"
  print_args :: "VaArg list"
  print_stores :: "(u32 \<times> nat) list"

definition print_number ::
    "(nat \<Rightarrow> u8 \<Rightarrow> 's \<Rightarrow> 's option) \<Rightarrow> u32 \<Rightarrow> int \<Rightarrow> int \<Rightarrow> u8 \<Rightarrow> u32 \<Rightarrow> 's printer \<Rightarrow> 's printer option" where
  "print_number put flags width precision qualifier base ps = do {
     (num, args) \<leftarrow> format_integer qualifier flags (print_args ps);
     out \<leftarrow> VprintfNumber put (print_out ps) num base width precision flags;
     Some (ps\<lparr>print_out := out, print_args := args\<rparr>)
   }"

text \<open>The conversion of the character \<open>c\<close>; the Boolean says whether the character has been used up.\<close>

definition print_conversion ::
    "(nat \<Rightarrow> u8 \<Rightarrow> 's \<Rightarrow> 's option) \<Rightarrow> u8 \<Rightarrow> u32 \<Rightarrow> int \<Rightarrow> int \<Rightarrow> u8 \<Rightarrow> 's printer \<Rightarrow> (bool \<times> 's printer) option" where
  "print_conversion put c flags width precision qualifier ps =
     (if c = 0x63 then do {
        (w, args) \<leftarrow> va_word (print_args ps);
        out \<leftarrow> format_char put flags width (ucast w) (print_out ps);
        Some (True, ps\<lparr>print_out := out, print_args := args\<rparr>)
      }
      else if c = 0x73 then do {
        (s, args) \<leftarrow> va_str (print_args ps);
        out \<leftarrow> format_string put flags width precision s (print_out ps);
        Some (True, ps\<lparr>print_out := out, print_args := args\<rparr>)
      }
      else if c = 0x70 then do {
        (p, args) \<leftarrow> va_ptr (print_args ps);
        let (width, flags) = (if width = -1 then (8, flags OR ZEROPAD) else (width, flags));
        out \<leftarrow> VprintfNumber put (print_out ps) (ucast p) 16 width precision flags;
        Some (True, ps\<lparr>print_out := out, print_args := args\<rparr>)
      }
      else if c = 0x6E then do {
        (p, args) \<leftarrow> va_ptr (print_args ps);
        Some (True, ps\<lparr>print_args := args, print_stores := print_stores ps @ [(p, fst (print_out ps))]\<rparr>)
      }
      else if c = 0x25 then do {
        out \<leftarrow> emit_char put 0x25 (print_out ps);
        Some (True, ps\<lparr>print_out := out\<rparr>)
      }
      else if c = 0x6F then map_option (Pair True) (print_number put flags width precision qualifier 8 ps)
      else if c = 0x58 then map_option (Pair True) (print_number put (flags OR LARGE) width precision qualifier 16 ps)
      else if c = 0x78 then map_option (Pair True) (print_number put flags width precision qualifier 16 ps)
      else if c = 0x64 \<or> c = 0x69 then map_option (Pair True) (print_number put (flags OR SIGN) width precision qualifier 10 ps)
      else if c = 0x75 then map_option (Pair True) (print_number put flags width precision qualifier 10 ps)
      else do {
        out \<leftarrow> emit_char put 0x25 (print_out ps);
        out \<leftarrow> (if c \<noteq> 0 then emit_char put c out else Some out);
        Some (c \<noteq> 0, ps\<lparr>print_out := out\<rparr>)
      })"

text \<open>One directive behind its \<open>%\<close>: the rest of the format and the state.\<close>

definition print_directive ::
    "(nat \<Rightarrow> u8 \<Rightarrow> 's \<Rightarrow> 's option) \<Rightarrow> u8 list \<Rightarrow> 's printer \<Rightarrow> (u8 list \<times> 's printer) option" where
  "print_directive put cs ps = do {
     (flags, cs) \<leftarrow> format_flags cs 0;
     (flags, width, cs, args) \<leftarrow> format_width cs flags (print_args ps);
     (precision, cs, args) \<leftarrow> format_precision cs args;
     (qualifier, cs) \<leftarrow> format_qualifier cs;
     c \<leftarrow> rd cs 0;
     (used, ps) \<leftarrow> print_conversion put c flags width precision qualifier (ps\<lparr>print_args := args\<rparr>);
     Some (if used then tl cs else cs, ps)
   }"

lemma skip_atoi_length: "skip_atoi cs i = Some (w, cs') \<Longrightarrow> length cs' \<le> length cs"
  by (induction cs arbitrary: i) (auto split: if_splits intro: le_SucI)

lemma format_flags_length: "format_flags cs f = Some (f', cs') \<Longrightarrow> length cs' \<le> length cs"
  by (induction cs arbitrary: f) (auto split: if_splits intro: le_SucI)

lemma format_width_length: "format_width cs f args = Some (f', w, cs', args') \<Longrightarrow> length cs' \<le> length cs"
  by (auto simp: format_width_def split: bind_splits if_splits dest: skip_atoi_length)

lemma format_precision_length: "format_precision cs args = Some (p, cs', args') \<Longrightarrow> length cs' \<le> length cs"
  by (auto simp: format_precision_def Let_def split: bind_splits if_splits dest!: skip_atoi_length)

lemma format_qualifier_length: "format_qualifier cs = Some (q, cs') \<Longrightarrow> length cs' \<le> length cs"
  by (auto simp: format_qualifier_def Let_def split: bind_splits if_splits)

lemma print_directive_length:
  assumes "print_directive put cs ps = Some (cs', ps')"
  shows "length cs' \<le> length cs"
  using assms unfolding print_directive_def bind_eq_Some_conv split_paired_Ex prod.case
proof (elim exE conjE, goal_cases)
  case (1 f cs1 f' w cs2 a2 p cs3 a3 q cs4 c used ps1)
  have "length cs' \<le> length cs4" using 1(7) by (cases used) auto
  also have "\<dots> \<le> length cs3" by (rule format_qualifier_length [OF 1(4)])
  also have "\<dots> \<le> length cs2" by (rule format_precision_length [OF 1(3)])
  also have "\<dots> \<le> length cs1" by (rule format_width_length [OF 1(2)])
  also have "\<dots> \<le> length cs" by (rule format_flags_length [OF 1(1)])
  finally show ?case .
qed

text \<open>The loop over the format.\<close>

function print_loop :: "(nat \<Rightarrow> u8 \<Rightarrow> 's \<Rightarrow> 's option) \<Rightarrow> u8 list \<Rightarrow> 's printer \<Rightarrow> 's printer option" where
  "print_loop put cs ps = (case cs of
     [] \<Rightarrow> None
   | c # cs \<Rightarrow>
       if c = 0 then Some ps
       else if c \<noteq> 0x25 then do {
         out \<leftarrow> emit_char put c (print_out ps);
         print_loop put cs (ps\<lparr>print_out := out\<rparr>)
       }
       else Option.bind (print_directive put cs ps) (\<lambda>(cs, ps). print_loop put cs ps))"
  by pat_completeness auto
termination
  by (relation "measure (\<lambda>(put, cs, ps). length cs)") (auto dest!: print_directive_length)

declare print_loop.simps [simp del]

section \<open>The functions\<close>

definition print_init :: "VaArg list \<Rightarrow> 's \<Rightarrow> 's printer" where
  "print_init args s = \<lparr>print_out = (0, s), print_args = args, print_stores = []\<rparr>"

text \<open>The output of \<open>Printf\<close>: the characters given to the function. The result is their number, they
  and the stores.\<close>

definition put_output :: "nat \<Rightarrow> u8 \<Rightarrow> u8 list \<Rightarrow> u8 list option" where
  "put_output n c out = Some (out @ [c])"

definition Vprintf :: "u8 list \<Rightarrow> VaArg list \<Rightarrow> (nat \<times> u8 list \<times> (u32 \<times> nat) list) option" where
  "Vprintf format args = do {
     ps \<leftarrow> print_loop put_output format (print_init args []);
     Some (fst (print_out ps), snd (print_out ps), print_stores ps)
   }"

text \<open>The output of \<open>Sprintf\<close>: \<open>if (str <= end) *str = c\<close> with \<open>end = buf + size - 1\<close>.\<close>

definition put_buffer :: "u32 \<Rightarrow> nat \<Rightarrow> u8 \<Rightarrow> u8 list \<Rightarrow> u8 list option" where
  "put_buffer sz n c buf = (if n < unat sz then wr buf n c else Some buf)"

definition Vsnprintf :: "u8 list \<Rightarrow> u32 \<Rightarrow> u8 list \<Rightarrow> VaArg list \<Rightarrow> (nat \<times> u8 list \<times> (u32 \<times> nat) list) option" where
  "Vsnprintf buf sz format args =
     (if sint sz < 0 then Some (0, buf, [])
      else do {
        ps \<leftarrow> print_loop (put_buffer sz) format (print_init args buf);
        let (n, buf) = print_out ps;
        buf \<leftarrow> (if n < unat sz then wr buf n 0 else if sz > 0 then wr buf (unat sz - 1) 0 else Some buf);
        Some (n, buf, print_stores ps)
      })"

definition Printf :: "u8 list \<Rightarrow> VaArg list \<Rightarrow> (nat \<times> u8 list \<times> (u32 \<times> nat) list) option" where
  "Printf format args = Vprintf format args"

definition Sprintf :: "u8 list \<Rightarrow> u8 list \<Rightarrow> VaArg list \<Rightarrow> (nat \<times> u8 list \<times> (u32 \<times> nat) list) option" where
  "Sprintf buf format args = Vsnprintf buf 0x7FFFFFFF format args"

definition Snprintf :: "u8 list \<Rightarrow> u32 \<Rightarrow> u8 list \<Rightarrow> VaArg list \<Rightarrow> (nat \<times> u8 list \<times> (u32 \<times> nat) list) option" where
  "Snprintf buf sz format args = Vsnprintf buf sz format args"

end
