(* ===== verification/Number_Text.thy ===== *)
theory Number_Text
  imports Print_Format
begin

text \<open>
  The conversions between numbers, bytes and text of \<open>common_lib/usdl_conversion.c\<close>, with the
  character classes of \<open>common_lib/usdl_tools.c\<close>. Text is in memory, terminated by zero. A 64-bit
  argument is a word, its signed value the \<open>sint\<close> of it; an overflow of signed arithmetic is
  undefined (\<open>None\<close>).
\<close>

unbundle bit_operations_syntax

section \<open>Character classes\<close>

definition CTYPE_U :: u8 where "CTYPE_U = 0x01"
definition CTYPE_L :: u8 where "CTYPE_L = 0x02"
definition CTYPE_D :: u8 where "CTYPE_D = 0x04"
definition CTYPE_C :: u8 where "CTYPE_C = 0x08"
definition CTYPE_P :: u8 where "CTYPE_P = 0x10"
definition CTYPE_S :: u8 where "CTYPE_S = 0x20"
definition CTYPE_X :: u8 where "CTYPE_X = 0x40"
definition CTYPE_SP :: u8 where "CTYPE_SP = 0x80"

definition CType :: "u8 list" where
  "CType =
     replicate 9 CTYPE_C @ replicate 5 (CTYPE_C OR CTYPE_S) @ replicate 18 CTYPE_C @
     [CTYPE_S OR CTYPE_SP] @ replicate 15 CTYPE_P @ replicate 10 CTYPE_D @ replicate 7 CTYPE_P @
     replicate 6 (CTYPE_U OR CTYPE_X) @ replicate 20 CTYPE_U @ replicate 6 CTYPE_P @
     replicate 6 (CTYPE_L OR CTYPE_X) @ replicate 20 CTYPE_L @ replicate 4 CTYPE_P @ [CTYPE_C] @
     replicate 32 0 @
     [CTYPE_S OR CTYPE_SP] @ replicate 31 CTYPE_P @
     replicate 23 CTYPE_U @ [CTYPE_P] @ replicate 7 CTYPE_U @ [CTYPE_L] @
     replicate 23 CTYPE_L @ [CTYPE_P] @ replicate 8 CTYPE_L"

definition IS_MASK :: "u8 \<Rightarrow> u8" where
  "IS_MASK c = CType ! unat c"

definition IS_SPACE :: "u8 \<Rightarrow> bool" where "IS_SPACE c \<longleftrightarrow> IS_MASK c AND CTYPE_S \<noteq> 0"
definition IS_DIGIT :: "u8 \<Rightarrow> bool" where "IS_DIGIT c \<longleftrightarrow> IS_MASK c AND CTYPE_D \<noteq> 0"
definition IS_LOWER :: "u8 \<Rightarrow> bool" where "IS_LOWER c \<longleftrightarrow> IS_MASK c AND CTYPE_L \<noteq> 0"
definition IS_ALPHA :: "u8 \<Rightarrow> bool" where "IS_ALPHA c \<longleftrightarrow> IS_MASK c AND (CTYPE_U OR CTYPE_L) \<noteq> 0"
definition TO_UPPER :: "u8 \<Rightarrow> u8" where "TO_UPPER c = (if IS_LOWER c then c - 0x61 + 0x41 else c)"

section \<open>Bytes as hexadecimal text\<close>

definition HexList :: "u8 list" where
  "HexList = [0x30, 0x31, 0x32, 0x33, 0x34, 0x35, 0x36, 0x37, 0x38, 0x39, 0x41, 0x42, 0x43, 0x44, 0x45, 0x46]"

definition ByteMapChar :: "u8 list \<Rightarrow> u8 \<Rightarrow> u8 list option" where
  "ByteMapChar str b = do {
     str \<leftarrow> wr str 0 (HexList ! unat (b div 16));
     str \<leftarrow> wr str 1 (HexList ! unat (b mod 16));
     wr str 2 0 }"

text \<open>What \<open>BytesMapChar\<close> gives to the function of its caller; the index has 16 bits.\<close>

partial_function (option) BytesMapChar_loop :: "u8 list \<Rightarrow> u32 \<Rightarrow> u16 \<Rightarrow> u8 list \<Rightarrow> u8 list option" where
  "BytesMapChar_loop bytes len i out =
     (if ucast i < len then
        Option.bind (rd bytes (unat i)) (\<lambda>b.
          BytesMapChar_loop bytes len (i + 1) (out @ [HexList ! unat (b div 16), HexList ! unat (b mod 16)]))
      else Some out)"

definition BytesMapChar :: "u8 list \<Rightarrow> u32 \<Rightarrow> u8 list option" where
  "BytesMapChar bytes len = BytesMapChar_loop bytes len 0 []"

primrec hex_plain_loop :: "nat \<Rightarrow> nat \<Rightarrow> u8 list \<Rightarrow> u8 list \<Rightarrow> u8 list option" where
  "hex_plain_loop 0 i str buf = Some str"
| "hex_plain_loop (Suc n) i str buf = do {
     b \<leftarrow> rd buf i;
     str \<leftarrow> wr str (i * 2) (HexList ! unat (b div 16));
     str \<leftarrow> wr str (i * 2 + 1) (HexList ! unat (b mod 16));
     hex_plain_loop n (Suc i) str buf }"

text \<open>\<open>Sprintf(str + str_len, "%0*X%s", 2, buf[i], seperator)\<close>.\<close>

primrec hex_sep_loop :: "nat \<Rightarrow> nat \<Rightarrow> u8 list \<Rightarrow> u8 list \<Rightarrow> u32 \<Rightarrow> u32 \<Rightarrow> u8 list \<Rightarrow> (u8 list \<times> u32) option" where
  "hex_sep_loop 0 i str buf str_len trunk_len sep = Some (str, str_len)"
| "hex_sep_loop (Suc n) i str buf str_len trunk_len sep = do {
     b \<leftarrow> rd buf i;
     (_, text, _) \<leftarrow> Sprintf (drop (unat str_len) str) [0x25, 0x30, 0x2A, 0x58, 0x25, 0x73, 0] [Va_word 2, Va_word (ucast b), Va_str sep];
     hex_sep_loop n (Suc i) (take (unat str_len) str @ text) buf (str_len + trunk_len) trunk_len sep }"

definition BytesMapHexStr :: "u8 list option \<Rightarrow> u32 \<Rightarrow> u8 list option \<Rightarrow> u32 \<Rightarrow> u8 list option \<Rightarrow> (u32 \<times> u8 list option) option" where
  "BytesMapHexStr str max_str_len buf buf_len sep = (case (str, buf) of
     (Some str, Some buf) \<Rightarrow>
       (case sep of
          None \<Rightarrow>
            if buf_len * 2 + 1 > max_str_len then Some (0, Some str)
            else do {
              str \<leftarrow> hex_plain_loop (unat buf_len) 0 str buf;
              str \<leftarrow> wr str (unat (buf_len * 2)) 0;
              Some (buf_len * 2, Some str)
            }
        | Some sep \<Rightarrow> do {
            sep_len \<leftarrow> StrLen sep;
            let trunk_len = 2 + sep_len;
            let buf_len = (if max_str_len < buf_len * trunk_len then max_str_len div trunk_len else buf_len);
            (str, str_len) \<leftarrow> hex_sep_loop (unat buf_len) 0 str buf 0 trunk_len sep;
            let str_len = (if buf_len > 0 then str_len - sep_len else str_len);
            str \<leftarrow> wr str (unat str_len) 0;
            Some (str_len, Some str)
          })
   | _ \<Rightarrow> Some (0, str))"

text \<open>The value of a hexadecimal digit.\<close>

definition hex_value :: "u8 \<Rightarrow> u8 option" where
  "hex_value ch =
     (if ch \<ge> 0x30 \<and> ch \<le> 0x39 then Some (ch - 0x30)
      else if ch \<ge> 0x61 \<and> ch \<le> 0x66 then Some (ch - 0x61 + 10)
      else if ch \<ge> 0x41 \<and> ch \<le> 0x46 then Some (ch - 0x41 + 10)
      else None)"

text \<open>\<open>n\<close> characters are left; \<open>j\<close> is the place \<open>buf\<close> has moved to. The Boolean is false when the
  function returns 0 at once.\<close>

primrec hex_bytes_loop :: "nat \<Rightarrow> nat \<Rightarrow> nat \<Rightarrow> bool \<Rightarrow> u8 list \<Rightarrow> u8 list \<Rightarrow> bool \<Rightarrow> (bool \<times> u8 list) option" where
  "hex_bytes_loop 0 i j odd_digit buf hex skip_invalid = Some (True, buf)"
| "hex_bytes_loop (Suc n) i j odd_digit buf hex skip_invalid = do {
     ch \<leftarrow> rd hex i;
     case hex_value ch of
       None \<Rightarrow> if skip_invalid then hex_bytes_loop n (Suc i) j odd_digit buf hex skip_invalid else Some (False, buf)
     | Some tmp \<Rightarrow>
         if odd_digit then do {
           b \<leftarrow> rd buf j;
           buf \<leftarrow> wr buf j (b OR tmp);
           hex_bytes_loop n (Suc i) (Suc j) False buf hex skip_invalid
         }
         else do {
           buf \<leftarrow> wr buf j (push_bit 4 tmp);
           hex_bytes_loop n (Suc i) j True buf hex skip_invalid
         } }"

definition HexStrToBytes :: "u8 list \<Rightarrow> u32 \<Rightarrow> u8 list \<Rightarrow> bool \<Rightarrow> (u32 \<times> u8 list) option" where
  "HexStrToBytes buf buf_len hex skip_invalid = do {
     str_len \<leftarrow> StrLen hex;
     let str_len = (if str_len > buf_len * 2 then buf_len * 2 else str_len);
     (fine, buf) \<leftarrow> hex_bytes_loop (unat str_len) 0 0 False buf hex skip_invalid;
     Some (if fine then (str_len + 1) div 2 else 0, buf)
   }"

section \<open>Decimal digits as packed bytes\<close>

text \<open>The loop leaves at the first character that is no digit; the result is the index then.\<close>

primrec bcd_str_loop :: "nat \<Rightarrow> nat \<Rightarrow> u8 list \<Rightarrow> u8 list \<Rightarrow> (nat \<times> u8 list) option" where
  "bcd_str_loop 0 i str bcd = Some (i, bcd)"
| "bcd_str_loop (Suc n) i str bcd = do {
     bcd \<leftarrow> wr bcd i 0;
     ch \<leftarrow> rd str (i * 2);
     let digit = ch - 0x30;
     if \<not> digit \<le> 9 then Some (i, bcd)
     else do {
       bcd \<leftarrow> wr bcd i (push_bit 4 digit);
       ch \<leftarrow> rd str (i * 2 + 1);
       let digit = ch - 0x30;
       if \<not> digit \<le> 9 then Some (i, bcd)
       else do {
         b \<leftarrow> rd bcd i;
         bcd \<leftarrow> wr bcd i (b + digit);
         bcd_str_loop n (Suc i) str bcd
       }
     } }"

definition BCDStrToBytes :: "u8 list \<Rightarrow> u8 list \<Rightarrow> u32 \<Rightarrow> (u32 \<times> u8 list) option" where
  "BCDStrToBytes str bcd bcd_max_len = do {
     len \<leftarrow> StrLen str;
     let bcd_len = len div 2;
     let bcd_len = (if bcd_max_len < bcd_len then bcd_max_len else bcd_len);
     (bcd_index, bcd) \<leftarrow> bcd_str_loop (unat bcd_len) 0 str bcd;
     Some (of_nat bcd_index - 1, bcd)
   }"

section \<open>Numbers and text\<close>

fun skip_space :: "u8 list \<Rightarrow> u8 list option" where
  "skip_space (c # cs) = (if IS_SPACE c then skip_space cs else Some (c # cs))"
| "skip_space [] = None"

fun atoi_digits :: "u8 list \<Rightarrow> int \<Rightarrow> int option" where
  "atoi_digits (c # cs) tot =
     (if IS_DIGIT c then
        (if 10 * tot + (uint c - 0x30) > 9223372036854775807 then None
         else atoi_digits cs (10 * tot + (uint c - 0x30)))
      else Some tot)"
| "atoi_digits [] tot = None"

definition AToI :: "u8 list \<Rightarrow> int option" where
  "AToI str = do {
     str \<leftarrow> skip_space str;
     sign \<leftarrow> rd str 0;
     let str = (if sign = 0x2D \<or> sign = 0x2B then tl str else str);
     tot \<leftarrow> atoi_digits str 0;
     Some (if sign = 0x2D then - tot else tot)
   }"

text \<open>The digits, lowest first, from \<open>p\<close> on; the result is the place behind them.\<close>

function xtoa_digits :: "u64 \<Rightarrow> u8 list \<Rightarrow> nat \<Rightarrow> u32 \<Rightarrow> (u8 list \<times> nat) option" where
  "xtoa_digits val buf p radix = do {
     r \<leftarrow> umod val (ucast radix);
     let digval = (ucast r :: u32);
     let val = val div ucast radix;
     buf \<leftarrow> wr buf p (if digval > 9 then ucast (digval - 10 + 0x61) else ucast (digval + 0x30));
     if val > 0 then xtoa_digits val buf (Suc p) radix else Some (buf, Suc p)
   }"
  by pat_completeness auto
termination by (relation "measure (\<lambda>(val, buf, p, radix). length buf - p)") (auto simp: wr_eq_Some_iff)

declare xtoa_digits.simps [simp del]

text \<open>The swaps from both ends; a last pointer in front of the buffer ends them as the offset 0 does.\<close>

function xtoa_reverse :: "u8 list \<Rightarrow> nat \<Rightarrow> nat \<Rightarrow> u8 list option" where
  "xtoa_reverse buf p firstdig = do {
     temp \<leftarrow> rd buf p;
     x \<leftarrow> rd buf firstdig;
     buf \<leftarrow> wr buf p x;
     buf \<leftarrow> wr buf firstdig temp;
     if Suc firstdig < p - 1 then xtoa_reverse buf (p - 1) (Suc firstdig) else Some buf
   }"
  by pat_completeness auto
termination by (relation "measure (\<lambda>(buf, p, firstdig). p - firstdig)") auto

declare xtoa_reverse.simps [simp del]

definition XToA :: "u64 \<Rightarrow> u8 list \<Rightarrow> u32 \<Rightarrow> bool \<Rightarrow> u8 list option" where
  "XToA val buf radix is_neg = do {
     (buf, p, val) \<leftarrow>
       (if is_neg then do {
          buf \<leftarrow> wr buf 0 0x2D;
          if val = 0x8000000000000000 then None else Some (buf, 1, - val)
        }
        else Some (buf, 0, val));
     let firstdig = p;
     (buf, p) \<leftarrow> xtoa_digits val buf p radix;
     buf \<leftarrow> wr buf p 0;
     xtoa_reverse buf (p - 1) firstdig
   }"

definition IToA :: "u64 \<Rightarrow> u8 list \<Rightarrow> u32 \<Rightarrow> u8 list option" where
  "IToA val buf radix = (if radix = 10 \<and> sint val < 0 then XToA val buf radix True else XToA val buf radix False)"

definition UToA :: "u64 \<Rightarrow> u8 list \<Rightarrow> u32 \<Rightarrow> u8 list option" where
  "UToA val buf radix = XToA val buf radix False"

definition SToA :: "u64 \<Rightarrow> u8 list \<Rightarrow> u32 \<Rightarrow> u8 list option" where
  "SToA val buf radix = XToA val buf radix (radix = 10 \<and> sint val < 0)"

section \<open>Text to 32-bit numbers\<close>

definition FL_UNSIGNED :: u32 where "FL_UNSIGNED = 1"
definition FL_NEG :: u32 where "FL_NEG = 2"
definition FL_OVERFLOW :: u32 where "FL_OVERFLOW = 4"
definition FL_READDIGIT :: u32 where "FL_READDIGIT = 8"

text \<open>The value of a digit or letter; \<open>None\<close> leaves the loop.\<close>

definition xl_value :: "u8 \<Rightarrow> u32 option" where
  "xl_value c = (if IS_DIGIT c then Some (ucast c - 0x30)
     else if IS_ALPHA c then Some (ucast (TO_UPPER c) - 0x41 + 10) else None)"

text \<open>The loop: the place of the character that stops it, the number and the flags.\<close>

fun xl_loop :: "u32 \<Rightarrow> u32 \<Rightarrow> u8 list \<Rightarrow> nat \<Rightarrow> u32 \<Rightarrow> u32 \<Rightarrow> (nat \<times> u32 \<times> u32) option" where
  "xl_loop ibase maxval (c # cs) p number flags = (case xl_value c of
     None \<Rightarrow> Some (p, number, flags)
   | Some digval \<Rightarrow>
       if digval \<ge> ibase then Some (p, number, flags)
       else
         let flags = flags OR FL_READDIGIT in
         if number < maxval \<or> (number = maxval \<and> digval \<le> 0xFFFFFFFF mod ibase)
         then xl_loop ibase maxval cs (Suc p) (number * ibase + digval) flags
         else xl_loop ibase maxval cs (Suc p) number (flags OR FL_OVERFLOW))"
| "xl_loop ibase maxval [] p number flags = None"

definition xl_final :: "u32 \<Rightarrow> u32 \<Rightarrow> u32" where
  "xl_final number flags =
     (if flags AND FL_READDIGIT = 0 then 0
      else if flags AND FL_OVERFLOW \<noteq> 0 \<or>
        (flags AND FL_UNSIGNED = 0 \<and>
          ((flags AND FL_NEG \<noteq> 0 \<and> number > 0x80000000) \<or> (flags AND FL_NEG = 0 \<and> number > 0x7FFFFFFF)))
      then (if flags AND FL_UNSIGNED \<noteq> 0 then 0xFFFFFFFF
        else if flags AND FL_NEG \<noteq> 0 then 0x80000000 else 0x7FFFFFFF)
      else number)"

text \<open>The result is the number and the place stored in \<open>endptr\<close>. The negation of the least number
  overflows.\<close>

definition StrToXL :: "u8 list \<Rightarrow> int \<Rightarrow> u32 \<Rightarrow> (u32 \<times> nat) option" where
  "StrToXL nptr ibase flags = do {
     cs \<leftarrow> skip_space nptr;
     c \<leftarrow> rd cs 0;
     let (flags, cs) = (if c = 0x2D then (flags OR FL_NEG, tl cs) else if c = 0x2B then (flags, tl cs) else (flags, cs));
     c \<leftarrow> rd cs 0;
     if ibase < 0 \<or> ibase = 1 \<or> ibase > 36 then Some (0, 0)
     else do {
       ibase \<leftarrow>
         (if ibase = 0 then
            (if c \<noteq> 0x30 then Some 10
             else do { x \<leftarrow> rd cs 1; Some (if x = 0x78 \<or> x = 0x58 then 16 else 8) })
          else Some (word_of_int ibase :: u32));
       cs \<leftarrow>
         (if ibase = 16 \<and> c = 0x30 then do {
            x \<leftarrow> rd cs 1;
            Some (if x = 0x78 \<or> x = 0x58 then drop 2 cs else cs)
          }
          else Some cs);
       (p, number, flags) \<leftarrow> xl_loop ibase (0xFFFFFFFF div ibase) cs (length nptr - length cs) 0 flags;
       let p = (if flags AND FL_READDIGIT = 0 then 0 else p);
       let number = xl_final number flags;
       if flags AND FL_NEG \<noteq> 0 then (if number = 0x80000000 then None else Some (- number, p)) else Some (number, p)
     }
   }"

definition StrToL :: "u8 list \<Rightarrow> int \<Rightarrow> (u32 \<times> nat) option" where
  "StrToL nptr ibase = StrToXL nptr ibase 0"

definition StrToUL :: "u8 list \<Rightarrow> int \<Rightarrow> (u32 \<times> nat) option" where
  "StrToUL nptr ibase = StrToXL nptr ibase FL_UNSIGNED"

end
