(* ===== verification/Print_Spec.thy ===== *)
theory Print_Spec
  imports Print_Format
begin

text \<open>
  The two outputs of the formatter agree: what \<open>Vsnprintf\<close> leaves in a buffer is the text that
  \<open>Vprintf\<close> puts out, cut to the size of the buffer. The locale states what relates two outputs; its
  lemmas carry the relation through the formatter. Then: the text of a decimal number.
\<close>

unbundle bit_operations_syntax

section \<open>Two outputs\<close>

definition out_rel :: "(nat \<Rightarrow> 's \<Rightarrow> 't \<Rightarrow> bool) \<Rightarrow> nat \<times> 's \<Rightarrow> nat \<times> 't \<Rightarrow> bool" where
  "out_rel R a b \<longleftrightarrow> fst a = fst b \<and> R (fst a) (snd a) (snd b)"

definition printer_rel :: "(nat \<Rightarrow> 's \<Rightarrow> 't \<Rightarrow> bool) \<Rightarrow> 's printer \<Rightarrow> 't printer \<Rightarrow> bool" where
  "printer_rel R p q \<longleftrightarrow> out_rel R (print_out p) (print_out q) \<and> print_args p = print_args q \<and> print_stores p = print_stores q"

lemma bind_rel:
  "rel_option Q x y \<Longrightarrow> (\<And>a b. Q a b \<Longrightarrow> rel_option P (f a) (g b)) \<Longrightarrow> rel_option P (Option.bind x f) (Option.bind y g)"
  by (cases x; cases y) auto

lemma bind_same_rel:
  "(\<And>a. x = Some a \<Longrightarrow> rel_option P (f a) (g a)) \<Longrightarrow> rel_option P (Option.bind x f) (Option.bind x g)"
  by (cases x) auto

text \<open>An output and the value of a counter beside it.\<close>

lemma bind_out_pair:
  assumes "b \<Longrightarrow> rel_option (out_rel R) x y"
    and "\<And>s t k. out_rel R s t \<Longrightarrow> rel_option P (f (s, k)) (g (t, k))" and "out_rel R s0 t0"
  shows "rel_option P
    (Option.bind (if b then Option.bind x (\<lambda>s. Some (s, k)) else Some (s0, l)) f)
    (Option.bind (if b then Option.bind y (\<lambda>t. Some (t, k)) else Some (t0, l)) g)"
  using assms by (cases b; cases x; cases y) auto

lemma if_rel:
  "(b \<Longrightarrow> rel_option P x x') \<Longrightarrow> (\<not> b \<Longrightarrow> rel_option P y y') \<Longrightarrow> rel_option P (if b then x else y) (if b then x' else y')"
  by simp

locale print_outputs =
  fixes p1 :: "nat \<Rightarrow> u8 \<Rightarrow> 's \<Rightarrow> 's option" and p2 :: "nat \<Rightarrow> u8 \<Rightarrow> 't \<Rightarrow> 't option" and R :: "nat \<Rightarrow> 's \<Rightarrow> 't \<Rightarrow> bool"
  assumes put_rel: "R n s t \<Longrightarrow> rel_option (R (Suc n)) (p1 n c s) (p2 n c t)"
begin

lemma emit_char_rel: "out_rel R s t \<Longrightarrow> rel_option (out_rel R) (emit_char p1 c s) (emit_char p2 c t)"
  using put_rel [of "fst s" "snd s" "snd t" c]
  by (cases s; cases t) (auto simp: emit_char_def out_rel_def option_rel_Some1 option_rel_Some2 option.rel_map elim: option.rel_mono_strong)

lemma emit_chars_rel: "out_rel R s t \<Longrightarrow> rel_option (out_rel R) (emit_chars p1 cs s) (emit_chars p2 cs t)"
  by (induction cs arbitrary: s t) (auto intro: bind_rel emit_char_rel)

lemma emit_pad_rel: "out_rel R s t \<Longrightarrow> rel_option (out_rel R) (emit_pad p1 c k s) (emit_pad p2 c k t)"
  by (simp add: emit_pad_def emit_chars_rel)

lemma number_out_rel:
  assumes "out_rel R s t"
  shows "rel_option (out_rel R) (number_out p1 flags c sign base sz prec tmp s) (number_out p2 flags c sign base sz prec tmp t)"
  unfolding number_out_def
proof (rule bind_out_pair [OF emit_pad_rel [OF assms] _ assms], unfold prod.case,
    rule bind_rel [where Q = "out_rel R"], goal_cases)
  case (1 s t sz)
  then show ?case by (simp add: emit_char_rel)
next
  case (2 s0 t0 sz s t)
  show ?case
  proof (rule bind_rel [where Q = "out_rel R"], goal_cases)
    case 1
    show ?case using 2(2) emit_chars_rel [OF 2(2)] by (simp add: emit_char_rel del: emit_chars.simps)
  next
    case (2 s t)
    show ?case
    proof (rule bind_out_pair [OF emit_pad_rel [OF 2] _ 2], unfold prod.case, rule bind_rel [where Q = "out_rel R"], goal_cases)
      case (1 s t sz)
      then show ?case by (rule emit_pad_rel)
    next
      case (2 s0 t0 sz s t)
      show ?case by (rule bind_rel [OF emit_chars_rel [OF 2(2)] emit_pad_rel])
    qed
  qed
qed

lemma VprintfNumber_rel:
  "out_rel R s t \<Longrightarrow>
     rel_option (out_rel R) (VprintfNumber p1 s num base sz prec flags) (VprintfNumber p2 t num base sz prec flags)"
  unfolding VprintfNumber_def Let_def by (rule bind_same_rel) (simp add: number_out_rel split: prod.split)

lemma format_char_rel:
  assumes "out_rel R s t"
  shows "rel_option (out_rel R) (format_char p1 flags w c s) (format_char p2 flags w c t)"
  unfolding format_char_def
proof (rule bind_out_pair [OF emit_pad_rel [OF assms] _ assms], unfold prod.case, goal_cases)
  case (1 s t w)
  show ?case by (rule bind_rel [OF emit_char_rel [OF 1] emit_pad_rel])
qed

lemma format_string_rel:
  assumes "out_rel R s t"
  shows "rel_option (out_rel R) (format_string p1 flags w p str s) (format_string p2 flags w p str t)"
  unfolding format_string_def
proof (rule bind_same_rel, rule bind_out_pair [OF emit_pad_rel [OF assms] _ assms], unfold prod.case, goal_cases)
  case (1 len s t w)
  show ?case by (rule bind_rel [OF emit_chars_rel [OF 1(2)] emit_pad_rel])
qed

lemma print_number_rel:
  assumes "printer_rel R p q"
  shows "rel_option (printer_rel R) (print_number p1 flags w pr ql base p) (print_number p2 flags w pr ql base q)"
  unfolding print_number_def printer_rel_def [THEN iffD1, OF assms, THEN conjunct2, THEN conjunct1]
proof (rule bind_same_rel, goal_cases)
  case (1 a)
  show ?case unfolding split_beta
    by (rule bind_rel [where Q = "out_rel R"])
      (use assms in \<open>auto simp: printer_rel_def intro: VprintfNumber_rel\<close>)
qed

lemma print_conversion_rel:
  assumes "printer_rel R p q"
  shows "rel_option (rel_prod (=) (printer_rel R)) (print_conversion p1 c flags w pr ql p) (print_conversion p2 c flags w pr ql q)"
proof -
  have args: "print_args p = print_args q" and out: "out_rel R (print_out p) (print_out q)" and st: "print_stores p = print_stores q"
    using assms by (auto simp: printer_rel_def)
  have num: "rel_option (rel_prod (=) (printer_rel R)) (map_option (Pair True) (print_number p1 f w pr ql base p))
      (map_option (Pair True) (print_number p2 f w pr ql base q))" for f base
    using print_number_rel [OF assms, of f w pr ql base] by (simp add: option.rel_map)
  have upd: "printer_rel R (p\<lparr>print_out := a, print_args := as\<rparr>) (q\<lparr>print_out := b, print_args := as\<rparr>)" if "out_rel R a b" for a b as
    using that st by (simp add: printer_rel_def)
  have upd': "printer_rel R (p\<lparr>print_out := a\<rparr>) (q\<lparr>print_out := b\<rparr>)" if "out_rel R a b" for a b
    using that st args by (simp add: printer_rel_def)
  have stored: "printer_rel R (p\<lparr>print_args := as, print_stores := l\<rparr>) (q\<lparr>print_args := as, print_stores := l\<rparr>)" for as l
    using out by (simp add: printer_rel_def)
  have n: "fst (print_out p) = fst (print_out q)" using out by (simp add: out_rel_def)
  show ?thesis
    unfolding print_conversion_def args st n
  proof (intro if_rel num, goal_cases)
    case 1
    show ?case unfolding split_beta
      by (rule bind_same_rel, rule bind_rel [OF format_char_rel [OF out]]) (simp add: upd)
  next
    case 2
    show ?case unfolding split_beta
      by (rule bind_same_rel, rule bind_rel [OF format_string_rel [OF out]]) (simp add: upd)
  next
    case 3
    show ?case unfolding split_beta Let_def
      by (rule bind_same_rel, rule bind_rel [OF VprintfNumber_rel [OF out]]) (simp add: upd)
  next
    case 4
    show ?case unfolding split_beta by (rule bind_same_rel) (simp add: stored)
  next
    case 5
    show ?case by (rule bind_rel [OF emit_char_rel [OF out]]) (simp add: upd')
  next
    case 6
    show ?case
    proof (rule bind_rel [OF emit_char_rel [OF out]], rule bind_rel [where Q = "out_rel R"], goal_cases)
      case (1 a b)
      then show ?case by (simp add: emit_char_rel)
    qed (simp add: upd')
  qed
qed

lemma print_directive_rel:
  assumes "printer_rel R p q"
  shows "rel_option (rel_prod (=) (printer_rel R)) (print_directive p1 cs p) (print_directive p2 cs q)"
proof -
  have args: "print_args p = print_args q" using assms by (simp add: printer_rel_def)
  have r: "printer_rel R (p\<lparr>print_args := as\<rparr>) (q\<lparr>print_args := as\<rparr>)" for as
    using assms by (simp add: printer_rel_def)
  show ?thesis
    unfolding print_directive_def args split_beta
    by (intro bind_same_rel, rule bind_rel [OF print_conversion_rel [OF r]]) (auto simp: rel_prod_sel)
qed

lemma print_loop_rel:
  "printer_rel R p q \<Longrightarrow> rel_option (printer_rel R) (print_loop p1 cs p) (print_loop p2 cs q)"
proof (induction "length cs" arbitrary: cs p q rule: less_induct)
  case less
  show ?case
  proof (cases cs)
    case Nil
    then show ?thesis by (simp add: print_loop.simps)
  next
    case (Cons c fs)
    have out: "out_rel R (print_out p) (print_out q)" using less.prems by (simp add: printer_rel_def)
    have upd: "printer_rel R (p\<lparr>print_out := a\<rparr>) (q\<lparr>print_out := b\<rparr>)" if "out_rel R a b" for a b
      using that less.prems by (simp add: printer_rel_def)
    show ?thesis
      unfolding Cons print_loop.simps [of p1 "c # fs"] print_loop.simps [of p2 "c # fs"] list.case
    proof (intro if_rel, goal_cases)
      case 1
      then show ?case using less.prems by simp
    next
      case 2
      show ?case
        by (rule bind_rel [OF emit_char_rel [OF out]]) (simp add: less.hyps Cons upd)
    next
      case 3
      show ?case
      proof (cases "print_directive p1 fs p")
        case None
        then show ?thesis using print_directive_rel [OF less.prems, of fs] by simp
      next
        case (Some x)
        then obtain y where y: "print_directive p2 fs q = Some y" "rel_prod (=) (printer_rel R) x y"
          using print_directive_rel [OF less.prems, of fs] by (auto simp: option_rel_Some1)
        obtain cs' p' q' where xy: "x = (cs', p')" "y = (cs', q')" "printer_rel R p' q'"
          using y(2) by (cases x; cases y) auto
        have "length cs' < length cs" using print_directive_length [of p1 fs p] Some xy(1) Cons by fastforce
        from less.hyps [OF this xy(3)] Some y(1) xy(1,2) show ?thesis by simp
      qed
    qed
  qed
qed

end

section \<open>Text and buffer\<close>

text \<open>The buffer holds the text as far as there is room; with room for \<open>sz\<close> bytes, all of them in the buffer.\<close>

definition text_in_buffer :: "u8 list \<Rightarrow> nat \<Rightarrow> nat \<Rightarrow> u8 list \<Rightarrow> u8 list \<Rightarrow> bool" where
  "text_in_buffer buf0 sz n out buf \<longleftrightarrow> n = length out \<and> sz \<le> length buf0 \<and>
     buf = take (min n sz) out @ drop (min n sz) buf0"

interpretation text_buffer: print_outputs put_output "put_buffer sz" "text_in_buffer buf0 (unat sz)" for sz buf0
proof
  fix n s t c
  assume r: "text_in_buffer buf0 (unat sz) n s t"
  show "rel_option (text_in_buffer buf0 (unat sz) (Suc n)) (put_output n c s) (put_buffer sz n c t)"
  proof (cases "n < unat sz")
    case True
    with r have "t = s @ drop n buf0" "n < length t" by (auto simp: text_in_buffer_def)
    with r True show ?thesis
      by (auto simp: text_in_buffer_def put_output_def put_buffer_def wr_Some list_update_append upd_conv_take_nth_drop)
  next
    case False
    with r show ?thesis by (auto simp: text_in_buffer_def put_output_def put_buffer_def)
  qed
qed

text \<open>\<open>Vsnprintf\<close> writes what \<open>Vprintf\<close> puts out. For every format and every arguments for which
  \<open>Vprintf\<close> is defined, \<open>Vsnprintf\<close> with a size that lies in the buffer returns the same number of
  characters, leaves in the buffer the beginning of the same text that fits in front of a terminating
  zero and the rest of the buffer as it was, and \<open>%n\<close> stores the same.\<close>

theorem Vsnprintf_is_cut_Vprintf:
  assumes "Vprintf format args = Some (n, out, stores)" and "unat sz \<le> length buf" and "sint sz \<ge> 0"
  shows "n = length out \<and> Vsnprintf buf sz format args = Some (n,
    (if sz = 0 then buf
     else take (unat sz - 1) out @ 0 # drop (Suc (min n (unat sz - 1))) buf), stores)"
proof -
  have "printer_rel (text_in_buffer buf (unat sz)) (print_init args []) (print_init args buf)"
    using assms(2) by (simp add: printer_rel_def print_init_def out_rel_def text_in_buffer_def)
  from text_buffer.print_loop_rel [OF this, of format] assms(1) obtain ps where
      ps: "print_loop (put_buffer sz) format (print_init args buf) = Some ps"
      and r: "out_rel (text_in_buffer buf (unat sz)) (n, out) (print_out ps)" and st: "print_stores ps = stores"
    by (auto simp: Vprintf_def option_rel_Some1 printer_rel_def split: bind_splits)
  obtain b where b: "print_out ps = (n, b)" "text_in_buffer buf (unat sz) n out b"
    using r by (cases "print_out ps") (auto simp: out_rel_def)
  have n: "n = length out" and len: "unat sz \<le> length b" using b(2) by (auto simp: text_in_buffer_def)
  show ?thesis
  proof (cases "n < unat sz")
    case True
    then have "b = out @ drop n buf" "sz \<noteq> 0" using b(2) by (auto simp: text_in_buffer_def)
    with True n ps st b(1) len assms(2,3) show ?thesis
      by (simp add: Vsnprintf_def wr_Some list_update_append upd_conv_take_nth_drop)
  next
    case False
    then have be: "b = take (unat sz) out @ drop (unat sz) buf" using b(2) by (auto simp: text_in_buffer_def min_def)
    show ?thesis
    proof (cases "sz = 0")
      case True
      with False n ps st b(1) be show ?thesis by (simp add: Vsnprintf_def)
    next
      case sz: False
      then have pos: "0 < unat sz" "sz > 0" by (simp_all add: unat_gt_0 word_gt_0)
      then obtain m where m: "unat sz = Suc m" by (cases "unat sz") auto
      have "b[m := 0] = take m out @ 0 # drop (Suc m) buf"
        using be m False n assms(2) by (simp add: upd_conv_take_nth_drop)
      with False n ps st b(1) len pos m assms(3) sz show ?thesis
        by (simp add: Vsnprintf_def wr_Some min_def)
    qed
  qed
qed

lemma Vsnprintf_is_cut_Vprintf_witness:
  "Vsnprintf [9, 9, 9, 9, 9] 4 [0x61, 0x25, 0x30, 0x34, 0x58, 0] [Va_word 0xBEE] = Some (5, [0x61, 0x30, 0x42, 0, 9], [])"
proof -
  have "Vprintf [0x61, 0x25, 0x30, 0x34, 0x58, 0] [Va_word 0xBEE] = Some (5, [0x61, 0x30, 0x42, 0x45, 0x45], [])"
    by code_simp
  from Vsnprintf_is_cut_Vprintf [OF this, of 4 "[9, 9, 9, 9, 9]"] show ?thesis by simp
qed

section \<open>Decimal numbers\<close>

fun dec_text :: "nat \<Rightarrow> u8 list" where
  "dec_text n = (if n < 10 then [of_nat (48 + n)] else dec_text (n div 10) @ [of_nat (48 + n mod 10)])"

declare dec_text.simps [simp del]

lemma num_digits_dec:
  assumes "0 < unat num" and "unat num < 2 ^ 32"
  shows "rev (num_digits flags num 10) = dec_text (unat num)"
  using assms
proof (induction "unat num" arbitrary: num rule: less_induct)
  case less
  have nz: "num \<noteq> 0" using less.prems(1) by auto
  define m where "m = (ucast num :: u32)"
  have m: "unat m = unat num" using less.prems(2) by (simp add: m_def unsigned_ucast_eq take_bit_nat_eq_self)
  have d: "unat (ucast (m div 10) :: u64) = unat num div 10"
  proof -
    have "unat (m div 10) < 2 ^ 64" using unat_less_u32 [of "m div 10"] by simp
    then show ?thesis by (simp add: unsigned_ucast_eq take_bit_nat_eq_self unat_div m)
  qed
  have lo: "num_digit flags (m mod 10) = of_nat (48 + unat num mod 10)"
  proof -
    have u: "unat (m mod 10) = unat num mod 10" by (simp add: unat_mod m)
    then have "m mod 10 < 10" by (simp add: word_less_nat_alt)
    moreover have "(ucast (m mod 10) :: u8) = of_nat (unat num mod 10)"
      unfolding u [symmetric] by (rule word_unat_eq_iff [THEN iffD2]) (simp add: unsigned_ucast_eq unat_of_nat)
    ultimately show ?thesis by (simp add: num_digit_def)
  qed
  have step: "num_digits flags num 10 = num_digit flags (m mod 10) # num_digits flags (ucast (m div 10)) 10"
    using nz by (subst num_digits.simps) (simp add: m_def)
  show ?case
  proof (cases "unat num < 10")
    case True
    then have "(ucast (m div 10) :: u64) = 0" using d by (metis div_less unat_eq_0)
    then have "num_digits flags (ucast (m div 10)) 10 = []" by (simp add: num_digits.simps)
    with step lo True show ?thesis by (subst dec_text.simps) simp
  next
    case False
    have "rev (num_digits flags (ucast (m div 10)) 10) = dec_text (unat (ucast (m div 10) :: u64))"
      by (rule less.hyps) (use d False less.prems in simp_all)
    with step lo False d show ?thesis by (subst dec_text.simps) simp
  qed
qed

text \<open>The text of a 32-bit number, signed.\<close>

definition int_text :: "int \<Rightarrow> u8 list" where
  "int_text i = (if i < 0 then 0x2D # dec_text (nat (- i)) else dec_text (nat i))"

lemma dec_text_not_empty: "dec_text n \<noteq> []"
  by (subst dec_text.simps) simp

lemma emit_chars_output: "emit_chars put_output cs (n, out) = Some (n + length cs, out @ cs)"
  by (induction cs arbitrary: n out) (simp_all add: emit_char_def put_output_def)

text \<open>\<open>%d\<close> and \<open>%i\<close> without width or precision.\<close>

lemma number_out_plain:
  assumes "sz \<le> 0" and "prec = int (length tmp)"
  shows "number_out put_output SIGN 0x20 sign 10 sz prec tmp (n, out) =
    Some (n + length ((if sign \<noteq> 0 then [sign] else []) @ rev tmp), out @ (if sign \<noteq> 0 then [sign] else []) @ rev tmp)"
  using assms
  by (simp add: number_out_def SIGN_def ZEROPAD_def LEFT_def SPECIAL_def emit_pad_def pad_left_def emit_chars_output
      emit_char_def put_output_def)

lemma unat_of_sint:
  fixes x :: "'a::len word"
  shows "0 \<le> sint x \<Longrightarrow> unat x = nat (sint x)" and "sint x < 0 \<Longrightarrow> unat (- x) = nat (- sint x)"
proof -
  have "(2 :: int) ^ LENGTH('a) = 2 * 2 ^ (LENGTH('a) - 1)" by (cases "LENGTH('a)") simp_all
  then have r: "sint x < 2 ^ LENGTH('a)" "- (2 ^ LENGTH('a)) < sint x"
    using sint_less [of x] sint_greater_eq [of x] by simp_all
  have w: "x = word_of_int (sint x)" by simp
  have u: "uint (word_of_int k :: 'a word) = k" if "0 \<le> k" "k < 2 ^ LENGTH('a)" for k
    using that by (simp add: uint_word_of_int)
  { assume "0 \<le> sint x"
    with r have "uint (word_of_int (sint x) :: 'a word) = sint x" by (intro u) simp_all
    with w show "unat x = nat (sint x)" by (metis nat_uint_eq) }
  { assume "sint x < 0"
    with r have "uint (word_of_int (- sint x) :: 'a word) = - sint x" by (intro u) simp_all
    moreover have "word_of_int (- sint x) = - x" by simp
    ultimately show "unat (- x) = nat (- sint x)" by (metis nat_uint_eq) }
qed

lemma VprintfNumber_dec:
  fixes w :: u32
  shows "VprintfNumber put_output (n, out) (scast w) 10 (-1) (-1) SIGN =
    Some (n + length (int_text (sint w)), out @ int_text (sint w))"
proof -
  define x where "x = (scast w :: u64)"
  have sx: "sint x = sint w" 
  proof -
    have "signed_take_bit 63 (sint w) = sint w"
      using sint_less [of w] sint_greater_eq [of w] by (intro signed_take_bit_int_eq_self) simp_all
    then show ?thesis by (simp add: x_def signed_scast_eq)
  qed
  have sf: "SIGN AND LEFT = 0" "SIGN AND ZEROPAD = 0" "SIGN AND SPECIAL = 0"
    by (simp_all add: SIGN_def LEFT_def ZEROPAD_def SPECIAL_def)
  have r: "sint w < 2 ^ 31" "- (2 ^ 31) \<le> sint w"
    using sint_less [of w] sint_greater_eq [of w] by simp_all
  have digits: "rev (if y = 0 then [0x30] else num_digits SIGN y 10) = dec_text (unat y)"
    if "unat y < 2 ^ 32" for y
  proof (cases "y = 0")
    case True
    then show ?thesis by (subst dec_text.simps) simp
  next
    case False
    then show ?thesis using num_digits_dec [of y SIGN] that by (simp add: unat_gt_0)
  qed
  have out: "number_out put_output SIGN 0x20 sign 10 (sz - int (length tmp)) (int (length tmp)) tmp (n, out) =
      Some (n + length ((if sign \<noteq> 0 then [sign] else []) @ rev tmp), out @ (if sign \<noteq> 0 then [sign] else []) @ rev tmp)"
    if "sz \<le> 0" for sign sz tmp
    using that by (intro number_out_plain) simp_all
  show ?thesis
  proof (cases "sint w < 0")
    case True
    have ux: "unat (- x) = nat (- sint w)" using unat_of_sint(2) [of x] True sx by simp
    with r True have lt: "unat (- x) < 2 ^ 32" by simp
    have "x \<noteq> 0x8000000000000000"
    proof
      assume "x = 0x8000000000000000"
      then have "sint x = - (2 ^ 63)" by simp
      with sx r show False by simp
    qed
    then have "number_sign SIGN x (-1) = Some (0x2D, - x, -2)"
      using True sx by (simp add: number_sign_def SIGN_def)
    moreover have "int_text (sint w) = 0x2D # rev (if - x = 0 then [0x30] else num_digits SIGN (- x) 10)"
      using True digits [OF lt] ux by (simp only: int_text_def if_True)
    ultimately show ?thesis
      unfolding VprintfNumber_def x_def [symmetric] using out [of "-2" "0x2D" "if - x = 0 then [0x30] else num_digits SIGN (- x) 10"]
      by (simp add: Let_def sf)
  next
    case False
    have ux: "unat x = nat (sint w)" using unat_of_sint(1) [of x] False sx by simp
    with r False have lt: "unat x < 2 ^ 32" by simp
    have "number_sign SIGN x (-1) = Some (0, x, -1)"
      using False sx by (simp add: number_sign_def SIGN_def PLUS_def SPACE_def)
    moreover have "int_text (sint w) = rev (if x = 0 then [0x30] else num_digits SIGN x 10)"
      using False digits [OF lt] ux by (simp only: int_text_def if_False)
    ultimately show ?thesis
      unfolding VprintfNumber_def x_def [symmetric] using out [of "-1" 0 "if x = 0 then [0x30] else num_digits SIGN x 10"]
      by (simp add: Let_def sf)
  qed
qed

lemma Vprintf_dec: "Vprintf [0x25, 0x64, 0] [Va_word w] = Some (length (int_text (sint w)), int_text (sint w), [])"
proof -
  have f: "0 OR SIGN = SIGN" by (simp add: SIGN_def)
  have "print_directive put_output [0x64, 0] (print_init [Va_word w] []) =
      Some ([0], \<lparr>print_out = (length (int_text (sint w)), int_text (sint w)), print_args = [], print_stores = []\<rparr>)"
    using VprintfNumber_dec [of 0 "[]" w]
    by (simp add: print_directive_def format_width_def format_precision_def format_qualifier_def rd_def is_dec_def
        print_conversion_def print_number_def print_init_def format_integer_def f) (simp add: SIGN_def)
  then show ?thesis
    unfolding Vprintf_def by (subst print_loop.simps, simp, subst print_loop.simps, simp)
qed

text \<open>A number of 64 bits loses its high half: \<open>%lld\<close> of \<open>2 ^ 32 + 5\<close> is the text 5.\<close>

lemma Vprintf_long_truncates: "Vprintf [0x25, 0x6C, 0x6C, 0x64, 0] [Va_long 0x100000005] = Some (1, [0x35], [])"
  by code_simp

end
