(* ===== verification/Number_Text_Spec.thy ===== *)
theory Number_Text_Spec
  imports Number_Text Print_Spec C_String_Spec
begin

text \<open>
  Round trips between numbers, bytes and text: what \<open>IToA\<close>, \<open>UToA\<close> and \<open>Sprintf\<close> write is read back by
  \<open>AToI\<close> and \<open>StrToUL\<close>, what \<open>BytesMapHexStr\<close> writes by \<open>HexStrToBytes\<close>.
\<close>

unbundle bit_operations_syntax

section \<open>Digits in a radix\<close>

definition rdigit :: "nat \<Rightarrow> u8" where
  "rdigit k = (if k < 10 then of_nat (48 + k) else of_nat (87 + k))"

fun rtext :: "nat \<Rightarrow> nat \<Rightarrow> u8 list" where
  "rtext r n = (if n < r \<or> r < 2 then [rdigit n] else rtext r (n div r) @ [rdigit (n mod r)])"

declare rtext.simps [simp del]

lemma rtext_less: "n < r \<Longrightarrow> rtext r n = [rdigit n]"
  by (simp add: rtext.simps)

lemma rtext_step: "\<not> n < r \<Longrightarrow> 2 \<le> r \<Longrightarrow> rtext r n = rtext r (n div r) @ [rdigit (n mod r)]"
  by (subst rtext.simps) simp

lemma rtext_not_empty [simp]: "rtext r n \<noteq> []"
  by (subst rtext.simps) simp

lemma rtext_dec: "rtext 10 n = dec_text n"
proof (induction n rule: less_induct)
  case (less n)
  show ?case
  proof (cases "n < 10")
    case True
    then show ?thesis by (simp add: rtext_less rdigit_def dec_text.simps)
  next
    case False
    then have "dec_text n = dec_text (n div 10) @ [of_nat (48 + n mod 10)]" by (subst dec_text.simps) simp
    with False less [of "n div 10"] show ?thesis by (simp add: rtext_step rdigit_def)
  qed
qed

lemma rdigit_classes:
  assumes "k < 36"
  shows "\<not> IS_SPACE (rdigit k) \<and> rdigit k \<noteq> 0 \<and> rdigit k \<noteq> 0x2D \<and> rdigit k \<noteq> 0x2B \<and> xl_value (rdigit k) = Some (of_nat k) \<and>
    (k < 10 \<longrightarrow> IS_DIGIT (rdigit k) \<and> uint (rdigit k) = 48 + int k)"
proof -
  have "list_all (\<lambda>k. \<not> IS_SPACE (rdigit k) \<and> rdigit k \<noteq> 0 \<and> rdigit k \<noteq> 0x2D \<and> rdigit k \<noteq> 0x2B \<and> xl_value (rdigit k) = Some (of_nat k) \<and>
      (k < 10 \<longrightarrow> IS_DIGIT (rdigit k) \<and> uint (rdigit k) = 48 + int k)) [0..<36]"
    by code_simp
  with assms show ?thesis by (simp add: list_all_iff)
qed

lemma rtext_digits: "2 \<le> r \<Longrightarrow> r \<le> 36 \<Longrightarrow> c \<in> set (rtext r n) \<Longrightarrow> \<exists>k < r. c = rdigit k"
proof (induction n rule: less_induct)
  case (less n)
  show ?case
  proof (cases "n < r")
    case True
    with less.prems show ?thesis by (auto simp: rtext_less)
  next
    case False
    then have "n div r < n" using less.prems(1) by (intro div_less_dividend) auto
    moreover have "n mod r < r" using less.prems(1) by simp
    moreover have "c \<in> set (rtext r (n div r)) \<or> c = rdigit (n mod r)"
      using less.prems False by (auto simp: rtext_step)
    ultimately show ?thesis using less.IH [of "n div r"] less.prems(1,2) by blast
  qed
qed

section \<open>Writing\<close>

lemma ucast_small: "unat (x :: u64) < 2 ^ 32 \<Longrightarrow> unat (ucast x :: u32) = unat x"
  by (simp add: unsigned_ucast_eq take_bit_nat_eq_self)

lemma xtoa_digits_text:
  assumes "2 \<le> unat radix" and "unat radix \<le> 36"
  shows "p + length (rtext (unat radix) (unat val)) \<le> length buf \<Longrightarrow>
    xtoa_digits val buf p radix = Some (take p buf @ rev (rtext (unat radix) (unat val)) @
      drop (p + length (rtext (unat radix) (unat val))) buf, p + length (rtext (unat radix) (unat val)))"
proof (induction "unat val" arbitrary: val p buf rule: less_induct)
  case less
  define r where "r = unat radix"
  have ur: "unat (ucast radix :: u64) = r"
    using unat_less_u32 [of radix] by (simp add: r_def unsigned_ucast_eq take_bit_nat_eq_self)
  have nz: "(ucast radix :: u64) \<noteq> 0" using ur assms by (metis r_def not_numeral_le_zero unat_0)
  have um: "unat (val mod ucast radix) = unat val mod r" by (simp add: unat_mod ur)
  have ud: "unat (val div ucast radix) = unat val div r" by (simp add: unat_div ur)
  have mr: "unat val mod r < 36" using assms by (simp add: r_def less_le_trans [OF mod_less_divisor])
  have dig: "(if (ucast (val mod ucast radix) :: u32) > 9 then ucast ((ucast (val mod ucast radix) :: u32) - 10 + 0x61)
      else ucast ((ucast (val mod ucast radix) :: u32) + 0x30)) = rdigit (unat val mod r)"
  proof -
    have "(ucast (val mod ucast radix) :: u32) = of_nat (unat val mod r)"
      using mr by (intro word_unat_eq_iff [THEN iffD2]) (simp add: ucast_small um unat_of_nat take_bit_nat_eq_self)
    moreover have e: "list_all (\<lambda>k. (if (of_nat k :: u32) > 9 then ucast ((of_nat k :: u32) - 10 + 0x61)
        else ucast ((of_nat k :: u32) + 0x30)) = rdigit k) [0..<36]" by code_simp
    have "(if (of_nat (unat val mod r) :: u32) > 9 then ucast ((of_nat (unat val mod r) :: u32) - 10 + 0x61)
        else ucast ((of_nat (unat val mod r) :: u32) + 0x30)) = rdigit (unat val mod r)"
      using e mr unfolding list_all_iff by auto
    ultimately show ?thesis by (simp only:)
  qed
  have pl: "p < length buf" using less.prems by (cases "rtext (unat radix) (unat val)") auto
  have step: "xtoa_digits val buf p radix =
      (if val div ucast radix > 0 then xtoa_digits (val div ucast radix) (buf[p := rdigit (unat val mod r)]) (Suc p) radix
       else Some (buf[p := rdigit (unat val mod r)], Suc p))"
    using nz pl dig by (subst xtoa_digits.simps) (simp add: umod_def wr_Some Let_def)
  show ?case
  proof (cases "unat val < r")
    case True
    then have "val div ucast radix = 0" using ud by (metis div_less unat_eq_0)
    with step True pl show ?thesis
      by (simp add: r_def [symmetric] rtext_less upd_conv_take_nth_drop)
  next
    case False
    then have t: "rtext r (unat val) = rtext r (unat val div r) @ [rdigit (unat val mod r)]"
      using assms by (simp add: r_def rtext_step)
    have "0 < unat val div r" using False assms by (simp add: r_def div_greater_zero_iff)
    then have pos: "val div ucast radix > 0" using ud by (metis unat_gt_0 word_gt_0)
    have sm: "unat (val div ucast radix) < unat val"
      using ud False assms by (simp add: r_def)
    have tk: "take (Suc p) (buf[p := rdigit (unat val mod r)]) = take p buf @ [rdigit (unat val mod r)]"
      using pl by (simp add: take_Suc_conv_app_nth)
    have "xtoa_digits (val div ucast radix) (buf[p := rdigit (unat val mod r)]) (Suc p) radix =
        Some (take (Suc p) (buf[p := rdigit (unat val mod r)]) @ rev (rtext r (unat val div r)) @
          drop (Suc p + length (rtext r (unat val div r))) (buf[p := rdigit (unat val mod r)]),
          Suc p + length (rtext r (unat val div r)))"
      using less.hyps [OF sm, of "Suc p" "buf[p := rdigit (unat val mod r)]"] less.prems t by (simp add: ud r_def [symmetric])
    with step pos t tk show ?thesis by (simp add: r_def [symmetric])
  qed
qed

lemma xtoa_reverse_eq:
  assumes "p < length buf" and "f \<le> p"
  shows "xtoa_reverse buf p f = Some (map (\<lambda>k. if f \<le> k \<and> k \<le> p then buf ! (f + p - k) else buf ! k) [0..<length buf])"
  using assms
proof (induction buf p f rule: xtoa_reverse.induct)
  case (1 buf p f)
  define b where "b = buf[p := buf ! f, f := buf ! p]"
  have step: "xtoa_reverse buf p f = (if Suc f < p - 1 then xtoa_reverse b (p - 1) (Suc f) else Some b)"
    using "1.prems" by (subst xtoa_reverse.simps) (simp add: rd_Some wr_Some b_def)
  show ?case
  proof (cases "Suc f < p - 1")
    case False
    have "b = map (\<lambda>k. if f \<le> k \<and> k \<le> p then buf ! (f + p - k) else buf ! k) [0..<length buf]"
    proof (rule nth_equalityI)
      fix k assume k: "k < length b"
      consider "k < f \<or> p < k" | "k = f" | "k = p" | "f < k" "k < p" "k + k = f + p" | "f < k" "k < p" "k + k \<noteq> f + p" by linarith
      then show "b ! k = map (\<lambda>k. if f \<le> k \<and> k \<le> p then buf ! (f + p - k) else buf ! k) [0..<length buf] ! k"
      proof cases
        case 4
        then have "f + p - k = k" by linarith
        with 4 k "1.prems" show ?thesis by (simp add: b_def)
      next
        case 5
        with False have False by linarith
        then show ?thesis ..
      qed (use k "1.prems" in \<open>auto simp: b_def nth_list_update\<close>)
    qed (simp add: b_def)
    with step False show ?thesis by simp
  next
    case True
    have "xtoa_reverse b (p - 1) (Suc f) =
        Some (map (\<lambda>k. if Suc f \<le> k \<and> k \<le> p - 1 then b ! (Suc f + (p - 1) - k) else b ! k) [0..<length b])"
      using "1.IH" [of "buf ! p" "buf ! f" "buf[p := buf ! f]" b] "1.prems" True by (simp add: rd_Some wr_Some b_def)
    moreover have "map (\<lambda>k. if Suc f \<le> k \<and> k \<le> p - 1 then b ! (Suc f + (p - 1) - k) else b ! k) [0..<length b] =
        map (\<lambda>k. if f \<le> k \<and> k \<le> p then buf ! (f + p - k) else buf ! k) [0..<length buf]"
      using "1.prems" True by (intro nth_equalityI) (auto simp: b_def nth_list_update)
    ultimately show ?thesis using step True by simp
  qed
qed

lemma xtoa_reverse_rev:
  assumes "xs \<noteq> []"
  shows "xtoa_reverse (pre @ xs @ post) (length pre + length xs - 1) (length pre) = Some (pre @ rev xs @ post)"
proof -
  obtain l where l: "length xs = Suc l" using assms by (cases xs) auto
  have "xtoa_reverse (pre @ xs @ post) (length pre + length xs - 1) (length pre) =
      Some (map (\<lambda>k. if length pre \<le> k \<and> k \<le> length pre + length xs - 1
        then (pre @ xs @ post) ! (length pre + (length pre + length xs - 1) - k) else (pre @ xs @ post) ! k)
        [0..<length (pre @ xs @ post)])"
    using l by (intro xtoa_reverse_eq) auto
  also have "map (\<lambda>k. if length pre \<le> k \<and> k \<le> length pre + length xs - 1
        then (pre @ xs @ post) ! (length pre + (length pre + length xs - 1) - k) else (pre @ xs @ post) ! k)
        [0..<length (pre @ xs @ post)] = pre @ rev xs @ post"
  proof (rule nth_equalityI)
    fix k assume k: "k < length (map (\<lambda>k. if length pre \<le> k \<and> k \<le> length pre + length xs - 1
        then (pre @ xs @ post) ! (length pre + (length pre + length xs - 1) - k) else (pre @ xs @ post) ! k)
        [0..<length (pre @ xs @ post)])"
    consider "k < length pre" | i where "k = length pre + i" "i \<le> l" | i where "k = length pre + Suc l + i"
      by (metis add_Suc_right add.assoc le_Suc_ex not_less not_less_eq_eq)
    then show "map (\<lambda>k. if length pre \<le> k \<and> k \<le> length pre + length xs - 1
        then (pre @ xs @ post) ! (length pre + (length pre + length xs - 1) - k) else (pre @ xs @ post) ! k)
        [0..<length (pre @ xs @ post)] ! k = (pre @ rev xs @ post) ! k"
    proof cases
      case 1
      then show ?thesis using k by (simp add: nth_append)
    next
      case (2 i)
      then have ix: "length pre + (length pre + length xs - 1) - k = length pre + (l - i)"
          "length pre \<le> k \<and> k \<le> length pre + length xs - 1" "k < length pre + (length xs + length post)"
        using l by auto
      have "(pre @ xs @ post) ! (length pre + (l - i)) = xs ! (l - i)"
        unfolding nth_append_length_plus using l by (simp add: nth_append less_Suc_eq_le)
      moreover have "(pre @ rev xs @ post) ! k = xs ! (l - i)"
        unfolding 2(1) nth_append_length_plus using 2 l by (simp add: nth_append rev_nth)
      ultimately show ?thesis using ix by simp
    next
      case (3 i)
      have no: "\<not> (length pre \<le> k \<and> k \<le> length pre + length xs - 1)" using 3 l by simp
      have "(pre @ xs @ post) ! k = post ! i" "(pre @ rev xs @ post) ! k = post ! i"
        using nth_append_length_plus [of "pre @ xs" post i] nth_append_length_plus [of "pre @ rev xs" post i] 3 l
        by (simp_all add: add.assoc)
      moreover have "k < length (pre @ xs @ post)" using k by simp
      ultimately show ?thesis using no by (simp only: length_map length_upt nth_map nth_upt if_False) auto
    qed
  qed simp
  finally show ?thesis .
qed

lemma UToA_text:
  assumes "2 \<le> unat radix" and "unat radix \<le> 36" and "length (rtext (unat radix) (unat val)) < length buf"
  shows "XToA val buf radix False = Some (rtext (unat radix) (unat val) @ 0 # drop (Suc (length (rtext (unat radix) (unat val)))) buf)"
proof -
  define t where "t = rtext (unat radix) (unat val)"
  have d: "xtoa_digits val buf 0 radix = Some (rev t @ drop (length t) buf, length t)"
    using xtoa_digits_text [OF assms(1,2), of 0 val buf] assms(3) by (simp add: t_def)
  have w: "wr (rev t @ drop (length t) buf) (length t) 0 = Some ([] @ rev t @ (0 # drop (Suc (length t)) buf))"
    using assms(3) by (simp add: wr_Some list_update_append upd_conv_take_nth_drop t_def [symmetric])
  have "xtoa_reverse ([] @ rev t @ (0 # drop (Suc (length t)) buf)) (length t - 1) 0 = Some ([] @ rev (rev t) @ (0 # drop (Suc (length t)) buf))"
    using xtoa_reverse_rev [of "rev t" "[]" "0 # drop (Suc (length t)) buf"] by (simp add: t_def)
  with d w show ?thesis by (simp add: XToA_def t_def [symmetric])
qed

lemma SToA_IToA: "SToA val buf radix = IToA val buf radix"
  by (cases "radix = 10 \<and> sint val < 0") (auto simp: SToA_def IToA_def)

lemma IToA_text:
  assumes "val \<noteq> 0x8000000000000000" and "length (int_text (sint val)) < length buf"
  shows "IToA val buf 10 = Some (int_text (sint val) @ 0 # drop (Suc (length (int_text (sint val)))) buf)"
proof (cases "sint val < 0")
  case False
  then have "rtext 10 (unat val) = int_text (sint val)"
    using unat_of_sint(1) [of val] by (simp add: int_text_def rtext_dec)
  with False UToA_text [of 10 val buf] assms(2) show ?thesis by (simp add: IToA_def)
next
  case True
  have t: "int_text (sint val) = 0x2D # rtext 10 (unat (- val))"
    using True unat_of_sint(2) [of val] by (simp add: int_text_def rtext_dec)
  define t where "t = rtext 10 (unat (- val))"
  obtain b bs where buf: "buf = b # bs" using assms(2) by (cases buf) auto
  have len: "length t < length bs" using assms(2) t buf by (simp add: t_def)
  have d: "xtoa_digits (- val) (0x2D # bs) 1 10 = Some (0x2D # rev t @ drop (length t) bs, Suc (length t))"
    using xtoa_digits_text [of 10 1 "- val" "0x2D # bs"] len by (simp add: t_def)
  have w: "wr (0x2D # rev t @ drop (length t) bs) (Suc (length t)) 0 = Some ([0x2D] @ rev t @ (0 # drop (Suc (length t)) bs))"
    using len by (simp add: wr_Some list_update_append upd_conv_take_nth_drop)
  have "xtoa_reverse ([0x2D] @ rev t @ (0 # drop (Suc (length t)) bs)) (Suc (length t) - 1) 1 =
      Some ([0x2D] @ rev (rev t) @ (0 # drop (Suc (length t)) bs))"
    using xtoa_reverse_rev [of "rev t" "[0x2D]" "0 # drop (Suc (length t)) bs"] by (simp add: t_def)
  with d w assms(1) True show ?thesis
    by (simp add: IToA_def XToA_def buf wr_Some t t_def [symmetric])
qed

section \<open>Reading\<close>

lemma IS_DIGIT_zero: "\<not> IS_DIGIT 0"
  by code_simp

lemma atoi_digits_text:
  "n \<le> 9223372036854775807 \<Longrightarrow> atoi_digits (dec_text n @ ys) 0 = atoi_digits ys (int n)"
proof (induction n arbitrary: ys rule: less_induct)
  case (less n)
  have d: "IS_DIGIT (rdigit (n mod 10))" "uint (rdigit (n mod 10)) = 48 + int (n mod 10)"
    using rdigit_classes [of "n mod 10"] by (simp_all add: less_trans [OF mod_less_divisor])
  show ?case
  proof (cases "n < 10")
    case True
    then have "dec_text n = [rdigit (n mod 10)]" by (simp add: rtext_less flip: rtext_dec)
    with True d less.prems show ?thesis by simp
  next
    case False
    then have t: "dec_text n = dec_text (n div 10) @ [rdigit (n mod 10)]" by (simp add: rtext_step flip: rtext_dec)
    have "10 * int (n div 10) + int (n mod 10) = int n" by (simp add: zmod_int zdiv_int)
    with t d False less show ?thesis by (simp add: algebra_simps)
  qed
qed

lemma AToI_text:
  assumes "\<bar>i\<bar> \<le> 9223372036854775807"
  shows "AToI (int_text i @ 0 # r) = Some i"
proof -
  have first: "\<exists>k cs. dec_text n = rdigit k # cs \<and> k < 10" for n
  proof -
    obtain c cs where c: "dec_text n = c # cs" using dec_text_not_empty by (cases "dec_text n") auto
    then have "c \<in> set (rtext 10 n)" by (simp add: rtext_dec)
    then obtain k where "k < 10" "c = rdigit k" using rtext_digits [of 10 c n] by auto
    with c show ?thesis by blast
  qed
  have minus: "\<not> IS_SPACE 0x2D" by code_simp
  show ?thesis
  proof (cases "i < 0")
    case True
    have "atoi_digits (dec_text (nat (- i)) @ 0 # r) 0 = Some (- i)"
      using atoi_digits_text [of "nat (- i)" "0 # r"] assms True IS_DIGIT_zero by simp
    with True minus show ?thesis by (simp add: int_text_def AToI_def rd_def)
  next
    case False
    obtain k cs where k: "dec_text (nat i) = rdigit k # cs" "k < 10" using first by blast
    have "atoi_digits (dec_text (nat i) @ 0 # r) 0 = Some i"
      using atoi_digits_text [of "nat i" "0 # r"] assms False IS_DIGIT_zero by simp
    with False k rdigit_classes [of k] show ?thesis by (simp add: int_text_def AToI_def rd_def)
  qed
qed

section \<open>Reading 32-bit numbers\<close>

lemma mul_limit:
  fixes n r :: nat
  assumes "2 \<le> r"
  shows "n \<le> 4294967295 \<longleftrightarrow> n div r < 4294967295 div r \<or> (n div r = 4294967295 div r \<and> n mod r \<le> 4294967295 mod r)"
proof -
  have n: "n = n div r * r + n mod r" and u: "(4294967295 :: nat) = 4294967295 div r * r + 4294967295 mod r" by simp_all
  have m: "n mod r < r" "4294967295 mod r < r" using assms by simp_all
  consider "n div r < 4294967295 div r" | "n div r = 4294967295 div r" | "4294967295 div r < n div r" by linarith
  then show ?thesis
  proof cases
    case 1
    then have "Suc (n div r) * r \<le> 4294967295 div r * r" by (intro mult_le_mono1) simp
    then have "n div r * r + r \<le> 4294967295 div r * r" by simp
    then have "n \<le> 4294967295" using n u m(1) by linarith
    with 1 show ?thesis by simp
  next
    case 2
    then have "n div r * r = 4294967295 div r * r" by simp
    then have "n \<le> 4294967295 \<longleftrightarrow> n mod r \<le> 4294967295 mod r" using n u by linarith
    with 2 show ?thesis by simp
  next
    case 3
    then have "Suc (4294967295 div r) * r \<le> n div r * r" by (intro mult_le_mono1) simp
    then have "4294967295 div r * r + r \<le> n div r * r" by simp
    then have "4294967295 < n" using n u m(2) by linarith
    with 3 show ?thesis by simp
  qed
qed

text \<open>The loop over a text: the number, or the overflow flag.\<close>

lemma xl_loop_text:
  assumes "2 \<le> unat radix" and "unat radix \<le> 36"
  shows "\<exists>num. xl_loop radix (0xFFFFFFFF div radix) (rtext (unat radix) n @ ys) p 0 flags =
      xl_loop radix (0xFFFFFFFF div radix) ys (p + length (rtext (unat radix) n)) num
        (flags OR FL_READDIGIT OR (if n \<le> 4294967295 then 0 else FL_OVERFLOW)) \<and>
    (n \<le> 4294967295 \<longrightarrow> num = of_nat n)"
proof (induction n arbitrary: ys rule: less_induct)
  case (less n)
  define r where "r = unat radix"
  have r: "2 \<le> r" "r \<le> 36" using assms by (simp_all add: r_def)
  define k where "k = n mod r"
  have k: "k < 36" "k < r" using r by (simp_all add: k_def less_le_trans [OF mod_less_divisor])
  have val: "xl_value (rdigit k) = Some (of_nat k)" using rdigit_classes [OF k(1)] by simp
  have uk: "unat (of_nat k :: u32) = k" using k by (simp add: unat_of_nat take_bit_nat_eq_self)
  have base: "\<not> (of_nat k :: u32) \<ge> radix" using k(2) uk by (simp add: word_le_nat_alt r_def)
  have umax: "unat (0xFFFFFFFF div radix) = 4294967295 div r" "unat (0xFFFFFFFF mod radix) = 4294967295 mod r"
    by (simp_all add: unat_div unat_mod r_def)
  have one: "xl_loop radix (0xFFFFFFFF div radix) (rdigit k # ys) q num f =
      (if num < 0xFFFFFFFF div radix \<or> num = 0xFFFFFFFF div radix \<and> of_nat k \<le> 0xFFFFFFFF mod radix
       then xl_loop radix (0xFFFFFFFF div radix) ys (Suc q) (num * radix + of_nat k) (f OR FL_READDIGIT)
       else xl_loop radix (0xFFFFFFFF div radix) ys (Suc q) num (f OR FL_READDIGIT OR FL_OVERFLOW))" for q num f
    using val base by (simp add: Let_def or.assoc)
  have fits: "(num < 0xFFFFFFFF div radix \<or> num = 0xFFFFFFFF div radix \<and> of_nat k \<le> 0xFFFFFFFF mod radix) \<longleftrightarrow>
      n \<le> 4294967295" if "unat num = n div r" for num
    unfolding mul_limit [OF r(1)] word_less_nat_alt word_le_nat_alt word_unat_eq_iff umax uk that k_def [symmetric] ..
  have new: "(num * radix + of_nat k :: u32) = of_nat n" if "num = of_nat (n div r)" for num
  proof -
    have "(of_nat n :: u32) = of_nat (n div r * r + n mod r)" by (simp only: div_mult_mod_eq)
    also have "\<dots> = of_nat (n div r) * of_nat r + of_nat k" by (simp only: of_nat_add of_nat_mult k_def)
    also have "(of_nat r :: u32) = radix" by (simp add: r_def)
    finally show ?thesis using that by simp
  qed
  show ?case
  proof (cases "n < r")
    case True
    then have t: "rtext (unat radix) n = [rdigit k]" by (simp add: r_def [symmetric] rtext_less k_def)
    have "n \<le> 4294967295" using True r by simp
    with one [of p 0 flags] fits [of 0] new [of 0] True show ?thesis
      by (intro exI [of _ "of_nat n"]) (simp add: t)
  next
    case False
    then have t: "rtext (unat radix) n = rtext (unat radix) (n div r) @ [rdigit k]"
      using r by (simp add: r_def [symmetric] rtext_step k_def)
    have "n div r < n" using False r by (intro div_less_dividend) auto
    from less.IH [OF this, of "rdigit k # ys"] obtain num where
        num: "n div r \<le> 4294967295 \<longrightarrow> num = of_nat (n div r)" and
        run: "xl_loop radix (0xFFFFFFFF div radix) (rtext (unat radix) (n div r) @ rdigit k # ys) p 0 flags =
          xl_loop radix (0xFFFFFFFF div radix) (rdigit k # ys) (p + length (rtext (unat radix) (n div r))) num
            (flags OR FL_READDIGIT OR (if n div r \<le> 4294967295 then 0 else FL_OVERFLOW))" by blast
    show ?thesis
    proof (cases "n \<le> 4294967295")
      case True
      then have d: "n div r \<le> 4294967295" by (meson div_le_dividend le_trans)
      then have "num = of_nat (n div r)" using num by simp
      then have "unat num = n div r" using d by (simp add: unat_of_nat take_bit_nat_eq_self)
      with True run one fits new num d show ?thesis
        by (intro exI [of _ "of_nat n"]) (simp add: t or.assoc)
    next
      case big: False
      show ?thesis
      proof (cases "n div r \<le> 4294967295")
        case True
        then have "num = of_nat (n div r)" using num by simp
        then have u: "unat num = n div r" using True by (simp add: unat_of_nat take_bit_nat_eq_self)
        have nofit: "(num < 0xFFFFFFFF div radix \<or> num = 0xFFFFFFFF div radix \<and> of_nat k \<le> 0xFFFFFFFF mod radix) = False"
          using fits [OF u] big by simp
        show ?thesis
          unfolding t append.assoc append_Cons append_Nil run one nofit
          using True big by (intro exI [of _ num]) (simp add: or.assoc)
      next
        case False
        have abs: "flags OR (FL_READDIGIT OR (FL_OVERFLOW OR FL_READDIGIT)) = flags OR (FL_READDIGIT OR FL_OVERFLOW)"
            "flags OR (FL_READDIGIT OR (FL_OVERFLOW OR (FL_READDIGIT OR FL_OVERFLOW))) = flags OR (FL_READDIGIT OR FL_OVERFLOW)"
          by (simp_all add: FL_READDIGIT_def FL_OVERFLOW_def)
        show ?thesis
          unfolding t append.assoc append_Cons append_Nil run one
          using big False by (auto simp: or.assoc abs)
      qed
    qed
  qed
qed


lemma rtext_first: "2 \<le> r \<Longrightarrow> r \<le> 36 \<Longrightarrow> \<exists>k cs. rtext r n = rdigit k # cs \<and> k < 36"
proof -
  assume r: "2 \<le> r" "r \<le> 36"
  obtain c cs where c: "rtext r n = c # cs" by (cases "rtext r n") auto
  then obtain k where "k < r" "c = rdigit k" using rtext_digits [OF r, of c n] by auto
  with c r show ?thesis by auto
qed

lemma rtext_no_x: "c \<in> set (rtext 16 n) \<Longrightarrow> c \<noteq> 0x78 \<and> c \<noteq> 0x58"
proof -
  assume c: "c \<in> set (rtext 16 n)"
  have "list_all (\<lambda>k. rdigit k \<noteq> 0x78 \<and> rdigit k \<noteq> 0x58) [0..<16]" by code_simp
  with rtext_digits [of 16 c n] c show ?thesis by (auto simp: list_all_iff)
qed

lemma xl_loop_end: "xl_loop radix m (0 # ys) p num flags = Some (p, num, flags)"
proof -
  have "xl_value 0 = None" by code_simp
  then show ?thesis by simp
qed

lemma xl_final_unsigned:
  "xl_final num (FL_UNSIGNED OR FL_READDIGIT OR (if fine then 0 else FL_OVERFLOW)) = (if fine then num else 0xFFFFFFFF)"
  by (simp add: xl_final_def FL_UNSIGNED_def FL_READDIGIT_def FL_OVERFLOW_def FL_NEG_def)

lemma StrToUL_text:
  assumes "2 \<le> r" and "r \<le> 36"
  shows "StrToUL (rtext r n @ 0 # ys) (int r) = Some (of_nat (min n 4294967295), length (rtext r n))"
proof -
  define radix :: u32 where "radix = of_nat r"
  have ur: "unat radix = r" using assms by (simp add: radix_def unat_of_nat take_bit_nat_eq_self)
  obtain k cs where k: "rtext r n = rdigit k # cs" "k < 36" using rtext_first [OF assms] by blast
  have cl: "\<not> IS_SPACE (rdigit k)" "rdigit k \<noteq> 0x2D" "rdigit k \<noteq> 0x2B" using rdigit_classes [OF k(2)] by simp_all
  have prefix: "r = 16 \<Longrightarrow> (cs @ 0 # ys) ! 0 \<noteq> 0x78 \<and> (cs @ 0 # ys) ! 0 \<noteq> 0x58"
    using rtext_no_x [of _ n] k(1) by (cases cs) auto
  have word: "(of_nat r :: u32) = radix" by (simp add: radix_def)
  have sixteen: "radix = 16 \<longleftrightarrow> r = 16"
    using ur by (auto simp: radix_def)
  obtain num where run: "xl_loop radix (0xFFFFFFFF div radix) (rtext r n @ 0 # ys) 0 0 FL_UNSIGNED =
      Some (length (rtext r n), num, FL_UNSIGNED OR FL_READDIGIT OR (if n \<le> 4294967295 then 0 else FL_OVERFLOW))"
    and num: "n \<le> 4294967295 \<longrightarrow> num = of_nat n"
    using xl_loop_text [of radix n "0 # ys" 0 FL_UNSIGNED] assms unfolding ur xl_loop_end by auto
  have fl: "FL_UNSIGNED OR FL_READDIGIT OR (if n \<le> 4294967295 then 0 else FL_OVERFLOW) \<noteq> 0"
      "(FL_UNSIGNED OR FL_READDIGIT OR (if n \<le> 4294967295 then 0 else FL_OVERFLOW)) AND FL_READDIGIT \<noteq> 0"
      "(FL_UNSIGNED OR FL_READDIGIT OR (if n \<le> 4294967295 then 0 else FL_OVERFLOW)) AND FL_NEG = 0"
    by (simp_all add: FL_UNSIGNED_def FL_READDIGIT_def FL_OVERFLOW_def FL_NEG_def)
  define F where "F = FL_UNSIGNED OR FL_READDIGIT OR (if n \<le> 4294967295 then 0 else FL_OVERFLOW)"
  have pre: "(if radix = 16 \<and> rdigit k = 0x30
      then do { x \<leftarrow> rd (rdigit k # cs @ 0 # ys) 1; Some (if x = 0x78 \<or> x = 0x58 then drop 2 (rdigit k # cs @ 0 # ys) else rdigit k # cs @ 0 # ys) }
      else Some (rdigit k # cs @ 0 # ys)) = Some (rdigit k # cs @ 0 # ys)"
    using prefix unfolding sixteen by (auto simp: rd_def)
  have skip: "skip_space (rdigit k # cs @ 0 # ys) = Some (rdigit k # cs @ 0 # ys)" using cl by simp
  have fst: "rd (rdigit k # cs @ 0 # ys) 0 = Some (rdigit k)" by (simp add: rd_def)
  have "StrToXL (rdigit k # cs @ 0 # ys) (int r) FL_UNSIGNED = Some (xl_final num F, length (rtext r n))"
    unfolding StrToXL_def skip
    using cl(2,3) run fl assms pre
    by (simp add: fst word k(1) Let_def F_def [symmetric] del: xl_loop.simps)
  then have "StrToXL (rtext r n @ 0 # ys) (int r) FL_UNSIGNED = Some (xl_final num
      (FL_UNSIGNED OR FL_READDIGIT OR (if n \<le> 4294967295 then 0 else FL_OVERFLOW)), length (rtext r n))"
    by (simp only: k(1) F_def append_Cons)
  then show ?thesis
    unfolding StrToUL_def xl_final_unsigned using num by (auto simp: min_def)
qed

text \<open>
  What \<open>UToA\<close> (\<open>usdl_conversion.c\<close>) writes in a radix from 2 to 36, \<open>StrToUL\<close> reads back in the same
  radix: the number when it has 32 bits, the greatest 32-bit number otherwise, and the end pointer stands on
  the terminator. The buffer needs a byte more than the text.
\<close>
lemma StrToUL_reads_UToA:
  assumes "2 \<le> r" and "r \<le> 36" and "length (rtext r (unat val)) < length buf"
  shows "Option.bind (UToA val buf (of_nat r)) (\<lambda>text. StrToUL text (int r)) =
    Some (of_nat (min (unat val) 4294967295), length (rtext r (unat val)))"
proof -
  have ur: "unat (of_nat r :: u32) = r" using assms(1,2) by (simp add: unat_of_nat take_bit_nat_eq_self)
  show ?thesis
    using UToA_text [of "of_nat r" val buf] StrToUL_text [OF assms(1,2)] assms unfolding ur UToA_def by simp
qed

lemma rtext_length_witness: "length (rtext 2 5) = 3"
  by (simp add: rtext.simps)

lemma StrToUL_reads_UToA_witness:
  "Option.bind (UToA 5 (replicate 8 0) (of_nat 2)) (\<lambda>text. StrToUL text (int 2)) = Some (of_nat (min (unat (5 :: u64)) 4294967295), length (rtext 2 (unat (5 :: u64))))"
  using rtext_length_witness by (intro StrToUL_reads_UToA) simp_all

text \<open>
  \<open>AToI\<close> reads back what \<open>IToA\<close> (\<open>usdl_conversion.c\<close>) wrote in radix 10, sign included, for every
  signed 64-bit number but the least, whose negation overflows.
\<close>
lemma AToI_reads_IToA:
  assumes "val \<noteq> 0x8000000000000000" and "length (int_text (sint val)) < length buf"
  shows "Option.bind (IToA val buf 10) AToI = Some (sint val)"
proof -
  have min: "sint (0x8000000000000000 :: u64) = - 9223372036854775808" by code_simp
  have "sint val \<noteq> - 9223372036854775808" 
  proof
    assume "sint val = - 9223372036854775808"
    then have "word_of_int (sint val) = (word_of_int (- 9223372036854775808) :: u64)" by (rule arg_cong)
    with assms(1) show False by simp
  qed
  then have "\<bar>sint val\<bar> \<le> 9223372036854775807"
    using sint_ge [of val] sint_less [of val] by simp
  with AToI_text IToA_text [OF assms] show ?thesis by simp
qed

lemma AToI_reads_IToA_witness: "Option.bind (IToA (- 42) (replicate 4 7) 10) AToI = Some (sint (- 42 :: u64))"
proof (rule AToI_reads_IToA)
  have "sint (- 42 :: u64) = - 42" by code_simp
  then show "length (int_text (sint (- 42 :: u64))) < length (replicate 4 (7 :: u8))"
    by (simp add: int_text_def dec_text.simps)
qed simp

section \<open>Hexadecimal text\<close>

primrec hex_text :: "u8 list \<Rightarrow> u8 list" where
  "hex_text [] = []"
| "hex_text (b # bs) = HexList ! unat (b div 16) # HexList ! unat (b mod 16) # hex_text bs"

lemma length_hex_text [simp]: "length (hex_text bs) = 2 * length bs"
  by (induction bs) simp_all

lemma hex_digit:
  fixes d :: u8
  assumes "d < 16"
  shows "HexList ! unat d \<noteq> 0 \<and> hex_value (HexList ! unat d) = Some d"
proof -
  have "list_all (\<lambda>n. HexList ! unat (of_nat n :: u8) \<noteq> 0 \<and> hex_value (HexList ! unat (of_nat n :: u8)) = Some (of_nat n)) [0..<16]"
    by code_simp
  moreover have "unat d \<in> set [0..<16]" using assms by (simp add: word_less_nat_alt)
  ultimately have "HexList ! unat (of_nat (unat d) :: u8) \<noteq> 0 \<and> hex_value (HexList ! unat (of_nat (unat d) :: u8)) = Some (of_nat (unat d))"
    unfolding list_all_iff by blast
  then show ?thesis by simp
qed

lemma hex_digits:
  "HexList ! unat (b div 16) \<noteq> 0" "HexList ! unat (b mod 16) \<noteq> 0"
  "hex_value (HexList ! unat (b div 16)) = Some (b div 16)" "hex_value (HexList ! unat (b mod 16)) = Some (b mod 16)"
  "push_bit 4 (b div 16) OR (b mod 16) = b" for b :: u8
proof -
  have "b div 16 < 16" "b mod 16 < 16"
    using unat_less_u8 [of b] by (simp_all add: word_less_nat_alt unat_div unat_mod less_mult_imp_div_less)
  then show "HexList ! unat (b div 16) \<noteq> 0" "HexList ! unat (b mod 16) \<noteq> 0"
    "hex_value (HexList ! unat (b div 16)) = Some (b div 16)" "hex_value (HexList ! unat (b mod 16)) = Some (b mod 16)"
    using hex_digit by blast+
  have "push_bit 4 (drop_bit 4 b) OR take_bit 4 b = b"
    by (intro bit_eqI) (auto simp: bit_simps)
  then show "push_bit 4 (b div 16) OR (b mod 16) = b" by (simp add: drop_bit_eq_div take_bit_eq_mod)
qed

lemma hex_text_no_zero: "0 \<notin> set (hex_text bs)"
proof (induction bs)
  case (Cons b bs)
  then show ?case using hex_digits(1,2) [of b] by simp
qed simp

lemma hex_plain_loop_text:
  "length P = 2 * length pre \<Longrightarrow> 2 * length bs \<le> length str \<Longrightarrow>
   hex_plain_loop (length bs) (length pre) (P @ str) (pre @ bs @ post) = Some (P @ hex_text bs @ drop (2 * length bs) str)"
proof (induction bs arbitrary: pre P str)
  case (Cons b bs)
  obtain x y str' where s: "str = x # y # str'" using Cons.prems(2) by (cases str; cases "tl str") auto
  have r: "rd (pre @ b # bs @ post) (length pre) = Some b" by (simp add: rd_Some)
  have w1: "wr (P @ x # y # str') (length pre * 2) u = Some (P @ u # y # str')" for u
    using Cons.prems(1) by (simp add: wr_Some list_update_append)
  have w2: "wr (P @ u # y # str') (length pre * 2 + 1) v = Some (P @ u # v # str')" for u v
    using Cons.prems(1) by (simp add: wr_Some list_update_append)
  define Q where "Q = P @ [HexList ! unat (b div 16), HexList ! unat (b mod 16)]"
  have Q: "P @ HexList ! unat (b div 16) # HexList ! unat (b mod 16) # str' = Q @ str'" by (simp add: Q_def)
  have "hex_plain_loop (length bs) (length (pre @ [b])) (Q @ str') ((pre @ [b]) @ bs @ post) =
      Some (Q @ hex_text bs @ drop (2 * length bs) str')"
    using Cons.prems s by (intro Cons.IH) (simp_all add: Q_def)
  then have "hex_plain_loop (length (b # bs)) (length pre) (P @ str) (pre @ (b # bs) @ post) =
      Some (Q @ hex_text bs @ drop (2 * length bs) str')"
    using r w1 w2 by (simp add: s Q [symmetric])
  then show ?case by (simp add: Q_def s)
qed simp

lemma hex_bytes_loop_text:
  "length bs \<le> length buf \<Longrightarrow>
   hex_bytes_loop (2 * length bs) (length H) (length P) False (P @ buf) (H @ hex_text bs @ r) skip =
     Some (True, P @ bs @ drop (length bs) buf)"
proof (induction bs arbitrary: H P buf)
  case (Cons b bs)
  obtain x buf' where s: "buf = x # buf'" using Cons.prems by (cases buf) auto
  define h l where "h = HexList ! unat (b div 16)" and "l = HexList ! unat (b mod 16)"
  have r: "rd (H @ h # l # hex_text bs @ r) (length H) = Some h"
    "rd (H @ h # l # hex_text bs @ r) (Suc (length H)) = Some l" by (simp_all add: rd_Some nth_append)
  have w: "wr (P @ y # buf') (length P) z = Some (P @ z # buf')" for y z by (simp add: wr_Some)
  have rb: "rd (P @ y # buf') (length P) = Some y" for y by (simp add: rd_Some)
  have "hex_bytes_loop (2 * length bs) (length (H @ [h, l])) (length (P @ [b])) False ((P @ [b]) @ buf') ((H @ [h, l]) @ hex_text bs @ r) skip =
      Some (True, (P @ [b]) @ bs @ drop (length bs) buf')"
    using Cons.prems s by (intro Cons.IH) simp
  then show ?case
    using r w rb hex_digits [of b] by (simp add: s h_def [symmetric] l_def [symmetric])
qed simp

text \<open>
  \<open>HexStrToBytes\<close> reads back the bytes that \<open>BytesMapHexStr\<close> wrote without a separator
  (\<open>usdl_conversion.c\<close>), when the text with its terminator fits in the place it is written to and the
  bytes in the place they are read into: the number of bytes is returned and nothing behind them changes.
\<close>
lemma HexStrToBytes_reads_BytesMapHexStr:
  assumes "unat buf_len * 2 + 1 \<le> unat max_str_len" and "unat max_str_len \<le> length str"
    and "unat buf_len \<le> length buf" and "unat buf_len \<le> length out"
  shows "do { (n, text) \<leftarrow> BytesMapHexStr (Some str) max_str_len (Some buf) buf_len None;
      Option.bind text (\<lambda>text. HexStrToBytes out buf_len text skip) } =
    Some (buf_len, take (unat buf_len) buf @ drop (unat buf_len) out)"
proof -
  define n where "n = unat buf_len"
  have lim: "n * 2 + 1 < 2 ^ 32" using assms(1) unat_less_u32 [of max_str_len] by (simp add: n_def)
  have two: "unat (buf_len * 2) = n * 2" "unat (buf_len * 2 + 1) = n * 2 + 1" "buf_len * 2 = of_nat (2 * n)"
    using lim by (simp_all add: n_def unat_word_ariths mult.commute)
  have fits: "\<not> buf_len * 2 + 1 > max_str_len"
    using assms(1) two(2) by (simp add: word_less_nat_alt n_def)
  have "hex_plain_loop (length (take n buf)) (length ([] :: u8 list)) ([] @ str) ([] @ take n buf @ drop n buf) =
      Some ([] @ hex_text (take n buf) @ drop (2 * length (take n buf)) str)"
    using assms by (intro hex_plain_loop_text) (simp_all add: n_def)
  then have loop: "hex_plain_loop n 0 str buf = Some (hex_text (take n buf) @ drop (2 * n) str)"
    using assms(3) by (simp add: n_def min_absorb2)
  obtain z zs where tail: "drop (2 * n) str = z # zs" using assms(1,2) by (cases "drop (2 * n) str") (auto simp: n_def)
  have ln: "length (hex_text (take n buf)) = 2 * n" using assms(3) by (simp add: n_def min_def)
  have zero: "wr (hex_text (take n buf) @ z # zs) (n * 2) 0 = Some (hex_text (take n buf) @ 0 # zs)"
    using ln by (simp add: wr_Some list_update_append mult.commute)
  have map: "BytesMapHexStr (Some str) max_str_len (Some buf) buf_len None = Some (buf_len * 2, Some (hex_text (take n buf) @ 0 # zs))"
    using fits loop tail zero two(1) by (simp add: BytesMapHexStr_def n_def [symmetric])
  have "StrLen (hex_text (take n buf) @ 0 # zs) = Some (buf_len * 2)"
    unfolding two(3) StrLen_cstr [OF hex_text_no_zero] ln ..
  moreover have "hex_bytes_loop (2 * length (take n buf)) (length ([] :: u8 list)) (length ([] :: u8 list)) False ([] @ out) ([] @ hex_text (take n buf) @ 0 # zs) skip =
      Some (True, [] @ take n buf @ drop (length (take n buf)) out)"
    using assms(4) by (intro hex_bytes_loop_text) (simp add: n_def)
  moreover have "(buf_len * 2 + 1) div 2 = buf_len"
    using two(2) by (simp add: word_unat_eq_iff unat_div n_def)
  ultimately show ?thesis
    using map assms(3) two(1) by (simp add: HexStrToBytes_def n_def [symmetric] min_absorb2 mult.commute)
qed

lemma HexStrToBytes_reads_BytesMapHexStr_witness:
  "do { (n, text) \<leftarrow> BytesMapHexStr (Some [1,2,3,4,5,6]) 5 (Some [0xAB, 0x0F]) 2 None;
      Option.bind text (\<lambda>text. HexStrToBytes [9, 8, 7] 2 text False) } =
    Some (2, take (unat (2 :: u32)) [0xAB, 0x0F] @ drop (unat (2 :: u32)) [9, 8, 7])"
  by (rule HexStrToBytes_reads_BytesMapHexStr) simp_all

section \<open>What the conversions do not do\<close>

text \<open>The index of \<open>BytesMapChar\<close> never reaches a length above 65535: the loop runs until memory ends.\<close>

lemma BytesMapChar_loop_ends:
  assumes "BytesMapChar_loop bytes len i out = Some res"
  shows "\<exists>j :: u16. \<not> ucast j < len"
proof (rule BytesMapChar_loop.raw_induct [where P = "\<lambda>bytes len i out res. \<exists>j :: u16. \<not> ucast j < len", OF _ assms])
  fix rec :: "u8 list \<Rightarrow> u32 \<Rightarrow> u16 \<Rightarrow> u8 list \<Rightarrow> u8 list option" and bytes len i out res
  assume IH: "\<And>bytes len i out res. rec bytes len i out = Some res \<Longrightarrow> \<exists>j :: u16. \<not> ucast j < len"
    and step: "(if ucast i < len then Option.bind (rd bytes (unat i)) (\<lambda>b.
        rec bytes len (i + 1) (out @ [HexList ! unat (b div 16), HexList ! unat (b mod 16)])) else Some out) = Some res"
  show "\<exists>j :: u16. \<not> ucast j < len"
  proof (cases "ucast i < len")
    case True
    with step obtain b :: u8 where "rec bytes len (i + 1) (out @ [HexList ! unat (b div 16), HexList ! unat (b mod 16)]) = Some res"
      by (auto simp: bind_eq_Some_conv)
    then show ?thesis by (rule IH)
  qed auto
qed

lemma BytesMapChar_endless: "0xFFFF < len \<Longrightarrow> BytesMapChar bytes len = None"
proof (rule ccontr)
  assume len: "0xFFFF < len" and "BytesMapChar bytes len \<noteq> None"
  then obtain res where "BytesMapChar_loop bytes len 0 [] = Some res" by (auto simp: BytesMapChar_def)
  from BytesMapChar_loop_ends [OF this] obtain j :: u16 where "\<not> ucast j < len" by blast
  moreover have "unat (ucast j :: u32) = unat j" 
    using unat_less_u16 [of j] by (simp add: unsigned_ucast_eq take_bit_nat_eq_self)
  moreover have "unat j < 65536" by (rule unat_less_u16)
  ultimately show False using len by (simp add: word_less_nat_alt)
qed

text \<open>\<open>BCDStrToBytes\<close> returns one byte less than it wrote, and 0xFFFFFFFF when it wrote none; with a
  separator \<open>BytesMapHexStr\<close> writes the terminator behind an exactly filled place; a number below the least
  32-bit one is read as the negation of the greatest.\<close>

lemma BCDStrToBytes_counts_less: "BCDStrToBytes [0x31, 0x32, 0x33, 0x34, 0] [9, 9, 9] 3 = Some (1, [0x12, 0x34, 9])"
  by code_simp

lemma BCDStrToBytes_counts_none: "BCDStrToBytes [0] [9] 1 = Some (0xFFFFFFFF, [9])"
  by code_simp

lemma print_loop_Cons:
  "print_loop put (c # cs) ps =
     (if c = 0 then Some ps
      else if c \<noteq> 0x25 then Option.bind (emit_char put c (print_out ps)) (\<lambda>out. print_loop put cs (ps\<lparr>print_out := out\<rparr>))
      else Option.bind (print_directive put cs ps) (\<lambda>(cs, ps). print_loop put cs ps))"
  by (subst print_loop.simps) simp

lemma num_digits_step:
  "num_digits flags 0 base = []"
  "num \<noteq> 0 \<Longrightarrow> \<not> base < 2 \<Longrightarrow>
     num_digits flags num base = num_digit flags (ucast num mod base) # num_digits flags (ucast (ucast num div base)) base"
  by (subst num_digits.simps, simp)+

lemma BytesMapHexStr_writes_behind: "BytesMapHexStr (Some [1, 1, 1]) 3 (Some [0xAB]) 1 (Some [0x20, 0]) = None"
  by (simp add: BytesMapHexStr_def StrLen_def Sprintf_def Vsnprintf_def print_loop_Cons num_digits_step print_init_def print_directive_def
    format_width_def format_precision_def format_qualifier_def is_dec_def rd_def wr_def emit_char_def put_buffer_def
    print_conversion_def va_word.simps print_number_def format_integer_def VprintfNumber_def number_sign_def Let_def
    ZEROPAD_def LEFT_def SIGN_def SPECIAL_def LARGE_def PLUS_def SPACE_def num_digit_def number_out_def
    emit_pad_def pad_left_def format_string_def)

lemma StrToUL_negated_limit:
  "StrToUL [0x2D, 0x39, 0x39, 0x39, 0x39, 0x39, 0x39, 0x39, 0x39, 0x39, 0x39, 0x39, 0] 10 = Some (1, 12)"
  by code_simp

end
