(* ===== verification/Scan_Format.thy ===== *)
theory Scan_Format
  imports Number_Text
begin

text \<open>
  Formatted input: the \<open>Sscanf\<close> family of \<open>common_lib/usdl_io.c\<close>. Input and format are in memory,
  terminated by zero. Every conversion takes a pointer argument; an argument is the size of the object
  it points to, and storing more than that is undefined (\<open>None\<close>). What has been stored is kept in the
  order of the arguments.
\<close>

unbundle bit_operations_syntax

section \<open>Numbers\<close>

definition IS_XDIGIT :: "u8 \<Rightarrow> bool" where "IS_XDIGIT c \<longleftrightarrow> IS_MASK c AND (CTYPE_D OR CTYPE_X) \<noteq> 0"

definition scan_digit :: "u8 \<Rightarrow> u32" where
  "scan_digit c = (if IS_DIGIT c then ucast c - 0x30 else ucast (TO_UPPER c) - 0x41 + 10)"

text \<open>The base and the prefix of the number.\<close>

definition scan_prefix :: "u8 list \<Rightarrow> u32 \<Rightarrow> (u32 \<times> u8 list) option" where
  "scan_prefix cp base = do {
     c \<leftarrow> rd cp 0;
     if base = 0 then
       (if c = 0x30 then do {
          let cp = tl cp;
          x \<leftarrow> rd cp 0;
          if TO_UPPER x = 0x58 then do {
            d \<leftarrow> rd cp 1;
            Some (if IS_XDIGIT d then (16, tl cp) else (8, cp))
          }
          else Some (8, cp)
        }
        else Some (10, cp))
     else if base = 16 then
       (if c = 0x30 then do {
          x \<leftarrow> rd cp 1;
          Some (base, if TO_UPPER x = 0x58 then drop 2 cp else cp)
        }
        else Some (base, cp))
     else Some (base, cp)
   }"

fun strtoul_digits :: "u32 \<Rightarrow> u8 list \<Rightarrow> u32 \<Rightarrow> (u32 \<times> u8 list) option" where
  "strtoul_digits base (c # cp) result =
     (if IS_XDIGIT c \<and> scan_digit c < base then strtoul_digits base cp (result * base + scan_digit c)
      else Some (result, c # cp))"
| "strtoul_digits base [] result = None"

fun strtoull_digits :: "u32 \<Rightarrow> u8 list \<Rightarrow> u64 \<Rightarrow> (u64 \<times> u8 list) option" where
  "strtoull_digits base (c # cp) result =
     (if IS_XDIGIT c \<and> scan_digit c < base then strtoull_digits base cp (result * ucast base + ucast (scan_digit c))
      else Some (result, c # cp))"
| "strtoull_digits base [] result = None"

text \<open>The number and the text behind it.\<close>

definition simple_strtoul :: "u8 list \<Rightarrow> u32 \<Rightarrow> (u32 \<times> u8 list) option" where
  "simple_strtoul cp base = do { (base, cp) \<leftarrow> scan_prefix cp base; strtoul_digits base cp 0 }"

definition simple_strtol :: "u8 list \<Rightarrow> u32 \<Rightarrow> (u32 \<times> u8 list) option" where
  "simple_strtol cp base = do {
     c \<leftarrow> rd cp 0;
     if c = 0x2D then do {
       (v, cp) \<leftarrow> simple_strtoul (tl cp) base;
       if v = 0x80000000 then None else Some (- v, cp)
     }
     else simple_strtoul cp base
   }"

definition simple_strtoull :: "u8 list \<Rightarrow> u32 \<Rightarrow> (u64 \<times> u8 list) option" where
  "simple_strtoull cp base = do { (base, cp) \<leftarrow> scan_prefix cp base; strtoull_digits base cp 0 }"

definition simple_strtoll :: "u8 list \<Rightarrow> u32 \<Rightarrow> (u64 \<times> u8 list) option" where
  "simple_strtoll cp base = do {
     c \<leftarrow> rd cp 0;
     if c = 0x2D then do {
       (v, cp) \<leftarrow> simple_strtoull (tl cp) base;
       if v = 0x8000000000000000 then None else Some (- v, cp)
     }
     else simple_strtoull cp base
   }"

section \<open>The scanner\<close>

datatype ScanStore = St_text "u8 list" | St_u8 u8 | St_u16 u16 | St_u32 u32 | St_u64 u64

record scanner =
  scan_format :: "u8 list"
  scan_str :: "u8 list"
  scan_dests :: "nat list"
  scan_num :: u32
  scan_stores :: "ScanStore list"

definition store_bytes :: "ScanStore \<Rightarrow> nat" where
  "store_bytes x = (case x of St_text cs \<Rightarrow> length cs | St_u8 _ \<Rightarrow> 1 | St_u16 _ \<Rightarrow> 2 | St_u32 _ \<Rightarrow> 4 | St_u64 _ \<Rightarrow> 8)"

definition scan_store :: "ScanStore \<Rightarrow> scanner \<Rightarrow> scanner option" where
  "scan_store x sc = (case scan_dests sc of
     [] \<Rightarrow> None
   | room # dests \<Rightarrow>
       if store_bytes x \<le> room then Some (sc\<lparr>scan_dests := dests, scan_stores := scan_stores sc @ [x]\<rparr>) else None)"

text \<open>The loops over the input; \<open>scan_word\<close> stops at the end, at white space or after \<open>width\<close> characters.\<close>

fun scan_chars :: "nat \<Rightarrow> u8 list \<Rightarrow> (u8 list \<times> u8 list) option" where
  "scan_chars (Suc n) (c # cs) =
     (if c \<noteq> 0 then map_option (map_prod ((#) c) id) (scan_chars n cs) else Some ([], c # cs))"
| "scan_chars 0 cs = Some ([], cs)"
| "scan_chars (Suc n) [] = None"

fun scan_word :: "nat \<Rightarrow> u8 list \<Rightarrow> (u8 list \<times> u8 list) option" where
  "scan_word width (c # cs) =
     (if c \<noteq> 0 \<and> \<not> IS_SPACE c \<and> 0 < width then map_option (map_prod ((#) c) id) (scan_word (width - 1) cs)
      else Some ([], c # cs))"
| "scan_word width [] = None"

fun to_space :: "u8 list \<Rightarrow> u8 list option" where
  "to_space (c # cs) = (if \<not> IS_SPACE c \<and> c \<noteq> 0 then to_space cs else Some (c # cs))"
| "to_space [] = None"

text \<open>The qualifier; 0 stands for none.\<close>

definition scan_qualifier :: "u8 list \<Rightarrow> (u8 \<times> u8 list) option" where
  "scan_qualifier cs = do {
     c \<leftarrow> rd cs 0;
     if c = 0x68 \<or> c = 0x6C \<or> c = 0x4C \<or> c = 0x5A \<or> c = 0x7A then do {
       let cs = tl cs;
       d \<leftarrow> rd cs 0;
       if c = d \<and> c = 0x68 then Some (0x48, tl cs)
       else if c = d \<and> c = 0x6C then Some (0x4C, tl cs)
       else Some (c, cs)
     }
     else Some (0, cs)
   }"

text \<open>The number at the front of the input, as the qualifier wants it.\<close>

definition scan_number :: "u8 \<Rightarrow> bool \<Rightarrow> u32 \<Rightarrow> u8 list \<Rightarrow> (ScanStore \<times> u8 list) option" where
  "scan_number qualifier is_sign base str =
     (if qualifier = 0x4C then
        map_option (map_prod St_u64 id) (if is_sign then simple_strtoll str base else simple_strtoull str base)
      else if qualifier = 0x5A \<or> qualifier = 0x7A then map_option (map_prod St_u32 id) (simple_strtoul str base)
      else do {
        (v, str) \<leftarrow> (if is_sign then simple_strtol str base else simple_strtoul str base);
        Some (if qualifier = 0x48 then St_u8 (ucast v) else if qualifier = 0x68 then St_u16 (ucast v) else St_u32 v, str)
      })"

text \<open>An integer conversion; the Boolean says whether scanning goes on.\<close>

definition scan_integer :: "u8 \<Rightarrow> bool \<Rightarrow> u32 \<Rightarrow> scanner \<Rightarrow> (bool \<times> scanner) option" where
  "scan_integer qualifier is_sign base sc = do {
     str \<leftarrow> skip_space (scan_str sc);
     digit \<leftarrow> rd str 0;
     digit \<leftarrow> (if is_sign \<and> digit = 0x2D then rd str 1 else Some digit);
     if digit = 0 \<or> (base = 16 \<and> \<not> IS_XDIGIT digit) \<or> (base = 10 \<and> \<not> IS_DIGIT digit) \<or>
        (base = 8 \<and> (\<not> IS_DIGIT digit \<or> digit > 0x37)) \<or> (base = 0 \<and> \<not> IS_DIGIT digit)
     then Some (False, sc\<lparr>scan_str := str\<rparr>)
     else do {
       (x, str) \<leftarrow> scan_number qualifier is_sign base str;
       sc \<leftarrow> scan_store x (sc\<lparr>scan_str := str\<rparr>);
       Some (True, sc\<lparr>scan_num := scan_num sc + 1\<rparr>)
     }
   }"

text \<open>The conversion of the character \<open>c\<close>; \<open>pos\<close> is the position in the input.\<close>

definition scan_conversion :: "u8 \<Rightarrow> int \<Rightarrow> u8 \<Rightarrow> nat \<Rightarrow> scanner \<Rightarrow> (bool \<times> scanner) option" where
  "scan_conversion c width qualifier pos sc =
     (if c = 0x63 then do {
        (cs, str) \<leftarrow> scan_chars (if width > 1 then nat width else 1) (scan_str sc);
        sc \<leftarrow> scan_store (St_text cs) (sc\<lparr>scan_str := str\<rparr>);
        Some (True, sc\<lparr>scan_num := scan_num sc + 1\<rparr>)
      }
      else if c = 0x73 then do {
        str \<leftarrow> skip_space (scan_str sc);
        (cs, str) \<leftarrow> scan_word (nat (if width = -1 then 0x7FFFFFFF else width)) str;
        sc \<leftarrow> scan_store (St_text (cs @ [0])) (sc\<lparr>scan_str := str\<rparr>);
        Some (True, sc\<lparr>scan_num := scan_num sc + 1\<rparr>)
      }
      else if c = 0x6E then map_option (Pair True) (scan_store (St_u32 (of_nat pos)) sc)
      else if c = 0x6F then scan_integer qualifier False 8 sc
      else if c = 0x78 \<or> c = 0x58 then scan_integer qualifier False 16 sc
      else if c = 0x69 then scan_integer qualifier True 0 sc
      else if c = 0x64 then scan_integer qualifier True 10 sc
      else if c = 0x75 then scan_integer qualifier False 10 sc
      else if c = 0x25 then do {
        d \<leftarrow> rd (scan_str sc) 0;
        Some (d = 0x25, sc\<lparr>scan_str := tl (scan_str sc)\<rparr>)
      }
      else Some (False, sc))"

text \<open>A directive behind its \<open>%\<close>: with width, qualifier and conversion, or to be skipped.\<close>

definition scan_field :: "u8 list \<Rightarrow> u8 list \<Rightarrow> scanner \<Rightarrow> (bool \<times> scanner) option" where
  "scan_field buf cs sc = do {
     c \<leftarrow> rd cs 0;
     (width, cs) \<leftarrow> (if IS_DIGIT c then skip_atoi cs 0 else Some (-1, cs));
     (qualifier, cs) \<leftarrow> scan_qualifier cs;
     c \<leftarrow> rd cs 0;
     d \<leftarrow> rd (scan_str sc) 0;
     if c = 0 \<or> d = 0 then Some (False, sc\<lparr>scan_format := cs\<rparr>)
     else scan_conversion c width qualifier (length buf - length (scan_str sc)) (sc\<lparr>scan_format := tl cs\<rparr>)
   }"

definition scan_directive :: "u8 list \<Rightarrow> u8 list \<Rightarrow> scanner \<Rightarrow> (bool \<times> scanner) option" where
  "scan_directive buf cs sc = do {
     c \<leftarrow> rd cs 0;
     if c = 0x2A then do {
       cs \<leftarrow> to_space cs;
       str \<leftarrow> to_space (scan_str sc);
       Some (True, sc\<lparr>scan_format := cs, scan_str := str\<rparr>)
     }
     else scan_field buf cs sc
   }"

text \<open>White space in the format skips white space in both.\<close>

definition scan_blanks :: "u8 \<Rightarrow> scanner \<Rightarrow> scanner option" where
  "scan_blanks f sc =
     (if IS_SPACE f then do {
        cs \<leftarrow> skip_space (scan_format sc);
        str \<leftarrow> skip_space (scan_str sc);
        Some (sc\<lparr>scan_format := cs, scan_str := str\<rparr>)
      }
      else Some sc)"

text \<open>One round of the loop.\<close>

definition scan_round :: "u8 list \<Rightarrow> scanner \<Rightarrow> (bool \<times> scanner) option" where
  "scan_round buf sc = do {
     f \<leftarrow> rd (scan_format sc) 0;
     s \<leftarrow> (if f \<noteq> 0 then rd (scan_str sc) 0 else Some 0);
     if f = 0 \<or> s = 0 then Some (False, sc)
     else do {
       sc \<leftarrow> scan_blanks f sc;
       f \<leftarrow> rd (scan_format sc) 0;
       if f \<noteq> 0x25 \<and> f \<noteq> 0 then do {
         s \<leftarrow> rd (scan_str sc) 0;
         Some (f = s, sc\<lparr>scan_format := tl (scan_format sc), scan_str := tl (scan_str sc)\<rparr>)
       }
       else if f = 0 then Some (False, sc)
       else scan_directive buf (tl (scan_format sc)) sc
     }
   }"

text \<open>A round that goes on has used up some of the format.\<close>

lemma skip_space_length: "skip_space cs = Some cs' \<Longrightarrow> length cs' \<le> length cs"
  by (induction cs) (auto split: if_splits intro: le_SucI)

lemma to_space_length: "to_space cs = Some cs' \<Longrightarrow> length cs' \<le> length cs"
  by (induction cs) (auto split: if_splits intro: le_SucI)

lemma scan_qualifier_length: "scan_qualifier cs = Some (q, cs') \<Longrightarrow> length cs' \<le> length cs"
  by (auto simp: scan_qualifier_def Let_def split: bind_splits if_splits)

lemma scan_store_format: "scan_store x sc = Some sc' \<Longrightarrow> scan_format sc' = scan_format sc"
  by (auto simp: scan_store_def split: list.splits if_splits)

lemma scan_integer_format: "scan_integer q sg base sc = Some (b, sc') \<Longrightarrow> scan_format sc' = scan_format sc"
  by (auto simp: scan_integer_def split: bind_splits if_splits dest!: scan_store_format)

lemma scan_conversion_format:
  assumes "scan_conversion c width q pos sc = Some (b, sc')"
  shows "scan_format sc' = scan_format sc"
  using assms unfolding scan_conversion_def
  by (auto split: bind_splits if_splits dest!: scan_store_format dest: scan_integer_format)

lemma scan_field_length:
  assumes "scan_field buf cs sc = Some (b, sc')"
  shows "length (scan_format sc') \<le> length cs"
  using assms unfolding scan_field_def bind_eq_Some_conv split_paired_Ex prod.case
proof (elim exE conjE, goal_cases)
  case (1 c width cs1 q cs2 d e)
  have "length (scan_format sc') \<le> length cs2" using 1(6) by (auto split: if_splits dest: scan_conversion_format)
  also have "\<dots> \<le> length cs1" by (rule scan_qualifier_length [OF 1(3)])
  also have "\<dots> \<le> length cs" using 1(2) by (auto split: if_splits dest: skip_atoi_length)
  finally show ?case .
qed

lemma scan_directive_length: "scan_directive buf cs sc = Some (b, sc') \<Longrightarrow> length (scan_format sc') \<le> length cs"
  by (auto simp: scan_directive_def split: bind_splits if_splits dest: to_space_length scan_field_length)

lemma scan_blanks_length: "scan_blanks f sc = Some sc' \<Longrightarrow> length (scan_format sc') \<le> length (scan_format sc)"
  by (auto simp: scan_blanks_def split: if_splits bind_splits dest: skip_space_length)

lemma scan_round_length:
  assumes "scan_round buf sc = Some (True, sc')"
  shows "length (scan_format sc') < length (scan_format sc)"
proof -
  obtain f0 sc1 f where
      s: "scan_blanks f0 sc = Some sc1" and
      f: "rd (scan_format sc1) 0 = Some f" and
      r: "scan_directive buf (tl (scan_format sc1)) sc1 = Some (True, sc') \<or> scan_format sc' = tl (scan_format sc1)"
    using assms unfolding scan_round_def bind_eq_Some_conv by (auto split: if_splits simp: bind_eq_Some_conv)
  have "length (scan_format sc') \<le> length (tl (scan_format sc1))"
    using r by (auto dest: scan_directive_length)
  moreover have "scan_format sc1 \<noteq> []" using f by (auto simp: rd_eq_Some_iff)
  ultimately show ?thesis using scan_blanks_length [OF s] by (cases "scan_format sc1") auto
qed

function scan_loop :: "u8 list \<Rightarrow> scanner \<Rightarrow> scanner option" where
  "scan_loop buf sc = (case scan_round buf sc of
     None \<Rightarrow> None
   | Some (again, sc) \<Rightarrow> if again then scan_loop buf sc else Some sc)"
  by pat_completeness auto
termination
  by (relation "measure (\<lambda>(buf, sc). length (scan_format sc))") (auto dest: scan_round_length)

declare scan_loop.simps [simp del]

section \<open>The functions\<close>

text \<open>The number of conversions and what has been stored.\<close>

definition Vsscanf :: "u8 list \<Rightarrow> u8 list \<Rightarrow> nat list \<Rightarrow> (u32 \<times> ScanStore list) option" where
  "Vsscanf buf format args = do {
     sc \<leftarrow> scan_loop buf \<lparr>scan_format = format, scan_str = buf, scan_dests = args, scan_num = 0, scan_stores = []\<rparr>;
     Some (scan_num sc, scan_stores sc)
   }"

definition Sscanf :: "u8 list \<Rightarrow> u8 list \<Rightarrow> nat list \<Rightarrow> (u32 \<times> ScanStore list) option" where
  "Sscanf buf format args = Vsscanf buf format args"

end
