(* ===== verification/Scan_Spec.thy ===== *)
theory Scan_Spec
  imports Scan_Format Number_Text_Spec
begin

text \<open>
  What \<open>Printf\<close> prints of a number, \<open>Sscanf\<close> reads back; and where \<open>Sscanf\<close> is not the function of the
  C library that its description refers to.
\<close>

unbundle bit_operations_syntax

lemma scan_rdigit:
  assumes "k < 16"
  shows "IS_XDIGIT (rdigit k) \<and> scan_digit (rdigit k) = of_nat k"
proof -
  have "list_all (\<lambda>k. IS_XDIGIT (rdigit k) \<and> scan_digit (rdigit k) = of_nat k) [0..<16]" by code_simp
  with assms show ?thesis by (simp add: list_all_iff)
qed

text \<open>The digits of a number in a base up to 16, modulo the width.\<close>

lemma strtoul_digits_text:
  assumes "2 \<le> unat base" and "unat base \<le> 16"
  shows "strtoul_digits base (rtext (unat base) n @ c # ys) 0 = strtoul_digits base (c # ys) (of_nat n)"
proof (induction n arbitrary: c ys rule: less_induct)
  case (less n)
  define k where "k = n mod unat base"
  have k: "k < unat base" "k < 16" using assms by (simp_all add: k_def less_le_trans [OF mod_less_divisor])
  have uk: "unat (of_nat k :: u32) = k" using k by (simp add: unat_of_nat take_bit_nat_eq_self)
  have one: "strtoul_digits base (rdigit k # c # ys) res = strtoul_digits base (c # ys) (res * base + of_nat k)" for res
    using scan_rdigit [OF k(2)] k(1) uk by (simp add: word_less_nat_alt)
  show ?case
  proof (cases "n < unat base")
    case True
    then show ?thesis using one [of 0] by (simp add: rtext_less k_def)
  next
    case False
    then have t: "rtext (unat base) n = rtext (unat base) (n div unat base) @ [rdigit k]"
      using assms by (simp add: rtext_step k_def)
    have "n div unat base < n" using False assms by (intro div_less_dividend) auto
    from less.IH [OF this, of "rdigit k" "c # ys"]
    have "strtoul_digits base (rtext (unat base) n @ c # ys) 0 =
        strtoul_digits base (c # ys) (of_nat (n div unat base) * base + of_nat k)"
      using one by (simp add: t)
    moreover have "of_nat (n div unat base) * base + of_nat k = (of_nat (n div unat base * unat base + n mod unat base) :: u32)"
      by (simp only: of_nat_add of_nat_mult k_def) simp
    ultimately show ?thesis by simp
  qed
qed

lemma simple_strtoul_dec: "simple_strtoul (dec_text n @ 0 # ys) 10 = Some (of_nat n, 0 # ys)"
proof -
  have "\<not> IS_XDIGIT 0" by code_simp
  then have d: "strtoul_digits 10 (dec_text n @ 0 # ys) 0 = Some (of_nat n, 0 # ys)"
    using strtoul_digits_text [of 10 n 0 ys] by (simp add: rtext_dec)
  obtain c cs where c: "dec_text n = c # cs" using dec_text_not_empty by (cases "dec_text n") auto
  then have p: "scan_prefix (dec_text n @ 0 # ys) 10 = Some (10, dec_text n @ 0 # ys)"
    by (simp add: scan_prefix_def rd_def)
  show ?thesis unfolding simple_strtoul_def p using d by simp
qed

lemma scan_number_dec:
  assumes "w \<noteq> 0x80000000"
  shows "scan_number 0 True 10 (int_text (sint w) @ 0 # ys) = Some (St_u32 w, 0 # ys)"
proof (cases "sint w < 0")
  case True
  have n: "nat (- sint w) = unat (- w)" using unat_of_sint(2) [OF True] by simp
  have "of_nat (unat (- w)) = - w" by simp
  moreover have "- w \<noteq> 0x80000000" 
  proof
    assume "- w = 0x80000000"
    then have "w = - 0x80000000" by (metis minus_minus)
    moreover have "(- 0x80000000 :: u32) = 0x80000000" by code_simp
    ultimately show False using assms by simp
  qed
  ultimately show ?thesis
    using True simple_strtoul_dec [of "unat (- w)" ys]
    by (simp add: scan_number_def simple_strtol_def int_text_def rd_def n)
next
  case False
  have n: "nat (sint w) = unat w" using unat_of_sint(1) [of w] False by simp
  obtain k cs where k: "dec_text (unat w) = rdigit k # cs" "k < 36"
    using rtext_first [of 10 "unat w"] by (auto simp: rtext_dec)
  then have "\<not> rdigit k = 0x2D" using rdigit_classes by blast
  with False k simple_strtoul_dec [of "unat w" ys] show ?thesis
    by (simp add: scan_number_def simple_strtol_def int_text_def rd_def n)
qed

lemma int_text_first:
  "\<exists>c cs. int_text i = c # cs \<and> \<not> IS_SPACE c \<and> c \<noteq> 0 \<and>
     (if c = 0x2D then cs \<noteq> [] \<and> IS_DIGIT (hd cs) \<and> hd cs \<noteq> 0 else IS_DIGIT c)"
proof -
  have d: "\<exists>k cs. dec_text n = rdigit k # cs \<and> k < 10" for n
  proof -
    obtain c cs where c: "dec_text n = c # cs" using dec_text_not_empty by (cases "dec_text n") auto
    then have "c \<in> set (rtext 10 n)" by (simp add: rtext_dec)
    with c rtext_digits [of 10 c n] show ?thesis by auto
  qed
  obtain k cs where k: "dec_text (nat \<bar>i\<bar>) = rdigit k # cs" "k < 10" using d by blast
  have m: "\<not> IS_SPACE 0x2D" by code_simp
  show ?thesis using k rdigit_classes [of k] m by (auto simp: int_text_def)
qed

lemma Sscanf_dec:
  assumes "w \<noteq> 0x80000000"
  shows "Sscanf (int_text (sint w) @ 0 # ys) [0x25, 0x64, 0] [4] = Some (1, [St_u32 w])"
proof -
  obtain c cs where c: "int_text (sint w) = c # cs" "\<not> IS_SPACE c" "c \<noteq> 0"
    "if c = 0x2D then cs \<noteq> [] \<and> IS_DIGIT (hd cs) \<and> hd cs \<noteq> 0 else IS_DIGIT c" using int_text_first by blast
  define buf where "buf = c # cs @ 0 # ys"
  define sc where "sc = \<lparr>scan_format = [0x25, 0x64, 0], scan_str = buf, scan_dests = [4], scan_num = 0, scan_stores = []\<rparr>"
  have f: "\<not> IS_SPACE 0x25" "\<not> IS_DIGIT 0x64" by code_simp+
  have skip: "skip_space buf = Some buf" "rd buf 0 = Some c" using c(2) by (simp_all add: buf_def rd_def)
  have num: "scan_number 0 True 10 buf = Some (St_u32 w, 0 # ys)"
    using scan_number_dec [OF assms, of ys] by (simp add: c(1) buf_def)
  obtain d where d: "(if c = 0x2D then rd buf 1 else Some c) = Some d" "d \<noteq> 0" "IS_DIGIT d"
    using c(3,4) by (cases cs) (auto simp: buf_def rd_def split: if_splits)
  have int: "scan_integer 0 True 10 (sc\<lparr>scan_format := [0]\<rparr>) =
      Some (True, sc\<lparr>scan_format := [0], scan_str := 0 # ys, scan_dests := [], scan_stores := [St_u32 w], scan_num := 1\<rparr>)"
    using skip num d by (simp add: scan_integer_def sc_def scan_store_def store_bytes_def)
  have "scan_round buf sc =
      Some (True, sc\<lparr>scan_format := [0], scan_str := 0 # ys, scan_dests := [], scan_stores := [St_u32 w], scan_num := 1\<rparr>)"
    using f c(3) skip int
    by (simp add: scan_round_def scan_blanks_def scan_directive_def scan_field_def scan_qualifier_def scan_conversion_def sc_def rd_def)
  moreover have "scan_round buf (sc\<lparr>scan_format := [0], scan_str := 0 # ys, scan_dests := [], scan_stores := [St_u32 w], scan_num := 1\<rparr>) =
      Some (False, sc\<lparr>scan_format := [0], scan_str := 0 # ys, scan_dests := [], scan_stores := [St_u32 w], scan_num := 1\<rparr>)"
    by (simp add: scan_round_def rd_def)
  ultimately have "scan_loop buf sc =
      Some (sc\<lparr>scan_format := [0], scan_str := 0 # ys, scan_dests := [], scan_stores := [St_u32 w], scan_num := 1\<rparr>)"
    by (simp add: scan_loop.simps)
  then show ?thesis by (simp add: Sscanf_def Vsscanf_def c(1) sc_def buf_def)
qed

lemma dec_text_length: "n < 10 ^ Suc d \<Longrightarrow> length (dec_text n) \<le> Suc d"
proof (induction d arbitrary: n)
  case 0
  then show ?case by (subst dec_text.simps) simp
next
  case (Suc d)
  then have "n div 10 < 10 ^ Suc d" by simp
  from Suc.IH [OF this] show ?case by (subst dec_text.simps) simp
qed

lemma int_text_length:
  fixes w :: u32
  shows "length (int_text (sint w)) \<le> 11"
proof -
  have r: "sint w < 2 ^ 31" "- (2 ^ 31) \<le> sint w" using sint_less [of w] sint_greater_eq [of w] by simp_all
  have "length (dec_text n) \<le> 10" if "n < 10 ^ 10" for n using dec_text_length [of n 9] that by simp
  moreover have "nat (sint w) < 10 ^ 10" "nat (- sint w) < 10 ^ 10" using r by simp_all
  ultimately show ?thesis by (fastforce simp: int_text_def)
qed

text \<open>C21: \<open>Sscanf\<close> reads back with \<open>%d\<close> the number that \<open>Snprintf\<close> printed with \<open>%d\<close>
  (\<open>usdl_io.c\<close>). For every signed 32-bit number but the least, whose magnitude the scanner cannot
  negate, and a size of at least twelve bytes that lies in the buffer, \<open>Snprintf\<close> returns the length of
  the decimal text of the number, at most eleven, leaves this text and a terminating zero at the beginning of the buffer
  and the rest of the buffer as it was, and \<open>Sscanf\<close> of the buffer counts one conversion and stores the number.\<close>

theorem Snprintf_Sscanf:
  assumes "w \<noteq> 0x80000000" and "12 \<le> unat sz" and "unat sz \<le> length buf" and "0 \<le> sint sz"
  shows "\<exists>n buf'. Snprintf buf sz [0x25, 0x64, 0] [Va_word w] = Some (n, buf', []) \<and>
    buf' = int_text (sint w) @ 0 # drop (Suc n) buf \<and> n = length (int_text (sint w)) \<and> n \<le> 11 \<and>
    Sscanf buf' [0x25, 0x64, 0] [4] = Some (1, [St_u32 w])"
proof -
  define n where "n = length (int_text (sint w))"
  have n: "n \<le> 11" unfolding n_def by (rule int_text_length)
  have "sz \<noteq> 0" using assms(2) by auto
  then have "Snprintf buf sz [0x25, 0x64, 0] [Va_word w] = Some (n, int_text (sint w) @ 0 # drop (Suc n) buf, [])"
    using Vsnprintf_is_cut_Vprintf [OF Vprintf_dec assms(3,4), of w] n assms(2) by (simp add: Snprintf_def n_def min_def)
  with n Sscanf_dec [OF assms(1)] show ?thesis by (simp add: n_def)
qed

theorem Snprintf_Sscanf_witness:
  "\<exists>n buf'. Snprintf (replicate 16 0xAA) 12 [0x25, 0x64, 0] [Va_word (- 7)] = Some (n, buf', []) \<and>
    Sscanf buf' [0x25, 0x64, 0] [4] = Some (1, [St_u32 (- 7)])"
  using Snprintf_Sscanf [of "- 7" 12 "replicate 16 0xAA"] by auto
section \<open>Differences from the library function\<close>

text \<open>The width of an integer conversion is read and not used; \<open>%zd\<close> does not read a sign, stores 0 and
  counts a conversion; \<open>%x\<close> takes a prefix that no digit follows for the number 0.\<close>

lemma Sscanf_ignores_width:
  "Sscanf [0x31, 0x32, 0x33, 0x34, 0] [0x25, 0x32, 0x64, 0x25, 0x64, 0] [4, 4] = Some (1, [St_u32 1234])"
  by code_simp

lemma Sscanf_size_sign: "Sscanf [0x2D, 0x35, 0] [0x25, 0x7A, 0x64, 0] [4] = Some (1, [St_u32 0])"
  by code_simp

lemma Sscanf_bare_prefix: "Sscanf [0x30, 0x78, 0x7A, 0] [0x25, 0x78, 0x25, 0x63, 0] [4, 1] = Some (2, [St_u32 0, St_text [0x7A]])"
  by code_simp

end
