(* ===== verification/Spec2Isabelle.thy ===== *)
theory Spec2Isabelle
  imports Ring_Buffer Byte_Data Checksum Protocol_Frame Frame_Scan Device_Params Dcg_Motor Can_Node Update_Path Calendar_Bcd Calendar_Sub Uart_Ota Boot_Faults Boot_Serial_Update Node_List_Spec C_String_Spec Memory_Rotation Memory_Match Mutex_Pool Number_Text_Spec Scan_Spec
begin

text \<open>
  A verification library for the firmware A1707 VARI3101: the boards of a remotely updated device
  on microcontrollers of the STM32F103 family. The repository holds two C programs that share one
  flash: the application (\<open>APP project\<close>, a thread program over RT-Thread, built once for every board)
  and the bootloader (\<open>IAP project\<close>). Paths below are relative to these two directories.

  1. The program and its parts.

  Bytes arrive over the CAN bus or a serial port. Interrupt handlers put them into ring buffers; a
  polling thread of the protocol framework takes them from there and offers them to protocol
  handlers; a handler finds a frame, checks its sum, executes the command and answers. The most
  important command is the firmware download: the application stores the image in the upper half of
  the flash, sets the update flag and resets. The bootloader reads the flag, checks the image,
  copies or decompresses it into the run area and resets the flag; when it finds no valid
  application it serves the same commands itself. On the DCG board further CAN messages drive a
  motor.

  2. Theories, in the order of the layers, and the code they model.

  Firmware_Prelude, Little_Endian: C integers as words, objects as lists with checked access (\<open>rd\<close>,
  \<open>wr\<close>, \<open>rds\<close>, \<open>wrs\<close>: \<open>None\<close> is an access outside the object or another undefined operation), and the
  collections \<open>mem_simps\<close> and \<open>word_nat\<close>; fields of bytes with the low byte first.

  Byte_Port, Ring_Buffer (common_lib/usdl_buf.c): the ring, and the interfaces below. Byte_Data
  (usdl_data.c, usdl_bit.c), Checksum (usdl_calc.c): bits, bytes, CRC-32, CRC-16, sums, sorting.
  Node_List, Node_List_Ops, Node_List_Moves, Node_List_Spec (usdl_list.c): intrusive lists in a
  heap of nodes. C_String, C_String_Spec (usdl_string.c); Memory_Ops, Memory_Spec, Memory_Rotation,
  Memory_Match, Mutex_Pool (usdl_mem.c): strings, blocks, the wildcard matcher, the pool of locked
  ranges. Print_Format, Print_Spec, Scan_Format, Scan_Spec (usdl_io.c): formatted output and input.
  Number_Text, Number_Text_Spec (usdl_conversion.c, the classes of usdl_tools.c): numbers, bytes
  and text. Calendar, Calendar_Sub, Calendar_Bcd (usdl_time.c): times of six bytes, binary and
  packed decimal.

  Flash_Store (drivers/flash_if.c), Flash_Layout and Device_Params (drivers/iap_if.c,
  bsp/DCG/app/param.c, general_app/manage_id.c): the flash, its pages counted from the end,
  parameters and update flag. Can_Bus (drivers/drv_can.c, bsp/DCG/app/canbus_middle.c): receive
  ring, sending, splitting into messages. Uart_Port (drivers/drv_com_uart.c): the serial port
  driver. Protocol_Frame (general_app/protocol_anylise_frame.c): handler table and polling thread.
  Frame_Scan: the scanner both handlers begin with. Can_Protocol (general_app/can_ota_protocol.c,
  can_search_protocol.c), Uart_Ota (uart_ota_protocol.c): the handlers. Can_Node
  (can_heartbeat_protocol.c, can_debug_protocol.c, the initialisation of the channel): a node on
  the bus. Dcg_Motor (bsp/DCG/UserThread/motor_x.c, bsp/DCG/app/pwm_output.c, the commands in
  drv_can.c): the motor.

  Boot_Flash (Projects/Src/flash_if.c, the programming loops of the HAL), Boot_Main (main.c,
  iap_if.c), Boot_Protocol (canbus_middle.c), Boot_Serial (stm32_uart.c, ota_protocol.c): the
  bootloader. Boot_Store, Boot_Service, Boot_Download, Boot_Serial_Update, Boot_Faults,
  Update_Path: its lemmas, the contract of an update channel, downloads from the first frame to the
  installed image, and where the two programs disagree. This theory joins the layers of the CAN
  path of the application.

  Definitions have the names of the code; the suffix \<open>_iap\<close> marks the bootloader's function where
  both programs have one. A loop is a function named after the function it stands in. The globals
  of a file are a record (\<open>can_app\<close>, \<open>uart_app\<close>, \<open>boot_app\<close>, \<open>ser_app\<close>, \<open>dev_vars\<close>, \<open>boot_vars\<close>, \<open>motor_vars\<close>);
  what a handler asks of line, timer and reset is a list of events in that record, in order.

  3. Interfaces.

  \<open>byte_port\<close> (what the polling thread needs of a source) and \<open>byte_queue\<close> (its extension by the
  receive path) hold for the ring buffer, the ring of the serial driver of the bootloader and,
  without the second part, for the serial port of the application; the lemmas on one polling round
  are proved in \<open>byte_port\<close>. \<open>flash_device\<close> and its extension \<open>hal_flash\<close> state what the programming
  manual documents of the flash: only erased half words are programmed, a page is erased as a
  whole, nothing else changes. They are interpreted on a controller with locks and error flags
  (\<open>stm32_hw\<close>). \<open>can_port\<close>: a mailbox reports its message as sent after fewer polls than the driver
  makes. \<open>boot_update_service\<close>: what start, block and end request of an update channel do to the
  flash; the bus channel and the serial channel of the bootloader are sublocales of it under
  \<open>hal_flash\<close>, and both installation theorems follow from its lemmas. \<open>print_outputs\<close>: two outputs of
  the formatter related step by step.

  4. What the theorems show.

  Downloads: the image that was sent is the image in the download area, or in the run area after
  the reset, every request is answered, and nothing else in the flash changes; a corrupt image
  leaves the old application running. Frames: what the scanner accepts, rejects and waits for; the
  answers of all constructors are frames for it. Framework: which bytes a round deletes for which
  verdicts of the handlers, in terms of the relation \<open>asked\<close>, which lists the handlers' verdicts.
  Queues: rings are bounded queues that drop their oldest entries. Motor: no change of direction
  without a stop, and the slow stop ends. Calendar: times are seconds since 2000; eleven of the
  twelve operations keep valid times valid, the twelfth says when it fails, and the operations on
  years and months have their exact results. Lists, strings, blocks, numbers and text: refinement
  to HOL's lists, round trips, and specifications that do not use the code.
\<close>

text \<open>
  5. Bounds, faults and termination.

  A function whose C text can leave its objects, divide by zero or overflow a signed number returns
  an option, and its properties prove \<open>Some\<close>. Handlers can fault: the scanner reads behind the buffer
  when this is full of head bytes (Frame_Scan, \<open>scan_runs_off_buffer\<close>), so the property
  on rounds speaks of rounds whose handlers return, and the ones on downloads prove that theirs do. Loops that need not end are partial
  functions to option (the loops of the calendar, \<open>mutex_wait\<close>, \<open>BytesMapChar_loop\<close>, \<open>boot_unz_loop\<close>);
  the calendar's are proved to end on valid times, \<open>TimeDECFix\<close> on any bytes, \<open>mutex_wait\<close> with a
  time-out; \<open>BytesMapChar_loop\<close> is proved not to end above 65535 bytes, and nothing is claimed of
  \<open>boot_unz_loop\<close>, which runs over the parameter \<open>unz\<close>; the others have a measure. There is no
  fuel; the update loop of the bootloader is run over a given list of rounds. Blocks of a download
  have at most 1448 bytes for the handler and 1011 through the ring of 1024 bytes; images have at
  most 106496 bytes, the constant of the code; block numbers have 16 bits.

  6. Where the model is coarser than the code.

  Threads and interrupts interleave between the operations of a component, not inside them; only
  the motor is a step relation, with a step for every pass of the slow stop. Its watchdog in the
  CAN thread is modelled as a function of its own (\<open>canbus_middle_round\<close>). In Mutex_Pool addresses
  are natural numbers and do not wrap, and what other tasks do while one waits is the parameter
  \<open>func\<close>. The functions of the bootloader's iap_if.c clear one error flag before they wait for the
  flash; here they clear all, as that wait does. The formatter, which the code has twice with the
  same text, is defined once over the output of a character. Buffers whose content the C text
  leaves open are parameters with any content (\<open>stk\<close>, \<open>pad\<close>). Outside the development: the
  RTOS, the vendor libraries, the network stacks and zlib (third-party code; what is used of them
  is a parameter), set-up of pins, clocks and interrupts, diagnostic printing, the sensors, and the
  applications of the boards other than DCG, which are near copies around the shared part. The
  packed-decimal arithmetic on arrays of usdl_conversion.c and usdl_tools.c is not modelled.

  7. What modelling showed.

  Faults of the code are lemmas beside the component they are in; the more important ones: the two
  programs declare the image information differently, so that an update stored by the application
  is never installed (Update_Path); the bootloader addresses its answers to an identifier that is
  not the asking device's, confirms blocks it has not stored and keeps incomplete frames
  (Boot_Faults); the scanner replays old frames and reads behind its buffer (Frame_Scan); the
  application's parameters are reset at every start and a forced update is never seen
  (Device_Params); a request for a locked range can be granted an overlapping one (Mutex_Pool);
  adding and subtracting months lose days (Calendar_Sub); the formatter drops the high half of long
  numbers (Print_Spec).
\<close>

text \<open>C5: a block of firmware goes from one device over the bus into the flash of another. When the
  sender gives an update request to its CAN driver, whose bus delivers messages in order, and the
  receiver, freshly initialised, feeds what it receives into the ring of its 0x500 channel, one
  round of the polling thread finds the frame, stores the block at its place in the download area
  and nowhere else, queues one answer with state 0, and leaves the ring empty.\<close>

theorem block_reaches_flash_over_bus:
  assumes bus: "can_port chw bus free left" and c: "free c" "length (Data tx0) = 8"
    and flash: "flash_device hw ready main" "flash_layout hw main (dev_flash (can_vars a))"
    and init: "can_ota_init (Some mem) True (Some mem2) tid = (ring, Some comm)" "length mem = 1024" "length mem2 = 1024"
    and bs: "length bs \<le> 1011" and frame: "frame = update_frame (ID (iap_param (can_vars a))) sender num bs"
    and off: "off = ucast num * OTA_SubSize a" "off mod 4 = 0" "off < OTA_BIN_MAX_SIZE"
    and blank: "erased hw (dev_flash (can_vars a)) (download_area hw (dev_flash (can_vars a)) + off) (length bs + 4)"
    and stk: "100 \<le> length stk"
  shows "\<exists>c' msgs ring1 comm' ring2 a' ack.
    canbus_middle_send chw c tx0 0x500 frame (of_nat (length frame)) = Some (of_nat (length frame), c') \<and>
    bus c' = bus c @ msgs \<and> can500_feed ring msgs = Some ring1 \<and>
    protocol_anylise_process (can500_call hw stk pad) t1 t2 comm ring1 a = Some (comm', ring2, a') \<and>
    ring_list ring2 = [] \<and>
    hw_byte hw (dev_flash (can_vars a')) = put_bytes (hw_byte hw (dev_flash (can_vars a)))
      (download_area hw (dev_flash (can_vars a)) + off) bs \<and>
    can_trace a' = can_trace a @ [Can_send 0x500 ack] \<and> ack ! 10 = 0"
proof -
  note i = can_ota_init_ok [OF init(2,3,1)]
  have len: "length frame = length bs + 12"
    unfolding frame by (rule update_frame_fields(1) [OF refl])
  have u: "unat (of_nat (length frame) :: u32) = length frame"
    unfolding unat_of_nat_u32 using bs len by simp
  obtain c' msgs where s: "canbus_middle_send chw c tx0 0x500 frame (of_nat (length frame)) = Some (of_nat (length frame), c')"
      "bus c' = bus c @ msgs" "\<forall>m \<in> set msgs. data_msg 0x500 m" "concat (map payload msgs) = frame"
    using can_port.canbus_middle_send_sends [OF bus c, of "of_nat (length frame)" frame "0x500"] u by auto
  obtain ring1 where ring1: "can500_feed ring msgs = Some ring1" "ring_ok ring1" "ring_list ring1 = frame"
    using can500_feed_keeps_last [OF i(1) s(3)] bs len by (auto simp: i(2,3) s(4))
  obtain a' ack where a': "can500_protocol_anylise hw stk pad a (frame @ drop (length frame) (comm_buf comm))
        (of_nat (length frame)) = Some (\<lparr>info_state = anylise_accept, del_len = of_nat (length frame)\<rparr>, a')"
      "hw_byte hw (dev_flash (can_vars a')) = put_bytes (hw_byte hw (dev_flash (can_vars a)))
        (download_area hw (dev_flash (can_vars a)) + off) bs"
      "can_trace a' = can_trace a @ [Can_send 0x500 ack]" "ack ! 10 = 0"
    using flash_device.can500_block_stored [OF flash refl off _ blank refl stk] bs unfolding frame len [unfolded frame] by fastforce
  have "0 < length frame" "length frame \<le> 1023" using bs len by simp_all
  from can500_round [OF ring1(2) i(4,6,5,7) ring1(3) this a'(1), of t1 t2]
  show ?thesis using s(1,2) ring1(1) a'(2-4) by blast
qed

theorem block_reaches_flash_over_bus_witness:
  "\<exists>c' ring1 comm' ring2 a'.
    canbus_middle_send line_hw \<lparr>line_sent = [], line_wait = 3, line_left = 0\<rparr> (sample_msg 0) 0x500
      (update_frame 0x0201 7 2 [1, 2, 3]) 15 = Some (15, c') \<and>
    can500_feed (fst (can_ota_init (Some (replicate 1024 0)) True (Some (replicate 1024 0)) (Some 1))) (line_sent c') = Some ring1 \<and>
    protocol_anylise_process (can500_call stm32_hw (replicate 100 0) []) 5 6
      (the (snd (can_ota_init (Some (replicate 1024 0)) True (Some (replicate 1024 0)) (Some 1)))) ring1 sample_app =
      Some (comm', ring2, a') \<and>
    ring_list ring2 = [] \<and> cells (dev_flash (can_vars a')) 0x08023811 = 2"
proof -
  define init where "init = can_ota_init (Some (replicate 1024 0)) True (Some (replicate 1024 0)) (Some 1)"
  obtain ring comm where i: "init = (ring, Some comm)"
    by (auto simp: init_def can_ota_init_def Let_def comm_dev_create_def protocol_anylise_add_def
        protocol_anylise_startup_def PROTOCOL_FUN_MAX_def numeral_3_eq_3 split: if_splits)
  have ID: "ID (iap_param (can_vars sample_app)) = 0x0201" "OTA_SubSize sample_app = 8" "can_trace sample_app = []"
    by (simp_all add: sample_app_def sample_vars_def)
  have frame: "update_frame 0x0201 7 2 [1, 2, 3] = update_frame (ID (iap_param (can_vars sample_app))) 7 2 [1, 2, 3]"
    by (simp add: ID)
  have fl: "length (update_frame 0x0201 7 2 [1, 2, 3]) = 15"
    using update_frame_fields(1) [OF refl, of "0x0201" 7 2 "[1, 2, 3]"] by simp
  have layout: "flash_layout stm32_hw stm32_main (dev_flash (can_vars sample_app))"
    using sample_layout by (simp add: sample_app_def)
  have e: "hw_byte stm32_hw (dev_flash (can_vars sample_app)) (0x08023800 + of_nat k) = 0xFF" if "k < 100" for k
    using sample_erased [of 100] that by (simp add: erased_def)
  have "erased stm32_hw (dev_flash (can_vars sample_app)) (0x08023800 + 16) (length [1, 2, 3 :: u8] + 4)"
    unfolding erased_def
  proof (intro allI impI)
    fix k :: nat
    assume "k < length [1, 2, 3 :: u8] + 4"
    then show "hw_byte stm32_hw (dev_flash (can_vars sample_app)) (0x08023800 + 16 + of_nat k) = 0xFF"
      using e [of "16 + k"] by (simp add: ac_simps)
  qed
  then have blank: "erased stm32_hw (dev_flash (can_vars sample_app))
      (download_area stm32_hw (dev_flash (can_vars sample_app)) + 16) (length [1, 2, 3 :: u8] + 4)"
    unfolding sample_area .
  have "\<exists>c' msgs ring1 comm' ring2 a' ack.
    canbus_middle_send line_hw \<lparr>line_sent = [], line_wait = 3, line_left = 0\<rparr> (sample_msg 0) 0x500
      (update_frame 0x0201 7 2 [1, 2, 3]) (of_nat (length (update_frame 0x0201 7 2 [1, 2, 3]))) =
      Some (of_nat (length (update_frame 0x0201 7 2 [1, 2, 3])), c') \<and>
    line_sent c' = line_sent \<lparr>line_sent = [], line_wait = 3, line_left = 0\<rparr> @ msgs \<and> can500_feed ring msgs = Some ring1 \<and>
    protocol_anylise_process (can500_call stm32_hw (replicate 100 0) []) 5 6 comm ring1 sample_app = Some (comm', ring2, a') \<and>
    ring_list ring2 = [] \<and>
    hw_byte stm32_hw (dev_flash (can_vars a')) = put_bytes (hw_byte stm32_hw (dev_flash (can_vars sample_app)))
      (download_area stm32_hw (dev_flash (can_vars sample_app)) + 16) [1, 2, 3] \<and>
    can_trace a' = can_trace sample_app @ [Can_send 0x500 ack] \<and> ack ! 10 = 0"
    by (intro block_reaches_flash_over_bus [OF line.can_port_axioms _ _ stm32.flash_device_axioms layout
          i [unfolded init_def] _ _ _ frame _ _ _ blank])
       (simp_all add: sample_msg_def ID OTA_BIN_MAX_SIZE_def FLASH_PAGE_SIZE_def)
  then obtain c' ring1 comm' ring2 a' where r:
    "canbus_middle_send line_hw \<lparr>line_sent = [], line_wait = 3, line_left = 0\<rparr> (sample_msg 0) 0x500
      (update_frame 0x0201 7 2 [1, 2, 3]) 15 = Some (15, c')" "can500_feed ring (line_sent c') = Some ring1"
    "protocol_anylise_process (can500_call stm32_hw (replicate 100 0) []) 5 6 comm ring1 sample_app = Some (comm', ring2, a')"
    "ring_list ring2 = []" "hw_byte stm32_hw (dev_flash (can_vars a')) =
      put_bytes (hw_byte stm32_hw (dev_flash (can_vars sample_app))) (0x08023800 + 16) [1, 2, 3]"
    unfolding fl sample_area by auto
  have "hw_byte stm32_hw (dev_flash (can_vars a')) 0x08023811 = 2" unfolding r(5) by (simp add: put_bytes_def)
  then have "cells (dev_flash (can_vars a')) 0x08023811 = 2" by (simp add: stm32_hw_def)
  then show ?thesis using r(1-4) unfolding init_def [symmetric] i fst_conv snd_conv option.sel by blast
qed

end
